(* ===== verification/Prelude.thy ===== *)
theory Prelude
  imports Main "HOL-Library.Word"
begin

text \<open>
  Shared vocabulary of the development: bytes and byte slices as the Go code has them, the
  result type of the fallible routines, and the list lemmas the component theories use.

  A Go \<^verbatim>\<open>[]byte\<close> (and a Go \<^verbatim>\<open>string\<close>, which is an immutable byte sequence) is a list of
  8-bit words. Offsets are \<^typ>\<open>nat\<close>: every offset the modelled code computes is a length or an
  index of a subslice, hence non-negative and far below the 64-bit limit. Where the code relies on
  a fixed width (masks, hashes, digit arithmetic) the word type is kept.
\<close>

unbundle bit_operations_syntax

type_synonym byte = "8 word"
type_synonym bytes = "byte list"

text \<open>The collection of facts that decide character classes of concrete bytes.\<close>

named_theorems ascii \<open>definitions of the character classes\<close>

text \<open>Facts about Go slices and sub-lists.\<close>

named_theorems slices \<open>simplification of slices and element access\<close>

subsection \<open>ASCII characters the grammar names\<close>

abbreviation (input) ch_tab :: byte where "ch_tab \<equiv> 0x09"
abbreviation (input) ch_lf :: byte where "ch_lf \<equiv> 0x0A"
abbreviation (input) ch_cr :: byte where "ch_cr \<equiv> 0x0D"
abbreviation (input) ch_space :: byte where "ch_space \<equiv> 0x20"
abbreviation (input) ch_quote :: byte where "ch_quote \<equiv> 0x22"
abbreviation (input) ch_plus :: byte where "ch_plus \<equiv> 0x2B"
abbreviation (input) ch_comma :: byte where "ch_comma \<equiv> 0x2C"
abbreviation (input) ch_minus :: byte where "ch_minus \<equiv> 0x2D"
abbreviation (input) ch_dot :: byte where "ch_dot \<equiv> 0x2E"
abbreviation (input) ch_slash :: byte where "ch_slash \<equiv> 0x2F"
abbreviation (input) ch_0 :: byte where "ch_0 \<equiv> 0x30"
abbreviation (input) ch_1 :: byte where "ch_1 \<equiv> 0x31"
abbreviation (input) ch_9 :: byte where "ch_9 \<equiv> 0x39"
abbreviation (input) ch_colon :: byte where "ch_colon \<equiv> 0x3A"
abbreviation (input) ch_E :: byte where "ch_E \<equiv> 0x45"
abbreviation (input) ch_lbracket :: byte where "ch_lbracket \<equiv> 0x5B"
abbreviation (input) ch_backslash :: byte where "ch_backslash \<equiv> 0x5C"
abbreviation (input) ch_rbracket :: byte where "ch_rbracket \<equiv> 0x5D"
abbreviation (input) ch_b :: byte where "ch_b \<equiv> 0x62"
abbreviation (input) ch_e :: byte where "ch_e \<equiv> 0x65"
abbreviation (input) ch_f :: byte where "ch_f \<equiv> 0x66"
abbreviation (input) ch_n :: byte where "ch_n \<equiv> 0x6E"
abbreviation (input) ch_r :: byte where "ch_r \<equiv> 0x72"
abbreviation (input) ch_t :: byte where "ch_t \<equiv> 0x74"
abbreviation (input) ch_u :: byte where "ch_u \<equiv> 0x75"
abbreviation (input) ch_lbrace :: byte where "ch_lbrace \<equiv> 0x7B"
abbreviation (input) ch_rbrace :: byte where "ch_rbrace \<equiv> 0x7D"
abbreviation (input) ch_tilde :: byte where "ch_tilde \<equiv> 0x7E"

abbreviation (input) lit_null :: bytes where "lit_null \<equiv> [0x6E, 0x75, 0x6C, 0x6C]"
abbreviation (input) lit_true :: bytes where "lit_true \<equiv> [0x74, 0x72, 0x75, 0x65]"
abbreviation (input) lit_false :: bytes where "lit_false \<equiv> [0x66, 0x61, 0x6C, 0x73, 0x65]"

subsection \<open>Results of fallible routines\<close>

text \<open>
  A routine that returns \<^verbatim>\<open>(value, error)\<close> yields \<open>Ok\<close> or \<open>Fail\<close>. The recursive-descent
  routines carry fuel, and \<open>NoFuel\<close> is the outcome of a run that was cut off; every component
  proves that the fuel its entry points pass is never exhausted.
\<close>

datatype ('e, 'a) outcome = Ok 'a | Fail 'e | NoFuel

definition bind_outcome :: "('e, 'a) outcome \<Rightarrow> ('a \<Rightarrow> ('e, 'b) outcome) \<Rightarrow> ('e, 'b) outcome" where
  "bind_outcome r k = (case r of Ok x \<Rightarrow> k x | Fail e \<Rightarrow> Fail e | NoFuel \<Rightarrow> NoFuel)"

lemma bind_outcome_simps [simp]:
  "bind_outcome (Ok x) k = k x"
  "bind_outcome (Fail e) k = Fail e"
  "bind_outcome NoFuel k = NoFuel"
  by (simp_all add: bind_outcome_def)

lemma bind_outcome_eq_Ok: "bind_outcome r k = Ok y \<longleftrightarrow> (\<exists>x. r = Ok x \<and> k x = Ok y)"
  by (cases r) simp_all

lemma bind_outcome_eq_NoFuel:
  "bind_outcome r k = NoFuel \<longleftrightarrow> r = NoFuel \<or> (\<exists>x. r = Ok x \<and> k x = NoFuel)"
  by (cases r) simp_all

lemma bind_outcome_cong [fundef_cong]:
  assumes "r = r'" and "\<And>x. r' = Ok x \<Longrightarrow> k x = k' x"
  shows "bind_outcome r k = bind_outcome r' k'"
  using assms by (cases r') simp_all

subsection \<open>Slices\<close>

text \<open>Go's slice expression \<^verbatim>\<open>src[i:j]\<close>, for \<^verbatim>\<open>0 <= i <= j <= len(src)\<close>.\<close>

definition subslice :: "'a list \<Rightarrow> nat \<Rightarrow> nat \<Rightarrow> 'a list" where
  "subslice xs i j = take (j - i) (drop i xs)"

lemma slice_self [slices, simp]: "subslice xs i i = []"
  by (simp add: subslice_def)

lemma length_slice [slices]: "j \<le> length xs \<Longrightarrow> length (subslice xs i j) = j - i"
  by (simp add: subslice_def)

lemma slice_full: "subslice xs 0 (length xs) = xs"
  by (simp add: subslice_def)

lemma slice_append_slice:
  "i \<le> j \<Longrightarrow> j \<le> k \<Longrightarrow> subslice xs i j @ subslice xs j k = subslice xs i k"
proof -
  assume "i \<le> j" "j \<le> k"
  then have "k - i = (j - i) + (k - j)" and d: "drop j xs = drop (j - i) (drop i xs)" by simp_all
  then have "subslice xs i k = take (j - i) (drop i xs) @ take (k - j) (drop (j - i) (drop i xs))"
    unfolding subslice_def by (simp only: take_add)
  then show ?thesis by (simp add: subslice_def d)
qed

lemma slice_Suc: "i < length xs \<Longrightarrow> subslice xs i (Suc i) = [xs ! i]"
  by (simp add: subslice_def Cons_nth_drop_Suc [symmetric])

lemma slice_Cons: "i < j \<Longrightarrow> i < length xs \<Longrightarrow> subslice xs i j = xs ! i # subslice xs (Suc i) j"
proof -
  assume "i < j" "i < length xs"
  then have "subslice xs i j = take (Suc (j - Suc i)) (xs ! i # drop (Suc i) xs)"
    by (simp add: subslice_def Suc_diff_Suc Cons_nth_drop_Suc)
  then show ?thesis by (simp add: subslice_def)
qed

lemma drop_slice: "i \<le> j \<Longrightarrow> drop i xs = subslice xs i j @ drop j xs"
proof -
  assume "i \<le> j"
  then have "drop j xs = drop (j - i) (drop i xs)" by simp
  then show ?thesis by (simp only: subslice_def append_take_drop_id)
qed

lemma nth_slice [slices]: "k < j - i \<Longrightarrow> j \<le> length xs \<Longrightarrow> subslice xs i j ! k = xs ! (i + k)"
  by (simp add: subslice_def)

lemma set_slice_subset: "set (subslice xs i j) \<subseteq> set xs"
  unfolding subslice_def by (meson order_trans set_drop_subset set_take_subset)

subsection \<open>Reading at an offset\<close>

text \<open>
  The specification side works with what is left of the input, \<open>drop i src\<close>; the code works
  with an index. These facts connect the two.
\<close>

lemma drop_eq_ConsD:
  assumes "drop i xs = y # ys"
  shows "i < length xs" "xs ! i = y" "drop (Suc i) xs = ys"
proof -
  show l: "i < length xs" using assms by (metis drop_eq_Nil list.discI not_le)
  show "xs ! i = y" using assms l by (metis hd_drop_conv_nth list.sel(1))
  show "drop (Suc i) xs = ys" using assms by (metis drop_Suc list.sel(3) tl_drop)
qed

lemma drop_eq_Cons_iff:
  "drop i xs = y # ys \<longleftrightarrow> i < length xs \<and> xs ! i = y \<and> drop (Suc i) xs = ys"
  using drop_eq_ConsD [of i xs y ys] Cons_nth_drop_Suc [of i xs] by auto

lemma drop_eq_appendD:
  assumes "drop i xs = ys @ zs"
  shows "drop (i + length ys) xs = zs"
  using assms by (metis add.commute append_eq_conv_conj drop_drop)

lemma drop_eq_append_le:
  assumes "drop i xs = ys @ zs" and "ys \<noteq> []"
  shows "i + length ys \<le> length xs"
proof -
  have "length (drop i xs) = length ys + length zs" using assms(1) by simp
  then have "length xs - i = length ys + length zs" by simp
  moreover have "length ys > 0" using assms(2) by simp
  ultimately show ?thesis by linarith
qed

lemma slice_of_drop: "drop i xs = ys @ zs \<Longrightarrow> subslice xs i (i + length ys) = ys"
  by (simp add: subslice_def)

lemma nth_of_drop: "drop i xs = ys @ zs \<Longrightarrow> k < length ys \<Longrightarrow> xs ! (i + k) = ys ! k"
proof -
  assume a: "drop i xs = ys @ zs" "k < length ys"
  then have "length xs - i > 0" by (metis append_is_Nil_conv length_0_conv length_drop length_greater_0_conv not_less_zero)
  then have "i \<le> length xs" by simp
  then have "xs ! (i + k) = drop i xs ! k" by simp
  with a show ?thesis by (simp add: nth_append)
qed

end
