(* ===== verification/Swar.thy ===== *)
theory Swar
  imports Prelude
begin

text \<open>
  Word-at-a-time byte classification (\<^verbatim>\<open>x/scanner/scan_generic.go\<close>, the mask routines): eight
  bytes are loaded as one little-endian 64-bit word, and a mask routine sets the high bit of
  each byte lane that holds a byte of interest. The subtraction in the masks borrows across
  lanes, so lanes above the first hit may be wrong; what the code relies on, and what the
  locale \<open>swar_mask\<close> states, is that every lane up to and including the first hit is exact.
\<close>

subsection \<open>Little-endian loads\<close>

primrec le_word :: "bytes \<Rightarrow> 'a::len word" where
  "le_word [] = 0"
| "le_word (b # bs) = ucast b OR push_bit 8 (le_word bs)"

text \<open>\<^verbatim>\<open>binary.LittleEndian.Uint64(src[i:])\<close>; the caller guarantees eight readable bytes.\<close>

definition le64 :: "bytes \<Rightarrow> nat \<Rightarrow> 64 word" where
  "le64 src i = le_word (subslice src i (i + 8))"

definition le32 :: "bytes \<Rightarrow> nat \<Rightarrow> 32 word" where
  "le32 src i = le_word (subslice src i (i + 4))"

definition lane :: "nat \<Rightarrow> 64 word \<Rightarrow> byte" where
  "lane k w = ucast (drop_bit (8 * k) w)"

text \<open>\<^verbatim>\<open>bits.TrailingZeros64\<close>: the number of zero bits below the lowest set bit, 64 for zero.\<close>

definition TrailingZeros64 :: "64 word \<Rightarrow> nat" where
  "TrailingZeros64 x = length (takeWhile (\<lambda>n. \<not> bit x n) [0..<64])"

lemma TrailingZeros64_lt: "x \<noteq> 0 \<Longrightarrow> TrailingZeros64 x < 64"
proof -
  assume "x \<noteq> 0"
  then obtain n where "bit x n" by (auto simp: bit_eq_iff)
  then have "\<exists>n\<in>set [0..<64]. \<not> \<not> bit x n" using bit_imp_le_length [of x n] by auto
  then have "takeWhile (\<lambda>n. \<not> bit x n) [0..<64] \<noteq> [0..<64]" by (metis takeWhile_eq_all_conv)
  then have "length (takeWhile (\<lambda>n. \<not> bit x n) [0..<64]) \<noteq> length [0..<64]"
    by (metis takeWhile_eq_take take_all order_refl)
  then show ?thesis using length_takeWhile_le [of "\<lambda>n. \<not> bit x n" "[0..<64]"] by (simp add: TrailingZeros64_def)
qed

subsection \<open>The masks\<close>

abbreviation (input) highBits :: "64 word" where "highBits \<equiv> 0x8080808080808080"
abbreviation (input) htmlQuoteAmpFold :: "64 word" where "htmlQuoteAmpFold \<equiv> 0x0404040404040404"
abbreviation (input) htmlAngleBracketFold :: "64 word" where
  "htmlAngleBracketFold \<equiv> 0x0202020202020202"

definition byteEqMask :: "64 word \<Rightarrow> byte \<Rightarrow> 64 word" where
  "byteEqMask x b =
     (let y = x XOR (ucast b * 0x0101010101010101)
      in (y - 0x0101010101010101) AND NOT y AND highBits)"

definition stringSpecialMask :: "64 word \<Rightarrow> 64 word" where
  "stringSpecialMask x =
     byteEqMask x ch_quote OR
     byteEqMask x ch_backslash OR
     ((x - 0x2020202020202020) AND NOT x AND highBits) OR
     (x AND highBits)"

definition stringSyntaxMask :: "64 word \<Rightarrow> 64 word" where
  "stringSyntaxMask x =
     byteEqMask x ch_quote OR
     byteEqMask x ch_backslash OR
     ((x - 0x2020202020202020) AND NOT x AND highBits)"

definition htmlStringSpecialMask :: "64 word \<Rightarrow> 64 word" where
  "htmlStringSpecialMask x =
     byteEqMask (x OR htmlQuoteAmpFold) 0x26 OR
     byteEqMask x ch_backslash OR
     ((x - 0x2020202020202020) AND NOT x AND highBits) OR
     (x AND highBits) OR
     byteEqMask (x OR htmlAngleBracketFold) 0x3E"

text \<open>The mask inlined in \<^verbatim>\<open>scanEncodedHTMLSyntaxScalar\<close>.\<close>

definition htmlStringSyntaxMask :: "64 word \<Rightarrow> 64 word" where
  "htmlStringSyntaxMask x =
     byteEqMask (x OR htmlQuoteAmpFold) 0x26 OR
     byteEqMask x ch_backslash OR
     ((x - 0x2020202020202020) AND NOT x AND highBits) OR
     byteEqMask (x OR htmlAngleBracketFold) 0x3E"

subsection \<open>Lanes of words\<close>

lemma bit_byte_lt: "bit (b :: byte) n \<Longrightarrow> n < 8"
  using bit_imp_le_length [of b n] by simp

lemma bit_lane: "bit (lane k w) n \<longleftrightarrow> n < 8 \<and> bit w (8 * k + n)"
  by (auto simp: lane_def bit_simps)

lemma lane_and [simp]: "lane k (a AND b) = lane k a AND lane k b"
  and lane_or [simp]: "lane k (a OR b) = lane k a OR lane k b"
  and lane_xor [simp]: "lane k (a XOR b) = lane k a XOR lane k b"
  by (rule bit_word_eqI; auto simp: bit_lane bit_simps)+

lemma lane_not [simp]: "k < 8 \<Longrightarrow> lane k (NOT a) = NOT (lane k a)"
  by (rule bit_word_eqI) (auto simp: bit_lane bit_simps)

lemma byte_disjoint: "ucast (b :: byte) AND push_bit 8 w = (0 :: 64 word)"
proof (rule bit_word_eqI)
  fix n :: nat
  show "bit (ucast b AND push_bit 8 w :: 64 word) n \<longleftrightarrow> bit (0 :: 64 word) n"
    using bit_byte_lt [of b n] by (auto simp: bit_simps)
qed

lemma ucast_add_256: "ucast (b :: byte) + 256 * w = (ucast b OR push_bit 8 w :: 64 word)"
proof -
  have "256 * w = push_bit 8 w" by (simp add: push_bit_eq_mult mult.commute)
  then show ?thesis by (simp add: disjunctive_add_eq_or byte_disjoint)
qed

lemma le_word_Cons_add: "(le_word (b # bs) :: 64 word) = ucast b + 256 * le_word bs"
  by (simp add: ucast_add_256)

lemma ucast_up_down: "ucast (ucast (b :: byte) :: 64 word) = b"
  by transfer simp

lemma down_cast_add: "(ucast (a + b :: 64 word) :: byte) = ucast a + ucast b"
proof (transfer)
  fix a b :: int
  show "take_bit LENGTH(8) (take_bit LENGTH(64) (a + b))
      = take_bit LENGTH(8) (take_bit LENGTH(64) a + take_bit LENGTH(64) b)"
    using take_bit_add [of 8 "take_bit 64 a" "take_bit 64 b"] take_bit_add [of 8 a b] by simp
qed

lemma down_cast_256: "(ucast (256 * a :: 64 word) :: byte) = 0"
proof -
  have "256 * a = push_bit 8 a" by (simp add: push_bit_eq_mult mult.commute)
  then show ?thesis by (intro bit_word_eqI) (simp add: bit_simps)
qed

lemma down_cast_sub: "(ucast (a - b :: 64 word) :: byte) = ucast a - ucast b"
  using down_cast_add [of "a - b" b] by (simp add: algebra_simps)

lemma lane_0_Cons: "lane 0 (ucast b + 256 * w) = b"
  by (simp add: lane_def down_cast_add down_cast_256 ucast_up_down)

lemma lane_Suc_Cons: "k < 7 \<Longrightarrow> lane (Suc k) (ucast (b :: byte) + 256 * w) = lane k w"
  unfolding ucast_add_256
  by (intro bit_word_eqI) (auto simp: bit_lane bit_simps dest: bit_byte_lt)

lemma up_cast_sub: "y \<le> x \<Longrightarrow> (ucast x - ucast (y :: byte) :: 64 word) = ucast (x - y)"
proof -
  assume le: "y \<le> x"
  have "ucast (x - y) + ucast y = (ucast x :: 64 word)"
  proof (rule word_unat_eq_iff [THEN iffD2])
    have "unat (x - y) = unat x - unat y" and "unat y \<le> unat x" and "unat x < 256"
      using le unsigned_less [of x] by (simp_all add: unat_sub word_le_nat_alt)
    then show "unat (ucast (x - y) + ucast y :: 64 word) = unat (ucast x :: 64 word)"
      by (simp add: unat_word_ariths unsigned_ucast_eq take_bit_eq_mod)
  qed
  then show ?thesis by (metis add_diff_cancel_right')
qed

text \<open>Every lane below which no lane borrows is subtracted on its own.\<close>

lemma lane_sub_le_word:
  assumes "length xs = length ys" and "k < length xs" and "k < 8"
    and "\<And>j. j < k \<Longrightarrow> ys ! j \<le> xs ! j"
  shows "lane k (le_word xs - le_word ys) = xs ! k - ys ! k"
  using assms
proof (induction xs ys arbitrary: k rule: list_induct2)
  case Nil
  then show ?case by simp
next
  case (Cons x xs y ys)
  have e: "le_word (x # xs) - le_word (y # ys)
      = ucast x - ucast y + 256 * (le_word xs - le_word ys :: 64 word)"
    by (simp only: le_word_Cons_add) (simp add: algebra_simps)
  show ?case
  proof (cases k)
    case 0
    then show ?thesis unfolding e
      by (simp add: lane_def down_cast_add down_cast_sub down_cast_256 ucast_up_down)
  next
    case (Suc k')
    with Cons.prems(3) have "y \<le> x" by (metis nth_Cons_0 zero_less_Suc)
    then have "(ucast x - ucast y :: 64 word) = ucast (x - y)"
      by (rule up_cast_sub)
    moreover have "lane k' (le_word xs - le_word ys) = xs ! k' - ys ! k'"
      using Cons.prems Suc by (intro Cons.IH) fastforce+
    ultimately show ?thesis using Suc Cons.prems(2) unfolding e
      by (simp add: lane_Suc_Cons del: right_diff_distrib_numeral)
  qed
qed

lemma lane_le_word: "k < length bs \<Longrightarrow> k < 8 \<Longrightarrow> lane k (le_word bs) = bs ! k"
proof (induction bs arbitrary: k)
  case (Cons b bs)
  then show ?case by (cases k) (simp_all only: le_word_Cons_add lane_0_Cons lane_Suc_Cons, simp_all)
qed simp

lemma bit_le_word:
  "n < LENGTH('a) \<Longrightarrow> bit (le_word bs :: 'a::len word) n \<longleftrightarrow>
     n div 8 < length bs \<and> bit (bs ! (n div 8)) (n mod 8)"
proof (induction bs arbitrary: n)
  case (Cons b bs)
  show ?case
  proof (cases "n < 8")
    case True
    then show ?thesis using Cons.prems by (auto simp: bit_simps)
  next
    case False
    then have "n div 8 = Suc ((n - 8) div 8)" "n mod 8 = (n - 8) mod 8"
      by (simp_all add: le_div_geq le_mod_geq)
    with False Cons.IH [of "n - 8"] Cons.prems show ?thesis
      using bit_byte_lt [of b n] by (auto simp: bit_simps)
  qed
qed simp

text \<open>A load determines the bytes it covers.\<close>

lemma le_word_inject:
  assumes eq: "(le_word bs :: 'a::len word) = le_word cs"
    and len: "length bs = length cs" "8 * length cs \<le> LENGTH('a)"
  shows "bs = cs"
proof (rule nth_equalityI [OF len(1)])
  fix k assume k: "k < length bs"
  show "bs ! k = cs ! k"
  proof (rule bit_word_eqI)
    fix n assume "n < LENGTH(8)"
    then have n: "n < 8" by simp
    then have "8 * k + n < LENGTH('a)" using k len by linarith
    with n k len show "bit (bs ! k) n = bit (cs ! k) n"
      using bit_le_word [of "8 * k + n" bs, where 'a = 'a] bit_le_word [of "8 * k + n" cs, where 'a = 'a]
      by (simp add: eq)
  qed
qed

definition lanes :: "64 word \<Rightarrow> bytes" where
  "lanes w = map (\<lambda>k. lane k w) [0..<8]"

lemma le_word_lanes: "le_word (lanes w) = w"
proof (rule bit_word_eqI)
  fix n :: nat
  assume "n < LENGTH(64)"
  then have n: "n < 64" by simp
  then have "n div 8 < 8" by linarith
  then show "bit (le_word (lanes w) :: 64 word) n \<longleftrightarrow> bit w n"
    using n by (simp add: bit_le_word lanes_def bit_lane)
qed

lemma length_lanes [simp]: "length (lanes w) = 8"
  by (simp add: lanes_def)

lemma nth_lanes [simp]: "k < 8 \<Longrightarrow> lanes w ! k = lane k w"
  by (simp add: lanes_def)

lemma lane_sub:
  assumes "k < 8" and "\<And>j. j < k \<Longrightarrow> lane j y \<le> lane j x"
  shows "lane k (x - y) = lane k x - lane k y"
  using lane_sub_le_word [of "lanes x" "lanes y" k] assms by (simp add: le_word_lanes)

lemma le_word_replicate: "(le_word (replicate 8 b) :: 64 word) = ucast b * 0x0101010101010101"
proof -
  have "replicate 8 b = [b, b, b, b, b, b, b, b]" by (simp add: numeral_eq_Suc)
  then show ?thesis by (simp only: le_word_Cons_add le_word.simps(1)) (simp add: algebra_simps)
qed

lemma lane_spread [simp]: "k < 8 \<Longrightarrow> lane k (ucast (b :: byte) * 0x0101010101010101) = b"
  using lane_le_word [of k "replicate 8 b"] by (simp add: le_word_replicate)

lemma lane_consts:
  assumes "k < 8"
  shows "lane k 0x0101010101010101 = 1" "lane k 0x2020202020202020 = 0x20"
    "lane k highBits = 0x80" "lane k htmlQuoteAmpFold = 4" "lane k htmlAngleBracketFold = 2"
  using lane_spread [OF assms, of 1] lane_spread [OF assms, of "0x20"]
    lane_spread [OF assms, of "0x80"] lane_spread [OF assms, of 4] lane_spread [OF assms, of 2]
  by simp_all

lemma lane_eq_imp: "(\<And>k. k < 8 \<Longrightarrow> lane k w = 0) \<Longrightarrow> w = 0"
proof -
  assume a: "\<And>k. k < 8 \<Longrightarrow> lane k w = 0"
  have "lanes w = lanes 0" by (rule nth_equalityI) (simp_all add: a, simp add: lane_def)
  then show ?thesis by (metis le_word_lanes)
qed

subsection \<open>The contract of a mask routine\<close>

text \<open>
  \<open>hit\<close> is the byte class the mask \<open>msk\<close> looks for. Up to the first hit every lane of the
  mask is exact: \<open>0x80\<close> for a hit, \<open>0\<close> otherwise.
\<close>

locale swar_mask =
  fixes msk :: "64 word \<Rightarrow> 64 word" and hit :: "byte \<Rightarrow> bool"
  assumes lane_mask: "k < 8 \<Longrightarrow> (\<And>j. j < k \<Longrightarrow> \<not> hit (lane j x)) \<Longrightarrow>
    lane k (msk x) = (if hit (lane k x) then 0x80 else 0)"
begin

lemma mask_no_hit:
  assumes "\<And>k. k < 8 \<Longrightarrow> \<not> hit (lane k x)"
  shows "msk x = 0"
  by (rule lane_eq_imp) (simp add: lane_mask assms)

lemma mask_first_hit:
  assumes k: "k < 8" and hit: "hit (lane k x)" and first: "\<And>j. j < k \<Longrightarrow> \<not> hit (lane j x)"
  shows "msk x \<noteq> 0" and "TrailingZeros64 (msk x) div 8 = k"
proof -
  have below: "lane j (msk x) = 0" if "j < k" for j
    using that k first by (subst lane_mask) auto
  have at: "lane k (msk x) = 0x80" using k hit first by (subst lane_mask) auto
  show "msk x \<noteq> 0" using at by (auto simp: lane_def)
  have set: "bit (msk x) (8 * k + 7)"
    using bit_lane [of k "msk x" 7] at by (simp add: bit_numeral_rec)
  have clear: "\<not> bit (msk x) n" if "n < 8 * k + 7" for n
  proof -
    have n: "n = 8 * (n div 8) + n mod 8" by simp
    have "n div 8 < k \<or> n div 8 = k \<and> n mod 8 < 7" using that n by linarith
    then consider "n div 8 < k" | "n div 8 = k" "n mod 8 < 7" by blast
    then show ?thesis
    proof cases
      case 1
      then show ?thesis using bit_lane [of "n div 8" "msk x" "n mod 8"] below [of "n div 8"] by simp
    next
      case 2
      have "\<not> bit (0x80 :: byte) m" if "m < 7" for m :: nat
      proof -
        have "(0x80 :: byte) = push_bit 7 1" by simp
        then show ?thesis using that by (simp only: bit_push_bit_iff) simp
      qed
      then show ?thesis using bit_lane [of k "msk x" "n mod 8"] at 2 n by force
    qed
  qed
  have split: "[0..<64] = [0..<8 * k + 7] @ (8 * k + 7) # [8 * k + 8..<64]"
    using k upt_add_eq_append [of 0 "8 * k + 7" "57 - 8 * k"] upt_conv_Cons [of "8 * k + 7" 64]
    by (simp add: add.commute)
  have "takeWhile (\<lambda>n. \<not> bit (msk x) n) [0..<64] = [0..<8 * k + 7]"
    unfolding split by (subst takeWhile_append2) (use clear set in auto)
  then show "TrailingZeros64 (msk x) div 8 = k" by (simp add: TrailingZeros64_def)
qed

end

subsection \<open>The masks meet the contract\<close>

definition isStringSpecial :: "byte \<Rightarrow> bool" where
  "isStringSpecial c \<longleftrightarrow> c = ch_quote \<or> c = ch_backslash \<or> c < 0x20 \<or> c \<ge> 0x80"

definition isStringSyntax :: "byte \<Rightarrow> bool" where
  "isStringSyntax c \<longleftrightarrow> c = ch_quote \<or> c = ch_backslash \<or> c < 0x20"

definition isHTMLStringSpecial :: "byte \<Rightarrow> bool" where
  "isHTMLStringSpecial c \<longleftrightarrow> c = ch_quote \<or> c = ch_backslash \<or> c = 0x3C \<or> c = 0x3E \<or> c = 0x26
     \<or> c < 0x20 \<or> c \<ge> 0x80"

definition isHTMLStringSyntax :: "byte \<Rightarrow> bool" where
  "isHTMLStringSyntax c \<longleftrightarrow> c = ch_quote \<or> c = ch_backslash \<or> c = 0x3C \<or> c = 0x3E \<or> c = 0x26
     \<or> c < 0x20"

lemmas hit_defs = isStringSpecial_def isStringSyntax_def isHTMLStringSpecial_def
  isHTMLStringSyntax_def

declare hit_defs [ascii]

lemma byte_eq_bits: "v = w \<longleftrightarrow> (bit v 0 \<longleftrightarrow> bit w 0) \<and> (bit v 1 \<longleftrightarrow> bit w 1) \<and> (bit v 2 \<longleftrightarrow> bit w 2)
  \<and> (bit v 3 \<longleftrightarrow> bit w 3) \<and> (bit v 4 \<longleftrightarrow> bit w 4) \<and> (bit v 5 \<longleftrightarrow> bit w 5) \<and> (bit v 6 \<longleftrightarrow> bit w 6)
  \<and> (bit v 7 \<longleftrightarrow> bit w 7)" for v w :: byte
proof -
  have e: "{n :: nat. n < 8} = {0, 1, 2, 3, 4, 5, 6, 7}" by (auto simp: numeral_eq_Suc less_Suc_eq)
  have "v = w \<longleftrightarrow> (\<forall>n \<in> {n. n < 8}. bit v n \<longleftrightarrow> bit w n)"
    using bit_word_eqI [of v w] by auto
  then show ?thesis unfolding e by simp
qed

lemma and_high: "v AND 0x80 = (if bit v 7 then 0x80 else 0)" for v :: byte
  by (simp add: byte_eq_bits bit_simps bit_numeral_rec)

lemma bit7: "bit v 7 \<longleftrightarrow> 0x80 \<le> v" for v :: byte
proof -
  have "unat v < 256" using unsigned_less [of v] by simp
  then have "unat v div 128 < 2" by linarith
  then have "odd (unat v div 128) \<longleftrightarrow> 128 \<le> unat v"
    by (cases "unat v div 128") auto
  moreover have "bit v 7 \<longleftrightarrow> odd (unat v div 2 ^ 7)"
    by (metis bit_iff_odd bit_unsigned_iff possible_bit_nat bit_imp_possible_bit)
  ultimately show ?thesis by (simp add: word_le_nat_alt)
qed

lemma zero_byte_bit: "(v - 1) AND NOT v AND 0x80 = (if v = 0 then 0x80 else 0)" for v :: byte
proof -
  have "(v - 1) AND NOT v AND 0x80 = (if bit (v - 1) 7 \<and> \<not> bit v 7 then 0x80 else 0)"
    by (subst and.assoc [symmetric], subst and_high) (simp add: bit_simps)
  moreover have "(0x80 \<le> v - 1 \<and> \<not> 0x80 \<le> v) \<longleftrightarrow> v = 0"
    by unat_arith auto
  ultimately show ?thesis by (simp add: bit7)
qed

lemma below_space_bit: "(v - 0x20) AND NOT v AND 0x80 = (if v < 0x20 then 0x80 else 0)" for v :: byte
proof -
  have "(v - 0x20) AND NOT v AND 0x80 = (if bit (v - 0x20) 7 \<and> \<not> bit v 7 then 0x80 else 0)"
    by (subst and.assoc [symmetric], subst and_high) (simp add: bit_simps)
  moreover have "(0x80 \<le> v - 0x20 \<and> \<not> 0x80 \<le> v) \<longleftrightarrow> v < 0x20"
    by unat_arith auto
  ultimately show ?thesis by (simp add: bit7)
qed

lemma high_bit: "v AND 0x80 = (if v \<ge> 0x80 then 0x80 else 0)" for v :: byte
  by (simp add: and_high bit7)

lemma quote_amp_fold: "(v OR 4 = 0x26) \<longleftrightarrow> v = 0x22 \<or> v = 0x26" for v :: byte
  by (auto simp: byte_eq_bits bit_simps bit_numeral_rec)

lemma angle_fold: "(v OR 2 = 0x3E) \<longleftrightarrow> v = 0x3C \<or> v = 0x3E" for v :: byte
  by (auto simp: byte_eq_bits bit_simps bit_numeral_rec)

lemma xor_eq_zero: "(v XOR b = 0) \<longleftrightarrow> v = b" for v b :: byte
  by (auto simp: byte_eq_bits bit_simps)

lemma byte_one_le: "v \<noteq> 0 \<Longrightarrow> 1 \<le> v" for v :: byte
  by (simp add: word_less_1 linorder_not_less [symmetric])

lemma lane_byteEqMask:
  assumes k: "k < 8" and b: "\<And>j. j < k \<Longrightarrow> lane j x \<noteq> b"
  shows "lane k (byteEqMask x b) = (if lane k x = b then 0x80 else 0)"
proof -
  let ?y = "x XOR (ucast b * 0x0101010101010101)"
  have y: "lane j ?y = lane j x XOR b" if "j < 8" for j using that by simp
  have "lane k (?y - 0x0101010101010101) = lane k ?y - lane k 0x0101010101010101"
  proof (rule lane_sub [OF k])
    fix j assume "j < k"
    then have "lane j ?y \<noteq> 0" and "j < 8" using b k by (simp_all add: xor_eq_zero)
    then show "lane j 0x0101010101010101 \<le> lane j ?y"
      by (simp add: lane_consts byte_one_le del: lane_xor)
  qed
  then show ?thesis
    unfolding byteEqMask_def Let_def
    by (simp only: lane_and lane_not [OF k] lane_consts [OF k] zero_byte_bit y [OF k] xor_eq_zero)
qed

lemma lane_belowSpace:
  assumes k: "k < 8" and b: "\<And>j. j < k \<Longrightarrow> \<not> lane j x < 0x20"
  shows "lane k ((x - 0x2020202020202020) AND NOT x AND highBits)
    = (if lane k x < 0x20 then 0x80 else 0)"
proof -
  have "lane k (x - 0x2020202020202020) = lane k x - lane k 0x2020202020202020"
    using k b by (intro lane_sub) (auto simp: lane_consts linorder_not_less)
  then show ?thesis
    by (simp only: lane_and lane_not [OF k] lane_consts [OF k] below_space_bit)
qed

lemma lane_highBits: "k < 8 \<Longrightarrow> lane k (x AND highBits) = (if lane k x \<ge> 0x80 then 0x80 else 0)"
  by (simp add: lane_consts high_bit)

lemmas lane_masks = lane_byteEqMask lane_belowSpace lane_highBits

interpretation eqm: swar_mask "\<lambda>x. byteEqMask x b" "\<lambda>c. c = b" for b
  by unfold_locales (rule lane_byteEqMask)

interpretation special: swar_mask stringSpecialMask isStringSpecial
  by unfold_locales
    (simp add: stringSpecialMask_def hit_defs lane_masks del: lane_and)

interpretation syntactic: swar_mask stringSyntaxMask isStringSyntax
  by unfold_locales
    (simp add: stringSyntaxMask_def hit_defs lane_masks del: lane_and)

lemma lane_fold_amp:
  assumes "k < 8" and "\<And>j. j < k \<Longrightarrow> lane j x \<noteq> 0x22 \<and> lane j x \<noteq> 0x26"
  shows "lane k (byteEqMask (x OR htmlQuoteAmpFold) 0x26)
    = (if lane k x = 0x22 \<or> lane k x = 0x26 then 0x80 else 0)"
  using assms by (subst lane_byteEqMask) (auto simp: lane_consts quote_amp_fold)

lemma lane_fold_angle:
  assumes "k < 8" and "\<And>j. j < k \<Longrightarrow> lane j x \<noteq> 0x3C \<and> lane j x \<noteq> 0x3E"
  shows "lane k (byteEqMask (x OR htmlAngleBracketFold) 0x3E)
    = (if lane k x = 0x3C \<or> lane k x = 0x3E then 0x80 else 0)"
  using assms by (subst lane_byteEqMask) (auto simp: lane_consts angle_fold)

interpretation html_special: swar_mask htmlStringSpecialMask isHTMLStringSpecial
  by unfold_locales
    (simp add: htmlStringSpecialMask_def hit_defs lane_masks
      lane_fold_amp lane_fold_angle del: lane_and)

interpretation html_syntactic: swar_mask htmlStringSyntaxMask isHTMLStringSyntax
  by unfold_locales
    (simp add: htmlStringSyntaxMask_def hit_defs lane_masks
      lane_fold_amp lane_fold_angle del: lane_and)

end
