(* ===== verification/Space.thy ===== *)
theory Space
  imports Swar
begin

text \<open>
  Insignificant whitespace (\<^verbatim>\<open>space.go\<close> and the two helpers of \<^verbatim>\<open>valid_fast.go\<close>): the four JSON
  whitespace bytes, the skipping loops with their word-at-a-time strides, and the literal
  matcher. Every skipping routine computes the same position: the end of the maximal
  whitespace run at the offset.
\<close>

definition IsJSONWhitespace :: "byte \<Rightarrow> bool" where
  "IsJSONWhitespace c \<longleftrightarrow> c = ch_space \<or> c = ch_lf \<or> c = ch_cr \<or> c = ch_tab"

declare IsJSONWhitespace_def [ascii]

text \<open>The inner loop of \<^verbatim>\<open>SkipSpace\<close>: consume eight spaces at a time.\<close>

function skipSpaceWords :: "bytes \<Rightarrow> nat \<Rightarrow> nat" where
  "skipSpaceWords src i =
     (if i + 8 \<le> length src \<and> le64 src i = 0x2020202020202020
      then skipSpaceWords src (i + 8) else i)"
  by pat_completeness auto
termination by (relation "measure (\<lambda>(src, i). length src - i)") auto

declare skipSpaceWords.simps [simp del]

lemma skipSpaceWords_ge: "i \<le> skipSpaceWords src i"
  by (induction src i rule: skipSpaceWords.induct) (subst skipSpaceWords.simps, auto)

function SkipSpace :: "bytes \<Rightarrow> nat \<Rightarrow> nat" where
  "SkipSpace src i =
     (if i < length src then
        let c = src ! i in
        if c > ch_space then i
        else if c \<noteq> ch_space \<and> c \<noteq> ch_lf \<and> c \<noteq> ch_cr \<and> c \<noteq> ch_tab then i
        else SkipSpace src (skipSpaceWords src (i + 1))
      else i)"
  by pat_completeness auto
termination
  by (relation "measure (\<lambda>(src, i). length src - i)")
    (use skipSpaceWords_ge Suc_le_lessD in \<open>fastforce intro: diff_less_mono2\<close>)+

text \<open>
  \<^verbatim>\<open>skipSpaceIndent\<close> tries one further four-space step per consumed byte.
\<close>

definition skipSpaceDword :: "bytes \<Rightarrow> nat \<Rightarrow> nat" where
  "skipSpaceDword src i =
     (if i + 4 \<le> length src \<and> le32 src i = 0x20202020 then i + 4 else i)"

lemma skipSpaceDword_ge: "i \<le> skipSpaceDword src i"
  by (simp add: skipSpaceDword_def)

function skipSpaceIndent :: "bytes \<Rightarrow> nat \<Rightarrow> nat" where
  "skipSpaceIndent src i =
     (if i < length src then
        let c = src ! i in
        if c > ch_space then i
        else if c \<noteq> ch_space \<and> c \<noteq> ch_lf \<and> c \<noteq> ch_cr \<and> c \<noteq> ch_tab then i
        else skipSpaceIndent src (skipSpaceDword src (skipSpaceWords src (i + 1)))
      else i)"
  by pat_completeness auto
termination
proof (relation "measure (\<lambda>(src, i). length src - i)", simp)
  fix src :: bytes and i c
  assume "i < length src"
  moreover have "i + 1 \<le> skipSpaceDword src (skipSpaceWords src (i + 1))"
    by (rule order_trans [OF skipSpaceWords_ge skipSpaceDword_ge])
  ultimately show "((src, skipSpaceDword src (skipSpaceWords src (i + 1))), src, i)
      \<in> measure (\<lambda>(src, i). length src - i)" by simp
qed

text \<open>\<^verbatim>\<open>skipSpaceFast\<close> and \<^verbatim>\<open>nextSignificantFast\<close> of the bool-only validator; \<open>n\<close> is \<^verbatim>\<open>len(src)\<close>.\<close>

function skipSpaceFast :: "bytes \<Rightarrow> nat \<Rightarrow> nat \<Rightarrow> nat" where
  "skipSpaceFast src n i =
     (if i < n then
        let c = src ! i in
        if c > ch_space \<or> (c \<noteq> ch_space \<and> c \<noteq> ch_lf \<and> c \<noteq> ch_cr \<and> c \<noteq> ch_tab) then i
        else skipSpaceFast src n (i + 1)
      else i)"
  by pat_completeness auto
termination by (relation "measure (\<lambda>(src, n, i). n - i)") auto

function nextSignificantFast :: "bytes \<Rightarrow> nat \<Rightarrow> nat \<Rightarrow> nat \<times> byte" where
  "nextSignificantFast src n i =
     (if i < n then
        let c = src ! i in
        if c > ch_space \<or> (c \<noteq> ch_space \<and> c \<noteq> ch_lf \<and> c \<noteq> ch_cr \<and> c \<noteq> ch_tab) then (i, c)
        else nextSignificantFast src n (i + 1)
      else (i, 0))"
  by pat_completeness auto
termination by (relation "measure (\<lambda>(src, n, i). n - i)") auto

text \<open>\<^verbatim>\<open>matchStringAt\<close>: the loop compares byte by byte after the length check.\<close>

fun matchFrom :: "bytes \<Rightarrow> nat \<Rightarrow> bytes \<Rightarrow> bool" where
  "matchFrom src k [] = True"
| "matchFrom src k (c # cs) = (if src ! k \<noteq> c then False else matchFrom src (k + 1) cs)"

definition matchStringAt :: "bytes \<Rightarrow> nat \<Rightarrow> bytes \<Rightarrow> bool" where
  "matchStringAt src i s = (if length src - i < length s then False else matchFrom src i s)"

declare SkipSpace.simps [simp del] skipSpaceIndent.simps [simp del]
  skipSpaceFast.simps [simp del] nextSignificantFast.simps [simp del]

subsection \<open>What the skipping loops compute\<close>

text \<open>The whitespace run at an offset, and the position behind it.\<close>

definition ws_run :: "bytes \<Rightarrow> nat \<Rightarrow> bytes" where
  "ws_run src i = takeWhile IsJSONWhitespace (drop i src)"

definition skip_to :: "bytes \<Rightarrow> nat \<Rightarrow> nat" where
  "skip_to src i = i + length (ws_run src i)"

lemma skip_to_ge [simp]: "i \<le> skip_to src i"
  by (simp add: skip_to_def)

lemma skip_to_end: "length src \<le> i \<Longrightarrow> skip_to src i = i"
  by (simp add: skip_to_def ws_run_def)

lemma skip_to_stop: "i < length src \<Longrightarrow> \<not> IsJSONWhitespace (src ! i) \<Longrightarrow> skip_to src i = i"
  by (simp add: skip_to_def ws_run_def Cons_nth_drop_Suc [symmetric])

lemma skip_to_step: "i < length src \<Longrightarrow> IsJSONWhitespace (src ! i) \<Longrightarrow> skip_to src i = skip_to src (Suc i)"
  by (simp add: skip_to_def ws_run_def Cons_nth_drop_Suc [symmetric])

lemma skip_to_steps:
  "i + n \<le> length src \<Longrightarrow> (\<And>k. k < n \<Longrightarrow> IsJSONWhitespace (src ! (i + k))) \<Longrightarrow>
     skip_to src (i + n) = skip_to src i"
proof (induction n)
  case (Suc n)
  from Suc.prems have "skip_to src (i + n) = skip_to src (Suc (i + n))" by (intro skip_to_step) auto
  with Suc show ?case by simp
qed simp

lemma space_test: "(c > ch_space \<or> (c \<noteq> ch_space \<and> c \<noteq> ch_lf \<and> c \<noteq> ch_cr \<and> c \<noteq> ch_tab))
    \<longleftrightarrow> \<not> IsJSONWhitespace c"
  by (auto simp: IsJSONWhitespace_def)

lemma le64_spaces:
  assumes "i + 8 \<le> length src" and "le64 src i = 0x2020202020202020" and "k < 8"
  shows "src ! (i + k) = 0x20"
proof -
  have "subslice src i (i + 8) = replicate 8 0x20"
    by (rule le_word_inject [where 'a = 64])
      (use assms in \<open>simp_all add: le64_def slices le_word_replicate\<close>)
  then show ?thesis using assms nth_slice [of k "i + 8" i src] by simp
qed

lemma le32_spaces:
  assumes "i + 4 \<le> length src" and "le32 src i = 0x20202020" and "k < 4"
  shows "src ! (i + k) = 0x20"
proof -
  have "subslice src i (i + 4) = [0x20, 0x20, 0x20, 0x20]"
    by (rule le_word_inject [where 'a = 32]) (use assms in \<open>simp_all add: le32_def slices\<close>)
  also have "\<dots> = replicate 4 0x20" by (simp add: numeral_eq_Suc)
  finally show ?thesis using assms nth_slice [of k "i + 4" i src] by simp
qed

lemma skipSpaceWords_skip_to: "skip_to src (skipSpaceWords src i) = skip_to src i"
proof (induction src i rule: skipSpaceWords.induct)
  case (1 src i)
  have "skip_to src (i + 8) = skip_to src i" if "i + 8 \<le> length src" "le64 src i = 0x2020202020202020"
    using that le64_spaces [OF that] by (intro skip_to_steps) (auto simp: IsJSONWhitespace_def)
  with 1 show ?case by (subst skipSpaceWords.simps) simp
qed

lemma SkipSpace_eq: "SkipSpace src i = skip_to src i"
proof (induction src i rule: SkipSpace.induct)
  case (1 src i)
  then show ?case
    by (subst SkipSpace.simps)
      (auto simp: Let_def skip_to_end skip_to_stop skip_to_step IsJSONWhitespace_def
        skipSpaceWords_skip_to)
qed

lemma skipSpaceDword_skip_to: "skip_to src (skipSpaceDword src i) = skip_to src i"
proof -
  have "skip_to src (i + 4) = skip_to src i" if "i + 4 \<le> length src" "le32 src i = 0x20202020"
    using that le32_spaces [OF that] by (intro skip_to_steps) (auto simp: IsJSONWhitespace_def)
  then show ?thesis by (simp add: skipSpaceDword_def)
qed

lemma skipSpaceIndent_eq: "skipSpaceIndent src i = skip_to src i"
proof (induction src i rule: skipSpaceIndent.induct)
  case (1 src i)
  then show ?case
    by (subst skipSpaceIndent.simps)
      (auto simp: Let_def skip_to_end skip_to_stop skip_to_step IsJSONWhitespace_def
        skipSpaceWords_skip_to skipSpaceDword_skip_to)
qed

lemma skipSpaceFast_eq: "skipSpaceFast src (length src) i = skip_to src i"
proof (induction src "length src" i rule: skipSpaceFast.induct)
  case (1 src i)
  then show ?case
    by (subst skipSpaceFast.simps)
      (simp add: Let_def space_test skip_to_end skip_to_stop skip_to_step)
qed

lemma nextSignificantFast_eq:
  "nextSignificantFast src (length src) i =
     (let j = skip_to src i in (j, if j < length src then src ! j else 0))"
proof (induction src "length src" i rule: nextSignificantFast.induct)
  case (1 src i)
  then show ?case
    by (subst nextSignificantFast.simps)
      (simp add: Let_def space_test skip_to_end skip_to_stop skip_to_step)
qed

lemma skip_to_not_ws: "skip_to src i < length src \<Longrightarrow> \<not> IsJSONWhitespace (src ! skip_to src i)"
proof -
  assume a: "skip_to src i < length src"
  then have "length (takeWhile IsJSONWhitespace (drop i src)) < length (drop i src)"
    by (simp add: skip_to_def ws_run_def)
  from nth_length_takeWhile [OF this] a show ?thesis by (simp add: skip_to_def ws_run_def)
qed

lemma skip_to_idem [simp]: "skip_to src (skip_to src i) = skip_to src i"
  using skip_to_not_ws [of src i] skip_to_stop skip_to_end by (metis linorder_not_less)

lemma skip_to_le: "i \<le> length src \<Longrightarrow> skip_to src i \<le> length src"
  using length_takeWhile_le [of IsJSONWhitespace "drop i src"] by (simp add: skip_to_def ws_run_def)

lemma subslice_skip_to: "list_all IsJSONWhitespace (subslice src i (skip_to src i))"
  by (simp add: skip_to_def subslice_def ws_run_def takeWhile_eq_take [symmetric] list_all_iff)
    (metis set_takeWhileD takeWhile_eq_take)

lemma drop_skip_to:
  assumes "drop i src = ws @ rest" and "list_all IsJSONWhitespace ws"
    and "rest \<noteq> [] \<Longrightarrow> \<not> IsJSONWhitespace (hd rest)"
  shows "skip_to src i = i + length ws"
proof -
  have "takeWhile IsJSONWhitespace rest = []" using assms(3) by (cases rest) auto
  then show ?thesis using assms(1,2)
    by (simp add: skip_to_def ws_run_def takeWhile_append2 list_all_iff)
qed

lemma matchFrom_iff: "i + length s \<le> length src \<Longrightarrow> matchFrom src i s \<longleftrightarrow> take (length s) (drop i src) = s"
proof (induction s arbitrary: i)
  case (Cons c s)
  then have "drop i src = src ! i # drop (Suc i) src" by (simp add: Cons_nth_drop_Suc)
  with Cons.IH [of "Suc i"] Cons.prems show ?case by auto
qed simp

lemma matchStringAt_iff: "s \<noteq> [] \<Longrightarrow> matchStringAt src i s \<longleftrightarrow> take (length s) (drop i src) = s"
proof -
  assume "s \<noteq> []"
  then have l: "length s > 0" by simp
  show ?thesis
  proof (cases "length src - i < length s")
    case True
    then have "length (take (length s) (drop i src)) < length s" by simp
    with True show ?thesis unfolding matchStringAt_def by (metis less_irrefl)
  next
    case False
    with l have "i + length s \<le> length src" by linarith
    with False show ?thesis by (simp add: matchStringAt_def matchFrom_iff)
  qed
qed

lemma matchStringAt_drop: "s \<noteq> [] \<Longrightarrow> matchStringAt src i s \<longleftrightarrow> (\<exists>r. drop i src = s @ r)"
  by (metis append_eq_conv_conj append_take_drop_id matchStringAt_iff)

end
