(* ===== verification/Scanner.thy ===== *)
theory Scanner
  imports Space
begin

text \<open>
  The portable string scanners of \<^verbatim>\<open>x/scanner/scan_generic.go\<close> (selected by \<^verbatim>\<open>scan_default.go\<close>
  and re-exported by \<^verbatim>\<open>api.go\<close> and \<^verbatim>\<open>scan.go\<close>): find the next byte of a class, sixteen and eight
  bytes at a time with the masks of \<open>Swar\<close>, then byte by byte. The property is that each scanner
  equals its own byte loop, so nothing is missed or reported early by the word-wide strides.
\<close>

subsection \<open>The loops\<close>

text \<open>The byte loop that ends every scanner: the first stop byte before \<open>limit\<close>, else \<open>limit\<close>.\<close>

function scanBytes :: "(byte \<Rightarrow> bool) \<Rightarrow> bytes \<Rightarrow> nat \<Rightarrow> nat \<Rightarrow> nat" where
  "scanBytes stop src i limit =
     (if i < limit then (if stop (src ! i) then i else scanBytes stop src (i + 1) limit) else limit)"
  by pat_completeness auto
termination by (relation "measure (\<lambda>(stop, src, i, limit). limit - i)") auto

declare scanBytes.simps [simp del]

text \<open>
  The sixteen-byte loop of \<^verbatim>\<open>scanStringSpecialScalarUntil\<close> and \<^verbatim>\<open>scanStringSyntaxScalar\<close>, which
  differ in the mask only: \<open>Inl j\<close> returns \<open>j\<close>, \<open>Inr i\<close> leaves the loop at \<open>i\<close>.
\<close>

function scanWords16 :: "(64 word \<Rightarrow> 64 word) \<Rightarrow> bytes \<Rightarrow> nat \<Rightarrow> nat \<Rightarrow> nat + nat" where
  "scanWords16 msk src i limit =
     (if i + 16 \<le> limit then
        let m = msk (le64 src i) in
        if m \<noteq> 0 then Inl (i + TrailingZeros64 m div 8)
        else let m2 = msk (le64 src (i + 8)) in
        if m2 \<noteq> 0 then Inl (i + 8 + TrailingZeros64 m2 div 8)
        else scanWords16 msk src (i + 16) limit
      else Inr i)"
  by pat_completeness auto
termination by (relation "measure (\<lambda>(msk, src, i, limit). limit - i)") auto

declare scanWords16.simps [simp del]

text \<open>The eight-byte loop of the two HTML scanners.\<close>

function scanWords8 :: "(64 word \<Rightarrow> 64 word) \<Rightarrow> bytes \<Rightarrow> nat \<Rightarrow> nat \<Rightarrow> nat + nat" where
  "scanWords8 msk src i limit =
     (if i + 8 \<le> limit then
        let m = msk (le64 src i) in
        if m \<noteq> 0 then Inl (i + TrailingZeros64 m div 8)
        else scanWords8 msk src (i + 8) limit
      else Inr i)"
  by pat_completeness auto
termination by (relation "measure (\<lambda>(msk, src, i, limit). limit - i)") auto

declare scanWords8.simps [simp del]

definition scanStringSpecialScalarUntil :: "bytes \<Rightarrow> nat \<Rightarrow> nat \<Rightarrow> nat" where
  "scanStringSpecialScalarUntil src i limit =
     (case scanWords16 stringSpecialMask src i limit of
        Inl j \<Rightarrow> j
      | Inr i \<Rightarrow>
          if i + 8 \<le> limit then
            let m = stringSpecialMask (le64 src i) in
            if m \<noteq> 0 then i + TrailingZeros64 m div 8
            else scanBytes (\<lambda>c. c = ch_quote \<or> c = ch_backslash \<or> c < 0x20 \<or> c \<ge> 0x80) src (i + 8) limit
          else scanBytes (\<lambda>c. c = ch_quote \<or> c = ch_backslash \<or> c < 0x20 \<or> c \<ge> 0x80) src i limit)"

definition scanStringSpecialScalar :: "bytes \<Rightarrow> nat \<Rightarrow> nat" where
  "scanStringSpecialScalar src i = scanStringSpecialScalarUntil src i (length src)"

definition scanStringSyntaxScalar :: "bytes \<Rightarrow> nat \<Rightarrow> nat" where
  "scanStringSyntaxScalar src i =
     (let limit = length src in
      case scanWords16 stringSyntaxMask src i limit of
        Inl j \<Rightarrow> j
      | Inr i \<Rightarrow>
          if i + 8 \<le> limit then
            let m = stringSyntaxMask (le64 src i) in
            if m \<noteq> 0 then i + TrailingZeros64 m div 8
            else scanBytes (\<lambda>c. c = ch_quote \<or> c = ch_backslash \<or> c < 0x20) src (i + 8) limit
          else scanBytes (\<lambda>c. c = ch_quote \<or> c = ch_backslash \<or> c < 0x20) src i limit)"

definition scanEncodedHTMLSyntaxScalar :: "bytes \<Rightarrow> nat \<Rightarrow> nat" where
  "scanEncodedHTMLSyntaxScalar src i =
     (case scanWords8 htmlStringSyntaxMask src i (length src) of
        Inl j \<Rightarrow> j
      | Inr i \<Rightarrow> scanBytes (\<lambda>c. c = ch_quote \<or> c = ch_backslash \<or> c = 0x3C \<or> c = 0x3E \<or> c = 0x26
                              \<or> c < 0x20) src i (length src))"

definition scanEncodedHTMLSpecialScalar :: "bytes \<Rightarrow> nat \<Rightarrow> nat" where
  "scanEncodedHTMLSpecialScalar src i =
     (case scanWords8 htmlStringSpecialMask src i (length src) of
        Inl j \<Rightarrow> j
      | Inr i \<Rightarrow> scanBytes (\<lambda>c. c = ch_quote \<or> c = ch_backslash \<or> c = 0x3C \<or> c = 0x3E \<or> c = 0x26
                              \<or> c < 0x20 \<or> c \<ge> 0x80) src i (length src))"

text \<open>
  The backend selection of \<^verbatim>\<open>scan_default.go\<close> and the wrappers of \<^verbatim>\<open>scan.go\<close>, whose short-tail
  scanner declines when a whole word is left.
\<close>

definition scanStringSpecial :: "bytes \<Rightarrow> nat \<Rightarrow> nat" where
  "scanStringSpecial src i = scanStringSpecialScalar src i"

definition scanStringSyntax :: "bytes \<Rightarrow> nat \<Rightarrow> nat" where
  "scanStringSyntax src i = scanStringSyntaxScalar src i"

definition scanEncodedHTMLSpecialFast :: "bytes \<Rightarrow> nat \<Rightarrow> nat" where
  "scanEncodedHTMLSpecialFast src i = scanEncodedHTMLSpecialScalar src i"

definition scanEncodedHTMLSyntaxFast :: "bytes \<Rightarrow> nat \<Rightarrow> nat" where
  "scanEncodedHTMLSyntaxFast src i = scanEncodedHTMLSyntaxScalar src i"

definition scanStringSpecialShort :: "bytes \<Rightarrow> nat \<Rightarrow> nat \<times> bool" where
  "scanStringSpecialShort src i =
     (if length src - i \<ge> 8 then (0, False)
      else (scanBytes (\<lambda>c. c < 0x20 \<or> c \<ge> 0x80 \<or> c = ch_quote \<or> c = ch_backslash)
              src i (length src), True))"

text \<open>
  \<^verbatim>\<open>copyStringPrefix\<close> and \<^verbatim>\<open>CopyStringPrefix\<close>: \<open>dst\<close> is the destination slice, and the result pairs
  it with the returned count (\<open>None\<close> for \<^verbatim>\<open>-1\<close>). Whether the two slices overlap is a fact about
  addresses, passed in as \<open>overlap\<close>.
\<close>

definition copyStringPrefix :: "bytes \<Rightarrow> bytes \<Rightarrow> bytes \<times> nat" where
  "copyStringPrefix dst src =
     (let e = scanStringSpecialScalar src 0 in (take e src @ drop e dst, e))"

definition copyHTMLStringPrefix :: "bytes \<Rightarrow> bytes \<Rightarrow> bytes \<times> nat" where
  "copyHTMLStringPrefix dst src =
     (let e = scanEncodedHTMLSpecialScalar src 0 in (take e src @ drop e dst, e))"

definition CopyStringPrefix :: "bool \<Rightarrow> bytes \<Rightarrow> bytes \<Rightarrow> bytes \<times> nat option" where
  "CopyStringPrefix overlap dst src =
     (if length dst < length src then (dst, None)
      else if overlap then (dst, None)
      else let (head, e) = copyStringPrefix (take (length src) dst) src
           in (head @ drop (length src) dst, Some e))"

definition CopyHTMLStringPrefix :: "bool \<Rightarrow> bytes \<Rightarrow> bytes \<Rightarrow> bytes \<times> nat option" where
  "CopyHTMLStringPrefix overlap dst src =
     (if length dst < length src then (dst, None)
      else if overlap then (dst, None)
      else let (head, e) = copyHTMLStringPrefix (take (length src) dst) src
           in (head @ drop (length src) dst, Some e))"

subsection \<open>The byte loop\<close>

lemma scanBytes_props:
  assumes "i \<le> limit"
  shows "i \<le> scanBytes stop src i limit" "scanBytes stop src i limit \<le> limit"
    "scanBytes stop src i limit < limit \<Longrightarrow> stop (src ! scanBytes stop src i limit)"
    "i \<le> k \<Longrightarrow> k < scanBytes stop src i limit \<Longrightarrow> \<not> stop (src ! k)"
  using assms
proof (induction stop src i limit rule: scanBytes.induct)
  case (1 stop src i limit)
  { case 1 then show ?case using "1.IH"(1) by (subst scanBytes.simps) (auto intro: Suc_leD)
  next case 2 then show ?case using "1.IH"(2) by (subst scanBytes.simps) auto
  next case 3 then show ?case using "1.IH"(3) by (subst (asm) scanBytes.simps, subst scanBytes.simps) (auto split: if_splits)
  next case 4 then show ?case using "1.IH"(4)
      by (cases "i = k")
        (auto simp: scanBytes.simps [of stop src i limit] scanBytes.simps [of stop src k limit]
          split: if_splits) }
qed

lemma scanBytes_at: "i < limit \<Longrightarrow> stop (src ! i) \<Longrightarrow> scanBytes stop src i limit = i"
  by (subst scanBytes.simps) simp

lemma scanBytes_skip:
  "i + n \<le> limit \<Longrightarrow> (\<And>k. k < n \<Longrightarrow> \<not> stop (src ! (i + k))) \<Longrightarrow>
     scanBytes stop src (i + n) limit = scanBytes stop src i limit"
proof (induction n)
  case (Suc n)
  from Suc.prems have "scanBytes stop src (i + n) limit = scanBytes stop src (Suc (i + n)) limit"
    by (subst scanBytes.simps) auto
  with Suc show ?case by simp
qed simp

lemma lane_le64: "i + 8 \<le> length src \<Longrightarrow> k < 8 \<Longrightarrow> lane k (le64 src i) = src ! (i + k)"
  by (simp add: le64_def lane_le_word slices)

subsection \<open>The word loops agree with the byte loop\<close>

context swar_mask
begin

lemma word_hit:
  assumes len: "i + 8 \<le> limit" "limit \<le> length src" and m: "msk (le64 src i) \<noteq> 0"
  shows "scanBytes hit src i limit = i + TrailingZeros64 (msk (le64 src i)) div 8"
proof -
  let ?P = "\<lambda>k. k < 8 \<and> hit (src ! (i + k))"
  have l: "lane k (le64 src i) = src ! (i + k)" if "k < 8" for k
    using that len by (intro lane_le64) auto
  obtain k where "?P k" using mask_no_hit [of "le64 src i"] m l by metis
  then have P: "?P (LEAST k. ?P k)" by (rule LeastI [of ?P])
  define f where "f = (LEAST k. ?P k)"
  have f: "f < 8" "hit (src ! (i + f))" using P by (auto simp: f_def)
  have nf: "\<not> hit (src ! (i + j))" if "j < f" for j
    using not_less_Least [of j ?P] that f(1) by (auto simp: f_def)
  have "TrailingZeros64 (msk (le64 src i)) div 8 = f"
    using f nf l by (intro mask_first_hit) auto
  moreover have "scanBytes hit src i limit = i + f"
    using scanBytes_skip [of i f limit hit src] scanBytes_at [of "i + f" limit hit src] f nf len
    by auto
  ultimately show ?thesis by simp
qed

lemma word_miss:
  assumes len: "i + 8 \<le> limit" "limit \<le> length src" and m: "msk (le64 src i) = 0"
  shows "scanBytes hit src (i + 8) limit = scanBytes hit src i limit"
proof (rule scanBytes_skip [OF len(1)])
  fix k :: nat assume k: "k < 8"
  have l: "lane k (le64 src i) = src ! (i + k)" if "k < 8" for k
    using that len by (intro lane_le64) auto
  show "\<not> hit (src ! (i + k))"
  proof
    assume "hit (src ! (i + k))"
    then have ex: "k < 8 \<and> hit (src ! (i + k))" using k by simp
    define f where "f = (LEAST k. k < 8 \<and> hit (src ! (i + k)))"
    have f: "f < 8 \<and> hit (src ! (i + f))" unfolding f_def by (rule LeastI [of "\<lambda>k. k < 8 \<and> hit (src ! (i + k))", OF ex])
    have "\<not> hit (src ! (i + j))" if "j < f" for j
      using not_less_Least [of j "\<lambda>k. k < 8 \<and> hit (src ! (i + k))"] that f by (auto simp: f_def)
    with f l have "msk (le64 src i) \<noteq> 0" by (intro mask_first_hit) auto
    with m show False by simp
  qed
qed

lemma scanWords16_bytes:
  "i \<le> limit \<Longrightarrow> limit \<le> length src \<Longrightarrow>
     (case scanWords16 msk src i limit of
        Inl j \<Rightarrow> j = scanBytes hit src i limit
      | Inr k \<Rightarrow> k \<le> limit \<and> scanBytes hit src k limit = scanBytes hit src i limit)"
proof (induction "limit - i" arbitrary: i rule: less_induct)
  case less
  have miss: "scanBytes hit src (i + 16) limit = scanBytes hit src i limit"
    if "i + 16 \<le> limit" "msk (le64 src i) = 0" "msk (le64 src (i + 8)) = 0"
    using that less.prems word_miss [of i limit src] word_miss [of "i + 8" limit src]
    by (simp add: add.assoc)
  have hit2: "i + 8 + TrailingZeros64 (msk (le64 src (i + 8))) div 8 = scanBytes hit src i limit"
    if "i + 16 \<le> limit" "msk (le64 src i) = 0" "msk (le64 src (i + 8)) \<noteq> 0"
    using that less.prems word_miss [of i limit src] word_hit [of "i + 8" limit src] by simp
  show ?case
    using less.prems less.hyps [of "i + 16"] word_hit [of i limit src] miss hit2
    by (subst scanWords16.simps) (auto simp: Let_def split: sum.splits)
qed

lemma scanWords8_bytes:
  "i \<le> limit \<Longrightarrow> limit \<le> length src \<Longrightarrow>
     (case scanWords8 msk src i limit of
        Inl j \<Rightarrow> j = scanBytes hit src i limit
      | Inr k \<Rightarrow> k \<le> limit \<and> scanBytes hit src k limit = scanBytes hit src i limit)"
proof (induction "limit - i" arbitrary: i rule: less_induct)
  case less
  show ?case
    using less.prems less.hyps [of "i + 8"] word_hit [of i limit src] word_miss [of i limit src]
    by (subst scanWords8.simps) (auto simp: Let_def split: sum.splits)
qed

text \<open>The whole sixteen-eight-one scanner.\<close>

lemma scan16_eq:
  assumes "i \<le> limit" "limit \<le> length src"
  shows "(case scanWords16 msk src i limit of
        Inl j \<Rightarrow> j
      | Inr i \<Rightarrow>
          if i + 8 \<le> limit then
            let m = msk (le64 src i) in
            if m \<noteq> 0 then i + TrailingZeros64 m div 8 else scanBytes hit src (i + 8) limit
          else scanBytes hit src i limit) = scanBytes hit src i limit"
  using scanWords16_bytes [OF assms] assms word_hit [OF _ assms(2)] word_miss [OF _ assms(2)]
  by (auto split: sum.splits simp: Let_def)

end

subsection \<open>The scanners are their byte loops\<close>

lemma scanStringSpecialScalarUntil_eq:
  "i \<le> limit \<Longrightarrow> limit \<le> length src \<Longrightarrow>
     scanStringSpecialScalarUntil src i limit = scanBytes isStringSpecial src i limit"
  unfolding scanStringSpecialScalarUntil_def isStringSpecial_def [abs_def, symmetric]
  by (rule special.scan16_eq)

lemma scanStringSpecial_eq:
  "i \<le> length src \<Longrightarrow> scanStringSpecial src i = scanBytes isStringSpecial src i (length src)"
  by (simp add: scanStringSpecial_def scanStringSpecialScalar_def scanStringSpecialScalarUntil_eq)

lemma scanStringSyntax_eq:
  "i \<le> length src \<Longrightarrow> scanStringSyntax src i = scanBytes isStringSyntax src i (length src)"
  unfolding scanStringSyntax_def scanStringSyntaxScalar_def isStringSyntax_def [abs_def, symmetric]
  using syntactic.scan16_eq [of i "length src" src] by (simp only: Let_def order_refl)

lemma scanEncodedHTMLSyntaxFast_eq:
  "i \<le> length src \<Longrightarrow>
     scanEncodedHTMLSyntaxFast src i = scanBytes isHTMLStringSyntax src i (length src)"
  using html_syntactic.scanWords8_bytes [of i "length src" src]
  by (auto simp: scanEncodedHTMLSyntaxFast_def scanEncodedHTMLSyntaxScalar_def
      isHTMLStringSyntax_def [abs_def] split: sum.splits)

lemma scanEncodedHTMLSpecialFast_eq:
  "i \<le> length src \<Longrightarrow>
     scanEncodedHTMLSpecialFast src i = scanBytes isHTMLStringSpecial src i (length src)"
  using html_special.scanWords8_bytes [of i "length src" src]
  by (auto simp: scanEncodedHTMLSpecialFast_def scanEncodedHTMLSpecialScalar_def
      isHTMLStringSpecial_def [abs_def] split: sum.splits)

lemma scanStringSpecialShort_eq:
  "i \<le> length src \<Longrightarrow> length src - i < 8 \<Longrightarrow>
     scanStringSpecialShort src i = (scanStringSpecial src i, True)"
proof -
  have "(\<lambda>c. c < 0x20 \<or> c \<ge> 0x80 \<or> c = ch_quote \<or> c = ch_backslash) = isStringSpecial"
    by (auto simp: isStringSpecial_def fun_eq_iff)
  then show "i \<le> length src \<Longrightarrow> length src - i < 8 \<Longrightarrow> ?thesis"
    by (simp add: scanStringSpecialShort_def scanStringSpecial_eq)
qed

lemma scanBytes_takeWhile:
  "i \<le> length src \<Longrightarrow> scanBytes stop src i (length src) = i + length (takeWhile (\<lambda>b. \<not> stop b) (drop i src))"
proof (induction "length src - i" arbitrary: i)
  case 0
  then show ?case by (subst scanBytes.simps) simp
next
  case (Suc n)
  then have "scanBytes stop src (Suc i) (length src)
      = Suc i + length (takeWhile (\<lambda>b. \<not> stop b) (drop (Suc i) src))" by (intro Suc.hyps) simp_all
  moreover have "i < length src" using Suc.hyps(2) by linarith
  ultimately show ?case by (subst scanBytes.simps) (simp add: Cons_nth_drop_Suc [symmetric])
qed

end
