(* ===== verification/Utf8.thy ===== *)
theory Utf8
  imports Scanner
begin

text \<open>
  What the code uses of Go's \<^verbatim>\<open>unicode/utf8\<close> and \<^verbatim>\<open>unicode/utf16\<close> packages, and the UTF-8 part of
  the scanner (\<^verbatim>\<open>invalidUTF8Index\<close>, \<^verbatim>\<open>scanStringUnicodeRun\<close> and the U+2028/U+2029 search of
  \<^verbatim>\<open>scan_generic.go\<close>). A rune is a 32-bit word.
\<close>

type_synonym rune = "32 word"

abbreviation (input) RuneError :: rune where "RuneError \<equiv> 0xFFFD"

subsection \<open>The standard library\<close>

definition contByte :: "byte \<Rightarrow> bool" where
  "contByte b \<longleftrightarrow> 0x80 \<le> b \<and> b \<le> 0xBF"

text \<open>The number of bytes a lead byte announces, and the range of its second byte.\<close>

definition leadSize :: "byte \<Rightarrow> nat" where
  "leadSize b =
     (if b < 0x80 then 1 else if 0xC2 \<le> b \<and> b \<le> 0xDF then 2
      else if 0xE0 \<le> b \<and> b \<le> 0xEF then 3 else if 0xF0 \<le> b \<and> b \<le> 0xF4 then 4 else 0)"

definition acceptSecond :: "byte \<Rightarrow> byte \<Rightarrow> bool" where
  "acceptSecond lead b =
     (if lead = 0xE0 then 0xA0 \<le> b \<and> b \<le> 0xBF
      else if lead = 0xED then 0x80 \<le> b \<and> b \<le> 0x9F
      else if lead = 0xF0 then 0x90 \<le> b \<and> b \<le> 0xBF
      else if lead = 0xF4 then 0x80 \<le> b \<and> b \<le> 0x8F
      else contByte b)"

text \<open>\<^verbatim>\<open>utf8.DecodeRune\<close>: the rune and its width; \<open>(RuneError, 1)\<close> for an invalid encoding.\<close>

definition DecodeRune :: "bytes \<Rightarrow> rune \<times> nat" where
  "DecodeRune p =
     (if p = [] then (RuneError, 0)
      else let p0 = p ! 0; sz = leadSize p0 in
      if sz = 1 then (ucast p0, 1)
      else if sz = 0 then (RuneError, 1)
      else if length p < sz then (RuneError, 1)
      else if \<not> acceptSecond p0 (p ! 1) then (RuneError, 1)
      else if sz \<le> 2 then
        (push_bit 6 (ucast (p0 AND 0x1F)) OR ucast (p ! 1 AND 0x3F), 2)
      else if \<not> contByte (p ! 2) then (RuneError, 1)
      else if sz \<le> 3 then
        (push_bit 12 (ucast (p0 AND 0x0F)) OR push_bit 6 (ucast (p ! 1 AND 0x3F))
           OR ucast (p ! 2 AND 0x3F), 3)
      else if \<not> contByte (p ! 3) then (RuneError, 1)
      else (push_bit 18 (ucast (p0 AND 0x07)) OR push_bit 12 (ucast (p ! 1 AND 0x3F))
              OR push_bit 6 (ucast (p ! 2 AND 0x3F)) OR ucast (p ! 3 AND 0x3F), 4))"

text \<open>The test every caller makes on the result.\<close>

definition badRune :: "rune \<times> nat \<Rightarrow> bool" where
  "badRune d \<longleftrightarrow> fst d = RuneError \<and> snd d = 1"

lemma DecodeRune_size: "p \<noteq> [] \<Longrightarrow> 1 \<le> snd (DecodeRune p)"
  by (simp add: DecodeRune_def Let_def)

text \<open>\<^verbatim>\<open>utf8.Valid\<close>.\<close>

function utf8Valid :: "bytes \<Rightarrow> bool" where
  "utf8Valid p =
     (if p = [] then True
      else if badRune (DecodeRune p) then False
      else utf8Valid (drop (snd (DecodeRune p)) p))"
  by pat_completeness auto
termination
  by (relation "measure length") (use DecodeRune_size in \<open>force simp: Suc_le_eq diff_less\<close>)+

declare utf8Valid.simps [simp del]

text \<open>\<^verbatim>\<open>utf8.AppendRune\<close> (an invalid rune is written as U+FFFD) and \<^verbatim>\<open>utf8.RuneLen\<close>.\<close>

definition encodeRune :: "rune \<Rightarrow> bytes" where
  "encodeRune r0 =
     (let r = (if (0xD800 \<le> r0 \<and> r0 \<le> 0xDFFF) \<or> r0 > 0x10FFFF then RuneError else r0) in
      if r \<le> 0x7F then [ucast r]
      else if r \<le> 0x7FF then [0xC0 OR ucast (drop_bit 6 r), 0x80 OR (ucast r AND 0x3F)]
      else if r \<le> 0xFFFF then
        [0xE0 OR ucast (drop_bit 12 r), 0x80 OR (ucast (drop_bit 6 r) AND 0x3F),
         0x80 OR (ucast r AND 0x3F)]
      else
        [0xF0 OR ucast (drop_bit 18 r), 0x80 OR (ucast (drop_bit 12 r) AND 0x3F),
         0x80 OR (ucast (drop_bit 6 r) AND 0x3F), 0x80 OR (ucast r AND 0x3F)])"

definition AppendRune :: "bytes \<Rightarrow> rune \<Rightarrow> bytes" where
  "AppendRune dst r = dst @ encodeRune r"

text \<open>\<^verbatim>\<open>utf16.DecodeRune\<close>: combine a surrogate pair, U+FFFD if it is not one.\<close>

definition utf16DecodeRune :: "rune \<Rightarrow> rune \<Rightarrow> rune" where
  "utf16DecodeRune r1 r2 =
     (if 0xD800 \<le> r1 \<and> r1 < 0xDC00 \<and> 0xDC00 \<le> r2 \<and> r2 < 0xE000
      then (push_bit 10 (r1 - 0xD800) OR (r2 - 0xDC00)) + 0x10000
      else RuneError)"

subsection \<open>The scanner's UTF-8 routines\<close>

text \<open>The decode loop of \<^verbatim>\<open>invalidUTF8Index\<close>; \<open>stop\<close> is the exclusive end.\<close>

function invalidUTF8Loop :: "bytes \<Rightarrow> nat \<Rightarrow> nat \<Rightarrow> nat" where
  "invalidUTF8Loop src start stop =
     (if start < stop \<and> start < length src then
        let d = DecodeRune (subslice src start stop) in
        if badRune d then start else invalidUTF8Loop src (start + snd d) stop
      else stop)"
  by pat_completeness auto
termination
proof (relation "measure (\<lambda>(src, start, stop). stop - start)", simp)
  fix src :: bytes and start stop d
  assume a: "start < stop \<and> start < length src" "d = DecodeRune (subslice src start stop)"
  then have "subslice src start stop \<noteq> []" by (simp add: slice_Cons)
  from DecodeRune_size [OF this] a have "1 \<le> snd d" "start < stop" by simp_all
  then show "((src, start + snd d, stop), src, start, stop)
      \<in> measure (\<lambda>(src, start, stop). stop - start)" by simp
qed

declare invalidUTF8Loop.simps [simp del]

text \<open>\<open>None\<close> is the code's \<^verbatim>\<open>-1\<close>.\<close>

definition invalidUTF8Index :: "bytes \<Rightarrow> nat \<Rightarrow> nat \<Rightarrow> nat option" where
  "invalidUTF8Index src start stop =
     (if utf8Valid (subslice src start stop) then None else Some (invalidUTF8Loop src start stop))"

definition scanStringUnicodeRun :: "bytes \<Rightarrow> nat \<Rightarrow> nat \<times> nat option" where
  "scanStringUnicodeRun src i =
     (if length src - i < 32 then
        let d = DecodeRune (drop i src) in
        if badRune d then (i, Some i) else (i + snd d, None)
      else let next = scanStringSyntax src i in (next, invalidUTF8Index src i next))"

text \<open>
  \<^verbatim>\<open>hasJSONLineSeparatorScalar\<close>: locate the first \<^verbatim>\<open>0xE2\<close>, then probe ten-byte windows through the
  candidate lanes of the equality mask, then the last bytes one at a time.
\<close>

definition lineSepAt :: "bytes \<Rightarrow> nat \<Rightarrow> bool" where
  "lineSepAt s i \<longleftrightarrow> s ! (i + 1) = 0x80 \<and> (s ! (i + 2) = 0xA8 \<or> s ! (i + 2) = 0xA9)"

text \<open>\<^verbatim>\<open>candidates &= candidates - 1\<close> clears the lowest set bit; at most 64 rounds.\<close>

fun lineSepCandidates :: "nat \<Rightarrow> bytes \<Rightarrow> nat \<Rightarrow> 64 word \<Rightarrow> bool" where
  "lineSepCandidates 0 s i cand = False"
| "lineSepCandidates (Suc fuel) s i cand =
     (if cand = 0 then False
      else let off = TrailingZeros64 cand div 8 in
      if off \<ge> 8 then False
      else if lineSepAt s (i + off) then True
      else lineSepCandidates fuel s i (cand AND (cand - 1)))"

function lineSepTail :: "bytes \<Rightarrow> nat \<Rightarrow> bool" where
  "lineSepTail s i =
     (if i + 2 < length s then
        (if s ! i = 0xE2 \<and> lineSepAt s i then True else lineSepTail s (i + 1))
      else False)"
  by pat_completeness auto
termination by (relation "measure (\<lambda>(s, i). length s - i)") auto

function lineSepWindows :: "bytes \<Rightarrow> nat \<Rightarrow> bool" where
  "lineSepWindows s i =
     (if i + 10 \<le> length s then
        (if lineSepCandidates 64 s i (byteEqMask (le64 s i) 0xE2) then True
         else lineSepWindows s (i + 8))
      else lineSepTail s i)"
  by pat_completeness auto
termination by (relation "measure (\<lambda>(s, i). length s - i)") auto

definition hasJSONLineSeparatorScalar :: "bytes \<Rightarrow> nat \<Rightarrow> bool" where
  "hasJSONLineSeparatorScalar src start =
     (let s = drop start src; i = scanBytes (\<lambda>c. c = 0xE2) s 0 (length s) in
      if i \<ge> length s then False
      else if i + 2 < length s \<and> lineSepAt s i then True
      else lineSepWindows s (i + 1))"

definition validUTF8NoLineSeparatorFast :: "bytes \<Rightarrow> bool" where
  "validUTF8NoLineSeparatorFast src \<longleftrightarrow> utf8Valid src \<and> \<not> hasJSONLineSeparatorScalar src 0"

declare lineSepTail.simps [simp del] lineSepWindows.simps [simp del]

subsection \<open>Well-formed UTF-8\<close>

text \<open>One well-formed sequence (the table of well-formed UTF-8 byte sequences).\<close>

definition utf8_seq :: "bytes \<Rightarrow> bool" where
  "utf8_seq s \<longleftrightarrow> s \<noteq> [] \<and> length s = leadSize (s ! 0)
     \<and> (length s \<ge> 2 \<longrightarrow> acceptSecond (s ! 0) (s ! 1))
     \<and> (length s \<ge> 3 \<longrightarrow> contByte (s ! 2)) \<and> (length s \<ge> 4 \<longrightarrow> contByte (s ! 3))"

inductive utf8 :: "bytes \<Rightarrow> bool" where
  utf8_nil: "utf8 []"
| utf8_cons: "utf8_seq s \<Longrightarrow> utf8 r \<Longrightarrow> utf8 (s @ r)"

lemma leadSize_le: "leadSize b \<le> 4"
  by (simp add: leadSize_def)

text \<open>A decode succeeds exactly on a well-formed sequence, and consumes it.\<close>

lemma leadSize_cases: "leadSize b \<in> {0, 1, 2, 3, 4}"
  by (simp add: leadSize_def)

lemma DecodeRune_good:
  assumes "p \<noteq> []" and "\<not> badRune (DecodeRune p)"
  shows "snd (DecodeRune p) \<le> length p" "utf8_seq (take (snd (DecodeRune p)) p)"
proof -
  have l: "length p \<ge> 1" using assms(1) by (cases p) auto
  have "snd (DecodeRune p) \<le> length p \<and> utf8_seq (take (snd (DecodeRune p)) p)"
    using assms l leadSize_cases [of "p ! 0"]
    by (auto simp: DecodeRune_def Let_def badRune_def utf8_seq_def split: if_splits)
  then show "snd (DecodeRune p) \<le> length p" "utf8_seq (take (snd (DecodeRune p)) p)" by auto
qed

lemma ascii_not_RuneError: "ucast (b :: byte) \<noteq> (0xFFFD :: rune)"
proof
  assume "ucast b = (0xFFFD :: rune)"
  then have "unat (ucast b :: rune) = unat (0xFFFD :: rune)" by simp
  moreover have "unat (ucast b :: rune) < 256" using unsigned_less [of b, where 'a = nat]
    by (simp add: unsigned_ucast_eq take_bit_eq_mod)
  ultimately show False by simp
qed

text \<open>The four shapes of a well-formed sequence.\<close>

lemma utf8_seq_cases:
  assumes "utf8_seq s"
  obtains (one) a where "s = [a]" "leadSize a = 1"
  | (two) a b where "s = [a, b]" "leadSize a = 2" "acceptSecond a b"
  | (three) a b c where "s = [a, b, c]" "leadSize a = 3" "acceptSecond a b" "contByte c"
  | (four) a b c d where "s = [a, b, c, d]" "leadSize a = 4" "acceptSecond a b" "contByte c" "contByte d"
proof -
  have l: "length s = leadSize (s ! 0)" "s \<noteq> []" using assms by (auto simp: utf8_seq_def)
  then have "length s = 1 \<or> length s = 2 \<or> length s = 3 \<or> length s = 4"
    using leadSize_cases [of "s ! 0"] by auto
  then consider "length s = 1" | "length s = 2" | "length s = 3" | "length s = 4" by blast
  then show ?thesis
  proof cases
    case 1
    then obtain a where "s = [a]" by (auto simp: length_Suc_conv)
    with l one show ?thesis by simp
  next
    case 2
    then obtain a b where "s = [a, b]" by (auto simp: numeral_eq_Suc length_Suc_conv)
    with l two assms show ?thesis by (simp add: utf8_seq_def)
  next
    case 3
    then obtain a b c where "s = [a, b, c]" by (auto simp: numeral_eq_Suc length_Suc_conv)
    with l three assms show ?thesis by (simp add: utf8_seq_def)
  next
    case 4
    then obtain a b c d where "s = [a, b, c, d]" by (auto simp: numeral_eq_Suc length_Suc_conv)
    with l four assms show ?thesis by (simp add: utf8_seq_def)
  qed
qed

lemma DecodeRune_seq:
  assumes "utf8_seq s"
  shows "\<not> badRune (DecodeRune (s @ r))" "snd (DecodeRune (s @ r)) = length s"
  using assms
  by (cases rule: utf8_seq_cases;
      simp add: DecodeRune_def Let_def badRune_def ascii_not_RuneError)+

lemma utf8Valid_seq: "utf8_seq s \<Longrightarrow> utf8Valid (s @ r) \<longleftrightarrow> utf8Valid r"
  using DecodeRune_seq [of s r] by (subst utf8Valid.simps) (auto simp: utf8_seq_def)

lemma utf8Valid_iff: "utf8Valid p \<longleftrightarrow> utf8 p"
proof
  show "utf8Valid p \<Longrightarrow> utf8 p"
  proof (induction p rule: utf8Valid.induct)
    case (1 p)
    show ?case
    proof (cases "p = []")
      case False
      with 1 have g: "\<not> badRune (DecodeRune p)" "utf8Valid (drop (snd (DecodeRune p)) p)"
        by (auto simp: utf8Valid.simps [of p] split: if_splits)
      then have "utf8 (take (snd (DecodeRune p)) p @ drop (snd (DecodeRune p)) p)"
        using 1 False DecodeRune_good [OF False g(1)] by (intro utf8_cons) auto
      then show ?thesis by simp
    qed (simp add: utf8_nil)
  qed
  show "utf8 p \<Longrightarrow> utf8Valid p"
    by (induction rule: utf8.induct) (simp_all add: utf8Valid_seq utf8Valid.simps [of "[]"])
qed

end
