(* ===== verification/Errors.thy ===== *)
theory Errors
  imports Prelude
begin

text \<open>
  The error values of \<^verbatim>\<open>error.go\<close>: syntax errors with their line and column, and encode errors
  whose path is built while the error unwinds, first as a string and, beyond a threshold, in
  a reversed append-only buffer. Messages are kept as character strings; paths are byte strings.
\<close>

subsection \<open>Syntax errors\<close>

record SyntaxError =
  Offset :: nat
  Line :: nat
  Column :: nat
  Message :: string

text \<open>The loop over \<^verbatim>\<open>src[0:off]\<close> that counts lines and columns.\<close>

function lineColumn :: "bytes \<Rightarrow> nat \<Rightarrow> nat \<Rightarrow> nat \<Rightarrow> nat \<Rightarrow> nat \<times> nat" where
  "lineColumn src off i line col =
     (if i < off then
        (if src ! i = ch_lf then lineColumn src off (i + 1) (line + 1) 1
         else lineColumn src off (i + 1) line (col + 1))
      else (line, col))"
  by pat_completeness auto
termination by (relation "measure (\<lambda>(src, off, i, line, col). off - i)") auto

declare lineColumn.simps [simp del]

definition syntaxError :: "bytes \<Rightarrow> int \<Rightarrow> string \<Rightarrow> SyntaxError" where
  "syntaxError src off0 msg =
     (let off1 = (if off0 < 0 then 0 else off0);
          off = nat (if off1 > int (length src) then int (length src) else off1);
          (line, col) = lineColumn src off 0 1 1
      in \<lparr>Offset = off, Line = line, Column = col, Message = msg\<rparr>)"

text \<open>The one-based line and column of an offset, as a reader counts them.\<close>

definition line_of :: "bytes \<Rightarrow> nat \<Rightarrow> nat" where
  "line_of src off = Suc (count_list (take off src) ch_lf)"

definition column_of :: "bytes \<Rightarrow> nat \<Rightarrow> nat" where
  "column_of src off = Suc (length (takeWhile (\<lambda>c. c \<noteq> ch_lf) (rev (take off src))))"

lemma lineColumn_invariant:
  "i \<le> off \<Longrightarrow> off \<le> length src \<Longrightarrow> line = line_of src i \<Longrightarrow> col = column_of src i \<Longrightarrow>
     lineColumn src off i line col = (line_of src off, column_of src off)"
proof (induction src off i line col rule: lineColumn.induct)
  case (1 src off i line col)
  show ?case
  proof (cases "i < off")
    case True
    with 1 have "take (Suc i) src = take i src @ [src ! i]" by (simp add: take_Suc_conv_app_nth)
    with True 1 show ?thesis
      by (subst lineColumn.simps) (auto simp: line_of_def column_of_def)
  next
    case False
    with 1 show ?thesis by (subst lineColumn.simps) simp
  qed
qed

lemma lineColumn_start:
  "off \<le> length src \<Longrightarrow> lineColumn src off 0 1 1 = (line_of src off, column_of src off)"
  by (rule lineColumn_invariant) (simp_all add: line_of_def column_of_def)

lemma syntaxError_at:
  assumes "off \<le> length src"
  shows "syntaxError src (int off) msg
    = \<lparr>Offset = off, Line = line_of src off, Column = column_of src off, Message = msg\<rparr>"
  using assms lineColumn_start [OF assms] by (simp add: syntaxError_def Let_def)

text \<open>
  C12: a syntax error reports the clamped byte offset, the one-based line (one more than the line
  feeds before it) and the one-based byte column (one more than the bytes since the last line feed).
\<close>

theorem syntaxError_position:
  fixes off :: int and src :: bytes
  defines "o' \<equiv> nat (min (max off 0) (int (length src)))"
  shows "Offset (syntaxError src off msg) = o' \<and> o' \<le> length src
    \<and> Line (syntaxError src off msg) = Suc (count_list (take o' src) ch_lf)
    \<and> Column (syntaxError src off msg) = Suc (length (takeWhile (\<lambda>c. c \<noteq> ch_lf) (rev (take o' src))))
    \<and> Message (syntaxError src off msg) = msg"
proof -
  have le: "o' \<le> length src" by (simp add: o'_def)
  have "(let off1 = (if off < 0 then 0 else off)
         in nat (if off1 > int (length src) then int (length src) else off1)) = o'"
    by (auto simp: o'_def Let_def min_def max_def)
  then have "syntaxError src off msg
      = \<lparr>Offset = o', Line = line_of src o', Column = column_of src o', Message = msg\<rparr>"
    using lineColumn_start [OF le] by (simp add: syntaxError_def Let_def)
  then show ?thesis using le by (simp add: line_of_def column_of_def)
qed

subsection \<open>Encode errors and their paths\<close>

record EncodeError =
  Path :: bytes
  Reason :: string

record encodePathError =
  cause :: EncodeError
  reversed :: bytes

text \<open>The error values the encoder unwinds: any other error passes through untouched.\<close>

datatype encErr = PlainEncode EncodeError | BufferedEncode encodePathError | OtherError string

abbreviation (input) encodePathBufferThreshold :: nat where "encodePathBufferThreshold \<equiv> 256"

definition newEncodePathError :: "EncodeError \<Rightarrow> encodePathError" where
  "newEncodePathError e = \<lparr>cause = e, reversed = rev (Path e)\<rparr>"

text \<open>\<^verbatim>\<open>prepend\<close>: a separating dot unless the path starts with an index, then the segment reversed.\<close>

definition prepend :: "encodePathError \<Rightarrow> bytes \<Rightarrow> encodePathError" where
  "prepend e segment =
     (let buf = (if length (reversed e) > 0 \<and> reversed e ! (length (reversed e) - 1) \<noteq> ch_lbracket
                 then reversed e @ [ch_dot] else reversed e)
      in e\<lparr>reversed := buf @ rev segment\<rparr>)"

definition finishEncodeError :: "encErr \<Rightarrow> encErr" where
  "finishEncodeError err =
     (case err of
        BufferedEncode e \<Rightarrow> PlainEncode ((cause e)\<lparr>Path := rev (reversed e)\<rparr>)
      | _ \<Rightarrow> err)"

definition prependEncodePathField :: "encErr \<Rightarrow> bytes \<Rightarrow> encErr" where
  "prependEncodePathField err name =
     (case err of
        BufferedEncode e \<Rightarrow> BufferedEncode (prepend e name)
      | PlainEncode e \<Rightarrow>
          if length (Path e) \<ge> encodePathBufferThreshold
          then BufferedEncode (prepend (newEncodePathError e) name)
          else PlainEncode (e\<lparr>Path :=
                 (if Path e = [] then name
                  else if Path e ! 0 = ch_lbracket then name @ Path e
                  else name @ [ch_dot] @ Path e)\<rparr>)
      | OtherError m \<Rightarrow> OtherError m)"

text \<open>\<^verbatim>\<open>strconv.Itoa\<close> on the non-negative indices the encoder passes.\<close>

fun decimal :: "nat \<Rightarrow> bytes" where
  "decimal n = (if n < 10 then [ch_0 + of_nat n] else decimal (n div 10) @ [ch_0 + of_nat (n mod 10)])"

declare decimal.simps [simp del]

definition indexSegment :: "nat \<Rightarrow> bytes" where
  "indexSegment index = ch_lbracket # decimal index @ [ch_rbracket]"

definition prependEncodePathIndex :: "encErr \<Rightarrow> nat \<Rightarrow> encErr" where
  "prependEncodePathIndex err index =
     (case err of
        BufferedEncode e \<Rightarrow> BufferedEncode (prepend e (indexSegment index))
      | PlainEncode e \<Rightarrow>
          let segment = indexSegment index in
          if length (Path e) \<ge> encodePathBufferThreshold
          then BufferedEncode (prepend (newEncodePathError e) segment)
          else if Path e = [] \<or> Path e ! 0 = ch_lbracket
          then PlainEncode (e\<lparr>Path := segment @ Path e\<rparr>)
          else PlainEncode (e\<lparr>Path := segment @ [ch_dot] @ Path e\<rparr>)
      | OtherError m \<Rightarrow> OtherError m)"

text \<open>The contract: a path is a list of segments, joined with dots except before an index.\<close>

datatype segment = Field bytes | Index nat

fun segmentText :: "segment \<Rightarrow> bytes" where
  "segmentText (Field n) = n"
| "segmentText (Index i) = indexSegment i"

definition joinSegment :: "bytes \<Rightarrow> bytes \<Rightarrow> bytes" where
  "joinSegment seg path =
     (if path = [] then seg else if hd path = ch_lbracket then seg @ path else seg @ [ch_dot] @ path)"

fun prependSegment :: "encErr \<Rightarrow> segment \<Rightarrow> encErr" where
  "prependSegment err (Field n) = prependEncodePathField err n"
| "prependSegment err (Index i) = prependEncodePathIndex err i"

fun errPath :: "encErr \<Rightarrow> bytes option" where
  "errPath (PlainEncode e) = Some (Path e)"
| "errPath (BufferedEncode e) = Some (rev (reversed e))"
| "errPath (OtherError m) = None"

lemma rev_prepend: "rev (reversed (prepend e seg)) = joinSegment seg (rev (reversed e))"
  by (cases "reversed e" rule: rev_cases) (simp_all add: prepend_def joinSegment_def Let_def)

lemma errPath_prependSegment:
  "errPath (prependSegment err seg) = map_option (joinSegment (segmentText seg)) (errPath err)"
proof (cases err)
  case (PlainEncode e)
  then show ?thesis
    by (cases seg) (auto simp: prependEncodePathField_def prependEncodePathIndex_def rev_prepend
        newEncodePathError_def joinSegment_def Let_def hd_conv_nth)
qed (cases seg; simp add: prependEncodePathField_def prependEncodePathIndex_def rev_prepend)+

fun errReason :: "encErr \<Rightarrow> string option" where
  "errReason (PlainEncode e) = Some (Reason e)"
| "errReason (BufferedEncode e) = Some (Reason (cause e))"
| "errReason (OtherError m) = None"

lemma errReason_prependSegment: "errReason (prependSegment err seg) = errReason err"
  by (cases err; cases seg)
    (auto simp: prependEncodePathField_def prependEncodePathIndex_def prepend_def
      newEncodePathError_def Let_def)

lemma finishEncodeError_eq:
  "errPath err = Some p \<Longrightarrow> errReason err = Some r \<Longrightarrow>
     finishEncodeError err = PlainEncode \<lparr>Path = p, Reason = r\<rparr>"
  by (cases err) (auto simp: finishEncodeError_def)

text \<open>
  C13: however long the path grows and whichever representation holds it, unwinding an encode error
  through the segments (innermost first) and finishing it yields the path that joins the segments,
  with the reason unchanged; finished errors are always in the plain representation.
\<close>

theorem encode_path_refinement:
  "finishEncodeError (foldl prependSegment (PlainEncode \<lparr>Path = p, Reason = r\<rparr>) segs)
     = PlainEncode \<lparr>Path = foldl (\<lambda>path seg. joinSegment (segmentText seg) path) p segs, Reason = r\<rparr>"
proof -
  let ?e = "foldl prependSegment (PlainEncode \<lparr>Path = p, Reason = r\<rparr>) segs"
  have "errPath ?e = Some (foldl (\<lambda>path seg. joinSegment (segmentText seg) path) p segs)"
    by (induction segs rule: rev_induct) (simp_all add: errPath_prependSegment)
  moreover have "errReason ?e = Some r"
    by (induction segs rule: rev_induct) (simp_all add: errReason_prependSegment)
  ultimately show ?thesis by (rule finishEncodeError_eq)
qed

end
