(* ===== verification/Strings.thy ===== *)
theory Strings
  imports Utf8 Errors
begin

text \<open>
  String tokens: the hexadecimal helpers of \<^verbatim>\<open>parser.go\<close>, the escape checks and the string loop of
  the validator (\<^verbatim>\<open>validate.go\<close>). The loop jumps over clean runs with the word-wide scanners; the
  reference it is compared with reads one character or escape at a time, and the grammar
  \<open>jchars\<close> says which contents are legal and what they decode to.
\<close>

subsection \<open>Hexadecimal digits\<close>

text \<open>The table \<^verbatim>\<open>hexNibbleTable\<close>: the value of a hexadecimal digit, \<^verbatim>\<open>0xFF\<close> for any other byte.\<close>

definition hexNibbleTable :: "byte \<Rightarrow> byte" where
  "hexNibbleTable c =
     (if ch_0 \<le> c \<and> c \<le> ch_9 then c - ch_0
      else if 0x61 \<le> c \<and> c \<le> 0x66 then c - 0x61 + 10
      else if 0x41 \<le> c \<and> c \<le> 0x46 then c - 0x41 + 10
      else 0xFF)"

definition hex4 :: "bytes \<Rightarrow> nat \<Rightarrow> 16 word \<times> bool" where
  "hex4 src i =
     (if i + 4 > length src then (0, False)
      else let a = hexNibbleTable (src ! i);
               b = hexNibbleTable (src ! (i + 1));
               c = hexNibbleTable (src ! (i + 2));
               d = hexNibbleTable (src ! (i + 3))
           in (push_bit 12 (ucast a) OR push_bit 8 (ucast b) OR push_bit 4 (ucast c) OR ucast d,
               a OR b OR c OR d < 0x10))"

subsection \<open>The validator's escape checks\<close>

text \<open>\<^verbatim>\<open>v.err(off, msg)\<close>.\<close>

abbreviation (input) err_at :: "bytes \<Rightarrow> int \<Rightarrow> string \<Rightarrow> (SyntaxError, 'a) outcome" where
  "err_at src off msg \<equiv> Fail (syntaxError src off msg)"

text \<open>\<open>i\<close> is the offset of the \<^verbatim>\<open>u\<close>; the result is the offset behind the escape.\<close>

definition validateUnicodeEscape :: "bytes \<Rightarrow> nat \<Rightarrow> (SyntaxError, nat) outcome" where
  "validateUnicodeEscape src i =
     (let start = int i - 1; i = i + 1; (u, ok) = hex4 src i in
      if \<not> ok then err_at src start ''invalid unicode escape''
      else
        let i = i + 4 in
        if 0xD800 \<le> u \<and> u \<le> 0xDBFF then
          if i + 6 > length src \<or> src ! i \<noteq> ch_backslash \<or> src ! (i + 1) \<noteq> ch_u
          then err_at src start ''missing low surrogate''
          else
            let i = i + 2; (lo, ok) = hex4 src i in
            if \<not> ok then err_at src start ''invalid low surrogate''
            else if lo < 0xDC00 \<or> lo > 0xDFFF then err_at src start ''invalid low surrogate''
            else Ok (i + 4)
        else if 0xDC00 \<le> u \<and> u \<le> 0xDFFF then err_at src start ''unexpected low surrogate''
        else Ok i)"

definition validateEscape :: "bytes \<Rightarrow> nat \<Rightarrow> (SyntaxError, nat) outcome" where
  "validateEscape src i =
     (let c = src ! i in
      if c \<in> {ch_quote, ch_backslash, ch_slash, ch_b, ch_f, ch_n, ch_r, ch_t} then Ok (i + 1)
      else if c = ch_u then validateUnicodeEscape src i
      else err_at src (int i - 1) ''invalid escape sequence'')"

lemma validateUnicodeEscape_gt: "validateUnicodeEscape src i = Ok j \<Longrightarrow> i < j"
  by (auto simp: validateUnicodeEscape_def Let_def split: if_splits prod.splits)

lemma validateEscape_gt: "validateEscape src i = Ok j \<Longrightarrow> i < j"
  by (auto simp: validateEscape_def Let_def validateUnicodeEscape_gt split: if_splits)

lemma hex4_le: "snd (hex4 src i) \<Longrightarrow> i + 4 \<le> length src"
  by (auto simp: hex4_def Let_def split: if_splits)

lemma validateUnicodeEscape_le: "validateUnicodeEscape src i = Ok j \<Longrightarrow> j \<le> length src"
  using hex4_le [of src "i + 1"] hex4_le [of src "i + 7"]
  by (auto simp: validateUnicodeEscape_def Let_def split: if_splits prod.splits)

lemma validateEscape_le: "validateEscape src i = Ok j \<Longrightarrow> i < length src \<Longrightarrow> j \<le> length src"
  by (auto simp: validateEscape_def Let_def validateUnicodeEscape_le split: if_splits)

subsection \<open>Progress of the scanners\<close>

lemma scanStringSpecial_beyond: "length src < i \<Longrightarrow> scanStringSpecial src i = length src"
  by (simp add: scanStringSpecial_def scanStringSpecialScalar_def scanStringSpecialScalarUntil_def
      scanWords16.simps [of _ _ i] scanBytes.simps [of _ _ i])

lemma scanStringSpecial_props:
  assumes "scanStringSpecial src i < length src"
  shows "i \<le> scanStringSpecial src i" "isStringSpecial (src ! scanStringSpecial src i)"
proof -
  have i: "i \<le> length src" using assms scanStringSpecial_beyond [of src i] by (cases "i \<le> length src") auto
  show "i \<le> scanStringSpecial src i" "isStringSpecial (src ! scanStringSpecial src i)"
    using scanBytes_props [OF i, where stop = isStringSpecial and src = src] scanStringSpecial_eq [OF i] assms by auto
qed

lemma scanStringUnicodeRun_gt:
  assumes "i < length src" "\<not> isStringSyntax (src ! i)"
  shows "i < fst (scanStringUnicodeRun src i) \<or> snd (scanStringUnicodeRun src i) \<noteq> None"
proof -
  have "1 \<le> snd (DecodeRune (drop i src))" using assms by (intro DecodeRune_size) simp
  moreover have "i < scanStringSyntax src i"
    using assms scanBytes_props(1) [of "Suc i" "length src" isStringSyntax src]
    by (simp add: scanStringSyntax_eq scanBytes.simps [of isStringSyntax src i])
  ultimately show ?thesis by (auto simp: scanStringUnicodeRun_def Let_def)
qed

subsection \<open>The string loop of the validator\<close>

function parseStringLoop :: "bytes \<Rightarrow> nat \<Rightarrow> (SyntaxError, nat) outcome" where
  "parseStringLoop src i =
     (let j = scanStringSpecial src i in
      if j \<ge> length src then err_at src (int (length src)) ''unterminated string''
      else
        let c = src ! j in
        if c = ch_quote then Ok (j + 1)
        else if c = ch_backslash then
          if j + 1 \<ge> length src then err_at src (int (j + 1)) ''unterminated escape sequence''
          else (case validateEscape src (j + 1) of
                  Ok k \<Rightarrow> parseStringLoop src k
                | Fail e \<Rightarrow> Fail e
                | NoFuel \<Rightarrow> NoFuel)
        else if c < 0x20 then err_at src (int j) ''unescaped control byte in string''
        else (case scanStringUnicodeRun src j of
                (next, Some bad) \<Rightarrow> err_at src (int bad) ''invalid UTF-8 in string''
              | (next, None) \<Rightarrow> parseStringLoop src next))"
  by pat_completeness auto
termination
proof (relation "measure (\<lambda>(src, i). length src - i)", simp_all, goal_cases)
  case (1 src i j c k)
  then show ?case
    using scanStringSpecial_props [of src i]
      validateEscape_gt [of src "Suc (scanStringSpecial src i)" k] by simp
next
  case (2 src i j c nxt)
  then have "scanStringUnicodeRun src (scanStringSpecial src i) = (nxt, None)" by metis
  with 2 show ?case
    using scanStringSpecial_props [of src i]
      scanStringUnicodeRun_gt [of "scanStringSpecial src i" src] by (auto simp: isStringSyntax_def)
qed

declare parseStringLoop.simps [simp del]

text \<open>\<^verbatim>\<open>v.parseString\<close>: \<open>i\<close> is the offset of the opening quote.\<close>

definition parseString :: "bytes \<Rightarrow> nat \<Rightarrow> (SyntaxError, nat) outcome" where
  "parseString src i = parseStringLoop src (i + 1)"

subsection \<open>The reference: one character or escape at a time\<close>

datatype unit_step = Closed nat | Advance nat | Bad SyntaxError

definition string_unit :: "bytes \<Rightarrow> nat \<Rightarrow> unit_step" where
  "string_unit src i =
     (if i \<ge> length src then Bad (syntaxError src (int (length src)) ''unterminated string'')
      else if src ! i = ch_quote then Closed (i + 1)
      else if src ! i = ch_backslash then
        if i + 1 \<ge> length src then Bad (syntaxError src (int (i + 1)) ''unterminated escape sequence'')
        else (case validateEscape src (i + 1) of
                Ok k \<Rightarrow> Advance k
              | Fail e \<Rightarrow> Bad e
              | NoFuel \<Rightarrow> Bad (syntaxError src (int i) []))
      else if src ! i < 0x20 then Bad (syntaxError src (int i) ''unescaped control byte in string'')
      else if src ! i < 0x80 then Advance (i + 1)
      else if badRune (DecodeRune (drop i src))
      then Bad (syntaxError src (int i) ''invalid UTF-8 in string'')
      else Advance (i + snd (DecodeRune (drop i src))))"

lemma string_unit_gt: "string_unit src i = Advance j \<Longrightarrow> i < j"
  using DecodeRune_size [of "drop i src"] validateEscape_gt [of src "i + 1" j]
  by (auto simp: string_unit_def split: if_splits outcome.splits)

lemma string_unit_lt: "string_unit src i = Advance j \<Longrightarrow> i < length src"
  by (auto simp: string_unit_def split: if_splits)

function string_end :: "bytes \<Rightarrow> nat \<Rightarrow> (SyntaxError, nat) outcome" where
  "string_end src i =
     (case string_unit src i of Closed j \<Rightarrow> Ok j | Bad e \<Rightarrow> Fail e | Advance j \<Rightarrow> string_end src j)"
  by pat_completeness auto
termination
  by (relation "measure (\<lambda>(src, i). length src - i)")
    (use string_unit_gt string_unit_lt in \<open>fastforce intro: diff_less_mono2\<close>)+

declare string_end.simps [simp del]

lemma string_end_Advance: "string_unit src i = Advance j \<Longrightarrow> string_end src i = string_end src j"
  by (simp add: string_end.simps [of src i])

lemma string_end_Bad: "string_unit src i = Bad e \<Longrightarrow> string_end src i = Fail e"
  by (simp add: string_end.simps [of src i])

lemma validateEscape_fuel: "validateEscape src i \<noteq> NoFuel"
  by (auto simp: validateEscape_def validateUnicodeEscape_def Let_def split: prod.splits)

subsection \<open>The loop computes the reference\<close>

lemma string_end_scan:
  assumes "i \<le> length src"
  shows "string_end src (scanBytes isStringSpecial src i (length src)) = string_end src i"
  using assms
proof (induction "length src - i" arbitrary: i)
  case 0
  then show ?case by (subst scanBytes.simps) simp
next
  case (Suc k)
  show ?case
  proof (cases "isStringSpecial (src ! i)")
    case True
    with Suc show ?thesis by (simp add: scanBytes_at)
  next
    case False
    with Suc have "string_unit src i = Advance (Suc i)"
      by (auto simp: string_unit_def isStringSpecial_def)
    moreover have "i < length src" using Suc by linarith
    ultimately show ?thesis using False Suc.hyps Suc.prems
      by (simp add: scanBytes.simps [of _ _ i] string_end_Advance)
  qed
qed

lemma string_unit_seq:
  assumes "drop p src = s @ rest" "utf8_seq s" "length s = 1 \<Longrightarrow> \<not> isStringSyntax (hd s)"
  shows "string_unit src p = Advance (p + length s)"
proof -
  have ne: "s \<noteq> []" using assms(2) by (auto simp: utf8_seq_def)
  then obtain a s' where s: "s = a # s'" by (cases s) auto
  then have p: "p < length src" "src ! p = a" using assms(1) by (auto dest: drop_eq_ConsD)
  have l: "length s = leadSize a" using assms(2) s by (simp add: utf8_seq_def)
  show ?thesis
  proof (cases "a < 0x80")
    case True
    then have "length s = 1" using l by (simp add: leadSize_def)
    with assms(3) s p True show ?thesis by (auto simp: string_unit_def isStringSyntax_def)
  next
    case False
    then have "a \<noteq> ch_quote" "a \<noteq> ch_backslash" "\<not> a < 0x20"
      by (auto simp: not_less intro: order_trans [of _ "0x80"])
    with False p assms(1) DecodeRune_seq [OF assms(2), of rest] show ?thesis
      by (simp add: string_unit_def)
  qed
qed

lemma utf8_run:
  assumes "utf8 r" "drop p src = r @ rest" "\<And>c. c \<in> set r \<Longrightarrow> \<not> isStringSyntax c"
  shows "string_end src p = string_end src (p + length r)"
  using assms
proof (induction arbitrary: p rule: utf8.induct)
  case (utf8_cons s r)
  have ne: "s \<noteq> []" using utf8_cons.hyps(1) by (auto simp: utf8_seq_def)
  have "string_unit src p = Advance (p + length s)"
    using utf8_cons.prems utf8_cons.hyps(1) ne by (intro string_unit_seq [where rest = "r @ rest"]) auto
  then have "string_end src p = string_end src (p + length s)" by (rule string_end_Advance)
  also have "\<dots> = string_end src (p + length s + length r)"
    using utf8_cons.prems drop_eq_appendD [of p src s "r @ rest"] by (intro utf8_cons.IH) auto
  finally show ?case by (simp add: add.assoc)
qed simp

text \<open>Cutting the input at a byte that cannot continue a sequence does not change a decode.\<close>

lemma DecodeRune_cut:
  assumes "p < stop" "stop \<le> length src" "stop < length src \<Longrightarrow> \<not> 0x80 \<le> src ! stop"
    and bad: "badRune (DecodeRune (subslice src p stop))"
  shows "badRune (DecodeRune (drop p src))"
proof (rule ccontr)
  assume g: "\<not> badRune (DecodeRune (drop p src))"
  let ?n = "snd (DecodeRune (drop p src))" let ?s = "take ?n (drop p src)"
  have ne: "drop p src \<noteq> []" using assms by simp
  note good = DecodeRune_good [OF ne g]
  have split: "drop p src = subslice src p stop @ drop stop src" using assms by (intro drop_slice) simp
  have len: "length (subslice src p stop) = stop - p" using assms by (simp add: slices)
  show False
  proof (cases "?n \<le> stop - p")
    case True
    then have "?s = take ?n (subslice src p stop)" using split len
      by (metis append_Nil2 diff_is_0_eq take_0 take_append)
    then have "subslice src p stop = ?s @ drop ?n (subslice src p stop)"
      by (metis append_take_drop_id)
    with DecodeRune_seq(1) [OF good(2), of "drop ?n (subslice src p stop)"] bad show False by simp
  next
    case False
    then have st: "stop < length src" using good(1) assms by simp
    have k: "stop - p < length ?s" "0 < stop - p" using False good(1) assms by simp_all
    have "?s ! (stop - p) = src ! stop" using k assms by simp
    moreover have "0x80 \<le> ?s ! (stop - p)"
      using good(2) k
      by (cases rule: utf8_seq_cases)
        (auto simp: less_Suc_eq nth_Cons' acceptSecond_def contByte_def split: if_splits
          elim: order_trans [rotated])
    ultimately show False using assms(3) st by simp
  qed
qed

lemma invalidUTF8_reference:
  assumes "start \<le> stop" "stop \<le> length src" "stop < length src \<Longrightarrow> \<not> 0x80 \<le> src ! stop"
    "\<And>k. start \<le> k \<Longrightarrow> k < stop \<Longrightarrow> \<not> isStringSyntax (src ! k)"
    "\<not> utf8Valid (subslice src start stop)"
  shows "string_end src start
    = err_at src (int (invalidUTF8Loop src start stop)) ''invalid UTF-8 in string''"
  using assms
proof (induction src start stop rule: invalidUTF8Loop.induct)
  case (1 src start stop)
  let ?p = "subslice src start stop" let ?d = "DecodeRune (subslice src start stop)"
  have lt: "start < stop" "start < length src"
  proof -
    have "?p \<noteq> []" using "1.prems"(5) by (auto simp: utf8Valid.simps [of "[]"])
    then show "start < stop" "start < length src" using "1.prems"(1,2) by (auto simp: subslice_def)
  qed
  have ne: "?p \<noteq> []" using lt by (simp add: slice_Cons)
  have split: "drop start src = ?p @ drop stop src" using lt by (intro drop_slice) simp
  have syn: "\<not> isStringSyntax (src ! start)" using "1.prems"(4) lt by simp
  show ?case
  proof (cases "badRune ?d")
    case True
    then have bad: "badRune (DecodeRune (drop start src))" using "1.prems" lt by (intro DecodeRune_cut) auto
    then have "\<not> src ! start < 0x80"
      using lt ascii_not_RuneError by (auto simp: badRune_def DecodeRune_def Let_def leadSize_def)
    with bad syn lt have "string_unit src start
        = Bad (syntaxError src (int start) ''invalid UTF-8 in string'')"
      by (auto simp: string_unit_def isStringSyntax_def)
    with True lt show ?thesis
      by (simp add: string_end_Bad invalidUTF8Loop.simps [of src start stop])
  next
    case False
    note good = DecodeRune_good [OF ne False]
    let ?n = "snd ?d" let ?s = "take ?n ?p"
    have len: "length ?p = stop - start" using "1.prems"(2) by (simp add: slices)
    have s: "drop start src = ?s @ (drop ?n ?p @ drop stop src)" "length ?s = ?n"
      using split good(1) by simp_all
    have n: "start + ?n \<le> stop" using good(1) len lt by linarith
    have "hd ?s = src ! start" using lt DecodeRune_size [OF ne] by (simp add: slice_Cons hd_take)
    then have "string_unit src start = Advance (start + ?n)"
      using string_unit_seq [OF s(1) good(2)] syn s(2) by simp
    then have step: "string_end src start = string_end src (start + ?n)" by (rule string_end_Advance)
    have rest: "drop ?n ?p = subslice src (start + ?n) stop"
      using n by (simp add: subslice_def drop_take add.commute)
    have "string_end src (start + ?n)
        = err_at src (int (invalidUTF8Loop src (start + ?n) stop)) ''invalid UTF-8 in string''"
      using lt False n "1.prems" ne rest
      by (intro "1.IH") (auto simp: utf8Valid.simps [of ?p])
    with step lt False show ?thesis by (simp add: invalidUTF8Loop.simps [of src start stop] Let_def)
  qed
qed

text \<open>What one call of \<^verbatim>\<open>scanStringUnicodeRun\<close> does to the reference.\<close>

lemma unicode_run_reference:
  assumes i: "i < length src" and hi: "0x80 \<le> src ! i"
  shows "case scanStringUnicodeRun src i of
      (nxt, None) \<Rightarrow> i < nxt \<and> nxt \<le> length src \<and> string_end src i = string_end src nxt
    | (nxt, Some bad) \<Rightarrow> string_end src i = err_at src (int bad) ''invalid UTF-8 in string''"
proof (cases "length src - i < 32")
  case True
  have ne: "drop i src \<noteq> []" using i by simp
  have c: "src ! i \<noteq> ch_quote" "src ! i \<noteq> ch_backslash" "\<not> src ! i < 0x20" "\<not> src ! i < 0x80"
    using hi by (auto simp: not_less intro: order_trans [of _ "0x80"])
  show ?thesis
  proof (cases "badRune (DecodeRune (drop i src))")
    case bad: True
    then have "string_unit src i = Bad (syntaxError src (int i) ''invalid UTF-8 in string'')"
      using c i by (simp add: string_unit_def)
    with True bad show ?thesis by (simp add: scanStringUnicodeRun_def Let_def string_end_Bad)
  next
    case good: False
    then have "string_unit src i = Advance (i + snd (DecodeRune (drop i src)))"
      using c i by (simp add: string_unit_def)
    with True good DecodeRune_good(1) [OF ne good] DecodeRune_size [OF ne] show ?thesis
      by (auto simp: scanStringUnicodeRun_def Let_def string_end_Advance)
  qed
next
  case False
  define nxt where "nxt = scanStringSyntax src i"
  note sb = scanBytes_props [of i "length src", where stop = isStringSyntax and src = src]
  have e: "nxt = scanBytes isStringSyntax src i (length src)"
    using i by (simp add: nxt_def scanStringSyntax_eq)
  have syn: "\<not> isStringSyntax (src ! i)"
    using hi by (auto simp: isStringSyntax_def not_less intro: order_trans [of _ "0x80"])
  have gt: "i < nxt" "nxt \<le> length src" using sb(1,2) i syn e
    scanBytes_props(1) [of "Suc i" "length src" isStringSyntax src]
    by (simp_all add: scanBytes.simps [of isStringSyntax src i])
  have run: "\<not> isStringSyntax (src ! k)" if "i \<le> k" "k < nxt" for k using sb(4) i that e by simp
  have stop: "\<not> 0x80 \<le> src ! nxt" if "nxt < length src"
    using sb(3) i that e by (auto simp: isStringSyntax_def not_le intro: less_trans [of _ "0x20"])
  show ?thesis
  proof (cases "utf8Valid (subslice src i nxt)")
    case True
    have d: "drop i src = subslice src i nxt @ drop nxt src" using gt by (intro drop_slice) simp
    have "c \<in> set (subslice src i nxt) \<Longrightarrow> \<not> isStringSyntax c" for c
      using run gt by (auto simp: in_set_conv_nth slices)
    then have "string_end src i = string_end src (i + length (subslice src i nxt))"
      using True d by (intro utf8_run) (auto simp: utf8Valid_iff)
    with False True gt show ?thesis
      by (simp add: scanStringUnicodeRun_def Let_def invalidUTF8Index_def nxt_def [symmetric] slices)
  next
    case inv: False
    have "string_end src i = err_at src (int (invalidUTF8Loop src i nxt)) ''invalid UTF-8 in string''"
      using gt run stop inv by (intro invalidUTF8_reference) auto
    with False inv show ?thesis
      by (simp add: scanStringUnicodeRun_def Let_def invalidUTF8Index_def nxt_def [symmetric])
  qed
qed

lemma parseStringLoop_reference: "i \<le> length src \<Longrightarrow> parseStringLoop src i = string_end src i"
proof (induction src i rule: parseStringLoop.induct)
  case (1 src i)
  define j where "j = scanStringSpecial src i"
  have je: "j = scanBytes isStringSpecial src i (length src)"
    using "1.prems" by (simp add: j_def scanStringSpecial_eq)
  have eq: "string_end src i = string_end src j"
    using string_end_scan [OF "1.prems"] je by simp
  show ?case
  proof (cases "j < length src")
    case False
    then have "string_unit src j = Bad (syntaxError src (int (length src)) ''unterminated string'')"
      by (simp add: string_unit_def)
    with False eq show ?thesis
      by (simp add: parseStringLoop.simps [of src i] j_def [symmetric] string_end_Bad)
  next
    case True
    have sp: "i \<le> j" "isStringSpecial (src ! j)"
      using scanStringSpecial_props [of src i] True by (simp_all add: j_def)
    consider "src ! j = ch_quote" | "src ! j = ch_backslash" | "src ! j < 0x20"
      | "0x80 \<le> src ! j" "src ! j \<noteq> ch_quote" "src ! j \<noteq> ch_backslash" "\<not> src ! j < 0x20"
      using sp(2) by (auto simp: isStringSpecial_def)
    then show ?thesis
    proof cases
      case 1
      with True eq show ?thesis
        by (simp add: parseStringLoop.simps [of src i] j_def [symmetric] string_end.simps [of src j]
            string_unit_def)
    next
      case 2
      have IH: "parseStringLoop src k = string_end src k"
        if "Suc j < length src" "validateEscape src (Suc j) = Ok k" for k
        using "1.IH"(1) [OF j_def] that True 2 validateEscape_le [OF that(2) that(1)] by simp
      from 2 True eq IH show ?thesis
        by (auto simp: parseStringLoop.simps [of src i] j_def [symmetric] string_end.simps [of src j]
            string_unit_def validateEscape_fuel not_less split: outcome.splits)
    next
      case 3
      then have "src ! j \<noteq> ch_quote" "src ! j \<noteq> ch_backslash" by auto
      with 3 True eq show ?thesis
        by (simp add: parseStringLoop.simps [of src i] j_def [symmetric] string_end.simps [of src j]
            string_unit_def)
    next
      case 4
      have IH: "parseStringLoop src k = string_end src k"
        if "scanStringUnicodeRun src j = (k, None)" for k
        using "1.IH"(2) [OF j_def] that True 4 unicode_run_reference [OF True 4(1)] by simp
      from 4 True eq IH unicode_run_reference [OF True 4(1)] show ?thesis
        by (auto simp: parseStringLoop.simps [of src i] j_def [symmetric] split: prod.splits option.splits)
    qed
  qed
qed

end
