(* ===== verification/StringGrammar.thy ===== *)
theory StringGrammar
  imports Strings
begin

text \<open>
  The grammar of string contents and what they denote. \<open>jchar raw dec\<close> relates one character or
  escape of the source to the UTF-8 bytes it stands for; \<open>jchars\<close> is its sequence closure. The
  string loop of the validator accepts exactly the contents the grammar has.
\<close>

subsection \<open>Numbers written in hexadecimal\<close>

definition hexval :: "byte \<Rightarrow> nat option" where
  "hexval c =
     (if ch_0 \<le> c \<and> c \<le> ch_9 then Some (unat c - 48)
      else if 0x61 \<le> c \<and> c \<le> 0x66 then Some (unat c - 87)
      else if 0x41 \<le> c \<and> c \<le> 0x46 then Some (unat c - 55)
      else None)"

definition hexnum :: "bytes \<Rightarrow> nat option" where
  "hexnum h = (case map hexval h of
       [Some a, Some b, Some c, Some d] \<Rightarrow> Some (4096 * a + 256 * b + 16 * c + d)
     | _ \<Rightarrow> None)"

lemma hexval_lt: "hexval c = Some n \<Longrightarrow> n < 16"
  unfolding hexval_def by (simp split: if_splits; unat_arith)

lemma word_of_nat_minus: "k \<le> unat c \<Longrightarrow> word_of_nat (unat c - k) = c - word_of_nat k"
  by (simp add: of_nat_diff)

lemma hexNibble_Some: "hexval c = Some n \<Longrightarrow> hexNibbleTable c = word_of_nat n"
  unfolding hexval_def hexNibbleTable_def
  by (simp add: word_le_nat_alt split: if_splits; clarsimp simp: word_of_nat_minus)

lemma hexNibble_None: "hexval c = None \<Longrightarrow> hexNibbleTable c = 0xFF"
  unfolding hexval_def hexNibbleTable_def by (auto split: if_splits)

lemma nibble_lt: "(x :: byte) < 0x10 \<longleftrightarrow> drop_bit 4 x = 0"
proof -
  have "drop_bit 4 x = 0 \<longleftrightarrow> unat (drop_bit 4 x) = 0" by (simp only: unat_eq_zero)
  also have "\<dots> \<longleftrightarrow> unat x div 16 = 0" by (simp only: drop_bit_eq_div unat_div) simp
  finally show ?thesis by (auto simp: word_less_nat_alt)
qed

lemma nibble_bit:
  fixes x :: byte
  assumes "x < 0x10" "4 \<le> n"
  shows "\<not> bit x n"
proof
  assume "bit x n"
  then have "bit (drop_bit 4 x) (n - 4)" using assms(2) by (simp add: bit_drop_bit_eq)
  with assms(1) show False using nibble_lt [of x] by auto
qed

lemma nibbles_lt: "(a OR b :: byte) < 0x10 \<longleftrightarrow> a < 0x10 \<and> b < 0x10"
  by (simp add: nibble_lt drop_bit_or or_eq_0_iff)

lemma hex4_nibbles:
  fixes a b c d :: byte
  assumes "a < 0x10" "b < 0x10" "c < 0x10" "d < 0x10"
  shows "unat (push_bit 12 (ucast a) OR push_bit 8 (ucast b) OR push_bit 4 (ucast c) OR ucast d :: 16 word)
    = 4096 * unat a + 256 * unat b + 16 * unat c + unat d"
proof -
  note nb = nibble_bit [OF assms(1)] nibble_bit [OF assms(2)] nibble_bit [OF assms(3)] nibble_bit [OF assms(4)]
  let ?a = "push_bit 12 (ucast a) :: 16 word" let ?b = "push_bit 8 (ucast b) :: 16 word"
  let ?c = "push_bit 4 (ucast c) :: 16 word"
  have "(?c OR ucast d) = ?c + ucast d"
    by (rule disjunctive_add [symmetric]) (use nb in \<open>auto simp: bit_simps not_le\<close>)
  moreover have "?b OR (?c OR ucast d) = ?b + (?c OR ucast d)"
    by (rule disjunctive_add [symmetric]) (use nb in \<open>auto simp: bit_simps not_le\<close>)
  moreover have "?a OR (?b OR (?c OR ucast d)) = ?a + (?b OR (?c OR ucast d))"
    by (rule disjunctive_add [symmetric]) (use nb in \<open>auto simp: bit_simps not_le\<close>)
  ultimately have "?a OR ?b OR ?c OR ucast d = ?a + (?b + (?c + ucast d))" by (simp add: or.assoc)
  also have "unat \<dots> = 4096 * unat a + 256 * unat b + 16 * unat c + unat d"
    using assms by (simp add: word_less_nat_alt unat_word_ariths push_bit_eq_mult unsigned_ucast_eq
        take_bit_eq_mod)
  finally show ?thesis .
qed

lemma hexnum_Some:
  assumes "hexnum h = Some n"
  obtains a b c d where "h = [a, b, c, d]" "hexnum [a, b, c, d] = Some n"
    "hexval a \<noteq> None" "hexval b \<noteq> None" "hexval c \<noteq> None" "hexval d \<noteq> None"
proof -
  from assms obtain a b c d where "h = [a, b, c, d]"
      "hexval a \<noteq> None" "hexval b \<noteq> None" "hexval c \<noteq> None" "hexval d \<noteq> None"
    by (auto simp: hexnum_def split: list.splits option.splits)
  with that assms show ?thesis by blast
qed

lemma hexnum_length: "hexnum h = Some n \<Longrightarrow> length h = 4"
  by (erule hexnum_Some) simp

lemma hexNibble_lt: "hexNibbleTable c < 0x10 \<longleftrightarrow> hexval c \<noteq> None"
proof (cases "hexval c")
  case (Some n)
  then show ?thesis
    using hexval_lt [OF Some] by (simp add: hexNibble_Some word_less_nat_alt unat_of_nat)
qed (simp add: hexNibble_None)

lemma hexNibble_unat: "hexval c = Some n \<Longrightarrow> unat (hexNibbleTable c) = n"
  using hexval_lt [of c n] by (simp add: hexNibble_Some unat_of_nat)

lemma hex4_Some:
  assumes "hexnum h = Some n" "drop i src = h @ rest"
  shows "hex4 src i = (word_of_nat n, True)" "n < 0x10000"
proof -
  obtain a b c d where h: "h = [a, b, c, d]" "hexnum [a, b, c, d] = Some n"
      and v: "hexval a \<noteq> None" "hexval b \<noteq> None" "hexval c \<noteq> None" "hexval d \<noteq> None"
    using hexnum_Some [OF assms(1)] .
  from v obtain va vb vc vd where vs: "hexval a = Some va" "hexval b = Some vb" "hexval c = Some vc"
      "hexval d = Some vd" by auto
  have n: "n = 4096 * va + 256 * vb + 16 * vc + vd" using h(2) vs by (simp add: hexnum_def)
  then show lt: "n < 0x10000" using vs hexval_lt [of a] hexval_lt [of b] hexval_lt [of c] hexval_lt [of d] by simp
  have at: "i + 4 \<le> length src" "src ! i = a" "src ! (i + 1) = b" "src ! (i + 2) = c" "src ! (i + 3) = d"
    using drop_eq_append_le [OF assms(2)] nth_of_drop [OF assms(2), of 0] nth_of_drop [OF assms(2), of 1]
      nth_of_drop [OF assms(2), of 2] nth_of_drop [OF assms(2), of 3] h(1) by simp_all
  have "hex4 src i = (word_of_nat n, True)
    \<longleftrightarrow> fst (hex4 src i) = word_of_nat n \<and> snd (hex4 src i)" by (cases "hex4 src i") simp
  moreover have "snd (hex4 src i)" using at v by (simp add: hex4_def Let_def nibbles_lt hexNibble_lt)
  moreover have "unat (fst (hex4 src i)) = n" using at v vs n
    by (simp add: hex4_def Let_def hex4_nibbles hexNibble_lt hexNibble_unat)
  then have "fst (hex4 src i) = word_of_nat n" by auto
  ultimately show "hex4 src i = (word_of_nat n, True)" by simp
qed

lemma hex4_ok:
  assumes "snd (hex4 src i)"
  obtains h n where "drop i src = h @ drop (i + 4) src" "length h = 4" "hexnum h = Some n"
proof -
  let ?h = "subslice src i (i + 4)"
  have l: "i + 4 \<le> length src" using assms by (rule hex4_le)
  have hh: "?h = [src ! i, src ! (i + 1), src ! (i + 2), src ! (i + 3)]"
    using l by (simp add: slice_Cons numeral_eq_Suc)
  have "hexval (src ! i) \<noteq> None" "hexval (src ! (i + 1)) \<noteq> None" "hexval (src ! (i + 2)) \<noteq> None"
      "hexval (src ! (i + 3)) \<noteq> None"
    using assms l by (simp_all add: hex4_def Let_def nibbles_lt hexNibble_lt)
  then obtain n where "hexnum ?h = Some n" by (auto simp: hexnum_def hh)
  moreover have "drop i src = ?h @ drop (i + 4) src" by (intro drop_slice) simp
  ultimately show ?thesis using that hh by simp
qed

subsection \<open>The grammar\<close>

definition simple_escape :: "byte \<Rightarrow> byte option" where
  "simple_escape c =
     (if c = ch_quote then Some ch_quote else if c = ch_backslash then Some ch_backslash
      else if c = ch_slash then Some ch_slash else if c = ch_b then Some 0x08
      else if c = ch_f then Some 0x0C else if c = ch_n then Some ch_lf
      else if c = ch_r then Some ch_cr else if c = ch_t then Some ch_tab else None)"

definition high_surrogate :: "nat \<Rightarrow> bool" where
  "high_surrogate n \<longleftrightarrow> 0xD800 \<le> n \<and> n \<le> 0xDBFF"

definition low_surrogate :: "nat \<Rightarrow> bool" where
  "low_surrogate n \<longleftrightarrow> 0xDC00 \<le> n \<and> n \<le> 0xDFFF"

inductive jchar :: "bytes \<Rightarrow> bytes \<Rightarrow> bool" where
  jc_plain: "utf8_seq s \<Longrightarrow> (length s = 1 \<Longrightarrow> \<not> isStringSyntax (hd s)) \<Longrightarrow> jchar s s"
| jc_escape: "simple_escape c = Some d \<Longrightarrow> jchar [ch_backslash, c] [d]"
| jc_unicode: "hexnum h = Some n \<Longrightarrow> \<not> high_surrogate n \<Longrightarrow> \<not> low_surrogate n
    \<Longrightarrow> jchar (ch_backslash # ch_u # h) (encodeRune (word_of_nat n))"
| jc_pair: "hexnum h = Some hi \<Longrightarrow> high_surrogate hi \<Longrightarrow> hexnum l = Some lo \<Longrightarrow> low_surrogate lo
    \<Longrightarrow> jchar (ch_backslash # ch_u # h @ ch_backslash # ch_u # l)
          (encodeRune (word_of_nat (0x10000 + (hi - 0xD800) * 0x400 + (lo - 0xDC00))))"

inductive jchars :: "bytes \<Rightarrow> bytes \<Rightarrow> bool" where
  jchars_nil: "jchars [] []"
| jchars_cons: "jchar c d \<Longrightarrow> jchars cs ds \<Longrightarrow> jchars (c @ cs) (d @ ds)"

lemma jchar_nonempty: "jchar raw dec \<Longrightarrow> raw \<noteq> []"
  by (auto elim!: jchar.cases simp: utf8_seq_def)

lemma surrogate_words:
  assumes "n < 0x10000"
  shows "0xD800 \<le> (word_of_nat n :: 16 word) \<and> word_of_nat n \<le> (0xDBFF :: 16 word) \<longleftrightarrow> high_surrogate n"
    "0xDC00 \<le> (word_of_nat n :: 16 word) \<and> word_of_nat n \<le> (0xDFFF :: 16 word) \<longleftrightarrow> low_surrogate n"
  using assms by (simp_all add: word_le_nat_alt unat_of_nat high_surrogate_def low_surrogate_def)

subsection \<open>The reference loop accepts the grammar\<close>

lemma Suc_offset:
  "Suc (i + 4) = i + 5" "Suc (i + 5) = i + 6" "Suc (i + 6) = i + 7" "Suc (i + 10) = i + 11" "Suc (i + 11) = i + 12"
  by simp_all

lemma validateUnicodeEscape_offsets:
  "validateUnicodeEscape src i =
     (case hex4 src (i + 1) of (u, ok) \<Rightarrow>
      if \<not> ok then err_at src (int i - 1) ''invalid unicode escape''
      else if 0xD800 \<le> u \<and> u \<le> 0xDBFF then
        if i + 11 > length src \<or> src ! (i + 5) \<noteq> ch_backslash \<or> src ! (i + 6) \<noteq> ch_u
        then err_at src (int i - 1) ''missing low surrogate''
        else (case hex4 src (i + 7) of (lo, ok) \<Rightarrow>
          if \<not> ok then err_at src (int i - 1) ''invalid low surrogate''
          else if lo < 0xDC00 \<or> lo > 0xDFFF then err_at src (int i - 1) ''invalid low surrogate''
          else Ok (i + 11))
      else if 0xDC00 \<le> u \<and> u \<le> 0xDFFF then err_at src (int i - 1) ''unexpected low surrogate''
      else Ok (i + 5))"
proof -
  have e: "i + 1 + 4 = i + 5" "i + 5 + 6 = i + 11" "i + 5 + 1 = i + 6" "i + 5 + 2 = i + 7" "i + 7 + 4 = i + 11"
    by simp_all
  show ?thesis unfolding validateUnicodeEscape_def Let_def e by (rule refl)
qed

lemma validateUnicodeEscape_single:
  assumes "hexnum h = Some n" "\<not> high_surrogate n" "\<not> low_surrogate n" "drop (Suc i) src = h @ rest"
  shows "validateUnicodeEscape src i = Ok (i + 5)"
  using hex4_Some [OF assms(1,4)] assms(2,3)
  by (simp add: validateUnicodeEscape_offsets surrogate_words)

lemma validateUnicodeEscape_pair:
  assumes "hexnum h = Some hi" "high_surrogate hi" "hexnum l = Some lo" "low_surrogate lo"
    "drop (Suc i) src = h @ ch_backslash # ch_u # l @ rest"
  shows "validateUnicodeEscape src i = Ok (i + 11)"
proof -
  have len: "length h = 4" "length l = 4" using assms(1,3) by (simp_all add: hexnum_length)
  have d: "drop (i + 5) src = ch_backslash # ch_u # l @ rest"
    using drop_eq_appendD [OF assms(5)] len by (simp add: add.commute)
  have at: "src ! (i + 5) = ch_backslash" "src ! (i + 6) = ch_u" "drop (i + 7) src = l @ rest" 
    using drop_eq_ConsD(2,3) [OF d] drop_eq_ConsD(2,3) [OF drop_eq_ConsD(3) [OF d]]
    by (simp_all add: Suc_offset)
  have "i + 11 \<le> length src"
    using drop_eq_append_le [OF at(3)] len by (cases l) auto
  moreover have "hex4 src (i + 1) = (word_of_nat hi, True)" "hi < 0x10000" "hex4 src (i + 7) = (word_of_nat lo, True)"
    using hex4_Some [OF assms(1,5)] hex4_Some [OF assms(3) at(3)] by simp_all
  moreover have "\<not> (word_of_nat lo < (0xDC00 :: 16 word))" "\<not> (0xDFFF < (word_of_nat lo :: 16 word))"
    using assms(4) surrogate_words(2) [of lo] hex4_Some(2) [OF assms(3) at(3)] by (auto simp: not_less)
  ultimately show ?thesis using assms(2) at(1,2)
    by (simp add: validateUnicodeEscape_offsets surrogate_words)
qed

lemma string_unit_complete:
  assumes "jchar raw dec" "drop i src = raw @ rest"
  shows "string_unit src i = Advance (i + length raw)"
  using assms(1)
proof cases
  case jc_plain
  then show ?thesis using string_unit_seq [of i src raw rest] assms(2) by simp
next
  case (jc_escape c d)
  then show ?thesis using assms(2)
    by (auto simp: drop_eq_Cons_iff string_unit_def validateEscape_def simple_escape_def split: if_splits)
next
  case (jc_unicode h n)
  then have "drop i src = ch_backslash # ch_u # (h @ rest)" using assms(2) by simp
  moreover from this have "drop (Suc (Suc i)) src = h @ rest" by (simp add: drop_eq_Cons_iff)
  moreover have "length h = 4" using jc_unicode by (simp_all add: hexnum_length)
  ultimately show ?thesis using validateUnicodeEscape_single [of h n "Suc i" src rest] jc_unicode
    by (simp add: drop_eq_Cons_iff string_unit_def validateEscape_def Suc_offset)
next
  case (jc_pair h hi l lo)
  then have "drop i src = ch_backslash # ch_u # (h @ ch_backslash # ch_u # l @ rest)" using assms(2) by simp
  moreover from this have "drop (Suc (Suc i)) src = h @ ch_backslash # ch_u # l @ rest" by (simp add: drop_eq_Cons_iff)
  moreover have "length h = 4" "length l = 4" using jc_pair by (simp_all add: hexnum_length)
  ultimately show ?thesis using validateUnicodeEscape_pair [of h hi l lo "Suc i" src rest] jc_pair
    by (simp add: drop_eq_Cons_iff string_unit_def validateEscape_def Suc_offset)
qed

lemma string_end_complete:
  assumes "jchars raw dec" "drop i src = raw @ ch_quote # rest"
  shows "string_end src i = Ok (i + length raw + 1)"
  using assms
proof (induction arbitrary: i rule: jchars.induct)
  case jchars_nil
  then have "string_unit src i = Closed (i + 1)" by (simp add: drop_eq_Cons_iff string_unit_def)
  then show ?case by (simp add: string_end.simps [of src i])
next
  case (jchars_cons c d cs ds)
  then have d: "drop i src = c @ cs @ ch_quote # rest" by simp
  from string_end_Advance [OF string_unit_complete [OF jchars_cons.hyps(1) d]]
    jchars_cons.IH [OF drop_eq_appendD [OF d]]
  show ?case by simp
qed

lemma hex4_surrogate:
  assumes "hex4 src i = (u, True)"
  obtains h n where "drop i src = h @ drop (i + 4) src" "length h = 4" "hexnum h = Some n"
    "n < 0x10000" "u = word_of_nat n"
proof -
  have "snd (hex4 src i)" using assms by simp
  then obtain h n where h: "drop i src = h @ drop (i + 4) src" "length h = 4" "hexnum h = Some n"
    by (rule hex4_ok)
  from hex4_Some [OF h(3,1)] assms that h show ?thesis by simp
qed

lemma validateUnicodeEscape_sound:
  assumes "validateUnicodeEscape src i = Ok j" "i < length src"
  obtains raw dec where "jchar (ch_backslash # ch_u # raw) dec" "drop (Suc i) src = raw @ drop j src"
    "j = Suc i + length raw"
proof -
  obtain u ok where h4: "hex4 src (i + 1) = (u, ok)" by (cases "hex4 src (i + 1)")
  have ok using assms(1) h4 by (auto simp: validateUnicodeEscape_offsets split: if_splits)
  with h4 have "hex4 src (i + 1) = (u, True)" by simp
  then obtain h n where "drop (i + 1) src = h @ drop (i + 1 + 4) src" and h': "length h = 4" "hexnum h = Some n"
      "n < 0x10000" "u = word_of_nat n"
    by (rule hex4_surrogate)
  then have h: "drop (i + 1) src = h @ drop (i + 5) src" "length h = 4" "hexnum h = Some n"
      "n < 0x10000" "u = word_of_nat n" by (simp_all add: add.commute)
  show ?thesis
  proof (cases "high_surrogate n")
    case False
    with assms(1) h4 \<open>ok\<close> h have "j = i + 5" "\<not> low_surrogate n"
      by (auto simp: validateUnicodeEscape_offsets surrogate_words split: if_splits)
    then show ?thesis using that jc_unicode [OF h(3) False] h by (simp add: Suc_offset)
  next
    case True
    obtain v ok2 where h42: "hex4 src (i + 7) = (v, ok2)" by (cases "hex4 src (i + 7)")
    have j: "j = i + 11" "ok2" "\<not> v < 0xDC00" "\<not> v > 0xDFFF" "i + 11 \<le> length src"
      "src ! (i + 5) = ch_backslash" "src ! (i + 6) = ch_u"
      using assms(1) h4 \<open>ok\<close> h True h42
      by (auto simp: validateUnicodeEscape_offsets surrogate_words split: if_splits)
    with h42 have "hex4 src (i + 7) = (v, True)" by simp
    then obtain l m where "drop (i + 7) src = l @ drop (i + 7 + 4) src" and l': "length l = 4" "hexnum l = Some m"
        "m < 0x10000" "v = word_of_nat m"
      by (rule hex4_surrogate)
    then have l: "drop (i + 7) src = l @ drop (i + 11) src" "length l = 4" "hexnum l = Some m"
        "m < 0x10000" "v = word_of_nat m" by (simp_all add: add.commute)
    have "low_surrogate m" using j surrogate_words(2) [OF l(4)] l(5) by (simp add: not_less)
    then have "jchar (ch_backslash # ch_u # (h @ ch_backslash # ch_u # l))
        (encodeRune (word_of_nat (0x10000 + (n - 0xD800) * 0x400 + (m - 0xDC00))))"
      using jc_pair [OF h(3) True l(3)] by simp
    moreover have "drop (i + 5) src = ch_backslash # ch_u # drop (i + 7) src"
      using j by (simp add: drop_eq_Cons_iff Suc_offset)
    ultimately show ?thesis using that h l j by (simp add: Suc_offset)
  qed
qed

lemma string_unit_sound:
  assumes "string_unit src i = Advance j"
  obtains raw dec where "jchar raw dec" "drop i src = raw @ drop j src" "j = i + length raw"
proof -
  have i: "i < length src" using assms by (rule string_unit_lt)
  consider "src ! i = ch_backslash" | "src ! i \<noteq> ch_backslash" "src ! i < 0x80"
    | "src ! i \<noteq> ch_backslash" "\<not> src ! i < 0x80" by blast
  then show ?thesis
  proof cases
    case 1
    with assms have v: "validateEscape src (Suc i) = Ok j" "Suc i < length src"
      by (auto simp: string_unit_def split: if_splits outcome.splits)
    show ?thesis
    proof (cases "src ! Suc i = ch_u")
      case True
      with v have "validateUnicodeEscape src (Suc i) = Ok j" by (simp add: validateEscape_def)
      then obtain raw dec where "jchar (ch_backslash # ch_u # raw) dec"
          "drop (Suc (Suc i)) src = raw @ drop j src" "j = Suc (Suc i) + length raw"
        using v(2) by (rule validateUnicodeEscape_sound)
      moreover from this have "drop i src = (ch_backslash # ch_u # raw) @ drop j src"
        using True 1 i v(2) by (simp add: drop_eq_Cons_iff)
      ultimately show ?thesis using that by simp
    next
      case False
      with v obtain d where "simple_escape (src ! Suc i) = Some d" "j = Suc (Suc i)"
        by (auto simp: validateEscape_def Let_def simple_escape_def split: if_splits)
      then show ?thesis using that [OF jc_escape] 1 i v(2) by (simp add: drop_eq_Cons_iff)
    qed
  next
    case 2
    with assms i have j: "j = Suc i" "\<not> isStringSyntax (src ! i)"
      by (auto simp: string_unit_def isStringSyntax_def split: if_splits)
    have "jchar [src ! i] [src ! i]" using j 2 by (intro jc_plain) (auto simp: utf8_seq_def leadSize_def)
    then show ?thesis using that j i by (simp add: drop_eq_Cons_iff)
  next
    case 3
    with assms i have g: "\<not> badRune (DecodeRune (drop i src))" and j: "j = i + snd (DecodeRune (drop i src))"
      and c: "\<not> isStringSyntax (src ! i)"
      by (auto simp: string_unit_def isStringSyntax_def split: if_splits)
    have ne: "drop i src \<noteq> []" using i by simp
    let ?s = "take (snd (DecodeRune (drop i src))) (drop i src)"
    note good = DecodeRune_good [OF ne g]
    have "hd ?s = src ! i" using i DecodeRune_size [OF ne] by (simp add: hd_drop_conv_nth)
    then have js: "jchar ?s ?s" using good(2) c by (intro jc_plain) auto
    have "drop j src = drop (snd (DecodeRune (drop i src))) (drop i src)" using j by (simp add: add.commute)
    then have "drop i src = ?s @ drop j src" by (simp only: append_take_drop_id)
    moreover have "j = i + length ?s" using good(1) j by simp
    ultimately show ?thesis using that [OF js] by blast
  qed
qed

lemma string_end_sound:
  assumes "string_end src i = Ok j"
  obtains raw dec rest where "jchars raw dec" "drop i src = raw @ ch_quote # rest" "j = i + length raw + 1"
  using assms
proof (induction src i arbitrary: thesis rule: string_end.induct)
  case (1 src i)
  show ?case
  proof (cases "string_unit src i")
    case (Closed k)
    with "1.prems"(2) have "i < length src" "src ! i = ch_quote" "j = Suc i"
      by (auto simp: string_end.simps [of src i] string_unit_def split: if_splits outcome.splits)
    then have "drop i src = [] @ ch_quote # drop (Suc i) src" by (simp add: drop_eq_Cons_iff)
    then show ?thesis using "1.prems"(1) [OF jchars_nil] \<open>j = Suc i\<close> by simp
  next
    case (Bad e)
    with "1.prems"(2) show ?thesis by (simp add: string_end_Bad)
  next
    case (Advance k)
    then obtain c d where c: "jchar c d" "drop i src = c @ drop k src" "k = i + length c"
      by (rule string_unit_sound)
    obtain raw dec rest where r: "jchars raw dec" "drop k src = raw @ ch_quote # rest" "j = k + length raw + 1"
      using "1.IH" [OF Advance] "1.prems"(2) string_end_Advance [OF Advance] by metis
    show ?thesis using "1.prems"(1) [OF jchars_cons [OF c(1) r(1)]] c r by simp
  qed
qed

text \<open>C9: The validator's string scan, with its word-wide jumps over clean runs and its batched UTF-8
  check, accepts exactly the strings of the grammar: it stops behind the first unescaped quote if what
  precedes it is a sequence of legal characters and escapes, and fails otherwise.\<close>

theorem parseString_grammar:
  "parseString src i = Ok j \<longleftrightarrow>
    (\<exists>raw dec rest. drop (i + 1) src = raw @ ch_quote # rest \<and> jchars raw dec \<and> j = i + length raw + 2)"
proof (cases "i < length src")
  case True
  then have "parseString src i = string_end src (i + 1)"
    by (simp add: parseString_def parseStringLoop_reference)
  then show ?thesis
    using string_end_complete [of _ _ "i + 1" src] by (auto elim!: string_end_sound)
next
  case False
  then have "scanStringSpecial src (i + 1) = length src" by (simp add: scanStringSpecial_beyond)
  with False show ?thesis
    by (simp add: parseString_def parseStringLoop.simps [of src "Suc i"] not_less)
qed

text \<open>The same for an entry inside the input, in the form the walkers use.\<close>

lemma parseString_end: "i < length src \<Longrightarrow> parseString src i = string_end src (Suc i)"
  by (simp add: parseString_def parseStringLoop_reference)

lemma string_end_fuel: "string_end src i \<noteq> NoFuel"
  by (induction src i rule: string_end.induct)
    (subst string_end.simps, auto split: unit_step.splits)

lemma string_end_bounds: "string_end src i = Ok j \<Longrightarrow> i < j \<and> j \<le> length src"
  by (erule string_end_sound) (auto dest: arg_cong [where f = length])

end
