(* ===== verification/Numbers.thy ===== *)
theory Numbers
  imports Scanner
begin

text \<open>
  Number tokens: the reference scanner of \<^verbatim>\<open>validate.go\<close> (\<^verbatim>\<open>scanNumber\<close>, \<^verbatim>\<open>validNumber\<close>), the tagged
  scanners of \<^verbatim>\<open>valid_fast.go\<close> with their eight-digit strides, and the digit kernels of
  \<^verbatim>\<open>number_digits.go\<close> they use. The specification is the number grammar of RFC 8259.
\<close>

definition IsDigit :: "byte \<Rightarrow> bool" where
  "IsDigit c \<longleftrightarrow> ch_0 \<le> c \<and> c \<le> ch_9"

definition isOneNine :: "byte \<Rightarrow> bool" where
  "isOneNine c \<longleftrightarrow> ch_1 \<le> c \<and> c \<le> ch_9"

declare IsDigit_def [ascii] isOneNine_def [ascii]

text \<open>The loop \<^verbatim>\<open>for i < n && IsDigit(src[i]) { i++ }\<close>.\<close>

function skipDigits :: "bytes \<Rightarrow> nat \<Rightarrow> nat \<Rightarrow> nat" where
  "skipDigits src n i = (if i < n \<and> IsDigit (src ! i) then skipDigits src n (i + 1) else i)"
  by pat_completeness auto
termination by (relation "measure (\<lambda>(src, n, i). n - i)") auto

declare skipDigits.simps [simp del]

subsection \<open>The reference scanner\<close>

text \<open>\<^verbatim>\<open>scanNumber\<close> returns the end and a message, empty on success; its three parts in order.\<close>

definition scanNumberExponent :: "bytes \<Rightarrow> nat \<Rightarrow> nat \<times> string" where
  "scanNumberExponent src i =
     (if i < length src \<and> (src ! i = ch_e \<or> src ! i = ch_E) then
        let i = i + 1;
            i = (if i < length src \<and> (src ! i = ch_plus \<or> src ! i = ch_minus) then i + 1 else i)
        in if i \<ge> length src \<or> \<not> IsDigit (src ! i) then (i, ''invalid number exponent'')
           else (skipDigits src (length src) i, [])
      else (i, []))"

definition scanNumberFraction :: "bytes \<Rightarrow> nat \<Rightarrow> nat \<times> string" where
  "scanNumberFraction src i =
     (if i < length src \<and> src ! i = ch_dot then
        let i = i + 1 in
        if i \<ge> length src \<or> \<not> IsDigit (src ! i) then (i, ''invalid number fraction'')
        else scanNumberExponent src (skipDigits src (length src) i)
      else scanNumberExponent src i)"

definition scanNumber :: "bytes \<Rightarrow> nat \<Rightarrow> nat \<times> string" where
  "scanNumber src i =
     (if i \<ge> length src then (i, ''invalid number'')
      else
        let neg = (src ! i = ch_minus); i = (if neg then i + 1 else i) in
        if neg \<and> i \<ge> length src then (i, ''invalid number'')
        else if src ! i = ch_0 then scanNumberFraction src (i + 1)
        else if isOneNine (src ! i) then
          scanNumberFraction src (skipDigits src (length src) (i + 1))
        else (i, ''invalid number''))"

definition validNumber :: "bytes \<Rightarrow> bool" where
  "validNumber src = (case scanNumber src 0 of (stop, msg) \<Rightarrow> msg = [] \<and> stop = length src)"

subsection \<open>The eight-digit kernels\<close>

definition nonDigitMask8 :: "64 word \<Rightarrow> 64 word" where
  "nonDigitMask8 x = ((x + 0x4646464646464646) OR (x - 0x3030303030303030)) AND highBits"

definition scanDigitsLong :: "bytes \<Rightarrow> nat \<Rightarrow> nat \<Rightarrow> nat" where
  "scanDigitsLong src n i =
     (case scanWords8 nonDigitMask8 src i n of Inl j \<Rightarrow> j | Inr i \<Rightarrow> skipDigits src n i)"

subsection \<open>The tagged scanners\<close>

text \<open>The result is \<^verbatim>\<open>(end, integer, ok)\<close>.\<close>

definition numberFastExponent :: "bytes \<Rightarrow> nat \<Rightarrow> nat \<Rightarrow> bool \<Rightarrow> nat \<times> bool \<times> bool" where
  "numberFastExponent src n i integer =
     (if i < n \<and> (src ! i = ch_e \<or> src ! i = ch_E) then
        let i = i + 1;
            i = (if i < n \<and> (src ! i = ch_plus \<or> src ! i = ch_minus) then i + 1 else i)
        in if i \<ge> n \<or> \<not> IsDigit (src ! i) then (i, False, False)
           else (skipDigits src n (i + 1), False, True)
      else (i, integer, True))"

definition numberFastFraction :: "bytes \<Rightarrow> nat \<Rightarrow> nat \<Rightarrow> nat \<times> bool \<times> bool" where
  "numberFastFraction src n i =
     (if i < n \<and> src ! i = ch_dot then
        let i = i + 1 in
        if i \<ge> n \<or> \<not> IsDigit (src ! i) then (i, False, False)
        else if i + 8 \<le> n \<and> IsDigit (src ! (i + 7)) then
          numberFastExponent src n (scanDigitsLong src n i) False
        else numberFastExponent src n (skipDigits src n (i + 1)) False
      else numberFastExponent src n i True)"

definition scanNumberFastTagged :: "bytes \<Rightarrow> nat \<Rightarrow> nat \<Rightarrow> nat \<times> bool \<times> bool" where
  "scanNumberFastTagged src n i =
     (let neg = (src ! i = ch_minus); i = (if neg then i + 1 else i) in
      if neg \<and> i \<ge> n then (i, False, False)
      else if src ! i = ch_0 then numberFastFraction src n (i + 1)
      else if isOneNine (src ! i) then numberFastFraction src n (skipDigits src n (i + 1))
      else (i, False, False))"

definition scanNumberFast :: "bytes \<Rightarrow> nat \<Rightarrow> nat \<Rightarrow> nat \<times> bool" where
  "scanNumberFast src n i = (case scanNumberFastTagged src n i of (stop, _, ok) \<Rightarrow> (stop, ok))"

text \<open>\<^verbatim>\<open>scanNumberFastTaggedSWAR\<close> probes eight integer digits at once.\<close>

definition scanNumberFastTaggedSWAR :: "bytes \<Rightarrow> nat \<Rightarrow> nat \<Rightarrow> nat \<times> bool \<times> bool" where
  "scanNumberFastTaggedSWAR src n i =
     (let neg = (src ! i = ch_minus); i = (if neg then i + 1 else i) in
      if neg \<and> i \<ge> n then (i, False, False)
      else if src ! i = ch_0 then numberFastFraction src n (i + 1)
      else if isOneNine (src ! i) then
        let i = i + 1;
            i = (if i + 8 \<le> n \<and> nonDigitMask8 (le64 src i) = 0 then i + 8 else i)
        in numberFastFraction src n (skipDigits src n i)
      else (i, False, False))"

subsection \<open>Digit runs\<close>

definition digits_end :: "bytes \<Rightarrow> nat \<Rightarrow> nat" where
  "digits_end src i = i + length (takeWhile IsDigit (drop i src))"

lemma skipDigits_eq: "skipDigits src (length src) i = digits_end src i"
proof (induction src "length src" i rule: skipDigits.induct)
  case (1 src i)
  show ?case
  proof (cases "i < length src")
    case True
    then have "drop i src = src ! i # drop (Suc i) src" by (simp add: Cons_nth_drop_Suc)
    with 1 True show ?thesis by (subst skipDigits.simps) (simp add: digits_end_def)
  next
    case False
    then show ?thesis by (subst skipDigits.simps) (simp add: digits_end_def)
  qed
qed

lemma digits_end_ge: "i \<le> digits_end src i"
  by (simp add: digits_end_def)

lemma digits_end_le: "i \<le> length src \<Longrightarrow> digits_end src i \<le> length src"
  using length_takeWhile_le [of IsDigit "drop i src"] by (simp add: digits_end_def)

lemma digits_end_step: "i < length src \<Longrightarrow> IsDigit (src ! i) \<Longrightarrow> digits_end src (Suc i) = digits_end src i"
  by (simp add: digits_end_def Cons_nth_drop_Suc [symmetric])

lemma digits_end_scanBytes:
  "i \<le> length src \<Longrightarrow> scanBytes (\<lambda>c. \<not> IsDigit c) src i (length src) = digits_end src i"
proof (induction "length src - i" arbitrary: i)
  case 0
  then show ?case by (subst scanBytes.simps) (simp add: digits_end_def)
next
  case (Suc k)
  then show ?case
    by (subst scanBytes.simps)
      (auto simp: digits_end_def Cons_nth_drop_Suc [symmetric])
qed

lemma lane_add_le_word:
  assumes "length xs = length ys" and "k < length xs" and "k < 8"
    and "\<And>j. j < k \<Longrightarrow> unat (xs ! j) + unat (ys ! j) < 256"
  shows "lane k (le_word xs + le_word ys) = xs ! k + ys ! k"
  using assms
proof (induction xs ys arbitrary: k rule: list_induct2)
  case (Cons x xs y ys)
  have e: "le_word (x # xs) + le_word (y # ys)
      = ucast x + ucast y + 256 * (le_word xs + le_word ys :: 64 word)"
    by (simp only: le_word_Cons_add) (simp add: algebra_simps)
  show ?case
  proof (cases k)
    case 0
    then show ?thesis unfolding e
      by (simp add: lane_def down_cast_add down_cast_256 ucast_up_down)
  next
    case (Suc k')
    with Cons.prems(3) have "unat x + unat y < 256" by fastforce
    then have "(ucast x + ucast y :: 64 word) = ucast (x + y)"
      by (intro word_unat_eq_iff [THEN iffD2])
        (simp add: unat_word_ariths unsigned_ucast_eq take_bit_eq_mod)
    moreover have "lane k' (le_word xs + le_word ys) = xs ! k' + ys ! k'"
      using Cons.prems Suc by (intro Cons.IH) fastforce+
    ultimately show ?thesis using Suc Cons.prems(2) unfolding e
      by (simp add: lane_Suc_Cons del: distrib_left_numeral)
  qed
qed simp

lemma lane_add:
  assumes "k < 8" and "\<And>j. j < k \<Longrightarrow> unat (lane j x) + unat (lane j y) < 256"
  shows "lane k (x + y) = lane k x + lane k y"
  using lane_add_le_word [of "lanes x" "lanes y" k] assms by (simp add: le_word_lanes)

lemma non_digit_bit:
  "((v + 0x46) OR (v - 0x30)) AND 0x80 = (if IsDigit v then 0 else 0x80)" for v :: byte
proof -
  have "((v + 0x46) OR (v - 0x30)) AND 0x80
      = (if bit (v + 0x46) 7 \<or> bit (v - 0x30) 7 then 0x80 else 0)"
    by (subst and_high) (simp add: bit_simps)
  moreover have "(0x80 \<le> v + 0x46 \<or> 0x80 \<le> v - 0x30) \<longleftrightarrow> \<not> (0x30 \<le> v \<and> v \<le> 0x39)"
    by unat_arith auto
  ultimately show ?thesis by (simp add: bit7 IsDigit_def)
qed

interpretation non_digit: swar_mask nonDigitMask8 "\<lambda>c. \<not> IsDigit c"
proof
  fix k :: nat and x :: "64 word"
  assume k: "k < 8" and d: "\<And>j. j < k \<Longrightarrow> \<not> \<not> IsDigit (lane j x)"
  have c: "lane j 0x4646464646464646 = 0x46" "lane j 0x3030303030303030 = 0x30" if "j < 8" for j
    using lane_spread [OF that, of "0x46"] lane_spread [OF that, of "0x30"] by simp_all
  have dj: "unat (lane j x) \<le> 57" "0x30 \<le> lane j x" if "j < k" for j
    using d [OF that] by (simp_all add: IsDigit_def word_le_nat_alt)
  have "lane k (x + 0x4646464646464646) = lane k x + 0x46"
    using k dj c by (subst lane_add) (force simp: c)+
  moreover have "lane k (x - 0x3030303030303030) = lane k x - 0x30"
    using k dj c by (subst lane_sub) (auto simp: c)
  ultimately show "lane k (nonDigitMask8 x) = (if \<not> IsDigit (lane k x) then 0x80 else 0)"
    unfolding nonDigitMask8_def
    by (simp only: lane_and lane_or lane_consts [OF k] non_digit_bit) simp
qed

lemma scanDigitsLong_eq:
  assumes "i \<le> length src"
  shows "scanDigitsLong src (length src) i = digits_end src i"
  using non_digit.scanWords8_bytes [OF assms order_refl] digits_end_scanBytes [of _ src] assms
  by (auto simp: scanDigitsLong_def skipDigits_eq split: sum.splits)

subsection \<open>The fast scanners agree with the reference\<close>

lemma numberFastExponent_eq:
  "numberFastExponent src (length src) i integer =
     (case scanNumberExponent src i of (stop, msg) \<Rightarrow>
        (stop, msg = [] \<and> integer \<and> \<not> (i < length src \<and> (src ! i = ch_e \<or> src ! i = ch_E)), msg = []))"
  by (simp add: numberFastExponent_def scanNumberExponent_def Let_def skipDigits_eq digits_end_step)

lemma numberFastFraction_eq:
  "numberFastFraction src (length src) i =
     (case scanNumberFraction src i of (stop, msg) \<Rightarrow>
        (stop, msg = [] \<and> \<not> (i < length src \<and> (src ! i = ch_dot \<or> src ! i = ch_e \<or> src ! i = ch_E)),
         msg = []))"
  by (simp add: numberFastFraction_def scanNumberFraction_def numberFastExponent_eq Let_def
      skipDigits_eq digits_end_step scanDigitsLong_eq split: prod.splits)

lemma scanNumberFastTagged_reference:
  "i < length src \<Longrightarrow> scanNumber src i = (stop, msg) \<Longrightarrow>
     \<exists>integer. scanNumberFastTagged src (length src) i = (stop, integer, msg = [])"
  by (auto simp: scanNumber_def scanNumberFastTagged_def numberFastFraction_eq Let_def
      split: prod.splits if_splits)

lemma scanNumberFast_reference:
  "i < length src \<Longrightarrow>
     scanNumberFast src (length src) i = (case scanNumber src i of (stop, msg) \<Rightarrow> (stop, msg = []))"
  using scanNumberFastTagged_reference [of i src]
  by (cases "scanNumber src i") (force simp: scanNumberFast_def)

lemma digits_end_skip8:
  assumes "i + 8 \<le> length src" "nonDigitMask8 (le64 src i) = 0"
  shows "digits_end src (i + 8) = digits_end src i"
  using non_digit.word_miss [OF assms(1) order_refl assms(2)] assms
  by (simp add: digits_end_scanBytes)

lemma digits_end_probe:
  "digits_end src (if i + 8 \<le> length src \<and> nonDigitMask8 (le64 src i) = 0 then i + 8 else i)
     = digits_end src i"
  by (simp add: digits_end_skip8)

lemma scanNumberFastTaggedSWAR_eq:
  "scanNumberFastTaggedSWAR src (length src) i = scanNumberFastTagged src (length src) i"
  by (simp only: scanNumberFastTaggedSWAR_def scanNumberFastTagged_def Let_def skipDigits_eq
      digits_end_probe)

subsection \<open>The number grammar\<close>

definition digits1 :: "bytes \<Rightarrow> bool" where
  "digits1 ds \<longleftrightarrow> ds \<noteq> [] \<and> list_all IsDigit ds"

definition num_int :: "bytes \<Rightarrow> bool" where
  "num_int b \<longleftrightarrow> b = [ch_0] \<or> (\<exists>c ds. b = c # ds \<and> isOneNine c \<and> list_all IsDigit ds)"

definition num_frac :: "bytes \<Rightarrow> bool" where
  "num_frac b \<longleftrightarrow> b = [] \<or> (\<exists>ds. b = ch_dot # ds \<and> digits1 ds)"

definition num_exp :: "bytes \<Rightarrow> bool" where
  "num_exp b \<longleftrightarrow> b = [] \<or> (\<exists>e s ds. b = e # s @ ds \<and> (e = ch_e \<or> e = ch_E)
     \<and> (s = [] \<or> s = [ch_plus] \<or> s = [ch_minus]) \<and> digits1 ds)"

definition json_number :: "bytes \<Rightarrow> bool" where
  "json_number b \<longleftrightarrow> (\<exists>s i f e. b = s @ i @ f @ e \<and> (s = [] \<or> s = [ch_minus])
     \<and> num_int i \<and> num_frac f \<and> num_exp e)"

text \<open>What may follow a number token without changing where it ends.\<close>

definition num_stop :: "bytes \<Rightarrow> bool" where
  "num_stop rest \<longleftrightarrow> rest = [] \<or> \<not> (IsDigit (hd rest) \<or> hd rest = ch_dot \<or> hd rest = ch_e \<or> hd rest = ch_E)"

lemma digits_end_run:
  "drop i src = ds @ rest \<Longrightarrow> list_all IsDigit ds \<Longrightarrow> rest = [] \<or> \<not> IsDigit (hd rest) \<Longrightarrow>
     digits_end src i = i + length ds"
  by (cases rest) (auto simp: digits_end_def list_all_iff takeWhile_eq_all_conv [THEN iffD2])

lemma digits1_head: "digits1 ds \<Longrightarrow> ds \<noteq> [] \<and> IsDigit (hd ds) \<and> ds ! 0 = hd ds"
  by (cases ds) (auto simp: digits1_def)

lemma scanNumberExponent_complete:
  assumes "drop i src = e @ rest" "num_exp e" "num_stop rest"
  shows "scanNumberExponent src i = (i + length e, [])"
proof (cases "e = []")
  case True
  with assms show ?thesis
    by (cases rest) (auto simp: scanNumberExponent_def num_stop_def drop_eq_Cons_iff)
next
  case False
  with assms obtain c s ds where e: "e = c # s @ ds" "c = ch_e \<or> c = ch_E"
    "s = [] \<or> s = [ch_plus] \<or> s = [ch_minus]" "digits1 ds" by (auto simp: num_exp_def)
  from assms(1) e have i: "i < length src" "src ! i = c" "drop (Suc i) src = s @ ds @ rest"
    by (auto dest: drop_eq_ConsD)
  obtain d ds' where ds: "ds = d # ds'" "IsDigit d" "list_all IsDigit ds'"
    using e(4) by (cases ds) (auto simp: digits1_def)
  have sign: "d \<noteq> ch_plus" "d \<noteq> ch_minus" using ds(2) by (auto simp: IsDigit_def)
  have end1: "digits_end src k = k + length ds" if "drop k src = ds @ rest" for k
    using that e(4) assms(3) by (intro digits_end_run) (auto simp: digits1_def num_stop_def)
  show ?thesis
  proof (cases "s = []")
    case True
    with i ds have "Suc i < length src" "src ! Suc i = d" by (auto dest: drop_eq_ConsD)
    with True i e ds sign end1 [of "Suc i"] show ?thesis
      by (auto simp: scanNumberExponent_def Let_def skipDigits_eq)
  next
    case False
    then obtain c' where s: "s = [c']" "c' = ch_plus \<or> c' = ch_minus" using e(3) by auto
    with i have "Suc i < length src" "src ! Suc i = c'" and d2: "drop (Suc (Suc i)) src = ds @ rest"
      by (auto dest: drop_eq_ConsD)
    moreover from d2 ds have "Suc (Suc i) < length src" "src ! Suc (Suc i) = d"
      by (auto dest: drop_eq_ConsD)
    ultimately show ?thesis using i e ds s sign end1 [OF d2]
      by (auto simp: scanNumberExponent_def Let_def skipDigits_eq)
  qed
qed

lemma exp_stop_digit:
  "num_exp e \<Longrightarrow> num_stop rest \<Longrightarrow> e @ rest = [] \<or> \<not> IsDigit (hd (e @ rest)) \<and> hd (e @ rest) \<noteq> ch_dot"
  by (cases e) (auto simp: num_exp_def num_stop_def IsDigit_def)

lemma scanNumberFraction_complete:
  assumes "drop i src = f @ e @ rest" "num_frac f" "num_exp e" "num_stop rest"
  shows "scanNumberFraction src i = (i + length f + length e, [])"
proof (cases "f = []")
  case True
  then have d: "drop i src = e @ rest" using assms by simp
  have "\<not> (i < length src \<and> src ! i = ch_dot)"
    using exp_stop_digit [OF assms(3,4)] d by (cases "e @ rest") (auto dest: drop_eq_ConsD)
  with True scanNumberExponent_complete [OF d assms(3,4)] show ?thesis
    by (auto simp: scanNumberFraction_def)
next
  case False
  then obtain ds where f: "f = ch_dot # ds" "digits1 ds" using assms(2) by (auto simp: num_frac_def)
  then have i: "i < length src" "src ! i = ch_dot" and d: "drop (Suc i) src = ds @ e @ rest"
    using assms(1) by (auto dest: drop_eq_ConsD)
  have h: "Suc i < length src" "IsDigit (src ! Suc i)"
    using d digits1_head [OF f(2)] by (cases ds; auto dest: drop_eq_ConsD)+
  have "digits_end src (Suc i) = Suc i + length ds"
    using d f(2) exp_stop_digit [OF assms(3,4)] by (intro digits_end_run) (auto simp: digits1_def)
  moreover have "scanNumberExponent src (Suc i + length ds) = (Suc i + length ds + length e, [])"
    using drop_eq_appendD [OF d] assms(3,4) by (rule scanNumberExponent_complete)
  ultimately show ?thesis using i h f
    by (simp add: scanNumberFraction_def Let_def skipDigits_eq)
qed

lemma frac_exp_stop:
  "num_frac f \<Longrightarrow> num_exp e \<Longrightarrow> num_stop rest \<Longrightarrow>
     f @ e @ rest = [] \<or> \<not> IsDigit (hd (f @ e @ rest))"
  using exp_stop_digit [of e rest] by (cases f) (auto simp: num_frac_def IsDigit_def)

lemma scanNumber_unsigned:
  assumes "drop i src = ip @ f @ e @ rest" "num_int ip" "num_frac f" "num_exp e" "num_stop rest"
  shows "i < length src \<and> src ! i \<noteq> ch_minus \<and>
    (if src ! i = ch_0 then scanNumberFraction src (i + 1)
     else if isOneNine (src ! i) then
       scanNumberFraction src (skipDigits src (length src) (i + 1))
     else (i, ''invalid number'')) = (i + length ip + length f + length e, [])"
proof -
  obtain c ds where ip: "ip = c # ds" "c = ch_0 \<and> ds = [] \<or> isOneNine c \<and> list_all IsDigit ds"
    using assms(2) by (auto simp: num_int_def)
  have i: "i < length src" "src ! i = c" "drop (Suc i) src = ds @ f @ e @ rest"
    using assms(1) ip by (auto dest: drop_eq_ConsD)
  have c: "c \<noteq> ch_minus" using ip by (auto simp: isOneNine_def)
  have fr: "scanNumberFraction src (Suc i + length ds) = (Suc i + length ds + length f + length e, [])"
    using drop_eq_appendD [OF i(3)] assms(3-5) by (rule scanNumberFraction_complete)
  have "digits_end src (Suc i) = Suc i + length ds" if "isOneNine c"
    using i(3) ip that frac_exp_stop [OF assms(3-5)]
    by (intro digits_end_run) (auto simp: isOneNine_def)
  with i c ip fr show ?thesis by (auto simp: skipDigits_eq isOneNine_def)
qed

lemma scanNumber_complete:
  assumes "drop i src = b @ rest" "json_number b" "num_stop rest"
  shows "scanNumber src i = (i + length b, [])"
proof -
  obtain s ip f e where b: "b = s @ ip @ f @ e" "s = [] \<or> s = [ch_minus]" "num_int ip"
    "num_frac f" "num_exp e" using assms(2) by (auto simp: json_number_def)
  show ?thesis
  proof (cases "s = []")
    case True
    with b assms show ?thesis
      using scanNumber_unsigned [of i src ip f e rest]
      by (auto simp: scanNumber_def Let_def split: if_splits)
  next
    case False
    with b assms have "i < length src" "src ! i = ch_minus" "drop (Suc i) src = ip @ f @ e @ rest"
      by (auto dest: drop_eq_ConsD)
    with b False assms(3) show ?thesis
      using scanNumber_unsigned [of "Suc i" src ip f e rest]
      by (auto simp: scanNumber_def Let_def split: if_splits)
  qed
qed

lemma digits_end_sound:
  assumes "i < length src" "IsDigit (src ! i)"
  shows "i < digits_end src i" "digits_end src i \<le> length src"
    "digits1 (subslice src i (digits_end src i))"
proof -
  have "drop i src = src ! i # drop (Suc i) src" using assms by (simp add: Cons_nth_drop_Suc)
  then have e: "subslice src i (digits_end src i) = takeWhile IsDigit (drop i src)"
    by (simp add: subslice_def digits_end_def takeWhile_eq_take [symmetric])
  with assms show "digits1 (subslice src i (digits_end src i))"
    by (auto simp: digits1_def list_all_iff Cons_nth_drop_Suc [symmetric] dest: set_takeWhileD)
  show "digits_end src i \<le> length src" using assms digits_end_le by simp
  show "i < digits_end src i" using assms by (simp add: digits_end_def Cons_nth_drop_Suc [symmetric])
qed

lemma digits_end_digits: "list_all IsDigit (subslice src i (digits_end src i))"
  by (simp add: subslice_def digits_end_def list_all_iff)
    (metis set_takeWhileD takeWhile_eq_take)

lemma scanNumberExponent_sound:
  assumes "scanNumberExponent src i = (j, [])" "i \<le> length src"
  shows "i \<le> j \<and> j \<le> length src \<and> num_exp (subslice src i j)"
proof (cases "i < length src \<and> (src ! i = ch_e \<or> src ! i = ch_E)")
  case True
  define k where "k = (if Suc i < length src \<and> (src ! Suc i = ch_plus \<or> src ! Suc i = ch_minus)
    then Suc (Suc i) else Suc i)"
  have k: "k < length src" "IsDigit (src ! k)" "j = digits_end src k"
    using assms True by (auto simp: scanNumberExponent_def Let_def skipDigits_eq k_def split: if_splits)
  have ki: "Suc i \<le> k" by (simp add: k_def)
  have sign: "subslice src (Suc i) k = [] \<or> subslice src (Suc i) k = [ch_plus]
      \<or> subslice src (Suc i) k = [ch_minus]"
    by (auto simp: k_def slice_Suc)
  have "subslice src i j = src ! i # subslice src (Suc i) k @ subslice src k j"
    using True k ki digits_end_ge [of k src] by (simp add: slice_Cons slice_append_slice)
  then show ?thesis
    using True sign k(3) ki digits_end_sound [OF k(1,2)] by (auto simp: num_exp_def)
next
  case False
  with assms show ?thesis by (auto simp: scanNumberExponent_def num_exp_def)
qed

lemma scanNumberFraction_sound:
  assumes "scanNumberFraction src i = (j, [])" "i \<le> length src"
  shows "\<exists>k. i \<le> k \<and> k \<le> j \<and> j \<le> length src \<and> num_frac (subslice src i k) \<and> num_exp (subslice src k j)"
proof (cases "i < length src \<and> src ! i = ch_dot")
  case True
  with assms have h: "Suc i < length src" "IsDigit (src ! Suc i)"
    "scanNumberExponent src (digits_end src (Suc i)) = (j, [])"
    by (auto simp: scanNumberFraction_def Let_def skipDigits_eq split: if_splits)
  let ?k = "digits_end src (Suc i)"
  note d = digits_end_sound [OF h(1,2)]
  have "subslice src i ?k = ch_dot # subslice src (Suc i) ?k"
    using True d by (simp add: slice_Cons)
  then show ?thesis using d scanNumberExponent_sound [OF h(3)] True
    by (intro exI [of _ ?k]) (auto simp: num_frac_def)
next
  case False
  with assms show ?thesis using scanNumberExponent_sound [of src i j]
    by (intro exI [of _ i]) (auto simp: scanNumberFraction_def num_frac_def)
qed

lemma scanNumber_int_sound:
  assumes "i < length src"
    "(if src ! i = ch_0 then scanNumberFraction src (i + 1)
     else if isOneNine (src ! i) then
       scanNumberFraction src (skipDigits src (length src) (i + 1))
     else (i, ''invalid number'')) = (j, [])"
  shows "\<exists>ip f e. subslice src i j = ip @ f @ e \<and> num_int ip \<and> num_frac f \<and> num_exp e
    \<and> i < j \<and> j \<le> length src"
proof -
  obtain m where m: "scanNumberFraction src m = (j, [])" "i < m" "m \<le> length src"
    "num_int (subslice src i m)"
  proof (cases "src ! i = ch_0")
    case True
    with assms that [of "Suc i"] show ?thesis by (auto simp: num_int_def slice_Suc)
  next
    case False
    with assms have "isOneNine (src ! i)" "scanNumberFraction src (digits_end src (Suc i)) = (j, [])"
      by (auto simp: skipDigits_eq split: if_splits)
    moreover have "subslice src i (digits_end src (Suc i))
        = src ! i # subslice src (Suc i) (digits_end src (Suc i))"
      using assms digits_end_ge [of "Suc i" src] by (intro slice_Cons) auto
    ultimately show ?thesis
      using that [of "digits_end src (Suc i)"] assms digits_end_ge [of "Suc i" src]
        digits_end_le [of "Suc i" src] digits_end_digits [of src "Suc i"]
      by (auto simp: num_int_def)
  qed
  from scanNumberFraction_sound [OF m(1,3)] obtain k where k: "m \<le> k" "k \<le> j" "j \<le> length src"
    "num_frac (subslice src m k)" "num_exp (subslice src k j)" by blast
  have "subslice src i j = subslice src i m @ subslice src m k @ subslice src k j"
    using m k by (simp add: slice_append_slice)
  with m k show ?thesis by (intro exI conjI) auto
qed

lemma scanNumber_sound:
  assumes "scanNumber src i = (j, [])"
  shows "i < j \<and> j \<le> length src \<and> json_number (subslice src i j)"
proof -
  have i: "i < length src" using assms by (auto simp: scanNumber_def split: if_splits)
  show ?thesis
  proof (cases "src ! i = ch_minus")
    case False
    with assms i have "\<exists>ip f e. subslice src i j = ip @ f @ e \<and> num_int ip \<and> num_frac f \<and> num_exp e
        \<and> i < j \<and> j \<le> length src"
      by (intro scanNumber_int_sound) (auto simp: scanNumber_def Let_def split: if_splits)
    then obtain ip f e where "subslice src i j = [] @ ip @ f @ e" "num_int ip" "num_frac f"
      "num_exp e" "i < j" "j \<le> length src" by auto
    then show ?thesis unfolding json_number_def by blast
  next
    case True
    with assms i have "Suc i < length src" by (auto simp: scanNumber_def Let_def split: if_splits)
    with True assms i have "\<exists>ip f e. subslice src (Suc i) j = ip @ f @ e \<and> num_int ip \<and> num_frac f
        \<and> num_exp e \<and> Suc i < j \<and> j \<le> length src"
      by (intro scanNumber_int_sound) (auto simp: scanNumber_def Let_def split: if_splits)
    then obtain ip f e where n: "subslice src (Suc i) j = ip @ f @ e" "num_int ip" "num_frac f"
      "num_exp e" "Suc i < j" "j \<le> length src" by auto
    then have "subslice src i j = [ch_minus] @ ip @ f @ e" using True i by (simp add: slice_Cons)
    with n show ?thesis unfolding json_number_def by (metis Suc_lessD)
  qed
qed

text \<open>
  C11: \<open>validNumber\<close> accepts exactly the numbers of the JSON grammar: an optional minus, an integer
  part without leading zeros, an optional fraction and an optional exponent, and nothing else.
\<close>

theorem validNumber_grammar: "validNumber src \<longleftrightarrow> json_number src"
proof
  assume "validNumber src"
  then have "scanNumber src 0 = (length src, [])" by (auto simp: validNumber_def)
  from scanNumber_sound [OF this] show "json_number src" by (simp add: slice_full)
next
  assume "json_number src"
  then have "scanNumber src 0 = (0 + length src, [])"
    by (intro scanNumber_complete [where rest = "[]"]) (auto simp: num_stop_def)
  then show "validNumber src" by (simp add: validNumber_def)
qed

end
