(* ===== verification/Grammar.thy ===== *)
theory Grammar
  imports StringGrammar Numbers Space
begin

text \<open>
  The specification the recursive-descent walkers are compared with: concrete syntax trees, which keep
  every byte of a document (white space, number spellings, raw string contents). \<open>render\<close> prints a
  tree, \<open>wf\<close> says that its leaves are legal JSON, \<open>nesting\<close> is the number of
  containers on its deepest path. A document is the rendering of a well-formed tree between white space.
\<close>

datatype cst =
    CNull | CTrue | CFalse
  | CNum bytes
  | CStr bytes
  | CArr0 bytes
  | CArr celems
  | CObj0 bytes
  | CObj cmems
and celems = ELast bytes cst bytes | EMore bytes cst bytes celems
and cmems = MLast bytes bytes bytes bytes cst bytes | MMore bytes bytes bytes bytes cst bytes cmems

primrec render :: "cst \<Rightarrow> bytes" and render_elems :: "celems \<Rightarrow> bytes" and render_mems :: "cmems \<Rightarrow> bytes" where
  "render CNull = lit_null"
| "render CTrue = lit_true"
| "render CFalse = lit_false"
| "render (CNum s) = s"
| "render (CStr s) = ch_quote # s @ [ch_quote]"
| "render (CArr0 w) = ch_lbracket # w @ [ch_rbracket]"
| "render (CArr es) = ch_lbracket # render_elems es"
| "render (CObj0 w) = ch_lbrace # w @ [ch_rbrace]"
| "render (CObj ms) = ch_lbrace # render_mems ms"
| "render_elems (ELast w v w') = w @ render v @ w' @ [ch_rbracket]"
| "render_elems (EMore w v w' es) = w @ render v @ w' @ ch_comma # render_elems es"
| "render_mems (MLast w k a b v w') =
     w @ ch_quote # k @ ch_quote # a @ ch_colon # b @ render v @ w' @ [ch_rbrace]"
| "render_mems (MMore w k a b v w' ms) =
     w @ ch_quote # k @ ch_quote # a @ ch_colon # b @ render v @ w' @ ch_comma # render_mems ms"

abbreviation spaces :: "bytes \<Rightarrow> bool" where "spaces w \<equiv> list_all IsJSONWhitespace w"

definition json_string :: "bytes \<Rightarrow> bool" where
  "json_string raw \<longleftrightarrow> (\<exists>dec. jchars raw dec)"

primrec wf :: "cst \<Rightarrow> bool" and wf_elems :: "celems \<Rightarrow> bool" and wf_mems :: "cmems \<Rightarrow> bool" where
  "wf CNull = True"
| "wf CTrue = True"
| "wf CFalse = True"
| "wf (CNum s) = json_number s"
| "wf (CStr s) = json_string s"
| "wf (CArr0 w) = spaces w"
| "wf (CArr es) = wf_elems es"
| "wf (CObj0 w) = spaces w"
| "wf (CObj ms) = wf_mems ms"
| "wf_elems (ELast w v w') = (spaces w \<and> wf v \<and> spaces w')"
| "wf_elems (EMore w v w' es) = (spaces w \<and> wf v \<and> spaces w' \<and> wf_elems es)"
| "wf_mems (MLast w k a b v w') =
     (spaces w \<and> json_string k \<and> spaces a \<and> spaces b \<and> wf v \<and> spaces w')"
| "wf_mems (MMore w k a b v w' ms) =
     (spaces w \<and> json_string k \<and> spaces a \<and> spaces b \<and> wf v \<and> spaces w' \<and> wf_mems ms)"

primrec nesting :: "cst \<Rightarrow> nat" and nesting_elems :: "celems \<Rightarrow> nat" and nesting_mems :: "cmems \<Rightarrow> nat" where
  "nesting CNull = 0"
| "nesting CTrue = 0"
| "nesting CFalse = 0"
| "nesting (CNum s) = 0"
| "nesting (CStr s) = 0"
| "nesting (CArr0 w) = 1"
| "nesting (CArr es) = Suc (nesting_elems es)"
| "nesting (CObj0 w) = 1"
| "nesting (CObj ms) = Suc (nesting_mems ms)"
| "nesting_elems (ELast w v w') = nesting v"
| "nesting_elems (EMore w v w' es) = max (nesting v) (nesting_elems es)"
| "nesting_mems (MLast w k a b v w') = nesting v"
| "nesting_mems (MMore w k a b v w' ms) = max (nesting v) (nesting_mems ms)"

text \<open>\<open>src\<close> is one JSON document with at most \<open>d\<close> open containers at a time.\<close>

definition json_document :: "nat \<Rightarrow> bytes \<Rightarrow> bool" where
  "json_document d src \<longleftrightarrow> (\<exists>w t w'. src = w @ render t @ w' \<and> spaces w \<and> wf t \<and> spaces w' \<and> nesting t \<le> d)"

subsection \<open>First characters\<close>

lemma json_number_first: "json_number s \<Longrightarrow> s \<noteq> [] \<and> (hd s = ch_minus \<or> IsDigit (hd s))"
  by (auto simp: json_number_def num_int_def isOneNine_def IsDigit_def intro: order_trans [of _ "0x31"])

lemma number_first_byte: "b = ch_minus \<or> IsDigit b \<Longrightarrow>
    \<not> IsJSONWhitespace b \<and> b \<notin> {ch_rbracket, ch_rbrace, ch_comma, ch_colon, ch_quote, ch_lbracket, ch_lbrace, ch_n, ch_t, ch_f}"
  by (auto simp: IsJSONWhitespace_def IsDigit_def)

lemma render_first:
  assumes "wf t"
  shows "render t \<noteq> []" "\<not> IsJSONWhitespace (hd (render t))" "hd (render t) \<notin> {ch_rbracket, ch_rbrace, ch_comma, ch_colon}"
  using assms json_number_first [of "render t"] number_first_byte [of "hd (render t)"]
  by (cases t; auto simp: IsJSONWhitespace_def)+

subsection \<open>White space in front of a token\<close>

lemma skip_split:
  obtains w where "drop i src = w @ drop (skip_to src i) src" "spaces w" "skip_to src i = i + length w"
proof -
  let ?w = "subslice src i (skip_to src i)"
  have "drop i src = ?w @ drop (skip_to src i) src" by (simp add: drop_slice)
  moreover have "skip_to src i = i + length ?w"
    using length_takeWhile_le [of IsJSONWhitespace "drop i src"]
    by (simp add: subslice_def skip_to_def ws_run_def)
  ultimately show ?thesis using that subslice_skip_to by blast
qed

text \<open>What may stand behind a value: nothing, white space or punctuation.\<close>

definition value_stop :: "bytes \<Rightarrow> bool" where
  "value_stop rest \<longleftrightarrow> rest = [] \<or> IsJSONWhitespace (hd rest) \<or> hd rest \<in> {ch_comma, ch_rbracket, ch_rbrace}"

lemma value_stop_num: "value_stop rest \<Longrightarrow> num_stop rest"
  by (auto simp: value_stop_def num_stop_def IsJSONWhitespace_def IsDigit_def)

lemma value_stop_spaces: "spaces w \<Longrightarrow> value_stop rest \<Longrightarrow> value_stop (w @ rest)"
  by (cases w) (auto simp: value_stop_def)

lemma value_stop_Cons [simp]: "c \<in> {ch_comma, ch_rbracket, ch_rbrace} \<Longrightarrow> value_stop (c # r)"
  by (simp add: value_stop_def)

lemma skip_to_token:
  assumes "drop i src = w @ c # rest" "spaces w" "\<not> IsJSONWhitespace c"
  shows "skip_to src i = i + length w" "skip_to src i < length src" "src ! skip_to src i = c"
    "drop (skip_to src i) src = c # rest" "drop (Suc (skip_to src i)) src = rest"
proof -
  show e: "skip_to src i = i + length w" using assms by (intro drop_skip_to) auto
  then show "drop (skip_to src i) src = c # rest" using drop_eq_appendD [OF assms(1)] by simp
  then show "skip_to src i < length src" "src ! skip_to src i = c" "drop (Suc (skip_to src i)) src = rest"
    by (auto dest: drop_eq_ConsD)
qed

lemma skip_to_value:
  assumes "drop i src = w @ render t @ rest" "spaces w" "wf t"
  shows "skip_to src i = i + length w" "skip_to src i < length src" "drop (skip_to src i) src = render t @ rest"
proof -
  have "drop i src = w @ hd (render t) # (tl (render t) @ rest)" using render_first(1) [OF assms(3)] assms(1)
    by (metis append_Cons list.collapse)
  from skip_to_token [OF this assms(2)] render_first [OF assms(3)]
  show "skip_to src i = i + length w" "skip_to src i < length src" "drop (skip_to src i) src = render t @ rest"
    by (auto simp flip: append_Cons)
qed

end
