(* ===== verification/Reading.thy ===== *)
theory Reading
  imports Grammar
begin

text \<open>
  How the grammar is read from an offset: one lemma per token and per loop turn, shared by the soundness
  proofs of all the walkers.
\<close>

subsection \<open>Readings\<close>

text \<open>The reading a successful run from \<open>i\<close> to \<open>j\<close> at some depth stands for.\<close>

definition reads_value :: "bytes \<Rightarrow> nat \<Rightarrow> nat \<Rightarrow> nat \<Rightarrow> nat \<Rightarrow> bool" where
  "reads_value src maxDepth depth i j \<longleftrightarrow> (\<exists>t. wf t \<and> drop i src = render t @ drop j src
     \<and> j = i + length (render t) \<and> depth + nesting t \<le> maxDepth)"

definition reads_elems :: "bytes \<Rightarrow> nat \<Rightarrow> nat \<Rightarrow> nat \<Rightarrow> nat \<Rightarrow> bool" where
  "reads_elems src maxDepth depth i j \<longleftrightarrow> (\<exists>es. wf_elems es \<and> drop i src = render_elems es @ drop j src
     \<and> j = i + length (render_elems es) \<and> depth + nesting_elems es \<le> maxDepth)"

definition reads_mems :: "bytes \<Rightarrow> nat \<Rightarrow> nat \<Rightarrow> nat \<Rightarrow> nat \<Rightarrow> bool" where
  "reads_mems src maxDepth depth i j \<longleftrightarrow> (\<exists>ms. wf_mems ms \<and> drop i src = render_mems ms @ drop j src
     \<and> j = i + length (render_mems ms) \<and> depth + nesting_mems ms \<le> maxDepth)"

lemma drop_at: "k < length src \<Longrightarrow> drop k src = src ! k # drop (Suc k) src"
  by (simp add: Cons_nth_drop_Suc)

lemma reads_value_leaf:
  assumes "wf t" "nesting t = 0" "drop i src = render t @ drop j src" "j = i + length (render t)" "depth \<le> maxDepth"
  shows "reads_value src maxDepth depth i j"
  unfolding reads_value_def using assms by auto

lemma reads_literal:
  assumes "matchStringAt src i (render t)" "render t \<noteq> []" "wf t" "nesting t = 0" "depth \<le> maxDepth"
  shows "reads_value src maxDepth depth i (i + length (render t))"
  using assms by (intro reads_value_leaf) (auto simp: matchStringAt_drop intro: drop_eq_appendD [symmetric])

lemma reads_string:
  assumes "i < length src" "src ! i = ch_quote" "string_end src (Suc i) = Ok j" "depth \<le> maxDepth"
  shows "reads_value src maxDepth depth i j"
proof -
  obtain raw dec rest where r: "jchars raw dec" "drop (Suc i) src = raw @ ch_quote # rest" "j = Suc i + length raw + 1"
    using assms(3) by (rule string_end_sound)
  have "drop j src = rest" using drop_eq_appendD [of "Suc i" src "raw @ [ch_quote]" rest] r by simp
  then show ?thesis using assms r drop_at [of i src]
    by (intro reads_value_leaf [where t = "CStr raw"]) (auto simp: json_string_def)
qed

lemma reads_number:
  assumes "scanNumber src i = (j, [])" "depth \<le> maxDepth"
  shows "reads_value src maxDepth depth i j"
  using scanNumber_sound [OF assms(1)] assms(2)
  by (intro reads_value_leaf [where t = "CNum (subslice src i j)"]) (auto simp: slices intro: drop_slice)

lemma reads_elems_step:
  assumes v: "reads_value src maxDepth depth (skip_to src i) k"
    and c: "c = skip_to src k" "c < length src"
    and rest: "src ! c = ch_rbracket \<and> j = Suc c \<or> src ! c = ch_comma \<and> reads_elems src maxDepth depth (Suc c) j"
  shows "reads_elems src maxDepth depth i j"
proof -
  obtain t where t: "wf t" "drop (skip_to src i) src = render t @ drop k src"
      "k = skip_to src i + length (render t)" "depth + nesting t \<le> maxDepth"
    using v by (auto simp: reads_value_def)
  obtain w where w: "drop i src = w @ drop (skip_to src i) src" "spaces w" "skip_to src i = i + length w"
    by (rule skip_split)
  obtain w' where w': "drop k src = w' @ drop c src" "spaces w'" "c = k + length w'"
    unfolding c(1) by (rule skip_split)
  note d = drop_at [OF c(2)]
  from rest show ?thesis
  proof
    assume "src ! c = ch_rbracket \<and> j = Suc c"
    then show ?thesis unfolding reads_elems_def using t w w' d by (intro exI [of _ "ELast w t w'"]) simp
  next
    assume a: "src ! c = ch_comma \<and> reads_elems src maxDepth depth (Suc c) j"
    then obtain es where "wf_elems es" "drop (Suc c) src = render_elems es @ drop j src"
        "j = Suc c + length (render_elems es)" "depth + nesting_elems es \<le> maxDepth"
      by (auto simp: reads_elems_def)
    then show ?thesis unfolding reads_elems_def using a t w w' d by (intro exI [of _ "EMore w t w' es"]) simp
  qed
qed

lemma reads_mems_step:
  assumes q: "p = skip_to src i" "p < length src" "src ! p = ch_quote" "string_end src (Suc p) = Ok e"
    and o: "o' = skip_to src e" "o' < length src" "src ! o' = ch_colon"
    and v: "reads_value src maxDepth depth (skip_to src (Suc o')) k"
    and c: "c = skip_to src k" "c < length src"
    and rest: "src ! c = ch_rbrace \<and> j = Suc c \<or> src ! c = ch_comma \<and> reads_mems src maxDepth depth (Suc c) j"
  shows "reads_mems src maxDepth depth i j"
proof -
  obtain w where w: "drop i src = w @ drop p src" "spaces w" "p = i + length w" unfolding q(1) by (rule skip_split)
  obtain key dec r where key: "jchars key dec" "drop (Suc p) src = key @ ch_quote # r" "e = Suc p + length key + 1"
    using q(4) by (rule string_end_sound)
  have re: "drop e src = r" using drop_eq_appendD [of "Suc p" src "key @ [ch_quote]" r] key by simp
  obtain a where a: "drop e src = a @ drop o' src" "spaces a" "o' = e + length a" unfolding o(1) by (rule skip_split)
  obtain b where b: "drop (Suc o') src = b @ drop (skip_to src (Suc o')) src" "spaces b"
      "skip_to src (Suc o') = Suc o' + length b" by (rule skip_split)
  obtain t where t: "wf t" "drop (skip_to src (Suc o')) src = render t @ drop k src"
      "k = skip_to src (Suc o') + length (render t)" "depth + nesting t \<le> maxDepth"
    using v by (auto simp: reads_value_def)
  obtain w' where w': "drop k src = w' @ drop c src" "spaces w'" "c = k + length w'"
    unfolding c(1) by (rule skip_split)
  note d = drop_at [OF c(2)] drop_at [OF q(2)] drop_at [OF o(2)]
  have ks: "json_string key" using key by (auto simp: json_string_def)
  have lead: "drop i src = w @ ch_quote # key @ ch_quote # a @ ch_colon # b @ render t @ w' @ drop c src"
    using w key re a b t w' d q(3) o(3) by simp
  have off: "Suc c = i + length (w @ ch_quote # key @ ch_quote # a @ ch_colon # b @ render t @ w' @ [ch_comma])"
    using w key a b t w' by simp
  from rest show ?thesis
  proof
    assume "src ! c = ch_rbrace \<and> j = Suc c"
    then show ?thesis unfolding reads_mems_def using t w ks a b w' d lead off
      by (intro exI [of _ "MLast w key a b t w'"]) simp
  next
    assume x: "src ! c = ch_comma \<and> reads_mems src maxDepth depth (Suc c) j"
    then obtain ms where "wf_mems ms" "drop (Suc c) src = render_mems ms @ drop j src"
        "j = Suc c + length (render_mems ms)" "depth + nesting_mems ms \<le> maxDepth"
      by (auto simp: reads_mems_def)
    then show ?thesis unfolding reads_mems_def using x t w ks a b w' d lead off
      by (intro exI [of _ "MMore w key a b t w' ms"]) simp
  qed
qed


lemma reads_elems_skip:
  assumes "reads_elems src maxDepth depth (skip_to src i) j"
  shows "reads_elems src maxDepth depth i j"
proof -
  obtain w where w: "drop i src = w @ drop (skip_to src i) src" "spaces w" "skip_to src i = i + length w"
    by (rule skip_split)
  obtain es where es: "wf_elems es" "drop (skip_to src i) src = render_elems es @ drop j src"
      "j = skip_to src i + length (render_elems es)" "depth + nesting_elems es \<le> maxDepth"
    using assms by (auto simp: reads_elems_def)
  show ?thesis
  proof (cases es)
    case (ELast a v b)
    with w es show ?thesis unfolding reads_elems_def by (intro exI [of _ "ELast (w @ a) v b"]) auto
  next
    case (EMore a v b fs)
    with w es show ?thesis unfolding reads_elems_def by (intro exI [of _ "EMore (w @ a) v b fs"]) auto
  qed
qed

lemma reads_mems_skip:
  assumes "reads_mems src maxDepth depth (skip_to src i) j"
  shows "reads_mems src maxDepth depth i j"
proof -
  obtain w where w: "drop i src = w @ drop (skip_to src i) src" "spaces w" "skip_to src i = i + length w"
    by (rule skip_split)
  obtain ms where ms: "wf_mems ms" "drop (skip_to src i) src = render_mems ms @ drop j src"
      "j = skip_to src i + length (render_mems ms)" "depth + nesting_mems ms \<le> maxDepth"
    using assms by (auto simp: reads_mems_def)
  show ?thesis
  proof (cases ms)
    case (MLast a k x y v b)
    with w ms show ?thesis unfolding reads_mems_def by (intro exI [of _ "MLast (w @ a) k x y v b"]) auto
  next
    case (MMore a k x y v b fs)
    with w ms show ?thesis unfolding reads_mems_def by (intro exI [of _ "MMore (w @ a) k x y v b fs"]) auto
  qed
qed

lemma reads_array:
  assumes "i < length src" "src ! i = ch_lbracket" "depth < maxDepth" "p = skip_to src (Suc i)"
    and "p < length src \<and> src ! p = ch_rbracket \<and> j = Suc p \<or> reads_elems src maxDepth (Suc depth) p j"
  shows "reads_value src maxDepth depth i j"
  using assms(5)
proof
  assume a: "p < length src \<and> src ! p = ch_rbracket \<and> j = Suc p"
  obtain w where "drop (Suc i) src = w @ drop p src" "spaces w" "p = Suc i + length w"
    unfolding assms(4) by (rule skip_split)
  with a assms show ?thesis unfolding reads_value_def
    by (intro exI [of _ "CArr0 w"]) (simp add: drop_at)
next
  assume "reads_elems src maxDepth (Suc depth) p j"
  then have "reads_elems src maxDepth (Suc depth) (Suc i) j" using reads_elems_skip assms(4) by simp
  then obtain es where "wf_elems es" "drop (Suc i) src = render_elems es @ drop j src"
      "j = Suc i + length (render_elems es)" "Suc depth + nesting_elems es \<le> maxDepth"
    by (auto simp: reads_elems_def)
  with assms show ?thesis unfolding reads_value_def by (intro exI [of _ "CArr es"]) (simp add: drop_at)
qed

lemma reads_object:
  assumes "i < length src" "src ! i = ch_lbrace" "depth < maxDepth" "p = skip_to src (Suc i)"
    and "p < length src \<and> src ! p = ch_rbrace \<and> j = Suc p \<or> reads_mems src maxDepth (Suc depth) p j"
  shows "reads_value src maxDepth depth i j"
  using assms(5)
proof
  assume a: "p < length src \<and> src ! p = ch_rbrace \<and> j = Suc p"
  obtain w where "drop (Suc i) src = w @ drop p src" "spaces w" "p = Suc i + length w"
    unfolding assms(4) by (rule skip_split)
  with a assms show ?thesis unfolding reads_value_def
    by (intro exI [of _ "CObj0 w"]) (simp add: drop_at)
next
  assume "reads_mems src maxDepth (Suc depth) p j"
  then have "reads_mems src maxDepth (Suc depth) (Suc i) j" using reads_mems_skip assms(4) by simp
  then obtain ms where "wf_mems ms" "drop (Suc i) src = render_mems ms @ drop j src"
      "j = Suc i + length (render_mems ms)" "Suc depth + nesting_mems ms \<le> maxDepth"
    by (auto simp: reads_mems_def)
  with assms show ?thesis unfolding reads_value_def by (intro exI [of _ "CObj ms"]) (simp add: drop_at)
qed

lemma reads_bounds:
  "reads_value src maxDepth depth i j \<Longrightarrow> i < j \<and> j \<le> length src"
proof -
  assume "reads_value src maxDepth depth i j"
  then obtain t where "wf t" "drop i src = render t @ drop j src" "j = i + length (render t)"
    by (auto simp: reads_value_def)
  then show ?thesis using render_first(1) [of t] drop_eq_append_le [of i src "render t"] by simp
qed

lemma reads_loop_bounds:
  "reads_elems src maxDepth depth i j \<Longrightarrow> i < j \<and> j \<le> length src"
  "reads_mems src maxDepth depth i j \<Longrightarrow> i < j \<and> j \<le> length src"
proof -
  assume "reads_elems src maxDepth depth i j"
  then obtain es where "drop i src = render_elems es @ drop j src" "j = i + length (render_elems es)"
    by (auto simp: reads_elems_def)
  moreover have "render_elems es \<noteq> []" by (cases es) auto
  ultimately show "i < j \<and> j \<le> length src" using drop_eq_append_le [of i src "render_elems es"] by simp
next
  assume "reads_mems src maxDepth depth i j"
  then obtain es where "drop i src = render_mems es @ drop j src" "j = i + length (render_mems es)"
    by (auto simp: reads_mems_def)
  moreover have "render_mems es \<noteq> []" by (cases es) auto
  ultimately show "i < j \<and> j \<le> length src" using drop_eq_append_le [of i src "render_mems es"] by simp
qed

text \<open>A whole document: the root value and the white space around it.\<close>

lemma reads_document:
  assumes "reads_value src maxDepth 0 (skip_to src 0) k" "skip_to src k = length src"
  shows "json_document maxDepth src"
proof -
  obtain t where t: "wf t" "drop (skip_to src 0) src = render t @ drop k src" "nesting t \<le> maxDepth"
    using assms(1) by (auto simp: reads_value_def)
  obtain w where w: "drop 0 src = w @ drop (skip_to src 0) src" "spaces w" by (rule skip_split)
  obtain w' where w': "drop k src = w' @ drop (skip_to src k) src" "spaces w'" by (rule skip_split)
  have "src = w @ render t @ w'" using t w w' assms(2) by simp
  with t w w' show ?thesis unfolding json_document_def by blast
qed

subsection \<open>One turn of an element loop over a rendering\<close>

lemma elem_turn:
  assumes d: "drop i src = w @ render v @ w' @ c # rest" and wf: "spaces w" "wf v" "spaces w'"
    and c: "\<not> IsJSONWhitespace c"
  defines "j \<equiv> i + length w + length (render v) + length w'"
  shows "skip_to src i = i + length w" "drop (i + length w) src = render v @ w' @ c # rest"
    "skip_to src (i + length w + length (render v)) = j" "j < length src" "src ! j = c" "drop (Suc j) src = rest"
proof -
  show v: "skip_to src i = i + length w" "drop (i + length w) src = render v @ w' @ c # rest"
    using skip_to_value [OF d wf(1,2)] by simp_all
  have "drop (i + length w + length (render v)) src = w' @ c # rest" using drop_eq_appendD [OF v(2)] .
  from skip_to_token [OF this wf(3) c]
  show "skip_to src (i + length w + length (render v)) = j" "j < length src" "src ! j = c" "drop (Suc j) src = rest"
    by (auto simp: j_def)
qed

lemma mem_turn:
  assumes d: "drop i src = w @ ch_quote # k @ ch_quote # a @ ch_colon # b @ render v @ w' @ c # rest"
    and wf: "spaces w" "json_string k" "spaces a" "spaces b" "wf v" "spaces w'"
    and c: "\<not> IsJSONWhitespace c"
    and p: "p = i + length w + length k + length a + length b + 3"
  defines "j \<equiv> p + length (render v) + length w'"
  shows "skip_to src i < length src" "src ! skip_to src i = ch_quote"
    "string_end src (Suc (skip_to src i)) = Ok (i + length w + length k + 2)"
    "subslice src (skip_to src i) (i + length w + length k + 2) = ch_quote # k @ [ch_quote]"
    "skip_to src (i + length w + length k + 2) < length src" "src ! skip_to src (i + length w + length k + 2) = ch_colon"
    "skip_to src (Suc (skip_to src (i + length w + length k + 2))) = p" "drop p src = render v @ w' @ c # rest"
    "skip_to src (p + length (render v)) = j" "j < length src" "src ! j = c" "drop (Suc j) src = rest"
proof -
  obtain dec where k: "jchars k dec" using wf(2) by (auto simp: json_string_def)
  note q = skip_to_token [OF d wf(1), simplified IsJSONWhitespace_def, simplified]
  show "skip_to src i < length src" "src ! skip_to src i = ch_quote" by (fact q)+
  show "string_end src (Suc (skip_to src i)) = Ok (i + length w + length k + 2)"
    using string_end_complete [OF k q(5)] q(1) by simp
  show "subslice src (skip_to src i) (i + length w + length k + 2) = ch_quote # k @ [ch_quote]"
    using slice_of_drop [of "skip_to src i" src "ch_quote # k @ [ch_quote]"] q(1,4) by simp
  have "drop (i + length w + length k + 2) src = a @ ch_colon # b @ render v @ w' @ c # rest"
    using drop_eq_appendD [of "Suc (skip_to src i)" src "k @ [ch_quote]"] q(1,5) by simp
  note o = skip_to_token [OF this wf(3), simplified IsJSONWhitespace_def, simplified]
  show "skip_to src (i + length w + length k + 2) < length src" "src ! skip_to src (i + length w + length k + 2) = ch_colon"
    using o by simp_all
  note v = skip_to_value [OF o(5) wf(4,5)]
  show vp: "skip_to src (Suc (skip_to src (i + length w + length k + 2))) = p"
    using v(1) o(1) p by (simp add: numeral_eq_Suc)
  with v(3) show "drop p src = render v @ w' @ c # rest" by simp
  have "drop (p + length (render v)) src = w' @ c # rest" using drop_eq_appendD [OF v(3)] vp by simp
  from skip_to_token [OF this wf(6) c]
  show "skip_to src (p + length (render v)) = j" "j < length src" "src ! j = c" "drop (Suc j) src = rest"
    by (auto simp: j_def)
qed

lemma closers_not_space [simp]: "\<not> IsJSONWhitespace ch_comma" "\<not> IsJSONWhitespace ch_rbracket" "\<not> IsJSONWhitespace ch_rbrace"
  by (simp_all add: IsJSONWhitespace_def)

end
