(* ===== verification/Validate.thy ===== *)
theory Validate
  imports Reading
begin

text \<open>
  The strict validator of \<^verbatim>\<open>validate.go\<close>, the oracle every faster walker of the package is measured
  against, with the layout counters \<^verbatim>\<open>countLayout\<close> attaches to it. The receiver's fields \<^verbatim>\<open>src\<close> and
  \<^verbatim>\<open>maxDepth\<close> never change and are parameters; \<^verbatim>\<open>i\<close> and \<^verbatim>\<open>layout\<close> are the state that is passed on.
  The element loops of \<^verbatim>\<open>parseArray\<close> and \<^verbatim>\<open>parseObject\<close> are functions of their own.
\<close>

subsection \<open>Layout counters\<close>

record layout =
  inline_counts :: "nat list"
  overflow :: "nat list"
  ncontainers :: nat
  valueCount :: nat
  memberCount :: nat

definition layout0 :: layout where
  "layout0 = \<lparr>inline_counts = replicate 64 0, overflow = [], ncontainers = 0, valueCount = 0, memberCount = 0\<rparr>"

definition addContainer :: "layout \<Rightarrow> layout \<times> nat" where
  "addContainer l =
     (let idx = ncontainers l; l = l\<lparr>ncontainers := idx + 1\<rparr> in
      (if idx \<ge> length (inline_counts l) then l\<lparr>overflow := overflow l @ [0]\<rparr> else l, idx))"

definition setContainer :: "layout \<Rightarrow> nat \<Rightarrow> nat \<Rightarrow> layout" where
  "setContainer l idx count =
     (if idx < length (inline_counts l) then l\<lparr>inline_counts := (inline_counts l)[idx := count]\<rparr>
      else l\<lparr>overflow := (overflow l)[idx - length (inline_counts l) := count]\<rparr>)"

text \<open>The two uses in the validator: nothing happens when no layout is attached.\<close>

fun openContainer :: "layout option \<Rightarrow> layout option \<times> nat option" where
  "openContainer None = (None, None)"
| "openContainer (Some l) = (case addContainer l of (l', idx) \<Rightarrow> (Some l', Some idx))"

fun closeContainer :: "layout option \<Rightarrow> nat option \<Rightarrow> nat \<Rightarrow> layout option" where
  "closeContainer (Some l) (Some idx) count = Some (setContainer l idx count)"
| "closeContainer l _ count = l"

definition countValue :: "layout option \<Rightarrow> layout option" where
  "countValue = map_option (\<lambda>l. l\<lparr>valueCount := valueCount l + 1\<rparr>)"

definition countMember :: "layout option \<Rightarrow> layout option" where
  "countMember = map_option (\<lambda>l. l\<lparr>memberCount := memberCount l + 1\<rparr>)"

subsection \<open>Scalars\<close>

text \<open>The \<^verbatim>\<open>%q\<close> rendering of one byte in an error message: a quoted character with Go escapes.\<close>

definition hexDigitChar :: "nat \<Rightarrow> char" where
  "hexDigitChar n = ''0123456789abcdef'' ! n"

definition quoteByte :: "byte \<Rightarrow> string" where
  "quoteByte c =
     (let n = unat c; b = char_of n;
          body = (if c = 0x27 then [CHR 0x5C, CHR 0x27]
             else if c = ch_backslash then [CHR 0x5C, CHR 0x5C]
             else if 0x20 \<le> c \<and> c \<le> 0x7E then [b]
             else if c = 0x07 then [CHR 0x5C, CHR ''a''] else if c = 0x08 then [CHR 0x5C, CHR ''b''] else if c = 0x0C then [CHR 0x5C, CHR ''f'']
             else if c = ch_lf then [CHR 0x5C, CHR ''n''] else if c = ch_cr then [CHR 0x5C, CHR ''r'']
             else if c = ch_tab then [CHR 0x5C, CHR ''t''] else if c = 0x0B then [CHR 0x5C, CHR ''v'']
             else if c < 0x20 \<or> c = 0x7F then [CHR 0x5C, CHR ''x''] @ [hexDigitChar (n div 16), hexDigitChar (n mod 16)]
             else if c < 0xA1 \<or> c = 0xAD then [CHR 0x5C, CHR ''u'', CHR ''0'', CHR ''0''] @ [hexDigitChar (n div 16), hexDigitChar (n mod 16)]
             else [char_of (192 + n div 64), char_of (128 + n mod 64)])
      in [CHR 0x27] @ body @ [CHR 0x27])"

type_synonym vstate = "nat \<times> layout option"

definition parseLiteral :: "bytes \<Rightarrow> bytes \<Rightarrow> vstate \<Rightarrow> (SyntaxError, vstate) outcome" where
  "parseLiteral src lit = (\<lambda>(i, l).
     if \<not> matchStringAt src i lit then err_at src (int i) ''invalid literal''
     else Ok (i + length lit, l))"

definition parseNumber :: "bytes \<Rightarrow> vstate \<Rightarrow> (SyntaxError, vstate) outcome" where
  "parseNumber src = (\<lambda>(i, l).
     case scanNumber src i of (e, msg) \<Rightarrow>
       if msg \<noteq> [] then err_at src (int i) msg else Ok (e, l))"

definition parseStringValue :: "bytes \<Rightarrow> vstate \<Rightarrow> (SyntaxError, vstate) outcome" where
  "parseStringValue src = (\<lambda>(i, l). bind_outcome (parseString src i) (\<lambda>j. Ok (j, l)))"

subsection \<open>Values, arrays and objects\<close>

text \<open>
  The recursive routines are written over the routines they call: \<open>arrayLoop\<close> and \<open>objectLoop\<close> are the
  loops of \<^verbatim>\<open>parseArray\<close> and \<^verbatim>\<open>parseObject\<close>, and \<open>walkers\<close> ties the knot, one unit of fuel per call.
  The equations the three routines satisfy are derived below.
\<close>

type_synonym value_fn = "nat \<Rightarrow> nat \<Rightarrow> layout option \<Rightarrow> (SyntaxError, vstate) outcome"
type_synonym loop_fn = "nat \<Rightarrow> nat option \<Rightarrow> nat \<Rightarrow> nat \<Rightarrow> layout option \<Rightarrow> (SyntaxError, vstate) outcome"

definition parseArray :: "loop_fn \<Rightarrow> bytes \<Rightarrow> nat \<Rightarrow> value_fn" where
  "parseArray loop src maxDepth depth i l =
     (if depth > maxDepth then err_at src (int i) ''maximum nesting depth exceeded''
      else case openContainer l of (l, countIndex) \<Rightarrow>
        let i = SkipSpace src (i + 1) in
        if i < length src \<and> src ! i = ch_rbracket then Ok (i + 1, l)
        else loop depth countIndex 0 i l)"

definition parseObject :: "loop_fn \<Rightarrow> bytes \<Rightarrow> nat \<Rightarrow> value_fn" where
  "parseObject loop src maxDepth depth i l =
     (if depth > maxDepth then err_at src (int i) ''maximum nesting depth exceeded''
      else case openContainer l of (l, countIndex) \<Rightarrow>
        let i = SkipSpace src (i + 1) in
        if i < length src \<and> src ! i = ch_rbrace then Ok (i + 1, l)
        else loop depth countIndex 0 i l)"

definition parseValueStep :: "loop_fn \<Rightarrow> loop_fn \<Rightarrow> bytes \<Rightarrow> nat \<Rightarrow> value_fn" where
  "parseValueStep arrayLoop objectLoop src maxDepth depth i l =
     (if depth > maxDepth then err_at src (int i) ''maximum nesting depth exceeded''
      else if i \<ge> length src then err_at src (int i) ''expected value''
      else let c = src ! i in
        if c = ch_n then parseLiteral src lit_null (i, l)
        else if c = ch_t then parseLiteral src lit_true (i, l)
        else if c = ch_f then parseLiteral src lit_false (i, l)
        else if c = ch_quote then parseStringValue src (i, l)
        else if c = ch_lbracket then parseArray arrayLoop src maxDepth (depth + 1) i l
        else if c = ch_lbrace then parseObject objectLoop src maxDepth (depth + 1) i l
        else if c = ch_minus \<or> IsDigit c then parseNumber src (i, l)
        else err_at src (int i) (''unexpected byte '' @ quoteByte c @ '' while parsing value''))"

definition arrayStep :: "value_fn \<Rightarrow> loop_fn \<Rightarrow> bytes \<Rightarrow> loop_fn" where
  "arrayStep parseValue arrayLoop src depth countIndex count i l =
     bind_outcome (parseValue depth (SkipSpace src i) l) (\<lambda>(i, l).
       let count = count + 1; l = countValue l; i = SkipSpace src i in
       if i \<ge> length src then err_at src (int i) ''unterminated array''
       else if src ! i = ch_comma then arrayLoop depth countIndex count (i + 1) l
       else if src ! i = ch_rbracket then Ok (i + 1, closeContainer l countIndex count)
       else err_at src (int i) ''expected comma or closing bracket in array'')"

definition objectStep :: "value_fn \<Rightarrow> loop_fn \<Rightarrow> bytes \<Rightarrow> loop_fn" where
  "objectStep parseValue objectLoop src depth countIndex count i l =
     (let i = SkipSpace src i in
      if i \<ge> length src \<or> src ! i \<noteq> ch_quote then err_at src (int i) ''expected object key string''
      else bind_outcome (parseString src i) (\<lambda>i.
        let i = SkipSpace src i in
        if i \<ge> length src \<or> src ! i \<noteq> ch_colon then err_at src (int i) ''expected colon after object key''
        else bind_outcome (parseValue depth (SkipSpace src (i + 1)) l) (\<lambda>(i, l).
          let count = count + 1; l = countMember l; i = SkipSpace src i in
          if i \<ge> length src then err_at src (int i) ''unterminated object''
          else if src ! i = ch_comma then objectLoop depth countIndex count (i + 1) l
          else if src ! i = ch_rbrace then Ok (i + 1, closeContainer l countIndex count)
          else err_at src (int i) ''expected comma or closing brace in object'')))"

primrec walkers :: "nat \<Rightarrow> bytes \<Rightarrow> nat \<Rightarrow> value_fn \<times> loop_fn \<times> loop_fn" where
  "walkers 0 src maxDepth = ((\<lambda>_ _ _. NoFuel), (\<lambda>_ _ _ _ _. NoFuel), (\<lambda>_ _ _ _ _. NoFuel))"
| "walkers (Suc n) src maxDepth =
     (case walkers n src maxDepth of (parseValue, arrayLoop, objectLoop) \<Rightarrow>
        (parseValueStep arrayLoop objectLoop src maxDepth,
         arrayStep parseValue arrayLoop src,
         objectStep parseValue objectLoop src))"

definition parseValue :: "nat \<Rightarrow> bytes \<Rightarrow> nat \<Rightarrow> value_fn" where
  "parseValue n src maxDepth = fst (walkers n src maxDepth)"

definition arrayLoop :: "nat \<Rightarrow> bytes \<Rightarrow> nat \<Rightarrow> loop_fn" where
  "arrayLoop n src maxDepth = fst (snd (walkers n src maxDepth))"

definition objectLoop :: "nat \<Rightarrow> bytes \<Rightarrow> nat \<Rightarrow> loop_fn" where
  "objectLoop n src maxDepth = snd (snd (walkers n src maxDepth))"

lemma parse_fuel_0 [simp]:
  "parseValue 0 src maxDepth depth i l = NoFuel"
  "arrayLoop 0 src maxDepth depth ci count i l = NoFuel"
  "objectLoop 0 src maxDepth depth ci count i l = NoFuel"
  by (simp_all add: parseValue_def arrayLoop_def objectLoop_def)

lemma parseValue_Suc:
  "parseValue (Suc n) src maxDepth
    = parseValueStep (arrayLoop n src maxDepth) (objectLoop n src maxDepth) src maxDepth"
  by (simp add: parseValue_def arrayLoop_def objectLoop_def split: prod.splits)

lemma arrayLoop_Suc:
  "arrayLoop (Suc n) src maxDepth = arrayStep (parseValue n src maxDepth) (arrayLoop n src maxDepth) src"
  by (simp add: parseValue_def arrayLoop_def split: prod.splits)

lemma objectLoop_Suc:
  "objectLoop (Suc n) src maxDepth = objectStep (parseValue n src maxDepth) (objectLoop n src maxDepth) src"
  by (simp add: parseValue_def objectLoop_def split: prod.splits)

text \<open>Every nested call needs at most two units per byte that is left.\<close>

abbreviation value_fuel :: "bytes \<Rightarrow> nat \<Rightarrow> nat" where "value_fuel src i \<equiv> 2 * (length src - i) + 2"
abbreviation loop_fuel :: "bytes \<Rightarrow> nat \<Rightarrow> nat" where "loop_fuel src i \<equiv> 2 * (length src - i) + 3"

subsection \<open>Entry points\<close>

definition DefaultMaxDepth :: nat where "DefaultMaxDepth = 10000"

definition maxDepthOrDefault :: "int \<Rightarrow> nat" where
  "maxDepthOrDefault maxDepth = (if maxDepth \<le> 0 then DefaultMaxDepth else nat maxDepth)"

definition validateLayout :: "bytes \<Rightarrow> nat \<Rightarrow> layout option \<Rightarrow> (SyntaxError, layout option) outcome" where
  "validateLayout src maxDepth l =
     bind_outcome (parseValue (value_fuel src 0) src maxDepth 0 (SkipSpace src 0) l) (\<lambda>(i, l).
       let i = SkipSpace src i in
       if i \<noteq> length src then err_at src (int i) ''unexpected data after top-level value''
       else Ok l)"

definition validateOptions :: "bytes \<Rightarrow> int \<Rightarrow> (SyntaxError, unit) outcome" where
  "validateOptions src maxDepth =
     bind_outcome (validateLayout src (maxDepthOrDefault maxDepth) None) (\<lambda>_. Ok ())"

definition countLayout :: "bytes \<Rightarrow> int \<Rightarrow> (SyntaxError, layout) outcome" where
  "countLayout src maxDepth =
     bind_outcome (validateLayout src (maxDepthOrDefault maxDepth) (Some layout0)) (\<lambda>l. Ok (the l))"

subsection \<open>What is accepted is a rendering\<close>

lemma arrayStep_sound:
  assumes pv: "\<And>depth i l j l'. pv depth i l = Ok (j, l') \<Longrightarrow> reads_value src maxDepth depth i j"
    and al: "\<And>depth ci count i l j l'. al depth ci count i l = Ok (j, l') \<Longrightarrow> reads_elems src maxDepth depth i j"
    and ok: "arrayStep pv al src depth ci count i l = Ok (j, l')"
  shows "reads_elems src maxDepth depth i j"
proof -
  from ok obtain k l1 where k: "pv depth (skip_to src i) l = Ok (k, l1)" "skip_to src k < length src"
    and "src ! skip_to src k = ch_rbracket \<and> j = Suc (skip_to src k) \<or> src ! skip_to src k = ch_comma
      \<and> al depth ci (Suc count) (Suc (skip_to src k)) (countValue l1) = Ok (j, l')"
    by (auto simp: arrayStep_def bind_outcome_eq_Ok SkipSpace_eq Let_def split: if_splits)
  then show ?thesis using al by (intro reads_elems_step [OF pv [OF k(1)] refl k(2)]) blast
qed

lemma objectStep_sound:
  assumes pv: "\<And>depth i l j l'. pv depth i l = Ok (j, l') \<Longrightarrow> reads_value src maxDepth depth i j"
    and ol: "\<And>depth ci count i l j l'. ol depth ci count i l = Ok (j, l') \<Longrightarrow> reads_mems src maxDepth depth i j"
    and ok: "objectStep pv ol src depth ci count i l = Ok (j, l')"
  shows "reads_mems src maxDepth depth i j"
proof -
  from ok obtain e k l1 where e: "skip_to src i < length src" "src ! skip_to src i = ch_quote"
      "string_end src (Suc (skip_to src i)) = Ok e" "skip_to src e < length src" "src ! skip_to src e = ch_colon"
    and k: "pv depth (skip_to src (Suc (skip_to src e))) l = Ok (k, l1)" "skip_to src k < length src"
    and "src ! skip_to src k = ch_rbrace \<and> j = Suc (skip_to src k) \<or> src ! skip_to src k = ch_comma
      \<and> ol depth ci (Suc count) (Suc (skip_to src k)) (countMember l1) = Ok (j, l')"
    by (auto simp: objectStep_def bind_outcome_eq_Ok SkipSpace_eq Let_def parseString_end split: if_splits)
  then show ?thesis using ol
    by (intro reads_mems_step [OF refl e(1-3) refl e(4,5) pv [OF k(1)] refl k(2)]) blast
qed

lemma valueStep_sound:
  assumes al: "\<And>depth ci count i l j l'. al depth ci count i l = Ok (j, l') \<Longrightarrow> reads_elems src maxDepth depth i j"
    and ol: "\<And>depth ci count i l j l'. ol depth ci count i l = Ok (j, l') \<Longrightarrow> reads_mems src maxDepth depth i j"
    and ok: "parseValueStep al ol src maxDepth depth i l = Ok (j, l')"
  shows "reads_value src maxDepth depth i j"
proof -
  have d: "depth \<le> maxDepth" and i: "i < length src"
    using ok by (auto simp: parseValueStep_def split: if_splits)
  note step = ok [unfolded parseValueStep_def Let_def]
  consider "src ! i = ch_n" | "src ! i = ch_t" | "src ! i = ch_f" | "src ! i = ch_quote"
    | "src ! i = ch_lbracket" | "src ! i = ch_lbrace" | "src ! i = ch_minus \<or> IsDigit (src ! i)"
    using step d i by (auto split: if_splits)
  then show ?thesis
  proof cases
    case 1
    then show ?thesis using reads_literal [of src i CNull] step d i
      by (auto simp: parseLiteral_def split: if_splits)
  next
    case 2
    then show ?thesis using reads_literal [of src i CTrue] step d i
      by (auto simp: parseLiteral_def split: if_splits)
  next
    case 3
    then show ?thesis using reads_literal [of src i CFalse] step d i
      by (auto simp: parseLiteral_def split: if_splits)
  next
    case 4
    then show ?thesis using reads_string [OF i 4 _ d] step d i
      by (auto simp: parseStringValue_def bind_outcome_eq_Ok parseString_end)
  next
    case 5
    then show ?thesis using step d i reads_array [OF i 5 _ refl] al
      by (auto simp: parseArray_def SkipSpace_eq Let_def split: if_splits prod.splits)
  next
    case 6
    then show ?thesis using step d i reads_object [OF i 6 _ refl] ol
      by (auto simp: parseObject_def SkipSpace_eq Let_def split: if_splits prod.splits)
  next
    case 7
    then have "parseNumber src (i, l) = Ok (j, l')" using step d i number_first_byte [OF 7] by simp
    then show ?thesis using reads_number d by (auto simp: parseNumber_def split: if_splits prod.splits)
  qed
qed

lemma parse_sound:
  "parseValue n src maxDepth depth i l = Ok (j, l') \<Longrightarrow> reads_value src maxDepth depth i j"
  "arrayLoop n src maxDepth depth ci count i l = Ok (j, l') \<Longrightarrow> reads_elems src maxDepth depth i j"
  "objectLoop n src maxDepth depth ci count i l = Ok (j, l') \<Longrightarrow> reads_mems src maxDepth depth i j"
proof (induction n arbitrary: depth ci count i l j l')
  case (Suc n)
  { case 1 then show ?case using valueStep_sound Suc.IH(2,3) unfolding parseValue_Suc by blast }
  { case 2 then show ?case using arrayStep_sound Suc.IH(1,2) unfolding arrayLoop_Suc by blast }
  { case 3 then show ?case using objectStep_sound Suc.IH(1,3) unfolding objectLoop_Suc by blast }
qed simp_all

subsection \<open>The fuel is never exhausted\<close>

lemma parseScalar_fuel:
  "parseLiteral src lit s \<noteq> NoFuel" "parseNumber src s \<noteq> NoFuel"
  "fst s < length src \<Longrightarrow> parseStringValue src s \<noteq> NoFuel"
  by (cases s; auto simp: parseLiteral_def parseNumber_def parseStringValue_def bind_outcome_eq_NoFuel
      parseString_end string_end_fuel split: prod.splits)+

lemma parse_fuel:
  "value_fuel src i \<le> n \<Longrightarrow> parseValue n src maxDepth depth i l \<noteq> NoFuel"
  "loop_fuel src i \<le> n \<Longrightarrow> i \<le> length src \<Longrightarrow> arrayLoop n src maxDepth depth ci count i l \<noteq> NoFuel"
  "loop_fuel src i \<le> n \<Longrightarrow> i \<le> length src \<Longrightarrow> objectLoop n src maxDepth depth ci count i l \<noteq> NoFuel"
proof (induction n arbitrary: depth ci count i l)
  case (Suc n)
  {
    case 1
    have "loop_fuel src (skip_to src (Suc i)) \<le> n" "skip_to src (Suc i) \<le> length src" if "i < length src"
      using that 1 skip_to_ge [of "Suc i" src] skip_to_le [of "Suc i" src] by linarith+
    with Suc.IH(2,3) show ?case
      by (auto simp: parseValue_Suc parseValueStep_def Let_def parseScalar_fuel parseArray_def parseObject_def
          SkipSpace_eq split: prod.splits)
  next
    case 2
    have nxt: "loop_fuel src (Suc (skip_to src k)) \<le> n" "Suc (skip_to src k) \<le> length src"
      if "parseValue n src maxDepth depth (skip_to src i) l = Ok (k, l1)" "skip_to src k < length src" for k l1
      using that reads_bounds [OF parse_sound(1) [OF that(1)]] skip_to_ge [of i src] skip_to_ge [of k src] 2(1) 
      by linarith+
    have "value_fuel src (skip_to src i) \<le> n" using 2 skip_to_ge [of i src] by linarith
    with Suc.IH(1,2) nxt show ?case
      by (auto simp: arrayLoop_Suc arrayStep_def Let_def SkipSpace_eq bind_outcome_eq_NoFuel not_le split: if_splits)
  next
    case 3
    have key: "value_fuel src (skip_to src (Suc (skip_to src e))) \<le> n"
      if "string_end src (Suc (skip_to src i)) = Ok e" for e
      using string_end_bounds [OF that] skip_to_ge [of i src] skip_to_ge [of e src]
        skip_to_ge [of "Suc (skip_to src e)" src] 3(1) by linarith
    have nxt: "loop_fuel src (Suc (skip_to src k)) \<le> n" "Suc (skip_to src k) \<le> length src"
      if "string_end src (Suc (skip_to src i)) = Ok e"
        "parseValue n src maxDepth depth (skip_to src (Suc (skip_to src e))) l = Ok (k, l1)" "skip_to src k < length src"
      for e k l1
      using reads_bounds [OF parse_sound(1) [OF that(2)]] string_end_bounds [OF that(1)] skip_to_ge [of i src]
        skip_to_ge [of e src] skip_to_ge [of "Suc (skip_to src e)" src] skip_to_ge [of k src] 3(1) that(3)
      by linarith+
    with Suc.IH(1,3) key nxt show ?case
      by (auto simp: objectLoop_Suc objectStep_def Let_def SkipSpace_eq bind_outcome_eq_NoFuel not_le parseString_end
          string_end_fuel split: if_splits)
  }
qed simp_all

lemma validateLayout_fuel: "validateLayout src maxDepth l \<noteq> NoFuel"
proof -
  have "value_fuel src (skip_to src 0) \<le> value_fuel src 0" by simp
  from parse_fuel(1) [OF this] show ?thesis
    by (auto simp: validateLayout_def bind_outcome_eq_NoFuel Let_def SkipSpace_eq)
qed

subsection \<open>Every rendering is accepted, and how it is counted\<close>

primrec elem_count :: "celems \<Rightarrow> nat" and mem_count :: "cmems \<Rightarrow> nat" where
  "elem_count (ELast w v w') = 1"
| "elem_count (EMore w v w' es) = Suc (elem_count es)"
| "mem_count (MLast w k a b v w') = 1"
| "mem_count (MMore w k a b v w' ms) = Suc (mem_count ms)"

primrec lay :: "cst \<Rightarrow> layout option \<Rightarrow> layout option"
  and lay_elems :: "celems \<Rightarrow> layout option \<Rightarrow> layout option"
  and lay_mems :: "cmems \<Rightarrow> layout option \<Rightarrow> layout option" where
  "lay CNull l = l"
| "lay CTrue l = l"
| "lay CFalse l = l"
| "lay (CNum s) l = l"
| "lay (CStr s) l = l"
| "lay (CArr0 w) l = fst (openContainer l)"
| "lay (CArr es) l = (case openContainer l of (l', ci) \<Rightarrow> closeContainer (lay_elems es l') ci (elem_count es))"
| "lay (CObj0 w) l = fst (openContainer l)"
| "lay (CObj ms) l = (case openContainer l of (l', ci) \<Rightarrow> closeContainer (lay_mems ms l') ci (mem_count ms))"
| "lay_elems (ELast w v w') l = countValue (lay v l)"
| "lay_elems (EMore w v w' es) l = lay_elems es (countValue (lay v l))"
| "lay_mems (MLast w k a b v w') l = countMember (lay v l)"
| "lay_mems (MMore w k a b v w' ms) l = lay_mems ms (countMember (lay v l))"

lemma number_value_step:
  assumes "drop i src = s @ rest" "json_number s" "num_stop rest" "depth \<le> maxDepth"
  shows "parseValueStep al ol src maxDepth depth i l = Ok (i + length s, l)"
proof -
  have f: "s \<noteq> []" "hd s = ch_minus \<or> IsDigit (hd s)" using json_number_first assms(2) by auto
  then have i: "i < length src" "src ! i = hd s"
    using assms(1) by (cases s; auto dest: drop_eq_ConsD)+
  with number_first_byte [OF f(2)] have "parseValueStep al ol src maxDepth depth i l = parseNumber src (i, l)"
    using f(2) assms(4) by (simp add: parseValueStep_def)
  then show ?thesis by (simp add: parseNumber_def scanNumber_complete [OF assms(1-3)])
qed

lemma literal_value_step:
  assumes "drop i src = render t @ rest" "t \<in> {CNull, CTrue, CFalse}" "depth \<le> maxDepth"
  shows "parseValueStep al ol src maxDepth depth i l = Ok (i + length (render t), l)"
proof -
  have "matchStringAt src i (render t)" using assms by (intro matchStringAt_drop [THEN iffD2]) auto
  moreover have "i < length src" "src ! i = hd (render t)"
    using drop_eq_ConsD [of i src "hd (render t)" "tl (render t) @ rest"] assms(1,2) by auto
  ultimately show ?thesis using assms(2,3)
    by (cases t) (simp_all add: parseValueStep_def parseLiteral_def)
qed

lemma string_value_step:
  assumes "drop i src = ch_quote # raw @ ch_quote # rest" "json_string raw" "depth \<le> maxDepth"
  shows "parseValueStep al ol src maxDepth depth i l = Ok (i + length raw + 2, l)"
proof -
  obtain dec where "jchars raw dec" using assms(2) by (auto simp: json_string_def)
  moreover have i: "i < length src" "src ! i = ch_quote" "drop (Suc i) src = raw @ ch_quote # rest"
    using assms(1) by (auto dest: drop_eq_ConsD)
  ultimately have "parseString src i = Ok (i + length raw + 2)"
    by (simp add: parseString_end string_end_complete)
  with i assms(3) show ?thesis by (simp add: parseValueStep_def parseStringValue_def)
qed

lemma arrayStep_complete:
  assumes d: "drop i src = w @ render v @ w' @ c # rest" and wf: "spaces w" "wf v" "spaces w'"
    and pv: "pv depth (i + length w) l = Ok (i + length w + length (render v), l1)"
    and c: "c = ch_rbracket \<or> c = ch_comma"
  defines "j \<equiv> i + length w + length (render v) + length w'"
  shows "arrayStep pv al src depth ci count i l =
    (if c = ch_comma then al depth ci (Suc count) (Suc j) (countValue l1)
     else Ok (Suc j, closeContainer (countValue l1) ci (Suc count)))"
proof -
  have "\<not> IsJSONWhitespace c" using c by auto
  from elem_turn [OF d wf this] pv c show ?thesis unfolding j_def by (auto simp: arrayStep_def SkipSpace_eq Let_def)
qed

lemma objectStep_complete:
  assumes d: "drop i src = w @ ch_quote # k @ ch_quote # a @ ch_colon # b @ render v @ w' @ c # rest"
    and wf: "spaces w" "json_string k" "spaces a" "spaces b" "wf v" "spaces w'"
    and p: "p = i + length w + length k + length a + length b + 3"
    and pv: "pv depth p l = Ok (p + length (render v), l1)"
    and c: "c = ch_rbrace \<or> c = ch_comma"
  defines "j \<equiv> p + length (render v) + length w'"
  shows "objectStep pv ol src depth ci count i l =
    (if c = ch_comma then ol depth ci (Suc count) (Suc j) (countMember l1)
     else Ok (Suc j, closeContainer (countMember l1) ci (Suc count)))"
proof -
  have "\<not> IsJSONWhitespace c" using c by auto
  from mem_turn [OF d wf this p] pv c show ?thesis
    unfolding j_def by (auto simp: objectStep_def SkipSpace_eq Let_def parseString_end)
qed

lemmas scalar_value_steps = number_value_step string_value_step [simplified]
  literal_value_step [where t = CNull, simplified] literal_value_step [where t = CTrue, simplified]
  literal_value_step [where t = CFalse, simplified]

lemma loop_skip:
  "arrayLoop n src maxDepth depth ci count (skip_to src i) l = arrayLoop n src maxDepth depth ci count i l"
  "objectLoop n src maxDepth depth ci count (skip_to src i) l = objectLoop n src maxDepth depth ci count i l"
  by (cases n; simp add: arrayLoop_Suc arrayStep_def objectLoop_Suc objectStep_def SkipSpace_eq)+

lemma elems_first:
  assumes "drop i src = render_elems es @ rest" "wf_elems es"
  shows "skip_to src i < length src" "src ! skip_to src i \<noteq> ch_rbracket"
proof -
  obtain w v r where d: "drop i src = w @ render v @ r" and wf: "spaces w" "wf v"
    using assms by (cases es) auto
  note v = skip_to_value [OF d wf]
  show "skip_to src i < length src" by (rule v(2))
  have "src ! skip_to src i = hd (render v)"
    using v(3) render_first(1) [OF wf(2)] by (metis append_Cons drop_eq_ConsD(2) list.collapse)
  then show "src ! skip_to src i \<noteq> ch_rbracket" using render_first(3) [OF wf(2)] by auto
qed

lemma mems_first:
  assumes "drop i src = render_mems ms @ rest" "wf_mems ms"
  shows "skip_to src i < length src" "src ! skip_to src i = ch_quote"
proof -
  obtain w r where "drop i src = w @ ch_quote # r" "spaces w" using assms by (cases ms) auto
  from skip_to_token [OF this] show "skip_to src i < length src" "src ! skip_to src i = ch_quote"
    by (simp_all add: IsJSONWhitespace_def)
qed

lemma array_value_step:
  assumes "drop i src = ch_lbracket # r" "depth < maxDepth"
  shows "parseValueStep al ol src maxDepth depth i l = parseArray al src maxDepth (Suc depth) i l"
  using assms by (simp add: drop_eq_Cons_iff parseValueStep_def)

lemma object_value_step:
  assumes "drop i src = ch_lbrace # r" "depth < maxDepth"
  shows "parseValueStep al ol src maxDepth depth i l = parseObject ol src maxDepth (Suc depth) i l"
  using assms by (simp add: drop_eq_Cons_iff parseValueStep_def)

lemma parse_complete:
  "drop i src = render t @ rest \<Longrightarrow> wf t \<Longrightarrow> value_stop rest \<Longrightarrow> depth + nesting t \<le> maxDepth
     \<Longrightarrow> value_fuel src i \<le> n
     \<Longrightarrow> parseValue n src maxDepth depth i l = Ok (i + length (render t), lay t l)"
  "drop i src = render_elems es @ rest \<Longrightarrow> wf_elems es \<Longrightarrow> depth + nesting_elems es \<le> maxDepth
     \<Longrightarrow> loop_fuel src i \<le> n
     \<Longrightarrow> arrayLoop n src maxDepth depth ci count i l
       = Ok (i + length (render_elems es), closeContainer (lay_elems es l) ci (count + elem_count es))"
  "drop i src = render_mems ms @ rest \<Longrightarrow> wf_mems ms \<Longrightarrow> depth + nesting_mems ms \<le> maxDepth
     \<Longrightarrow> loop_fuel src i \<le> n
     \<Longrightarrow> objectLoop n src maxDepth depth ci count i l
       = Ok (i + length (render_mems ms), closeContainer (lay_mems ms l) ci (count + mem_count ms))"
proof (induction t and es and ms arbitrary: i rest depth n l and i rest depth n l ci count and i rest depth n l ci count)
  case (CNum s)
  then obtain m where "n = Suc m" by (cases n) auto
  then show ?case using number_value_step [of i src s rest] CNum by (simp add: parseValue_Suc value_stop_num)
next
  case (CArr0 w)
  then obtain m where n: "n = Suc m" by (cases n) auto
  from CArr0 have d: "drop i src = ch_lbracket # w @ ch_rbracket # rest" "spaces w" by simp_all
  from skip_to_token [OF drop_eq_ConsD(3) [OF d(1)] d(2)] array_value_step [OF d(1)] CArr0 n show ?case
    by (simp add: parseValue_Suc parseArray_def SkipSpace_eq IsJSONWhitespace_def split: prod.splits)
next
  case (CObj0 w)
  then obtain m where n: "n = Suc m" by (cases n) auto
  from CObj0 have d: "drop i src = ch_lbrace # w @ ch_rbrace # rest" "spaces w" by simp_all
  from skip_to_token [OF drop_eq_ConsD(3) [OF d(1)] d(2)] object_value_step [OF d(1)] CObj0 n show ?case
    by (simp add: parseValue_Suc parseObject_def SkipSpace_eq IsJSONWhitespace_def split: prod.splits)
next
  case (CArr es)
  then obtain m where n: "n = Suc m" by (cases n) auto
  from CArr have d: "drop i src = ch_lbracket # render_elems es @ rest" by simp
  note d' = drop_eq_ConsD [OF d]
  have "loop_fuel src (Suc i) \<le> m" using CArr.prems(5) n d'(1) by linarith
  with CArr.IH [OF d'(3)] CArr.prems elems_first [OF d'(3)] array_value_step [OF d] n show ?case
    by (simp add: parseValue_Suc parseArray_def SkipSpace_eq loop_skip Let_def split: prod.splits)
next
  case (CObj ms)
  then obtain m where n: "n = Suc m" by (cases n) auto
  from CObj have d: "drop i src = ch_lbrace # render_mems ms @ rest" by simp
  note d' = drop_eq_ConsD [OF d]
  have "loop_fuel src (Suc i) \<le> m" using CObj.prems(5) n d'(1) by linarith
  with CObj.IH [OF d'(3)] CObj.prems mems_first [OF d'(3)] object_value_step [OF d] n show ?case
    by (simp add: parseValue_Suc parseObject_def SkipSpace_eq loop_skip Let_def split: prod.splits)
next
  case (ELast w v w')
  then obtain m where n: "n = Suc m" by (cases n) auto
  from ELast.prems have d: "drop i src = w @ render v @ w' @ ch_rbracket # rest" by simp
  have "drop (i + length w) src = render v @ w' @ ch_rbracket # rest" using drop_eq_appendD [OF d] .
  moreover have "value_fuel src (i + length w) \<le> m" using ELast.prems(4) n by linarith
  ultimately have "parseValue m src maxDepth depth (i + length w) l = Ok (i + length w + length (render v), lay v l)"
    using ELast.prems by (intro ELast.IH) (auto intro: value_stop_spaces)
  from arrayStep_complete [where pv = "parseValue m src maxDepth", OF d _ _ _ this] ELast.prems n show ?case by (simp add: arrayLoop_Suc)
next
  case (EMore w v w' es)
  then obtain m where n: "n = Suc m" by (cases n) auto
  from EMore.prems have d: "drop i src = w @ render v @ w' @ ch_comma # (render_elems es @ rest)" by simp
  have "drop (i + length w) src = render v @ w' @ ch_comma # (render_elems es @ rest)" using drop_eq_appendD [OF d] .
  moreover have "value_fuel src (i + length w) \<le> m" using EMore.prems(4) n by linarith
  ultimately have pv: "parseValue m src maxDepth depth (i + length w) l = Ok (i + length w + length (render v), lay v l)"
    using EMore.prems by (intro EMore.IH(1)) (auto intro: value_stop_spaces)
  have d': "drop (Suc (i + length w + length (render v) + length w')) src = render_elems es @ rest"
    using drop_eq_appendD [of i src "w @ render v @ w' @ [ch_comma]"] d by (simp add: add.assoc)
  have "i < length src" using d by (cases "i < length src") auto
  then have "loop_fuel src (Suc (i + length w + length (render v) + length w')) \<le> m" using EMore.prems(4) n by linarith
  note IH = EMore.IH(2) [OF d' _ _ this, where ci = ci and count = "Suc count" and l = "countValue (lay v l)" and depth = depth]
  from arrayStep_complete [where pv = "parseValue m src maxDepth", OF d _ _ _ pv] EMore.prems n IH show ?case by (simp add: arrayLoop_Suc)
next
  case (MLast w k a b v w')
  then obtain m where n: "n = Suc m" by (cases n) auto
  let ?p = "i + length w + length k + length a + length b + 3"
  from MLast.prems have d: "drop i src = w @ ch_quote # k @ ch_quote # a @ ch_colon # b @ render v @ w' @ ch_rbrace # rest" by simp
  have "drop ?p src = render v @ w' @ ch_rbrace # rest"
    using drop_eq_appendD [of i src "w @ ch_quote # k @ ch_quote # a @ ch_colon # b"] d by (simp add: ac_simps numeral_eq_Suc)
  moreover have "value_fuel src ?p \<le> m" using MLast.prems(4) n by linarith
  ultimately have "parseValue m src maxDepth depth ?p l = Ok (?p + length (render v), lay v l)"
    using MLast.prems by (intro MLast.IH) (auto intro: value_stop_spaces)
  from objectStep_complete [where pv = "parseValue m src maxDepth", OF d _ _ _ _ _ _ refl this] MLast.prems n show ?case by (simp add: objectLoop_Suc)
next
  case (MMore w k a b v w' ms)
  then obtain m where n: "n = Suc m" by (cases n) auto
  let ?p = "i + length w + length k + length a + length b + 3"
  from MMore.prems have d: "drop i src = w @ ch_quote # k @ ch_quote # a @ ch_colon # b @ render v @ w' @ ch_comma # (render_mems ms @ rest)"
    by simp
  have "drop ?p src = render v @ w' @ ch_comma # (render_mems ms @ rest)"
    using drop_eq_appendD [of i src "w @ ch_quote # k @ ch_quote # a @ ch_colon # b"] d by (simp add: ac_simps numeral_eq_Suc)
  moreover have "value_fuel src ?p \<le> m" using MMore.prems(4) n by linarith
  ultimately have pv: "parseValue m src maxDepth depth ?p l = Ok (?p + length (render v), lay v l)"
    using MMore.prems by (intro MMore.IH(1)) (auto intro: value_stop_spaces)
  have d': "drop (Suc (?p + length (render v) + length w')) src = render_mems ms @ rest"
    using drop_eq_appendD [of i src "w @ ch_quote # k @ ch_quote # a @ ch_colon # b @ render v @ w' @ [ch_comma]"] d
    by (simp add: add.assoc numeral_eq_Suc)
  have "i < length src" using d by (cases "i < length src") auto
  then have "loop_fuel src (Suc (?p + length (render v) + length w')) \<le> m" using MMore.prems(4) n by linarith
  note IH = MMore.IH(2) [OF d' _ _ this, where ci = ci and count = "Suc count" and l = "countMember (lay v l)" and depth = depth]
  from objectStep_complete [where pv = "parseValue m src maxDepth", OF d _ _ _ _ _ _ refl pv] MMore.prems n IH show ?case by (simp add: objectLoop_Suc)
qed (auto simp: parseValue_Suc gr0_conv_Suc value_stop_num dest!: Suc_le_D intro: scalar_value_steps value_stop_num)

subsection \<open>The validator decides the grammar\<close>

lemma validateLayout_sound: "validateLayout src maxDepth l = Ok l' \<Longrightarrow> json_document maxDepth src"
  by (auto simp: validateLayout_def bind_outcome_eq_Ok Let_def SkipSpace_eq split: if_splits
      intro!: reads_document dest!: parse_sound(1))

lemma validateLayout_complete:
  assumes "src = w @ render t @ w'" "spaces w" "wf t" "spaces w'" "nesting t \<le> maxDepth"
  shows "validateLayout src maxDepth l = Ok (lay t l)"
proof -
  have d: "drop 0 src = w @ render t @ w'" using assms by simp
  note v = skip_to_value [OF d assms(2,3)]
  have stop: "value_stop w'" using assms(4) by (cases w') (auto simp: value_stop_def)
  have "value_fuel src (skip_to src 0) \<le> value_fuel src 0" by simp
  from parse_complete(1) [OF v(3) assms(3) stop _ this] assms(5) v(1)
  have p: "parseValue (value_fuel src 0) src maxDepth 0 (skip_to src 0) l = Ok (length w + length (render t), lay t l)"
    by simp
  have "drop (length w + length (render t)) src = w' @ []" using assms(1) by simp
  from drop_skip_to [OF this assms(4)] have "skip_to src (length w + length (render t)) = length src"
    using assms(1) by simp
  with p show ?thesis by (simp add: validateLayout_def SkipSpace_eq)
qed

lemma validateOptions_ok: "validateOptions src d = Ok () \<longleftrightarrow> json_document (maxDepthOrDefault d) src"
  and validateOptions_fuel: "validateOptions src d \<noteq> NoFuel"
proof -
  let ?v = "validateLayout src (maxDepthOrDefault d) None"
  have iff: "(\<exists>l. ?v = Ok l) \<longleftrightarrow> json_document (maxDepthOrDefault d) src"
    using validateLayout_sound validateLayout_complete by (auto simp: json_document_def)
  then show "validateOptions src d = Ok () \<longleftrightarrow> json_document (maxDepthOrDefault d) src"
    by (cases ?v) (auto simp: validateOptions_def)
  show "validateOptions src d \<noteq> NoFuel"
    using validateLayout_fuel [of src "maxDepthOrDefault d" None]
    by (auto simp: validateOptions_def bind_outcome_eq_NoFuel)
qed

text \<open>C1: The strict validator decides the grammar: \<^verbatim>\<open>validateOptions\<close> returns no error exactly for the inputs that
  are one JSON document, surrounded by white space and nested at most as deep as the options allow; on every
  other input it returns a syntax error, and it always returns.\<close>

theorem validateOptions_correct:
  "(validateOptions src d = Ok () \<longleftrightarrow> json_document (maxDepthOrDefault d) src)
   \<and> ((\<exists>e. validateOptions src d = Fail e) \<longleftrightarrow> \<not> json_document (maxDepthOrDefault d) src)"
  using validateOptions_ok [of src d] validateOptions_fuel [of src d]
  by (cases "validateOptions src d") auto

subsection \<open>The layout counters\<close>

text \<open>The element counts of the containers in document order, and the totals over the document.\<close>

primrec containers :: "cst \<Rightarrow> nat list" and containers_elems :: "celems \<Rightarrow> nat list"
  and containers_mems :: "cmems \<Rightarrow> nat list" where
  "containers CNull = []"
| "containers CTrue = []"
| "containers CFalse = []"
| "containers (CNum s) = []"
| "containers (CStr s) = []"
| "containers (CArr0 w) = [0]"
| "containers (CArr es) = elem_count es # containers_elems es"
| "containers (CObj0 w) = [0]"
| "containers (CObj ms) = mem_count ms # containers_mems ms"
| "containers_elems (ELast w v w') = containers v"
| "containers_elems (EMore w v w' es) = containers v @ containers_elems es"
| "containers_mems (MLast w k a b v w') = containers v"
| "containers_mems (MMore w k a b v w' ms) = containers v @ containers_mems ms"

primrec elem_total :: "cst \<Rightarrow> nat" and elem_total_elems :: "celems \<Rightarrow> nat" and elem_total_mems :: "cmems \<Rightarrow> nat" where
  "elem_total CNull = 0"
| "elem_total CTrue = 0"
| "elem_total CFalse = 0"
| "elem_total (CNum s) = 0"
| "elem_total (CStr s) = 0"
| "elem_total (CArr0 w) = 0"
| "elem_total (CArr es) = elem_total_elems es"
| "elem_total (CObj0 w) = 0"
| "elem_total (CObj ms) = elem_total_mems ms"
| "elem_total_elems (ELast w v w') = Suc (elem_total v)"
| "elem_total_elems (EMore w v w' es) = Suc (elem_total v + elem_total_elems es)"
| "elem_total_mems (MLast w k a b v w') = elem_total v"
| "elem_total_mems (MMore w k a b v w' ms) = elem_total v + elem_total_mems ms"

primrec mem_total :: "cst \<Rightarrow> nat" and mem_total_elems :: "celems \<Rightarrow> nat" and mem_total_mems :: "cmems \<Rightarrow> nat" where
  "mem_total CNull = 0"
| "mem_total CTrue = 0"
| "mem_total CFalse = 0"
| "mem_total (CNum s) = 0"
| "mem_total (CStr s) = 0"
| "mem_total (CArr0 w) = 0"
| "mem_total (CArr es) = mem_total_elems es"
| "mem_total (CObj0 w) = 0"
| "mem_total (CObj ms) = mem_total_mems ms"
| "mem_total_elems (ELast w v w') = mem_total v"
| "mem_total_elems (EMore w v w' es) = mem_total v + mem_total_elems es"
| "mem_total_mems (MLast w k a b v w') = Suc (mem_total v)"
| "mem_total_mems (MMore w k a b v w' ms) = Suc (mem_total v + mem_total_mems ms)"

definition layout_counts :: "layout \<Rightarrow> nat list" where
  "layout_counts l = take (ncontainers l) (inline_counts l @ overflow l)"

definition layout_inv :: "layout \<Rightarrow> bool" where
  "layout_inv l \<longleftrightarrow> length (inline_counts l) = 64 \<and> length (overflow l) = ncontainers l - 64
     \<and> (\<forall>k. ncontainers l \<le> k \<longrightarrow> k < 64 \<longrightarrow> inline_counts l ! k = 0)"

lemma layout_counts_length: "layout_inv l \<Longrightarrow> length (layout_counts l) = ncontainers l"
  by (auto simp: layout_inv_def layout_counts_def)

lemma addContainer_layout:
  assumes "layout_inv l" "addContainer l = (l', idx)"
  shows "layout_inv l'" "layout_counts l' = layout_counts l @ [0]" "idx = length (layout_counts l)"
    "valueCount l' = valueCount l" "memberCount l' = memberCount l"
proof -
  have l: "length (inline_counts l) = 64" "length (overflow l) = ncontainers l - 64"
    "\<And>k. ncontainers l \<le> k \<Longrightarrow> k < 64 \<Longrightarrow> inline_counts l ! k = 0" using assms(1) by (auto simp: layout_inv_def)
  show "layout_inv l'" "idx = length (layout_counts l)"
    "valueCount l' = valueCount l" "memberCount l' = memberCount l"
    using assms l by (auto simp: addContainer_def Let_def layout_inv_def layout_counts_def split: if_splits)
  show "layout_counts l' = layout_counts l @ [0]"
    using assms(2) l by (cases "ncontainers l < 64")
      (auto simp: addContainer_def Let_def layout_counts_def take_Suc_conv_app_nth nth_append)
qed

lemma setContainer_layout:
  assumes "layout_inv l" "idx < ncontainers l"
  shows "layout_inv (setContainer l idx c)" "layout_counts (setContainer l idx c) = (layout_counts l)[idx := c]"
    "valueCount (setContainer l idx c) = valueCount l" "memberCount (setContainer l idx c) = memberCount l"
  using assms
  by (auto simp: setContainer_def layout_inv_def layout_counts_def list_update_append take_update_swap
      nth_list_update)

lemma lay_counts:
  "layout_inv l \<Longrightarrow> \<exists>l'. lay t (Some l) = Some l' \<and> layout_inv l'
     \<and> layout_counts l' = layout_counts l @ containers t
     \<and> valueCount l' = valueCount l + elem_total t \<and> memberCount l' = memberCount l + mem_total t"
  "layout_inv l \<Longrightarrow> \<exists>l'. lay_elems es (Some l) = Some l' \<and> layout_inv l'
     \<and> layout_counts l' = layout_counts l @ containers_elems es
     \<and> valueCount l' = valueCount l + elem_total_elems es \<and> memberCount l' = memberCount l + mem_total_elems es"
  "layout_inv l \<Longrightarrow> \<exists>l'. lay_mems ms (Some l) = Some l' \<and> layout_inv l'
     \<and> layout_counts l' = layout_counts l @ containers_mems ms
     \<and> valueCount l' = valueCount l + elem_total_mems ms \<and> memberCount l' = memberCount l + mem_total_mems ms"
proof (induction t and es and ms arbitrary: l and l and l)
  case (CArr0 w)
  obtain l1 idx where "addContainer l = (l1, idx)" by (cases "addContainer l")
  with addContainer_layout [OF CArr0 this] show ?case by simp
next
  case (CObj0 w)
  obtain l1 idx where "addContainer l = (l1, idx)" by (cases "addContainer l")
  with addContainer_layout [OF CObj0 this] show ?case by simp
next
  case (CArr es)
  obtain l1 idx where a: "addContainer l = (l1, idx)" by (cases "addContainer l")
  note a' = addContainer_layout [OF CArr.prems a]
  obtain l2 where l2: "lay_elems es (Some l1) = Some l2" "layout_inv l2"
      "layout_counts l2 = layout_counts l @ 0 # containers_elems es"
      "valueCount l2 = valueCount l + elem_total_elems es" "memberCount l2 = memberCount l + mem_total_elems es"
    using CArr.IH [OF a'(1)] a' by auto
  then have "idx < ncontainers l2" using layout_counts_length [OF l2(2)] a'(3) by simp
  from setContainer_layout [OF l2(2) this, of "elem_count es"] l2 a a'(3) show ?case by simp
next
  case (CObj ms)
  obtain l1 idx where a: "addContainer l = (l1, idx)" by (cases "addContainer l")
  note a' = addContainer_layout [OF CObj.prems a]
  obtain l2 where l2: "lay_mems ms (Some l1) = Some l2" "layout_inv l2"
      "layout_counts l2 = layout_counts l @ 0 # containers_mems ms"
      "valueCount l2 = valueCount l + elem_total_mems ms" "memberCount l2 = memberCount l + mem_total_mems ms"
    using CObj.IH [OF a'(1)] a' by auto
  then have "idx < ncontainers l2" using layout_counts_length [OF l2(2)] a'(3) by simp
  from setContainer_layout [OF l2(2) this, of "mem_count ms"] l2 a a'(3) show ?case by simp
next
  case (ELast w v w')
  from ELast.IH [OF ELast.prems] show ?case by (auto simp: countValue_def layout_inv_def layout_counts_def)
next
  case (MLast w k a b v w')
  from MLast.IH [OF MLast.prems] show ?case by (auto simp: countMember_def layout_inv_def layout_counts_def)
next
  case (EMore w v w' es)
  from EMore.IH(1) [OF EMore.prems] obtain l1 where l1: "lay v (Some l) = Some l1" "layout_inv l1"
      "layout_counts l1 = layout_counts l @ containers v" "valueCount l1 = valueCount l + elem_total v"
      "memberCount l1 = memberCount l + mem_total v" by auto
  then have "layout_inv (l1\<lparr>valueCount := Suc (valueCount l1)\<rparr>)" by (simp add: layout_inv_def)
  from EMore.IH(2) [OF this] l1 show ?case by (auto simp: countValue_def layout_counts_def)
next
  case (MMore w k a b v w' ms)
  from MMore.IH(1) [OF MMore.prems] obtain l1 where l1: "lay v (Some l) = Some l1" "layout_inv l1"
      "layout_counts l1 = layout_counts l @ containers v" "valueCount l1 = valueCount l + elem_total v"
      "memberCount l1 = memberCount l + mem_total v" by auto
  then have "layout_inv (l1\<lparr>memberCount := Suc (memberCount l1)\<rparr>)" by (simp add: layout_inv_def)
  from MMore.IH(2) [OF this] l1 show ?case by (auto simp: countMember_def layout_counts_def)
qed simp_all

text \<open>C8: \<^verbatim>\<open>countLayout\<close> describes the document it accepts: its container table, spread over the 64 inline slots and
  the overflow slice, lists the element counts of all containers in document order, and its totals are
  the numbers of array elements and object members; it fails exactly on what the validator rejects.\<close>

theorem countLayout_counts:
  "case countLayout src d of
     Ok l \<Rightarrow> (\<exists>w t w'. src = w @ render t @ w' \<and> spaces w \<and> wf t \<and> spaces w'
        \<and> nesting t \<le> maxDepthOrDefault d \<and> layout_counts l = containers t
        \<and> valueCount l = elem_total t \<and> memberCount l = mem_total t)
   | Fail e \<Rightarrow> \<not> json_document (maxDepthOrDefault d) src
   | NoFuel \<Rightarrow> False"
proof (cases "json_document (maxDepthOrDefault d) src")
  case True
  then obtain w t w' where t: "src = w @ render t @ w'" "spaces w" "wf t" "spaces w'" "nesting t \<le> maxDepthOrDefault d"
    by (auto simp: json_document_def)
  have "layout_inv layout0" "layout_counts layout0 = []" "valueCount layout0 = 0" "memberCount layout0 = 0"
    by (simp_all add: layout_inv_def layout0_def layout_counts_def)
  with lay_counts(1) [of layout0 t] validateLayout_complete [OF t, of "Some layout0"]
  obtain l where "countLayout src d = Ok l" "layout_counts l = containers t" "valueCount l = elem_total t"
      "memberCount l = mem_total t"
    by (auto simp: countLayout_def)
  with t show ?thesis by auto
next
  case False
  then show ?thesis
    using validateLayout_sound [of src "maxDepthOrDefault d" "Some layout0"] validateLayout_fuel [of src "maxDepthOrDefault d" "Some layout0"]
    by (auto simp: countLayout_def bind_outcome_eq_Ok bind_outcome_eq_NoFuel split: outcome.splits)
qed

end
