(* ===== verification/Walker.thy ===== *)
theory Walker
  imports Validate
begin

text \<open>
  The contract of a document walker. A recursive-descent routine \<open>tracks\<close> the validator when it
  succeeds exactly where the validator does, with the same end offset, whatever else it
  computes. The locale \<open>document_walker\<close> derives from that what every walker of the package
  promises: it returns, it accepts the grammar and nothing else. The validator, the bool-only
  validator, the compactor, the indenter and the raw scanner are instances.
\<close>

definition tracks :: "('a \<Rightarrow> nat) \<Rightarrow> ('e, 'a) outcome \<Rightarrow> (SyntaxError, vstate) outcome \<Rightarrow> bool" where
  "tracks pos f s \<longleftrightarrow> (case f of
       Ok x \<Rightarrow> \<exists>l. s = Ok (pos x, l)
     | Fail _ \<Rightarrow> (\<forall>r. s \<noteq> Ok r)
     | NoFuel \<Rightarrow> s = NoFuel)"

lemma tracks_simps [simp]:
  "tracks pos (Ok x) s \<longleftrightarrow> (\<exists>l. s = Ok (pos x, l))"
  "tracks pos (Fail e) s \<longleftrightarrow> (\<forall>r. s \<noteq> Ok r)"
  "tracks pos NoFuel s \<longleftrightarrow> s = NoFuel"
  by (simp_all add: tracks_def)

lemma tracks_bind:
  assumes "tracks pos f s" "\<And>x l. f = Ok x \<Longrightarrow> s = Ok (pos x, l) \<Longrightarrow> tracks pos' (k x) (k' (pos x, l))"
  shows "tracks pos' (bind_outcome f k) (bind_outcome s k')"
proof (cases f)
  case (Ok x)
  with assms show ?thesis by auto
next
  case (Fail e)
  then have "\<forall>r. s \<noteq> Ok r" using assms(1) by simp
  with Fail show ?thesis by (cases s) simp_all
qed (use assms in simp)

lemma tracks_NoFuel: "tracks pos f s \<Longrightarrow> s \<noteq> NoFuel \<Longrightarrow> f \<noteq> NoFuel"
  by auto

text \<open>A string scan followed by the rest of a loop turn.\<close>

lemma tracks_string:
  assumes "case f of Ok x \<Rightarrow> string_end src (Suc i) = Ok (p x) | Fail _ \<Rightarrow> \<exists>err. string_end src (Suc i) = Fail err | NoFuel \<Rightarrow> False"
    and "i < length src"
    and "\<And>x. f = Ok x \<Longrightarrow> tracks pos' (k x) (k' (p x))"
  shows "tracks pos' (bind_outcome f k) (bind_outcome (parseString src i) k')"
  using assms by (cases f) (auto simp: parseString_end)

text \<open>At the end of the input no part of the validator succeeds.\<close>

lemma parse_end:
  "length src \<le> i \<Longrightarrow> parseValue n src maxDepth depth i l \<noteq> Ok r"
  "length src \<le> skip_to src i \<Longrightarrow> arrayLoop n src maxDepth depth ci count i l \<noteq> Ok r"
  "length src \<le> skip_to src i \<Longrightarrow> objectLoop n src maxDepth depth ci count i l \<noteq> Ok r"
proof -
  show "length src \<le> i \<Longrightarrow> parseValue n src maxDepth depth i l \<noteq> Ok r"
    using parse_sound(1) [of n src maxDepth depth i l "fst r" "snd r"] reads_bounds by fastforce
  show "length src \<le> skip_to src i \<Longrightarrow> arrayLoop n src maxDepth depth ci count i l \<noteq> Ok r"
    using parse_sound(2) [of n src maxDepth depth ci count "skip_to src i" l "fst r" "snd r"] reads_loop_bounds(1)
    by (fastforce simp: loop_skip)
  show "length src \<le> skip_to src i \<Longrightarrow> objectLoop n src maxDepth depth ci count i l \<noteq> Ok r"
    using parse_sound(3) [of n src maxDepth depth ci count "skip_to src i" l "fst r" "snd r"] reads_loop_bounds(2)
    by (fastforce simp: loop_skip)
qed

locale document_walker =
  fixes run :: "bytes \<Rightarrow> nat \<Rightarrow> ('e, 'a) outcome" and pos :: "'a \<Rightarrow> nat" and maxDepth :: nat
  assumes run_tracks: "i < length src \<Longrightarrow>
    \<exists>n\<ge>value_fuel src i. tracks pos (run src i) (parseValue n src maxDepth 0 i None)"
begin

lemma run_total: "i < length src \<Longrightarrow> run src i \<noteq> NoFuel"
  using run_tracks [of i src] parse_fuel(1) [of src i] by (auto dest: tracks_NoFuel)

lemma run_sound: "i < length src \<Longrightarrow> run src i = Ok x \<Longrightarrow> reads_value src maxDepth 0 i (pos x)"
  using run_tracks [of i src] by (auto dest: parse_sound(1))

lemma run_complete:
  assumes "drop i src = render t @ rest" "wf t" "value_stop rest" "nesting t \<le> maxDepth"
  obtains x where "run src i = Ok x" "pos x = i + length (render t)"
proof -
  have i: "i < length src" using assms(1) render_first(1) [OF assms(2)] by (cases "i < length src") auto
  then obtain n where n: "value_fuel src i \<le> n" "tracks pos (run src i) (parseValue n src maxDepth 0 i None)"
    using run_tracks [OF i] by auto
  from parse_complete(1) [OF assms(1-3) _ n(1), of 0 maxDepth None] assms(4)
  have p: "parseValue n src maxDepth 0 i None = Ok (i + length (render t), lay t None)" by simp
  with n(2) have "\<exists>x. run src i = Ok x \<and> pos x = i + length (render t)"
    by (cases "run src i") auto
  with that show ?thesis by blast
qed

text \<open>Whole documents.\<close>

lemma document_run:
  assumes "src = w @ render t @ w'" "spaces w" "wf t" "spaces w'" "nesting t \<le> maxDepth"
  obtains x where "run src (skip_to src 0) = Ok x" "pos x = length w + length (render t)"
    "skip_to src 0 = length w" "skip_to src (pos x) = length src"
proof -
  have d: "drop 0 src = w @ render t @ w'" using assms by simp
  note v = skip_to_value [OF d assms(2,3)]
  have stop: "value_stop w'" using assms(4) by (cases w') (auto simp: value_stop_def)
  obtain x where x: "run src (skip_to src 0) = Ok x" "pos x = skip_to src 0 + length (render t)"
    using run_complete [OF v(3) assms(3) stop assms(5)] .
  have "drop (pos x) src = w' @ []" using assms(1) x(2) v(1) by simp
  from drop_skip_to [OF this assms(4)] have "skip_to src (pos x) = length src" using assms(1) x(2) v(1) by simp
  with x v(1) that show ?thesis by simp
qed

lemma document_iff:
  "json_document maxDepth src \<longleftrightarrow> skip_to src 0 < length src
     \<and> (\<exists>x. run src (skip_to src 0) = Ok x \<and> skip_to src (pos x) = length src)"
proof
  assume "json_document maxDepth src"
  then obtain w t w' where t: "src = w @ render t @ w'" "spaces w" "wf t" "spaces w'" "nesting t \<le> maxDepth"
    by (auto simp: json_document_def)
  from document_run [OF t] obtain x where "run src (skip_to src 0) = Ok x" "skip_to src (pos x) = length src"
      "skip_to src 0 = length w" by metis
  moreover have "length w < length src" using t(1) render_first(1) [OF t(3)] by simp
  ultimately show "skip_to src 0 < length src
     \<and> (\<exists>x. run src (skip_to src 0) = Ok x \<and> skip_to src (pos x) = length src)" by auto
next
  assume "skip_to src 0 < length src
     \<and> (\<exists>x. run src (skip_to src 0) = Ok x \<and> skip_to src (pos x) = length src)"
  then show "json_document maxDepth src" by (auto intro: reads_document dest: run_sound)
qed

end

text \<open>The validator meets its own contract.\<close>

interpretation validator: document_walker
  "\<lambda>src i. parseValue (value_fuel src i) src maxDepth 0 i None" fst maxDepth for maxDepth
proof
  fix i :: nat and src :: bytes
  have "tracks fst (parseValue (value_fuel src i) src maxDepth 0 i None) (parseValue (value_fuel src i) src maxDepth 0 i None)"
    by (cases "parseValue (value_fuel src i) src maxDepth 0 i None") auto
  then show "\<exists>n\<ge>value_fuel src i. tracks fst (parseValue (value_fuel src i) src maxDepth 0 i None)
      (parseValue n src maxDepth 0 i None)" by blast
qed

end
