(* ===== verification/Emit.thy ===== *)
theory Emit
  imports Walker
begin

text \<open>
  What the two transforms of the package share: the token copiers of \<^verbatim>\<open>compact.go\<close>, and a reference walker
  that re-emits a document with a given text in front of every element and closing bracket. \<^verbatim>\<open>Compact\<close> is the
  instance whose texts are empty, \<^verbatim>\<open>Indent\<close> the one whose texts are line breaks. The specification is
  \<open>restyle\<close>, which replaces the white space of a syntax tree and keeps its tokens.
\<close>

subsection \<open>Copying tokens\<close>

type_synonym estate = "nat \<times> bytes"

function appendStringLoop :: "bytes \<Rightarrow> bytes \<Rightarrow> nat \<Rightarrow> nat \<Rightarrow> (SyntaxError, estate) outcome" where
  "appendStringLoop dst src start i =
     (let j = scanStringSpecial src i in
      if j \<ge> length src then err_at src (int (length src)) ''unterminated string''
      else
        let i = j; ch = src ! i in
        if ch = ch_quote then Ok (i + 1, dst @ subslice src start (i + 1))
        else if ch = ch_backslash then
          if i + 1 \<ge> length src then err_at src (int (i + 1)) ''unterminated escape sequence''
          else (case validateEscape src (i + 1) of
                  Ok k \<Rightarrow> appendStringLoop dst src start k
                | Fail e \<Rightarrow> Fail e
                | NoFuel \<Rightarrow> NoFuel)
        else if ch < 0x20 then err_at src (int i) ''unescaped control byte in string''
        else (case scanStringUnicodeRun src i of
                (nxt, Some bad) \<Rightarrow> err_at src (int bad) ''invalid UTF-8 in string''
              | (nxt, None) \<Rightarrow> appendStringLoop dst src start nxt))"
  by pat_completeness auto
termination
proof (relation "measure (\<lambda>(dst, src, start, i). length src - i)", simp_all, goal_cases)
  case (1 src i j i2 c k)
  then show ?case
    using scanStringSpecial_props [of src i]
      validateEscape_gt [of src "Suc (scanStringSpecial src i)" k] by simp
next
  case (2 src i j i2 c nxt)
  then have "scanStringUnicodeRun src (scanStringSpecial src i) = (nxt, None)" by metis
  with 2 show ?case
    using scanStringSpecial_props [of src i]
      scanStringUnicodeRun_gt [of "scanStringSpecial src i" src] by (auto simp: isStringSyntax_def)
qed

declare appendStringLoop.simps [simp del]

definition appendJSONStringToken :: "bytes \<Rightarrow> bytes \<Rightarrow> nat \<Rightarrow> (SyntaxError, estate) outcome" where
  "appendJSONStringToken dst src i = appendStringLoop dst src i (i + 1)"

definition appendJSONNumberToken :: "bytes \<Rightarrow> bytes \<Rightarrow> nat \<Rightarrow> (SyntaxError, estate) outcome" where
  "appendJSONNumberToken dst src i =
     bind_outcome (parseNumber src (i, None)) (\<lambda>(e, _). Ok (e, dst @ subslice src i e))"

definition appendLiteral :: "bytes \<Rightarrow> bytes \<Rightarrow> bytes \<Rightarrow> nat \<Rightarrow> (SyntaxError, estate) outcome" where
  "appendLiteral lit dst src i =
     (if \<not> matchStringAt src i lit then err_at src (int i) ''invalid literal''
      else Ok (i + length lit, dst @ lit))"

lemma appendStringLoop_eq:
  "appendStringLoop dst src start i = bind_outcome (parseStringLoop src i) (\<lambda>j. Ok (j, dst @ subslice src start j))"
proof (induction dst src start i rule: appendStringLoop.induct)
  case (1 dst src start i)
  then show ?case
    by (subst appendStringLoop.simps, subst parseStringLoop.simps)
      (auto simp: Let_def split: outcome.splits prod.splits option.splits)
qed

lemma appendJSONStringToken_eq:
  "i < length src \<Longrightarrow> appendJSONStringToken dst src i
     = bind_outcome (string_end src (Suc i)) (\<lambda>j. Ok (j, dst @ subslice src i j))"
  by (simp add: appendJSONStringToken_def appendStringLoop_eq parseStringLoop_reference)

subsection \<open>The reference emitter\<close>

type_synonym emit_fn = "nat \<Rightarrow> nat \<Rightarrow> bytes \<Rightarrow> (SyntaxError, estate) outcome"

definition emitValueStep :: "emit_fn \<Rightarrow> emit_fn \<Rightarrow> bytes \<Rightarrow> nat \<Rightarrow> emit_fn" where
  "emitValueStep elems mems src maxDepth depth i dst =
     (if depth > maxDepth then err_at src (int i) ''maximum nesting depth exceeded''
      else if i \<ge> length src then err_at src (int i) ''expected value''
      else let c = src ! i in
        if c = ch_n then appendLiteral lit_null dst src i
        else if c = ch_t then appendLiteral lit_true dst src i
        else if c = ch_f then appendLiteral lit_false dst src i
        else if c = ch_quote then appendJSONStringToken dst src i
        else if c = ch_lbracket then
          if depth \<ge> maxDepth then err_at src (int i) ''maximum nesting depth exceeded''
          else let i = SkipSpace src (i + 1) in
            if i < length src \<and> src ! i = ch_rbracket then Ok (i + 1, dst @ [ch_lbracket, ch_rbracket])
            else elems (Suc depth) i (dst @ [ch_lbracket])
        else if c = ch_lbrace then
          if depth \<ge> maxDepth then err_at src (int i) ''maximum nesting depth exceeded''
          else let i = SkipSpace src (i + 1) in
            if i < length src \<and> src ! i = ch_rbrace then Ok (i + 1, dst @ [ch_lbrace, ch_rbrace])
            else mems (Suc depth) i (dst @ [ch_lbrace])
        else if c = ch_minus \<or> IsDigit c then appendJSONNumberToken dst src i
        else err_at src (int i) ''unexpected byte while parsing value'')"

definition emitElementsStep :: "emit_fn \<Rightarrow> emit_fn \<Rightarrow> bytes \<Rightarrow> (nat \<Rightarrow> bytes) \<Rightarrow> emit_fn" where
  "emitElementsStep value_fn elems src nl depth i dst =
     bind_outcome (value_fn depth (SkipSpace src i) (dst @ nl depth)) (\<lambda>(i, dst).
       let i = SkipSpace src i in
       if i \<ge> length src then err_at src (int i) ''unterminated array''
       else if src ! i = ch_comma then elems depth (i + 1) (dst @ [ch_comma])
       else if src ! i = ch_rbracket then Ok (i + 1, dst @ nl (depth - 1) @ [ch_rbracket])
       else err_at src (int i) ''expected comma or closing bracket in array'')"

definition emitMembersStep :: "emit_fn \<Rightarrow> emit_fn \<Rightarrow> bytes \<Rightarrow> (nat \<Rightarrow> bytes) \<Rightarrow> bytes \<Rightarrow> emit_fn" where
  "emitMembersStep value_fn mems src nl sp depth i dst =
     (let i = SkipSpace src i in
      if i \<ge> length src \<or> src ! i \<noteq> ch_quote then err_at src (int i) ''expected object key string''
      else bind_outcome (appendJSONStringToken (dst @ nl depth) src i) (\<lambda>(i, dst).
        let i = SkipSpace src i in
        if i \<ge> length src \<or> src ! i \<noteq> ch_colon then err_at src (int i) ''expected colon after object key''
        else bind_outcome (value_fn depth (SkipSpace src (i + 1)) (dst @ ch_colon # sp)) (\<lambda>(i, dst).
          let i = SkipSpace src i in
          if i \<ge> length src then err_at src (int i) ''unterminated object''
          else if src ! i = ch_comma then mems depth (i + 1) (dst @ [ch_comma])
          else if src ! i = ch_rbrace then Ok (i + 1, dst @ nl (depth - 1) @ [ch_rbrace])
          else err_at src (int i) ''expected comma or closing brace in object'')))"

primrec emitters :: "nat \<Rightarrow> (nat \<Rightarrow> bytes) \<Rightarrow> bytes \<Rightarrow> bytes \<Rightarrow> nat \<Rightarrow> emit_fn \<times> emit_fn \<times> emit_fn" where
  "emitters 0 nl sp src maxDepth = ((\<lambda>_ _ _. NoFuel), (\<lambda>_ _ _. NoFuel), (\<lambda>_ _ _. NoFuel))"
| "emitters (Suc n) nl sp src maxDepth =
     (case emitters n nl sp src maxDepth of (value_fn, elems, mems) \<Rightarrow>
        (emitValueStep elems mems src maxDepth,
         emitElementsStep value_fn elems src nl,
         emitMembersStep value_fn mems src nl sp))"

definition emitValue :: "nat \<Rightarrow> (nat \<Rightarrow> bytes) \<Rightarrow> bytes \<Rightarrow> bytes \<Rightarrow> nat \<Rightarrow> emit_fn" where
  "emitValue n nl sp src maxDepth = fst (emitters n nl sp src maxDepth)"

definition emitElements :: "nat \<Rightarrow> (nat \<Rightarrow> bytes) \<Rightarrow> bytes \<Rightarrow> bytes \<Rightarrow> nat \<Rightarrow> emit_fn" where
  "emitElements n nl sp src maxDepth = fst (snd (emitters n nl sp src maxDepth))"

definition emitMembers :: "nat \<Rightarrow> (nat \<Rightarrow> bytes) \<Rightarrow> bytes \<Rightarrow> bytes \<Rightarrow> nat \<Rightarrow> emit_fn" where
  "emitMembers n nl sp src maxDepth = snd (snd (emitters n nl sp src maxDepth))"

lemma emit_0 [simp]:
  "emitValue 0 nl sp src maxDepth depth i dst = NoFuel" "emitElements 0 nl sp src maxDepth depth i dst = NoFuel"
  "emitMembers 0 nl sp src maxDepth depth i dst = NoFuel"
  by (simp_all add: emitValue_def emitElements_def emitMembers_def)

lemma emit_Suc:
  "emitValue (Suc n) nl sp src maxDepth
     = emitValueStep (emitElements n nl sp src maxDepth) (emitMembers n nl sp src maxDepth) src maxDepth"
  "emitElements (Suc n) nl sp src maxDepth
     = emitElementsStep (emitValue n nl sp src maxDepth) (emitElements n nl sp src maxDepth) src nl"
  "emitMembers (Suc n) nl sp src maxDepth
     = emitMembersStep (emitValue n nl sp src maxDepth) (emitMembers n nl sp src maxDepth) src nl sp"
  by (simp_all add: emitValue_def emitElements_def emitMembers_def split: prod.splits)

subsection \<open>The emitter tracks the validator\<close>

lemma appendToken_tracks:
  "tracks fst (appendLiteral lit dst src i) (parseLiteral src lit (i, l))"
  "tracks fst (appendJSONNumberToken dst src i) (parseNumber src (i, l))"
  "i < length src \<Longrightarrow> tracks fst (appendJSONStringToken dst src i) (parseStringValue src (i, l))"
proof -
  show "tracks fst (appendLiteral lit dst src i) (parseLiteral src lit (i, l))"
    by (simp add: appendLiteral_def parseLiteral_def)
  show "tracks fst (appendJSONNumberToken dst src i) (parseNumber src (i, l))"
    by (auto simp: appendJSONNumberToken_def parseNumber_def split: prod.splits)
  show "tracks fst (appendJSONStringToken dst src i) (parseStringValue src (i, l))" if "i < length src"
    using that string_end_fuel [of src "Suc i"]
    by (cases "string_end src (Suc i)") (auto simp: appendJSONStringToken_eq parseStringValue_def parseString_end)
qed

lemma emitElements_tracks:
  assumes V: "\<And>i dst l. tracks fst (V depth i dst) (pv depth i l)"
    and A: "\<And>i dst ci count l. tracks fst (A depth i dst) (al depth ci count i l)"
  shows "tracks fst (emitElementsStep V A src nl depth i dst) (arrayStep pv al src depth ci count i l)"
  unfolding emitElementsStep_def arrayStep_def
  by (rule tracks_bind [OF V]) (auto simp: Let_def A split: prod.splits)

lemma emitMembers_tracks:
  assumes V: "\<And>i dst l. tracks fst (V depth i dst) (pv depth i l)"
    and M: "\<And>i dst ci count l. tracks fst (M depth i dst) (ol depth ci count i l)"
  shows "tracks fst (emitMembersStep V M src nl sp depth i dst) (objectStep pv ol src depth ci count i l)"
proof -
  let ?p = "SkipSpace src i"
  show ?thesis
  proof (cases "?p < length src \<and> src ! ?p = ch_quote")
    case True
    then show ?thesis using string_end_fuel [of src "Suc ?p"]
      by (cases "string_end src (Suc ?p)")
        (auto simp: emitMembersStep_def objectStep_def Let_def appendJSONStringToken_eq parseString_end M
          intro!: tracks_bind [OF V] split: prod.splits)
  next
    case False
    then show ?thesis by (auto simp: emitMembersStep_def objectStep_def Let_def)
  qed
qed

lemma emitValue_tracks:
  assumes A: "\<And>i dst ci count l. tracks fst (A (Suc depth) i dst) (al (Suc depth) ci count i l)"
    and M: "\<And>i dst ci count l. tracks fst (M (Suc depth) i dst) (ol (Suc depth) ci count i l)"
  shows "tracks fst (emitValueStep A M src maxDepth depth i dst) (parseValueStep al ol src maxDepth depth i l)"
  by (auto simp: emitValueStep_def parseValueStep_def Let_def appendToken_tracks parseArray_def parseObject_def A M
      split: prod.splits)

lemma emit_tracks:
  "tracks fst (emitValue n nl sp src maxDepth depth i dst) (parseValue n src maxDepth depth i l)"
  "tracks fst (emitElements n nl sp src maxDepth depth i dst) (arrayLoop n src maxDepth depth ci count i l)"
  "tracks fst (emitMembers n nl sp src maxDepth depth i dst) (objectLoop n src maxDepth depth ci count i l)"
proof (induction n arbitrary: depth i dst ci count l)
  case (Suc n)
  { case 1 show ?case unfolding emit_Suc parseValue_Suc by (intro emitValue_tracks Suc.IH) }
  { case 2 show ?case unfolding emit_Suc arrayLoop_Suc by (intro emitElements_tracks Suc.IH) }
  { case 3 show ?case unfolding emit_Suc objectLoop_Suc by (intro emitMembers_tracks Suc.IH) }
qed simp_all

interpretation emitter: document_walker
  "\<lambda>src i. emitValue (value_fuel src 0) nl sp src maxDepth 0 i dst" fst maxDepth for nl sp maxDepth dst
proof
  fix i :: nat and src :: bytes
  show "\<exists>n\<ge>value_fuel src i. tracks fst (emitValue (value_fuel src 0) nl sp src maxDepth 0 i dst)
      (parseValue n src maxDepth 0 i None)"
    using emit_tracks(1) [of "value_fuel src 0" nl sp src maxDepth 0 i dst None]
    by (intro exI [of _ "value_fuel src 0"]) simp
qed

subsection \<open>What is emitted\<close>

text \<open>The tree with its white space replaced: \<open>nl d\<close> in front of an element at depth \<open>d\<close> and in front of the
  bracket that closes it, \<open>sp\<close> behind a colon, nothing anywhere else.\<close>

primrec restyle :: "(nat \<Rightarrow> bytes) \<Rightarrow> bytes \<Rightarrow> nat \<Rightarrow> cst \<Rightarrow> cst"
  and restyle_elems :: "(nat \<Rightarrow> bytes) \<Rightarrow> bytes \<Rightarrow> nat \<Rightarrow> celems \<Rightarrow> celems"
  and restyle_mems :: "(nat \<Rightarrow> bytes) \<Rightarrow> bytes \<Rightarrow> nat \<Rightarrow> cmems \<Rightarrow> cmems" where
  "restyle nl sp d CNull = CNull"
| "restyle nl sp d CTrue = CTrue"
| "restyle nl sp d CFalse = CFalse"
| "restyle nl sp d (CNum s) = CNum s"
| "restyle nl sp d (CStr s) = CStr s"
| "restyle nl sp d (CArr0 w) = CArr0 []"
| "restyle nl sp d (CArr es) = CArr (restyle_elems nl sp (Suc d) es)"
| "restyle nl sp d (CObj0 w) = CObj0 []"
| "restyle nl sp d (CObj ms) = CObj (restyle_mems nl sp (Suc d) ms)"
| "restyle_elems nl sp d (ELast w v w') = ELast (nl d) (restyle nl sp d v) (nl (d - 1))"
| "restyle_elems nl sp d (EMore w v w' es) = EMore (nl d) (restyle nl sp d v) [] (restyle_elems nl sp d es)"
| "restyle_mems nl sp d (MLast w k a b v w') = MLast (nl d) k [] sp (restyle nl sp d v) (nl (d - 1))"
| "restyle_mems nl sp d (MMore w k a b v w' ms) =
     MMore (nl d) k [] sp (restyle nl sp d v) [] (restyle_mems nl sp d ms)"

lemma emitElementsStep_complete:
  assumes d: "drop i src = w @ render v @ w' @ c # rest" and wf: "spaces w" "wf v" "spaces w'"
    and V: "V depth (i + length w) (dst @ nl depth) = Ok (i + length w + length (render v), out)"
    and c: "c = ch_rbracket \<or> c = ch_comma"
  defines "j \<equiv> i + length w + length (render v) + length w'"
  shows "emitElementsStep V A src nl depth i dst =
    (if c = ch_comma then A depth (Suc j) (out @ [ch_comma]) else Ok (Suc j, out @ nl (depth - 1) @ [ch_rbracket]))"
proof -
  have "\<not> IsJSONWhitespace c" using c by auto
  from elem_turn [OF d wf this] V c show ?thesis
    unfolding j_def by (auto simp: emitElementsStep_def SkipSpace_eq Let_def)
qed

lemma emitMembersStep_complete:
  assumes d: "drop i src = w @ ch_quote # k @ ch_quote # a @ ch_colon # b @ render v @ w' @ c # rest"
    and wf: "spaces w" "json_string k" "spaces a" "spaces b" "wf v" "spaces w'"
    and p: "p = i + length w + length k + length a + length b + 3"
    and V: "V depth p (dst @ nl depth @ ch_quote # k @ ch_quote # ch_colon # sp) = Ok (p + length (render v), out)"
    and c: "c = ch_rbrace \<or> c = ch_comma"
  defines "j \<equiv> p + length (render v) + length w'"
  shows "emitMembersStep V M src nl sp depth i dst =
    (if c = ch_comma then M depth (Suc j) (out @ [ch_comma]) else Ok (Suc j, out @ nl (depth - 1) @ [ch_rbrace]))"
proof -
  have "\<not> IsJSONWhitespace c" using c by auto
  from mem_turn [OF d wf this p] V c show ?thesis
    unfolding j_def by (auto simp: emitMembersStep_def SkipSpace_eq Let_def appendJSONStringToken_eq)
qed

lemma emit_skip:
  "emitElements n nl sp src maxDepth depth (skip_to src i) dst = emitElements n nl sp src maxDepth depth i dst"
  "emitMembers n nl sp src maxDepth depth (skip_to src i) dst = emitMembers n nl sp src maxDepth depth i dst"
  by (cases n; simp add: emit_Suc emitElementsStep_def emitMembersStep_def SkipSpace_eq)+

lemma emit_number:
  assumes "drop i src = s @ rest" "json_number s" "value_stop rest" "depth \<le> maxDepth"
  shows "emitValueStep A M src maxDepth depth i dst = Ok (i + length s, dst @ s)"
proof -
  have f: "s \<noteq> []" "hd s = ch_minus \<or> IsDigit (hd s)" using json_number_first assms(2) by auto
  then have i: "i < length src" "src ! i = hd s"
    using assms(1) by (cases s; auto dest: drop_eq_ConsD)+
  with number_first_byte [OF f(2)] have "emitValueStep A M src maxDepth depth i dst = appendJSONNumberToken dst src i"
    using f(2) assms(4) by (simp add: emitValueStep_def)
  then show ?thesis
    by (simp add: appendJSONNumberToken_def parseNumber_def slice_of_drop [OF assms(1)]
        scanNumber_complete [OF assms(1,2) value_stop_num [OF assms(3)]])
qed

lemma emit_literal:
  assumes "drop i src = render t @ rest" "t \<in> {CNull, CTrue, CFalse}" "depth \<le> maxDepth"
  shows "emitValueStep A M src maxDepth depth i dst = Ok (i + length (render t), dst @ render t)"
proof -
  have "matchStringAt src i (render t)" using assms by (intro matchStringAt_drop [THEN iffD2]) auto
  moreover have "i < length src" "src ! i = hd (render t)"
    using drop_eq_ConsD [of i src "hd (render t)" "tl (render t) @ rest"] assms(1,2) by auto
  ultimately show ?thesis using assms(2,3) by (cases t) (simp_all add: emitValueStep_def appendLiteral_def)
qed

lemmas emit_literals = emit_literal [where t = CNull, simplified] emit_literal [where t = CTrue, simplified]
  emit_literal [where t = CFalse, simplified]

lemma emit_string:
  assumes "drop i src = ch_quote # raw @ ch_quote # rest" "json_string raw" "depth \<le> maxDepth"
  shows "emitValueStep A M src maxDepth depth i dst = Ok (i + length raw + 2, dst @ ch_quote # raw @ [ch_quote])"
proof -
  obtain dec where "jchars raw dec" using assms(2) by (auto simp: json_string_def)
  moreover have i: "i < length src" "src ! i = ch_quote" "drop (Suc i) src = raw @ ch_quote # rest"
    using assms(1) by (auto dest: drop_eq_ConsD)
  moreover have "subslice src i (i + length raw + 2) = ch_quote # raw @ [ch_quote]"
    using slice_of_drop [of i src "ch_quote # raw @ [ch_quote]" rest] assms(1) by simp
  ultimately show ?thesis using assms(3)
    by (simp add: emitValueStep_def appendJSONStringToken_eq string_end_complete)
qed

lemma emit_complete:
  "drop i src = render t @ rest \<Longrightarrow> wf t \<Longrightarrow> value_stop rest \<Longrightarrow> depth + nesting t \<le> maxDepth
     \<Longrightarrow> value_fuel src i \<le> n
     \<Longrightarrow> emitValue n nl sp src maxDepth depth i dst = Ok (i + length (render t), dst @ render (restyle nl sp depth t))"
  "drop i src = render_elems es @ rest \<Longrightarrow> wf_elems es \<Longrightarrow> depth + nesting_elems es \<le> maxDepth
     \<Longrightarrow> loop_fuel src i \<le> n
     \<Longrightarrow> emitElements n nl sp src maxDepth depth i dst
       = Ok (i + length (render_elems es), dst @ render_elems (restyle_elems nl sp depth es))"
  "drop i src = render_mems ms @ rest \<Longrightarrow> wf_mems ms \<Longrightarrow> depth + nesting_mems ms \<le> maxDepth
     \<Longrightarrow> loop_fuel src i \<le> n
     \<Longrightarrow> emitMembers n nl sp src maxDepth depth i dst
       = Ok (i + length (render_mems ms), dst @ render_mems (restyle_mems nl sp depth ms))"
proof (induction t and es and ms arbitrary: i rest depth n dst and i rest depth n dst and i rest depth n dst)
  case (CNum s)
  then obtain m where "n = Suc m" by (cases n) auto
  then show ?case using emit_number [of i src s rest] CNum by (simp add: emit_Suc)
next
  case (CStr s)
  then obtain m where "n = Suc m" by (cases n) auto
  then show ?case using emit_string [of i src s rest] CStr by (simp add: emit_Suc)
next
  case (CArr0 w)
  then obtain m where n: "n = Suc m" by (cases n) auto
  from CArr0 have d: "drop i src = ch_lbracket # w @ ch_rbracket # rest" "spaces w" by simp_all
  from skip_to_token [OF drop_eq_ConsD(3) [OF d(1)] d(2)] drop_eq_ConsD [OF d(1)] CArr0 n show ?case
    by (simp add: emit_Suc emitValueStep_def SkipSpace_eq)
next
  case (CObj0 w)
  then obtain m where n: "n = Suc m" by (cases n) auto
  from CObj0 have d: "drop i src = ch_lbrace # w @ ch_rbrace # rest" "spaces w" by simp_all
  from skip_to_token [OF drop_eq_ConsD(3) [OF d(1)] d(2)] drop_eq_ConsD [OF d(1)] CObj0 n show ?case
    by (simp add: emit_Suc emitValueStep_def SkipSpace_eq)
next
  case (CArr es)
  then obtain m where n: "n = Suc m" by (cases n) auto
  from CArr have d: "drop i src = ch_lbracket # render_elems es @ rest" by simp
  note d' = drop_eq_ConsD [OF d]
  have "loop_fuel src (Suc i) \<le> m" using CArr.prems(5) n d'(1) by linarith
  with CArr.IH [OF d'(3)] CArr.prems elems_first [OF d'(3)] d' n show ?case
    by (simp add: emit_Suc emitValueStep_def SkipSpace_eq emit_skip)
next
  case (CObj ms)
  then obtain m where n: "n = Suc m" by (cases n) auto
  from CObj have d: "drop i src = ch_lbrace # render_mems ms @ rest" by simp
  note d' = drop_eq_ConsD [OF d]
  have "loop_fuel src (Suc i) \<le> m" using CObj.prems(5) n d'(1) by linarith
  with CObj.IH [OF d'(3)] CObj.prems mems_first [OF d'(3)] d' n show ?case
    by (simp add: emit_Suc emitValueStep_def SkipSpace_eq emit_skip)
next
  case (ELast w v w')
  then obtain m where n: "n = Suc m" by (cases n) auto
  from ELast.prems have d: "drop i src = w @ render v @ w' @ ch_rbracket # rest" and wf: "spaces w" "wf v" "spaces w'"
    by simp_all
  note turn = elem_turn [OF d wf]
  have "value_fuel src (i + length w) \<le> m" using ELast.prems(4) n by linarith
  then have "emitValue m nl sp src maxDepth depth (i + length w) (dst @ nl depth)
      = Ok (i + length w + length (render v), (dst @ nl depth) @ render (restyle nl sp depth v))"
    using ELast.prems turn by (intro ELast.IH) (auto intro: value_stop_spaces)
  from emitElementsStep_complete [where V = "emitValue m nl sp src maxDepth" and nl = nl, OF d wf this] n show ?case
    by (simp add: emit_Suc)
next
  case (EMore w v w' es)
  then obtain m where n: "n = Suc m" by (cases n) auto
  from EMore.prems have d: "drop i src = w @ render v @ w' @ ch_comma # (render_elems es @ rest)"
    and wf: "spaces w" "wf v" "spaces w'" by simp_all
  note turn = elem_turn [OF d wf, simplified]
  have "value_fuel src (i + length w) \<le> m" using EMore.prems(4) n by linarith
  then have pv: "emitValue m nl sp src maxDepth depth (i + length w) (dst @ nl depth)
      = Ok (i + length w + length (render v), (dst @ nl depth) @ render (restyle nl sp depth v))"
    using EMore.prems turn by (intro EMore.IH(1)) (auto intro: value_stop_spaces)
  have "loop_fuel src (Suc (i + length w + length (render v) + length w')) \<le> m" using EMore.prems(4) n turn(4) by linarith
  note IH = EMore.IH(2) [OF turn(6) _ _ this]
  from emitElementsStep_complete [where V = "emitValue m nl sp src maxDepth" and nl = nl, OF d wf pv] EMore.prems n IH show ?case
    by (simp add: emit_Suc)
next
  case (MLast w k a b v w')
  then obtain m where n: "n = Suc m" by (cases n) auto
  let ?p = "i + length w + length k + length a + length b + 3"
  from MLast.prems have d: "drop i src = w @ ch_quote # k @ ch_quote # a @ ch_colon # b @ render v @ w' @ ch_rbrace # rest"
    and wf: "spaces w" "json_string k" "spaces a" "spaces b" "wf v" "spaces w'" by simp_all
  note turn = mem_turn [OF d wf closers_not_space(3) refl]
  have "value_fuel src ?p \<le> m" using MLast.prems(4) n by linarith
  then have "emitValue m nl sp src maxDepth depth ?p (dst @ nl depth @ ch_quote # k @ ch_quote # ch_colon # sp)
      = Ok (?p + length (render v), (dst @ nl depth @ ch_quote # k @ ch_quote # ch_colon # sp) @ render (restyle nl sp depth v))"
    using MLast.prems turn(8) by (intro MLast.IH) (auto intro: value_stop_spaces)
  from emitMembersStep_complete [where V = "emitValue m nl sp src maxDepth" and nl = nl, OF d wf refl this] n show ?case
    by (simp add: emit_Suc)
next
  case (MMore w k a b v w' ms)
  then obtain m where n: "n = Suc m" by (cases n) auto
  let ?p = "i + length w + length k + length a + length b + 3"
  from MMore.prems have d: "drop i src = w @ ch_quote # k @ ch_quote # a @ ch_colon # b @ render v @ w' @ ch_comma # (render_mems ms @ rest)"
    and wf: "spaces w" "json_string k" "spaces a" "spaces b" "wf v" "spaces w'" by simp_all
  note turn = mem_turn [OF d wf closers_not_space(1) refl]
  have "value_fuel src ?p \<le> m" using MMore.prems(4) n by linarith
  then have pv: "emitValue m nl sp src maxDepth depth ?p (dst @ nl depth @ ch_quote # k @ ch_quote # ch_colon # sp)
      = Ok (?p + length (render v), (dst @ nl depth @ ch_quote # k @ ch_quote # ch_colon # sp) @ render (restyle nl sp depth v))"
    using MMore.prems turn(8) by (intro MMore.IH(1)) (auto intro: value_stop_spaces)
  have "loop_fuel src (Suc (?p + length (render v) + length w')) \<le> m" using MMore.prems(4) n turn(10) by linarith
  note IH = MMore.IH(2) [OF turn(12) _ _ this]
  from emitMembersStep_complete [where V = "emitValue m nl sp src maxDepth" and nl = nl, OF d wf refl pv] MMore.prems n IH show ?case
    by (simp add: emit_Suc)
qed (auto simp: emit_Suc dest!: Suc_le_D intro: emit_literals)

lemma restyle_wf:
  assumes "\<And>d. spaces (nl d)" "spaces sp"
  shows "wf t \<Longrightarrow> wf (restyle nl sp d t)" "wf_elems es \<Longrightarrow> wf_elems (restyle_elems nl sp d es)"
    "wf_mems ms \<Longrightarrow> wf_mems (restyle_mems nl sp d ms)"
  by (induction t and es and ms arbitrary: d and d and d) (auto simp: assms)

lemma restyle_nesting:
  "nesting (restyle nl sp d t) = nesting t" "nesting_elems (restyle_elems nl sp d es) = nesting_elems es"
  "nesting_mems (restyle_mems nl sp d ms) = nesting_mems ms"
  by (induction t and es and ms arbitrary: d and d and d) auto

lemma restyle_restyle:
  "restyle nl sp d (restyle nl' sp' d' t) = restyle nl sp d t"
  "restyle_elems nl sp d (restyle_elems nl' sp' d' es) = restyle_elems nl sp d es"
  "restyle_mems nl sp d (restyle_mems nl' sp' d' ms) = restyle_mems nl sp d ms"
  by (induction t and es and ms arbitrary: d d' and d d' and d d') auto

text \<open>A document's text, and what the emitter makes of it.\<close>

definition document_of :: "nat \<Rightarrow> bytes \<Rightarrow> bytes \<Rightarrow> cst \<Rightarrow> bytes \<Rightarrow> bool" where
  "document_of maxDepth src w t w' \<longleftrightarrow> src = w @ render t @ w' \<and> spaces w \<and> wf t \<and> spaces w' \<and> nesting t \<le> maxDepth"

lemma json_document_iff: "json_document maxDepth src \<longleftrightarrow> (\<exists>w t w'. document_of maxDepth src w t w')"
  by (simp add: json_document_def document_of_def)

lemma emit_document:
  assumes "document_of maxDepth src w t w'"
  shows "emitValue (value_fuel src 0) nl sp src maxDepth 0 (skip_to src 0) dst
      = Ok (length w + length (render t), dst @ render (restyle nl sp 0 t))"
    "skip_to src (length w + length (render t)) = length src" "skip_to src 0 < length src"
proof -
  have t: "src = w @ render t @ w'" "spaces w" "wf t" "spaces w'" "nesting t \<le> maxDepth"
    using assms by (simp_all add: document_of_def)
  have d: "drop 0 src = w @ render t @ w'" using t(1) by simp
  note v = skip_to_value [OF d t(2,3)]
  have stop: "value_stop w'" using t(4) by (cases w') (auto simp: value_stop_def)
  have "value_fuel src (skip_to src 0) \<le> value_fuel src 0" by simp
  from emit_complete(1) [OF v(3) t(3) stop _ this, of 0 maxDepth] t(5) v(1)
  show "emitValue (value_fuel src 0) nl sp src maxDepth 0 (skip_to src 0) dst
      = Ok (length w + length (render t), dst @ render (restyle nl sp 0 t))" by simp
  have "drop (length w + length (render t)) src = w' @ []" using t(1) by simp
  from drop_skip_to [OF this t(4)] show "skip_to src (length w + length (render t)) = length src"
    using t(1) by simp
  show "skip_to src 0 < length src" by (rule v(2))
qed

lemma emit_reject:
  assumes "\<not> json_document maxDepth src" "emitValue (value_fuel src 0) nl sp src maxDepth 0 (skip_to src 0) dst = Ok (j, out)"
  shows "skip_to src j \<noteq> length src"
proof -
  have "skip_to src 0 < length src"
    using assms(2) emit_tracks(1) [of "value_fuel src 0" nl sp src maxDepth 0 "skip_to src 0" dst None]
      parse_end(1) [of src "skip_to src 0" "value_fuel src 0" maxDepth 0 None] by (metis fst_conv linorder_not_less tracks_simps(1))
  with assms show ?thesis using emitter.document_iff [of maxDepth src nl sp dst] by fastforce
qed

lemma emit_total: "emitValue (value_fuel src 0) nl sp src maxDepth 0 (skip_to src 0) dst \<noteq> NoFuel"
  using emit_tracks(1) [of "value_fuel src 0" nl sp src maxDepth 0 "skip_to src 0" dst None]
    parse_fuel(1) [of src "skip_to src 0" "value_fuel src 0" maxDepth 0 None] by (auto dest: tracks_NoFuel)

end
