(* ===== verification/Compact.thy ===== *)
theory Compact
  imports Emit
begin

text \<open>
  \<^verbatim>\<open>compact.go\<close>: the validating walk that re-emits a document without insignificant white space. The
  receiver's \<^verbatim>\<open>i\<close> and \<^verbatim>\<open>dst\<close> are the state that is passed on; a failing call reports the error together with
  the destination it was given.
\<close>

definition compactArray :: "emit_fn \<Rightarrow> bytes \<Rightarrow> nat \<Rightarrow> emit_fn" where
  "compactArray loop src maxDepth depth i dst =
     (if depth > maxDepth then err_at src (int i) ''maximum nesting depth exceeded''
      else let i = i + 1; dst = dst @ [ch_lbracket]; i = SkipSpace src i in
        if i < length src \<and> src ! i = ch_rbracket then Ok (i + 1, dst @ [ch_rbracket])
        else loop depth i dst)"

definition compactObject :: "emit_fn \<Rightarrow> bytes \<Rightarrow> nat \<Rightarrow> emit_fn" where
  "compactObject loop src maxDepth depth i dst =
     (if depth > maxDepth then err_at src (int i) ''maximum nesting depth exceeded''
      else let i = i + 1; dst = dst @ [ch_lbrace]; i = SkipSpace src i in
        if i < length src \<and> src ! i = ch_rbrace then Ok (i + 1, dst @ [ch_rbrace])
        else loop depth i dst)"

definition compactValueStep :: "emit_fn \<Rightarrow> emit_fn \<Rightarrow> bytes \<Rightarrow> nat \<Rightarrow> emit_fn" where
  "compactValueStep elems mems src maxDepth depth i dst =
     (if depth > maxDepth then err_at src (int i) ''maximum nesting depth exceeded''
      else if i \<ge> length src then err_at src (int i) ''expected value''
      else let c = src ! i in
        if c = ch_n then appendLiteral lit_null dst src i
        else if c = ch_t then appendLiteral lit_true dst src i
        else if c = ch_f then appendLiteral lit_false dst src i
        else if c = ch_quote then appendJSONStringToken dst src i
        else if c = ch_lbracket then compactArray elems src maxDepth (depth + 1) i dst
        else if c = ch_lbrace then compactObject mems src maxDepth (depth + 1) i dst
        else if c = ch_minus \<or> IsDigit c then appendJSONNumberToken dst src i
        else err_at src (int i) ''unexpected byte while parsing value'')"

definition compactElementsStep :: "emit_fn \<Rightarrow> emit_fn \<Rightarrow> bytes \<Rightarrow> emit_fn" where
  "compactElementsStep value_fn elems src depth i dst =
     bind_outcome (value_fn depth (SkipSpace src i) dst) (\<lambda>(i, dst).
       let i = SkipSpace src i in
       if i \<ge> length src then err_at src (int i) ''unterminated array''
       else if src ! i = ch_comma then elems depth (i + 1) (dst @ [ch_comma])
       else if src ! i = ch_rbracket then Ok (i + 1, dst @ [ch_rbracket])
       else err_at src (int i) ''expected comma or closing bracket in array'')"

definition compactMembersStep :: "emit_fn \<Rightarrow> emit_fn \<Rightarrow> bytes \<Rightarrow> emit_fn" where
  "compactMembersStep value_fn mems src depth i dst =
     (let i = SkipSpace src i in
      if i \<ge> length src \<or> src ! i \<noteq> ch_quote then err_at src (int i) ''expected object key string''
      else bind_outcome (appendJSONStringToken dst src i) (\<lambda>(i, dst).
        let i = SkipSpace src i in
        if i \<ge> length src \<or> src ! i \<noteq> ch_colon then err_at src (int i) ''expected colon after object key''
        else bind_outcome (value_fn depth (SkipSpace src (i + 1)) (dst @ [ch_colon])) (\<lambda>(i, dst).
          let i = SkipSpace src i in
          if i \<ge> length src then err_at src (int i) ''unterminated object''
          else if src ! i = ch_comma then mems depth (i + 1) (dst @ [ch_comma])
          else if src ! i = ch_rbrace then Ok (i + 1, dst @ [ch_rbrace])
          else err_at src (int i) ''expected comma or closing brace in object'')))"

primrec compactWalkers :: "nat \<Rightarrow> bytes \<Rightarrow> nat \<Rightarrow> emit_fn \<times> emit_fn \<times> emit_fn" where
  "compactWalkers 0 src maxDepth = ((\<lambda>_ _ _. NoFuel), (\<lambda>_ _ _. NoFuel), (\<lambda>_ _ _. NoFuel))"
| "compactWalkers (Suc n) src maxDepth =
     (case compactWalkers n src maxDepth of (value_fn, elems, mems) \<Rightarrow>
        (compactValueStep elems mems src maxDepth,
         compactElementsStep value_fn elems src,
         compactMembersStep value_fn mems src))"

definition compactValue :: "nat \<Rightarrow> bytes \<Rightarrow> nat \<Rightarrow> emit_fn" where
  "compactValue n src maxDepth = fst (compactWalkers n src maxDepth)"

text \<open>\<^verbatim>\<open>Fail (err, dst)\<close> is the Go result \<^verbatim>\<open>(dst, err)\<close>; the shortcut returns the three literals as they are.\<close>

definition appendCompactLimit :: "bytes \<Rightarrow> bytes \<Rightarrow> nat \<Rightarrow> (SyntaxError \<times> bytes, bytes) outcome" where
  "appendCompactLimit dst src maxDepth =
     (if length src = 4 \<and> (src = lit_null \<or> src = lit_true) \<or> length src = 5 \<and> src = lit_false
      then Ok (dst @ src)
      else case compactValue (value_fuel src 0) src maxDepth 0 (SkipSpace src 0) dst of
          NoFuel \<Rightarrow> NoFuel
        | Fail err \<Rightarrow> Fail (err, dst)
        | Ok (i, out) \<Rightarrow>
            let i = SkipSpace src i in
            if i \<noteq> length src
            then Fail (syntaxError src (int i) ''unexpected data after top-level value'', dst)
            else Ok out)"

definition appendCompact :: "bytes \<Rightarrow> bytes \<Rightarrow> int \<Rightarrow> (SyntaxError \<times> bytes, bytes) outcome" where
  "appendCompact dst src maxDepth = appendCompactLimit dst src (maxDepthOrDefault maxDepth)"

definition AppendCompact :: "bytes \<Rightarrow> bytes \<Rightarrow> (SyntaxError \<times> bytes, bytes) outcome" where
  "AppendCompact dst src = appendCompact dst src (int DefaultMaxDepth)"

definition Compact :: "bytes \<Rightarrow> (SyntaxError \<times> bytes, bytes) outcome" where
  "Compact src = AppendCompact [] src"

subsection \<open>The walk is the emitter without texts\<close>

lemma compactWalkers_emit: "compactWalkers n src maxDepth = emitters n (\<lambda>_. []) [] src maxDepth"
proof (induction n)
  case (Suc n)
  have "compactValueStep = emitValueStep"
    by (intro ext) (simp add: compactValueStep_def emitValueStep_def compactArray_def compactObject_def Let_def)
  moreover have "compactElementsStep v e src = emitElementsStep v e src (\<lambda>_. [])" for v e
    by (intro ext) (unfold compactElementsStep_def emitElementsStep_def append_Nil append_Nil2, rule refl)
  moreover have "compactMembersStep v m src = emitMembersStep v m src (\<lambda>_. []) []" for v m
    by (intro ext) (unfold compactMembersStep_def emitMembersStep_def append_Nil append_Nil2, rule refl)
  ultimately show ?case using Suc by (simp split: prod.splits)
qed simp

definition squeezed :: "cst \<Rightarrow> bytes" where
  "squeezed t = render (restyle (\<lambda>_. []) [] 0 t)"

lemma compactValue_emit: "compactValue n src maxDepth = emitValue n (\<lambda>_. []) [] src maxDepth"
  by (simp add: compactValue_def emitValue_def compactWalkers_emit)

lemma emit_squeezed:
  assumes "document_of maxDepth src w t w'"
  shows "\<exists>j. emitValue (value_fuel src 0) (\<lambda>_. []) [] src maxDepth 0 (skip_to src 0) dst = Ok (j, dst @ squeezed t)
    \<and> skip_to src j = length src"
  using emit_document [OF assms] by (auto simp: squeezed_def)

lemma literal_documents:
  "document_of maxDepth lit_null [] CNull []" "document_of maxDepth lit_true [] CTrue []"
  "document_of maxDepth lit_false [] CFalse []"
  by (simp_all add: document_of_def)

lemma squeezed_unique:
  assumes "document_of maxDepth src w t w'" "document_of maxDepth src v s v'"
  shows "squeezed t = squeezed s"
  using emit_squeezed [OF assms(1), of "[]"] emit_squeezed [OF assms(2), of "[]"] by auto

lemma appendCompactLimit_document:
  assumes "document_of maxDepth src w t w'"
  shows "appendCompactLimit dst src maxDepth = Ok (dst @ squeezed t)"
proof -
  have "squeezed t = src" if "src = lit_null \<or> src = lit_true \<or> src = lit_false"
    using that assms squeezed_unique [OF _ literal_documents(1)] squeezed_unique [OF _ literal_documents(2)]
      squeezed_unique [OF _ literal_documents(3)] by (auto simp: squeezed_def)
  with emit_squeezed [OF assms, of dst] show ?thesis
    by (auto simp: appendCompactLimit_def compactValue_emit SkipSpace_eq Let_def)
qed

lemma appendCompactLimit_reject:
  assumes "\<not> json_document maxDepth src"
  shows "\<exists>err. appendCompactLimit dst src maxDepth = Fail (err, dst)"
proof -
  have "\<not> (src = lit_null \<or> src = lit_true \<or> src = lit_false)"
    using assms literal_documents unfolding json_document_iff by metis
  with emit_total [of src "\<lambda>_. []" "[]" maxDepth dst] emit_reject [OF assms, of "\<lambda>_. []" "[]" dst] show ?thesis
    by (cases "emitValue (value_fuel src 0) (\<lambda>_. []) [] src maxDepth 0 (skip_to src 0) dst")
      (auto simp: appendCompactLimit_def compactValue_emit SkipSpace_eq Let_def)
qed

lemma squeezed_document:
  assumes "document_of maxDepth src w t w'"
  shows "document_of maxDepth (squeezed t) [] (restyle (\<lambda>_. []) [] 0 t) []"
  using assms by (simp add: document_of_def squeezed_def restyle_wf restyle_nesting)

lemma appendCompact_cases:
  "(\<exists>w t w'. document_of (maxDepthOrDefault d) src w t w' \<and> appendCompact dst src d = Ok (dst @ squeezed t))
   \<or> \<not> json_document (maxDepthOrDefault d) src \<and> (\<exists>err. appendCompact dst src d = Fail (err, dst))"
  using appendCompactLimit_document appendCompactLimit_reject unfolding appendCompact_def json_document_iff by metis

text \<open>C4: Compaction accepts exactly what the validator accepts. It appends to the destination the rendering of the
  document with all insignificant white space gone and every token (number spellings, escapes) kept
  byte for byte; on any other input it returns an error and the destination as it was.\<close>

theorem appendCompact_correct:
  "(case appendCompact dst src d of
      Ok out \<Rightarrow> \<exists>w t w'. document_of (maxDepthOrDefault d) src w t w'
        \<and> out = dst @ render (restyle (\<lambda>_. []) [] 0 t)
    | Fail (err, out) \<Rightarrow> \<not> json_document (maxDepthOrDefault d) src \<and> out = dst
    | NoFuel \<Rightarrow> False)"
  using appendCompact_cases [of d src dst] unfolding squeezed_def by (elim disjE; clarsimp; blast)

text \<open>Compaction is idempotent: compacting the output of a successful compaction succeeds and changes nothing.\<close>

theorem Compact_idempotent:
  assumes "Compact src = Ok out"
  shows "Compact out = Ok out"
proof -
  have md: "Compact s = appendCompactLimit [] s DefaultMaxDepth" for s
    by (simp add: Compact_def AppendCompact_def appendCompact_def maxDepthOrDefault_def DefaultMaxDepth_def)
  obtain w t w' where t: "document_of DefaultMaxDepth src w t w'"
    using assms appendCompactLimit_reject [of DefaultMaxDepth src "[]"] by (auto simp: md json_document_iff)
  with assms have out: "out = squeezed t" by (simp add: md appendCompactLimit_document)
  from appendCompactLimit_document [OF squeezed_document [OF t], of "[]"] show ?thesis
    by (simp add: md out squeezed_def restyle_restyle)
qed

theorem Compact_idempotent_witness:
  "Compact [ch_lbracket, 0x6E, 0x75, 0x6C, 0x6C, ch_rbracket] = Ok [ch_lbracket, 0x6E, 0x75, 0x6C, 0x6C, ch_rbracket]"
proof (rule Compact_idempotent)
  let ?t = "CArr (ELast [ch_space] CNull [ch_lf])"
  have "document_of DefaultMaxDepth [ch_lbracket, ch_space, 0x6E, 0x75, 0x6C, 0x6C, ch_lf, ch_rbracket] [] ?t []"
    by (simp add: document_of_def DefaultMaxDepth_def IsJSONWhitespace_def)
  from appendCompactLimit_document [OF this, of "[]"]
  show "Compact [ch_lbracket, ch_space, 0x6E, 0x75, 0x6C, 0x6C, ch_lf, ch_rbracket]
      = Ok [ch_lbracket, 0x6E, 0x75, 0x6C, 0x6C, ch_rbracket]"
    by (simp add: Compact_def AppendCompact_def appendCompact_def maxDepthOrDefault_def DefaultMaxDepth_def squeezed_def)
qed

end
