(* ===== verification/Indent.thy ===== *)
theory Indent
  imports Compact
begin

text \<open>
  \<^verbatim>\<open>indent.go\<close>: the validating walk that re-emits a document with a line break, a prefix and an indentation in
  front of every element. White space behind the document is copied. The methods of \<^verbatim>\<open>indentParser\<close> pass on
  \<^verbatim>\<open>i\<close> and \<^verbatim>\<open>dst\<close>.
\<close>

text \<open>The loop of \<^verbatim>\<open>newline\<close>: \<open>depth\<close> copies of the indentation.\<close>

fun indentCopies :: "bytes \<Rightarrow> nat \<Rightarrow> bytes \<Rightarrow> bytes" where
  "indentCopies indent 0 dst = dst"
| "indentCopies indent (Suc k) dst = indentCopies indent k (dst @ indent)"

definition newline :: "bytes \<Rightarrow> bytes \<Rightarrow> nat \<Rightarrow> bytes \<Rightarrow> bytes" where
  "newline prefix indent depth dst =
     (let dst = dst @ [ch_lf]; dst = dst @ prefix in
      if indent \<noteq> [] then indentCopies indent depth dst else dst)"

definition indentArray :: "emit_fn \<Rightarrow> bytes \<Rightarrow> nat \<Rightarrow> emit_fn" where
  "indentArray loop src maxDepth depth i dst =
     (if depth \<ge> maxDepth then err_at src (int i) ''maximum nesting depth exceeded''
      else let i = i + 1; dst = dst @ [ch_lbracket]; i = SkipSpace src i in
        if i < length src \<and> src ! i = ch_rbracket then Ok (i + 1, dst @ [ch_rbracket])
        else loop depth i dst)"

definition indentObject :: "emit_fn \<Rightarrow> bytes \<Rightarrow> nat \<Rightarrow> emit_fn" where
  "indentObject loop src maxDepth depth i dst =
     (if depth \<ge> maxDepth then err_at src (int i) ''maximum nesting depth exceeded''
      else let i = i + 1; dst = dst @ [ch_lbrace]; i = SkipSpace src i in
        if i < length src \<and> src ! i = ch_rbrace then Ok (i + 1, dst @ [ch_rbrace])
        else loop depth i dst)"

definition indentValueStep :: "emit_fn \<Rightarrow> emit_fn \<Rightarrow> bytes \<Rightarrow> nat \<Rightarrow> emit_fn" where
  "indentValueStep elems mems src maxDepth depth i dst =
     (if depth > maxDepth then err_at src (int i) ''maximum nesting depth exceeded''
      else if i \<ge> length src then err_at src (int i) ''expected value''
      else let c = src ! i in
        if c = ch_n then appendLiteral lit_null dst src i
        else if c = ch_t then appendLiteral lit_true dst src i
        else if c = ch_f then appendLiteral lit_false dst src i
        else if c = ch_quote then appendJSONStringToken dst src i
        else if c = ch_lbracket then indentArray elems src maxDepth depth i dst
        else if c = ch_lbrace then indentObject mems src maxDepth depth i dst
        else if c = ch_minus \<or> IsDigit c then appendJSONNumberToken dst src i
        else err_at src (int i) ''unexpected byte while parsing value'')"

text \<open>The loops of \<^verbatim>\<open>array\<close> and \<^verbatim>\<open>object\<close>; \<open>depth\<close> is the depth of the container.\<close>

definition indentElementsStep :: "emit_fn \<Rightarrow> emit_fn \<Rightarrow> bytes \<Rightarrow> bytes \<Rightarrow> bytes \<Rightarrow> emit_fn" where
  "indentElementsStep value_fn elems src prefix indent depth i dst =
     (let dst = newline prefix indent (depth + 1) dst in
      bind_outcome (value_fn (depth + 1) (SkipSpace src i) dst) (\<lambda>(i, dst).
       let i = SkipSpace src i in
       if i \<ge> length src then err_at src (int i) ''unterminated array''
       else if src ! i = ch_comma then elems depth (i + 1) (dst @ [ch_comma])
       else if src ! i = ch_rbracket then Ok (i + 1, newline prefix indent depth dst @ [ch_rbracket])
       else err_at src (int i) ''expected comma or closing bracket in array''))"

definition indentMembersStep :: "emit_fn \<Rightarrow> emit_fn \<Rightarrow> bytes \<Rightarrow> bytes \<Rightarrow> bytes \<Rightarrow> emit_fn" where
  "indentMembersStep value_fn mems src prefix indent depth i dst =
     (let dst = newline prefix indent (depth + 1) dst; i = SkipSpace src i in
      if i \<ge> length src \<or> src ! i \<noteq> ch_quote then err_at src (int i) ''expected object key string''
      else bind_outcome (appendJSONStringToken dst src i) (\<lambda>(i, dst).
        let i = SkipSpace src i in
        if i \<ge> length src \<or> src ! i \<noteq> ch_colon then err_at src (int i) ''expected colon after object key''
        else bind_outcome (value_fn (depth + 1) (SkipSpace src (i + 1)) (dst @ [ch_colon, ch_space])) (\<lambda>(i, dst).
          let i = SkipSpace src i in
          if i \<ge> length src then err_at src (int i) ''unterminated object''
          else if src ! i = ch_comma then mems depth (i + 1) (dst @ [ch_comma])
          else if src ! i = ch_rbrace then Ok (i + 1, newline prefix indent depth dst @ [ch_rbrace])
          else err_at src (int i) ''expected comma or closing brace in object'')))"

primrec indentWalkers :: "nat \<Rightarrow> bytes \<Rightarrow> bytes \<Rightarrow> bytes \<Rightarrow> nat \<Rightarrow> emit_fn \<times> emit_fn \<times> emit_fn" where
  "indentWalkers 0 prefix indent src maxDepth = ((\<lambda>_ _ _. NoFuel), (\<lambda>_ _ _. NoFuel), (\<lambda>_ _ _. NoFuel))"
| "indentWalkers (Suc n) prefix indent src maxDepth =
     (case indentWalkers n prefix indent src maxDepth of (value_fn, elems, mems) \<Rightarrow>
        (indentValueStep elems mems src maxDepth,
         indentElementsStep value_fn elems src prefix indent,
         indentMembersStep value_fn mems src prefix indent))"

definition indentValue :: "nat \<Rightarrow> bytes \<Rightarrow> bytes \<Rightarrow> bytes \<Rightarrow> nat \<Rightarrow> emit_fn" where
  "indentValue n prefix indent src maxDepth = fst (indentWalkers n prefix indent src maxDepth)"

definition appendIndentBytes :: "bytes \<Rightarrow> bytes \<Rightarrow> bytes \<Rightarrow> bytes \<Rightarrow> int \<Rightarrow> (SyntaxError \<times> bytes, bytes) outcome" where
  "appendIndentBytes dst src prefix indent maxDepth =
     (let maxDepth = maxDepthOrDefault maxDepth in
      case indentValue (value_fuel src 0) prefix indent src maxDepth 0 (SkipSpace src 0) dst of
          NoFuel \<Rightarrow> NoFuel
        | Fail err \<Rightarrow> Fail (err, dst)
        | Ok (trailing, out) \<Rightarrow>
            let i = SkipSpace src trailing in
            if i \<noteq> length src
            then Fail (syntaxError src (int i) ''unexpected data after top-level value'', dst)
            else Ok (if trailing \<noteq> i then out @ subslice src trailing i else out))"

subsection \<open>The walk is the emitter with line breaks\<close>

definition line_break :: "bytes \<Rightarrow> bytes \<Rightarrow> nat \<Rightarrow> bytes" where
  "line_break prefix indent d = ch_lf # prefix @ concat (replicate d indent)"

lemma indentCopies_eq: "indentCopies indent k dst = dst @ concat (replicate k indent)"
  by (induction k arbitrary: dst) simp_all

lemma newline_eq: "newline prefix indent depth dst = dst @ line_break prefix indent depth"
  by (auto simp: newline_def line_break_def indentCopies_eq Let_def concat_eq_Nil_conv [THEN iffD2])

text \<open>The emitter's loops count the depth of the elements, the indenter's that of the container.\<close>

lemma indentWalkers_emit:
  fixes prefix indent
  defines "nl \<equiv> line_break prefix indent"
  shows "fst (indentWalkers n prefix indent src maxDepth) = emitValue n nl [ch_space] src maxDepth
   \<and> fst (snd (indentWalkers n prefix indent src maxDepth)) = (\<lambda>depth. emitElements n nl [ch_space] src maxDepth (Suc depth))
   \<and> snd (snd (indentWalkers n prefix indent src maxDepth)) = (\<lambda>depth. emitMembers n nl [ch_space] src maxDepth (Suc depth))"
proof (induction n)
  case 0
  show ?case by (auto simp: emitValue_def emitElements_def emitMembers_def)
next
  case (Suc n)
  have "indentValueStep (\<lambda>depth. A (Suc depth)) (\<lambda>depth. M (Suc depth)) src maxDepth = emitValueStep A M src maxDepth" for A M
    by (intro ext) (simp add: indentValueStep_def emitValueStep_def indentArray_def indentObject_def Let_def)
  moreover have "indentElementsStep V (\<lambda>depth. A (Suc depth)) src prefix indent
      = (\<lambda>depth. emitElementsStep V A src nl (Suc depth))" for V A
    by (intro ext) (simp add: indentElementsStep_def emitElementsStep_def newline_eq nl_def Let_def cong: if_cong)
  moreover have "indentMembersStep V (\<lambda>depth. M (Suc depth)) src prefix indent
      = (\<lambda>depth. emitMembersStep V M src nl [ch_space] (Suc depth))" for V M
    by (intro ext) (simp add: indentMembersStep_def emitMembersStep_def newline_eq nl_def Let_def cong: if_cong)
  ultimately show ?case using Suc by (auto simp: emit_Suc split: prod.splits)
qed

lemma indentValue_emit:
  "indentValue n prefix indent src maxDepth = emitValue n (line_break prefix indent) [ch_space] src maxDepth"
  by (simp add: indentValue_def indentWalkers_emit)

lemma appendIndent_document:
  assumes "document_of (maxDepthOrDefault d) src w t w'"
  shows "appendIndentBytes dst src prefix indent d
    = Ok (dst @ render (restyle (line_break prefix indent) [ch_space] 0 t) @ w')"
proof -
  note e = emit_document(1) [OF assms, of "line_break prefix indent" "[ch_space]" dst] emit_document(2) [OF assms]
  have src: "src = w @ render t @ w'" using assms by (simp add: document_of_def)
  have "subslice src (length w + length (render t)) (length src) = w'"
    using src by (simp add: subslice_def)
  moreover have "length w + length (render t) = length src \<longleftrightarrow> w' = []" using src by simp
  ultimately show ?thesis using e
    by (simp add: appendIndentBytes_def indentValue_emit SkipSpace_eq)
qed

lemma appendIndent_reject:
  assumes "\<not> json_document (maxDepthOrDefault d) src"
  shows "\<exists>err. appendIndentBytes dst src prefix indent d = Fail (err, dst)"
  using emit_total [of src "line_break prefix indent" "[ch_space]" "maxDepthOrDefault d" dst]
    emit_reject [OF assms, of "line_break prefix indent" "[ch_space]" dst]
  by (cases "emitValue (value_fuel src 0) (line_break prefix indent) [ch_space] src (maxDepthOrDefault d) 0 (skip_to src 0) dst")
    (auto simp: appendIndentBytes_def indentValue_emit SkipSpace_eq Let_def)

lemma spaces_line_break: "spaces prefix \<Longrightarrow> spaces indent \<Longrightarrow> spaces (line_break prefix indent d)"
  by (induction d) (auto simp: line_break_def IsJSONWhitespace_def)

text \<open>C5: Indentation accepts exactly what the validator accepts. It appends the rendering of the document in which every
  element starts on a line of its own, behind the prefix and one indentation per level, every colon is followed
  by a space, the tokens are untouched, and the white space behind the document is kept; on any other input it
  returns an error and the destination as it was.\<close>

theorem appendIndentBytes_correct:
  "(case appendIndentBytes dst src prefix indent d of
      Ok out \<Rightarrow> \<exists>w t w'. document_of (maxDepthOrDefault d) src w t w'
        \<and> out = dst @ render (restyle (line_break prefix indent) [ch_space] 0 t) @ w'
    | Fail (err, out) \<Rightarrow> \<not> json_document (maxDepthOrDefault d) src \<and> out = dst
    | NoFuel \<Rightarrow> False)"
proof (cases "json_document (maxDepthOrDefault d) src")
  case True
  then obtain w t w' where t: "document_of (maxDepthOrDefault d) src w t w'" by (auto simp: json_document_iff)
  with appendIndent_document [OF t, of dst prefix indent] show ?thesis by auto
next
  case False
  with appendIndent_reject [OF False, of dst prefix indent] show ?thesis by auto
qed

text \<open>C6: With a prefix and an indentation of white space, indenting does not change what a document compacts to: the
  indented text is again a document, and compacting it gives the compaction of the original.\<close>

theorem Compact_after_indent:
  assumes "spaces prefix" "spaces indent" "appendIndentBytes [] src prefix indent 0 = Ok out"
  shows "Compact out = Compact src"
proof -
  have md: "Compact s = appendCompactLimit [] s DefaultMaxDepth" for s
    by (simp add: Compact_def AppendCompact_def appendCompact_def maxDepthOrDefault_def DefaultMaxDepth_def)
  have d0: "maxDepthOrDefault 0 = DefaultMaxDepth" by (simp add: maxDepthOrDefault_def)
  obtain w t w' where t: "document_of DefaultMaxDepth src w t w'"
    using assms(3) appendIndent_reject [of 0 src "[]" prefix indent] by (auto simp: d0 json_document_iff)
  let ?t = "restyle (line_break prefix indent) [ch_space] 0 t"
  have "document_of DefaultMaxDepth out [] ?t w'"
    using t assms appendIndent_document [of 0 src w t w' "[]" prefix indent]
    by (simp add: d0 document_of_def restyle_wf restyle_nesting spaces_line_break IsJSONWhitespace_def)
  from appendCompactLimit_document [OF this] appendCompactLimit_document [OF t] show ?thesis
    by (simp add: md squeezed_def restyle_restyle)
qed

theorem Compact_after_indent_witness:
  "Compact [ch_lbracket, ch_lf, ch_tab, ch_1, ch_lf, ch_rbracket] = Compact [ch_lbracket, ch_1, ch_rbracket]"
proof (rule Compact_after_indent)
  let ?t = "CArr (ELast [] (CNum [ch_1]) [])"
  have "json_number [ch_1]"
    by (intro json_number_def [THEN iffD2] exI [of _ "[]"] exI [of _ "[ch_1]"])
      (simp add: num_int_def num_frac_def num_exp_def isOneNine_def)
  then have "document_of (maxDepthOrDefault 0) [ch_lbracket, ch_1, ch_rbracket] [] ?t []"
    by (simp add: document_of_def maxDepthOrDefault_def DefaultMaxDepth_def)
  from appendIndent_document [OF this, of "[]" "[]" "[ch_tab]"]
  show "appendIndentBytes [] [ch_lbracket, ch_1, ch_rbracket] [] [ch_tab] 0
      = Ok [ch_lbracket, ch_lf, ch_tab, ch_1, ch_lf, ch_rbracket]" by (simp add: line_break_def)
qed (simp_all add: IsJSONWhitespace_def)

end
