(* ===== verification/StringDecode.thy ===== *)
theory StringDecode
  imports StringGrammar
begin

text \<open>
  Decoding string contents: \<^verbatim>\<open>strings_decode.go\<close>, the portable \<^verbatim>\<open>strings_decode_checked_default.go\<close> and
  \<^verbatim>\<open>strings_decode_checked_table.go\<close>. The checked decoder copies unescaped bytes as they are and falls back to
  the raw contents when an escape is malformed. It is compared with \<open>unescape\<close>, which reads one byte or escape
  at a time.
\<close>

subsection \<open>The decoders\<close>

text \<open>\<^verbatim>\<open>bytes.IndexByte(raw[i:], c)\<close>; \<open>None\<close> is \<^verbatim>\<open>-1\<close>.\<close>

definition indexByte :: "bytes \<Rightarrow> nat \<Rightarrow> byte \<Rightarrow> nat option" where
  "indexByte raw i c =
     (let n = length (takeWhile (\<lambda>b. b \<noteq> c) (drop i raw)) in if i + n < length raw then Some n else None)"

definition decodedSimpleEscapes :: "byte \<Rightarrow> byte" where
  "decodedSimpleEscapes c =
     (if c = ch_quote then ch_quote else if c = ch_backslash then ch_backslash else if c = ch_slash then ch_slash
      else if c = ch_b then 0x08 else if c = ch_f then 0x0C else if c = ch_n then ch_lf
      else if c = ch_r then ch_cr else if c = ch_t then ch_tab else 0)"

definition decodeSimpleEscapeChecked :: "byte \<Rightarrow> byte \<times> bool" where
  "decodeSimpleEscapeChecked c = (let decoded = decodedSimpleEscapes c in (decoded, decoded \<noteq> 0))"

text \<open>One turn of the loop of \<^verbatim>\<open>appendDecodedUnicodeEscapeRun\<close> at a \<^verbatim>\<open>\u\<close>: \<open>Inl\<close> is its failing return, \<open>Inr\<close> the next
  destination and offset.\<close>

definition surrogateTail :: "bytes \<Rightarrow> bytes \<Rightarrow> 16 word \<Rightarrow> nat \<Rightarrow> bytes \<times> nat + bytes \<times> nat" where
  "surrogateTail dst raw u i =
     (if i + 6 > length raw \<or> raw ! i \<noteq> ch_backslash \<or> raw ! (i + 1) \<noteq> ch_u then Inl (dst, i)
      else let a = hexNibbleTable (raw ! (i + 3)); b = hexNibbleTable (raw ! (i + 4)); c = hexNibbleTable (raw ! (i + 5)) in
        if raw ! (i + 2) OR 0x20 \<noteq> 0x64 \<or> a < 0x0C \<or> a OR b OR c \<ge> 0x10 then Inl (dst, i)
        else
          let lo = (0xD000 :: 16 word) OR push_bit 8 (ucast a) OR push_bit 4 (ucast b) OR ucast c;
              r = (0x10000 :: 32 word) + push_bit 10 (ucast u - 0xD800) + ucast lo - 0xDC00
          in Inr (dst @ [0xF0 OR ucast (drop_bit 18 r), 0x80 OR (ucast (drop_bit 12 r) AND 0x3F),
                  0x80 OR (ucast (drop_bit 6 r) AND 0x3F), 0x80 OR (ucast r AND 0x3F)], i + 6))"

definition unicodeEscapeStep :: "bytes \<Rightarrow> bytes \<Rightarrow> nat \<Rightarrow> bytes \<times> nat + bytes \<times> nat" where
  "unicodeEscapeStep dst raw i =
     (let escape = i + 1 in
      if escape + 5 > length raw then Inl (dst, i)
      else
        let hi = raw ! (escape + 3) - ch_0; lo = hexNibbleTable (raw ! (escape + 4));
            zeros = (raw ! (escape + 1) = ch_0 \<and> raw ! (escape + 2) = ch_0) in
        if zeros \<and> hi < 8 \<and> lo < 0x10 then Inr (dst @ [push_bit 4 hi OR lo], escape + 5)
        else if zeros \<and> hexNibbleTable (raw ! (escape + 3)) OR lo \<ge> 0x10 then Inl (dst, i)
        else case hex4 raw (escape + 1) of (u, ok) \<Rightarrow>
          if \<not> ok then Inl (dst, i)
          else let i = escape + 5 in
            if u < 0x0800 then Inr (dst @ [0xC0 OR ucast (drop_bit 6 u), 0x80 OR (ucast u AND 0x3F)], i)
            else if u < 0xD800 then
              Inr (dst @ [0xE0 OR ucast (drop_bit 12 u), 0x80 OR (ucast (drop_bit 6 u) AND 0x3F),
                   0x80 OR (ucast u AND 0x3F)], i)
            else if u \<le> 0xDBFF then surrogateTail dst raw u i
            else if u \<le> 0xDFFF then Inl (dst, i)
            else Inr (dst @ [0xE0 OR ucast (drop_bit 12 u), 0x80 OR (ucast (drop_bit 6 u) AND 0x3F),
                   0x80 OR (ucast u AND 0x3F)], i))"

lemma unicodeEscapeStep_gt: "unicodeEscapeStep dst raw i = Inr (dst', j) \<Longrightarrow> i < j \<and> j \<le> length raw"
  by (auto simp: unicodeEscapeStep_def surrogateTail_def Let_def split: if_splits prod.splits)

function appendDecodedUnicodeEscapeRun :: "bytes \<Rightarrow> bytes \<Rightarrow> nat \<Rightarrow> bytes \<times> nat \<times> bool" where
  "appendDecodedUnicodeEscapeRun dst raw i =
     (if i + 1 < length raw \<and> raw ! i = ch_backslash \<and> raw ! (i + 1) = ch_u then
        (case unicodeEscapeStep dst raw i of
           Inl (dst, i) \<Rightarrow> (dst, i, False)
         | Inr (dst, i) \<Rightarrow> appendDecodedUnicodeEscapeRun dst raw i)
      else (dst, i, True))"
  by pat_completeness auto
termination
  by (relation "measure (\<lambda>(dst, raw, i). length raw - i)") (auto dest!: unicodeEscapeStep_gt sym [of "Inr _"])

declare appendDecodedUnicodeEscapeRun.simps [simp del]

lemma escapeRun_ge: "appendDecodedUnicodeEscapeRun dst raw i = (dst', j, True) \<Longrightarrow> i \<le> j"
proof (induction dst raw i rule: appendDecodedUnicodeEscapeRun.induct)
  case (1 dst raw i)
  show ?case
  proof (cases "i + 1 < length raw \<and> raw ! i = ch_backslash \<and> raw ! (i + 1) = ch_u")
    case True
    with "1.prems" obtain d k where s: "unicodeEscapeStep dst raw i = Inr (d, k)"
        "appendDecodedUnicodeEscapeRun d raw k = (dst', j, True)"
      by (auto simp: appendDecodedUnicodeEscapeRun.simps [of dst raw i] split: sum.splits)
    from "1.IH" [OF True s(1) refl s(2)] unicodeEscapeStep_gt [OF s(1)] show ?thesis by simp
  next
    case False
    with "1.prems" show ?thesis by (auto simp: appendDecodedUnicodeEscapeRun.simps [of dst raw i] split: if_splits)
  qed
qed

lemma escapeRun_gt:
  assumes "i + 1 < length raw" "raw ! i = ch_backslash" "raw ! (i + 1) = ch_u"
    "appendDecodedUnicodeEscapeRun dst raw i = (dst', j, True)"
  shows "i < j"
proof -
  from assms obtain d k where "unicodeEscapeStep dst raw i = Inr (d, k)"
      "appendDecodedUnicodeEscapeRun d raw k = (dst', j, True)"
    by (auto simp: appendDecodedUnicodeEscapeRun.simps [of dst raw i] split: sum.splits)
  then show ?thesis using unicodeEscapeStep_gt [of dst raw i d k] escapeRun_ge [of d raw k dst' j] by simp
qed

text \<open>All the searches of the decoders find the next backslash.\<close>

definition backslashAt :: "bytes \<Rightarrow> nat \<Rightarrow> nat" where
  "backslashAt raw i = scanBytes (\<lambda>b. b = ch_backslash) raw i (length raw)"

lemma indexByte_backslash:
  "i \<le> length raw \<Longrightarrow> indexByte raw i ch_backslash
     = (if backslashAt raw i < length raw then Some (backslashAt raw i - i) else None)"
  by (simp add: indexByte_def backslashAt_def scanBytes_takeWhile)

lemma backslashAt_props:
  assumes "i < length raw"
  shows "i \<le> backslashAt raw i" "backslashAt raw i \<le> length raw"
    "backslashAt raw i < length raw \<Longrightarrow> raw ! backslashAt raw i = ch_backslash"
    "ch_backslash \<notin> set (subslice raw i (backslashAt raw i))"
    "raw ! i \<noteq> ch_backslash \<Longrightarrow> i < backslashAt raw i"
proof -
  have i: "i \<le> length raw" using assms by simp
  note p = scanBytes_props [OF i, where stop = "\<lambda>b. b = ch_backslash" and src = raw, folded backslashAt_def]
  show "i \<le> backslashAt raw i" "backslashAt raw i \<le> length raw"
    "backslashAt raw i < length raw \<Longrightarrow> raw ! backslashAt raw i = ch_backslash" using p by simp_all
  show "ch_backslash \<notin> set (subslice raw i (backslashAt raw i))" using p by (auto simp: in_set_conv_nth slices)
  show "raw ! i \<noteq> ch_backslash \<Longrightarrow> i < backslashAt raw i"
    using p assms by (cases "backslashAt raw i = i") auto
qed

text \<open>The next escape of the dense loop, and whether the runs stay short; \<open>None\<close> when there is none.\<close>

definition denseNext :: "bytes \<Rightarrow> nat \<Rightarrow> bool \<Rightarrow> (nat \<times> bool) option" where
  "denseNext raw i shortRuns =
     (if \<not> shortRuns then map_option (\<lambda>offset. (i + offset, offset < 8)) (indexByte raw i ch_backslash)
      else if length raw - i < 8 then
        (let nxt = backslashAt raw i in if nxt = length raw then None else Some (nxt, True))
      else
        let m = byteEqMask (le64 raw i) ch_backslash in
        if m \<noteq> 0 then Some (i + TrailingZeros64 m div 8, True)
        else map_option (\<lambda>offset. (i + (8 + offset), False)) (indexByte raw (i + 8) ch_backslash))"

lemma denseNext_backslash:
  assumes "i < length raw"
  shows "map_option fst (denseNext raw i shortRuns)
    = (if backslashAt raw i < length raw then Some (backslashAt raw i) else None)"
proof -
  have i: "i \<le> length raw" using assms by simp
  consider "\<not> shortRuns" | "shortRuns" "length raw - i < 8" | "shortRuns" "i + 8 \<le> length raw" by linarith
  then show ?thesis
  proof cases
    case 1
    then show ?thesis using backslashAt_props [OF assms] i by (simp add: denseNext_def indexByte_backslash)
  next
    case 2
    then show ?thesis using backslashAt_props(2) [OF assms] by (simp add: denseNext_def Let_def)
  next
    case 3
    let ?m = "byteEqMask (le64 raw i) ch_backslash"
    show ?thesis
    proof (cases "?m = 0")
      case False
      have "TrailingZeros64 ?m div 8 < 8" using TrailingZeros64_lt [OF False] by simp
      with eqm.word_hit [OF 3(2) order_refl False] 3 False show ?thesis
        by (auto simp: denseNext_def backslashAt_def)
    next
      case True
      have "backslashAt raw (i + 8) = backslashAt raw i"
        using eqm.word_miss [OF 3(2) order_refl True] by (simp add: backslashAt_def)
      moreover have "i + 8 \<le> backslashAt raw (i + 8)"
        using scanBytes_props(1) [OF 3(2)] by (simp add: backslashAt_def)
      ultimately show ?thesis using 3 True by (auto simp: denseNext_def indexByte_backslash)
    qed
  qed
qed

lemma denseNext_cases:
  assumes "i < length raw" "denseNext raw i shortRuns = r"
  shows "r = None \<and> backslashAt raw i = length raw
    \<or> (\<exists>s. r = Some (backslashAt raw i, s) \<and> backslashAt raw i < length raw)"
  using denseNext_backslash [OF assms(1), of shortRuns] backslashAt_props(2) [OF assms(1)] assms(2)
  by (cases r) (auto split: if_splits)

lemma denseNext_gt: "i < length raw \<Longrightarrow> raw ! i \<noteq> ch_backslash \<Longrightarrow> denseNext raw i shortRuns = Some (k, s) \<Longrightarrow> i < k"
  using denseNext_cases [of i raw shortRuns] backslashAt_props(5) [of i raw] by auto

lemma indexByte_gt: "i < length raw \<Longrightarrow> raw ! i \<noteq> ch_backslash \<Longrightarrow> indexByte raw i ch_backslash = Some n \<Longrightarrow> 0 < n"
  using backslashAt_props(5) [of i raw] by (auto simp: indexByte_backslash split: if_splits)

function denseLoop :: "bytes \<Rightarrow> bytes \<Rightarrow> nat \<Rightarrow> nat \<Rightarrow> bool \<Rightarrow> bytes" where
  "denseLoop dst raw start i shortRuns =
     (if i + 1 < length raw then
        if raw ! i \<noteq> ch_backslash then
          (case denseNext raw i shortRuns of
             None \<Rightarrow> dst @ drop i raw
           | Some (nxt, short) \<Rightarrow> denseLoop (dst @ subslice raw i nxt) raw start nxt short)
        else let c = raw ! (i + 1) in
          if c = ch_u then
            (case appendDecodedUnicodeEscapeRun dst raw i of (dst', i', ok) \<Rightarrow>
               if \<not> ok then take start dst' @ raw else denseLoop dst' raw start i' shortRuns)
          else
            (case decodeSimpleEscapeChecked c of (decoded, ok) \<Rightarrow>
               if \<not> ok then take start dst @ raw
               else let dst' = dst @ [decoded]; j = i + 2 in
                 if \<not> shortRuns \<and> j < length raw \<and> raw ! j \<noteq> ch_backslash then
                   (case indexByte raw j ch_backslash of
                      None \<Rightarrow> dst' @ drop j raw
                    | Some offset \<Rightarrow>
                        denseLoop (dst' @ subslice raw j (j + offset)) raw start (j + offset) (offset < 8))
                 else denseLoop dst' raw start j shortRuns)
      else if i = length raw then dst
      else if raw ! i \<noteq> ch_backslash then dst @ drop i raw
      else take start dst @ raw)"
  by pat_completeness auto
termination
proof (relation "measure (\<lambda>(dst, raw, start, i, shortRuns). length raw - i)", simp_all, goal_cases)
  case (1 raw i shortRuns x2 nxt short)
  then show ?case using denseNext_gt [of i raw shortRuns nxt short] by auto
next
  case (2 dst raw i x dst' y i' ya)
  then have "appendDecodedUnicodeEscapeRun dst raw i = (dst', i', True)" by metis
  with 2 escapeRun_gt [of i raw dst dst' i'] show ?case by simp
next
  case 3
  then show ?case by linarith
qed

declare denseLoop.simps [simp del]

definition appendDecodedJSONStringDense :: "bytes \<Rightarrow> bytes \<Rightarrow> nat \<Rightarrow> nat \<Rightarrow> bytes" where
  "appendDecodedJSONStringDense dst raw start i = denseLoop dst raw start i True"

text \<open>The main loop of \<^verbatim>\<open>AppendDecodedJSONString\<close>.\<close>

function decodeLoop :: "bytes \<Rightarrow> bytes \<Rightarrow> nat \<Rightarrow> nat \<Rightarrow> bytes" where
  "decodeLoop dst raw start i =
     (if i < length raw then
        if raw ! i \<noteq> ch_backslash then
          (case indexByte raw i ch_backslash of
             None \<Rightarrow> dst @ drop i raw
           | Some offset \<Rightarrow>
               let dst' = dst @ subslice raw i (i + offset); j = i + offset in
               if offset < 8 then appendDecodedJSONStringDense dst' raw start j
               else decodeLoop dst' raw start j)
        else if i + 1 \<ge> length raw then take start dst @ raw
        else if raw ! (i + 1) = ch_u then
          (case appendDecodedUnicodeEscapeRun dst raw i of (dst', i', ok) \<Rightarrow>
             if \<not> ok then take start dst' @ raw else decodeLoop dst' raw start i')
        else
          (case decodeSimpleEscapeChecked (raw ! (i + 1)) of (decoded, ok) \<Rightarrow>
             if \<not> ok then take start dst @ raw else decodeLoop (dst @ [decoded]) raw start (i + 2))
      else dst)"
  by pat_completeness auto
termination
proof (relation "measure (\<lambda>(dst, raw, start, i). length raw - i)", simp_all, goal_cases)
  case (1 dst raw i dst' y i' ya)
  then have "appendDecodedUnicodeEscapeRun dst raw i = (dst', i', True)" by metis
  with 1 escapeRun_gt [of i raw dst dst' i'] show ?case by simp
qed

declare decodeLoop.simps [simp del]

definition AppendDecodedJSONString :: "bytes \<Rightarrow> bytes \<Rightarrow> bytes" where
  "AppendDecodedJSONString dst raw =
     (if raw = [] then dst
      else
        let start = length dst;
            first = (\<lambda>dst i.
              if i + 1 \<ge> length raw then take start dst @ raw
              else if raw ! (i + 1) = ch_u then
                (case appendDecodedUnicodeEscapeRun dst raw i of (dst', i', ok) \<Rightarrow>
                   if \<not> ok then take start dst' @ raw else decodeLoop dst' raw start i')
              else
                (case decodeSimpleEscapeChecked (raw ! (i + 1)) of (decoded, ok) \<Rightarrow>
                   if \<not> ok then take start dst @ raw else decodeLoop (dst @ [decoded]) raw start (i + 2)))
        in
        if raw ! 0 \<noteq> ch_backslash then
          (case indexByte raw 1 ch_backslash of
             None \<Rightarrow> dst @ raw
           | Some offset \<Rightarrow>
               let i = offset + 1; dst = dst @ take i raw in
               if i < 8 then appendDecodedJSONStringDense dst raw start i else first dst i)
        else first dst 0)"

subsection \<open>The reference\<close>

definition escape_unit :: "bytes \<Rightarrow> (bytes \<times> nat) option" where
  "escape_unit s =
     (if length s < 2 then None
      else if s ! 1 = ch_u then
        (case hexnum (take 4 (drop 2 s)) of
           None \<Rightarrow> None
         | Some n \<Rightarrow>
             if high_surrogate n then
               if take 2 (drop 6 s) = [ch_backslash, ch_u] then
                 (case hexnum (take 4 (drop 8 s)) of
                    None \<Rightarrow> None
                  | Some m \<Rightarrow>
                      if low_surrogate m
                      then Some (encodeRune (word_of_nat (0x10000 + (n - 0xD800) * 0x400 + (m - 0xDC00))), 12)
                      else None)
               else None
             else if low_surrogate n then None
             else Some (encodeRune (word_of_nat n), 6))
      else map_option (\<lambda>d. ([d], 2)) (simple_escape (s ! 1)))"

function unescape :: "bytes \<Rightarrow> bytes option" where
  "unescape s =
     (if s = [] then Some []
      else if hd s \<noteq> ch_backslash then map_option (Cons (hd s)) (unescape (tl s))
      else case escape_unit s of
          None \<Rightarrow> None
        | Some (d, n) \<Rightarrow> map_option ((@) d) (unescape (drop n s)))"
  by pat_completeness auto
termination
  by (relation "measure length")
    (auto simp: escape_unit_def split: if_splits option.splits)

declare unescape.simps [simp del]

subsection \<open>Encodings written out\<close>

lemma unat_rune [simp]: "unat (ucast (u :: 16 word) :: rune) = unat u"
  using unsigned_less [of u, where 'a = nat] by (simp add: unsigned_ucast_eq take_bit_eq_mod)

lemma ucast_shift:
  fixes u :: "16 word"
  shows "(ucast (drop_bit k (ucast u :: rune)) :: byte) = ucast (drop_bit k u)" "(ucast (ucast u :: rune) :: byte) = ucast u"
  by (rule bit_word_eqI; auto simp: bit_simps dest: bit_imp_le_length)+

lemma encodeRune_1:
  assumes "r \<le> 0x7F"
  shows "encodeRune r = [ucast r]"
  using assms by (auto simp: encodeRune_def Let_def word_le_nat_alt word_less_nat_alt)

lemma encodeRune_2:
  assumes "0x80 \<le> u" "(u :: 16 word) < 0x0800"
  shows "encodeRune (ucast u) = [0xC0 OR ucast (drop_bit 6 u), 0x80 OR (ucast u AND 0x3F)]"
  using assms by (simp add: encodeRune_def Let_def ucast_shift word_less_nat_alt word_le_nat_alt)

lemma encodeRune_3:
  assumes "0x0800 \<le> (u :: 16 word)" "u < 0xD800 \<or> 0xDFFF < u"
  shows "encodeRune (ucast u) = [0xE0 OR ucast (drop_bit 12 u), 0x80 OR (ucast (drop_bit 6 u) AND 0x3F),
      0x80 OR (ucast u AND 0x3F)]"
proof -
  have "unat u < 0x10000" using unsigned_less [of u, where 'a = nat] by simp
  with assms show ?thesis
    by (auto simp: encodeRune_def Let_def ucast_shift word_less_nat_alt word_le_nat_alt)
qed

lemma encodeRune_4:
  assumes "0x10000 \<le> r" "r \<le> 0x10FFFF"
  shows "encodeRune r = [0xF0 OR ucast (drop_bit 18 r), 0x80 OR (ucast (drop_bit 12 r) AND 0x3F),
                  0x80 OR (ucast (drop_bit 6 r) AND 0x3F), 0x80 OR (ucast r AND 0x3F)]"
  using assms by (auto simp: encodeRune_def Let_def word_le_nat_alt word_less_nat_alt)

lemma hexval_0: "hexval c = Some 0 \<longleftrightarrow> c = ch_0"
  by (auto simp: hexval_def word_le_nat_alt word_unat_eq_iff split: if_splits)

lemma or_0x20: "(c :: byte) OR 0x20 = 0x64 \<longleftrightarrow> hexval c = Some 13"
proof -
  have "c OR 0x20 = 0x64 \<longleftrightarrow> c = 0x64 \<or> c = 0x44"
    by (auto simp: byte_eq_bits bit_simps bit_numeral_rec)
  also have "\<dots> \<longleftrightarrow> hexval c = Some 13"
    by (auto simp: hexval_def word_le_nat_alt word_unat_eq_iff split: if_splits)
  finally show ?thesis .
qed

text \<open>The four digits at an offset, as the specification and as the table see them.\<close>

lemma digits_at:
  assumes "h + 4 \<le> length raw"
  shows "take 4 (drop h raw) = [raw ! h, raw ! (h + 1), raw ! (h + 2), raw ! (h + 3)]"
  using assms by (simp add: numeral_eq_Suc Cons_nth_drop_Suc [symmetric])

lemma low_digits_at:
  assumes "i + 6 \<le> length raw"
  shows "take 4 (drop (i + 2) raw) = [raw ! (i + 2), raw ! (i + 3), raw ! (i + 4), raw ! (i + 5)]"
  using digits_at [of "i + 2" raw] assms by (simp add: numeral_eq_Suc)

lemma two_at: "h + 2 \<le> length raw \<Longrightarrow> take 2 (drop h raw) = [raw ! h, raw ! (h + 1)]"
  by (simp add: numeral_eq_Suc Cons_nth_drop_Suc [symmetric])

lemma hex4_hexnum:
  "hex4 raw h = (case hexnum (take 4 (drop h raw)) of
     Some n \<Rightarrow> (word_of_nat n, True) | None \<Rightarrow> (fst (hex4 raw h), False))"
proof (cases "hexnum (take 4 (drop h raw))")
  case (Some n)
  have "drop h raw = take 4 (drop h raw) @ drop 4 (drop h raw)" by (simp only: append_take_drop_id)
  from hex4_Some(1) [OF Some this] Some show ?thesis by simp
next
  case None
  have "\<not> snd (hex4 raw h)"
  proof
    assume "snd (hex4 raw h)"
    then obtain ds n where "drop h raw = ds @ drop (h + 4) raw" "length ds = 4" "hexnum ds = Some n" by (rule hex4_ok)
    then have "hexnum (take 4 (drop h raw)) = Some n" by (metis append_eq_conv_conj)
    with None show False by simp
  qed
  with None show ?thesis by (cases "hex4 raw h") simp
qed

lemma hexnum_bound: "hexnum h = Some n \<Longrightarrow> n < 0x10000"
  using hex4_Some(2) [of h n 0 h "[]"] by simp

lemma hexnum_word:
  assumes "hexnum h = Some n"
  shows "unat (word_of_nat n :: 16 word) = n" "(ucast (word_of_nat n :: 16 word) :: rune) = word_of_nat n"
proof -
  show u: "unat (word_of_nat n :: 16 word) = n" using hexnum_bound [OF assms] by (simp add: unat_of_nat)
  show "(ucast (word_of_nat n :: 16 word) :: rune) = word_of_nat n"
    using hexnum_bound [OF assms] u by (simp add: word_unat_eq_iff unat_of_nat)
qed

lemma hexnum_zeros:
  assumes "hexnum [a, b, c, d] = Some n"
  shows "n < 0x80 \<longleftrightarrow> a = ch_0 \<and> b = ch_0 \<and> c - ch_0 < 8"
    "a = ch_0 \<Longrightarrow> b = ch_0 \<Longrightarrow> c - ch_0 < 8 \<Longrightarrow> push_bit 4 (c - ch_0) OR hexNibbleTable d = word_of_nat n"
proof -
  from assms obtain va vb vc vd where v: "hexval a = Some va" "hexval b = Some vb" "hexval c = Some vc" "hexval d = Some vd"
      "n = 4096 * va + 256 * vb + 16 * vc + vd" by (auto simp: hexnum_def split: option.splits)
  have d: "vd < 16" using hexval_lt v by auto
  have c: "c - ch_0 < 8 \<longleftrightarrow> vc < 8" "vc < 8 \<Longrightarrow> c - ch_0 = word_of_nat vc"
    using v(3) by (auto simp: hexval_def word_le_nat_alt word_less_nat_alt word_unat_eq_iff unat_word_ariths unat_of_nat
        unat_sub_if_size split: if_splits)
  show "n < 0x80 \<longleftrightarrow> a = ch_0 \<and> b = ch_0 \<and> c - ch_0 < 8"
    unfolding c hexval_0 [symmetric] v(1,2) using v(5) d by auto
  show "push_bit 4 (c - ch_0) OR hexNibbleTable d = word_of_nat n" if z: "a = ch_0" "b = ch_0" "c - ch_0 < 8"
  proof -
    have "va = 0" "vb = 0" using z v(1,2) hexval_0 by (metis option.inject)+
    moreover have "push_bit 4 (word_of_nat vc) OR word_of_nat vd = (push_bit 4 (word_of_nat vc) + word_of_nat vd :: byte)"
      by (rule disjunctive_add [symmetric]) (use d nibble_bit [of "word_of_nat vd"] in
        \<open>auto simp: bit_simps word_less_nat_alt unat_of_nat not_le\<close>)
    moreover have "vc < 8" using c z by simp
    ultimately show ?thesis using v c hexNibble_Some [OF v(4)] by (simp add: push_bit_eq_mult)
  qed
qed

lemma surrogate_sum:
  assumes "high_surrogate n" "low_surrogate m"
  defines "k \<equiv> 0x10000 + (n - 0xD800) * 0x400 + (m - 0xDC00)"
  shows "(0x10000 :: rune) + push_bit 10 (word_of_nat n - 0xD800) + word_of_nat m - 0xDC00 = word_of_nat k"
    "0x10000 \<le> (word_of_nat k :: rune)" "(word_of_nat k :: rune) \<le> 0x10FFFF"
proof -
  have b: "0xD800 \<le> n" "n \<le> 0xDBFF" "0xDC00 \<le> m" "m \<le> 0xDFFF" using assms by (auto simp: high_surrogate_def low_surrogate_def)
  then have "(word_of_nat k :: rune) = 0x10000 + (word_of_nat n - 0xD800) * 0x400 + (word_of_nat m - 0xDC00)"
    unfolding k_def by (simp add: of_nat_diff)
  then show "(0x10000 :: rune) + push_bit 10 (word_of_nat n - 0xD800) + word_of_nat m - 0xDC00 = word_of_nat k"
    by (simp add: push_bit_eq_mult)
  have kb: "0x10000 \<le> k" "k \<le> 0x10FFFF" unfolding k_def using b by auto
  then have "unat (word_of_nat k :: rune) = k" by (simp add: unat_of_nat)
  with kb show "0x10000 \<le> (word_of_nat k :: rune)" "(word_of_nat k :: rune) \<le> 0x10FFFF"
    by (simp_all add: word_le_nat_alt)
qed

lemma word_of_unat: "unat (x :: 'a :: len word) = n \<Longrightarrow> x = word_of_nat n"
  by auto

lemma low_surrogate_digits:
  assumes "hexval d0 = Some 13" "hexval d1 = Some a" "hexval d2 = Some b" "hexval d3 = Some c"
  shows "hexnum [d0, d1, d2, d3] = Some (0xD000 + 256 * a + 16 * b + c)"
    "low_surrogate (0xD000 + 256 * a + 16 * b + c) \<longleftrightarrow> 12 \<le> a"
    "(0xD000 :: 16 word) OR push_bit 8 (ucast (hexNibbleTable d1)) OR push_bit 4 (ucast (hexNibbleTable d2))
      OR ucast (hexNibbleTable d3) = word_of_nat (0xD000 + 256 * a + 16 * b + c)"
proof -
  note lt = hexval_lt [OF assms(2)] hexval_lt [OF assms(3)] hexval_lt [OF assms(4)]
  show "hexnum [d0, d1, d2, d3] = Some (0xD000 + 256 * a + 16 * b + c)" using assms by (simp add: hexnum_def)
  show "low_surrogate (0xD000 + 256 * a + 16 * b + c) \<longleftrightarrow> 12 \<le> a" using lt by (auto simp: low_surrogate_def)
  have n: "hexNibbleTable d1 < 0x10" "hexNibbleTable d2 < 0x10" "hexNibbleTable d3 < 0x10"
    using assms by (simp_all add: hexNibble_lt)
  from hex4_nibbles [of "0xD :: byte", OF _ n] assms
  have "unat ((0xD000 :: 16 word) OR push_bit 8 (ucast (hexNibbleTable d1)) OR push_bit 4 (ucast (hexNibbleTable d2))
      OR ucast (hexNibbleTable d3)) = 0xD000 + 256 * a + 16 * b + c" by (simp add: hexNibble_unat)
  then show "(0xD000 :: 16 word) OR push_bit 8 (ucast (hexNibbleTable d1)) OR push_bit 4 (ucast (hexNibbleTable d2))
      OR ucast (hexNibbleTable d3) = word_of_nat (0xD000 + 256 * a + 16 * b + c)"
    by (rule word_of_unat)
qed

lemma low_surrogate_first:
  assumes "hexnum [d0, d1, d2, d3] = Some k" "low_surrogate k"
  shows "hexval d0 = Some 13"
proof -
  from assms(1) obtain v0 v1 v2 v3 where v: "hexval d0 = Some v0" "hexval d1 = Some v1" "hexval d2 = Some v2"
      "hexval d3 = Some v3" "k = 4096 * v0 + 256 * v1 + 16 * v2 + v3" by (auto simp: hexnum_def split: option.splits)
  have "v1 < 16" "v2 < 16" "v3 < 16" using v hexval_lt by auto
  with v(5) assms(2) have "v0 = 13" unfolding low_surrogate_def by linarith
  with v(1) show ?thesis by simp
qed

lemma surrogateTail_low:
  assumes "i + 6 \<le> length raw" "raw ! i = ch_backslash" "raw ! (i + 1) = ch_u"
    and d: "hexval (raw ! (i + 2)) = Some 13" "hexval (raw ! (i + 3)) = Some a" "hexval (raw ! (i + 4)) = Some b"
      "hexval (raw ! (i + 5)) = Some c" "12 \<le> a"
    and k: "k = 0xD000 + 256 * a + 16 * b + c" and n: "hexnum h = Some n" "high_surrogate n"
  shows "surrogateTail dst raw (word_of_nat n) i =
    Inr (dst @ encodeRune (word_of_nat (0x10000 + (n - 0xD800) * 0x400 + (k - 0xDC00))), i + 6)"
proof -
  note l = low_surrogate_digits [OF d(1-4), folded k]
  have low: "low_surrogate k" using l(2) d(5) by simp
  note s = surrogate_sum [OF n(2) low]
  have a: "\<not> hexNibbleTable (raw ! (i + 3)) < 0x0C" using hexNibble_unat [OF d(2)] d(5) by (simp add: word_less_nat_alt)
  have o: "\<not> 0x10 \<le> hexNibbleTable (raw ! (i + 3)) OR hexNibbleTable (raw ! (i + 4)) OR hexNibbleTable (raw ! (i + 5))"
    using d by (simp add: not_le nibbles_lt hexNibble_lt)
  have "raw ! (i + 2) OR 0x20 = 0x64" using d(1) or_0x20 by simp
  then show ?thesis
    unfolding surrogateTail_def Let_def l(3) hexnum_word(2) [OF l(1)] hexnum_word(2) [OF n(1)] s(1) encodeRune_4 [OF s(2,3)]
    using assms(2,3) leD [OF assms(1)] a o by (simp only: if_False de_Morgan_disj simp_thms)
qed

lemma surrogateTail_bad:
  assumes "\<not> (i + 6 \<le> length raw \<and> raw ! i = ch_backslash \<and> raw ! (i + 1) = ch_u \<and>
    (\<exists>m. hexnum [raw ! (i + 2), raw ! (i + 3), raw ! (i + 4), raw ! (i + 5)] = Some m \<and> low_surrogate m))"
  shows "surrogateTail dst raw u i = Inl (dst, i)"
proof (rule ccontr)
  assume c: "surrogateTail dst raw u i \<noteq> Inl (dst, i)"
  then have e: "i + 6 \<le> length raw" "raw ! i = ch_backslash" "raw ! (i + 1) = ch_u"
    and g: "raw ! (i + 2) OR 0x20 = 0x64" "\<not> hexNibbleTable (raw ! (i + 3)) < 0x0C"
      "\<not> hexNibbleTable (raw ! (i + 3)) OR hexNibbleTable (raw ! (i + 4)) OR hexNibbleTable (raw ! (i + 5)) \<ge> 0x10"
    unfolding surrogateTail_def Let_def by (metis not_le)+
  from g(3) obtain x y z where v: "hexval (raw ! (i + 3)) = Some x" "hexval (raw ! (i + 4)) = Some y"
      "hexval (raw ! (i + 5)) = Some z" by (auto simp: not_le nibbles_lt hexNibble_lt)
  note l = low_surrogate_digits [OF g(1) [unfolded or_0x20] v]
  have "12 \<le> x" using g(2) hexNibble_unat [OF v(1)] by (simp add: word_less_nat_alt)
  with e l(1,2) assms show False by blast
qed

lemma surrogateTail_reference:
  assumes n: "hexnum h = Some n" "high_surrogate n"
    and m_def: "m = (if take 2 (drop i raw) = [ch_backslash, ch_u] then hexnum (take 4 (drop (i + 2) raw)) else None)"
  shows "surrogateTail dst raw (word_of_nat n) i =
    (case m of
       Some m \<Rightarrow> if low_surrogate m
         then Inr (dst @ encodeRune (word_of_nat (0x10000 + (n - 0xD800) * 0x400 + (m - 0xDC00))), i + 6)
         else Inl (dst, i)
     | None \<Rightarrow> Inl (dst, i))"
proof (cases "i + 6 \<le> length raw \<and> raw ! i = ch_backslash \<and> raw ! (i + 1) = ch_u \<and>
    (\<exists>m. hexnum [raw ! (i + 2), raw ! (i + 3), raw ! (i + 4), raw ! (i + 5)] = Some m \<and> low_surrogate m)")
  case True
  then obtain k where k: "hexnum [raw ! (i + 2), raw ! (i + 3), raw ! (i + 4), raw ! (i + 5)] = Some k" "low_surrogate k"
    and e: "i + 6 \<le> length raw" "raw ! i = ch_backslash" "raw ! (i + 1) = ch_u" by blast
  from k(1) obtain a b c where v: "hexval (raw ! (i + 3)) = Some a" "hexval (raw ! (i + 4)) = Some b"
      "hexval (raw ! (i + 5)) = Some c" by (auto simp: hexnum_def split: option.splits)
  note d = low_surrogate_first [OF k]
  note l = low_surrogate_digits [OF d v]
  have kk: "k = 0xD000 + 256 * a + 16 * b + c" using l(1) k(1) by simp
  have "12 \<le> a" using l(2) k(2) kk by simp
  moreover have "m = Some k" using k(1) e two_at [of i raw] low_digits_at [of i raw] by (simp add: m_def)
  ultimately show ?thesis using surrogateTail_low [OF e d v _ kk n] k(2) by simp
next
  case False
  have none: "\<not> low_surrogate k" if "m = Some k" for k
  proof
    assume "low_surrogate k"
    have h: "take 2 (drop i raw) = [ch_backslash, ch_u]" "hexnum (take 4 (drop (i + 2) raw)) = Some k"
      using that by (auto simp: m_def split: if_splits)
    have "i + 6 \<le> length raw" using hexnum_length [OF h(2)] by simp
    with h two_at [of i raw] low_digits_at [of i raw] \<open>low_surrogate k\<close> False show False by simp
  qed
  show ?thesis using none surrogateTail_bad [OF False] by (simp split: option.splits)
qed

subsection \<open>The checked decoder against the reference\<close>

lemma hexnum_None_step:
  assumes "hexnum [a, b, c, d] = None" "a = ch_0" "b = ch_0"
  shows "\<not> (c - ch_0 < 8 \<and> hexNibbleTable d < 0x10)"
proof
  assume c: "c - ch_0 < 8 \<and> hexNibbleTable d < 0x10"
  then have "unat (c - ch_0) < 8" by (simp add: word_less_nat_alt)
  then have "48 \<le> unat c" "unat c < 56" using unsigned_less [of c, where 'a = nat]
    by (auto simp: unat_sub_if' split: if_splits)
  then have "hexval c \<noteq> None" by (simp add: hexval_def word_le_nat_alt)
  with assms c show False by (auto simp: hexnum_def hexNibble_lt hexval_def split: option.splits)
qed

lemma escape_unit_at:
  assumes "i + 1 < length raw" "raw ! (i + 1) = ch_u"
  shows "escape_unit (drop i raw) = (case hexnum (take 4 (drop (i + 2) raw)) of
      None \<Rightarrow> None
    | Some n \<Rightarrow>
        if high_surrogate n then
          (case (if take 2 (drop (i + 6) raw) = [ch_backslash, ch_u] then hexnum (take 4 (drop (i + 6 + 2) raw)) else None) of
             None \<Rightarrow> None
           | Some m \<Rightarrow>
               if low_surrogate m
               then Some (encodeRune (word_of_nat (0x10000 + (n - 0xD800) * 0x400 + (m - 0xDC00))), 12)
               else None)
        else if low_surrogate n then None
        else Some (encodeRune (word_of_nat n), 6))"
proof -
  have "\<not> length (drop i raw) < 2" "drop i raw ! 1 = ch_u" "drop 2 (drop i raw) = drop (i + 2) raw"
    "drop 6 (drop i raw) = drop (i + 6) raw" "drop 8 (drop i raw) = drop (i + 6 + 2) raw"
    using assms by (simp_all add: add.commute)
  then show ?thesis unfolding escape_unit_def by (simp split: option.split)
qed

lemma unicodeEscapeStep_at:
  assumes "i + 6 \<le> length raw" "raw ! (i + 2) = a" "raw ! (i + 3) = b" "raw ! (i + 4) = c" "raw ! (i + 5) = d"
  shows "unicodeEscapeStep dst raw i =
     (if (a = ch_0 \<and> b = ch_0) \<and> c - ch_0 < 8 \<and> hexNibbleTable d < 0x10
      then Inr (dst @ [push_bit 4 (c - ch_0) OR hexNibbleTable d], i + 6)
      else case hexnum [a, b, c, d] of None \<Rightarrow> Inl (dst, i)
        | Some n \<Rightarrow> let u = word_of_nat n :: 16 word; i = i + 6 in
            if u < 0x0800 then Inr (dst @ [0xC0 OR ucast (drop_bit 6 u), 0x80 OR (ucast u AND 0x3F)], i)
            else if u < 0xD800 then
              Inr (dst @ [0xE0 OR ucast (drop_bit 12 u), 0x80 OR (ucast (drop_bit 6 u) AND 0x3F),
                   0x80 OR (ucast u AND 0x3F)], i)
            else if u \<le> 0xDBFF then surrogateTail dst raw u i
            else if u \<le> 0xDFFF then Inl (dst, i)
            else Inr (dst @ [0xE0 OR ucast (drop_bit 12 u), 0x80 OR (ucast (drop_bit 6 u) AND 0x3F),
                   0x80 OR (ucast u AND 0x3F)], i))"
proof -
  have e: "i + 1 + 1 = i + 2" "i + 1 + 2 = i + 3" "i + 1 + 3 = i + 4" "i + 1 + 4 = i + 5" "i + 1 + 5 = i + 6" by simp_all
  have ds: "take 4 (drop (i + 2) raw) = [a, b, c, d]" using low_digits_at [OF assms(1)] assms by simp
  have bad: "0x10 \<le> hexNibbleTable c OR hexNibbleTable d \<Longrightarrow> hexnum [a, b, c, d] = None"
    by (simp only: not_less [symmetric] nibbles_lt hexNibble_lt) (auto simp: hexnum_def split: option.splits)
  have h: "hexnum [a, b, c, d] = Some n \<Longrightarrow> hex4 raw (i + 2) = (word_of_nat n, True)"
    "hexnum [a, b, c, d] = None \<Longrightarrow> \<not> snd (hex4 raw (i + 2))" for n
    using hex4_hexnum [of raw "i + 2", unfolded ds] by (metis option.simps(5), metis option.simps(4) snd_conv)
  show ?thesis
    unfolding unicodeEscapeStep_def Let_def e assms(2-5) using assms(1) bad h
    by (cases "hexnum [a, b, c, d]"; cases "hex4 raw (i + 2)") auto
qed

lemma encodeRune_units:
  assumes "hexnum h = Some n" "\<not> n < 0x80"
  defines "u \<equiv> word_of_nat n :: 16 word"
  shows "n < 0x0800 \<Longrightarrow> encodeRune (word_of_nat n) = [0xC0 OR ucast (drop_bit 6 u), 0x80 OR (ucast u AND 0x3F)]"
    "\<not> n < 0x0800 \<Longrightarrow> n < 0xD800 \<or> 0xDFFF < n \<Longrightarrow> encodeRune (word_of_nat n) =
      [0xE0 OR ucast (drop_bit 12 u), 0x80 OR (ucast (drop_bit 6 u) AND 0x3F), 0x80 OR (ucast u AND 0x3F)]"
proof -
  note w = hexnum_word [OF assms(1), folded u_def]
  show "n < 0x0800 \<Longrightarrow> encodeRune (word_of_nat n) = [0xC0 OR ucast (drop_bit 6 u), 0x80 OR (ucast u AND 0x3F)]"
    using encodeRune_2 [of u, unfolded w(2)] w(1) assms(2) by (simp add: word_le_nat_alt word_less_nat_alt)
  show "\<not> n < 0x0800 \<Longrightarrow> n < 0xD800 \<or> 0xDFFF < n \<Longrightarrow> encodeRune (word_of_nat n) =
      [0xE0 OR ucast (drop_bit 12 u), 0x80 OR (ucast (drop_bit 6 u) AND 0x3F), 0x80 OR (ucast u AND 0x3F)]"
    using encodeRune_3 [of u, unfolded w(2)] w(1) by (simp add: word_le_nat_alt word_less_nat_alt)
qed

lemma unicodeEscapeStep_reference:
  assumes "i + 1 < length raw" "raw ! (i + 1) = ch_u"
  shows "case escape_unit (drop i raw) of
      None \<Rightarrow> \<exists>k. unicodeEscapeStep dst raw i = Inl (dst, k)
    | Some (d, n) \<Rightarrow> unicodeEscapeStep dst raw i = Inr (dst @ d, i + n)"
proof (cases "i + 6 \<le> length raw")
  case False
  then have "hexnum (take 4 (drop (i + 2) raw)) = None" using hexnum_length by (cases "hexnum (take 4 (drop (i + 2) raw))") fastforce+
  then show ?thesis unfolding escape_unit_at [OF assms] using False by (simp add: unicodeEscapeStep_def)
next
  case True
  obtain a b c d where v: "raw ! (i + 2) = a" "raw ! (i + 3) = b" "raw ! (i + 4) = c" "raw ! (i + 5) = d" by simp
  have ds: "take 4 (drop (i + 2) raw) = [a, b, c, d]" using low_digits_at [OF True] v by simp
  note unfold = escape_unit_at [OF assms] unicodeEscapeStep_at [OF True v] ds
  show ?thesis
  proof (cases "hexnum [a, b, c, d]")
    case None
    then show ?thesis using hexnum_None_step [OF None] unfolding unfold by auto
  next
    case (Some n)
    define u where "u = (word_of_nat n :: 16 word)"
    note w = hexnum_word [OF Some] and z = hexnum_zeros [OF Some]
    have d: "hexNibbleTable d < 0x10" using Some by (auto simp: hexNibble_lt hexnum_def split: option.splits)
    show ?thesis
    proof (cases "n < 0x80")
      case True
      then have "encodeRune (word_of_nat n) = [word_of_nat n]"
        using encodeRune_1 [of "word_of_nat n"]
        by (simp add: word_le_nat_alt unat_of_nat word_unat_eq_iff unsigned_ucast_eq take_bit_eq_mod)
      then show ?thesis using True z d unfolding unfold Some
        by (simp add: high_surrogate_def low_surrogate_def)
    next
      case False
      then have g: "\<not> ((a = ch_0 \<and> b = ch_0) \<and> c - ch_0 < 8 \<and> hexNibbleTable d < 0x10)" using z(1) by blast
      have u: "u < 0x0800 \<longleftrightarrow> n < 0x0800" "u < 0xD800 \<longleftrightarrow> n < 0xD800" "u \<le> 0xDBFF \<longleftrightarrow> n \<le> 0xDBFF" "u \<le> 0xDFFF \<longleftrightarrow> n \<le> 0xDFFF"
        unfolding word_less_nat_alt word_le_nat_alt u_def w by simp_all
      note e = encodeRune_units [OF Some False, folded u_def]
      consider "n < 0x0800" | "\<not> n < 0x0800" "n < 0xD800 \<or> 0xDFFF < n" | "high_surrogate n" | "low_surrogate n"
        unfolding high_surrogate_def low_surrogate_def by linarith
      then show ?thesis
      proof cases
        case 1
        then show ?thesis using g e(1) [OF 1] unfolding unfold Some by (simp add: Let_def u_def [symmetric] u high_surrogate_def low_surrogate_def)
      next
        case 2
        then show ?thesis using g e(2) [OF 2] unfolding unfold Some by (auto simp: Let_def u_def [symmetric] u high_surrogate_def low_surrogate_def)
      next
        case 3
        then have "\<not> n < 0x0800" "\<not> n < 0xD800" "n \<le> 0xDBFF" unfolding high_surrogate_def by simp_all
        with 3 g show ?thesis unfolding unfold Some
          by (simp only: Let_def u_def [symmetric] u if_False if_True option.case)
            (simp add: u_def surrogateTail_reference [OF Some 3 refl] split: option.split)
      next
        case 4
        then have "\<not> n < 0x0800" "\<not> n < 0xD800" "\<not> n \<le> 0xDBFF" "n \<le> 0xDFFF" unfolding low_surrogate_def by simp_all
        with 4 g show ?thesis unfolding unfold Some by (simp add: Let_def u_def [symmetric] u high_surrogate_def)
      qed
    qed
  qed
qed

definition finish :: "bytes \<Rightarrow> nat \<Rightarrow> bytes \<Rightarrow> bytes option \<Rightarrow> bytes" where
  "finish dst start raw r = (case r of Some d \<Rightarrow> dst @ d | None \<Rightarrow> take start dst @ raw)"

lemma finish_simps [simp]:
  "start \<le> length dst \<Longrightarrow> finish (dst @ x) start raw r = finish dst start raw (map_option ((@) x) r)"
  "finish dst start raw None = take start dst @ raw"
  "finish dst start raw (Some d) = dst @ d"
  by (auto simp: finish_def split: option.split)

lemma map_prepend [simp]:
  "map_option ((@) []) r = r"
  "map_option ((@) x) (map_option ((@) y) r) = map_option ((@) (x @ y)) r"
  by (cases r; simp)+

lemma unescape_nil [simp]: "unescape [] = Some []"
  by (simp add: unescape.simps)

lemma unescape_clean: "ch_backslash \<notin> set xs \<Longrightarrow> unescape (xs @ ys) = map_option ((@) xs) (unescape ys)"
proof (induction xs)
  case (Cons x xs)
  then show ?case by (subst unescape.simps) (cases "unescape ys"; simp)
qed simp

lemma unescape_run:
  assumes "i < length raw"
  shows "unescape (drop i raw)
    = map_option ((@) (subslice raw i (backslashAt raw i))) (unescape (drop (backslashAt raw i) raw))"
proof -
  note p = backslashAt_props [OF assms]
  have "drop i raw = subslice raw i (backslashAt raw i) @ drop (backslashAt raw i) raw"
    using p(1) by (rule drop_slice)
  with unescape_clean [OF p(4)] show ?thesis by metis
qed

lemma unescape_escape:
  assumes "i < length raw" "raw ! i = ch_backslash"
  shows "unescape (drop i raw) = (case escape_unit (drop i raw) of
      None \<Rightarrow> None | Some (d, n) \<Rightarrow> map_option ((@) d) (unescape (drop (i + n) raw)))"
  using assms by (subst unescape.simps) (auto simp: hd_drop_conv_nth add.commute split: option.split)

lemma decodeSimple_reference:
  "decodeSimpleEscapeChecked c = (case simple_escape c of Some d \<Rightarrow> (d, True) | None \<Rightarrow> (0, False))"
  by (simp add: decodeSimpleEscapeChecked_def decodedSimpleEscapes_def simple_escape_def)

lemma unescape_simple:
  assumes "i + 1 < length raw" "raw ! i = ch_backslash" "raw ! (i + 1) \<noteq> ch_u"
  shows "unescape (drop i raw) = (case decodeSimpleEscapeChecked (raw ! (i + 1)) of (d, ok) \<Rightarrow>
    if ok then map_option ((@) [d]) (unescape (drop (i + 2) raw)) else None)"
proof -
  have "escape_unit (drop i raw) = map_option (\<lambda>d. ([d], 2)) (simple_escape (raw ! (i + 1)))"
    using assms by (auto simp: escape_unit_def)
  with assms unescape_escape [of i raw] show ?thesis
    by (auto simp: decodeSimple_reference split: option.split)
qed

lemma unescape_lone: "i + 1 = length raw \<Longrightarrow> raw ! i = ch_backslash \<Longrightarrow> unescape (drop i raw) = None"
proof -
  assume a: "i + 1 = length raw" "raw ! i = ch_backslash"
  then have "escape_unit (drop i raw) = None" by (auto simp: escape_unit_def)
  with a unescape_escape [of i raw] show ?thesis by simp
qed

lemma escapeRun_reference:
  assumes "appendDecodedUnicodeEscapeRun dst raw i = (dst', j, ok)" "i \<le> length raw"
  shows "\<exists>x. dst' = dst @ x \<and> unescape (drop i raw) =
    (if ok then map_option ((@) x) (unescape (drop j raw)) else None) \<and> (ok \<longrightarrow> j \<le> length raw)"
  using assms
proof (induction dst raw i rule: appendDecodedUnicodeEscapeRun.induct)
  case (1 dst raw i)
  show ?case
  proof (cases "i + 1 < length raw \<and> raw ! i = ch_backslash \<and> raw ! (i + 1) = ch_u")
    case False
    with "1.prems" show ?thesis by (auto simp: appendDecodedUnicodeEscapeRun.simps [of dst raw i] split: if_splits)
  next
    case True
    then have b: "i < length raw" "i + 1 < length raw" "raw ! i = ch_backslash" "raw ! (i + 1) = ch_u" by auto
    note step = unicodeEscapeStep_reference [OF b(2,4), of dst] and e = unescape_escape [OF b(1,3)]
    show ?thesis
    proof (cases "escape_unit (drop i raw)")
      case None
      with step True "1.prems" e show ?thesis by (auto simp: appendDecodedUnicodeEscapeRun.simps [of dst raw i])
    next
      case (Some dn)
      obtain d n where dn: "dn = (d, n)" by force
      with step Some have s: "unicodeEscapeStep dst raw i = Inr (dst @ d, i + n)" by simp
      with True "1.prems" have r: "appendDecodedUnicodeEscapeRun (dst @ d) raw (i + n) = (dst', j, ok)"
        by (simp add: appendDecodedUnicodeEscapeRun.simps [of dst raw i])
      have "i + n \<le> length raw" using unicodeEscapeStep_gt [OF s] by simp
      from "1.IH" [OF True s refl r this] obtain x where x: "dst' = (dst @ d) @ x" "unescape (drop (i + n) raw) =
          (if ok then map_option ((@) x) (unescape (drop j raw)) else None)" "ok \<longrightarrow> j \<le> length raw" by blast
      then show ?thesis using e Some dn by (intro exI [of _ "d @ x"]) auto
    qed
  qed
qed

lemma escapeRun_finish:
  assumes "appendDecodedUnicodeEscapeRun dst raw i = (dst', j, ok)" "i \<le> length raw" "start \<le> length dst"
  shows "finish dst start raw (unescape (drop i raw))
      = (if ok then finish dst' start raw (unescape (drop j raw)) else take start dst' @ raw)"
    "ok \<Longrightarrow> j \<le> length raw" "start \<le> length dst'"
  using escapeRun_reference [OF assms(1,2)] assms(3) by (auto split: if_splits)

lemma unescape_run_finish:
  assumes "i < length raw" "start \<le> length dst"
  shows "finish dst start raw (unescape (drop i raw)) =
    (if backslashAt raw i < length raw
     then finish (dst @ subslice raw i (backslashAt raw i)) start raw (unescape (drop (backslashAt raw i) raw))
     else dst @ drop i raw)"
  using unescape_run [OF assms(1)] backslashAt_props(1,2) [OF assms(1)] assms(2)
  by (auto simp: subslice_def)

lemma indexByte_finish:
  assumes "i < length raw" "start \<le> length dst"
  shows "finish dst start raw (unescape (drop i raw)) =
    (case indexByte raw i ch_backslash of
       None \<Rightarrow> dst @ drop i raw
     | Some offset \<Rightarrow> finish (dst @ subslice raw i (i + offset)) start raw (unescape (drop (i + offset) raw)))"
proof -
  have e: "i + (backslashAt raw i - i) = backslashAt raw i" using backslashAt_props(1) [OF assms(1)] by simp
  show ?thesis unfolding unescape_run_finish [OF assms] indexByte_backslash [OF less_imp_le [OF assms(1)]]
    by (simp only: e split: if_split) (simp add: e)
qed

lemma indexByte_le: "i \<le> length raw \<Longrightarrow> indexByte raw i c = Some n \<Longrightarrow> i + n \<le> length raw"
  by (auto simp: indexByte_def Let_def split: if_splits)

text \<open>The one turn that both loops share: at a backslash followed by one more byte.\<close>

lemma escape_finish:
  assumes "i + 1 < length raw" "raw ! i = ch_backslash" "start \<le> length dst"
  shows "finish dst start raw (unescape (drop i raw)) =
    (if raw ! (i + 1) = ch_u then
       (case appendDecodedUnicodeEscapeRun dst raw i of (dst', j, ok) \<Rightarrow>
          if ok then finish dst' start raw (unescape (drop j raw)) else take start dst' @ raw)
     else
       (case decodeSimpleEscapeChecked (raw ! (i + 1)) of (d, ok) \<Rightarrow>
          if ok then finish (dst @ [d]) start raw (unescape (drop (i + 2) raw)) else take start dst @ raw))"
proof (cases "raw ! (i + 1) = ch_u")
  case True
  obtain dst' j ok where r: "appendDecodedUnicodeEscapeRun dst raw i = (dst', j, ok)" by (metis prod_cases3)
  show ?thesis using escapeRun_finish(1) [OF r _ assms(3)] assms(1) True r by simp
next
  case False
  then show ?thesis using unescape_simple [OF assms(1,2) False] assms(3) by (auto split: prod.splits)
qed

lemma denseLoop_reference:
  "start \<le> length dst \<Longrightarrow> i \<le> length raw
    \<Longrightarrow> denseLoop dst raw start i shortRuns = finish dst start raw (unescape (drop i raw))"
proof (induction "length raw - i" arbitrary: dst i shortRuns rule: less_induct)
  case less
  note IH = less.hyps and b = less.prems
  note unfold = denseLoop.simps [of dst raw start i shortRuns]
  consider "i = length raw" | "i + 1 = length raw" "raw ! i = ch_backslash" | "i + 1 = length raw" "raw ! i \<noteq> ch_backslash"
    | "i + 1 < length raw" "raw ! i \<noteq> ch_backslash" | "i + 1 < length raw" "raw ! i = ch_backslash"
    using b by linarith
  then show ?case
  proof cases
    case 1
    then show ?thesis by (subst unfold) simp
  next
    case 2
    then show ?thesis using unescape_lone [OF 2] by (simp add: unfold)
  next
    case 3
    then have "unescape (drop i raw) = Some (drop i raw)"
      using unescape_clean [of "drop i raw" "[]"] by (simp add: Cons_nth_drop_Suc [symmetric])
    then show ?thesis using 3 by (simp add: unfold)
  next
    case 4
    then have i: "i < length raw" by simp
    have "denseLoop dst raw start i shortRuns = (if backslashAt raw i < length raw
        then finish (dst @ subslice raw i (backslashAt raw i)) start raw (unescape (drop (backslashAt raw i) raw))
        else dst @ drop i raw)"
    proof (cases "denseNext raw i shortRuns")
      case None
      then show ?thesis using denseNext_cases [OF i None] 4 by (auto simp: unfold)
    next
      case (Some ns)
      with denseNext_cases [OF i Some] obtain s where s: "denseNext raw i shortRuns = Some (backslashAt raw i, s)"
          "backslashAt raw i < length raw" by auto
      then show ?thesis
        using IH [of "backslashAt raw i" "dst @ subslice raw i (backslashAt raw i)" s]
          backslashAt_props(5) [OF i 4(2)] i b 4 by (simp add: unfold)
    qed
    then show ?thesis using unescape_run_finish [OF i b(1)] by simp
  next
    case 5
    show ?thesis
    proof (cases "raw ! (i + 1) = ch_u")
      case True
      obtain dst' j ok where r: "appendDecodedUnicodeEscapeRun dst raw i = (dst', j, ok)" by (metis prod_cases3)
      have "ok \<Longrightarrow> i < j" using escapeRun_gt [OF 5 True] r by simp
      then show ?thesis using escape_finish [OF 5 b(1)] True r 5 b escapeRun_finish(2,3) [OF r b(2,1)] IH [of j dst' shortRuns]
        by (cases ok) (simp_all add: unfold)
    next
      case False
      obtain d ok where r: "decodeSimpleEscapeChecked (raw ! (i + 1)) = (d, ok)" by force
      have j: "i + 2 \<le> length raw" using 5 by simp
      have rec: "denseLoop dst'' raw start k s = finish dst'' start raw (unescape (drop k raw))"
        if "start \<le> length dst''" "i + 2 \<le> k" "k \<le> length raw" for dst'' k s
        using IH [of k dst'' s] that 5 by simp
      have "finish (dst @ [d]) start raw (unescape (drop (i + 2) raw)) =
         (case indexByte raw (i + 2) ch_backslash of
            None \<Rightarrow> (dst @ [d]) @ drop (i + 2) raw
          | Some offset \<Rightarrow> denseLoop ((dst @ [d]) @ subslice raw (i + 2) (i + 2 + offset)) raw start (i + 2 + offset) (offset < 8))"
        if k: "i + 2 < length raw"
        using indexByte_finish [OF k, of start "dst @ [d]"] b(1) indexByte_le [OF j] rec
        by (simp split: option.split)
      then show ?thesis using escape_finish [OF 5 b(1)] False r 5 b rec [of "dst @ [d]" "i + 2" shortRuns] j
        by (auto simp: unfold Let_def split: option.split)
    qed
  qed
qed

lemma decodeLoop_reference:
  "start \<le> length dst \<Longrightarrow> i \<le> length raw \<Longrightarrow> decodeLoop dst raw start i = finish dst start raw (unescape (drop i raw))"
proof (induction "length raw - i" arbitrary: dst i rule: less_induct)
  case less
  note IH = less.hyps and b = less.prems
  note unfold = decodeLoop.simps [of dst raw start i]
  consider "i = length raw" | "i + 1 = length raw" "raw ! i = ch_backslash"
    | "i < length raw" "raw ! i \<noteq> ch_backslash" | "i + 1 < length raw" "raw ! i = ch_backslash"
    using b by linarith
  then show ?case
  proof cases
    case 1
    then show ?thesis by (subst unfold) simp
  next
    case 2
    then show ?thesis using unescape_lone [OF 2] by (simp add: unfold)
  next
    case 3
    note p = backslashAt_props [OF 3(1)]
    have "decodeLoop dst' raw start (backslashAt raw i) = finish dst' start raw (unescape (drop (backslashAt raw i) raw))"
      if "start \<le> length dst'" for dst'
      using IH [of "backslashAt raw i" dst'] that p(2) p(5) [OF 3(2)] 3 by simp
    then show ?thesis using unescape_run_finish [OF 3(1) b(1)] p(1,2) 3 b
      by (simp add: unfold indexByte_backslash Let_def appendDecodedJSONStringDense_def denseLoop_reference)
  next
    case 4
    show ?thesis
    proof (cases "raw ! (i + 1) = ch_u")
      case True
      obtain dst' j ok where r: "appendDecodedUnicodeEscapeRun dst raw i = (dst', j, ok)" by (metis prod_cases3)
      have "ok \<Longrightarrow> i < j" using escapeRun_gt [OF 4 True] r by simp
      then show ?thesis using escape_finish [OF 4 b(1)] True r 4 b escapeRun_finish(2,3) [OF r b(2,1)] IH [of j dst']
        by (cases ok) (simp_all add: unfold)
    next
      case False
      obtain d ok where r: "decodeSimpleEscapeChecked (raw ! (i + 1)) = (d, ok)" by force
      then show ?thesis using escape_finish [OF 4 b(1)] False 4 b IH [of "i + 2" "dst @ [d]"]
        by (simp add: unfold)
    qed
  qed
qed

lemma AppendDecodedJSONString_finish: "AppendDecodedJSONString dst raw = finish dst (length dst) raw (unescape raw)"
proof (cases "raw = []")
  case True
  then show ?thesis by (simp add: AppendDecodedJSONString_def)
next
  case False
  have first: "(if i + 1 \<ge> length raw then take (length dst) dst' @ raw
     else if raw ! (i + 1) = ch_u then
       (case appendDecodedUnicodeEscapeRun dst' raw i of (dst', i', ok) \<Rightarrow>
          if \<not> ok then take (length dst) dst' @ raw else decodeLoop dst' raw (length dst) i')
     else
       (case decodeSimpleEscapeChecked (raw ! (i + 1)) of (decoded, ok) \<Rightarrow>
          if \<not> ok then take (length dst) dst' @ raw else decodeLoop (dst' @ [decoded]) raw (length dst) (i + 2)))
    = finish dst' (length dst) raw (unescape (drop i raw))"
    if i: "i < length raw" "raw ! i = ch_backslash" "length dst \<le> length dst'" for dst' i
    unfolding decodeLoop_reference [OF i(3) less_imp_le [OF i(1)], symmetric]
    by (simp add: decodeLoop.simps [of dst' raw "length dst" i] i)
  show ?thesis
  proof (cases "raw ! 0 = ch_backslash")
    case True
    then show ?thesis using first [of 0 dst] False by (simp add: AppendDecodedJSONString_def Let_def cong: if_cong)
  next
    case c: False
    have len: "0 < length raw" using False by simp
    note p = backslashAt_props [OF len]
    have "backslashAt raw 1 = backslashAt raw 0"
      using False c by (simp add: backslashAt_def scanBytes.simps [of _ raw 0])
    then have idx: "indexByte raw 1 ch_backslash = (if backslashAt raw 0 < length raw then Some (backslashAt raw 0 - 1) else None)"
      using False by (cases raw) (simp_all add: indexByte_backslash)
    have run: "finish dst (length dst) raw (unescape raw) =
        (if backslashAt raw 0 < length raw
         then finish (dst @ take (backslashAt raw 0) raw) (length dst) raw (unescape (drop (backslashAt raw 0) raw))
         else dst @ raw)"
      using unescape_run_finish [OF len, of "length dst" dst] by (simp add: subslice_def)
    show ?thesis
    proof (cases "backslashAt raw 0 < length raw")
      case True
      with first [OF True p(3), of "dst @ take (backslashAt raw 0) raw"] run idx c False p(5)
      show ?thesis
        by (simp add: AppendDecodedJSONString_def Let_def appendDecodedJSONStringDense_def denseLoop_reference cong: if_cong)
    next
      case False
      then show ?thesis using run idx c \<open>raw \<noteq> []\<close> by (simp add: AppendDecodedJSONString_def Let_def)
    qed
  qed
qed

text \<open>C14: decoding appends the meaning of the contents when every escape is legal and the contents as they are otherwise,
  and never touches what the destination held.\<close>

theorem AppendDecodedJSONString_correct:
  "AppendDecodedJSONString dst raw = dst @ (case unescape raw of Some d \<Rightarrow> d | None \<Rightarrow> raw)"
  by (simp add: AppendDecodedJSONString_finish split: option.split)

end
