(* ===== verification/StringTrusted.thy ===== *)
theory StringTrusted
  imports StringDecode
begin

text \<open>
  The decoder for contents that passed the validator, and the map from decoded offsets back to raw ones
  (both in \<^verbatim>\<open>strings_decode.go\<close>). On validated contents the trusted decoder never indexes out of range and
  agrees with the checked one.
\<close>

subsection \<open>The trusted decoder\<close>

definition decodedSimpleEscape :: "byte \<Rightarrow> byte" where
  "decodedSimpleEscape c =
     (if c = ch_b then 0x08 else if c = ch_f then 0x0C else if c = ch_n then ch_lf
      else if c = ch_r then ch_cr else if c = ch_t then ch_tab else c)"

text \<open>\<^verbatim>\<open>appendDecodedJSONStringTrusted\<close>: \<open>None\<close> is the panic of an index out of range.\<close>

function trustedLoop :: "bytes \<Rightarrow> bytes \<Rightarrow> nat \<Rightarrow> bytes option" where
  "trustedLoop dst raw i =
     (if i < length raw then
        if raw ! i \<noteq> ch_backslash then
          (case indexByte raw i ch_backslash of
             None \<Rightarrow> Some (dst @ drop i raw)
           | Some j \<Rightarrow> trustedLoop (dst @ subslice raw i (i + j)) raw (i + j))
        else let i = i + 1 in
          if i \<ge> length raw then None
          else if raw ! i \<noteq> ch_u then trustedLoop (dst @ [decodedSimpleEscape (raw ! i)]) raw (i + 1)
          else
            let u = fst (hex4 raw (i + 1)); i = i + 5; r = ucast u :: rune in
            if 0xD800 \<le> r \<and> r \<le> 0xDBFF then
              let lo = fst (hex4 raw (i + 2)) in
              trustedLoop (AppendRune dst (utf16DecodeRune r (ucast lo))) raw (i + 6)
            else trustedLoop (AppendRune dst r) raw i
      else Some dst)"
  by pat_completeness auto
termination
proof (relation "measure (\<lambda>(dst, raw, i). length raw - i)", simp_all, goal_cases)
  case (1 raw i n)
  then show ?case using indexByte_gt [of i raw n] by simp
qed

declare trustedLoop.simps [simp del]

definition appendDecodedJSONStringTrusted :: "bytes \<Rightarrow> bytes \<Rightarrow> bytes option" where
  "appendDecodedJSONStringTrusted dst raw = trustedLoop dst raw 0"

text \<open>\<^verbatim>\<open>utf8.RuneLen\<close>.\<close>

definition RuneLen :: "rune \<Rightarrow> int" where
  "RuneLen r = (if r \<le> 0x7F then 1 else if r \<le> 0x7FF then 2 else if 0xD800 \<le> r \<and> r \<le> 0xDFFF then - 1
     else if r \<le> 0xFFFF then 3 else if r \<le> 0x10FFFF then 4 else - 1)"

function rawOffsetLoop :: "bytes \<Rightarrow> int \<Rightarrow> nat \<Rightarrow> int \<Rightarrow> nat option" where
  "rawOffsetLoop raw decodedOffset i decoded =
     (if i < length raw then
        if raw ! i \<noteq> ch_backslash then
          (if decodedOffset \<le> decoded + 1 then Some (i + 1) else rawOffsetLoop raw decodedOffset (i + 1) (decoded + 1))
        else let escape = i; i = i + 1 in
          if i \<ge> length raw then None
          else if raw ! i \<noteq> ch_u then
            (let i = i + 1; decoded = decoded + 1 in
             if decodedOffset < decoded then Some escape
             else if decodedOffset = decoded then Some i
             else rawOffsetLoop raw decodedOffset i decoded)
          else
            let u = fst (hex4 raw (i + 1)); i = i + 5; r = ucast u :: rune;
                pair = (0xD800 \<le> r \<and> r \<le> 0xDBFF);
                lo = fst (hex4 raw (i + 2));
                r = (if pair then utf16DecodeRune r (ucast lo) else r);
                i = (if pair then i + 6 else i);
                n = RuneLen r
            in if decodedOffset < decoded + n then Some escape
               else if decodedOffset = decoded + n then Some i
               else rawOffsetLoop raw decodedOffset i (decoded + n)
      else Some (length raw))"
  by pat_completeness auto
termination
  by (relation "measure (\<lambda>(raw, decodedOffset, i, decoded). length raw - i)") (auto simp: Let_def)

declare rawOffsetLoop.simps [simp del]

definition decodedJSONStringRawOffset :: "bytes \<Rightarrow> int \<Rightarrow> nat option" where
  "decodedJSONStringRawOffset raw decodedOffset =
     (if decodedOffset \<le> 0 then Some 0 else rawOffsetLoop raw decodedOffset 0 0)"

subsection \<open>Validated contents\<close>

lemma utf8_seq_clean:
  assumes "utf8_seq s" "length s = 1 \<Longrightarrow> \<not> isStringSyntax (hd s)"
  shows "ch_backslash \<notin> set s"
proof
  assume "ch_backslash \<in> set s"
  then obtain k where k: "k < length s" "s ! k = ch_backslash" by (auto simp: in_set_conv_nth)
  have "length s \<le> 4" using assms(1) leadSize_le by (auto simp: utf8_seq_def)
  with k(1) consider "k = 0" | "k = 1" | "k = 2" | "k = 3" by linarith
  then show False
    using assms k by cases (auto simp: utf8_seq_def leadSize_def acceptSecond_def contByte_def isStringSyntax_def
      hd_conv_nth split: if_splits)
qed

lemma escape_unit_jchar:
  assumes "jchar c d" "hd c = ch_backslash"
  shows "escape_unit (c @ rest) = Some (d, length c)"
  using assms
proof cases
  case jc_plain
  then show ?thesis using utf8_seq_clean [of c] assms(2) by (cases c) (auto simp: utf8_seq_def)
next
  case (jc_unicode h n)
  then show ?thesis using hexnum_length [of h n] by (simp add: escape_unit_def)
next
  case (jc_pair h hi l lo)
  then have "length h = 4" "length l = 4" using hexnum_length by auto
  then show ?thesis using jc_pair by (simp add: escape_unit_def numeral_2_eq_2)
next
  case (jc_escape e x)
  then have "e \<noteq> ch_u" by (auto simp: simple_escape_def)
  with jc_escape show ?thesis by (simp add: escape_unit_def)
qed

lemma jchar_plain: "jchar c d \<Longrightarrow> hd c \<noteq> ch_backslash \<Longrightarrow> d = c \<and> ch_backslash \<notin> set c"
  by (cases rule: jchar.cases) (auto dest: utf8_seq_clean)

lemma unescape_jchar: "jchar c d \<Longrightarrow> unescape (c @ rest) = map_option ((@) d) (unescape rest)"
proof (cases "hd c = ch_backslash")
  case True
  assume j: "jchar c d"
  have "c \<noteq> []" using jchar_nonempty [OF j] .
  with True escape_unit_jchar [OF j True, of rest] show ?thesis by (subst unescape.simps) simp
next
  case False
  assume j: "jchar c d"
  with False jchar_plain show ?thesis by (auto simp: unescape_clean)
qed

lemma unescape_jchars: "jchars raw dec \<Longrightarrow> unescape raw = Some dec"
  by (induction rule: jchars.induct) (simp_all add: unescape_jchar)

text \<open>The rune both walks compute at a legal \<^verbatim>\<open>\u\<close> escape.\<close>

definition escape_rune :: "bytes \<Rightarrow> nat \<Rightarrow> bool \<times> rune" where
  "escape_rune raw i =
     (let r = ucast (fst (hex4 raw (i + 2))) :: rune; pair = (0xD800 \<le> r \<and> r \<le> 0xDBFF) in
      (pair, if pair then utf16DecodeRune r (ucast (fst (hex4 raw (i + 8)))) else r))"

lemma length_encodeRune: "RuneLen r \<noteq> - 1 \<Longrightarrow> int (length (encodeRune r)) = RuneLen r"
  by (auto simp: RuneLen_def encodeRune_def Let_def word_le_nat_alt word_less_nat_alt split: if_splits)

lemma bit_above: "unat (x :: 'a :: len word) < 2 ^ n \<Longrightarrow> n \<le> k \<Longrightarrow> \<not> bit x k"
proof
  assume a: "unat x < 2 ^ n" "n \<le> k" "bit x k"
  then have "bit (unat x) k" by (simp add: bit_unsigned_iff bit_imp_possible_bit)
  then have "unat x div 2 ^ k \<noteq> 0" by (metis bit_iff_odd even_zero)
  moreover have "unat x < 2 ^ k" using a(1,2) by (meson le_less_trans less_le_trans one_le_numeral power_increasing)
  ultimately show False by simp
qed

lemma utf16DecodeRune_pair:
  assumes "high_surrogate n" "low_surrogate m"
  shows "utf16DecodeRune (word_of_nat n) (word_of_nat m) = word_of_nat (0x10000 + (n - 0xD800) * 0x400 + (m - 0xDC00))"
proof -
  have b: "0xD800 \<le> n" "n < 0xDC00" "0xDC00 \<le> m" "m < 0xE000" using assms by (auto simp: high_surrogate_def low_surrogate_def)
  have w: "0xD800 \<le> (word_of_nat n :: rune)" "(word_of_nat n :: rune) < 0xDC00" "0xDC00 \<le> (word_of_nat m :: rune)"
      "(word_of_nat m :: rune) < 0xE000"
    using b by (simp_all add: word_le_nat_alt word_less_nat_alt unat_of_nat)
  define k where "k = m - 0xDC00"
  have lo: "(word_of_nat m - 0xDC00 :: rune) = word_of_nat k" using b unfolding k_def by (simp add: of_nat_diff)
  have "k < 1024" using b unfolding k_def by simp
  then have "unat (word_of_nat k :: rune) < 2 ^ 10" by (simp add: unat_of_nat)
  note small = bit_above [OF this]
  have "push_bit 10 (word_of_nat n - 0xD800) OR (word_of_nat m - 0xDC00) = push_bit 10 (word_of_nat n - 0xD800) + (word_of_nat m - 0xDC00 :: rune)"
    unfolding lo by (rule disjunctive_add [symmetric]) (metis bit_push_bit_iff small)
  then have "utf16DecodeRune (word_of_nat n) (word_of_nat m) = 0x10000 + push_bit 10 (word_of_nat n - 0xD800) + word_of_nat m - 0xDC00"
    using w by (simp add: utf16DecodeRune_def)
  then show ?thesis using surrogate_sum(1) [OF assms] by simp
qed

lemma escape_rune_unit:
  assumes "i + 1 < length raw" "raw ! (i + 1) = ch_u" "escape_unit (drop i raw) = Some (d, n)"
  obtains pair r where "escape_rune raw i = (pair, r)" "d = encodeRune r" "n = (if pair then 12 else 6)"
    "int (length d) = RuneLen r"
proof -
  note e = assms(3) [unfolded escape_unit_at [OF assms(1,2)]]
  from e obtain k where k: "hexnum (take 4 (drop (i + 2) raw)) = Some k" by (auto split: option.splits)
  note w = hexnum_word [OF k] and b = hexnum_bound [OF k]
  have u: "(ucast (fst (hex4 raw (i + 2))) :: rune) = word_of_nat k" using hex4_hexnum [of raw "i + 2"] k w(2) by simp
  have uk: "unat (word_of_nat k :: rune) = k" using b by (simp add: unat_of_nat)
  have pair: "0xD800 \<le> (word_of_nat k :: rune) \<and> (word_of_nat k :: rune) \<le> 0xDBFF \<longleftrightarrow> high_surrogate k"
    unfolding word_le_nat_alt uk by (simp add: high_surrogate_def)
  show thesis
  proof (cases "high_surrogate k")
    case True
    with e k obtain m where m: "hexnum (take 4 (drop (i + 6 + 2) raw)) = Some m" "low_surrogate m"
        "d = encodeRune (word_of_nat (0x10000 + (k - 0xD800) * 0x400 + (m - 0xDC00)))" "n = 12"
      by (auto split: option.splits if_splits)
    have i8: "i + 6 + 2 = i + 8" by simp
    have "(ucast (fst (hex4 raw (i + 8))) :: rune) = word_of_nat m"
      using hex4_hexnum [of raw "i + 6 + 2"] m(1) hexnum_word(2) [OF m(1)] unfolding i8 by simp
    then have r: "escape_rune raw i = (True, word_of_nat (0x10000 + (k - 0xD800) * 0x400 + (m - 0xDC00)))"
      using u pair True utf16DecodeRune_pair [OF True m(2)] by (simp add: escape_rune_def Let_def)
    note s = surrogate_sum(2,3) [OF True m(2)]
    have "RuneLen r \<noteq> - 1" if "r = word_of_nat (0x10000 + (k - 0xD800) * 0x400 + (m - 0xDC00))" for r
      using s unfolding that [symmetric] by (auto simp: RuneLen_def word_le_nat_alt)
    then show ?thesis using that [OF r m(3)] m(3,4) length_encodeRune by simp
  next
    case False
    with e k have d: "\<not> low_surrogate k" "d = encodeRune (word_of_nat k)" "n = 6" by (auto split: if_splits)
    have r: "escape_rune raw i = (False, word_of_nat k)" using u pair False by (auto simp: escape_rune_def Let_def)
    have "RuneLen (word_of_nat k) \<noteq> - 1"
      using False d(1) b by (auto simp: RuneLen_def word_le_nat_alt uk high_surrogate_def low_surrogate_def)
    then show ?thesis using that [OF r d(2)] d length_encodeRune by simp
  qed
qed

lemma escape_rune_trusted:
  assumes "i + 1 < length raw" "raw ! i = ch_backslash" "raw ! (i + 1) = ch_u" "escape_rune raw i = (pair, r)"
  shows "trustedLoop dst raw i = trustedLoop (dst @ encodeRune r) raw (i + (if pair then 12 else 6))"
    "rawOffsetLoop raw off i decoded =
      (if off < decoded + RuneLen r then Some i
       else if off = decoded + RuneLen r then Some (i + (if pair then 12 else 6))
       else rawOffsetLoop raw off (i + (if pair then 12 else 6)) (decoded + RuneLen r))"
proof -
  have e: "i + 1 + 1 = i + 2" "i + 1 + 5 = i + 6" "i + 6 + 2 = i + 8" "i + 6 + 6 = i + 12" by simp_all
  have b: "i < length raw" "\<not> length raw \<le> i + 1" "\<not> raw ! i \<noteq> ch_backslash" "\<not> raw ! (i + 1) \<noteq> ch_u" using assms(1-3) by simp_all
  show "trustedLoop dst raw i = trustedLoop (dst @ encodeRune r) raw (i + (if pair then 12 else 6))"
    unfolding trustedLoop.simps [of dst raw i] Let_def if_P [OF b(1)] if_not_P [OF b(2)] if_not_P [OF b(3)] if_not_P [OF b(4)] e
    using assms(4) by (auto simp: escape_rune_def Let_def AppendRune_def)
  show "rawOffsetLoop raw off i decoded =
      (if off < decoded + RuneLen r then Some i
       else if off = decoded + RuneLen r then Some (i + (if pair then 12 else 6))
       else rawOffsetLoop raw off (i + (if pair then 12 else 6)) (decoded + RuneLen r))"
    unfolding rawOffsetLoop.simps [of raw off i] Let_def if_P [OF b(1)] if_not_P [OF b(2)] if_not_P [OF b(3)] if_not_P [OF b(4)] e
    using assms(4) by (auto simp: escape_rune_def Let_def)
qed

lemma trustedLoop_reference:
  "i \<le> length raw \<Longrightarrow> unescape (drop i raw) = Some d \<Longrightarrow> trustedLoop dst raw i = Some (dst @ d)"
proof (induction "length raw - i" arbitrary: dst i d rule: less_induct)
  case less
  note IH = less.hyps and b = less.prems
  consider "i = length raw" | "i < length raw" "raw ! i \<noteq> ch_backslash" | "i < length raw" "raw ! i = ch_backslash"
    using b by linarith
  then show ?case
  proof cases
    case 1
    then show ?thesis using b by (subst trustedLoop.simps) simp
  next
    case 2
    note p = backslashAt_props [OF 2(1)]
    note u = unescape_run [OF 2(1), unfolded b(2)]
    show ?thesis
    proof (cases "backslashAt raw i < length raw")
      case True
      from u obtain y where y: "unescape (drop (backslashAt raw i) raw) = Some y" "d = subslice raw i (backslashAt raw i) @ y"
        by (cases "unescape (drop (backslashAt raw i) raw)") auto
      from IH [OF _ p(2) y(1)] p(5) [OF 2(2)] 2(1) True p(1) y(2) 2 show ?thesis
        by (subst trustedLoop.simps) (simp add: indexByte_backslash)
    next
      case False
      with p(2) have "backslashAt raw i = length raw" by simp
      with u 2 show ?thesis by (subst trustedLoop.simps) (simp add: indexByte_backslash subslice_def)
    qed
  next
    case 3
    with b(2) unescape_escape [OF 3] obtain x n y where u: "escape_unit (drop i raw) = Some (x, n)"
        "unescape (drop (i + n) raw) = Some y" "d = x @ y" by (auto split: option.splits)
    from u(1) have len: "i + 1 < length raw" by (auto simp: escape_unit_def split: if_splits)
    show ?thesis
    proof (cases "raw ! (i + 1) = ch_u")
      case True
      from escape_rune_unit [OF len True u(1)] obtain pair r where r: "escape_rune raw i = (pair, r)" "x = encodeRune r"
          "n = (if pair then 12 else 6)" by blast
      have "i + n \<le> length raw" "i < i + n"
        using unicodeEscapeStep_reference [OF len True, of "[]"] unicodeEscapeStep_gt [of "[]" raw i _ "i + n"] u(1) by auto
      with IH [OF _ _ u(2)] escape_rune_trusted(1) [OF len 3(2) True r(1)] r u(3) show ?thesis by simp
    next
      case False
      with u(1) len obtain c where c: "simple_escape (raw ! (i + 1)) = Some c" "x = [c]" "n = 2"
        by (auto simp: escape_unit_def split: if_splits)
      then have "decodedSimpleEscape (raw ! (i + 1)) = c"
        by (auto simp: simple_escape_def decodedSimpleEscape_def split: if_splits)
      then show ?thesis using IH [OF _ _ u(2)] c u(3) len 3 False
        by (subst trustedLoop.simps) simp
    qed
  qed
qed

text \<open>C15: on the contents of a string the validator accepted, the trusted decoder never indexes out of range, and both
  decoders append the meaning of the contents.\<close>

theorem decoders_agree:
  assumes "parseString src i = Ok j"
  shows "\<exists>dec. jchars (subslice src (i + 1) (j - 1)) dec
    \<and> appendDecodedJSONStringTrusted dst (subslice src (i + 1) (j - 1)) = Some (dst @ dec)
    \<and> AppendDecodedJSONString dst (subslice src (i + 1) (j - 1)) = dst @ dec"
proof -
  have "i < length src"
  proof (rule ccontr)
    assume "\<not> i < length src"
    then have "scanStringSpecial src (i + 1) = length src" by (simp add: scanStringSpecial_beyond)
    with \<open>\<not> i < length src\<close> assms show False by (simp add: parseString_def parseStringLoop.simps [of src "Suc i"] not_less)
  qed
  with assms have "string_end src (i + 1) = Ok j" by (simp add: parseString_end)
  then obtain raw dec rest where r: "jchars raw dec" "drop (i + 1) src = raw @ ch_quote # rest" "j = i + 1 + length raw + 1"
    by (rule string_end_sound)
  have s: "subslice src (i + 1) (j - 1) = raw" using r(2,3) by (simp add: subslice_def)
  note u = unescape_jchars [OF r(1)]
  have "finish dst (length dst) raw (Some dec) = dst @ dec" by simp
  then show ?thesis unfolding s using r(1) trustedLoop_reference [of 0 raw dec dst] u AppendDecodedJSONString_finish [of dst raw]
    by (auto simp: appendDecodedJSONStringTrusted_def)
qed

theorem decoders_agree_witness:
  "\<exists>dec. jchars (subslice [ch_quote, ch_backslash, ch_n, ch_quote] (0 + 1) (4 - 1)) dec
    \<and> appendDecodedJSONStringTrusted [ch_0] (subslice [ch_quote, ch_backslash, ch_n, ch_quote] (0 + 1) (4 - 1)) = Some ([ch_0] @ dec)
    \<and> AppendDecodedJSONString [ch_0] (subslice [ch_quote, ch_backslash, ch_n, ch_quote] (0 + 1) (4 - 1)) = [ch_0] @ dec"
proof (rule decoders_agree)
  have "jchar [ch_backslash, ch_n] [ch_lf]" by (rule jc_escape) (simp add: simple_escape_def)
  from string_end_complete [OF jchars_cons [OF this jchars_nil], of 1 "[ch_quote, ch_backslash, ch_n, ch_quote]" "[]"]
  show "parseString [ch_quote, ch_backslash, ch_n, ch_quote] 0 = Ok 4" by (simp add: parseString_end)
qed

subsection \<open>Offsets\<close>

lemma jchar_decoded: "jchar c d \<Longrightarrow> d \<noteq> []"
  by (erule jchar.cases) (auto simp: utf8_seq_def encodeRune_def Let_def)

lemma jchars_decoded: "jchars cs ds \<Longrightarrow> ds = [] \<longleftrightarrow> cs = []"
  by (induction rule: jchars.induct) (auto dest: jchar_decoded jchar_nonempty)

lemma escape_unit_plain:
  assumes "i + 1 < length raw" "raw ! (i + 1) \<noteq> ch_u" "escape_unit (drop i raw) = Some (d, n)"
  shows "length d = 1" "n = 2"
  using assms by (auto simp: escape_unit_def split: if_splits)

text \<open>\<open>steps_over raw c d i\<close>: the walk passes over \<open>c\<close> at \<open>i\<close>, which decodes to \<open>d\<close>, unless the offset is its end.\<close>

definition steps_over :: "bytes \<Rightarrow> nat \<Rightarrow> bytes \<Rightarrow> bytes \<Rightarrow> bool" where
  "steps_over raw i c d \<longleftrightarrow> (\<forall>off decoded. decoded < off \<and> decoded + int (length d) \<le> off \<longrightarrow>
     rawOffsetLoop raw off i decoded =
       (if off = decoded + int (length d) then Some (i + length c)
        else rawOffsetLoop raw off (i + length c) (decoded + int (length d))))"

lemma steps_overD:
  "steps_over raw i c d \<Longrightarrow> decoded < off \<Longrightarrow> decoded + int (length d) \<le> off \<Longrightarrow> rawOffsetLoop raw off i decoded =
       (if off = decoded + int (length d) then Some (i + length c)
        else rawOffsetLoop raw off (i + length c) (decoded + int (length d)))"
  by (simp add: steps_over_def)

lemma steps_over_nil: "steps_over raw i [] []"
  by (simp add: steps_over_def)

lemma steps_over_append:
  assumes "steps_over raw i c d" "steps_over raw (i + length c) cs ds" "ds = [] \<Longrightarrow> cs = []"
  shows "steps_over raw i (c @ cs) (d @ ds)"
  unfolding steps_over_def
proof (intro allI impI, elim conjE)
  fix off decoded :: int
  assume o: "decoded < off" "decoded + int (length (d @ ds)) \<le> off"
  show "rawOffsetLoop raw off i decoded =
       (if off = decoded + int (length (d @ ds)) then Some (i + length (c @ cs))
        else rawOffsetLoop raw off (i + length (c @ cs)) (decoded + int (length (d @ ds))))"
  proof (cases "off = decoded + int (length d)")
    case True
    then have "ds = []" using o by simp
    then show ?thesis using True assms(3) steps_overD [OF assms(1) o(1)] by simp
  next
    case False
    with steps_overD [OF assms(1) o(1)] steps_overD [OF assms(2), of "decoded + int (length d)" off] o show ?thesis
      by (simp add: add.assoc)
  qed
qed

lemma steps_over_plain: "ch_backslash \<notin> set c \<Longrightarrow> drop i raw = c @ rest \<Longrightarrow> steps_over raw i c c"
proof (induction c arbitrary: i)
  case (Cons x c)
  then have d: "drop (Suc i) raw = c @ rest" "i < length raw" "raw ! i = x" by (auto simp: drop_eq_Cons_iff)
  have "steps_over raw i [x] [x]"
    unfolding steps_over_def using Cons.prems d by (subst rawOffsetLoop.simps) auto
  from steps_over_append [OF this, of c c] Cons.IH [OF _ d(1)] Cons.prems show ?case by simp
qed (simp add: steps_over_nil)

lemma steps_over_jchar:
  assumes "jchar c d" "drop i raw = c @ rest"
  shows "steps_over raw i c d"
proof (cases "hd c = ch_backslash")
  case False
  with jchar_plain [OF assms(1)] steps_over_plain assms(2) show ?thesis by simp
next
  case True
  have c: "c \<noteq> []" using jchar_nonempty [OF assms(1)] .
  from True c have i: "i < length raw" "raw ! i = ch_backslash" using assms(2) by (cases c; auto simp: drop_eq_Cons_iff)+
  have u: "escape_unit (drop i raw) = Some (d, length c)" using escape_unit_jchar [OF assms(1) True] assms(2) by simp
  from u have len: "i + 1 < length raw" by (auto simp: escape_unit_def split: if_splits)
  show ?thesis
  proof (cases "raw ! (i + 1) = ch_u")
    case u': True
    from escape_rune_unit [OF len u' u] obtain pair r where r: "escape_rune raw i = (pair, r)" "length c = (if pair then 12 else 6)"
        "int (length d) = RuneLen r" by blast
    show ?thesis unfolding steps_over_def r(3) r(2) escape_rune_trusted(2) [OF len i(2) u' r(1)] by auto
  next
    case False
    have "length c = 2" "length d = 1" using escape_unit_plain [OF len False u] by simp_all
    then show ?thesis unfolding steps_over_def using i len False by (subst rawOffsetLoop.simps) auto
  qed
qed

lemma steps_over_jchars: "jchars c d \<Longrightarrow> drop i raw = c @ rest \<Longrightarrow> steps_over raw i c d"
proof (induction arbitrary: i rule: jchars.induct)
  case (jchars_cons c d cs ds)
  then have "drop i raw = c @ cs @ rest" by simp
  from steps_over_append [OF steps_over_jchar [OF jchars_cons.hyps(1) this] jchars_cons.IH [OF drop_eq_appendD [OF this]]]
    jchars_decoded [OF jchars_cons.hyps(2)] show ?case by simp
qed (simp add: steps_over_nil)

text \<open>The decoded length of a prefix of whole characters maps back to the length of that prefix, and an offset inside the
  expansion of an escape maps to the start of the escape.\<close>

theorem rawOffset_boundary:
  assumes "jchars p dp" "jchar e de" "hd e = ch_backslash" "k < length de"
  shows "decodedJSONStringRawOffset (p @ e @ q) (int (length dp + k)) = Some (length p)"
proof (cases "p = [] \<and> k = 0")
  case True
  with jchars_decoded [OF assms(1)] show ?thesis by (simp add: decodedJSONStringRawOffset_def)
next
  case False
  let ?raw = "p @ e @ q"
  have pos: "0 < int (length dp + k)" unfolding of_nat_0_less_iff using False jchars_decoded [OF assms(1)] by auto
  have s: "rawOffsetLoop ?raw (int (length dp + k)) 0 0 = (if k = 0 then Some (length p)
      else rawOffsetLoop ?raw (int (length dp + k)) (length p) (int (length dp)))"
    using steps_overD [OF steps_over_jchars [OF assms(1), of 0 ?raw "e @ q"] pos] by simp
  have "rawOffsetLoop ?raw (int (length dp + k)) (length p) (int (length dp)) = Some (length p)"
  proof -
    have d: "drop (length p) ?raw = e @ q" by simp
    have u: "escape_unit (drop (length p) ?raw) = Some (de, length e)"
      using escape_unit_jchar [OF assms(2,3)] by simp
    then have len: "length p + 1 < length ?raw" by (auto simp: escape_unit_def split: if_splits)
    have b: "?raw ! length p = ch_backslash" using assms(3) jchar_nonempty [OF assms(2)] by (simp add: nth_append hd_conv_nth [symmetric])
    show ?thesis
    proof (cases "?raw ! (length p + 1) = ch_u")
      case True
      from escape_rune_unit [OF len True u] obtain pair r where r: "escape_rune ?raw (length p) = (pair, r)"
          "int (length de) = RuneLen r" by blast
      show ?thesis using escape_rune_trusted(2) [OF len b True r(1)] assms(4) r(2) by simp
    next
      case False
      have "length de = 1" using escape_unit_plain(1) [OF len False u] .
      then show ?thesis using b len False assms(4) by (subst rawOffsetLoop.simps) auto
    qed
  qed
  with s pos show ?thesis by (simp add: decodedJSONStringRawOffset_def)
qed

theorem rawOffset_boundary_witness:
  "decodedJSONStringRawOffset ([0x61] @ [ch_backslash, ch_u, 0x32, 0x30, 0x61, 0x63] @ [0x62]) (int (length [0x61 :: byte] + 2)) = Some (length [0x61 :: byte])"
proof (rule rawOffset_boundary)
  have "jchar [0x61] [0x61]" by (rule jc_plain) (simp_all add: utf8_seq_def leadSize_def isStringSyntax_def)
  from jchars_cons [OF this jchars_nil] show "jchars [0x61] [0x61]" by simp
  have "hexnum [0x32, 0x30, 0x61, 0x63] = Some 0x20ac" by (simp add: hexnum_def hexval_def)
  from jc_unicode [OF this] show "jchar [ch_backslash, ch_u, 0x32, 0x30, 0x61, 0x63] (encodeRune 0x20ac)"
    by (simp add: high_surrogate_def low_surrogate_def)
  show "(2 :: nat) < length (encodeRune 0x20ac)" by (simp add: encodeRune_def Let_def)
qed simp

end
