(* ===== verification/Runes.thy ===== *)
theory Runes
  imports StringTrusted
begin

text \<open>
  Encoding and decoding runes are inverse: the bytes of a well-formed sequence are the encoding of the rune it
  decodes to. The bit operations of both directions are read as arithmetic on naturals.
\<close>

lemma unat_push_or:
  fixes h l :: "'a :: len word"
  assumes "unat l < 2 ^ k" "2 ^ k * unat h + unat l < 2 ^ LENGTH('a)"
  shows "unat (push_bit k h OR l) = 2 ^ k * unat h + unat l"
proof -
  have "push_bit k h OR l = push_bit k h + l"
    by (rule disjunctive_add [symmetric]) (metis bit_above [OF assms(1)] bit_push_bit_iff)
  then have "push_bit k h OR l = word_of_nat (2 ^ k * unat h + unat l)" by (simp add: push_bit_eq_mult mult.commute)
  then show ?thesis using assms(2) by (simp only: unat_of_nat) simp
qed

lemma unat_low: "unat (x AND 0x3F :: byte) = unat x mod 64" "unat (x AND 0x1F :: byte) = unat x mod 32"
    "unat (x AND 0x0F :: byte) = unat x mod 16" "unat (x AND 0x07 :: byte) = unat x mod 8"
proof -
  have m: "unat (x AND mask n) = unat x mod 2 ^ n" for n
    by (simp only: take_bit_eq_mask [symmetric] unsigned_take_bit_eq) (simp only: take_bit_eq_mod)
  show "unat (x AND 0x3F :: byte) = unat x mod 64" using m [of 6] by (simp add: mask_eq_exp_minus_1)
  show "unat (x AND 0x1F :: byte) = unat x mod 32" using m [of 5] by (simp add: mask_eq_exp_minus_1)
  show "unat (x AND 0x0F :: byte) = unat x mod 16" using m [of 4] by (simp add: mask_eq_exp_minus_1)
  show "unat (x AND 0x07 :: byte) = unat x mod 8" using m [of 3] by (simp add: mask_eq_exp_minus_1)
qed

lemma unat_up [simp]: "unat (ucast (b :: byte) :: rune) = unat b"
  using unsigned_less [of b, where 'a = nat] by (simp add: unsigned_ucast_eq take_bit_eq_mod)

lemma unat_drop: "unat (drop_bit k (r :: rune)) = unat r div 2 ^ k"
  using unsigned_less [of r, where 'a = nat]
  by (simp only: unsigned_drop_bit_eq) (simp add: take_bit_eq_mod drop_bit_eq_div)

lemma unat_down: "unat (ucast (drop_bit k (r :: rune)) :: byte) = unat r div 2 ^ k mod 256" "unat (ucast r :: byte) = unat r mod 256"
proof -
  show "unat (ucast (drop_bit k (r :: rune)) :: byte) = unat r div 2 ^ k mod 256"
    by (simp only: unsigned_ucast_eq) (simp add: take_bit_eq_mod unat_drop)
  show "unat (ucast r :: byte) = unat r mod 256" by (simp add: unsigned_ucast_eq take_bit_eq_mod)
qed

text \<open>The marker bits of the encoder.\<close>

lemma unat_marks:
  fixes x :: byte
  shows "unat x < 64 \<Longrightarrow> unat (0xC0 OR x) = 0xC0 + unat x" "unat x < 16 \<Longrightarrow> unat (0xE0 OR x) = 0xE0 + unat x"
    "unat x < 8 \<Longrightarrow> unat (0xF0 OR x) = 0xF0 + unat x" "unat (0x80 OR (x AND 0x3F)) = 0x80 + unat x mod 64"
proof -
  have "unat x < 64 \<Longrightarrow> unat (push_bit 6 3 OR x) = 64 * 3 + unat x" using unat_push_or [of x 6 3] by simp
  then show "unat x < 64 \<Longrightarrow> unat (0xC0 OR x) = 0xC0 + unat x" by simp
  have "unat x < 16 \<Longrightarrow> unat (push_bit 4 14 OR x) = 16 * 14 + unat x" using unat_push_or [of x 4 14] by simp
  then show "unat x < 16 \<Longrightarrow> unat (0xE0 OR x) = 0xE0 + unat x" by simp
  have "unat x < 8 \<Longrightarrow> unat (push_bit 3 30 OR x) = 8 * 30 + unat x" using unat_push_or [of x 3 30] by simp
  then show "unat x < 8 \<Longrightarrow> unat (0xF0 OR x) = 0xF0 + unat x" by simp
  have "unat (push_bit 6 2 OR (x AND 0x3F)) = 64 * 2 + unat (x AND 0x3F)" using unat_push_or [of "x AND 0x3F" 6 2] by (simp add: unat_low)
  then show "unat (0x80 OR (x AND 0x3F)) = 0x80 + unat x mod 64" by (simp add: unat_low)
qed

lemma encodeRune_of_nat:
  fixes r :: rune
  defines "n \<equiv> unat r"
  shows "n < 0x80 \<Longrightarrow> map unat (encodeRune r) = [n]"
    "0x80 \<le> n \<Longrightarrow> n < 0x800 \<Longrightarrow> map unat (encodeRune r) = [0xC0 + n div 64, 0x80 + n mod 64]"
    "0x800 \<le> n \<Longrightarrow> n < 0x10000 \<Longrightarrow> \<not> (0xD800 \<le> n \<and> n \<le> 0xDFFF)
      \<Longrightarrow> map unat (encodeRune r) = [0xE0 + n div 4096, 0x80 + n div 64 mod 64, 0x80 + n mod 64]"
    "0x10000 \<le> n \<Longrightarrow> n \<le> 0x10FFFF
      \<Longrightarrow> map unat (encodeRune r) = [0xF0 + n div 262144, 0x80 + n div 4096 mod 64, 0x80 + n div 64 mod 64, 0x80 + n mod 64]"
proof -
  have mm: "k mod 256 mod 64 = k mod 64" for k :: nat by (simp add: mod_mod_cancel)
  show "n < 0x80 \<Longrightarrow> map unat (encodeRune r) = [n]"
    by (simp add: encodeRune_1 word_le_nat_alt unat_down n_def)
  have enc: "\<not> (0xD800 \<le> n \<and> n \<le> 0xDFFF) \<Longrightarrow> n \<le> 0x10FFFF \<Longrightarrow> encodeRune r =
     (if n \<le> 0x7F then [ucast r]
      else if n \<le> 0x7FF then [0xC0 OR ucast (drop_bit 6 r), 0x80 OR (ucast r AND 0x3F)]
      else if n \<le> 0xFFFF then
        [0xE0 OR ucast (drop_bit 12 r), 0x80 OR (ucast (drop_bit 6 r) AND 0x3F), 0x80 OR (ucast r AND 0x3F)]
      else [0xF0 OR ucast (drop_bit 18 r), 0x80 OR (ucast (drop_bit 12 r) AND 0x3F),
            0x80 OR (ucast (drop_bit 6 r) AND 0x3F), 0x80 OR (ucast r AND 0x3F)])"
    by (auto simp: encodeRune_def Let_def word_le_nat_alt word_less_nat_alt n_def)
  show "0x80 \<le> n \<Longrightarrow> n < 0x800 \<Longrightarrow> map unat (encodeRune r) = [0xC0 + n div 64, 0x80 + n mod 64]"
  proof -
    assume a: "0x80 \<le> n" "n < 0x800"
    then have d: "n div 64 < 64" by linarith
    then have u: "unat (ucast (drop_bit 6 r) :: byte) = n div 64" unfolding unat_down(1) n_def by simp
    show ?thesis using a d enc unat_marks(1-3) [of "ucast (drop_bit 6 r)", unfolded u] by (simp add: unat_down unat_drop unat_marks(4) n_def mm)
  qed
  show "0x800 \<le> n \<Longrightarrow> n < 0x10000 \<Longrightarrow> \<not> (0xD800 \<le> n \<and> n \<le> 0xDFFF)
      \<Longrightarrow> map unat (encodeRune r) = [0xE0 + n div 4096, 0x80 + n div 64 mod 64, 0x80 + n mod 64]"
  proof -
    assume a: "0x800 \<le> n" "n < 0x10000" "\<not> (0xD800 \<le> n \<and> n \<le> 0xDFFF)"
    then have d: "n div 4096 < 16" by linarith
    then have u: "unat (ucast (drop_bit 12 r) :: byte) = n div 4096" unfolding unat_down(1) n_def by simp
    show ?thesis using a d enc unat_marks(1-3) [of "ucast (drop_bit 12 r)", unfolded u] by (simp add: unat_down unat_drop unat_marks(4) n_def mm)
  qed
  show "0x10000 \<le> n \<Longrightarrow> n \<le> 0x10FFFF
      \<Longrightarrow> map unat (encodeRune r) = [0xF0 + n div 262144, 0x80 + n div 4096 mod 64, 0x80 + n div 64 mod 64, 0x80 + n mod 64]"
  proof -
    assume a: "0x10000 \<le> n" "n \<le> 0x10FFFF"
    then have d: "n div 262144 < 8" by linarith
    then have u: "unat (ucast (drop_bit 18 r) :: byte) = n div 262144" unfolding unat_down(1) n_def by simp
    show ?thesis using a d enc unat_marks(1-3) [of "ucast (drop_bit 18 r)", unfolded u] by (simp add: unat_down unat_drop unat_marks(4) n_def mm)
  qed
qed

lemma decoded_units:
  fixes a b c d :: byte
  shows "unat (push_bit 6 (ucast (a AND 0x1F)) OR ucast (b AND 0x3F) :: rune) = 64 * (unat a mod 32) + unat b mod 64"
    "unat (push_bit 12 (ucast (a AND 0x0F)) OR push_bit 6 (ucast (b AND 0x3F)) OR ucast (c AND 0x3F) :: rune)
      = 4096 * (unat a mod 16) + (64 * (unat b mod 64) + unat c mod 64)"
    "unat (push_bit 18 (ucast (a AND 0x07)) OR push_bit 12 (ucast (b AND 0x3F)) OR push_bit 6 (ucast (c AND 0x3F))
       OR ucast (d AND 0x3F) :: rune)
      = 262144 * (unat a mod 8) + (4096 * (unat b mod 64) + (64 * (unat c mod 64) + unat d mod 64))"
proof -
  have six: "unat (push_bit 6 (ucast (x AND 0x3F)) OR ucast (y AND 0x3F) :: rune) = 64 * (unat x mod 64) + unat y mod 64"
    for x y :: byte
    using unat_push_or [of "ucast (y AND 0x3F) :: rune" 6 "ucast (x AND 0x3F)"] by (simp add: unat_low)
  have lt: "64 * (unat x mod 64) + unat y mod 64 < 4096" for x y :: byte by linarith
  have twelve: "unat (push_bit 12 (ucast h) OR (push_bit 6 (ucast (x AND 0x3F)) OR ucast (y AND 0x3F)) :: rune)
      = 4096 * unat h + (64 * (unat x mod 64) + unat y mod 64)" if "unat h < 64" for h x y :: byte
    using unat_push_or [of "push_bit 6 (ucast (x AND 0x3F)) OR ucast (y AND 0x3F) :: rune" 12 "ucast h"] that lt [of x y]
    by (simp add: six)
  show "unat (push_bit 6 (ucast (a AND 0x1F)) OR ucast (b AND 0x3F) :: rune) = 64 * (unat a mod 32) + unat b mod 64"
    using unat_push_or [of "ucast (b AND 0x3F) :: rune" 6 "ucast (a AND 0x1F)"] by (simp add: unat_low)
  show "unat (push_bit 12 (ucast (a AND 0x0F)) OR push_bit 6 (ucast (b AND 0x3F)) OR ucast (c AND 0x3F) :: rune)
      = 4096 * (unat a mod 16) + (64 * (unat b mod 64) + unat c mod 64)"
    using twelve [of "a AND 0x0F" b c] by (simp add: unat_low or.assoc)
  have "4096 * (unat b mod 64) + (64 * (unat c mod 64) + unat d mod 64) < 262144"
    "262144 * (unat a mod 8) + (4096 * (unat b mod 64) + (64 * (unat c mod 64) + unat d mod 64)) < 4294967296" by linarith+
  then show "unat (push_bit 18 (ucast (a AND 0x07)) OR push_bit 12 (ucast (b AND 0x3F)) OR push_bit 6 (ucast (c AND 0x3F))
       OR ucast (d AND 0x3F) :: rune)
      = 262144 * (unat a mod 8) + (4096 * (unat b mod 64) + (64 * (unat c mod 64) + unat d mod 64))"
    using unat_push_or [of "push_bit 12 (ucast (b AND 0x3F)) OR (push_bit 6 (ucast (c AND 0x3F)) OR ucast (d AND 0x3F)) :: rune" 18
        "ucast (a AND 0x07)"] twelve [of "b AND 0x3F" c d]
    by (simp add: unat_low or.assoc)
qed

lemma mod_range: "m dvd k \<Longrightarrow> k \<le> n \<Longrightarrow> n < k + m \<Longrightarrow> n mod m = n - k" for k m n :: nat
  by (rule mod_nat_eqI) auto

lemma sextets:
  fixes w x y z :: nat
  assumes "w < 64" "y < 64" "z < 64"
  shows "(64 * x + z) div 64 = x" "(64 * x + z) mod 64 = z"
    "(4096 * x + (64 * y + z)) div 4096 = x" "(4096 * x + (64 * y + z)) div 64 mod 64 = y" "(4096 * x + (64 * y + z)) mod 64 = z"
    "(262144 * x + (4096 * w + (64 * y + z))) div 262144 = x" "(262144 * x + (4096 * w + (64 * y + z))) div 4096 mod 64 = w"
    "(262144 * x + (4096 * w + (64 * y + z))) div 64 mod 64 = y" "(262144 * x + (4096 * w + (64 * y + z))) mod 64 = z"
proof -
  have d: "(64 * x + z) div 64 = x" "(64 * x + z) mod 64 = z" if "z < 64" for x z :: nat using that by simp_all
  have e: "4096 * x + (64 * y + z) = 64 * (64 * x + y) + z" "262144 * x + (4096 * w + (64 * y + z)) = 64 * (64 * (64 * x + w) + y) + z"
    by simp_all
  have q: "n div 4096 = n div 64 div 64" "n div 262144 = n div 64 div 64 div 64" for n :: nat by (simp_all add: div_mult2_eq)
  show "(64 * x + z) div 64 = x" "(64 * x + z) mod 64 = z" using d assms by simp_all
  show "(4096 * x + (64 * y + z)) div 4096 = x" "(4096 * x + (64 * y + z)) div 64 mod 64 = y" "(4096 * x + (64 * y + z)) mod 64 = z"
    unfolding e q d(1) [OF assms(3)] d(2) [OF assms(3)] d(1) [OF assms(2)] d(2) [OF assms(2)] by (rule refl)+
  show "(262144 * x + (4096 * w + (64 * y + z))) div 262144 = x" "(262144 * x + (4096 * w + (64 * y + z))) div 4096 mod 64 = w"
    "(262144 * x + (4096 * w + (64 * y + z))) div 64 mod 64 = y" "(262144 * x + (4096 * w + (64 * y + z))) mod 64 = z"
    unfolding e q d(1) [OF assms(3)] d(2) [OF assms(3)] d(1) [OF assms(2)] d(2) [OF assms(2)] d(1) [OF assms(1)] d(2) [OF assms(1)]
    by (rule refl)+
qed

text \<open>A continuation byte is a marker and six bits.\<close>

lemma marked:
  assumes "m dvd k" "k \<le> unat (a :: byte)" "unat a < k + m"
  obtains x where "unat a = k + x" "x < m" "unat a mod m = x"
  using that [of "unat a - k"] assms mod_range [OF assms] by simp

lemma cont_mark:
  assumes "contByte b"
  obtains x where "unat b = 0x80 + x" "x < 64" "unat b mod 64 = x"
  using assms marked [where m = 64 and k = "0x80" and a = b] by (auto simp: contByte_def word_le_nat_alt)

text \<open>Decoding a well-formed sequence and encoding the rune gives the sequence back.\<close>

lemma encodeRune_DecodeRune:
  assumes "utf8_seq s"
  shows "encodeRune (fst (DecodeRune (s @ t))) = s"
proof -
  have second: "contByte b" if "acceptSecond a b" for a b
    using that by (auto simp: acceptSecond_def contByte_def word_le_nat_alt split: if_splits)
  have "map unat (encodeRune (fst (DecodeRune (s @ t)))) = map unat s"
    using assms
  proof (cases rule: utf8_seq_cases)
    case (one a)
    then have "unat a < 0x80" by (auto simp: leadSize_def word_less_nat_alt split: if_splits)
    then show ?thesis using one encodeRune_of_nat(1) [of "ucast a"] by (simp add: DecodeRune_def)
  next
    case (two a b)
    then have r: "0xC2 \<le> unat a" "unat a \<le> 0xDF" by (auto simp: leadSize_def word_le_nat_alt split: if_splits)
    then obtain x where x: "unat a = 0xC0 + x" "x < 32" "unat a mod 32 = x" using marked [where m = 32 and k = "0xC0" and a = a] by auto
    obtain y where y: "unat b = 0x80 + y" "y < 64" "unat b mod 64 = y" using cont_mark [OF second [OF two(3)]] .
    show ?thesis using two r x y encodeRune_of_nat(2) [of "fst (DecodeRune (s @ t))"]
      by (simp add: DecodeRune_def decoded_units sextets(1,2) [OF y(2) y(2) y(2)])
  next
    case (three a b c)
    then have r: "0xE0 \<le> unat a" "unat a \<le> 0xEF" by (auto simp: leadSize_def word_le_nat_alt split: if_splits)
    then obtain x where x: "unat a = 0xE0 + x" "x < 16" "unat a mod 16 = x" using marked [where m = 16 and k = "0xE0" and a = a] by auto
    obtain y where y: "unat b = 0x80 + y" "y < 64" "unat b mod 64 = y" using cont_mark [OF second [OF three(3)]] .
    obtain z where z: "unat c = 0x80 + z" "z < 64" "unat c mod 64 = z" using cont_mark [OF three(4)] .
    have q: "x = 0 \<Longrightarrow> 32 \<le> y" "x = 13 \<Longrightarrow> y < 32"
      using three(3) x(1) y(1) by (auto simp: acceptSecond_def word_le_nat_alt word_unat_eq_iff split: if_splits)
    consider "x \<le> 12" | "x = 13" | "14 \<le> x" by linarith
    then have ns: "\<not> (0xD800 \<le> 4096 * x + (64 * y + z) \<and> 4096 * x + (64 * y + z) \<le> 0xDFFF)"
      using q(2) y(2) z(2) by cases auto
    have "0x800 \<le> 4096 * x + (64 * y + z)" "4096 * x + (64 * y + z) < 0x10000"
      using q x(2) y(2) z(2) by linarith+
    with ns show ?thesis using three x(1,3) y(1,3) z(1,3) encodeRune_of_nat(3) [of "fst (DecodeRune (s @ t))"]
      by (simp add: DecodeRune_def decoded_units sextets [OF y(2) y(2) z(2)])
  next
    case (four a b c d)
    then have r: "0xF0 \<le> unat a" "unat a \<le> 0xF4" by (auto simp: leadSize_def word_le_nat_alt split: if_splits)
    then obtain x where x: "unat a = 0xF0 + x" "x < 8" "unat a mod 8 = x" using marked [where m = 8 and k = "0xF0" and a = a] by auto
    obtain w where w: "unat b = 0x80 + w" "w < 64" "unat b mod 64 = w" using cont_mark [OF second [OF four(3)]] .
    obtain y where y: "unat c = 0x80 + y" "y < 64" "unat c mod 64 = y" using cont_mark [OF four(4)] .
    obtain z where z: "unat d = 0x80 + z" "z < 64" "unat d mod 64 = z" using cont_mark [OF four(5)] .
    have q: "x = 0 \<Longrightarrow> 16 \<le> w" "x = 4 \<Longrightarrow> w < 16" "x \<le> 4"
      using four(3) x(1) w(1) r by (auto simp: acceptSecond_def word_le_nat_alt word_unat_eq_iff split: if_splits)
    have "0x10000 \<le> 262144 * x + (4096 * w + (64 * y + z))" "262144 * x + (4096 * w + (64 * y + z)) \<le> 0x10FFFF"
      using q w(2) y(2) z(2) by linarith+
    then show ?thesis using four x(1,3) w(1,3) y(1,3) z(1,3) encodeRune_of_nat(4) [of "fst (DecodeRune (s @ t))"]
      by (simp add: DecodeRune_def decoded_units sextets [OF w(2) y(2) z(2)])
  qed
  moreover have "inj_on unat (set (encodeRune (fst (DecodeRune (s @ t)))) \<union> set s)" by (simp add: inj_on_def word_unat_eq_iff)
  ultimately show ?thesis by (rule map_inj_on)
qed

end
