(* ===== verification/StringEncode.thy ===== *)
theory StringEncode
  imports Runes
begin

text \<open>
  The string encoder: \<^verbatim>\<open>encoder_string.go\<close>. A Go slice carries spare capacity behind its length; the model
  passes its size as \<open>room\<close> and what those bytes hold as \<open>mem\<close>. Whether source and destination overlap
  is passed in as \<open>overlap\<close>, as for the prefix copiers. The encoder is compared with a reference that handles
  one character at a time, and its output is decoded back to the input.
\<close>

subsection \<open>The encoder\<close>

text \<open>\<^verbatim>\<open>encodeHexDigits[n]\<close>.\<close>

definition encodeHexDigits :: "byte \<Rightarrow> byte" where
  "encodeHexDigits n = (if n < 10 then ch_0 + n else 0x61 + (n - 10))"

text \<open>Little-endian stores of the low bytes of a word into a buffer.\<close>

definition storeLE :: "nat \<Rightarrow> bytes \<Rightarrow> nat \<Rightarrow> 64 word \<Rightarrow> bytes" where
  "storeLE width buf i w = take i buf @ take width (lanes w) @ drop (i + width) buf"

text \<open>Little-endian loads of \<open>width\<close> bytes, widened to 64 bits.\<close>

definition loadLE :: "nat \<Rightarrow> bytes \<Rightarrow> nat \<Rightarrow> 64 word" where
  "loadLE width s i = le_word (take width (drop i s))"

definition stringMask :: "bool \<Rightarrow> 64 word \<Rightarrow> 64 word" where
  "stringMask escapeHTML w = (if escapeHTML then htmlStringSpecialMask w else stringSpecialMask w)"

text \<open>\<open>None\<close> is the deferring return.\<close>

definition appendShortCleanJSONString :: "nat \<Rightarrow> (nat \<Rightarrow> byte) \<Rightarrow> bytes \<Rightarrow> bytes \<Rightarrow> bool \<Rightarrow> bytes option" where
  "appendShortCleanJSONString room mem dst s escapeHTML =
     (let n = length s in
      if room < n + 2 then None
      else if n \<ge> 8 then
        let w0 = loadLE 8 s 0; w1 = loadLE 8 s (n - 8) in
        if stringMask escapeHTML w0 OR stringMask escapeHTML w1 \<noteq> 0 then None
        else
          let start = length dst;
              dst = dst @ map mem [0..<n + 2];
              dst = dst[start := ch_quote];
              dst = storeLE 8 dst (start + 1) w0;
              dst = storeLE 8 dst (start + 1 + n - 8) w1
          in Some (dst[start + 1 + n := ch_quote])
      else
        let w = (if n \<ge> 4 then loadLE 4 s 0 OR push_bit ((n - 4) * 8) (loadLE 4 s (n - 4))
                 else if n \<ge> 2 then loadLE 2 s 0 OR push_bit ((n - 2) * 8) (loadLE 2 s (n - 2))
                 else loadLE 1 s 0)
        in
        if stringMask escapeHTML w AND (push_bit (8 * n) 1 - 1) \<noteq> 0 then None
        else
          let start = length dst;
              dst = dst @ map mem [0..<n + 2];
              w = push_bit 8 w OR ucast ch_quote;
              dst = (if n \<ge> 6 then storeLE 8 dst start w
                     else if n \<ge> 2 then storeLE 4 (storeLE 4 dst start w) (start + (n - 2)) (drop_bit ((n - 2) * 8) w)
                     else storeLE 2 dst start w)
          in Some (dst[start + 1 + n := ch_quote]))"

text \<open>The bytes the loop writes for an ASCII byte it stopped at.\<close>

definition asciiEscape :: "byte \<Rightarrow> bytes" where
  "asciiEscape c =
     (if c = ch_quote then [ch_backslash, ch_quote]
      else if c = ch_backslash then [ch_backslash, ch_backslash]
      else if c = 0x08 then [ch_backslash, ch_b]
      else if c = 0x0C then [ch_backslash, ch_f]
      else if c = ch_lf then [ch_backslash, ch_n]
      else if c = ch_cr then [ch_backslash, ch_r]
      else if c = ch_tab then [ch_backslash, ch_t]
      else [ch_backslash, ch_u, ch_0, ch_0, encodeHexDigits (drop_bit 4 c), encodeHexDigits (c AND 0xF)])"

definition lineSeparator :: "rune \<Rightarrow> bool" where
  "lineSeparator r \<longleftrightarrow> r = 0x2028 \<or> r = 0x2029"

definition separatorEscape :: "rune \<Rightarrow> bytes" where
  "separatorEscape r = [ch_backslash, ch_u, 0x32, ch_0, 0x32, encodeHexDigits (ucast (r AND 0xF))]"

text \<open>The scanner the loop uses.\<close>

definition nextSpecial :: "bool \<Rightarrow> bool \<Rightarrow> bytes \<Rightarrow> nat \<Rightarrow> nat" where
  "nextSpecial unicodeClean escapeHTML src i =
     (if unicodeClean \<and> escapeHTML then scanEncodedHTMLSyntaxFast src i
      else if unicodeClean then scanStringSyntax src i
      else if escapeHTML then scanEncodedHTMLSpecialFast src i
      else scanStringSpecial src i)"

definition specialStop :: "bool \<Rightarrow> bool \<Rightarrow> byte \<Rightarrow> bool" where
  "specialStop unicodeClean escapeHTML =
     (if unicodeClean \<and> escapeHTML then isHTMLStringSyntax else if unicodeClean then isStringSyntax
      else if escapeHTML then isHTMLStringSpecial else isStringSpecial)"

lemma nextSpecial_eq:
  assumes "i \<le> length src"
  shows "nextSpecial unicodeClean escapeHTML src i = scanBytes (specialStop unicodeClean escapeHTML) src i (length src)"
  unfolding nextSpecial_def specialStop_def
  using assms scanStringSpecial_eq scanStringSyntax_eq scanEncodedHTMLSyntaxFast_eq scanEncodedHTMLSpecialFast_eq
  by simp

lemma nextSpecial_props:
  assumes "i \<le> length src"
  shows "i \<le> nextSpecial cl html src i" "nextSpecial cl html src i \<le> length src"
    "nextSpecial cl html src i < length src \<Longrightarrow> specialStop cl html (src ! nextSpecial cl html src i)"
    "i \<le> k \<Longrightarrow> k < nextSpecial cl html src i \<Longrightarrow> \<not> specialStop cl html (src ! k)"
  using scanBytes_props [OF assms] by (simp_all add: nextSpecial_eq assms)

lemma DecodeRune_pos: "(r, n) = DecodeRune s \<Longrightarrow> s \<noteq> [] \<Longrightarrow> 0 < n"
  using DecodeRune_size [of s] by (cases "DecodeRune s") simp

lemma DecodeRune_advance:
  assumes "i0 < length s" "\<not> length s \<le> nextSpecial cl html s i0" "(r, n) = DecodeRune (drop (nextSpecial cl html s i0) s)"
  shows "length s - (nextSpecial cl html s i0 + n) < length s - i0"
proof -
  have "0 < n" using DecodeRune_pos [OF assms(3)] assms(2) by simp
  then show ?thesis using nextSpecial_props(1) [OF less_imp_le [OF assms(1)], of cl html] assms(1,2) by linarith
qed

text \<open>The main loop, from \<open>i\<close>, with \<open>s[start:i]\<close> still to be copied.\<close>

function encodeLoop :: "bool \<Rightarrow> bool \<Rightarrow> bytes \<Rightarrow> bytes \<Rightarrow> nat \<Rightarrow> nat \<Rightarrow> bytes" where
  "encodeLoop unicodeClean escapeHTML s dst start i0 =
     (if i0 < length s then
        let i = nextSpecial unicodeClean escapeHTML s i0 in
        if i \<ge> length s then (dst @ drop start s) @ [ch_quote]
        else if s ! i < 0x80 then
          encodeLoop unicodeClean escapeHTML s (dst @ subslice s start i @ asciiEscape (s ! i)) (i + 1) (i + 1)
        else
          (case DecodeRune (drop i s) of (r, n) \<Rightarrow>
             if r = RuneError \<and> n = 1 then
               encodeLoop unicodeClean escapeHTML s (AppendRune (dst @ subslice s start i) RuneError) (i + 1) (i + 1)
             else if lineSeparator r then
               encodeLoop unicodeClean escapeHTML s (dst @ subslice s start i @ separatorEscape r) (i + n) (i + n)
             else encodeLoop unicodeClean escapeHTML s dst start (i + n))
      else (dst @ drop start s) @ [ch_quote])"
  by pat_completeness auto
termination
proof (relation "measure (\<lambda>(cl, html, s, dst, start, i). length s - i)", simp_all, goal_cases)
  case (1 cl html s i0)
  then show ?case using nextSpecial_props(1) [of i0 s cl html] by simp
next
  case (2 cl html s i0)
  then show ?case using nextSpecial_props(1) [of i0 s cl html] by simp
next
  case (3 cl html s i0 r n)
  then show ?case by (metis DecodeRune_advance)
next
  case (4 cl html s i0 r n)
  then show ?case by (metis DecodeRune_advance)
qed

declare encodeLoop.simps [simp del]

text \<open>
  \<open>grown\<close> stands for the memory behind the destination after \<^verbatim>\<open>slices.Grow\<close>, which provides the room asked for.
\<close>

definition appendEncodedJSONString :: "nat \<Rightarrow> (nat \<Rightarrow> byte) \<Rightarrow> (nat \<Rightarrow> byte) \<Rightarrow> bool \<Rightarrow> bytes \<Rightarrow> bytes \<Rightarrow> bool \<Rightarrow> bytes" where
  "appendEncodedJSONString room mem grown overlap dst s escapeHTML =
     (if s = [] then dst @ [ch_quote, ch_quote]
      else
        case (if length s < 16 then appendShortCleanJSONString room mem dst s escapeHTML else None) of
          Some out \<Rightarrow> out
        | None \<Rightarrow>
            let dst = dst @ [ch_quote];
                tail = (\<lambda>dst first copiedPrefix.
                  if first = length s then (dst @ s) @ [ch_quote]
                  else encodeLoop (s ! first \<ge> 0x80 \<and> validUTF8NoLineSeparatorFast (drop first s)) escapeHTML s dst
                         (if copiedPrefix then first else 0) first)
            in
            if length s \<ge> 16 then
              let start = length dst; dst = dst @ map grown [0..<length s] in
              case (if escapeHTML then CopyHTMLStringPrefix overlap (drop start dst) s
                    else CopyStringPrefix overlap (drop start dst) s) of
                (region, Some first) \<Rightarrow>
                  let dst = take start dst @ region in
                  if first = length s then dst @ [ch_quote] else tail (take (start + first) dst) first True
              | (region, None) \<Rightarrow> tail (take start dst) (nextSpecial False escapeHTML s 0) False
            else tail dst (nextSpecial False escapeHTML s 0) False)"

subsection \<open>The reference\<close>

function encoded :: "bool \<Rightarrow> bytes \<Rightarrow> bytes" where
  "encoded escapeHTML s =
     (if s = [] then []
      else if hd s < 0x80 then
        (if specialStop False escapeHTML (hd s) then asciiEscape (hd s) else [hd s]) @ encoded escapeHTML (tl s)
      else case DecodeRune s of (r, n) \<Rightarrow>
        if r = RuneError \<and> n = 1 then encodeRune RuneError @ encoded escapeHTML (tl s)
        else (if lineSeparator r then separatorEscape r else take n s) @ encoded escapeHTML (drop n s))"
  by pat_completeness auto
termination
proof (relation "measure (\<lambda>(html, s). length s)", simp_all, goal_cases)
  case (1 s r n)
  then show ?case using DecodeRune_pos [of r n s] by simp
qed

declare encoded.simps [simp del]

text \<open>What decoding the output gives: every byte that is not part of a well-formed sequence becomes U+FFFD.\<close>

function repaired :: "bytes \<Rightarrow> bytes" where
  "repaired s =
     (if s = [] then []
      else case DecodeRune s of (r, n) \<Rightarrow>
        if r = RuneError \<and> n = 1 then encodeRune RuneError @ repaired (tl s)
        else take n s @ repaired (drop n s))"
  by pat_completeness auto
termination
proof (relation "measure length", simp_all, goal_cases)
  case (1 s r n)
  then show ?case using DecodeRune_pos [of r n s] by simp
qed

declare repaired.simps [simp del]

subsection \<open>The separators\<close>

lemma DecodeRune_taken:
  assumes "DecodeRune s = (r, n)" "\<not> (r = RuneError \<and> n = 1)" "s \<noteq> []"
  shows "utf8_seq (take n s)" "encodeRune r = take n s" "n \<le> length s" "0 < n"
proof -
  have b: "\<not> badRune (DecodeRune s)" using assms by (simp add: badRune_def)
  show u: "utf8_seq (take n s)" and "n \<le> length s" using DecodeRune_good [OF assms(3) b] assms(1) by simp_all
  show "0 < n" using DecodeRune_pos [of r n s] assms by simp
  show "encodeRune r = take n s" using encodeRune_DecodeRune [OF u, of "drop n s"] assms(1) by simp
qed

lemma DecodeRune_separator:
  assumes "DecodeRune s = (r, n)" "lineSeparator r" "s \<noteq> []"
  shows "take n s = [0xE2, 0x80, if r = 0x2028 then 0xA8 else 0xA9]" "n = 3"
proof -
  have "take n s = encodeRune r" using DecodeRune_taken [OF assms(1) _ assms(3)] assms(2) by (auto simp: lineSeparator_def)
  then show t: "take n s = [0xE2, 0x80, if r = 0x2028 then 0xA8 else 0xA9]"
    using assms(2) by (auto simp: lineSeparator_def encodeRune_def Let_def)
  show "n = 3" using arg_cong [OF t, of length] DecodeRune_taken(3) [OF assms(1) _ assms(3)] assms(2)
    by (auto simp: lineSeparator_def)
qed

text \<open>The separator probe finds every separator; what it reports beyond that only disables a short cut.\<close>

definition separator_at :: "bytes \<Rightarrow> nat \<Rightarrow> bool" where
  "separator_at s k \<longleftrightarrow> k + 2 < length s \<and> s ! k = 0xE2 \<and> lineSepAt s k"

lemma lane_word: "lane k w = word_of_int (uint w div 2 ^ (8 * k))"
  by (rule bit_word_eqI) (simp add: bit_lane bit_simps drop_bit_eq_div [symmetric])

lemma borrow_div:
  fixes Y C P :: int
  assumes "0 < P"
  shows "(Y - C) div P = Y div P - C div P \<or> (Y - C) div P = Y div P - C div P - 1"
proof -
  let ?d = "Y mod P - C mod P"
  have e: "Y - C = ?d + P * (Y div P - C div P)" by (simp add: algebra_simps)
  have m: "0 \<le> Y mod P" "Y mod P < P" "0 \<le> C mod P" "C mod P < P" using assms by simp_all
  have "?d div P = 0 \<or> ?d div P = - 1"
  proof (cases "0 \<le> ?d")
    case True
    then have "?d div P = 0" using m by (intro div_pos_pos_trivial) linarith+
    then show ?thesis by simp
  next
    case False
    then have "(?d + P) div P = 0" using m by (intro div_pos_pos_trivial) linarith+
    then show ?thesis using assms by (simp only: div_add_self2 [OF less_imp_neq [OF assms, symmetric]]) simp
  qed
  then show ?thesis unfolding e div_mult_self2 [OF less_imp_neq [OF assms, symmetric]] by auto
qed

lemma lane_borrow:
  assumes "k < 8"
  shows "lane k (x - y) = lane k x - lane k y \<or> lane k (x - y) = lane k x - lane k y - 1"
proof -
  let ?P = "2 ^ (8 * k) :: int"
  have "uint (x - y) div ?P = (uint x - uint y) mod 2 ^ 64 div ?P" by (simp add: uint_word_ariths)
  also have "\<dots> = drop_bit (8 * k) (take_bit 64 (uint x - uint y))" by (simp only: take_bit_eq_mod drop_bit_eq_div)
  also have "\<dots> = take_bit (64 - 8 * k) (drop_bit (8 * k) (uint x - uint y))" by (simp add: drop_bit_take_bit)
  finally have u: "uint (x - y) div ?P = take_bit (64 - 8 * k) ((uint x - uint y) div ?P)" by (simp only: drop_bit_eq_div)
  have "(word_of_int (take_bit (64 - 8 * k) z) :: byte) = word_of_int z" for z
    using assms by (intro bit_word_eqI) (auto simp: bit_simps)
  then have l: "lane k (x - y) = word_of_int ((uint x - uint y) div ?P)" by (simp only: lane_word u)
  show ?thesis using borrow_div [of ?P "uint x" "uint y"] unfolding l lane_word [of k x] lane_word [of k y] by auto
qed

lemma byteEqMask_hit:
  assumes "k < 8" "lane k x = b"
  shows "bit (byteEqMask x b) (8 * k + 7)"
proof -
  let ?y = "x XOR (ucast b * 0x0101010101010101)"
  have y: "lane k ?y = 0" using assms by simp
  have "lane k (?y - 0x0101010101010101) = 0 - 1 \<or> lane k (?y - 0x0101010101010101) = 0 - 1 - 1"
    using lane_borrow [OF assms(1), of ?y "0x0101010101010101"] unfolding y by (simp add: lane_consts assms(1))
  then have "bit (lane k (?y - 0x0101010101010101)) 7" by (auto simp: bit7)
  moreover have "bit (lane k (NOT ?y)) 7" unfolding lane_not [OF assms(1)] y by simp
  moreover have "bit (lane k highBits) 7" using lane_consts assms(1) by (simp add: bit7)
  ultimately have "bit (lane k (byteEqMask x b)) 7"
    unfolding byteEqMask_def Let_def lane_and bit_and_iff by simp
  then show ?thesis by (simp add: bit_lane)
qed

text \<open>The candidate loop visits every set bit.\<close>

lemma TrailingZeros64_bit:
  assumes "x \<noteq> 0"
  shows "bit x (TrailingZeros64 x)" "n < TrailingZeros64 x \<Longrightarrow> \<not> bit x n"
proof -
  note t = TrailingZeros64_lt [OF assms]
  have "\<not> \<not> bit x ([0..<64] ! TrailingZeros64 x)"
    using nth_length_takeWhile [of "\<lambda>n. \<not> bit x n" "[0..<64]"] t by (simp add: TrailingZeros64_def)
  then show "bit x (TrailingZeros64 x)" using t by simp
  show "\<not> bit x n" if "n < TrailingZeros64 x"
    using that set_takeWhileD [of n "\<lambda>n. \<not> bit x n" "[0..<64]"] nth_mem [of n "takeWhile (\<lambda>n. \<not> bit x n) [0..<64]"]
      takeWhile_nth [of n "\<lambda>n. \<not> bit x n" "[0..<64]"] t
    by (simp add: TrailingZeros64_def)
qed

lemma clear_lowest:
  fixes x :: "64 word"
  assumes "x \<noteq> 0"
  shows "bit (x AND (x - 1)) n \<longleftrightarrow> bit x n \<and> n \<noteq> TrailingZeros64 x"
proof -
  define t where "t = TrailingZeros64 x"
  define h where "h = push_bit (Suc t) (drop_bit (Suc t) x)"
  have t: "t < 64" "bit x t" "\<And>j. j < t \<Longrightarrow> \<not> bit x j"
    unfolding t_def using TrailingZeros64_lt [OF assms] TrailingZeros64_bit [OF assms] by auto
  have hb: "bit h j \<longleftrightarrow> Suc t \<le> j \<and> bit x j" for j
    unfolding h_def bit_push_bit_iff bit_drop_bit_eq by (auto dest: bit_imp_le_length)
  have "x = h OR push_bit t 1"
  proof (rule bit_word_eqI)
    fix n assume "n < LENGTH(64)"
    consider "n < t" | "n = t" | "Suc t \<le> n" by linarith
    then show "bit x n = bit (h OR push_bit t 1) n" using t by cases (auto simp: bit_or_iff hb bit_exp_iff)
  qed
  also have "\<dots> = h + push_bit t 1" by (rule disjunctive_add [symmetric]) (auto simp: hb bit_simps)
  finally have "x - 1 = h + (2 ^ t - 1)" by (simp add: push_bit_eq_mult)
  also have "\<dots> = h + mask t" by (simp add: mask_eq_exp_minus_1)
  also have "\<dots> = h OR mask t" by (rule disjunctive_add) (auto simp: hb bit_mask_iff)
  finally have "bit (x - 1) n \<longleftrightarrow> n < 64 \<and> (bit h n \<or> n < t)" by (auto simp: bit_or_iff bit_mask_iff hb dest: bit_imp_le_length)
  then show ?thesis unfolding bit_and_iff hb t_def [symmetric] using t bit_imp_le_length [of x n] by auto
qed

lemma lineSepCandidates_visits:
  "card {n. bit cand n} \<le> fuel \<Longrightarrow> bit cand n \<Longrightarrow> lineSepAt s (i + n div 8) \<Longrightarrow> lineSepCandidates fuel s i cand"
proof (induction fuel arbitrary: cand)
  case 0
  have "finite {n. bit cand n}" by (rule finite_subset [of _ "{..<64}"]) (auto dest: bit_imp_le_length)
  with 0 show ?case by auto
next
  case (Suc fuel)
  then have nz: "cand \<noteq> 0" by auto
  note t = TrailingZeros64_lt [OF nz]
  have fin: "finite {n. bit cand n}" by (rule finite_subset [of _ "{..<64}"]) (auto dest: bit_imp_le_length)
  show ?case
  proof (cases "n = TrailingZeros64 cand")
    case True
    then show ?thesis using Suc.prems nz t by (simp add: Let_def)
  next
    case False
    have "{n. bit (cand AND (cand - 1)) n} = {n. bit cand n} - {TrailingZeros64 cand}" using clear_lowest [OF nz] by auto
    then have "card {n. bit (cand AND (cand - 1)) n} \<le> fuel"
      using Suc.prems(1) TrailingZeros64_bit(1) [OF nz] fin by (simp add: card_Diff_singleton)
    moreover have "bit (cand AND (cand - 1)) n" using clear_lowest [OF nz] False Suc.prems(2) by simp
    ultimately have "lineSepCandidates fuel s i (cand AND (cand - 1))" using Suc by blast
    then show ?thesis using nz t by (simp add: Let_def)
  qed
qed

lemma lineSepTail_finds:
  "i \<le> k \<Longrightarrow> separator_at s k \<Longrightarrow> lineSepTail s i"
proof (induction s i rule: lineSepTail.induct)
  case (1 s i)
  then show ?case by (subst lineSepTail.simps) (cases "i = k"; auto simp: separator_at_def)
qed

lemma lineSepWindows_finds:
  "i \<le> k \<Longrightarrow> separator_at s k \<Longrightarrow> lineSepWindows s i"
proof (induction s i rule: lineSepWindows.induct)
  case (1 s i)
  show ?case
  proof (cases "i + 10 \<le> length s \<and> k < i + 8")
    case True
    define j where "j = k - i"
    have j: "j < 8" "k = i + j" using True 1(2) unfolding j_def by linarith+
    have "lane j (le64 s i) = 0xE2" using True j 1(3) lane_le64 [of i s j] by (simp add: separator_at_def)
    from byteEqMask_hit [OF j(1) this] have b: "bit (byteEqMask (le64 s i) 0xE2) (8 * j + 7)" .
    have "card {n. bit (byteEqMask (le64 s i) 0xE2) n} \<le> card {..<64 :: nat}"
      by (rule card_mono) (auto dest: bit_imp_le_length)
    then have "lineSepCandidates 64 s i (byteEqMask (le64 s i) 0xE2)"
      using lineSepCandidates_visits [OF _ b, of 64 s i] 1(3) j by (simp add: separator_at_def)
    then show ?thesis using True by (subst lineSepWindows.simps) simp
  next
    case False
    then show ?thesis using 1 lineSepTail_finds [of i k s] by (subst lineSepWindows.simps) auto
  qed
qed

lemma hasJSONLineSeparator_finds:
  assumes "separator_at s k"
  shows "hasJSONLineSeparatorScalar s 0"
proof -
  let ?i = "scanBytes (\<lambda>c. c = 0xE2) s 0 (length s)"
  note p = scanBytes_props [of 0 "length s", where stop = "\<lambda>c. c = 0xE2" and src = s]
  have k: "k + 2 < length s" "s ! k = 0xE2" using assms by (auto simp: separator_at_def)
  then have "?i \<le> k" using p(4) [of k] by (meson le0 not_le)
  moreover have "lineSepWindows s (?i + 1)" if "?i \<noteq> k" using lineSepWindows_finds [OF _ assms, of "?i + 1"] that calculation by simp
  ultimately show ?thesis using k assms by (auto simp: hasJSONLineSeparatorScalar_def Let_def separator_at_def)
qed

end
