(* ===== verification/ShortStrings.thy ===== *)
theory ShortStrings
  imports StringEncode
begin

text \<open>
  The word-wide copy of short clean strings, \<^verbatim>\<open>appendShortCleanJSONString\<close> of \<^verbatim>\<open>encoder_string.go\<close>: whenever it
  emits, it has quoted a string without special bytes.
\<close>

subsection \<open>Masks without hits\<close>

context swar_mask
begin

lemma mask_clear:
  assumes "n \<le> 8" "\<And>k. k < n \<Longrightarrow> lane k (msk x) = 0" "k < n"
  shows "\<not> hit (lane k x)"
  using assms(3)
proof (induction k rule: less_induct)
  case (less k)
  then have "lane k (msk x) = (if hit (lane k x) then 0x80 else 0)" using assms(1) by (intro lane_mask) auto
  with assms(2) [OF less.prems] show ?case by (simp split: if_splits)
qed

end

lemma stringMask_clear:
  assumes "n \<le> 8" "\<And>k. k < n \<Longrightarrow> lane k (stringMask html x) = 0" "k < n"
  shows "\<not> specialStop False html (lane k x)"
  using assms special.mask_clear [of n x k] html_special.mask_clear [of n x k]
  by (auto simp: stringMask_def specialStop_def split: if_splits)

subsection \<open>Words as byte lists\<close>

lemma lane_le_word_pad: "k < 8 \<Longrightarrow> lane k (le_word bs) = (if k < length bs then bs ! k else 0)"
proof (cases "k < length bs")
  case True
  then show "k < 8 \<Longrightarrow> ?thesis" by (simp add: lane_le_word)
next
  case False
  show ?thesis if "k < 8"
    by (rule bit_word_eqI) (use False that in \<open>simp add: bit_lane bit_le_word\<close>)
qed

lemma lanes_le_word: "length bs \<le> 8 \<Longrightarrow> lanes (le_word bs) = bs @ replicate (8 - length bs) 0"
  by (rule nth_equalityI) (auto simp: lane_le_word_pad nth_append)

lemma lane_drop: "lane k (drop_bit (8 * j) w) = lane (k + j) w"
  by (simp add: lane_def add.commute distrib_left)

lemma lane_push: "k < 8 \<Longrightarrow> lane k (push_bit (8 * j) w) = (if j \<le> k then lane (k - j) w else 0)"
proof (rule bit_word_eqI)
  fix n assume k: "k < 8" and "n < LENGTH(8)"
  then have n: "n < 8" by simp
  have e: "j \<le> k \<Longrightarrow> 8 * k + n - 8 * j = 8 * (k - j) + n" "8 * j \<le> 8 * k + n \<longleftrightarrow> j \<le> k" using n by linarith+
  show "bit (lane k (push_bit (8 * j) w)) n = bit (if j \<le> k then lane (k - j) w else 0) n"
    unfolding bit_lane bit_push_bit_iff using n k e by (auto simp: bit_lane)
qed

lemma lanes_eqI: "(\<And>k. k < 8 \<Longrightarrow> lane k v = lane k w) \<Longrightarrow> v = w"
proof -
  assume "\<And>k. k < 8 \<Longrightarrow> lane k v = lane k w"
  then have "lanes v = lanes w" by (intro nth_equalityI) auto
  then show ?thesis by (metis le_word_lanes)
qed

lemma le_word_overlap:
  assumes "width \<le> length s" "length s \<le> 2 * width" "length s \<le> 8"
  shows "(le_word (take width s) OR push_bit ((length s - width) * 8) (le_word (take width (drop (length s - width) s))) :: 64 word)
    = le_word s"
proof (rule lanes_eqI)
  fix k :: nat assume k: "k < 8"
  have "k < length s \<Longrightarrow> k < width \<or> length s - width \<le> k" "k < length s \<Longrightarrow> length s - width \<le> k \<Longrightarrow> k - (length s - width) < width"
    using assms by auto
  then show "lane k (le_word (take width s) OR push_bit ((length s - width) * 8) (le_word (take width (drop (length s - width) s))))
      = lane k (le_word s)"
    using k assms lane_push [of k "length s - width"] by (auto simp: lane_le_word_pad mult.commute)
qed

lemma storeLE_append:
  "length xs = i \<Longrightarrow> length ys = width \<Longrightarrow> storeLE width (xs @ ys @ zs) i w = xs @ take width (lanes w) @ zs"
  by (simp add: storeLE_def)

lemma single: "length ys = 1 \<Longrightarrow> \<exists>x. ys = [x]"
  by (cases ys) auto

subsection \<open>The copy\<close>

lemma loads_clean:
  assumes "8 \<le> length s" "length s \<le> 16" "stringMask html (loadLE 8 s 0) OR stringMask html (loadLE 8 s (length s - 8)) = 0"
  shows "\<forall>b \<in> set s. \<not> specialStop False html b"
proof -
  have z: "stringMask html (loadLE 8 s 0) = 0" "stringMask html (loadLE 8 s (length s - 8)) = 0"
    using assms(3) by (simp_all add: or_eq_0_iff)
  have lz: "lane k 0 = 0" for k by (simp add: lane_def)
  have c: "\<not> specialStop False html (s ! k)" "\<not> specialStop False html (s ! (length s - 8 + k))" if "k < 8" for k
    using stringMask_clear [of 8 html "loadLE 8 s 0" k] stringMask_clear [of 8 html "loadLE 8 s (length s - 8)" k] that z assms(1)
    by (auto simp: lz loadLE_def lane_le_word_pad)
  show ?thesis
  proof
    fix b assume "b \<in> set s"
    then obtain k where k: "k < length s" "b = s ! k" by (auto simp: in_set_conv_nth)
    then consider "k < 8" | "k = length s - 8 + (k - (length s - 8))" "k - (length s - 8) < 8" using assms(1,2) by linarith
    then show "\<not> specialStop False html b" using c k(2) by cases metis+
  qed
qed

lemma stores_copy:
  assumes "8 \<le> length s" "length s \<le> 16" "length G = length s + 2"
  defines "n \<equiv> length s"
  shows "(storeLE 8 (storeLE 8 ((dst @ G)[length dst := ch_quote]) (length dst + 1) (loadLE 8 s 0))
      (length dst + 1 + n - 8) (loadLE 8 s (n - 8)))[length dst + 1 + n := ch_quote] = dst @ [ch_quote] @ s @ [ch_quote]"
proof -
  obtain g R where G: "G = g # R" "length R = n + 1" using assms(3) n_def by (cases G) auto
  have n: "8 \<le> n" "n \<le> 16" "length s = n" using assms by simp_all
  have w: "take 8 (lanes (loadLE 8 s k)) = take 8 (drop k s)" if "k + 8 \<le> n" for k
    using that n by (simp add: loadLE_def lanes_le_word)
  have "(dst @ G)[length dst := ch_quote] = (dst @ [ch_quote]) @ take 8 R @ drop 8 R" using G by simp
  then have one: "storeLE 8 ((dst @ G)[length dst := ch_quote]) (length dst + 1) (loadLE 8 s 0) = (dst @ [ch_quote]) @ take 8 s @ drop 8 R"
    using storeLE_append [of "dst @ [ch_quote]" "length dst + 1" "take 8 R" 8 "drop 8 R"] G n w [of 0] by simp
  define T where "T = take 8 s @ drop 8 R"
  have T: "length T = n + 1" "take (n - 8) T = take (n - 8) s" using G n unfolding T_def by (auto simp: min_def)
  have "(dst @ [ch_quote]) @ T = (dst @ [ch_quote] @ take (n - 8) s) @ take 8 (drop (n - 8) T) @ drop 8 (drop (n - 8) T)"
    unfolding T(2) [symmetric] by (simp only: append_take_drop_id append_assoc)
  then have two: "storeLE 8 ((dst @ [ch_quote]) @ T) (length dst + 1 + n - 8) (loadLE 8 s (n - 8))
      = (dst @ [ch_quote] @ take (n - 8) s) @ drop (n - 8) s @ drop 8 (drop (n - 8) T)"
    using storeLE_append [of "dst @ [ch_quote] @ take (n - 8) s" "length dst + 1 + n - 8" "take 8 (drop (n - 8) T)" 8
        "drop 8 (drop (n - 8) T)" "loadLE 8 s (n - 8)"] w [of "n - 8"] n T(1) by simp
  have "length (drop 8 (drop (n - 8) T)) = 1" using T(1) n by simp
  then obtain x where x: "drop 8 (drop (n - 8) T) = [x]" using single by blast
  have "(dst @ [ch_quote] @ take (n - 8) s) @ drop (n - 8) s @ [x] = (dst @ [ch_quote] @ (take (n - 8) s @ drop (n - 8) s)) @ [x]"
    by (simp only: append_assoc)
  then have three: "(dst @ [ch_quote] @ take (n - 8) s) @ drop (n - 8) s @ [x] = (dst @ [ch_quote] @ s) @ [x]"
    by (simp only: append_take_drop_id)
  show ?thesis unfolding one T_def [symmetric] two x three by (simp add: list_update_append n_def)
qed

text \<open>Below eight bytes the word is the image of the string.\<close>

definition shortWord :: "bytes \<Rightarrow> 64 word" where
  "shortWord s = (let n = length s in
     if n \<ge> 4 then loadLE 4 s 0 OR push_bit ((n - 4) * 8) (loadLE 4 s (n - 4))
     else if n \<ge> 2 then loadLE 2 s 0 OR push_bit ((n - 2) * 8) (loadLE 2 s (n - 2))
     else loadLE 1 s 0)"

lemma shortWord_eq: "0 < length s \<Longrightarrow> length s < 8 \<Longrightarrow> shortWord s = le_word s"
  using le_word_overlap [of 4 s] le_word_overlap [of 2 s] by (auto simp: shortWord_def loadLE_def Let_def)

lemma word_clean:
  assumes "length s < 8" "stringMask html (le_word s) AND (push_bit (8 * length s) 1 - 1) = 0"
  shows "\<forall>b \<in> set s. \<not> specialStop False html b"
proof -
  let ?n = "length s"
  have m: "(push_bit (8 * ?n) 1 - 1 :: 64 word) = mask (8 * ?n)" by (simp add: mask_eq_exp_minus_1)
  have "lane k (stringMask html (le_word s)) = 0" if "k < ?n" for k
  proof (rule bit_word_eqI)
    fix j assume "j < LENGTH(8)"
    then have "8 * k + j < 8 * ?n" "8 * k + j < 64" using that assms(1) by simp_all
    moreover have "\<not> bit (stringMask html (le_word s) AND mask (8 * ?n)) (8 * k + j)" using assms(2) unfolding m by simp
    ultimately show "bit (lane k (stringMask html (le_word s))) j = bit (0 :: byte) j"
      by (simp add: bit_lane bit_and_iff bit_mask_iff)
  qed
  then have "\<not> specialStop False html (s ! k)" if "k < ?n" for k
    using stringMask_clear [of ?n html "le_word s" k] that assms(1) by (simp add: lane_le_word_pad)
  then show ?thesis by (auto simp: in_set_conv_nth)
qed

lemma word_copy:
  fixes dst G s :: bytes
  assumes "0 < length s" "length s < 8" "length G = length s + 2"
  defines "w \<equiv> push_bit 8 (le_word s) OR ucast ch_quote :: 64 word" and "n \<equiv> length s" and "start \<equiv> length dst"
  shows "(if n \<ge> 6 then storeLE 8 (dst @ G) start w
      else if n \<ge> 2 then storeLE 4 (storeLE 4 (dst @ G) start w) (start + (n - 2)) (drop_bit ((n - 2) * 8) w)
      else storeLE 2 (dst @ G) start w)[start + 1 + n := ch_quote] = dst @ [ch_quote] @ s @ [ch_quote]"
proof -
  have "w = le_word (ch_quote # s)" by (simp add: w_def or.commute)
  then have lw: "lanes w = ch_quote # s @ replicate (7 - n) 0"
    using lanes_le_word [of "ch_quote # s"] assms(2) by (simp add: n_def del: le_word.simps)
  have ld: "take 4 (lanes (drop_bit ((n - 2) * 8) w)) = take 4 (drop (n - 2) (lanes w))" if "2 \<le> n" "n < 6"
  proof (rule nth_equalityI)
    fix k assume "k < length (take 4 (lanes (drop_bit ((n - 2) * 8) w)))"
    then have "k < 4" by simp
    then show "take 4 (lanes (drop_bit ((n - 2) * 8) w)) ! k = take 4 (drop (n - 2) (lanes w)) ! k"
      using that lane_drop [of k "n - 2" w] by (simp add: mult.commute add.commute)
  qed (use that in simp)
  have nn: "0 < n" "n < 8" "length s = n" "length G = n + 2" using assms by simp_all
  have ll: "length (lanes w) = 8" by simp
  let ?buf = "if n \<ge> 6 then storeLE 8 (dst @ G) start w
      else if n \<ge> 2 then storeLE 4 (storeLE 4 (dst @ G) start w) (start + (n - 2)) (drop_bit ((n - 2) * 8) w)
      else storeLE 2 (dst @ G) start w"
  have "\<exists>x. ?buf = dst @ ch_quote # s @ [x]"
  proof -
    consider (long) "6 \<le> n" | (mid) "2 \<le> n" "n < 6" | (one) "n = 1" using nn by linarith
    then show ?thesis
    proof cases
      case long
      then have "?buf = dst @ lanes w @ drop 8 G"
        using storeLE_append [of dst start "take 8 G" 8 "drop 8 G" w] nn by (simp add: start_def)
      moreover have "length (replicate (7 - n) 0 @ drop 8 G) = 1" using long nn by simp
      ultimately show ?thesis using single [of "replicate (7 - n) 0 @ drop 8 G"] unfolding lw by auto
    next
      case mid
      define X where "X = take 4 (lanes w) @ drop 4 G"
      have first: "storeLE 4 (dst @ G) start w = dst @ X"
        using storeLE_append [of dst start "take 4 G" 4 "drop 4 G" w] nn mid by (simp add: start_def X_def)
      have X: "length X = n + 2" "take (n - 2) X = take (n - 2) (lanes w)" using nn mid ll unfolding X_def by (auto simp: min_def)
      have "dst @ X = (dst @ take (n - 2) (lanes w)) @ take 4 (drop (n - 2) X) @ drop 4 (drop (n - 2) X)"
        unfolding X(2) [symmetric] by (simp only: append_take_drop_id append_assoc)
      moreover have "drop 4 (drop (n - 2) X) = []" using X(1) mid by simp
      ultimately have "storeLE 4 (dst @ X) (start + (n - 2)) (drop_bit ((n - 2) * 8) w)
          = dst @ take (n - 2) (lanes w) @ take 4 (drop (n - 2) (lanes w))"
        using storeLE_append [of "dst @ take (n - 2) (lanes w)" "start + (n - 2)" "take 4 (drop (n - 2) X)" 4 "[]"
            "drop_bit ((n - 2) * 8) w"] ld [OF mid] X(1) mid ll by (simp add: start_def)
      also have "take (n - 2) (lanes w) @ take 4 (drop (n - 2) (lanes w)) = take (n + 2) (lanes w)"
        using mid by (simp only: take_add [symmetric]) simp
      also have "\<dots> = ch_quote # s @ [0]" unfolding lw using nn mid by simp
      finally show ?thesis using first mid by auto
    next
      case one
      then have "?buf = dst @ take 2 (lanes w) @ drop 2 G"
        using storeLE_append [of dst start "take 2 G" 2 "drop 2 G" w] nn by (simp add: start_def)
      moreover have "take 2 (lanes w) = ch_quote # s" unfolding lw using one nn by simp
      ultimately show ?thesis using single [of "drop 2 G"] nn one by auto
    qed
  qed
  then obtain x where x: "?buf = dst @ ch_quote # s @ [x]" by blast
  show ?thesis unfolding x by (simp add: list_update_append start_def n_def)
qed

lemma appendShortClean_copies:
  assumes "appendShortCleanJSONString room mem dst s html = Some out" "0 < length s" "length s < 16"
  shows "out = dst @ [ch_quote] @ s @ [ch_quote]" "\<forall>b \<in> set s. \<not> specialStop False html b"
proof -
  let ?G = "map mem [0..<length s + 2]"
  have G: "length ?G = length s + 2" by simp
  have "out = dst @ [ch_quote] @ s @ [ch_quote] \<and> (\<forall>b \<in> set s. \<not> specialStop False html b)"
  proof (cases "8 \<le> length s")
    case True
    then show ?thesis
      using assms stores_copy [OF True _ G, of dst] loads_clean [OF True, of html]
      unfolding appendShortCleanJSONString_def Let_def by (auto split: if_splits)
  next
    case False
    then have w: "shortWord s = le_word s" using assms shortWord_eq by simp
    note sw = w [unfolded shortWord_def Let_def]
    from False show ?thesis
      using assms word_copy [OF assms(2) _ G, of dst] word_clean [of s html]
      unfolding appendShortCleanJSONString_def Let_def sw by (auto split: if_splits)
  qed
  then show "out = dst @ [ch_quote] @ s @ [ch_quote]" "\<forall>b \<in> set s. \<not> specialStop False html b" by simp_all
qed

end
