(* ===== verification/KeyHash.thy ===== *)
theory KeyHash
  imports ShortStrings
begin

text \<open>
  Object-key hashes: the hashing routines of \<^verbatim>\<open>index_keyhash.go\<close>. Content below a word is mixed as one zero-padded
  little-endian word, however it is gathered.
\<close>

definition KeyHashSeed :: "64 word" where "KeyHashSeed = 0x9E3779B97F4A7C15"

definition KeyHashMul :: "64 word" where "KeyHashMul = 0xFF51AFD7ED558CCD"

definition KeyHashInit :: "nat \<Rightarrow> 64 word" where
  "KeyHashInit n = KeyHashSeed XOR (word_of_nat n * KeyHashMul)"

definition KeyHashMix :: "64 word \<Rightarrow> 64 word \<Rightarrow> 64 word" where
  "KeyHashMix h w = (h XOR w) * KeyHashMul"

definition KeyHashFinish :: "64 word \<Rightarrow> 32 word" where
  "KeyHashFinish h = (let h = h XOR drop_bit 29 h; h = h * KeyHashSeed in ucast (drop_bit 32 h))"

text \<open>The loop over whole words but the last.\<close>

function keyHashWords :: "bytes \<Rightarrow> nat \<Rightarrow> 64 word \<Rightarrow> 64 word" where
  "keyHashWords content i h =
     (if i < length content then keyHashWords content (i + 8) (KeyHashMix h (le64 content (i - 8))) else h)"
  by pat_completeness auto
termination by (relation "measure (\<lambda>(content, i, h). length content - i)") auto

declare keyHashWords.simps [simp del]

definition HashKeyContent :: "bytes \<Rightarrow> 32 word" where
  "HashKeyContent content =
     (let n = length content; h = KeyHashInit n;
          h = (if n \<ge> 8 then KeyHashMix (keyHashWords content 8 h) (le64 content (n - 8))
               else if n \<ge> 4 then
                 KeyHashMix h (loadLE 4 content 0 OR push_bit (8 * (n - 4)) (loadLE 4 content (n - 4)))
               else
                 KeyHashMix h (if n > 0 then
                     ucast (content ! 0) OR push_bit (8 * (n div 2)) (ucast (content ! (n div 2)))
                       OR push_bit (8 * (n - 1)) (ucast (content ! (n - 1)))
                   else 0))
      in KeyHashFinish h)"

definition hashKeyContentWord :: "64 word \<Rightarrow> nat \<Rightarrow> 32 word" where
  "hashKeyContentWord word n =
     (let word = word AND drop_bit (8 * (8 - n)) (NOT 0) in KeyHashFinish (KeyHashMix (KeyHashInit n) word))"

definition HashKey :: "bytes \<Rightarrow> 32 word" where
  "HashKey key = HashKeyContent key"

subsection \<open>The gathered word\<close>

lemma lane_ucast: "k < 8 \<Longrightarrow> lane k (ucast (b :: byte)) = (if k = 0 then b else 0)"
  using lane_le_word_pad [of k "[b]"] by simp

lemma gather_short:
  assumes "0 < length c" "length c < 4"
  shows "(ucast (c ! 0) OR push_bit (8 * (length c div 2)) (ucast (c ! (length c div 2)))
    OR push_bit (8 * (length c - 1)) (ucast (c ! (length c - 1))) :: 64 word) = le_word c"
proof (rule lanes_eqI)
  fix k :: nat assume k: "k < 8"
  have "length c = 1 \<or> length c = 2 \<or> length c = 3" using assms by linarith
  then show "lane k (ucast (c ! 0) OR push_bit (8 * (length c div 2)) (ucast (c ! (length c div 2)))
      OR push_bit (8 * (length c - 1)) (ucast (c ! (length c - 1)))) = lane k (le_word c)"
    using k by (auto simp: lane_push lane_ucast lane_le_word_pad)
qed

lemma gather_word:
  assumes "length c \<le> 8" "take (length c) (lanes w) = c"
  shows "w AND drop_bit (8 * (8 - length c)) (NOT 0) = le_word c"
proof (rule lanes_eqI)
  fix k :: nat assume k: "k < 8"
  have "lane k (drop_bit (8 * (8 - length c)) (NOT 0 :: 64 word)) = (if k < length c then - 1 else 0)"
  proof (rule bit_word_eqI)
    fix m assume "m < LENGTH(8)"
    then have m: "m < 8" by simp
    have "8 * (8 - length c) + (8 * k + m) < 64 \<longleftrightarrow> k < length c" using m assms(1) by linarith
    then show "bit (lane k (drop_bit (8 * (8 - length c)) (NOT 0 :: 64 word))) m = bit (if k < length c then - 1 else 0 :: byte) m"
      unfolding bit_lane bit_drop_bit_eq using m by (simp add: bit_not_iff)
  qed
  moreover have "k < length c \<Longrightarrow> lane k w = c ! k" using assms(2) k
    by (metis nth_lanes nth_take)
  ultimately show "lane k (w AND drop_bit (8 * (8 - length c)) (NOT 0)) = lane k (le_word c)"
    using k by (simp add: lane_le_word_pad)
qed

lemma HashKeyContent_word:
  assumes "length c \<le> 8"
  shows "HashKeyContent c = KeyHashFinish (KeyHashMix (KeyHashInit (length c)) (le_word c))"
proof -
  consider "length c = 0" | "0 < length c" "length c < 4" | "4 \<le> length c" "length c < 8" | "length c = 8" using assms by linarith
  then show ?thesis
  proof cases
    case 1
    then show ?thesis by (simp add: HashKeyContent_def)
  next
    case 2
    then show ?thesis using gather_short [OF 2] by (simp add: HashKeyContent_def Let_def)
  next
    case 3
    then show ?thesis using le_word_overlap [of 4 c] by (simp add: HashKeyContent_def Let_def loadLE_def mult.commute)
  next
    case 4
    then show ?thesis by (simp add: HashKeyContent_def Let_def keyHashWords.simps [of c 8] le64_def subslice_def)
  qed
qed

text \<open>The register variant computes the hash of the first \<open>n\<close> bytes of its word, whatever the other bytes are.\<close>

theorem hashKeyContentWord_eq:
  assumes "length content \<le> 8" "take (length content) (lanes w) = content"
  shows "hashKeyContentWord w (length content) = HashKeyContent content"
  using gather_word [OF assms] HashKeyContent_word [OF assms(1)] by (simp add: hashKeyContentWord_def Let_def)

theorem hashKeyContentWord_eq_witness:
  "length [0x61, 0x62 :: byte] \<le> 8 \<and> hashKeyContentWord (le_word [0x61, 0x62, 0x22]) (length [0x61, 0x62 :: byte]) = HashKeyContent [0x61, 0x62]"
proof
  show "hashKeyContentWord (le_word [0x61, 0x62, 0x22]) (length [0x61, 0x62 :: byte]) = HashKeyContent [0x61, 0x62]"
    by (rule hashKeyContentWord_eq) (simp_all add: lanes_le_word del: le_word.simps)
qed simp

text \<open>Hashes are a prefilter only: distinct keys can share one.\<close>

theorem HashKey_collision: "\<exists>a b. a \<noteq> b \<and> HashKey a = HashKey b"
proof -
  have "\<not> inj HashKey"
  proof
    assume "inj HashKey"
    then have "finite (UNIV :: bytes set)" by (rule finite_imageD [rotated]) simp
    then show False using infinite_UNIV_listI by blast
  qed
  then show ?thesis by (auto simp: inj_def)
qed

end
