(* ===== verification/Stage1.thy ===== *)
theory Stage1
  imports Swar
begin

text \<open>
  The structural bitmaps (\<^verbatim>\<open>x/kernels/stage1_portable.go\<close>, with the bindings of
  \<^verbatim>\<open>stage1_default.go\<close>): a block of 64 bytes is classified into masks whose bit \<open>k\<close> describes byte
  \<open>k\<close>; two carry kernels then resolve backslash escapes and the interiors of strings for the
  whole block at once. The specifications are the byte-at-a-time recurrences \<open>escaped_at\<close> and \<open>inside_at\<close>.
\<close>

subsection \<open>Masks and carries\<close>

record Stage1Masks =
  Whitespace :: "64 word"
  Structural :: "64 word"
  Quote :: "64 word"
  Backslash :: "64 word"
  Control :: "64 word"
  NonASCII :: bool

record Stage1Carry =
  Escaped :: "64 word"
  InString :: "64 word"

record Stage1BracketMasks =
  BQuote :: "64 word"
  BBackslash :: "64 word"
  BOpen :: "64 word"
  BClose :: "64 word"

definition stage1EvenBits :: "64 word" where
  "stage1EvenBits = 0x5555555555555555"

text \<open>The table: six one-bit classifications and the two bracket classes, one per byte of a word.\<close>

definition stage1PortableClass :: "byte \<Rightarrow> 64 word" where
  "stage1PortableClass c =
     (if c = ch_space \<or> c = ch_tab \<or> c = ch_lf \<or> c = ch_cr then 1 else 0) OR
     (if c = ch_lbrace \<or> c = ch_rbrace \<or> c = ch_lbracket \<or> c = ch_rbracket \<or> c = ch_colon \<or> c = ch_comma then push_bit 8 1 else 0) OR
     (if c = ch_quote then push_bit 16 1 else 0) OR
     (if c = ch_backslash then push_bit 24 1 else 0) OR
     (if c < 0x20 then push_bit 32 1 else 0) OR
     (if c \<ge> 0x80 then push_bit 40 1 else 0) OR
     (if c = ch_lbrace \<or> c = ch_lbracket then push_bit 48 1 else 0) OR
     (if c = ch_rbrace \<or> c = ch_rbracket then push_bit 56 1 else 0)"

definition stage1Pack8 :: "bytes \<Rightarrow> nat \<Rightarrow> 64 word" where
  "stage1Pack8 block offset =
     stage1PortableClass (block ! (offset + 0)) OR
     push_bit 1 (stage1PortableClass (block ! (offset + 1))) OR
     push_bit 2 (stage1PortableClass (block ! (offset + 2))) OR
     push_bit 3 (stage1PortableClass (block ! (offset + 3))) OR
     push_bit 4 (stage1PortableClass (block ! (offset + 4))) OR
     push_bit 5 (stage1PortableClass (block ! (offset + 5))) OR
     push_bit 6 (stage1PortableClass (block ! (offset + 6))) OR
     push_bit 7 (stage1PortableClass (block ! (offset + 7)))"

definition stage1Plane :: "64 word \<Rightarrow> nat \<Rightarrow> nat \<Rightarrow> 64 word" where
  "stage1Plane packed plane shift = push_bit shift (drop_bit plane packed AND 0xFF)"

definition stage1BlockPortable :: "bytes \<Rightarrow> Stage1Masks" where
  "stage1BlockPortable block =
     (let p0 = stage1Pack8 block 0; p1 = stage1Pack8 block 8; p2 = stage1Pack8 block 16; p3 = stage1Pack8 block 24;
          p4 = stage1Pack8 block 32; p5 = stage1Pack8 block 40; p6 = stage1Pack8 block 48; p7 = stage1Pack8 block 56 in
      \<lparr>Whitespace = stage1Plane p0 0 0 OR stage1Plane p1 0 8 OR stage1Plane p2 0 16 OR stage1Plane p3 0 24 OR
         stage1Plane p4 0 32 OR stage1Plane p5 0 40 OR stage1Plane p6 0 48 OR stage1Plane p7 0 56,
       Structural = stage1Plane p0 8 0 OR stage1Plane p1 8 8 OR stage1Plane p2 8 16 OR stage1Plane p3 8 24 OR
         stage1Plane p4 8 32 OR stage1Plane p5 8 40 OR stage1Plane p6 8 48 OR stage1Plane p7 8 56,
       Quote = stage1Plane p0 16 0 OR stage1Plane p1 16 8 OR stage1Plane p2 16 16 OR stage1Plane p3 16 24 OR
         stage1Plane p4 16 32 OR stage1Plane p5 16 40 OR stage1Plane p6 16 48 OR stage1Plane p7 16 56,
       Backslash = (drop_bit 24 p0 AND 0xFF) OR push_bit 8 (drop_bit 24 p1 AND 0xFF) OR
         push_bit 16 (drop_bit 24 p2 AND 0xFF) OR push_bit 24 (drop_bit 24 p3 AND 0xFF) OR
         push_bit 32 (drop_bit 24 p4 AND 0xFF) OR push_bit 40 (drop_bit 24 p5 AND 0xFF) OR
         push_bit 48 (drop_bit 24 p6 AND 0xFF) OR push_bit 56 (drop_bit 24 p7 AND 0xFF),
       Control = (drop_bit 32 p0 AND 0xFF) OR push_bit 8 (drop_bit 32 p1 AND 0xFF) OR
         push_bit 16 (drop_bit 32 p2 AND 0xFF) OR push_bit 24 (drop_bit 32 p3 AND 0xFF) OR
         push_bit 32 (drop_bit 32 p4 AND 0xFF) OR push_bit 40 (drop_bit 32 p5 AND 0xFF) OR
         push_bit 48 (drop_bit 32 p6 AND 0xFF) OR push_bit 56 (drop_bit 32 p7 AND 0xFF),
       NonASCII = (p0 OR p1 OR p2 OR p3 OR p4 OR p5 OR p6 OR p7) AND push_bit 40 0xFF \<noteq> 0\<rparr>)"

definition stage1BlockBracketsPortable :: "bytes \<Rightarrow> Stage1BracketMasks" where
  "stage1BlockBracketsPortable block =
     (let p0 = stage1Pack8 block 0; p1 = stage1Pack8 block 8; p2 = stage1Pack8 block 16; p3 = stage1Pack8 block 24;
          p4 = stage1Pack8 block 32; p5 = stage1Pack8 block 40; p6 = stage1Pack8 block 48; p7 = stage1Pack8 block 56 in
      \<lparr>BQuote = stage1Plane p0 16 0 OR stage1Plane p1 16 8 OR stage1Plane p2 16 16 OR stage1Plane p3 16 24 OR
         stage1Plane p4 16 32 OR stage1Plane p5 16 40 OR stage1Plane p6 16 48 OR stage1Plane p7 16 56,
       BBackslash = stage1Plane p0 24 0 OR stage1Plane p1 24 8 OR stage1Plane p2 24 16 OR stage1Plane p3 24 24 OR
         stage1Plane p4 24 32 OR stage1Plane p5 24 40 OR stage1Plane p6 24 48 OR stage1Plane p7 24 56,
       BOpen = stage1Plane p0 48 0 OR stage1Plane p1 48 8 OR stage1Plane p2 48 16 OR stage1Plane p3 48 24 OR
         stage1Plane p4 48 32 OR stage1Plane p5 48 40 OR stage1Plane p6 48 48 OR stage1Plane p7 48 56,
       BClose = stage1Plane p0 56 0 OR stage1Plane p1 56 8 OR stage1Plane p2 56 16 OR stage1Plane p3 56 24 OR
         stage1Plane p4 56 32 OR stage1Plane p5 56 40 OR stage1Plane p6 56 48 OR stage1Plane p7 56 56\<rparr>)"

text \<open>The scalar build binds the exported names to the portable kernels.\<close>

definition Stage1Block :: "bytes \<Rightarrow> Stage1Masks" where
  "Stage1Block block = stage1BlockPortable block"

definition Stage1BlockBrackets :: "bytes \<Rightarrow> Stage1BracketMasks" where
  "Stage1BlockBrackets block = stage1BlockBracketsPortable block"

text \<open>\<^verbatim>\<open>bits.Add64\<close>: the sum and the carry out.\<close>

definition Add64 :: "64 word \<Rightarrow> 64 word \<Rightarrow> 64 word \<Rightarrow> 64 word \<times> 64 word" where
  "Add64 x y carry = (x + y + carry, if unat x + unat y + unat carry \<ge> 2 ^ 64 then 1 else 0)"

text \<open>Both carry kernels return the mask and the updated carry.\<close>

definition Stage1Escaped :: "64 word \<Rightarrow> Stage1Carry \<Rightarrow> 64 word \<times> Stage1Carry" where
  "Stage1Escaped backslash carry =
     (let carryEscaped = Escaped carry in
      if backslash = 0 then (carryEscaped, carry\<lparr>Escaped := 0\<rparr>)
      else
        let backslash = backslash AND NOT carryEscaped;
            followsEscape = push_bit 1 backslash OR carryEscaped in
        if backslash AND followsEscape = 0 then (followsEscape, carry\<lparr>Escaped := drop_bit 63 backslash\<rparr>)
        else
          let oddSequenceStarts = backslash AND NOT (stage1EvenBits OR followsEscape);
              (sequencesStartingOnEven, overflow) = Add64 oddSequenceStarts backslash 0 in
          ((stage1EvenBits XOR push_bit 1 sequencesStartingOnEven) AND followsEscape, carry\<lparr>Escaped := overflow\<rparr>))"

definition Stage1PrefixXOR :: "64 word \<Rightarrow> Stage1Carry \<Rightarrow> 64 word \<times> Stage1Carry" where
  "Stage1PrefixXOR quotes carry =
     (if quotes = 0 then (InString carry, carry)
      else
        let m = quotes;
            m = m XOR push_bit 1 m;
            m = m XOR push_bit 2 m;
            m = m XOR push_bit 4 m;
            m = m XOR push_bit 8 m;
            m = m XOR push_bit 16 m;
            m = m XOR push_bit 32 m;
            m = m XOR InString carry in
        (m, carry\<lparr>InString := signed_drop_bit 63 m\<rparr>))"


subsection \<open>Classification\<close>

lemma stage1_class_bit:
  "bit (stage1PortableClass c) n \<longleftrightarrow>
     n = 0 \<and> c \<in> {ch_space, ch_tab, ch_lf, ch_cr}
   \<or> n = 8 \<and> c \<in> {ch_lbrace, ch_rbrace, ch_lbracket, ch_rbracket, ch_colon, ch_comma}
   \<or> n = 16 \<and> c = ch_quote \<or> n = 24 \<and> c = ch_backslash \<or> n = 32 \<and> c < 0x20 \<or> n = 40 \<and> c \<ge> 0x80
   \<or> n = 48 \<and> c \<in> {ch_lbrace, ch_lbracket} \<or> n = 56 \<and> c \<in> {ch_rbrace, ch_rbracket}"
proof -
  have pb: "bit (if b then push_bit k 1 else 0 :: 64 word) n \<longleftrightarrow> b \<and> n = k" if "k < 64" for b k
    using that by (auto simp: bit_simps)
  have p1: "bit (if b then 1 else 0 :: 64 word) n \<longleftrightarrow> b \<and> n = 0" for b by (simp add: bit_1_iff)
  have lt: "(8::nat) < 64" "(16::nat) < 64" "(24::nat) < 64" "(32::nat) < 64" "(40::nat) < 64" "(48::nat) < 64" "(56::nat) < 64" by simp_all
  show ?thesis unfolding stage1PortableClass_def bit_or_iff p1 lt [THEN pb] by blast
qed

lemma stage1_class_dvd: "bit (stage1PortableClass c) n \<Longrightarrow> 8 dvd n"
  unfolding stage1_class_bit by (elim disjE conjE) simp_all

lemma stage1Pack8_bit:
  assumes "j < 8" "8 dvd pl" "pl < 64"
  shows "bit (stage1Pack8 block off) (pl + j) \<longleftrightarrow> bit (stage1PortableClass (block ! (off + j))) pl"
proof -
  have pb: "bit (push_bit m (stage1PortableClass x)) (pl + j) \<longleftrightarrow> j = m \<and> bit (stage1PortableClass x) pl" if "m < 8" for m x
  proof -
    have "pl + j < 64" using assms by (auto elim!: dvdE)
    moreover have "j = m" if "m \<le> pl + j" "8 dvd pl + j - m"
    proof -
      from assms(2) that(2) obtain a b where ab: "pl = 8 * a" "pl + j - m = 8 * b" by (auto elim!: dvdE)
      have "8 * a + j = 8 * b + m" using ab that(1) by linarith
      then have "(8 * a + j) mod 8 = (8 * b + m) mod 8" by (rule arg_cong)
      then show ?thesis using assms(1) \<open>m < 8\<close> by simp
    qed
    ultimately show ?thesis using stage1_class_dvd [of x "pl + j - m"] by (auto simp: bit_push_bit_iff)
  qed
  have p0: "bit (stage1PortableClass x) (pl + j) \<longleftrightarrow> j = 0 \<and> bit (stage1PortableClass x) pl" for x
    using pb [of 0 x] by simp
  from assms(1) consider "j = 0" | "j = 1" | "j = 2" | "j = 3" | "j = 4" | "j = 5" | "j = 6" | "j = 7" by linarith
  moreover have "(1::nat) < 8" "(2::nat) < 8" "(3::nat) < 8" "(4::nat) < 8" "(5::nat) < 8" "(6::nat) < 8" "(7::nat) < 8" by simp_all
  note lanes = this [THEN pb]
  ultimately show ?thesis unfolding stage1Pack8_def bit_or_iff p0 lanes by cases simp_all
qed

lemma stage1Plane_bit:
  assumes "g < 8" "8 dvd pl" "pl < 64"
  shows "bit (stage1Plane (stage1Pack8 block (8 * g)) pl (8 * g)) k \<longleftrightarrow> k < 64 \<and> k div 8 = g \<and> bit (stage1PortableClass (block ! k)) pl"
proof -
  have ff: "(0xFF :: 64 word) = Bit_Operations.mask 8" by (simp add: mask_eq_exp_minus_1)
  have "bit (stage1Plane (stage1Pack8 block (8 * g)) pl (8 * g)) k
      \<longleftrightarrow> k < 64 \<and> 8 * g \<le> k \<and> k - 8 * g < 8 \<and> bit (stage1Pack8 block (8 * g)) (pl + (k - 8 * g))"
    unfolding stage1Plane_def ff bit_push_bit_iff bit_and_iff bit_mask_iff bit_drop_bit_eq by auto
  also have "\<dots> \<longleftrightarrow> k < 64 \<and> (8 * g \<le> k \<and> k - 8 * g < 8) \<and> bit (stage1PortableClass (block ! k)) pl"
    using stage1Pack8_bit [of "k - 8 * g" pl block "8 * g"] assms(2,3) by auto
  also have "8 * g \<le> k \<and> k - 8 * g < 8 \<longleftrightarrow> k div 8 = g"
    using div_nat_eqI [of 8 g k] div_mult_mod_eq [of k 8] mod_less_divisor [of 8 k] by (auto simp: mult.commute)
  finally show ?thesis .
qed

definition block_planes :: "bytes \<Rightarrow> nat \<Rightarrow> 64 word" where
  "block_planes block pl =
     stage1Plane (stage1Pack8 block 0) pl 0 OR stage1Plane (stage1Pack8 block 8) pl 8 OR
     stage1Plane (stage1Pack8 block 16) pl 16 OR stage1Plane (stage1Pack8 block 24) pl 24 OR
     stage1Plane (stage1Pack8 block 32) pl 32 OR stage1Plane (stage1Pack8 block 40) pl 40 OR
     stage1Plane (stage1Pack8 block 48) pl 48 OR stage1Plane (stage1Pack8 block 56) pl 56"

lemma block_planes_bit:
  assumes "8 dvd pl" "pl < 64"
  shows "bit (block_planes block pl) k \<longleftrightarrow> k < 64 \<and> bit (stage1PortableClass (block ! k)) pl"
proof -
  note b = stage1Plane_bit [OF _ assms, of _ block k]
  have "k div 8 = 0 \<or> k div 8 = 1 \<or> k div 8 = 2 \<or> k div 8 = 3 \<or> k div 8 = 4 \<or> k div 8 = 5 \<or> k div 8 = 6 \<or> k div 8 = 7" if "k < 64"
  proof -
    have "k div 8 < 8" using that by (simp add: less_mult_imp_div_less)
    then show ?thesis by linarith
  qed
  then show ?thesis unfolding block_planes_def bit_or_iff
    using b [of 0] b [of 1] b [of 2] b [of 3] b [of 4] b [of 5] b [of 6] b [of 7] by auto
qed

lemma stage1Block_planes:
  "Whitespace (Stage1Block block) = block_planes block 0" "Structural (Stage1Block block) = block_planes block 8"
  "Quote (Stage1Block block) = block_planes block 16" "Backslash (Stage1Block block) = block_planes block 24"
  "Control (Stage1Block block) = block_planes block 32"
  "BQuote (Stage1BlockBrackets block) = block_planes block 16" "BBackslash (Stage1BlockBrackets block) = block_planes block 24"
  "BOpen (Stage1BlockBrackets block) = block_planes block 48" "BClose (Stage1BlockBrackets block) = block_planes block 56"
  unfolding Stage1Block_def stage1BlockPortable_def Stage1BlockBrackets_def stage1BlockBracketsPortable_def Let_def
    Stage1Masks.simps Stage1BracketMasks.simps block_planes_def stage1Plane_def push_bit_0_id id_apply
  by (rule refl)+

lemma Stage1BlockBrackets_bits:
  "bit (BQuote (Stage1BlockBrackets block)) k \<longleftrightarrow> k < 64 \<and> block ! k = ch_quote"
  "bit (BBackslash (Stage1BlockBrackets block)) k \<longleftrightarrow> k < 64 \<and> block ! k = ch_backslash"
  "bit (BOpen (Stage1BlockBrackets block)) k \<longleftrightarrow> k < 64 \<and> block ! k \<in> {ch_lbrace, ch_lbracket}"
  "bit (BClose (Stage1BlockBrackets block)) k \<longleftrightarrow> k < 64 \<and> block ! k \<in> {ch_rbrace, ch_rbracket}"
  by (simp_all add: stage1Block_planes block_planes_bit stage1_class_bit)

lemma Stage1Block_bits:
  "bit (Whitespace (Stage1Block block)) k \<longleftrightarrow> k < 64 \<and> block ! k \<in> {ch_space, ch_tab, ch_lf, ch_cr}"
  "bit (Structural (Stage1Block block)) k \<longleftrightarrow> k < 64 \<and> block ! k \<in> {ch_lbrace, ch_rbrace, ch_lbracket, ch_rbracket, ch_colon, ch_comma}"
  "bit (Quote (Stage1Block block)) k \<longleftrightarrow> k < 64 \<and> block ! k = ch_quote"
  "bit (Backslash (Stage1Block block)) k \<longleftrightarrow> k < 64 \<and> block ! k = ch_backslash"
  "bit (Control (Stage1Block block)) k \<longleftrightarrow> k < 64 \<and> block ! k < 0x20"
  by (simp_all add: stage1Block_planes block_planes_bit stage1_class_bit)


subsection \<open>Escapes\<close>

text \<open>Whether position \<open>k\<close> is escaped: the position before it is a backslash that is not escaped itself.\<close>

fun escaped_at :: "(nat \<Rightarrow> bool) \<Rightarrow> bool \<Rightarrow> nat \<Rightarrow> bool" where
  "escaped_at bs c 0 = c"
| "escaped_at bs c (Suc k) = (bs k \<and> \<not> escaped_at bs c k)"

text \<open>The carry into position \<open>k\<close> of an addition.\<close>

fun carry_at :: "64 word \<Rightarrow> 64 word \<Rightarrow> nat \<Rightarrow> bool" where
  "carry_at a b 0 = False"
| "carry_at a b (Suc k) = (bit a k \<and> bit b k \<or> carry_at a b k \<and> (bit a k \<or> bit b k))"

lemma bit_unat: "bit w k \<longleftrightarrow> odd (unat w div 2 ^ k)" for w :: "64 word"
proof -
  have "bit w k \<longleftrightarrow> bit (unat w) k" by (simp add: bit_unsigned_iff)
  then show ?thesis by (simp only: bit_iff_odd [of "unat w"])
qed

lemma carry_at_iff: "carry_at a b k \<longleftrightarrow> unat a mod 2 ^ k + unat b mod 2 ^ k \<ge> 2 ^ k"
proof (induction k)
  case (Suc k)
  define x y where "x = unat a mod 2 ^ k" and "y = unat b mod 2 ^ k"
  have xy: "x < 2 ^ k" "y < 2 ^ k" by (simp_all add: x_def y_def)
  have e: "unat w mod 2 ^ Suc k = unat w mod 2 ^ k + of_bool (bit w k) * 2 ^ k" for w :: "64 word"
    using mod_mult2_eq [of "unat w" "2 ^ k" 2] by (simp add: bit_unat mult.commute mod2_eq_if)
  show ?case unfolding carry_at.simps e Suc.IH x_def [symmetric] y_def [symmetric]
    using xy by (cases "bit a k"; cases "bit b k") auto
qed simp

lemma bit_add_carry: "k < 64 \<Longrightarrow> bit (a + b) k \<longleftrightarrow> ((bit a k \<noteq> bit b k) \<noteq> carry_at a b k)"
proof -
  assume k: "k < 64"
  define x y where "x = unat a mod 2 ^ k" and "y = unat b mod 2 ^ k"
  have xy: "x < 2 ^ k" "y < 2 ^ k" by (simp_all add: x_def y_def)
  have "bit (a + b) k \<longleftrightarrow> odd ((unat a + unat b) mod 2 ^ 64 div 2 ^ k)" by (simp add: bit_unat unat_word_ariths)
  also have "\<dots> \<longleftrightarrow> bit ((unat a + unat b) mod 2 ^ 64) k" by (simp add: bit_iff_odd)
  also have "\<dots> \<longleftrightarrow> bit (unat a + unat b) k" unfolding take_bit_eq_mod [symmetric] bit_take_bit_iff using k by simp
  also have "\<dots> \<longleftrightarrow> odd ((unat a + unat b) div 2 ^ k)" by (simp add: bit_iff_odd)
  also have "(unat a + unat b) div 2 ^ k = unat a div 2 ^ k + unat b div 2 ^ k + (x + y) div 2 ^ k"
    unfolding x_def y_def by (rule div_add1_eq)
  also have "(x + y) div 2 ^ k = of_bool (carry_at a b k)"
    using xy div_nat_eqI [of "2 ^ k" 1 "x + y"] unfolding carry_at_iff x_def [symmetric] y_def [symmetric] by (cases "2 ^ k \<le> x + y") auto
  finally show ?thesis by (auto simp: bit_unat)
qed

text \<open>The three paths of \<open>Stage1Escaped\<close> all compute the recurrence.\<close>

lemma escaped_isolated:
  fixes b c :: "64 word"
  assumes disj: "\<And>k. \<not> (bit b k \<and> bit (push_bit 1 b OR c) k)" and c: "\<And>k. bit c k \<longleftrightarrow> k = 0 \<and> e"
    and bs: "\<And>k. k < 64 \<Longrightarrow> bs k \<longleftrightarrow> bit b k \<or> k = 0 \<and> e \<and> bs k"
  shows "k < 64 \<Longrightarrow> escaped_at bs e k = bit (push_bit 1 b OR c) k" "escaped_at bs e 64 = bit b 63"
proof -
  define g where "g = push_bit 1 b OR c"
  have f: "bit g k \<longleftrightarrow> k < 64 \<and> (0 < k \<and> bit b (k - 1) \<or> k = 0 \<and> e)" for k
    unfolding g_def bit_or_iff bit_push_bit_iff c by auto
  have s: "bs k \<and> \<not> bit g k \<longleftrightarrow> bit b k" if "k < 64" for k
    using disj [of k, folded g_def] bs [OF that] f [of k] that by auto
  have e: "k < 64 \<Longrightarrow> escaped_at bs e k = bit g k" for k
  proof (induction k)
    case (Suc k)
    then show ?case using s [of k] f [of "Suc k"] by simp
  qed (simp add: f)
  then show "k < 64 \<Longrightarrow> escaped_at bs e k = bit (push_bit 1 b OR c) k" by (simp only: g_def)
  have n: "(64::nat) = Suc 63" by simp
  show "escaped_at bs e 64 = bit b 63" using e [of 63] s [of 63] unfolding n escaped_at.simps by simp
qed

lemma even_bits: "bit stage1EvenBits k \<longleftrightarrow> k < 64 \<and> even k"
proof (cases "k < 64")
  case True
  have "\<forall>k\<in>set [0..<64]. bit stage1EvenBits k = even k" by code_simp
  then show ?thesis using True by simp
qed (auto dest: bit_imp_le_length)

lemma escaped_runs:
  fixes b c :: "64 word"
  assumes c: "\<And>k. bit c k \<longleftrightarrow> k = 0 \<and> e" and b0: "\<not> (e \<and> bit b 0)"
    and bs: "\<And>k. k < 64 \<Longrightarrow> bs k \<longleftrightarrow> bit b k \<or> k = 0 \<and> e \<and> bs k"
  defines "f \<equiv> push_bit 1 b OR c"
  defines "a \<equiv> b AND NOT (stage1EvenBits OR f)"
  shows "k < 64 \<Longrightarrow> escaped_at bs e k = bit ((stage1EvenBits XOR push_bit 1 (a + b)) AND f) k" "escaped_at bs e 64 = carry_at a b 64"
proof -
  have f: "bit f k \<longleftrightarrow> k < 64 \<and> (0 < k \<and> bit b (k - 1) \<or> k = 0 \<and> e)" for k
    unfolding f_def bit_or_iff bit_push_bit_iff c by auto
  have a: "bit a k \<longleftrightarrow> bit b k \<and> odd k \<and> \<not> bit f k" for k
    unfolding a_def bit_and_iff bit_not_iff bit_or_iff even_bits by (auto dest: bit_imp_le_length)
  have inv: "Suc k \<le> 64 \<Longrightarrow> (if bit b k then escaped_at bs e (Suc k) \<longleftrightarrow> (odd k \<longleftrightarrow> carry_at a b (Suc k))
      else \<not> carry_at a b (Suc k) \<and> \<not> escaped_at bs e (Suc k))" for k
  proof (induction k)
    case 0
    then show ?case using bs [of 0] b0 a [of 0] by auto
  next
    case (Suc k)
    have k: "bs (Suc k) = bit b (Suc k)" using bs [of "Suc k"] Suc.prems by simp
    show ?case using Suc k a [of "Suc k"] f [of "Suc k"] by (auto split: if_splits)
  qed
  have n: "(64::nat) = Suc 63" by simp
  show "escaped_at bs e 64 = carry_at a b 64" using inv [of 63] unfolding n by (simp del: escaped_at.simps carry_at.simps split: if_splits)
  show "escaped_at bs e k = bit ((stage1EvenBits XOR push_bit 1 (a + b)) AND f) k" if k: "k < 64"
  proof (cases k)
    case 0
    then show ?thesis unfolding bit_and_iff bit_xor_iff bit_push_bit_iff even_bits by (simp add: f)
  next
    case (Suc m)
    then have m: "m < 64" "Suc m < 64" using k by simp_all
    have sum: "bit (a + b) m \<longleftrightarrow> \<not> carry_at a b (Suc m)" if "bit b m"
    proof (cases "bit f m")
      case True
      then have "\<not> bit a m" using a [of m] by simp
      then show ?thesis using bit_add_carry [OF m(1), of a b] that by simp
    next
      case False
      have "\<not> carry_at a b m" using inv [of "m - 1"] False f [of m] m(1) by (cases m) (auto split: if_splits)
      then show ?thesis using bit_add_carry [OF m(1), of a b] that by simp
    qed
    have fk: "bit f (Suc m) = bit b m" using f [of "Suc m"] m by simp
    have "bit ((stage1EvenBits XOR push_bit 1 (a + b)) AND f) (Suc m) \<longleftrightarrow> (odd m \<noteq> bit (a + b) m) \<and> bit b m"
      unfolding bit_and_iff bit_xor_iff bit_push_bit_iff even_bits fk using m by auto
    also have "\<dots> \<longleftrightarrow> escaped_at bs e (Suc m)"
      using inv [of m] sum m by (cases "bit b m") auto
    finally show ?thesis by (simp only: Suc)
  qed
qed


text \<open>The two values an escape carry takes.\<close>

definition escape_word :: "bool \<Rightarrow> 64 word" where
  "escape_word e = (if e then 1 else 0)"

lemma bit_escape_word: "bit (escape_word e) k \<longleftrightarrow> k = 0 \<and> e"
  by (auto simp: escape_word_def bit_1_iff)

lemma Stage1Escaped_correct:
  assumes "Escaped carry = escape_word e"
  obtains w where "Stage1Escaped b carry = (w, carry\<lparr>Escaped := escape_word (escaped_at (bit b) e 64)\<rparr>)"
    "\<And>k. k < 64 \<Longrightarrow> bit w k = escaped_at (bit b) e k"
proof (cases "b = 0")
  case True
  have "escaped_at (bit 0) e k \<longleftrightarrow> k = 0 \<and> e" for k by (cases k) simp_all
  then show ?thesis using that [of "escape_word e"] True assms by (simp add: Stage1Escaped_def Let_def bit_escape_word) (simp add: escape_word_def)
next
  case False
  define c where "c = escape_word e"
  define b' where "b' = b AND NOT c"
  define f where "f = push_bit 1 b' OR c"
  have c: "bit c k \<longleftrightarrow> k = 0 \<and> e" for k by (simp add: c_def bit_escape_word)
  have b': "bit b k \<longleftrightarrow> bit b' k \<or> k = 0 \<and> e \<and> bit b k" "\<not> (e \<and> bit b' 0)" for k
    unfolding b'_def bit_and_iff bit_not_iff c by (auto dest: bit_imp_le_length)
  show ?thesis
  proof (cases "b' AND f = 0")
    case True
    have "\<not> bit (b' AND f) k" for k by (simp add: True)
    then have "\<not> (bit b' k \<and> bit f k)" for k by (simp only: bit_and_iff simp_thms)
    note i = escaped_isolated [of b' c, folded f_def, OF this c b'(1)]
    have "drop_bit 63 b' = escape_word (bit b' 63)"
    proof (rule bit_word_eqI)
      fix n assume "n < LENGTH(64)"
      have "bit b' (63 + n) \<longleftrightarrow> n = 0 \<and> bit b' 63" using bit_imp_le_length [of b' "63 + n"] by (cases n) auto
      then show "bit (drop_bit 63 b') n = bit (escape_word (bit b' 63)) n" by (simp add: bit_drop_bit_eq bit_escape_word)
    qed
    then have "Stage1Escaped b carry = (f, carry\<lparr>Escaped := escape_word (escaped_at (bit b) e 64)\<rparr>)"
      using False True assms i(2) unfolding Stage1Escaped_def Let_def b'_def [symmetric] f_def [symmetric]
      by (simp only: Let_def c_def [symmetric] b'_def [symmetric] f_def [symmetric] if_False if_True simp_thms)
    with i(1) show ?thesis using that by blast
  next
    case dense: False
    define a where "a = b' AND NOT (stage1EvenBits OR f)"
    note i = escaped_runs [of c e b' "bit b", folded f_def, OF c b'(2,1), folded a_def]
    have "unat w mod 2 ^ 64 = unat w" for w :: "64 word" using unsigned_less [of w, where ?'a = nat] by simp
    then have "Add64 a b' 0 = (a + b', escape_word (carry_at a b' 64))"
      by (simp only: Add64_def carry_at_iff escape_word_def unat_0 add_0_right)
    then have "Stage1Escaped b carry = ((stage1EvenBits XOR push_bit 1 (a + b')) AND f, carry\<lparr>Escaped := escape_word (escaped_at (bit b) e 64)\<rparr>)"
      using False dense assms i(2) unfolding Stage1Escaped_def Let_def
      by (simp only: c_def [symmetric] b'_def [symmetric] f_def [symmetric] a_def [symmetric] if_False prod.case)
    with i(1) show ?thesis using that by blast
  qed
qed

subsection \<open>Interiors of strings\<close>

text \<open>Whether a string is open in front of position \<open>k\<close>: every unescaped quote toggles.\<close>

fun inside_at :: "(nat \<Rightarrow> bool) \<Rightarrow> bool \<Rightarrow> nat \<Rightarrow> bool" where
  "inside_at q s 0 = s"
| "inside_at q s (Suc k) = (inside_at q s k \<noteq> q k)"

lemma inside_at_flip: "inside_at q s k \<longleftrightarrow> (s \<noteq> inside_at q False k)"
  by (induction k) auto

text \<open>After the step with distance \<open>n\<close>, each bit is the parity of a window of \<open>2 n\<close> bits.\<close>

definition window :: "64 word \<Rightarrow> nat \<Rightarrow> 64 word \<Rightarrow> bool" where
  "window q n m \<longleftrightarrow> (\<forall>k<64. bit m k \<longleftrightarrow> (inside_at (bit q) False (Suc k) \<noteq> inside_at (bit q) False (Suc k - n)))"

lemma window_double: "window q n m \<Longrightarrow> n' = 2 * n \<Longrightarrow> window q n' (m XOR push_bit n m)"
proof -
  assume w: "window q n m" and n: "n' = 2 * n"
  have "bit (m XOR push_bit n m) k \<longleftrightarrow> (inside_at (bit q) False (Suc k) \<noteq> inside_at (bit q) False (Suc k - 2 * n))" if k: "k < 64" for k
  proof (cases "n \<le> k")
    case True
    then have e: "Suc (k - n) = Suc k - n" "Suc (k - n) - n = Suc k - 2 * n" by simp_all
    have "bit (push_bit n m) k = bit m (k - n)" using True k by (simp add: bit_push_bit_iff)
    moreover have "k - n < 64" using k by simp
    ultimately show ?thesis using w k unfolding window_def bit_xor_iff by (auto simp flip: e simp del: inside_at.simps)
  next
    case False
    then have "Suc k - n = 0" "Suc k - 2 * n = 0" by simp_all
    moreover have "\<not> bit (push_bit n m) k" using False by (simp add: bit_push_bit_iff)
    ultimately show ?thesis using w k unfolding window_def bit_xor_iff by (simp del: inside_at.simps(2))
  qed
  then show ?thesis unfolding window_def n by blast
qed

definition string_word :: "bool \<Rightarrow> 64 word" where
  "string_word s = (if s then - 1 else 0)"

lemma Stage1PrefixXOR_correct:
  assumes "InString carry = string_word s"
  obtains w where "Stage1PrefixXOR q carry = (w, carry\<lparr>InString := string_word (inside_at (bit q) s 64)\<rparr>)"
    "\<And>k. k < 64 \<Longrightarrow> bit w k = inside_at (bit q) s (Suc k)"
proof (cases "q = 0")
  case True
  have "inside_at (bit 0) s k = s" for k by (induction k) simp_all
  moreover have "bit (string_word s) k = s" if "k < 64" for k using that by (simp add: string_word_def)
  moreover have "carry\<lparr>InString := string_word s\<rparr> = carry" using assms by (cases carry) simp
  ultimately show ?thesis using that [of "string_word s"] True assms by (simp add: Stage1PrefixXOR_def del: inside_at.simps)
next
  case False
  define m1 where "m1 = q XOR push_bit 1 q"
  define m2 where "m2 = m1 XOR push_bit 2 m1"
  define m3 where "m3 = m2 XOR push_bit 4 m2"
  define m4 where "m4 = m3 XOR push_bit 8 m3"
  define m5 where "m5 = m4 XOR push_bit 16 m4"
  define m where "m = m5 XOR push_bit 32 m5"
  note m_defs = m_def m5_def m4_def m3_def m2_def m1_def
  have "window q 1 q" by (auto simp: window_def)
  then have "window q 2 m1" unfolding m1_def by (rule window_double) simp
  then have "window q 4 m2" unfolding m2_def by (rule window_double) simp
  then have "window q 8 m3" unfolding m3_def by (rule window_double) simp
  then have "window q 16 m4" unfolding m4_def by (rule window_double) simp
  then have "window q 32 m5" unfolding m5_def by (rule window_double) simp
  then have m: "window q 64 m" unfolding m_def by (rule window_double) simp
  have e: "Stage1PrefixXOR q carry = (m XOR InString carry, carry\<lparr>InString := signed_drop_bit 63 (m XOR InString carry)\<rparr>)"
    unfolding Stage1PrefixXOR_def Let_def if_not_P [OF False] m_defs by (rule refl)
  have b: "bit (m XOR InString carry) k = inside_at (bit q) s (Suc k)" if "k < 64" for k
    using m that inside_at_flip [of "bit q" s "Suc k"] assms by (simp add: window_def bit_xor_iff string_word_def del: inside_at.simps(2))
  have "signed_drop_bit 63 (m XOR InString carry) = string_word (bit (m XOR InString carry) 63)"
  proof (rule bit_word_eqI)
    fix n assume "n < LENGTH(64)"
    then show "bit (signed_drop_bit 63 (m XOR InString carry)) n = bit (string_word (bit (m XOR InString carry) 63)) n"
      by (cases n) (simp_all add: bit_signed_drop_bit_iff string_word_def)
  qed
  then show ?thesis using that [OF _ b] e b [of 63] by simp
qed


subsection \<open>A block\<close>

definition carry_word :: "bool \<Rightarrow> bool \<Rightarrow> Stage1Carry" where
  "carry_word e s = \<lparr>Escaped = escape_word e, InString = string_word s\<rparr>"

lemma carry_word_fields: "Escaped (carry_word e s) = escape_word e" "InString (carry_word e s) = string_word s"
  by (simp_all add: carry_word_def)

lemma escaped_at_cong: "(\<And>j. j < k \<Longrightarrow> f j = g j) \<Longrightarrow> escaped_at f e k = escaped_at g e k"
  by (induction k) auto

lemma inside_at_cong: "(\<And>j. j < k \<Longrightarrow> f j = g j) \<Longrightarrow> inside_at f s k = inside_at g s k"
  by (induction k) auto

text \<open>Quotes that open or close a string.\<close>

definition quote_at :: "bytes \<Rightarrow> bool \<Rightarrow> nat \<Rightarrow> bool" where
  "quote_at block e k \<longleftrightarrow> block ! k = ch_quote \<and> \<not> escaped_at (\<lambda>j. block ! j = ch_backslash) e k"

lemma Stage1_strings:
  assumes b: "\<And>k. bit b k \<longleftrightarrow> k < 64 \<and> block ! k = ch_backslash" and q: "\<And>k. bit q k \<longleftrightarrow> k < 64 \<and> block ! k = ch_quote"
  obtains esc ins where
    "Stage1Escaped b (carry_word e s) = (esc, carry_word (escaped_at (\<lambda>j. block ! j = ch_backslash) e 64) s)"
    "Stage1PrefixXOR (q AND NOT esc) (carry_word (escaped_at (\<lambda>j. block ! j = ch_backslash) e 64) s)
      = (ins, carry_word (escaped_at (\<lambda>j. block ! j = ch_backslash) e 64) (inside_at (quote_at block e) s 64))"
    "\<And>k. k < 64 \<Longrightarrow> bit esc k = escaped_at (\<lambda>j. block ! j = ch_backslash) e k"
    "\<And>k. k < 64 \<Longrightarrow> bit (q AND NOT esc) k = quote_at block e k"
    "\<And>k. k < 64 \<Longrightarrow> bit ins k = inside_at (quote_at block e) s (Suc k)"
proof -
  have eb: "k \<le> 64 \<Longrightarrow> escaped_at (bit b) e k = escaped_at (\<lambda>j. block ! j = ch_backslash) e k" for k
    by (rule escaped_at_cong) (simp add: b)
  obtain esc where esc: "Stage1Escaped b (carry_word e s) = (esc, (carry_word e s)\<lparr>Escaped := escape_word (escaped_at (bit b) e 64)\<rparr>)"
      "\<And>k. k < 64 \<Longrightarrow> bit esc k = escaped_at (bit b) e k"
    by (rule Stage1Escaped_correct [OF carry_word_fields(1)]) (rule that)
  have c: "(carry_word e s)\<lparr>Escaped := escape_word e'\<rparr> = carry_word e' s" for e' by (simp add: carry_word_def)
  define m where "m = q AND NOT esc"
  have m: "bit m k = quote_at block e k" if "k < 64" for k
    using esc(2) [OF that] eb [of k] that unfolding m_def bit_and_iff bit_not_iff q quote_at_def by auto
  have qb: "k \<le> 64 \<Longrightarrow> inside_at (bit m) s k = inside_at (quote_at block e) s k" for k
    by (rule inside_at_cong) (simp add: m)
  define e' where "e' = escaped_at (\<lambda>j. block ! j = ch_backslash) e 64"
  obtain ins where ins: "Stage1PrefixXOR m (carry_word e' s) = (ins, (carry_word e' s)\<lparr>InString := string_word (inside_at (bit m) s 64)\<rparr>)"
      "\<And>k. k < 64 \<Longrightarrow> bit ins k = inside_at (bit m) s (Suc k)"
    by (rule Stage1PrefixXOR_correct [OF carry_word_fields(2)]) (rule that)
  have c2: "(carry_word e' s)\<lparr>InString := string_word s'\<rparr> = carry_word e' s'" for e' s' by (simp add: carry_word_def)
  show ?thesis
  proof (rule that)
    show "Stage1Escaped b (carry_word e s) = (esc, carry_word (escaped_at (\<lambda>j. block ! j = ch_backslash) e 64) s)"
      using esc(1) eb [of 64] by (simp add: c)
    show "Stage1PrefixXOR (q AND NOT esc) (carry_word (escaped_at (\<lambda>j. block ! j = ch_backslash) e 64) s)
      = (ins, carry_word (escaped_at (\<lambda>j. block ! j = ch_backslash) e 64) (inside_at (quote_at block e) s 64))"
      using ins(1) qb [of 64] unfolding m_def [symmetric] e'_def [symmetric] by (simp add: c2)
    show "k < 64 \<Longrightarrow> bit esc k = escaped_at (\<lambda>j. block ! j = ch_backslash) e k" for k using esc(2) eb by simp
    show "k < 64 \<Longrightarrow> bit (q AND NOT esc) k = quote_at block e k" for k using m unfolding m_def .
    show "k < 64 \<Longrightarrow> bit ins k = inside_at (quote_at block e) s (Suc k)" for k using ins(2) qb [of "Suc k"] by simp
  qed
qed


text \<open>On a block of 64 bytes the two bitmap kernels compute, for all positions at once, what the byte-at-a-time recurrences
  give from the carried state: which bytes a backslash run escapes, and which bytes lie inside a string, its opening quote
  included; and they carry exactly the state the next block starts in.\<close>

theorem Stage1_kernels_correct:
  "case Stage1Escaped (Backslash (Stage1Block block)) (carry_word e s) of (esc, c1) \<Rightarrow>
   case Stage1PrefixXOR (Quote (Stage1Block block) AND NOT esc) c1 of (ins, c2) \<Rightarrow>
     map (bit esc) [0..<64] = map (escaped_at (\<lambda>j. block ! j = ch_backslash) e) [0..<64]
     \<and> map (bit ins) [0..<64] = map (\<lambda>k. inside_at (quote_at block e) s (Suc k)) [0..<64]
     \<and> c2 = carry_word (escaped_at (\<lambda>j. block ! j = ch_backslash) e 64) (inside_at (quote_at block e) s 64)"
proof -
  obtain esc ins where *: "Stage1Escaped (Backslash (Stage1Block block)) (carry_word e s) = (esc, carry_word (escaped_at (\<lambda>j. block ! j = ch_backslash) e 64) s)"
    "Stage1PrefixXOR (Quote (Stage1Block block) AND NOT esc) (carry_word (escaped_at (\<lambda>j. block ! j = ch_backslash) e 64) s)
      = (ins, carry_word (escaped_at (\<lambda>j. block ! j = ch_backslash) e 64) (inside_at (quote_at block e) s 64))"
    "\<And>k. k < 64 \<Longrightarrow> bit esc k = escaped_at (\<lambda>j. block ! j = ch_backslash) e k"
    "\<And>k. k < 64 \<Longrightarrow> bit ins k = inside_at (quote_at block e) s (Suc k)"
    by (rule Stage1_strings [OF Stage1Block_bits(4,3)]) (rule that)
  have "map (bit esc) [0..<64] = map (escaped_at (\<lambda>j. block ! j = ch_backslash) e) [0..<64]"
    "map (bit ins) [0..<64] = map (\<lambda>k. inside_at (quote_at block e) s (Suc k)) [0..<64]"
    using *(3,4) by (intro map_cong; simp)+
  then show ?thesis unfolding *(1) prod.case *(2) by blast
qed

end
