(* ===== verification/StringFast.thy ===== *)
theory StringFast
  imports StringGrammar
begin

text \<open>
  The string scanners of \<^verbatim>\<open>valid_fast.go\<close>: the bool-only scan with its run of unicode escapes, the
  word probes of \<^verbatim>\<open>validStringFast\<close> and the byte loop for short strings. A Go result
  \<^verbatim>\<open>(end, escaped, ok)\<close> is \<open>Ok (end, escaped)\<close> when \<^verbatim>\<open>ok\<close> is true and \<open>Fail (end, escaped)\<close> otherwise.
\<close>

subsection \<open>The scanners\<close>

text \<open>The portable \<^verbatim>\<open>scanUnicodeEscapeRun\<close> consumes nothing.\<close>

definition scanUnicodeEscapeRun :: "bytes \<Rightarrow> nat \<Rightarrow> nat \<times> bool" where
  "scanUnicodeEscapeRun src i = (i, True)"

text \<open>The checks on one escape whose hexadecimal digits start at \<open>h\<close>; \<open>bad\<close> is the offset reported
  when they are not digits.\<close>

definition unicodeEscapeFast :: "bytes \<Rightarrow> nat \<Rightarrow> nat \<Rightarrow> (nat, nat) outcome" where
  "unicodeEscapeFast src h bad =
     (let (u, ok) = hex4 src h in
      if \<not> ok then Fail bad
      else let i = h + 4 in
        if 0xD800 \<le> u \<and> u \<le> 0xDBFF then
          if i + 6 > length src \<or> src ! i \<noteq> ch_backslash \<or> src ! (i + 1) \<noteq> ch_u then Fail i
          else let (lo, ok) = hex4 src (i + 2) in
            if \<not> ok \<or> lo < 0xDC00 \<or> lo > 0xDFFF then Fail i else Ok (i + 6)
        else if 0xDC00 \<le> u \<and> u \<le> 0xDFFF then Fail i
        else Ok i)"

lemma unicodeEscapeFast_gt: "unicodeEscapeFast src h bad = Ok j \<Longrightarrow> h < j"
  by (auto simp: unicodeEscapeFast_def Let_def split: if_splits prod.splits)

function unicodeEscapesFast :: "bytes \<Rightarrow> nat \<Rightarrow> bool \<Rightarrow> (nat \<times> bool, nat \<times> bool) outcome" where
  "unicodeEscapesFast src i escaped =
     (if i + 6 \<le> length src \<and> src ! i = ch_backslash \<and> src ! (i + 1) = ch_u then
        (case unicodeEscapeFast src (i + 2) i of
           Ok k \<Rightarrow> unicodeEscapesFast src k True
         | Fail p \<Rightarrow> Fail (p, True)
         | NoFuel \<Rightarrow> NoFuel)
      else Ok (i, escaped))"
  by pat_completeness auto
termination
  by (relation "measure (\<lambda>(src, i, escaped). length src - i)") (auto dest: unicodeEscapeFast_gt)

declare unicodeEscapesFast.simps [simp del]

lemma unicodeEscapesFast_ge: "unicodeEscapesFast src i escaped = Ok (j, e) \<Longrightarrow> i \<le> j"
proof (induction src i escaped rule: unicodeEscapesFast.induct)
  case (1 src i escaped)
  then show ?case
    by (subst (asm) unicodeEscapesFast.simps)
      (auto split: if_splits outcome.splits dest: unicodeEscapeFast_gt)
qed

text \<open>The offset of the next byte to look at: an escape in place is not scanned for.\<close>

definition specialFrom :: "bytes \<Rightarrow> nat \<Rightarrow> nat" where
  "specialFrom src i = (if i \<ge> length src \<or> src ! i \<noteq> ch_backslash then scanStringSpecial src i else i)"

lemma specialFrom_ge: "specialFrom src i < length src \<Longrightarrow> i \<le> specialFrom src i \<and> isStringSpecial (src ! specialFrom src i)"
  using scanStringSpecial_props [of src i] by (auto simp: specialFrom_def isStringSpecial_def split: if_splits)

definition escapeRunStep :: "bytes \<Rightarrow> nat \<Rightarrow> bool \<Rightarrow> (nat \<times> bool, nat \<times> bool) outcome" where
  "escapeRunStep src i escaped =
     (if i + 1 < length src \<and> src ! i = ch_backslash \<and> src ! (i + 1) = ch_u then
        (case scanUnicodeEscapeRun src i of (stop, ok) \<Rightarrow>
           if \<not> ok then Fail (i, escaped)
           else if stop \<noteq> i then Ok (stop, True) else Ok (i, escaped))
      else Ok (i, escaped))"

lemma escapeRunStep_eq [simp]: "escapeRunStep src i escaped = Ok (i, escaped)"
  by (simp add: escapeRunStep_def scanUnicodeEscapeRun_def)

function scanJSONStringFastFrom :: "bytes \<Rightarrow> nat \<Rightarrow> bool \<Rightarrow> (nat \<times> bool, nat \<times> bool) outcome" where
  "scanJSONStringFastFrom src i escaped =
     bind_outcome (escapeRunStep src i escaped) (\<lambda>(i, escaped).
     bind_outcome (unicodeEscapesFast src i escaped) (\<lambda>(i, escaped).
       let j = specialFrom src i in
       if j \<ge> length src then Fail (length src, escaped)
       else let c = src ! j in
         if c = ch_quote then Ok (j + 1, escaped)
         else if c = ch_backslash then
           let j = j + 1 in
           if j \<ge> length src then Fail (j, True)
           else let c = src ! j in
             if c \<in> {ch_quote, ch_backslash, ch_slash, ch_b, ch_f, ch_n, ch_r, ch_t}
             then scanJSONStringFastFrom src (j + 1) True
             else if c = ch_u then
               (case unicodeEscapeFast src (j + 1) j of
                  Ok k \<Rightarrow> scanJSONStringFastFrom src k True
                | Fail p \<Rightarrow> Fail (p, True)
                | NoFuel \<Rightarrow> NoFuel)
             else Fail (j, True)
         else if c < 0x20 then Fail (j, escaped)
         else (case scanStringUnicodeRun src j of
                 (nxt, Some bad) \<Rightarrow> Fail (bad, escaped)
               | (nxt, None) \<Rightarrow> scanJSONStringFastFrom src nxt escaped)))"
  by pat_completeness auto
termination
proof (relation "measure (\<lambda>(src, i, escaped). length src - i)", simp_all, goal_cases)
  case (1 src i escaped x xa y xb xc ya xd xe xf xg)
  then show ?case using unicodeEscapesFast_ge [of src xa y xc ya] specialFrom_ge [of src xc] by auto
next
  case (2 src i escaped x xa y xb xc ya xd xe xf xg x1)
  then show ?case using unicodeEscapesFast_ge [of src xa y xc ya] specialFrom_ge [of src xc]
      unicodeEscapeFast_gt [of src _ _ x1] by fastforce
next
  case (3 src i escaped x xa y xb xc ya xd xe xf yb)
  then have "scanStringUnicodeRun src (specialFrom src xc) = (xf, None)" by metis
  with 3 show ?case using unicodeEscapesFast_ge [of src xa y xc ya] specialFrom_ge [of src xc]
      scanStringUnicodeRun_gt [of "specialFrom src xc" src] by (auto simp: isStringSyntax_def)
qed

declare scanJSONStringFastFrom.simps [simp del]

definition scanJSONStringFastLong :: "bytes \<Rightarrow> nat \<Rightarrow> (nat \<times> bool, nat \<times> bool) outcome" where
  "scanJSONStringFastLong src i = scanJSONStringFastFrom src (i + 1) False"

text \<open>\<^verbatim>\<open>scanShortJSONString\<close>: \<open>None\<close> is the code's \<^verbatim>\<open>(0, false)\<close>.\<close>

function shortStringLoop :: "bytes \<Rightarrow> nat \<Rightarrow> nat \<Rightarrow> nat option" where
  "shortStringLoop src i limit =
     (if i < limit then
        let c = src ! i in
        if c = ch_quote then Some (i + 1)
        else if c = ch_backslash \<or> c < 0x20 \<or> c \<ge> 0x80 then None
        else shortStringLoop src (i + 1) limit
      else None)"
  by pat_completeness auto
termination by (relation "measure (\<lambda>(src, i, limit). limit - i)") auto

declare shortStringLoop.simps [simp del]

definition scanShortJSONString :: "bytes \<Rightarrow> nat \<Rightarrow> nat option" where
  "scanShortJSONString src quote = shortStringLoop src (quote + 1) (min (quote + 9) (length src))"

definition scanJSONStringFast :: "bytes \<Rightarrow> nat \<Rightarrow> bool \<Rightarrow> (nat \<times> bool, nat \<times> bool) outcome" where
  "scanJSONStringFast src i short =
     (case (if short then scanShortJSONString src i else None) of
        Some stop \<Rightarrow> Ok (stop, False)
      | None \<Rightarrow> scanJSONStringFastLong src i)"

text \<open>\<^verbatim>\<open>validStringFast\<close>: up to two word probes before the general scanner; the flag is dropped.\<close>

definition dropFlag :: "(nat \<times> bool, nat \<times> bool) outcome \<Rightarrow> (nat, nat) outcome" where
  "dropFlag r = (case r of Ok (j, _) \<Rightarrow> Ok j | Fail (j, _) \<Rightarrow> Fail j | NoFuel \<Rightarrow> NoFuel)"

definition finishStringFast :: "bytes \<Rightarrow> nat \<Rightarrow> (nat, nat) outcome" where
  "finishStringFast src start =
     (let stop = scanStringSpecial src start in
      if stop < length src \<and> src ! stop = ch_quote then Ok (stop + 1)
      else dropFlag (scanJSONStringFastFrom src stop False))"

definition probeWord :: "bytes \<Rightarrow> nat \<Rightarrow> nat option" where
  "probeWord src start =
     (let m = stringSpecialMask (le64 src start) in
      if m \<noteq> 0 then Some (start + TrailingZeros64 m div 8) else None)"

definition validStringFast :: "bytes \<Rightarrow> nat \<Rightarrow> (nat, nat) outcome" where
  "validStringFast src i =
     (let start = i + 1 in
      if start + 8 \<le> length src then
        (case probeWord src start of
           Some j \<Rightarrow> if src ! j = ch_quote then Ok (j + 1) else dropFlag (scanJSONStringFastLong src i)
         | None \<Rightarrow>
             let start = start + 8 in
             if start + 8 \<le> length src then
               (case probeWord src start of
                  Some j \<Rightarrow> if src ! j = ch_quote then Ok (j + 1) else finishStringFast src start
                | None \<Rightarrow> finishStringFast src (start + 8))
             else finishStringFast src start)
      else dropFlag (scanJSONStringFastLong src i))"

subsection \<open>The general scanner computes the reference\<close>

lemma unicodeEscapeFast_reference:
  assumes "i + 1 < length src" "src ! i = ch_backslash" "src ! (i + 1) = ch_u"
  shows "case unicodeEscapeFast src (i + 2) bad of
      Ok k \<Rightarrow> string_unit src i = Advance k
    | Fail p \<Rightarrow> \<exists>e. string_unit src i = Bad e
    | NoFuel \<Rightarrow> False"
proof -
  have e: "i + 2 + 4 = i + 6" "i + 6 + 6 = i + 12" "i + 6 + 1 = i + 7" "i + 6 + 2 = i + 8"
    "i + 1 + 1 = i + 2" "i + 1 + 11 = i + 12" "i + 1 + 5 = i + 6" "i + 1 + 6 = i + 7" "i + 1 + 7 = i + 8" by simp_all
  have u: "string_unit src i = (case validateUnicodeEscape src (i + 1) of
      Ok k \<Rightarrow> Advance k | Fail e \<Rightarrow> Bad e | NoFuel \<Rightarrow> Bad (syntaxError src (int i) []))"
    using assms by (simp add: string_unit_def validateEscape_def)
  show ?thesis unfolding u validateUnicodeEscape_offsets unicodeEscapeFast_def Let_def e
    by (auto split: prod.splits)
qed

text \<open>Agreement with the reference, including the flag: it says whether the contents have an escape.\<close>

definition agrees :: "bytes \<Rightarrow> nat \<Rightarrow> bool \<Rightarrow> ('e, nat \<times> bool) outcome \<Rightarrow> bool" where
  "agrees src i escaped r \<longleftrightarrow> (case r of
       Ok (j, e) \<Rightarrow> string_end src i = Ok j \<and> (e \<longleftrightarrow> escaped \<or> ch_backslash \<in> set (subslice src i j))
     | Fail _ \<Rightarrow> \<exists>err. string_end src i = Fail err
     | NoFuel \<Rightarrow> False)"

lemma set_slice_split:
  "i \<le> k \<Longrightarrow> k \<le> j \<Longrightarrow> set (subslice xs i j) = set (subslice xs i k) \<union> set (subslice xs k j)"
  by (simp add: slice_append_slice [symmetric, of i k j] flip: set_append)

lemma agrees_run:
  assumes "string_end src i = string_end src k" "i \<le> k" "ch_backslash \<notin> set (subslice src i k)" "agrees src k e r"
  shows "agrees src i e r"
proof -
  have "ch_backslash \<in> set (subslice src i j) \<longleftrightarrow> ch_backslash \<in> set (subslice src k j)"
    if "string_end src k = Ok j" for j
    using assms(2,3) set_slice_split [of i k j src] string_end_bounds [OF that] by simp
  with assms(1,4) show ?thesis by (auto simp: agrees_def split: outcome.splits)
qed

lemma agrees_escape:
  assumes "string_end src i = string_end src k" "i < k" "i < length src" "src ! i = ch_backslash" "agrees src k True r"
  shows "agrees src i e r"
proof -
  have "ch_backslash \<in> set (subslice src i j)" if "i < j" for j using assms that by (simp add: slice_Cons)
  with assms string_end_bounds [of src k] show ?thesis
    by (auto simp: agrees_def split: outcome.splits)
qed

lemma agrees_Fail: "string_unit src i = Bad err \<Longrightarrow> agrees src i e (Fail p)"
  by (simp add: agrees_def string_end_Bad)

lemma unicodeEscapes_agrees:
  assumes "\<And>k e'. i \<le> k \<Longrightarrow> unicodeEscapesFast src i e = Ok (k, e') \<Longrightarrow> agrees src k e' (f k e')"
  shows "agrees src i e (bind_outcome (unicodeEscapesFast src i e) (\<lambda>(k, e'). f k e'))"
  using assms
proof (induction src i e rule: unicodeEscapesFast.induct)
  case (1 src i e)
  show ?case
  proof (cases "i + 6 \<le> length src \<and> src ! i = ch_backslash \<and> src ! (i + 1) = ch_u")
    case True
    then have ref: "case unicodeEscapeFast src (i + 2) i of Ok k \<Rightarrow> string_unit src i = Advance k
      | Fail p \<Rightarrow> \<exists>e. string_unit src i = Bad e | NoFuel \<Rightarrow> False"
      by (intro unicodeEscapeFast_reference) auto
    show ?thesis
    proof (cases "unicodeEscapeFast src (i + 2) i")
      case (Ok k)
      with ref have u: "string_unit src i = Advance k" by simp
      have "agrees src k True (bind_outcome (unicodeEscapesFast src k True) (\<lambda>(k, e'). f k e'))"
        using "1.IH" [OF True Ok] "1.prems" True Ok string_unit_gt [OF u]
        by (simp add: unicodeEscapesFast.simps [of src i e])
      with agrees_escape [OF string_end_Advance [OF u] string_unit_gt [OF u] string_unit_lt [OF u]] True Ok
      show ?thesis by (simp add: unicodeEscapesFast.simps [of src i e])
    qed (use True ref agrees_Fail in \<open>auto simp: unicodeEscapesFast.simps [of src i e]\<close>)
  next
    case False
    then have "unicodeEscapesFast src i e = Ok (i, e)" by (subst unicodeEscapesFast.simps) auto
    with "1.prems" [of i e] show ?thesis by simp
  qed
qed

lemma specialFrom_reference:
  assumes "i \<le> length src"
  shows "string_end src i = string_end src (specialFrom src i)" "i \<le> specialFrom src i"
    "ch_backslash \<notin> set (subslice src i (specialFrom src i))"
proof -
  note p = scanBytes_props [OF assms, where stop = isStringSpecial and src = src]
  have e: "specialFrom src i = (if i \<ge> length src \<or> src ! i \<noteq> ch_backslash
      then scanBytes isStringSpecial src i (length src) else i)"
    using assms by (simp add: specialFrom_def scanStringSpecial_eq)
  show "string_end src i = string_end src (specialFrom src i)" using string_end_scan [OF assms] e by auto
  show "i \<le> specialFrom src i" using e p by auto
  show "ch_backslash \<notin> set (subslice src i (specialFrom src i))"
    using p(2,4) e by (auto simp: in_set_conv_nth slices isStringSpecial_def)
qed

lemma unicode_run_clean:
  assumes "scanStringUnicodeRun src i = (nxt, None)" "i < length src" "0x80 \<le> src ! i"
  shows "ch_backslash \<notin> set (subslice src i nxt)"
proof (cases "length src - i < 32")
  case True
  let ?d = "DecodeRune (drop i src)"
  from True assms(1) have n: "nxt = i + snd ?d" "\<not> badRune ?d"
    by (auto simp: scanStringUnicodeRun_def Let_def split: if_splits)
  have ne: "drop i src \<noteq> []" using assms(2) by simp
  note g = DecodeRune_good [OF ne n(2)]
  have "subslice src i nxt = take (snd ?d) (drop i src)" using n by (simp add: subslice_def)
  moreover have "hd (take (snd ?d) (drop i src)) = src ! i"
    using DecodeRune_size [OF ne] assms(2) by (simp add: hd_drop_conv_nth)
  moreover have "ch_backslash \<notin> set s" if "utf8_seq s" "0x80 \<le> hd s" for s
    using that by (cases rule: utf8_seq_cases) (auto simp: acceptSecond_def contByte_def leadSize_def split: if_splits)
  ultimately show ?thesis using g(2) assms(3) by simp
next
  case False
  with assms(1) have "nxt = scanBytes isStringSyntax src i (length src)"
    using assms(2) by (auto simp: scanStringUnicodeRun_def Let_def scanStringSyntax_eq)
  with scanBytes_props [of i "length src", where stop = isStringSyntax and src = src] assms(2) show ?thesis
    by (auto simp: in_set_conv_nth slices isStringSyntax_def)
qed

lemma unicodeEscapeFast_le: "unicodeEscapeFast src h bad = Ok j \<Longrightarrow> j \<le> length src"
  using hex4_le [of src h] hex4_le [of src "h + 6"]
  by (auto simp: unicodeEscapeFast_def Let_def split: if_splits prod.splits)

lemma unicodeEscapesFast_le: "unicodeEscapesFast src i e = Ok (j, e') \<Longrightarrow> i \<le> length src \<Longrightarrow> j \<le> length src"
proof (induction src i e rule: unicodeEscapesFast.induct)
  case (1 src i e)
  then show ?case
    by (subst (asm) unicodeEscapesFast.simps)
      (auto split: if_splits outcome.splits dest: unicodeEscapeFast_le)
qed

text \<open>The two branches of the dispatch that continue, over any continuation that agrees from later offsets on.\<close>

lemma escape_agrees:
  assumes j: "j < length src" "src ! j = ch_backslash"
    and rec: "\<And>k. j < k \<Longrightarrow> k \<le> length src \<Longrightarrow> agrees src k True (rec k)"
  shows "agrees src j e (if Suc j \<ge> length src then Fail (Suc j, True)
     else if src ! Suc j \<in> {ch_quote, ch_backslash, ch_slash, ch_b, ch_f, ch_n, ch_r, ch_t} then rec (Suc (Suc j))
     else if src ! Suc j = ch_u then
       (case unicodeEscapeFast src (Suc (Suc j)) (Suc j) of Ok k \<Rightarrow> rec k | Fail p \<Rightarrow> Fail (p, True) | NoFuel \<Rightarrow> NoFuel)
     else Fail (Suc j, True))" (is "agrees src j e (if ?short then _ else if ?simple then _ else if ?u then ?case else _)")
proof -
  consider "?short" | "\<not> ?short" "?simple" | "\<not> ?short" "?u" | "\<not> ?short" "\<not> ?simple" "\<not> ?u" by blast
  then show ?thesis
  proof cases
    case 2
    then have u: "string_unit src j = Advance (Suc (Suc j))" using j by (simp add: string_unit_def validateEscape_def)
    from agrees_escape [OF string_end_Advance [OF u] _ j rec] 2 show ?thesis by simp
  next
    case 3
    note ref = unicodeEscapeFast_reference [of j src "Suc j"]
    show ?thesis
    proof (cases "unicodeEscapeFast src (Suc (Suc j)) (Suc j)")
      case (Ok k)
      with ref 3 j have u: "string_unit src j = Advance k" by simp
      from agrees_escape [OF string_end_Advance [OF u] string_unit_gt [OF u] j rec] 3 Ok
        string_unit_gt [OF u] unicodeEscapeFast_le [OF Ok] show ?thesis by simp
    qed (use ref 3 j in \<open>auto intro: agrees_Fail\<close>)
  qed (use j in \<open>auto intro!: agrees_Fail simp: string_unit_def validateEscape_def\<close>)
qed

lemma run_agrees:
  assumes j: "j < length src" "0x80 \<le> src ! j"
    and rec: "\<And>k. j < k \<Longrightarrow> k \<le> length src \<Longrightarrow> agrees src k e (rec k)"
  shows "agrees src j e (case scanStringUnicodeRun src j of (nxt, Some bad) \<Rightarrow> Fail (bad, e) | (nxt, None) \<Rightarrow> rec nxt)"
proof (cases "scanStringUnicodeRun src j")
  case (Pair nxt bad)
  note run = unicode_run_reference [OF j]
  show ?thesis
  proof (cases bad)
    case None
    with Pair run have n: "j < nxt" "nxt \<le> length src" "string_end src j = string_end src nxt" by simp_all
    from agrees_run [OF n(3) _ unicode_run_clean rec [OF n(1,2)]] n(1) j Pair None show ?thesis by simp
  qed (use Pair run in \<open>simp add: agrees_def\<close>)
qed

lemma scanJSONStringFastFrom_agrees: "i0 \<le> length src \<Longrightarrow> agrees src i0 e0 (scanJSONStringFastFrom src i0 e0)"
proof (induction "length src - i0" arbitrary: i0 e0 rule: less_induct)
  case less
  show ?case
  proof (subst scanJSONStringFastFrom.simps, unfold escapeRunStep_eq bind_outcome_simps prod.case,
      rule unicodeEscapes_agrees, goal_cases)
    case (1 i e)
    have i: "i \<le> length src" using 1 unicodeEscapesFast_le less.prems by blast
    define j where "j = specialFrom src i"
    note ref = specialFrom_reference [OF i, folded j_def]
    have rec: "agrees src k f (scanJSONStringFastFrom src k f)" if "j < k" "k \<le> length src" for k f
      using that 1(1) ref(2) by (intro less.hyps) auto
    consider "length src \<le> j" | "j < length src" "src ! j = ch_quote" | "j < length src" "src ! j = ch_backslash"
      | "j < length src" "src ! j < 0x20" "src ! j \<noteq> ch_quote" "src ! j \<noteq> ch_backslash"
      | "j < length src" "0x80 \<le> src ! j" "src ! j \<noteq> ch_quote" "src ! j \<noteq> ch_backslash" "\<not> src ! j < 0x20"
      using specialFrom_ge [of src i] by (cases "j < length src") (auto simp: j_def [symmetric] isStringSpecial_def)
    note cases_j = this
    show ?case
    proof (rule agrees_run [OF ref], rule cases_j, goal_cases)
      case 2
      then have "string_end src j = Ok (j + 1)" by (simp add: string_end.simps [of src j] string_unit_def)
      then have "agrees src j e (Ok (j + 1, e))" using 2 by (simp add: agrees_def slice_Cons)
      then show ?case using 2 by (simp add: j_def [symmetric])
    next
      case 3
      with escape_agrees [OF 3 rec, of e] show ?case by (simp add: j_def [symmetric] Let_def split del: if_split cong: if_cong)
    next
      case 5
      with run_agrees [OF 5(1,2) rec] show ?case by (simp add: j_def [symmetric])
    qed (auto simp: j_def [symmetric] string_unit_def intro!: agrees_Fail)
  qed
qed

subsection \<open>The entry points\<close>

lemma shortStringLoop_reference:
  assumes "shortStringLoop src i limit = Some j" "limit \<le> length src"
  shows "string_end src i = Ok j \<and> ch_backslash \<notin> set (subslice src i j)"
  using assms
proof (induction src i limit rule: shortStringLoop.induct)
  case (1 src i limit)
  then have i: "i < length src" by (subst (asm) shortStringLoop.simps) (auto split: if_splits)
  show ?case
  proof (cases "src ! i = ch_quote")
    case True
    with "1.prems" i show ?thesis
      by (auto simp: shortStringLoop.simps [of src i limit] string_end.simps [of src i] string_unit_def slice_Cons
          split: if_splits)
  next
    case False
    with "1.prems" have lim: "i < limit" and c: "src ! i \<noteq> ch_backslash" "\<not> src ! i < 0x20" "src ! i < 0x80"
      and l: "shortStringLoop src (i + 1) limit = Some j"
      by (auto simp: shortStringLoop.simps [of src i limit] Let_def not_le split: if_splits)
    with "1.IH" [OF lim refl False _ l] "1.prems" have
      ih: "string_end src (Suc i) = Ok j" "ch_backslash \<notin> set (subslice src (Suc i) j)" by (auto simp: not_le)
    have "string_unit src i = Advance (Suc i)" using False i c by (simp add: string_unit_def)
    with ih i c string_end_bounds [OF ih(1)] show ?thesis by (simp add: string_end_Advance slice_Cons)
  qed
qed

lemma probeWord_reference:
  assumes "start + 8 \<le> length src"
  shows "case probeWord src start of
      Some j \<Rightarrow> scanStringSpecial src start = j \<and> j < length src
    | None \<Rightarrow> string_end src (start + 8) = string_end src start"
proof (cases "stringSpecialMask (le64 src start) = 0")
  case True
  have "string_end src (start + 8) = string_end src start"
    using string_end_scan [of "start + 8" src] string_end_scan [of start src] assms
      special.word_miss [OF assms order_refl True] by simp
  with True show ?thesis by (simp add: probeWord_def)
next
  case False
  note hit = special.word_hit [OF assms order_refl False]
  have "TrailingZeros64 (stringSpecialMask (le64 src start)) div 8 < 8"
    using TrailingZeros64_lt [OF False] by simp
  with False hit assms show ?thesis by (simp add: probeWord_def scanStringSpecial_eq)
qed

text \<open>C10: The scanner behind the bool-only paths agrees with the validator on every string token: it returns the same
  end, fails on the same inputs, and its flag is set exactly when the contents hold an escape; the eight-byte
  loop for short strings does not change any result.\<close>

theorem scanJSONStringFast_parseString:
  assumes "i < length src"
  shows "case scanJSONStringFast src i short of
      Ok (j, e) \<Rightarrow> parseString src i = Ok j \<and> (e \<longleftrightarrow> ch_backslash \<in> set (subslice src (i + 1) j))
    | Fail _ \<Rightarrow> \<exists>err. parseString src i = Fail err
    | NoFuel \<Rightarrow> False"
proof (cases "if short then scanShortJSONString src i else None")
  case None
  have "agrees src (Suc i) False (scanJSONStringFastFrom src (Suc i) False)"
    using assms by (intro scanJSONStringFastFrom_agrees) simp
  then show ?thesis using assms None
    by (auto simp: scanJSONStringFast_def scanJSONStringFastLong_def agrees_def parseString_end
        split: outcome.splits)
next
  case (Some j)
  then have "shortStringLoop src (Suc i) (min (i + 9) (length src)) = Some j"
    by (simp add: scanShortJSONString_def split: if_splits)
  from shortStringLoop_reference [OF this] Some assms show ?thesis
    by (simp add: scanJSONStringFast_def parseString_end)
qed

theorem scanJSONStringFast_parseString_witness:
  "case scanJSONStringFast [ch_quote, ch_u, ch_quote] 0 True of
      Ok (j, e) \<Rightarrow> parseString [ch_quote, ch_u, ch_quote] 0 = Ok j
        \<and> (e \<longleftrightarrow> ch_backslash \<in> set (subslice [ch_quote, ch_u, ch_quote] (0 + 1) j))
    | Fail _ \<Rightarrow> \<exists>err. parseString [ch_quote, ch_u, ch_quote] 0 = Fail err
    | NoFuel \<Rightarrow> False"
  by (rule scanJSONStringFast_parseString) simp

text \<open>The same outcome, up to the position a failing scan reports.\<close>

definition same_end :: "(SyntaxError, nat) outcome \<Rightarrow> (nat, nat) outcome \<Rightarrow> bool" where
  "same_end ref r \<longleftrightarrow> (case r of Ok j \<Rightarrow> ref = Ok j | Fail _ \<Rightarrow> \<exists>err. ref = Fail err | NoFuel \<Rightarrow> False)"

lemma same_end_Ok [simp]: "same_end ref (Ok j) \<longleftrightarrow> ref = Ok j"
  by (simp add: same_end_def)

lemma dropFlag_agrees:
  "agrees src i e r \<Longrightarrow> same_end (string_end src i) (dropFlag r)"
  by (auto simp: agrees_def dropFlag_def same_end_def split: outcome.splits)

lemma finishStringFast_reference:
  assumes "start \<le> length src"
  shows "same_end (string_end src start) (finishStringFast src start)"
proof -
  define stop where "stop = scanStringSpecial src start"
  have s: "string_end src start = string_end src stop" "stop \<le> length src"
    using string_end_scan [OF assms] scanBytes_props(2) [OF assms] assms by (simp_all add: stop_def scanStringSpecial_eq)
  show ?thesis
  proof (cases "stop < length src \<and> src ! stop = ch_quote")
    case True
    then have "string_end src stop = Ok (Suc stop)" by (simp add: string_end.simps [of src stop] string_unit_def)
    with True s show ?thesis by (simp add: finishStringFast_def stop_def [symmetric])
  next
    case False
    with s dropFlag_agrees [OF scanJSONStringFastFrom_agrees [OF s(2)], of False] show ?thesis
      by (auto simp: finishStringFast_def stop_def [symmetric] Let_def)
  qed
qed

lemma validStringFast_reference:
  assumes i: "i < length src"
  shows "same_end (string_end src (Suc i)) (validStringFast src i)"
proof -
  have long: "same_end (string_end src (Suc i)) (dropFlag (scanJSONStringFastLong src i))"
    using dropFlag_agrees [OF scanJSONStringFastFrom_agrees, of "Suc i" src False] i
    by (simp add: scanJSONStringFastLong_def)
  have quote: "string_end src s = Ok (Suc j)" if "scanStringSpecial src s = j" "j < length src" "src ! j = ch_quote" for s j
  proof -
    have "s \<le> length src" using that scanStringSpecial_beyond [of src s] by (cases "s \<le> length src") auto
    with that string_end_scan [of s src] show ?thesis
      by (simp add: scanStringSpecial_eq string_end.simps [of src j] string_unit_def)
  qed
  have fin: "same_end (string_end src (Suc i)) (finishStringFast src s)"
    if "s \<le> length src" "string_end src s = string_end src (Suc i)" for s
    using finishStringFast_reference [OF that(1)] that(2) by simp
  note probe1 = probeWord_reference [of "Suc i" src] and probe2 = probeWord_reference [of "Suc i + 8" src]
  show ?thesis
  proof (cases "Suc i + 8 \<le> length src")
    case w1: True
    show ?thesis
    proof (cases "probeWord src (Suc i)")
      case (Some j)
      with w1 probe1 quote [of "Suc i" j] long show ?thesis by (simp add: validStringFast_def)
    next
      case None
      with w1 probe1 have e: "string_end src (Suc i + 8) = string_end src (Suc i)" by simp
      with None w1 probe2 quote [of "Suc i + 8"] fin [of "Suc i + 8"] fin [of "Suc i + 8 + 8"] show ?thesis
        by (auto simp: validStringFast_def Let_def split: option.splits)
    qed
  next
    case False
    with long show ?thesis by (simp add: validStringFast_def)
  qed
qed

end
