(* ===== verification/ParserString.thy ===== *)
theory ParserString
  imports Runes StringFast
begin

text \<open>
  The decoding string parser of \<^verbatim>\<open>parser.go\<close>: one pass that validates and unescapes. The arena block the code
  appends to is modelled from \<^verbatim>\<open>outStart\<close> on, which is the part that is returned; \<open>None\<close> stands for
  \<^verbatim>\<open>outStart < 0\<close>. Its result is compared with the validator's scan and with \<open>unescape\<close>.
\<close>

subsection \<open>The parser\<close>

definition appendEscapedRune :: "bytes \<Rightarrow> rune \<Rightarrow> bytes" where
  "appendEscapedRune dst r =
     (if r \<le> 0x7F then dst @ [ucast r]
      else if r \<le> 0x7FF then dst @ [0xC0 OR ucast (drop_bit 6 r), 0x80 OR (ucast r AND 0x3F)]
      else if r \<le> 0xFFFF then
        dst @ [0xE0 OR ucast (drop_bit 12 r), 0x80 OR (ucast (drop_bit 6 r) AND 0x3F), 0x80 OR (ucast r AND 0x3F)]
      else dst @ [0xF0 OR ucast (drop_bit 18 r), 0x80 OR (ucast (drop_bit 12 r) AND 0x3F),
                  0x80 OR (ucast (drop_bit 6 r) AND 0x3F), 0x80 OR (ucast r AND 0x3F)])"

text \<open>\<open>i\<close> is at the \<^verbatim>\<open>u\<close> of the escape.\<close>

definition parseUnicodeEscape :: "bytes \<Rightarrow> nat \<Rightarrow> (SyntaxError, rune \<times> nat) outcome" where
  "parseUnicodeEscape src i =
     (let start = int i - 1; i = i + 1 in
      case hex4 src i of (u, ok) \<Rightarrow>
      if \<not> ok then err_at src start ''invalid unicode escape''
      else let i = i + 4; r = ucast u :: rune in
        if 0xD800 \<le> r \<and> r \<le> 0xDBFF then
          if i + 6 > length src \<or> src ! i \<noteq> ch_backslash \<or> src ! (i + 1) \<noteq> ch_u then err_at src start ''missing low surrogate''
          else let i = i + 2 in
            case hex4 src i of (lo, ok) \<Rightarrow>
            if \<not> ok then err_at src start ''invalid low surrogate''
            else let lor = ucast lo :: rune in
              if lor < 0xDC00 \<or> lor > 0xDFFF then err_at src start ''invalid low surrogate''
              else Ok (utf16DecodeRune r lor, i + 4)
        else if 0xDC00 \<le> r \<and> r \<le> 0xDFFF then err_at src start ''unexpected low surrogate''
        else Ok (r, i))"

definition appendEscape :: "bytes \<Rightarrow> bytes \<Rightarrow> nat \<Rightarrow> (SyntaxError, bytes \<times> nat) outcome" where
  "appendEscape src out i =
     (let c = src ! i in
      if c = ch_quote \<or> c = ch_backslash \<or> c = ch_slash then Ok (out @ [c], i + 1)
      else if c = ch_b then Ok (out @ [0x08], i + 1)
      else if c = ch_f then Ok (out @ [0x0C], i + 1)
      else if c = ch_n then Ok (out @ [ch_lf], i + 1)
      else if c = ch_r then Ok (out @ [ch_cr], i + 1)
      else if c = ch_t then Ok (out @ [ch_tab], i + 1)
      else if c = ch_u then
        bind_outcome (parseUnicodeEscape src i) (\<lambda>(r, i). Ok (appendEscapedRune out r, i))
      else err_at src (int i - 1) ''invalid escape sequence'')"

text \<open>The word-wide loop of \<^verbatim>\<open>appendUnicodeEscapeRun\<close>, which leaves surrogates to the second loop.\<close>

function unicodeWordRun :: "bytes \<Rightarrow> bytes \<Rightarrow> nat \<Rightarrow> (SyntaxError, bytes \<times> nat) outcome" where
  "unicodeWordRun src out i =
     (if i + 8 \<le> length src then
        let w = le64 src i in
        if (ucast w :: 16 word) \<noteq> 0x755C then Ok (out, i)
        else
          let a = hexNibbleTable (ucast (drop_bit 16 w)); b = hexNibbleTable (ucast (drop_bit 24 w));
              c = hexNibbleTable (ucast (drop_bit 32 w)); d = hexNibbleTable (ucast (drop_bit 40 w)) in
          if a OR b OR c OR d \<ge> 0x10 then err_at src (int i) ''invalid unicode escape''
          else
            let u = push_bit 12 (ucast a) OR push_bit 8 (ucast b) OR push_bit 4 (ucast c) OR ucast d :: rune in
            if u - 0xD800 < 0x800 then Ok (out, i)
            else unicodeWordRun src
              (if u < 0x80 then out @ [ucast u]
               else if u < 0x800 then out @ [0xC0 OR ucast (drop_bit 6 u), 0x80 OR (ucast u AND 0x3F)]
               else out @ [0xE0 OR ucast (drop_bit 12 u), 0x80 OR (ucast (drop_bit 6 u) AND 0x3F), 0x80 OR (ucast u AND 0x3F)])
              (i + 6)
      else Ok (out, i))"
  by pat_completeness auto
termination by (relation "measure (\<lambda>(src, out, i). length src - i)") auto

declare unicodeWordRun.simps [simp del]

text \<open>One turn of the second loop, at \<^verbatim>\<open>escapeStart\<close>.\<close>

definition unicodeTailStep :: "bytes \<Rightarrow> nat \<Rightarrow> (SyntaxError, rune \<times> nat) outcome" where
  "unicodeTailStep src escapeStart =
     (case hex4 src (escapeStart + 2) of (u, ok) \<Rightarrow>
      if \<not> ok then err_at src (int escapeStart) ''invalid unicode escape''
      else let i = escapeStart + 6; r = ucast u :: rune in
        if 0xD800 \<le> r \<and> r \<le> 0xDBFF then
          if i + 6 > length src \<or> src ! i \<noteq> ch_backslash \<or> src ! (i + 1) \<noteq> ch_u then err_at src (int escapeStart) ''missing low surrogate''
          else (case hex4 src (i + 2) of (lo, ok) \<Rightarrow>
            if \<not> ok \<or> lo < 0xDC00 \<or> lo > 0xDFFF then err_at src (int escapeStart) ''invalid low surrogate''
            else Ok (utf16DecodeRune r (ucast lo), i + 6))
        else if 0xDC00 \<le> r \<and> r \<le> 0xDFFF then err_at src (int escapeStart) ''unexpected low surrogate''
        else Ok (r, i))"

lemma unicodeTailStep_gt: "unicodeTailStep src i = Ok (r, j) \<Longrightarrow> i + 6 \<le> j"
  by (auto simp: unicodeTailStep_def Let_def split: if_splits prod.splits)

function unicodeTailRun :: "bytes \<Rightarrow> bytes \<Rightarrow> nat \<Rightarrow> (SyntaxError, bytes \<times> nat) outcome" where
  "unicodeTailRun src out i =
     (if i + 6 \<le> length src \<and> src ! i = ch_backslash \<and> src ! (i + 1) = ch_u then
        bind_outcome (unicodeTailStep src i) (\<lambda>(r, i). unicodeTailRun src (appendEscapedRune out r) i)
      else Ok (out, i))"
  by pat_completeness auto
termination
  by (relation "measure (\<lambda>(src, out, i). length src - i)") (auto dest!: unicodeTailStep_gt)

declare unicodeTailRun.simps [simp del]

definition appendUnicodeEscapeRun :: "bytes \<Rightarrow> bytes \<Rightarrow> nat \<Rightarrow> (SyntaxError, bytes \<times> nat) outcome" where
  "appendUnicodeEscapeRun src out i = bind_outcome (unicodeWordRun src out i) (\<lambda>(out, i). unicodeTailRun src out i)"

subsection \<open>Escapes against the reference\<close>

lemma rune_bounds: "(ucast (u :: 16 word) :: rune) < 0xDC00 \<longleftrightarrow> u < 0xDC00" "(ucast u :: rune) > 0xDFFF \<longleftrightarrow> u > 0xDFFF"
  by (simp_all add: word_less_nat_alt)

lemma parseUnicodeEscape_tail: "parseUnicodeEscape src (i + 1) = unicodeTailStep src i"
proof -
  have e: "i + 1 + 1 = i + 2" "i + 2 + 4 = i + 6" "i + 6 + 2 + 4 = i + 6 + 6" "int (i + 1) - 1 = int i" by simp_all
  obtain u ok lo ok' where h: "hex4 src (i + 2) = (u, ok)" "hex4 src (i + 6 + 2) = (lo, ok')" by (metis surj_pair)
  show ?thesis
    unfolding parseUnicodeEscape_def unicodeTailStep_def Let_def e h prod.case by (auto simp: rune_bounds)
qed

lemma unicodeTailStep_reference:
  assumes "i + 1 < length src" "src ! (i + 1) = ch_u"
  shows "case escape_unit (drop i src) of
      None \<Rightarrow> \<exists>e. unicodeTailStep src i = Fail e
    | Some (d, n) \<Rightarrow> \<exists>r. unicodeTailStep src i = Ok (r, i + n) \<and> d = encodeRune r \<and> RuneLen r \<noteq> - 1"
proof (cases "hexnum (take 4 (drop (i + 2) src))")
  case None
  then have "\<not> snd (hex4 src (i + 2))" using hex4_hexnum [of src "i + 2"] by (metis option.simps(4) snd_conv)
  then show ?thesis unfolding escape_unit_at [OF assms] None by (auto simp: unicodeTailStep_def split: prod.splits)
next
  case (Some k)
  note w = hexnum_word [OF Some] and b = hexnum_bound [OF Some]
  have h4: "hex4 src (i + 2) = (word_of_nat k, True)" using hex4_hexnum [of src "i + 2"] Some by simp
  have uk: "unat (word_of_nat k :: rune) = k" using b by (simp add: unat_of_nat)
  have pair: "0xD800 \<le> (word_of_nat k :: rune) \<and> (word_of_nat k :: rune) \<le> 0xDBFF \<longleftrightarrow> high_surrogate k"
    "0xDC00 \<le> (word_of_nat k :: rune) \<and> (word_of_nat k :: rune) \<le> 0xDFFF \<longleftrightarrow> low_surrogate k"
    unfolding word_le_nat_alt uk by (simp_all add: high_surrogate_def low_surrogate_def)
  note unfold = escape_unit_at [OF assms] Some unicodeTailStep_def h4 Let_def
  show ?thesis
  proof (cases "high_surrogate k")
    case False
    have "RuneLen (word_of_nat k) \<noteq> - 1" if "\<not> low_surrogate k"
      using False that b by (auto simp: RuneLen_def word_le_nat_alt uk high_surrogate_def low_surrogate_def)
    then show ?thesis using False unfolding unfold by (simp add: w(2) pair)
  next
    case hi: True
    let ?low = "hexnum (take 4 (drop (i + 6 + 2) src))"
    show ?thesis
    proof (cases "\<exists>m. take 2 (drop (i + 6) src) = [ch_backslash, ch_u] \<and> ?low = Some m \<and> low_surrogate m")
      case True
      then obtain m where m: "take 2 (drop (i + 6) src) = [ch_backslash, ch_u]" "?low = Some m" "low_surrogate m" by blast
      have len: "\<not> i + 6 + 6 > length src" using hexnum_length [OF m(2)] by simp
      have bu: "src ! (i + 6) = ch_backslash" "src ! (i + 6 + 1) = ch_u" using m(1) two_at [of "i + 6" src] len by simp_all
      have lo: "hex4 src (i + 6 + 2) = (word_of_nat m, True)" using hex4_hexnum [of src "i + 6 + 2"] m(2) by simp
      have range: "\<not> (word_of_nat m :: 16 word) < 0xDC00" "\<not> (word_of_nat m :: 16 word) > 0xDFFF"
        using m(3) hexnum_word(1) [OF m(2)] by (simp_all add: word_less_nat_alt low_surrogate_def)
      note s = surrogate_sum(2,3) [OF hi m(3)]
      have "RuneLen r \<noteq> - 1" if "r = word_of_nat (0x10000 + (k - 0xD800) * 0x400 + (m - 0xDC00))" for r
        using s unfolding that [symmetric] by (auto simp: RuneLen_def word_le_nat_alt)
      moreover have "unicodeTailStep src i = Ok (word_of_nat (0x10000 + (k - 0xD800) * 0x400 + (m - 0xDC00)), i + 12)"
        unfolding unfold prod.case w(2) pair lo hexnum_word(2) [OF m(2)] utf16DecodeRune_pair [OF hi m(3)]
        using hi len bu range by simp
      ultimately show ?thesis unfolding escape_unit_at [OF assms] Some using hi m by simp
    next
      case False
      have none: "escape_unit (drop i src) = None"
        using False hi unfolding escape_unit_at [OF assms] Some by (auto split: option.splits)
      have "\<exists>e. unicodeTailStep src i = Fail e"
      proof (cases "i + 6 + 6 > length src \<or> src ! (i + 6) \<noteq> ch_backslash \<or> src ! (i + 6 + 1) \<noteq> ch_u")
        case True
        then show ?thesis using hi unfolding unfold prod.case w(2) pair by simp
      next
        case g: False
        then have t: "take 2 (drop (i + 6) src) = [ch_backslash, ch_u]" using two_at [of "i + 6" src] by simp
        have "\<not> snd (hex4 src (i + 6 + 2)) \<or> fst (hex4 src (i + 6 + 2)) < 0xDC00 \<or> fst (hex4 src (i + 6 + 2)) > 0xDFFF"
        proof (cases ?low)
          case None
          then show ?thesis using hex4_hexnum [of src "i + 6 + 2"] by (metis option.simps(4) snd_conv)
        next
          case (Some m)
          then have "\<not> low_surrogate m" using False t by blast
          with hex4_hexnum [of src "i + 6 + 2"] Some hexnum_word(1) [OF Some] show ?thesis
            by (auto simp: low_surrogate_def word_less_nat_alt)
        qed
        then show ?thesis using hi g unfolding unfold prod.case w(2) pair by (auto split: prod.splits)
      qed
      then show ?thesis unfolding none by simp
    qed
  qed
qed

lemma appendEscapedRune_encode: "RuneLen r \<noteq> - 1 \<Longrightarrow> appendEscapedRune out r = out @ encodeRune r"
  by (auto simp: appendEscapedRune_def RuneLen_def encodeRune_def Let_def word_le_nat_alt word_less_nat_alt split: if_splits)

lemma escape_unit_sound:
  assumes "i < length src" "src ! i = ch_backslash" "escape_unit (drop i src) = Some (d, n)"
  shows "jchar (take n (drop i src)) d" "i + n \<le> length src" "0 < n"
proof -
  define s where "s = drop i src"
  have l: "1 < length s" using assms(3) unfolding s_def by (auto simp: escape_unit_def split: if_splits)
  then obtain c t where s: "s = ch_backslash # c # t"
    using assms(1,2) Cons_nth_drop_Suc [OF assms(1)] unfolding s_def
    by (cases "drop (Suc i) src") (auto dest: sym)
  have "jchar (take n s) d \<and> n \<le> length s \<and> 0 < n"
  proof (cases "c = ch_u")
    case False
    then show ?thesis using assms(3) s unfolding s_def [symmetric] by (auto simp: escape_unit_def intro: jc_escape)
  next
    case True
    have e: "escape_unit s = Some (d, n)" using assms(3) s_def by simp
    from e True s obtain k where k: "hexnum (take 4 t) = Some k" by (auto simp: escape_unit_def split: option.splits)
    note lk = hexnum_length [OF k]
    show ?thesis
    proof (cases "high_surrogate k")
      case False
      with e True s k have "\<not> low_surrogate k" "d = encodeRune (word_of_nat k)" "n = 6"
        by (auto simp: escape_unit_def split: if_splits)
      then show ?thesis using s True lk jc_unicode [OF k False] by simp
    next
      case hi: True
      have six: "drop 6 s = drop 4 t" "drop 8 s = drop 2 (drop 4 t)" using s by simp_all
      from e True s k hi six obtain m where m: "take 2 (drop 4 t) = [ch_backslash, ch_u]" "hexnum (take 4 (drop 2 (drop 4 t))) = Some m"
          "low_surrogate m" "d = encodeRune (word_of_nat (0x10000 + (k - 0xD800) * 0x400 + (m - 0xDC00)))" "n = 12"
        by (auto simp: escape_unit_def split: if_splits option.splits)
      have "take 10 t = take 4 t @ take 6 (drop 4 t)" using take_add [of 4 6 t] by simp
      also have "take 6 (drop 4 t) = take 2 (drop 4 t) @ take 4 (drop 2 (drop 4 t))" using take_add [of 2 4 "drop 4 t"] by simp
      finally have "take 12 s = ch_backslash # ch_u # take 4 t @ ch_backslash # ch_u # take 4 (drop 2 (drop 4 t))"
        using s True m(1) by simp
      moreover have "12 \<le> length s" using hexnum_length [OF m(2)] s by simp
      ultimately show ?thesis using jc_pair [OF k hi m(2,3)] m(4,5) by simp
    qed
  qed
  then show "jchar (take n (drop i src)) d" "i + n \<le> length src" "0 < n" using assms(1) unfolding s_def by auto
qed

subsection \<open>Runs of escapes\<close>

text \<open>\<open>decodes src i j d\<close>: the bytes from \<open>i\<close> to \<open>j\<close> are whole characters with meaning \<open>d\<close>.\<close>

definition decodes :: "bytes \<Rightarrow> nat \<Rightarrow> nat \<Rightarrow> bytes \<Rightarrow> bool" where
  "decodes src i j d \<longleftrightarrow> i \<le> j \<and> j \<le> length src \<and> jchars (subslice src i j) d"

lemma decodes_refl: "i \<le> length src \<Longrightarrow> decodes src i i []"
  by (simp add: decodes_def jchars_nil)

lemma jchars_append: "jchars a d \<Longrightarrow> jchars b e \<Longrightarrow> jchars (a @ b) (d @ e)"
  by (induction rule: jchars.induct) (auto simp: jchars_cons)

lemma decodes_trans: "decodes src i j d \<Longrightarrow> decodes src j k e \<Longrightarrow> decodes src i k (d @ e)"
  using slice_append_slice [of i j k src] jchars_append [of "subslice src i j" d "subslice src j k" e]
  unfolding decodes_def by auto

lemma decodes_escape:
  assumes "i < length src" "src ! i = ch_backslash" "escape_unit (drop i src) = Some (d, n)"
  shows "decodes src i (i + n) d" "i < i + n"
proof -
  note e = escape_unit_sound [OF assms]
  have "subslice src i (i + n) = take n (drop i src)" by (simp add: subslice_def)
  then show "decodes src i (i + n) d" using e jchars_cons [OF e(1) jchars_nil] by (simp add: decodes_def)
  show "i < i + n" using e(3) by simp
qed

lemma string_end_decodes:
  assumes "decodes src i j d"
  shows "string_end src i = string_end src j"
proof -
  have "jchars c d \<Longrightarrow> drop i src = c @ rest \<Longrightarrow> string_end src i = string_end src (i + length c)" for c d i rest
  proof (induction arbitrary: i rule: jchars.induct)
    case (jchars_cons c d cs ds)
    then have e: "drop i src = c @ cs @ rest" by simp
    from string_end_Advance [OF string_unit_complete [OF jchars_cons.hyps(1) e]] jchars_cons.IH [OF drop_eq_appendD [OF e]]
    show ?case by (simp add: add.assoc)
  qed simp
  from this [of "subslice src i j" d i "drop j src"] assms show ?thesis
    using drop_slice [of i j src] by (simp add: decodes_def length_slice)
qed

lemma escape_bad:
  assumes "i < length src" "src ! i = ch_backslash" "escape_unit (drop i src) = None"
  shows "\<exists>e. string_end src i = Fail e"
proof (cases "string_unit src i")
  case (Advance j)
  then obtain raw dec where r: "jchar raw dec" "drop i src = raw @ drop j src" by (rule string_unit_sound)
  have "hd raw = ch_backslash" using r jchar_nonempty [OF r(1)] assms(1,2) by (metis hd_append hd_drop_conv_nth)
  from escape_unit_jchar [OF r(1) this, of "drop j src"] r(2) assms(3) show ?thesis by simp
next
  case (Bad e)
  then show ?thesis using string_end_Bad by blast
next
  case (Closed j)
  then show ?thesis using assms(1,2) by (auto simp: string_unit_def split: if_splits outcome.splits)
qed

text \<open>\<open>run_ok src i out r\<close>: a run from \<open>i\<close> either appended the meaning of whole characters or met a malformed one.\<close>

definition run_ok :: "bytes \<Rightarrow> nat \<Rightarrow> bytes \<Rightarrow> (SyntaxError, bytes \<times> nat) outcome \<Rightarrow> bool" where
  "run_ok src i out r \<longleftrightarrow> (case r of Ok (out', j) \<Rightarrow> \<exists>d. decodes src i j d \<and> out' = out @ d
     | Fail _ \<Rightarrow> \<exists>e. string_end src i = Fail e | NoFuel \<Rightarrow> False)"

lemma run_ok_step:
  assumes "decodes src i j d" "run_ok src j (out @ d) r"
  shows "run_ok src i out r"
  using assms decodes_trans [OF assms(1)] string_end_decodes [OF assms(1)]
  by (auto simp: run_ok_def split: outcome.splits)

lemma unicodeTailRun_ok: "i \<le> length src \<Longrightarrow> run_ok src i out (unicodeTailRun src out i)"
proof (induction src out i rule: unicodeTailRun.induct)
  case (1 src out i)
  show ?case
  proof (cases "i + 6 \<le> length src \<and> src ! i = ch_backslash \<and> src ! (i + 1) = ch_u")
    case False
    then show ?thesis using "1.prems" decodes_refl by (auto simp: unicodeTailRun.simps [of src out i] run_ok_def)
  next
    case True
    then have b: "i < length src" "i + 1 < length src" "src ! i = ch_backslash" "src ! (i + 1) = ch_u" by auto
    note ref = unicodeTailStep_reference [OF b(2,4)]
    show ?thesis
    proof (cases "escape_unit (drop i src)")
      case None
      with ref obtain e where "unicodeTailStep src i = Fail e" by auto
      with True escape_bad [OF b(1,3) None] show ?thesis by (simp add: unicodeTailRun.simps [of src out i] run_ok_def)
    next
      case (Some dn)
      obtain d n where dn: "dn = (d, n)" by force
      with ref Some obtain r where r: "unicodeTailStep src i = Ok (r, i + n)" "d = encodeRune r" "RuneLen r \<noteq> - 1" by auto
      note d = decodes_escape [OF b(1,3), of d n] and s = Some [unfolded dn]
      have "run_ok src (i + n) (out @ d) (unicodeTailRun src (out @ d) (i + n))"
        using "1.IH" [OF True r(1) refl] d(1) [OF s] r(2,3) by (simp add: appendEscapedRune_encode decodes_def)
      from run_ok_step [OF d(1) [OF s] this] True r show ?thesis
        by (simp add: unicodeTailRun.simps [of src out i] appendEscapedRune_encode)
    qed
  qed
qed

lemma unicode_word:
  assumes "i + 8 \<le> length src"
  defines "w \<equiv> le64 src i"
  shows "(ucast w :: 16 word) = 0x755C \<longleftrightarrow> src ! i = ch_backslash \<and> src ! (i + 1) = ch_u"
    "(ucast (drop_bit 16 w) :: byte) = src ! (i + 2)" "(ucast (drop_bit 24 w) :: byte) = src ! (i + 3)"
    "(ucast (drop_bit 32 w) :: byte) = src ! (i + 4)" "(ucast (drop_bit 40 w) :: byte) = src ! (i + 5)"
proof -
  have l: "lane k w = src ! (i + k)" if "k < 8" for k using lane_le64 [OF assms(1) that] by (simp add: w_def)
  show "(ucast (drop_bit 16 w) :: byte) = src ! (i + 2)" "(ucast (drop_bit 24 w) :: byte) = src ! (i + 3)"
    "(ucast (drop_bit 32 w) :: byte) = src ! (i + 4)" "(ucast (drop_bit 40 w) :: byte) = src ! (i + 5)"
    using l [of 2] l [of 3] l [of 4] l [of 5] by (simp_all add: lane_def)
  have "(ucast w :: 16 word) = 0x755C \<longleftrightarrow> lane 0 w = 0x5C \<and> lane 1 w = 0x75"
  proof -
    have "(ucast w :: 16 word) = push_bit 8 (ucast (lane 1 w)) OR ucast (lane 0 w)"
      by (rule bit_word_eqI) (auto simp: bit_simps bit_lane)
    then have "unat (ucast w :: 16 word) = 256 * unat (lane 1 w) + unat (lane 0 w)"
      using unat_push_or [of "ucast (lane 0 w) :: 16 word" 8 "ucast (lane 1 w)"] unsigned_less [of "lane 0 w", where 'a = nat]
        unsigned_less [of "lane 1 w", where 'a = nat]
      by (simp add: unsigned_ucast_eq take_bit_eq_mod)
    then have "(ucast w :: 16 word) = 0x755C \<longleftrightarrow> 256 * unat (lane 1 w) + unat (lane 0 w) = 0x755C"
      by (simp add: word_unat_eq_iff)
    moreover have "256 * x + y = 0x755C \<longleftrightarrow> x = 0x75 \<and> y = 0x5C" if "y < 256" for x y :: nat using that by presburger
    ultimately show ?thesis using unsigned_less [of "lane 0 w", where 'a = nat] by (auto simp: word_unat_eq_iff)
  qed
  then show "(ucast w :: 16 word) = 0x755C \<longleftrightarrow> src ! i = ch_backslash \<and> src ! (i + 1) = ch_u" using l [of 0] l [of 1] by simp
qed

lemma hex4_wide:
  fixes a b c d :: byte
  assumes "a < 0x10"
  shows "(push_bit 12 (ucast a) OR push_bit 8 (ucast b) OR push_bit 4 (ucast c) OR ucast d :: rune)
    = ucast (push_bit 12 (ucast a) OR push_bit 8 (ucast b) OR push_bit 4 (ucast c) OR ucast d :: 16 word)"
proof (rule bit_word_eqI)
  fix n assume "n < LENGTH(32)"
  have w: "bit (ucast x :: rune) k \<longleftrightarrow> bit x k" "bit (ucast x :: 16 word) k \<longleftrightarrow> bit x k" for x :: byte and k
    by (auto simp: bit_simps dest: bit_byte_lt)
  have lt: "bit a k \<Longrightarrow> k < 4" "bit b k \<Longrightarrow> k < 8" "bit c k \<Longrightarrow> k < 8" "bit d k \<Longrightarrow> k < 8" for k
    using nibble_bit [OF assms, of k] bit_byte_lt by (meson not_le)+
  have "n < 16" if "12 \<le> n \<and> bit a (n - 12) \<or> 8 \<le> n \<and> bit b (n - 8) \<or> 4 \<le> n \<and> bit c (n - 4) \<or> bit d n"
    using that lt(1) [of "n - 12"] lt(2) [of "n - 8"] lt(3) [of "n - 4"] lt(4) [of n] by linarith
  then show "bit (push_bit 12 (ucast a) OR push_bit 8 (ucast b) OR push_bit 4 (ucast c) OR ucast d :: rune) n
    = bit (ucast (push_bit 12 (ucast a) OR push_bit 8 (ucast b) OR push_bit 4 (ucast c) OR ucast d :: 16 word) :: rune) n"
    using \<open>n < LENGTH(32)\<close> by (auto simp: bit_or_iff bit_push_bit_iff w bit_ucast_iff)
qed

lemma surrogate_range: "n < 0x10000 \<Longrightarrow> (word_of_nat n :: rune) - 0xD800 < 0x800 \<longleftrightarrow> high_surrogate n \<or> low_surrogate n"
proof -
  assume "n < 0x10000"
  then have "unat (word_of_nat n :: rune) = n" by (simp add: unat_of_nat)
  then have "unat ((word_of_nat n :: rune) - 0xD800) = (if 0xD800 \<le> n then n - 0xD800 else n + 4294967296 - 0xD800)"
    by (auto simp: unat_sub_if_size word_le_nat_alt word_size)
  with \<open>n < 0x10000\<close> show ?thesis by (auto simp: word_less_nat_alt high_surrogate_def low_surrogate_def)
qed

text \<open>The digits of the word loop: its test and its value.\<close>

lemma word_digits:
  assumes "i + 6 \<le> length src"
  defines "a \<equiv> hexNibbleTable (src ! (i + 2))" and "b \<equiv> hexNibbleTable (src ! (i + 3))"
    and "c \<equiv> hexNibbleTable (src ! (i + 4))" and "d \<equiv> hexNibbleTable (src ! (i + 5))"
  shows "a OR b OR c OR d \<ge> 0x10 \<longleftrightarrow> hexnum (take 4 (drop (i + 2) src)) = None"
    "hexnum (take 4 (drop (i + 2) src)) = Some n
      \<Longrightarrow> (push_bit 12 (ucast a) OR push_bit 8 (ucast b) OR push_bit 4 (ucast c) OR ucast d :: rune) = word_of_nat n"
proof -
  have e: "i + 2 + 1 = i + 3" "i + 2 + 2 = i + 4" "i + 2 + 3 = i + 5" by simp_all
  have h: "hex4 src (i + 2) = (push_bit 12 (ucast a) OR push_bit 8 (ucast b) OR push_bit 4 (ucast c) OR ucast d, a OR b OR c OR d < 0x10)"
    unfolding hex4_def e a_def b_def c_def d_def Let_def using assms(1) by simp
  show "a OR b OR c OR d \<ge> 0x10 \<longleftrightarrow> hexnum (take 4 (drop (i + 2) src)) = None"
    using hex4_hexnum [of src "i + 2"] h by (auto simp: not_less [symmetric] split: option.splits)
  show "(push_bit 12 (ucast a) OR push_bit 8 (ucast b) OR push_bit 4 (ucast c) OR ucast d :: rune) = word_of_nat n"
    if "hexnum (take 4 (drop (i + 2) src)) = Some n"
  proof -
    have ok: "hex4 src (i + 2) = (word_of_nat n, True)" using hex4_hexnum [of src "i + 2"] that by simp
    then have "a OR (b OR c OR d) < 0x10" using h by (simp add: or.assoc)
    then have "a < 0x10" by (simp only: nibbles_lt)
    from hex4_wide [OF this] ok h hexnum_word(2) [OF that] show ?thesis by simp
  qed
qed

lemma unicodeWordRun_ok: "i \<le> length src \<Longrightarrow> run_ok src i out (unicodeWordRun src out i)"
proof (induction "length src - i" arbitrary: out i rule: less_induct)
  case less
  note unfold = unicodeWordRun.simps [of src out i]
  have stop: "run_ok src i out (Ok (out, i))" using less.prems decodes_refl by (auto simp: run_ok_def)
  show ?case
  proof (cases "i + 8 \<le> length src \<and> src ! i = ch_backslash \<and> src ! (i + 1) = ch_u")
    case False
    then show ?thesis using stop unicode_word(1) [of i src] by (auto simp: unfold)
  next
    case True
    then have b: "i < length src" "i + 1 < length src" "i + 6 \<le> length src" "i + 8 \<le> length src"
        "src ! i = ch_backslash" "src ! (i + 1) = ch_u" by auto
    note w = unicode_word [OF b(4)]
    have p: "(ucast (le64 src i) :: 16 word) = 0x755C" using w(1) b by simp
    show ?thesis
    proof (cases "hexnum (take 4 (drop (i + 2) src))")
      case None
      then have "escape_unit (drop i src) = None" using escape_unit_at [OF b(2,6)] by simp
      with escape_bad [OF b(1,5)] have "\<exists>e. string_end src i = Fail e" by blast
      moreover have "\<exists>e. unicodeWordRun src out i = Fail e"
        unfolding unfold Let_def w(2-5) using b(4) p word_digits(1) [OF b(3)] None by simp
      ultimately show ?thesis by (auto simp: run_ok_def)
    next
      case (Some n)
      define u where "u = (word_of_nat n :: rune)"
      note bound = hexnum_bound [OF Some]
      note dg = word_digits [OF b(3)]
      have nb: "\<not> 0x10 \<le> hexNibbleTable (src ! (i + 2)) OR hexNibbleTable (src ! (i + 3)) OR hexNibbleTable (src ! (i + 4))
          OR hexNibbleTable (src ! (i + 5))" using dg(1) Some by simp
      have sur: "u - 0xD800 < 0x800 \<longleftrightarrow> high_surrogate n \<or> low_surrogate n" unfolding u_def by (rule surrogate_range [OF bound])
      let ?out = "if u < 0x80 then out @ [ucast u]
               else if u < 0x800 then out @ [0xC0 OR ucast (drop_bit 6 u), 0x80 OR (ucast u AND 0x3F)]
               else out @ [0xE0 OR ucast (drop_bit 12 u), 0x80 OR (ucast (drop_bit 6 u) AND 0x3F), 0x80 OR (ucast u AND 0x3F)]"
      have step: "unicodeWordRun src out i = (if u - 0xD800 < 0x800 then Ok (out, i) else unicodeWordRun src ?out (i + 6))"
        unfolding unfold Let_def w(2-5) dg(2) [OF Some] u_def [symmetric] using b(4) p nb by simp
      show ?thesis
      proof (cases "u - 0xD800 < 0x800")
        case True
        then show ?thesis using stop step by simp
      next
        case False
        then have e: "escape_unit (drop i src) = Some (encodeRune u, 6)"
          using sur escape_unit_at [OF b(2,6)] Some by (simp add: u_def)
        have "unat u = n" using bound by (simp add: u_def unat_of_nat)
        then have "RuneLen u \<noteq> - 1" "appendEscapedRune out u = ?out"
          using False sur bound by (auto simp: RuneLen_def appendEscapedRune_def word_le_nat_alt word_less_nat_alt
              high_surrogate_def low_surrogate_def)
        then have o: "?out = out @ encodeRune u" using appendEscapedRune_encode by metis
        have "run_ok src (i + 6) ?out (unicodeWordRun src ?out (i + 6))"
          using less.hyps [of "i + 6" ?out] b(3) by simp
        then show ?thesis using run_ok_step [OF decodes_escape(1) [OF b(1,5) e]] step False unfolding o by simp
      qed
    qed
  qed
qed

lemma run_ok_bind:
  assumes "run_ok src i out r" "\<And>out' j. r = Ok (out', j) \<Longrightarrow> j \<le> length src \<Longrightarrow> run_ok src j out' (k (out', j))"
  shows "run_ok src i out (bind_outcome r k)"
proof (cases r)
  case (Ok p)
  obtain out' j where p: "p = (out', j)" by force
  with assms(1) Ok obtain d where d: "decodes src i j d" "out' = out @ d" by (auto simp: run_ok_def)
  then have "run_ok src j (out @ d) (k (out', j))" using assms(2) Ok p by (auto simp: decodes_def)
  from run_ok_step [OF d(1) this] Ok p show ?thesis by simp
qed (use assms(1) in \<open>simp_all add: run_ok_def\<close>)

lemma appendUnicodeEscapeRun_ok: "i \<le> length src \<Longrightarrow> run_ok src i out (appendUnicodeEscapeRun src out i)"
  unfolding appendUnicodeEscapeRun_def
  by (rule run_ok_bind [OF unicodeWordRun_ok]) (auto intro: unicodeTailRun_ok)

end
