(* ===== verification/ParserLoop.thy ===== *)
theory ParserLoop
  imports ParserString
begin

text \<open>
  The main loop of the decoding string parser (\<^verbatim>\<open>parser.parseString\<close> of \<^verbatim>\<open>parser.go\<close>): it accepts what the
  validator accepts, with the same end, and returns the decoded contents.
\<close>

lemma escapeRun_advances:
  assumes "i + 6 \<le> length src" "src ! i = ch_backslash" "src ! (i + 1) = ch_u" "appendUnicodeEscapeRun src out i = Ok (out', j)"
  shows "i < j"
proof -
  from assms(4) obtain o1 k where w: "unicodeWordRun src out i = Ok (o1, k)" "unicodeTailRun src o1 k = Ok (out', j)"
    by (auto simp: appendUnicodeEscapeRun_def bind_outcome_eq_Ok)
  have "i \<le> k" using unicodeWordRun_ok [of i src out] assms(1) w(1) by (auto simp: run_ok_def decodes_def)
  have kj: "k \<le> j" if "k \<le> length src" using unicodeTailRun_ok [OF that, of o1] w(2) by (auto simp: run_ok_def decodes_def)
  show ?thesis
  proof (cases "k = i")
    case True
    then obtain r m where m: "unicodeTailStep src i = Ok (r, m)" "unicodeTailRun src (appendEscapedRune o1 r) m = Ok (out', j)"
      using w(2) assms(1-3) by (auto simp: unicodeTailRun.simps [of src o1 i] bind_outcome_eq_Ok)
    have "m \<le> j"
    proof (cases "m + 6 \<le> length src")
      case True
      then show ?thesis using unicodeTailRun_ok [of m src "appendEscapedRune o1 r"] m(2) by (auto simp: run_ok_def decodes_def)
    next
      case False
      then show ?thesis using m(2) by (simp add: unicodeTailRun.simps [of src _ m])
    qed
    then show ?thesis using unicodeTailStep_gt [OF m(1)] by simp
  next
    case False
    have "k \<le> length src" using unicodeWordRun_ok [of i src out] assms(1) w(1) by (auto simp: run_ok_def decodes_def)
    then show ?thesis using False \<open>i \<le> k\<close> kj by simp
  qed
qed

lemma appendEscape_gt: "appendEscape src out i = Ok (out', j) \<Longrightarrow> i < j"
  by (auto simp: appendEscape_def parseUnicodeEscape_def bind_outcome_eq_Ok Let_def split: if_splits prod.splits)

text \<open>\<open>chunk out src a i\<close> is what has been produced when \<^verbatim>\<open>src[chunkStart:i]\<close> is appended.\<close>

definition chunk :: "bytes option \<Rightarrow> bytes \<Rightarrow> nat \<Rightarrow> nat \<Rightarrow> bytes" where
  "chunk out src chunkStart i = (case out of None \<Rightarrow> [] | Some o' \<Rightarrow> o') @ subslice src chunkStart i"

text \<open>Where the loop looks next: a backslash stays, anything else is skipped to the next special byte.\<close>

definition parserScan :: "bytes \<Rightarrow> nat \<Rightarrow> nat" where
  "parserScan src j = (if j \<ge> length src \<or> src ! j \<noteq> ch_backslash then scanStringSpecial src j else j)"

lemma parserScan_props:
  assumes "parserScan src i < length src"
  shows "i \<le> parserScan src i" "isStringSpecial (src ! parserScan src i)"
  using assms scanStringSpecial_props [of src i] by (auto simp: parserScan_def isStringSpecial_def split: if_splits)

function parserStringLoop :: "bytes \<Rightarrow> nat \<Rightarrow> nat \<Rightarrow> nat \<Rightarrow> bytes option \<Rightarrow> (SyntaxError, bytes \<times> nat) outcome" where
  "parserStringLoop src start i chunkStart out =
     (if i + 6 \<le> length src \<and> src ! i = ch_backslash \<and> src ! (i + 1) = ch_u then
        bind_outcome (appendUnicodeEscapeRun src (chunk out src chunkStart i) i) (\<lambda>(out, i).
          parserStringLoop src start i i (Some out))
      else
        let j = parserScan src i in
        if j \<ge> length src then err_at src (int (length src)) ''unterminated string''
        else
          let c = src ! j in
          if c = ch_quote then
            (case out of
               None \<Rightarrow> Ok (subslice src start j, j + 1)
             | Some out \<Rightarrow> Ok (out @ subslice src chunkStart j, j + 1))
          else if c = ch_backslash then
            if j + 1 \<ge> length src then err_at src (int (j + 1)) ''unterminated escape sequence''
            else bind_outcome (appendEscape src (chunk out src chunkStart j) (j + 1)) (\<lambda>(out, i).
                   parserStringLoop src start i i (Some out))
          else if c < 0x20 then err_at src (int j) ''unescaped control byte in string''
          else
            (case scanStringUnicodeRun src j of
               (next, Some bad) \<Rightarrow> err_at src (int bad) ''invalid UTF-8 in string''
             | (next, None) \<Rightarrow> parserStringLoop src start next chunkStart out))"
  by pat_completeness auto
termination
proof (relation "measure (\<lambda>(src, start, i, chunkStart, out). length src - i)", simp_all, goal_cases)
  case (1 src i chunkStart out p out' j)
  then show ?case using escapeRun_advances [of i src "chunk out src chunkStart i" out' j] by auto
next
  case (2 src i out chunkStart j c p out' k)
  then show ?case using parserScan_props [of src i] appendEscape_gt [of src _ "Suc (parserScan src i)"] by fastforce
next
  case (3 src i x y nxt z)
  then have "scanStringUnicodeRun src (parserScan src i) = (nxt, None)" by metis
  with 3 show ?case
    using parserScan_props [of src i] scanStringUnicodeRun_gt [of "parserScan src i" src] by (auto simp: isStringSyntax_def)
qed

declare parserStringLoop.simps [simp del]

text \<open>\<^verbatim>\<open>p.parseString\<close>; \<open>i\<close> is the offset of the opening quote.\<close>

definition parser_parseString :: "bytes \<Rightarrow> nat \<Rightarrow> (SyntaxError, bytes \<times> nat) outcome" where
  "parser_parseString src i = parserStringLoop src (i + 1) (i + 1) (i + 1) None"

subsection \<open>The contents\<close>

text \<open>\<open>parsed src i pre r\<close>: from \<open>i\<close> on, \<open>r\<close> ends where the validator ends and adds the meaning of the contents to \<open>pre\<close>.\<close>

definition parsed :: "bytes \<Rightarrow> nat \<Rightarrow> bytes \<Rightarrow> (SyntaxError, bytes \<times> nat) outcome \<Rightarrow> bool" where
  "parsed src i pre r \<longleftrightarrow> (case r of
       Ok (s, j) \<Rightarrow> string_end src i = Ok j \<and> (\<exists>dec. unescape (subslice src i (j - 1)) = Some dec \<and> s = pre @ dec)
     | Fail _ \<Rightarrow> \<exists>e. string_end src i = Fail e
     | NoFuel \<Rightarrow> False)"

lemma unescape_jchars_append: "jchars c d \<Longrightarrow> unescape (c @ rest) = map_option ((@) d) (unescape rest)"
  by (induction arbitrary: rest rule: jchars.induct) (simp_all add: unescape_jchar)

lemma parsed_step:
  assumes "string_end src i = string_end src k" "i \<le> k" "parsed src k (pre @ d) r"
    "\<And>rest. unescape (subslice src i k @ rest) = map_option ((@) d) (unescape rest)"
  shows "parsed src i pre r"
proof (cases r)
  case (Ok p)
  obtain s j where p: "p = (s, j)" by force
  with assms(3) Ok obtain dec where d: "string_end src k = Ok j" "unescape (subslice src k (j - 1)) = Some dec" "s = (pre @ d) @ dec"
    by (auto simp: parsed_def)
  have "subslice src i (j - 1) = subslice src i k @ subslice src k (j - 1)"
  proof (rule slice_append_slice [OF assms(2), symmetric])
    show "k \<le> j - 1" using string_end_bounds [OF d(1)] by linarith
  qed
  then show ?thesis using d assms(1,4) Ok p by (simp add: parsed_def)
qed (use assms in \<open>simp_all add: parsed_def\<close>)

lemma parsed_decodes: "decodes src i k d \<Longrightarrow> parsed src k (pre @ d) r \<Longrightarrow> parsed src i pre r"
  by (rule parsed_step [OF string_end_decodes]) (auto simp: decodes_def unescape_jchars_append)

lemma parsed_plain:
  assumes "string_end src i = string_end src k" "i \<le> k" "ch_backslash \<notin> set (subslice src i k)"
    "parsed src k (pre @ subslice src i k) r"
  shows "parsed src i pre r"
  using parsed_step [OF assms(1,2,4)] unescape_clean [OF assms(3)] by blast

lemma parsed_Fail: "string_unit src i = Bad e \<Longrightarrow> parsed src i pre (Fail x)"
  by (simp add: parsed_def string_end_Bad)

lemma parsed_bind:
  assumes "run_ok src i pre r" "\<And>out' j. r = Ok (out', j) \<Longrightarrow> j \<le> length src \<Longrightarrow> parsed src j out' (k (out', j))"
  shows "parsed src i pre (bind_outcome r k)"
proof (cases r)
  case (Ok p)
  obtain out' j where p: "p = (out', j)" by force
  with assms(1) Ok obtain d where d: "decodes src i j d" "out' = pre @ d" by (auto simp: run_ok_def)
  then have "parsed src j (pre @ d) (k (out', j))" using assms(2) Ok p by (auto simp: decodes_def)
  from parsed_decodes [OF d(1) this] Ok p show ?thesis by simp
qed (use assms(1) in \<open>simp_all add: run_ok_def parsed_def\<close>)

lemma appendEscape_ok:
  assumes "i + 1 < length src" "src ! i = ch_backslash"
  shows "run_ok src i out (appendEscape src out (i + 1))"
proof (cases "src ! (i + 1) = ch_u")
  case True
  have i: "i < length src" using assms by simp
  have a: "appendEscape src out (i + 1) = bind_outcome (unicodeTailStep src i) (\<lambda>(r, j). Ok (appendEscapedRune out r, j))"
    using True by (simp add: appendEscape_def parseUnicodeEscape_tail [unfolded Suc_eq_plus1 [symmetric]])
  note ref = unicodeTailStep_reference [OF assms(1) True]
  show ?thesis
  proof (cases "escape_unit (drop i src)")
    case None
    with ref a escape_bad [OF i assms(2) None] show ?thesis by (auto simp: run_ok_def)
  next
    case (Some dn)
    obtain d n where dn: "dn = (d, n)" by force
    with ref Some obtain r where "unicodeTailStep src i = Ok (r, i + n)" "d = encodeRune r" "RuneLen r \<noteq> - 1" by auto
    with decodes_escape(1) [OF i assms(2) Some [unfolded dn]] a show ?thesis
      by (auto simp: run_ok_def appendEscapedRune_encode)
  qed
next
  case False
  have i: "i < length src" using assms by simp
  have u: "escape_unit (drop i src) = map_option (\<lambda>d. ([d], 2)) (simple_escape (src ! (i + 1)))"
    using assms False by (auto simp: escape_unit_def)
  have a: "appendEscape src out (i + 1) = (case simple_escape (src ! (i + 1)) of
      Some d \<Rightarrow> Ok (out @ [d], i + 2) | None \<Rightarrow> err_at src (int i) ''invalid escape sequence'')"
    using False by (auto simp: appendEscape_def simple_escape_def Let_def)
  show ?thesis
  proof (cases "simple_escape (src ! (i + 1))")
    case None
    with u escape_bad [OF i assms(2)] a show ?thesis by (simp add: run_ok_def)
  next
    case (Some d)
    with u decodes_escape(1) [OF i assms(2), of "[d]" 2] a show ?thesis by (auto simp: run_ok_def)
  qed
qed

lemma chunk_extend: "c \<le> i \<Longrightarrow> i \<le> j \<Longrightarrow> chunk out src c j = chunk out src c i @ subslice src i j"
  by (simp add: chunk_def slice_append_slice)

lemma chunk_at [simp]: "chunk (Some out) src j j = out"
  by (simp add: chunk_def)

lemma parserScan_run:
  assumes "i \<le> length src"
  shows "i \<le> parserScan src i" "parserScan src i \<le> length src" "string_end src i = string_end src (parserScan src i)"
    "ch_backslash \<notin> set (subslice src i (parserScan src i))"
proof -
  note p = scanBytes_props [OF assms, where stop = isStringSpecial and src = src]
  have "i \<le> parserScan src i \<and> parserScan src i \<le> length src \<and> string_end src i = string_end src (parserScan src i)
      \<and> ch_backslash \<notin> set (subslice src i (parserScan src i))"
    using p string_end_scan [OF assms] assms
    by (auto simp: parserScan_def scanStringSpecial_eq in_set_conv_nth slices isStringSpecial_def)
  then show "i \<le> parserScan src i" "parserScan src i \<le> length src" "string_end src i = string_end src (parserScan src i)"
    "ch_backslash \<notin> set (subslice src i (parserScan src i))" by simp_all
qed

lemma parserStringLoop_parsed:
  "i \<le> length src \<Longrightarrow> c \<le> i \<Longrightarrow> (out = None \<Longrightarrow> c = start)
    \<Longrightarrow> parsed src i (chunk out src c i) (parserStringLoop src start i c out)"
proof (induction "length src - i" arbitrary: i c out rule: less_induct)
  case less
  note IH = less.hyps and b = less.prems
  note unfold = parserStringLoop.simps [of src start i c out]
  show ?case
  proof (cases "i + 6 \<le> length src \<and> src ! i = ch_backslash \<and> src ! (i + 1) = ch_u")
    case True
    have "parsed src k o' (parserStringLoop src start k k (Some o'))"
      if "appendUnicodeEscapeRun src (chunk out src c i) i = Ok (o', k)" "k \<le> length src" for o' k
      using IH [of k k "Some o'"] that escapeRun_advances [OF _ _ _ that(1)] True by simp
    then show ?thesis using True parsed_bind [OF appendUnicodeEscapeRun_ok [OF b(1)]] by (simp add: unfold)
  next
    case False
    define j where "j = parserScan src i"
    note s = parserScan_run [OF b(1), folded j_def]
    note step = unfold [unfolded if_not_P [OF False] Let_def, folded j_def]
    have "parsed src j (chunk out src c j) (parserStringLoop src start i c out)"
    proof (cases "j < length src")
      case no: False
      then have "string_unit src j = Bad (syntaxError src (int (length src)) ''unterminated string'')" by (simp add: string_unit_def)
      from parsed_Fail [OF this] no show ?thesis unfolding step by simp
    next
      case j: True
      have sp: "isStringSpecial (src ! j)" using parserScan_props(2) [of src i] j by (simp add: j_def)
      consider (quote) "src ! j = ch_quote" | (lone) "src ! j = ch_backslash" "j + 1 \<ge> length src"
        | (esc) "src ! j = ch_backslash" "j + 1 < length src" | (ctl) "src ! j < 0x20"
        | (high) "0x80 \<le> src ! j" "src ! j \<noteq> ch_quote" "src ! j \<noteq> ch_backslash" "\<not> src ! j < 0x20"
        using sp by (fastforce simp: isStringSpecial_def)
      then show ?thesis
      proof cases
        case quote
        then have "string_end src j = Ok (j + 1)" using j by (simp add: string_end.simps [of src j] string_unit_def)
        then show ?thesis using quote j b(3) unfolding step by (auto simp: parsed_def chunk_def split: option.splits)
      next
        case lone
        then have "string_unit src j = Bad (syntaxError src (int (j + 1)) ''unterminated escape sequence'')"
          using j by (simp add: string_unit_def)
        from parsed_Fail [OF this] lone j show ?thesis unfolding step by simp
      next
        case esc
        have "parsed src k o' (parserStringLoop src start k k (Some o'))"
          if "appendEscape src (chunk out src c j) (j + 1) = Ok (o', k)" "k \<le> length src" for o' k
          using IH [of k k "Some o'"] that appendEscape_gt [OF that(1)] s(1) j by simp
        then show ?thesis using esc j parsed_bind [OF appendEscape_ok [OF esc(2,1)]] unfolding step by simp
      next
        case ctl
        then have "string_unit src j = Bad (syntaxError src (int j) ''unescaped control byte in string'')"
          using j by (auto simp: string_unit_def)
        from parsed_Fail [OF this] ctl j show ?thesis unfolding step by auto
      next
        case high
        note ref = unicode_run_reference [OF j high(1)]
        obtain nxt bad where u: "scanStringUnicodeRun src j = (nxt, bad)" by force
        show ?thesis
        proof (cases bad)
          case None
          then have n: "j < nxt" "nxt \<le> length src" "string_end src j = string_end src nxt" using ref u by simp_all
          have "parsed src nxt (chunk out src c nxt) (parserStringLoop src start nxt c out)"
            using IH [of nxt c out] n s(1) j b(2,3) by simp
          then show ?thesis using parsed_plain [OF n(3) less_imp_le [OF n(1)] unicode_run_clean [OF _ j high(1)]] u None high j
              chunk_extend [of c j nxt out src] b(2) s(1) n(1) unfolding step by simp
        next
          case (Some x)
          then show ?thesis using ref u high j unfolding step by (simp add: parsed_def)
        qed
      qed
    qed
    with parsed_plain [OF s(3,1,4)] chunk_extend [OF b(2) s(1)] show ?thesis by simp
  qed
qed

text \<open>C19: the decoding parser succeeds exactly where the validator does, with the same end, and returns the decoded contents.\<close>

theorem parser_parseString_correct:
  assumes "i < length src"
  shows "case parser_parseString src i of
      Ok (s, j) \<Rightarrow> parseString src i = Ok j \<and> jchars (subslice src (i + 1) (j - 1)) s
    | Fail _ \<Rightarrow> \<exists>e. parseString src i = Fail e
    | NoFuel \<Rightarrow> False"
proof -
  have p: "parsed src (i + 1) [] (parser_parseString src i)"
    using parserStringLoop_parsed [of "i + 1" src "i + 1" None "i + 1"] assms
    by (simp add: parser_parseString_def chunk_def)
  have dec: "jchars (subslice src (i + 1) (j - 1)) s"
    if e: "string_end src (i + 1) = Ok j" "unescape (subslice src (i + 1) (j - 1)) = Some s" for j s
  proof -
    obtain raw d rest where r: "jchars raw d" "drop (i + 1) src = raw @ ch_quote # rest" "j = i + 1 + length raw + 1"
      using e(1) by (rule string_end_sound)
    then have "subslice src (i + 1) (j - 1) = raw" by (simp add: subslice_def)
    with r(1) e(2) unescape_jchars [OF r(1)] show ?thesis by simp
  qed
  show ?thesis using p dec assms by (auto simp: parsed_def parseString_end split: outcome.splits)
qed

theorem parser_parseString_correct_witness:
  "case parser_parseString [ch_quote, ch_n, ch_quote] 0 of
      Ok (s, j) \<Rightarrow> parseString [ch_quote, ch_n, ch_quote] 0 = Ok j \<and> jchars (subslice [ch_quote, ch_n, ch_quote] (0 + 1) (j - 1)) s
    | Fail _ \<Rightarrow> \<exists>e. parseString [ch_quote, ch_n, ch_quote] 0 = Fail e
    | NoFuel \<Rightarrow> False"
  by (rule parser_parseString_correct) simp

end
