(* ===== verification/RawString.thy ===== *)
theory RawString
  imports ParserLoop Grammar StringFast
begin

text \<open>
  Strings under a raw value (\<^verbatim>\<open>raw.go\<close>): the scan that returns the bounds of the contents and whether they
  hold an escape, the comparison of an object key with a pointer token, and the accessors of \<^verbatim>\<open>RawValue\<close>
  for kinds, literals, numbers and strings. A raw value is the byte string it borrows.
\<close>

subsection \<open>\<^verbatim>\<open>parseStringRaw\<close>\<close>

text \<open>The loop returns start, end, the flag and the offset behind the closing quote.\<close>

function parseStringRawLoop :: "bytes \<Rightarrow> nat \<Rightarrow> nat \<Rightarrow> bool \<Rightarrow> (SyntaxError, nat \<times> nat \<times> bool \<times> nat) outcome" where
  "parseStringRawLoop src start i escaped =
     (let j = scanStringSpecial src i in
      if j \<ge> length src then err_at src (int (length src)) ''unterminated string''
      else
        let c = src ! j in
        if c = ch_quote then Ok (start, j, escaped, j + 1)
        else if c = ch_backslash then
          if j + 1 \<ge> length src then err_at src (int (j + 1)) ''unterminated escape sequence''
          else (case validateEscape src (j + 1) of
                  Ok k \<Rightarrow> parseStringRawLoop src start k True
                | Fail e \<Rightarrow> Fail e
                | NoFuel \<Rightarrow> NoFuel)
        else if c < 0x20 then err_at src (int j) ''unescaped control byte in string''
        else (case scanStringUnicodeRun src j of
                (next, Some bad) \<Rightarrow> err_at src (int bad) ''invalid UTF-8 in string''
              | (next, None) \<Rightarrow> parseStringRawLoop src start next escaped))"
  by pat_completeness auto
termination
proof (relation "measure (\<lambda>(src, start, i, escaped). length src - i)", simp_all, goal_cases)
  case (1 src i j c k)
  then show ?case
    using scanStringSpecial_props [of src i]
      validateEscape_gt [of src "Suc (scanStringSpecial src i)" k] by simp
next
  case (2 src i j c nxt)
  then have "scanStringUnicodeRun src (scanStringSpecial src i) = (nxt, None)" by metis
  with 2 show ?case
    using scanStringSpecial_props [of src i]
      scanStringUnicodeRun_gt [of "scanStringSpecial src i" src] by (auto simp: isStringSyntax_def)
qed

declare parseStringRawLoop.simps [simp del]

definition parseStringRaw :: "bytes \<Rightarrow> nat \<Rightarrow> (SyntaxError, nat \<times> nat \<times> bool \<times> nat) outcome" where
  "parseStringRaw src i = parseStringRawLoop src (i + 1) (i + 1) False"

text \<open>\<^verbatim>\<open>keyMatches\<close>: an escaped key is decoded first.\<close>

definition keyMatches :: "bytes \<Rightarrow> bytes \<Rightarrow> nat \<Rightarrow> nat \<Rightarrow> bool \<Rightarrow> (SyntaxError, bool) outcome" where
  "keyMatches src token keyStart keyEnd escaped =
     (if \<not> escaped then Ok (subslice src keyStart keyEnd = token)
      else bind_outcome (parser_parseString src (keyStart - 1)) (\<lambda>(key, _). Ok (key = token)))"

subsection \<open>Accessors of \<^verbatim>\<open>RawValue\<close>\<close>

datatype Kind = Invalid | Null | Bool | Number | String | Array | Object

definition RawValue_Kind :: "bytes \<Rightarrow> Kind" where
  "RawValue_Kind src =
     (if length src = 0 then Invalid
      else if src ! 0 = ch_n then Null
      else if src ! 0 = ch_t \<or> src ! 0 = ch_f then Bool
      else if src ! 0 = ch_quote then String
      else if src ! 0 = ch_lbracket then Array
      else if src ! 0 = ch_lbrace then Object
      else if src ! 0 = ch_minus \<or> IsDigit (src ! 0) then Number
      else Invalid)"

definition RawValue_IsNull :: "bytes \<Rightarrow> bool" where
  "RawValue_IsNull src \<longleftrightarrow> length src = 4 \<and> src ! 0 = 0x6E \<and> src ! 1 = 0x75 \<and> src ! 2 = 0x6C \<and> src ! 3 = 0x6C"

text \<open>The value and whether there is one.\<close>

definition RawValue_Bool :: "bytes \<Rightarrow> bool \<times> bool" where
  "RawValue_Bool src =
     (if length src = 4 \<and> src ! 0 = 0x74 \<and> src ! 1 = 0x72 \<and> src ! 2 = 0x75 \<and> src ! 3 = 0x65 then (True, True)
      else if length src = 5 \<and> src ! 0 = 0x66 \<and> src ! 1 = 0x61 \<and> src ! 2 = 0x6C \<and> src ! 3 = 0x73 \<and> src ! 4 = 0x65
      then (False, True)
      else (False, False))"

definition RawValue_NumberBytes :: "bytes \<Rightarrow> bytes option" where
  "RawValue_NumberBytes src = (if \<not> validNumber src then None else Some src)"

text \<open>\<^verbatim>\<open>Text\<close>: \<open>Ok None\<close> when the value is not a string, an error when it starts as one.\<close>

definition RawValue_Text :: "bytes \<Rightarrow> (SyntaxError, bytes option) outcome" where
  "RawValue_Text src =
     (if length src = 0 \<or> src ! 0 \<noteq> ch_quote then Ok None
      else bind_outcome (parseStringRaw src 0) (\<lambda>(start, end', escaped, i).
        if i \<noteq> length src then err_at src (int i) ''unexpected data after string''
        else if \<not> escaped then Ok (Some (subslice src start end'))
        else bind_outcome (parser_parseString src 0) (\<lambda>(text, i).
          if i \<noteq> length src then err_at src (int i) ''unexpected data after string''
          else Ok (Some text))))"

definition RawValue_StringBytes :: "bytes \<Rightarrow> bytes option" where
  "RawValue_StringBytes src =
     (if length src = 0 \<or> src ! 0 \<noteq> ch_quote then None
      else case parseStringRaw src 0 of
          Ok (start, end', escaped, i) \<Rightarrow> if i \<noteq> length src \<or> escaped then None else Some (subslice src start end')
        | Fail _ \<Rightarrow> None
        | NoFuel \<Rightarrow> None)"

text \<open>\<^verbatim>\<open>AppendText\<close>: the destination and whether the value is a string; a panic of the trusted decoder is \<open>None\<close>.\<close>

definition RawValue_AppendText :: "bytes \<Rightarrow> bytes \<Rightarrow> (SyntaxError, (bytes \<times> bool) option) outcome" where
  "RawValue_AppendText dst src =
     (if length src = 0 \<or> src ! 0 \<noteq> ch_quote then Ok (Some (dst, False))
      else bind_outcome (parseStringRaw src 0) (\<lambda>(start, end', escaped, i).
        if i \<noteq> length src then err_at src (int i) ''unexpected data after string''
        else if \<not> escaped then Ok (Some (dst @ subslice src start end', True))
        else Ok (map_option (\<lambda>out. (out, True)) (appendDecodedJSONStringTrusted dst (subslice src start end')))))"

subsection \<open>The scan agrees with the validator\<close>

lemma special_run:
  assumes "i \<le> length src"
  defines "j \<equiv> scanStringSpecial src i"
  shows "i \<le> j" "j \<le> length src" "string_end src i = string_end src j" "ch_backslash \<notin> set (subslice src i j)"
proof -
  note p = scanBytes_props [OF assms(1), where stop = isStringSpecial and src = src]
  show "i \<le> j" "j \<le> length src" "string_end src i = string_end src j"
    using p string_end_scan [OF assms(1)] scanStringSpecial_eq [OF assms(1)] by (simp_all add: j_def)
  show "ch_backslash \<notin> set (subslice src i j)"
    using p scanStringSpecial_eq [OF assms(1)] by (auto simp: j_def in_set_conv_nth slices isStringSpecial_def)
qed

abbreviation raw_view :: "(SyntaxError, nat \<times> nat \<times> bool \<times> nat) outcome \<Rightarrow> (SyntaxError, nat \<times> bool) outcome" where
  "raw_view \<equiv> map_outcome id (\<lambda>(start, end', escaped, i). (i, escaped))"

lemma parseStringRawLoop_agrees: "i0 \<le> length src \<Longrightarrow> agrees src i0 e (raw_view (parseStringRawLoop src start i0 e))"
proof (induction "length src - i0" arbitrary: i0 e rule: less_induct)
  case less
  define j where "j = scanStringSpecial src i0"
  note run = special_run [OF less.prems, folded j_def]
  note step = parseStringRawLoop.simps [of src start i0 e, folded j_def]
  have rec: "agrees src k f (raw_view (parseStringRawLoop src start k f))" if "j < k" "k \<le> length src" for k f
    using that run(1) by (intro less.hyps) auto
  have "agrees src j e (raw_view (parseStringRawLoop src start i0 e))"
  proof (cases "j < length src")
    case False
    then show ?thesis unfolding step by (auto simp: string_unit_def intro!: agrees_Fail)
  next
    case j: True
    have sp: "isStringSpecial (src ! j)" using scanStringSpecial_props(2) [of src i0] j by (simp add: j_def)
    consider (quote) "src ! j = ch_quote" | (esc) "src ! j = ch_backslash" | (ctl) "src ! j < 0x20"
      | (high) "0x80 \<le> src ! j" "src ! j \<noteq> ch_quote" "src ! j \<noteq> ch_backslash" "\<not> src ! j < 0x20"
      using sp by (auto simp: isStringSpecial_def)
    then show ?thesis
    proof cases
      case quote
      then have "string_end src j = Ok (j + 1)" using j by (simp add: string_end.simps [of src j] string_unit_def)
      then show ?thesis using quote j unfolding step by (simp add: agrees_def slice_Cons)
    next
      case esc
      show ?thesis
      proof (cases "j + 1 < length src")
        case True
        have "agrees src j e (raw_view (parseStringRawLoop src start k True))" if "validateEscape src (j + 1) = Ok k" for k
        proof -
          have u: "string_unit src j = Advance k" using that True esc by (simp add: string_unit_def)
          from agrees_escape [OF string_end_Advance [OF u] string_unit_gt [OF u] j esc rec]
          show ?thesis using string_unit_gt [OF u] validateEscape_le [OF that] True by simp
        qed
        moreover have "agrees src j e (Fail x :: (SyntaxError, nat \<times> bool) outcome)" if "validateEscape src (j + 1) = Fail x" for x
          using that True esc by (intro agrees_Fail) (simp add: string_unit_def)
        ultimately show ?thesis using True esc j validateEscape_fuel [of src "j + 1"] unfolding step
          by (simp split: outcome.split)
      next
        case False
        then show ?thesis using j esc unfolding step by (auto simp: string_unit_def intro!: agrees_Fail)
      qed
    next
      case ctl
      then have "src ! j \<noteq> ch_quote" "src ! j \<noteq> ch_backslash" by auto
      with ctl show ?thesis using j unfolding step by (auto simp: string_unit_def intro!: agrees_Fail)
    next
      case high
      note ref = unicode_run_reference [OF j high(1)]
      obtain nxt bad where u: "scanStringUnicodeRun src j = (nxt, bad)" by force
      show ?thesis
      proof (cases bad)
        case None
        then have n: "j < nxt" "nxt \<le> length src" "string_end src j = string_end src nxt" using ref u by simp_all
        from agrees_run [OF n(3) _ unicode_run_clean rec [OF n(1,2)]] n(1) j high u None
        show ?thesis unfolding step by simp
      next
        case (Some x)
        then show ?thesis using ref u high j unfolding step by (simp add: agrees_def)
      qed
    qed
  qed
  with agrees_run [OF run(3,1,4)] show ?case .
qed

lemma parseStringRawLoop_bounds:
  "parseStringRawLoop src start i e = Ok (s, k, esc, j) \<Longrightarrow> s = start \<and> j = k + 1"
proof (induction src start i e rule: parseStringRawLoop.induct)
  case (1 src start i e)
  define c where "c = scanStringSpecial src i"
  note IH = 1(1) [OF c_def _ refl] 1(2) [OF c_def _ refl _ _ _ _ refl]
  show ?case using 1(3) IH unfolding parseStringRawLoop.simps [of src start i e] c_def [symmetric] Let_def
    by (fastforce split: if_splits outcome.splits prod.splits option.splits)
qed

text \<open>The scan returns the contents of the token the validator accepts, and the flag says whether they have an escape.\<close>

lemma parseStringRaw_cases:
  assumes "i < length src"
  obtains (ok) raw dec where "jchars raw dec" "subslice src (i + 1) (i + 1 + length raw) = raw"
      "parseString src i = Ok (i + length raw + 2)"
      "parseStringRaw src i = Ok (i + 1, i + 1 + length raw, ch_backslash \<in> set raw, i + length raw + 2)"
      "drop i src = src ! i # raw @ ch_quote # drop (i + length raw + 2) src"
  | (bad) e e' where "parseStringRaw src i = Fail e" "parseString src i = Fail e'"
proof -
  have a: "agrees src (i + 1) False (raw_view (parseStringRaw src i))"
    using assms parseStringRawLoop_agrees [of "i + 1" src] by (simp add: parseStringRaw_def)
  show ?thesis
  proof (cases "parseStringRaw src i")
    case (Ok x)
    obtain s k esc j where x: "x = (s, k, esc, j)" by (cases x)
    have b: "s = i + 1" "j = k + 1" using parseStringRawLoop_bounds Ok x unfolding parseStringRaw_def by blast+
    from a Ok x have e: "string_end src (i + 1) = Ok j" "esc \<longleftrightarrow> ch_backslash \<in> set (subslice src (i + 1) j)"
      by (simp_all add: agrees_def)
    obtain raw dec rest where r: "jchars raw dec" "drop (i + 1) src = raw @ ch_quote # rest" "j = i + 1 + length raw + 1"
      using e(1) by (rule string_end_sound)
    have "subslice src (i + 1) j = raw @ [ch_quote]" using slice_of_drop [of "i + 1" src "raw @ [ch_quote]" rest] r(2,3) by simp
    then have "esc \<longleftrightarrow> ch_backslash \<in> set raw" using e(2) by simp
    moreover have "subslice src (i + 1) (i + 1 + length raw) = raw" using slice_of_drop [OF r(2)] .
    moreover have "drop (i + length raw + 2) src = rest"
      using drop_eq_appendD [of "i + 1" src "raw @ [ch_quote]" rest] r(2) by (simp add: numeral_eq_Suc)
    moreover have "drop i src = src ! i # drop (i + 1) src" using assms by (simp add: Cons_nth_drop_Suc)
    ultimately show ?thesis using ok [OF r(1)] Ok x b e(1) r(2,3) assms by (simp add: parseString_end)
  next
    case (Fail e)
    with a assms obtain e' where "parseString src i = Fail e'" by (auto simp: agrees_def parseString_end)
    with Fail bad show ?thesis by blast
  qed (use a in \<open>simp add: agrees_def\<close>)
qed

lemma jchars_clean: "jchars raw dec \<Longrightarrow> ch_backslash \<notin> set raw \<Longrightarrow> dec = raw"
  using unescape_jchars [of raw dec] unescape_clean [of raw "[]"] by (simp add: unescape.simps)

lemma parser_contents:
  assumes "i < length src" "jchars raw dec" "parseString src i = Ok (i + length raw + 2)"
    "subslice src (i + 1) (i + 1 + length raw) = raw"
  shows "parser_parseString src i = Ok (dec, i + length raw + 2)"
proof -
  have "parsed src (i + 1) [] (parser_parseString src i)"
    using parserStringLoop_parsed [of "i + 1" src "i + 1" None "i + 1"] assms(1)
    by (simp add: parser_parseString_def chunk_def)
  then show ?thesis using assms unescape_jchars [OF assms(2)]
    by (auto simp: parsed_def parseString_end split: outcome.splits)
qed

lemma keyMatches_decoded:
  assumes "i < length src" "jchars raw dec" "parseString src i = Ok (i + length raw + 2)"
    "subslice src (i + 1) (i + 1 + length raw) = raw"
  shows "keyMatches src token (i + 1) (i + 1 + length raw) (ch_backslash \<in> set raw) = Ok (dec = token)"
  using parser_contents [OF assms] assms(4) jchars_clean [OF assms(2)] by (auto simp: keyMatches_def)

subsection \<open>What the accessors return\<close>

lemma whole_string:
  assumes "src \<noteq> []" "src ! 0 = ch_quote"
  shows "(\<exists>raw dec. src = ch_quote # raw @ [ch_quote] \<and> jchars raw dec
      \<and> parseStringRaw src 0 = Ok (1, 1 + length raw, ch_backslash \<in> set raw, length src)
      \<and> parser_parseString src 0 = Ok (dec, length src))
    \<or> (\<nexists>raw dec. src = ch_quote # raw @ [ch_quote] \<and> jchars raw dec)
      \<and> (\<forall>s k esc. parseStringRaw src 0 \<noteq> Ok (s, k, esc, length src)) \<and> parseStringRaw src 0 \<noteq> NoFuel"
proof -
  have l: "0 < length src" using assms by simp
  have none: "(\<nexists>raw dec. src = ch_quote # raw @ [ch_quote] \<and> jchars raw dec)" if "parseString src 0 \<noteq> Ok (length src)"
  proof clarify
    fix raw dec assume *: "src = ch_quote # raw @ [ch_quote]" "jchars raw dec"
    then have "drop 1 src = raw @ ch_quote # []" by simp
    from string_end_complete [OF *(2) this] l that * show False by (simp add: parseString_end)
  qed
  from l show ?thesis
  proof (cases rule: parseStringRaw_cases)
    case (ok raw dec)
    show ?thesis
    proof (cases "length raw + 2 = length src")
      case True
      then have "src = ch_quote # raw @ [ch_quote]" using ok(5) assms by simp
      with ok True parser_contents [OF l ok(1,3,2)] show ?thesis by auto
    next
      case False
      with ok none show ?thesis by simp
    qed
  next
    case (bad e e')
    with none show ?thesis by simp
  qed
qed

text \<open>C33: \<open>Text\<close> succeeds exactly on one complete JSON string token and returns its decoded contents; \<open>AppendText\<close> appends the
  same bytes without ever indexing out of range, and \<open>StringBytes\<close> returns them exactly when no escape had to be decoded.\<close>

theorem RawValue_Text_correct:
  "case RawValue_Text src of
      Ok None \<Rightarrow> \<not> (src \<noteq> [] \<and> hd src = ch_quote) \<and> RawValue_AppendText dst src = Ok (Some (dst, False)) \<and> RawValue_StringBytes src = None
    | Ok (Some text) \<Rightarrow> \<exists>raw. src = ch_quote # raw @ [ch_quote] \<and> jchars raw text
        \<and> RawValue_AppendText dst src = Ok (Some (dst @ text, True))
        \<and> RawValue_StringBytes src = (if ch_backslash \<in> set raw then None else Some text)
    | Fail _ \<Rightarrow> (\<nexists>raw text. src = ch_quote # raw @ [ch_quote] \<and> jchars raw text)
        \<and> (\<exists>e. RawValue_AppendText dst src = Fail e) \<and> RawValue_StringBytes src = None
    | NoFuel \<Rightarrow> False"
proof (cases "src = [] \<or> src ! 0 \<noteq> ch_quote")
  case True
  then show ?thesis by (auto simp: RawValue_Text_def RawValue_AppendText_def RawValue_StringBytes_def hd_conv_nth)
next
  case False
  then have q: "src \<noteq> []" "src ! 0 = ch_quote" by simp_all
  from whole_string [OF q] show ?thesis
  proof (elim disjE exE conjE, goal_cases)
    case (1 raw dec)
    have s: "subslice src 1 (1 + length raw) = raw" using 1(1) by (simp add: subslice_def)
    have "trustedLoop dst raw 0 = Some (dst @ dec)"
      using trustedLoop_reference [of 0 raw dec dst] unescape_jchars [OF 1(2)] by simp
    with 1 q s jchars_clean [OF 1(2)] show ?thesis
      by (auto simp: RawValue_Text_def RawValue_AppendText_def RawValue_StringBytes_def appendDecodedJSONStringTrusted_def)
  next
    case 2
    then show ?thesis using q
      by (cases "parseStringRaw src 0")
        (auto simp: RawValue_Text_def RawValue_AppendText_def RawValue_StringBytes_def)
  qed
qed

primrec kind_of :: "cst \<Rightarrow> Kind" where
  "kind_of CNull = Null"
| "kind_of CTrue = Bool"
| "kind_of CFalse = Bool"
| "kind_of (CNum s) = Number"
| "kind_of (CStr s) = String"
| "kind_of (CArr0 w) = Array"
| "kind_of (CArr es) = Array"
| "kind_of (CObj0 w) = Object"
| "kind_of (CObj ms) = Object"

lemma null_bytes: "RawValue_IsNull src \<longleftrightarrow> src = lit_null"
  by (auto simp: RawValue_IsNull_def length_Suc_conv numeral_eq_Suc)

lemma bool_bytes: "RawValue_Bool src = (src = lit_true, src = lit_true \<or> src = lit_false)"
  by (auto simp: RawValue_Bool_def length_Suc_conv numeral_eq_Suc)

lemma number_not_other [simp]: "\<not> json_number lit_null" "\<not> json_number lit_true" "\<not> json_number lit_false"
  "\<not> json_number (ch_quote # x)" "\<not> json_number (ch_lbracket # x)" "\<not> json_number (ch_lbrace # x)"
  by (auto simp: IsDigit_def dest!: json_number_first)

lemma number_kind: "json_number s \<Longrightarrow> RawValue_Kind s = Number"
  using json_number_first [of s] number_first_byte [of "hd s"] by (auto simp: RawValue_Kind_def hd_conv_nth)

lemma validNumber_iff: "validNumber s \<longleftrightarrow> json_number s"
  using scanNumber_sound [of s 0] scanNumber_complete [of 0 s s "[]"]
  by (auto simp: validNumber_def num_stop_def slice_full split: prod.splits)

text \<open>On any JSON value the accessors of a raw value return the kind, the literal and the number spelling of that value,
  and refuse every value of another kind.\<close>

theorem RawValue_accessors:
  assumes "wf t"
  shows "RawValue_Kind (render t) = kind_of t \<and> (RawValue_IsNull (render t) \<longleftrightarrow> t = CNull)
    \<and> RawValue_Bool (render t) = (t = CTrue, t = CTrue \<or> t = CFalse)
    \<and> RawValue_NumberBytes (render t) = (case t of CNum s \<Rightarrow> Some s | _ \<Rightarrow> None)"
proof (cases t)
  case (CNum s)
  with assms have "json_number s" by simp
  with CNum number_kind [OF this] show ?thesis
    by (auto simp: null_bytes bool_bytes RawValue_NumberBytes_def validNumber_iff)
qed (simp_all add: null_bytes bool_bytes RawValue_NumberBytes_def validNumber_iff RawValue_Kind_def)

theorem RawValue_accessors_witness:
  "RawValue_Kind (render (CArr0 [ch_space])) = kind_of (CArr0 [ch_space]) \<and> (RawValue_IsNull (render (CArr0 [ch_space])) \<longleftrightarrow> CArr0 [ch_space] = CNull)
    \<and> RawValue_Bool (render (CArr0 [ch_space])) = (CArr0 [ch_space] = CTrue, CArr0 [ch_space] = CTrue \<or> CArr0 [ch_space] = CFalse)
    \<and> RawValue_NumberBytes (render (CArr0 [ch_space])) = (case CArr0 [ch_space] of CNum s \<Rightarrow> Some s | _ \<Rightarrow> None)"
  by (rule RawValue_accessors) (simp add: IsJSONWhitespace_def)

end
