(* ===== verification/TrustedSkip.thy ===== *)
theory TrustedSkip
  imports Stage1 RawString StringEncode
begin

text \<open>
  Skipping a value without validating it (the second half of \<^verbatim>\<open>raw_trusted.go\<close>). A container is
  skipped 64 bytes at a time on the structural bitmaps; the specification is the byte-at-a-time
  bracket scan \<open>bscan\<close>, with which the block loop agrees on every input, every offset and every depth
  budget. On the text of a syntax tree the skip ends where the value ends.
\<close>

subsection \<open>The block loop\<close>

text \<open>\<^verbatim>\<open>bits.OnesCount64\<close>\<close>

definition ones :: "64 word \<Rightarrow> nat \<Rightarrow> nat" where
  "ones x k = length (filter (bit x) [0..<k])"

definition OnesCount64 :: "64 word \<Rightarrow> nat" where
  "OnesCount64 x = ones x 64"

lemma clear_lowest_less: "x \<noteq> 0 \<Longrightarrow> unat (x AND (x - 1)) < unat x" for x :: "64 word"
proof -
  assume x: "x \<noteq> 0"
  have "unat (x AND (x - 1)) \<le> unat (x - 1)" using word_and_le1 [of x "x - 1"] by (simp add: word_le_nat_alt)
  moreover have "unat (x - 1) = unat x - 1" "0 < unat x" using x by (simp_all add: unat_minus_one unat_gt_0)
  ultimately show ?thesis by linarith
qed

text \<open>
  The loop over the closing brackets of a block: the first one that returns the composite to depth zero.
\<close>

function closeLoop :: "64 word \<Rightarrow> int \<Rightarrow> 64 word \<Rightarrow> int \<Rightarrow> nat option" where
  "closeLoop opens nest br ordinal =
     (if br \<noteq> 0 then
        let p = TrailingZeros64 br in
        if nest + int (OnesCount64 (opens AND (push_bit p 1 - 1))) - ordinal = 1 then Some p
        else closeLoop opens nest (br AND (br - 1)) (ordinal + 1)
      else None)"
  by pat_completeness auto
termination by (relation "measure (\<lambda>(opens, nest, br, ordinal). unat br)") (simp_all add: clear_lowest_less)

text \<open>What a pass over a block ends with: the depth to go on with, the end of the composite, or the offset of the bracket that is too deep.\<close>

datatype block_end = Cont int | Done nat | Deep nat

text \<open>The loop over all brackets, for a block that may exceed the budget.\<close>

function bracketLoop :: "int \<Rightarrow> 64 word \<Rightarrow> nat \<Rightarrow> 64 word \<Rightarrow> int \<Rightarrow> block_end" where
  "bracketLoop budget opens i br nest =
     (if br \<noteq> 0 then
        if opens AND (br AND (NOT br + 1)) \<noteq> 0 then
          if nest + 1 > budget then Deep (i + TrailingZeros64 br)
          else bracketLoop budget opens i (br AND (br - 1)) (nest + 1)
        else if nest - 1 = 0 then Done (i + TrailingZeros64 br + 1)
        else bracketLoop budget opens i (br AND (br - 1)) (nest - 1)
      else Cont nest)"
  by pat_completeness auto
termination by (relation "measure (\<lambda>(budget, opens, i, br, nest). unat br)") (simp_all add: clear_lowest_less)

declare closeLoop.simps [simp del] bracketLoop.simps [simp del]

text \<open>The block at an offset; zero bytes fill a short tail.\<close>

definition block_at :: "bytes \<Rightarrow> nat \<Rightarrow> bytes" where
  "block_at src i =
     (if length src - i \<ge> 64 then subslice src i (i + 64)
      else drop i src @ replicate (64 - (length src - i)) 0)"

text \<open>One turn of the loop of \<^verbatim>\<open>skipComposite\<close>.\<close>

definition skipBlock :: "bytes \<Rightarrow> int \<Rightarrow> nat \<Rightarrow> int \<Rightarrow> Stage1Carry \<Rightarrow> block_end \<times> Stage1Carry" where
  "skipBlock src budget i nest carry =
     (let m = Stage1BlockBrackets (block_at src i);
          (escaped, carry) = Stage1Escaped (BBackslash m) carry;
          (inString, carry) = Stage1PrefixXOR (BQuote m AND NOT escaped) carry;
          opens = BOpen m AND NOT inString;
          closes = BClose m AND NOT inString;
          opened = int (OnesCount64 opens);
          closed = int (OnesCount64 closes) in
      (if nest - closed > 0 \<and> nest + opened \<le> budget then Cont (nest + (opened - closed))
       else if nest + opened \<le> budget then
         (case closeLoop opens nest closes 0 of
            Some p \<Rightarrow> Done (i + p + 1)
          | None \<Rightarrow> Cont (nest + (opened - closed)))
       else bracketLoop budget opens i (opens OR closes) nest, carry))"

function skipBlocks :: "bytes \<Rightarrow> int \<Rightarrow> nat \<Rightarrow> int \<Rightarrow> Stage1Carry \<Rightarrow> (SyntaxError, nat) outcome" where
  "skipBlocks src budget i nest carry =
     (if i < length src then
        (case skipBlock src budget i nest carry of
           (Cont nest, carry) \<Rightarrow> skipBlocks src budget (i + 64) nest carry
         | (Done j, _) \<Rightarrow> Ok j
         | (Deep j, _) \<Rightarrow> err_at src (int j) ''maximum nesting depth exceeded'')
      else Ok (length src))"
  by pat_completeness auto
termination by (relation "measure (\<lambda>(src, budget, i, nest, carry). length src - i)") auto

declare skipBlocks.simps [simp del]

definition skipComposite :: "bytes \<Rightarrow> nat \<Rightarrow> nat \<Rightarrow> nat \<Rightarrow> (SyntaxError, nat) outcome" where
  "skipComposite src maxDepth depth i =
     skipBlocks src (int maxDepth - int depth) i 0 \<lparr>Escaped = 0, InString = 0\<rparr>"

subsection \<open>Strings, scalars and values\<close>

lemma scanStringSyntax_ge: "scanStringSyntax src i < length src \<Longrightarrow> i \<le> scanStringSyntax src i"
proof -
  assume a: "scanStringSyntax src i < length src"
  have "scanStringSyntax src i = length src" if "length src < i"
    using that by (simp add: scanStringSyntax_def scanStringSyntaxScalar_def scanWords16.simps [of _ src i] scanBytes.simps [of _ src i])
  then show ?thesis using a scanBytes_props(1) [of i "length src" isStringSyntax src] by (cases "i \<le> length src") (auto simp: scanStringSyntax_eq)
qed

function skipStringTrusted :: "bytes \<Rightarrow> nat \<Rightarrow> nat" where
  "skipStringTrusted src i =
     (let j = scanStringSyntax src i in
      if j \<ge> length src then length src
      else if src ! j = ch_quote then j + 1
      else if src ! j = ch_backslash then
        if j + 2 > length src then length src else skipStringTrusted src (j + 2)
      else skipStringTrusted src (j + 1))"
  by pat_completeness auto
termination
proof (relation "measure (\<lambda>(src, i). length src - i)", simp_all, goal_cases)
  case (1 src i)
  then show ?case using scanStringSyntax_ge [of src i] by simp
next
  case (2 src i)
  then show ?case using scanStringSyntax_ge [of src i] by simp
qed

function skipScalarTrusted :: "bytes \<Rightarrow> nat \<Rightarrow> nat" where
  "skipScalarTrusted src i =
     (if i < length src then
        let c = src ! i in
        if c \<le> ch_space \<or> c = ch_comma \<or> c = ch_rbrace \<or> c = ch_rbracket then i
        else skipScalarTrusted src (i + 1)
      else length src)"
  by pat_completeness auto
termination by (relation "measure (\<lambda>(src, i). length src - i)") auto

declare skipStringTrusted.simps [simp del] skipScalarTrusted.simps [simp del]

definition trustedSkipValue :: "bytes \<Rightarrow> nat \<Rightarrow> nat \<Rightarrow> nat \<Rightarrow> (SyntaxError, nat) outcome" where
  "trustedSkipValue src maxDepth depth i =
     (if i \<ge> length src then Ok i
      else if src ! i = ch_lbrace \<or> src ! i = ch_lbracket then skipComposite src maxDepth depth i
      else if src ! i = ch_quote then Ok (skipStringTrusted src (i + 1))
      else Ok (skipScalarTrusted src i))"


subsection \<open>The bracket scan, a byte at a time\<close>

text \<open>
  The state is whether the next byte is escaped, whether a string is open, and the depth. Brackets count outside strings.
\<close>

datatype scan_end = Going bool bool int | AtClose nat | AtDeep nat

definition bstep :: "int \<Rightarrow> bool \<Rightarrow> bool \<Rightarrow> int \<Rightarrow> nat \<Rightarrow> byte \<Rightarrow> scan_end" where
  "bstep budget e s nest i c =
     (let e' = (c = ch_backslash \<and> \<not> e); s' = (s \<noteq> (c = ch_quote \<and> \<not> e)) in
      if \<not> s' \<and> c \<in> {ch_lbrace, ch_lbracket} then
        if nest + 1 > budget then AtDeep i else Going e' s' (nest + 1)
      else if \<not> s' \<and> c \<in> {ch_rbrace, ch_rbracket} then
        if nest - 1 = 0 then AtClose (i + 1) else Going e' s' (nest - 1)
      else Going e' s' nest)"

fun bscan :: "int \<Rightarrow> bool \<Rightarrow> bool \<Rightarrow> int \<Rightarrow> nat \<Rightarrow> bytes \<Rightarrow> scan_end" where
  "bscan budget e s nest i [] = Going e s nest"
| "bscan budget e s nest i (c # cs) =
     (case bstep budget e s nest i c of Going e s nest \<Rightarrow> bscan budget e s nest (Suc i) cs | r \<Rightarrow> r)"

definition skip_end :: "bytes \<Rightarrow> scan_end \<Rightarrow> (SyntaxError, nat) outcome" where
  "skip_end src r = (case r of
       Going e s nest \<Rightarrow> Ok (length src)
     | AtClose j \<Rightarrow> Ok j
     | AtDeep j \<Rightarrow> err_at src (int j) ''maximum nesting depth exceeded'')"

lemma bscan_append:
  "bscan budget e s nest i (xs @ ys) = (case bscan budget e s nest i xs of
     Going e s nest \<Rightarrow> bscan budget e s nest (i + length xs) ys | r \<Rightarrow> r)"
  by (induction xs arbitrary: e s nest i) (simp_all split: scan_end.splits)

lemma bscan_zeros: "bscan budget e s nest i (replicate n 0) = Going (e \<and> n = 0) s nest"
  by (induction n arbitrary: e i) (simp_all add: bstep_def)

subsection \<open>Masks and loops over set bits\<close>

text \<open>The same scan on masks, from bit \<open>k\<close> on with \<open>n\<close> bits left.\<close>

fun mscan :: "int \<Rightarrow> (nat \<Rightarrow> bool) \<Rightarrow> (nat \<Rightarrow> bool) \<Rightarrow> nat \<Rightarrow> int \<Rightarrow> nat \<Rightarrow> nat \<Rightarrow> block_end" where
  "mscan budget opens closes i nest k 0 = Cont nest"
| "mscan budget opens closes i nest k (Suc n) =
     (if opens k then
        if nest + 1 > budget then Deep (i + k) else mscan budget opens closes i (nest + 1) (Suc k) n
      else if closes k then
        if nest - 1 = 0 then Done (i + k + 1) else mscan budget opens closes i (nest - 1) (Suc k) n
      else mscan budget opens closes i nest (Suc k) n)"

definition bits_from :: "64 word \<Rightarrow> nat \<Rightarrow> 64 word" where
  "bits_from w k = w AND NOT (Bit_Operations.mask k)"

lemma bit_bits_from: "bit (bits_from w k) j \<longleftrightarrow> bit w j \<and> k \<le> j"
  unfolding bits_from_def bit_and_iff bit_not_iff bit_mask_iff by (auto dest: bit_imp_le_length)

lemma bits_from_0 [simp]: "bits_from w 0 = w"
  by (simp add: bits_from_def)

lemma bits_from_64 [simp]: "bits_from w 64 = 0"
  by (rule bit_word_eqI) (auto simp: bit_bits_from dest: bit_imp_le_length)

lemma zero_iff_bits: "w = 0 \<longleftrightarrow> (\<forall>j. \<not> bit w j)" for w :: "64 word"
  by (auto intro!: bit_word_eqI)

lemma bits_from_unset: "\<not> bit w k \<Longrightarrow> bits_from w k = bits_from w (Suc k)"
  by (rule bit_word_eqI) (auto simp: bit_bits_from le_Suc_eq order.order_iff_strict)

lemma bits_from_set:
  assumes "bit w k"
  shows "bits_from w k \<noteq> 0" "TrailingZeros64 (bits_from w k) = k"
    "bits_from w k AND (bits_from w k - 1) = bits_from w (Suc k)"
proof -
  have b: "bit (bits_from w k) k" using assms by (simp add: bit_bits_from)
  then show nz: "bits_from w k \<noteq> 0" by (auto simp: zero_iff_bits)
  have "bit (bits_from w k) (TrailingZeros64 (bits_from w k))" by (rule TrailingZeros64_bit(1) [OF nz])
  then have "k \<le> TrailingZeros64 (bits_from w k)" by (simp add: bit_bits_from)
  then show tz: "TrailingZeros64 (bits_from w k) = k"
    using TrailingZeros64_bit(2) [OF nz, of k] b by (auto simp: le_less)
  show "bits_from w k AND (bits_from w k - 1) = bits_from w (Suc k)"
    by (rule bit_word_eqI) (auto simp: clear_lowest [OF nz] tz bit_bits_from)
qed

text \<open>The lowest set bit, isolated.\<close>

lemma lowest_bit:
  assumes "bit w k"
  shows "opens AND (bits_from w k AND (NOT (bits_from w k) + 1)) \<noteq> 0 \<longleftrightarrow> bit opens k"
proof -
  define x where "x = bits_from w k"
  note x = bits_from_set [OF assms, folded x_def]
  have "NOT x + 1 = - x" by (simp add: not_eq_complement)
  also have "\<dots> = NOT (x - 1)" by (rule minus_eq_not_minus_1)
  finally have "bit (x AND (NOT x + 1)) j \<longleftrightarrow> bit x j \<and> \<not> bit (x AND (x - 1)) j" for j
    by (auto simp: bit_and_iff bit_not_iff dest: bit_imp_le_length)
  moreover have "bit x j \<longleftrightarrow> bit w j \<and> k \<le> j" for j by (simp add: x_def bit_bits_from)
  ultimately have "bit (x AND (NOT x + 1)) j \<longleftrightarrow> j = k" for j
    unfolding x(3) bit_bits_from using assms by (auto simp: not_less_eq_eq)
  then have "bit (opens AND (x AND (NOT x + 1))) j \<longleftrightarrow> bit opens j \<and> j = k" for j by (simp only: bit_and_iff)
  then show ?thesis unfolding x_def [symmetric] zero_iff_bits by simp
qed

lemma bracketLoop_mscan:
  "k + n = 64 \<Longrightarrow> bracketLoop budget opens i (bits_from (opens OR closes) k) nest = mscan budget (bit opens) (bit closes) i nest k n"
proof (induction n arbitrary: k nest)
  case 0
  then show ?case by (simp add: bracketLoop.simps [of _ _ _ 0])
next
  case (Suc n)
  show ?case
  proof (cases "bit (opens OR closes) k")
    case True
    note b = bits_from_set [OF True] lowest_bit [OF True, of opens]
    have "bit opens k \<or> bit closes k" using True by (simp add: bit_or_iff)
    then show ?thesis using Suc.IH [of "Suc k"] Suc.prems
      by (subst bracketLoop.simps) (cases "bit opens k"; simp add: b)
  next
    case False
    then show ?thesis using Suc bits_from_unset [OF False] by (auto simp: bit_or_iff)
  qed
qed


lemma ones_Suc [simp]: "ones x (Suc k) = ones x k + (if bit x k then 1 else 0)"
  by (simp add: ones_def)

lemma ones_0 [simp]: "ones x 0 = 0"
  by (simp add: ones_def)

lemma ones_mono: "j \<le> k \<Longrightarrow> ones x j \<le> ones x k"
  by (induction k) (auto simp: le_Suc_eq)

lemma OnesCount64_below: "p \<le> 64 \<Longrightarrow> OnesCount64 (x AND (push_bit p 1 - 1)) = ones x p"
proof -
  assume p: "p \<le> 64"
  then have u: "[0..<64] = [0..<p] @ [p..<64]" by (metis le_add_diff_inverse upt_add_eq_append zero_le)
  have m: "push_bit p 1 - 1 = (Bit_Operations.mask p :: 64 word)" by (simp add: mask_eq_exp_minus_1 push_bit_of_1)
  have b: "bit (x AND Bit_Operations.mask p) n \<longleftrightarrow> bit x n \<and> n < p" for n
    unfolding bit_and_iff bit_mask_iff by (auto dest: bit_imp_le_length)
  have "filter (\<lambda>n. bit x n \<and> n < p) [0..<p] = filter (bit x) [0..<p]" by (rule filter_cong) simp_all
  then show ?thesis unfolding OnesCount64_def m ones_def b u by simp
qed

lemma closeLoop_mscan:
  assumes disj: "\<And>j. \<not> (bit opens j \<and> bit closes j)" and budget: "nest + int (OnesCount64 opens) \<le> budget"
  shows "k + n = 64 \<Longrightarrow> mscan budget (bit opens) (bit closes) i (nest + int (ones opens k) - int (ones closes k)) k n
    = (case closeLoop opens nest (bits_from closes k) (int (ones closes k)) of
         Some p \<Rightarrow> Done (i + p + 1)
       | None \<Rightarrow> Cont (nest + (int (OnesCount64 opens) - int (OnesCount64 closes))))"
proof (induction n arbitrary: k)
  case 0
  then show ?case by (simp add: closeLoop.simps [of _ _ 0] OnesCount64_def)
next
  case (Suc n)
  have IH: "mscan budget (bit opens) (bit closes) i (nest + int (ones opens (Suc k)) - int (ones closes (Suc k))) (Suc k) n
    = (case closeLoop opens nest (bits_from closes (Suc k)) (int (ones closes (Suc k))) of
         Some p \<Rightarrow> Done (i + p + 1)
       | None \<Rightarrow> Cont (nest + (int (OnesCount64 opens) - int (OnesCount64 closes))))"
    using Suc.prems by (intro Suc.IH) simp
  define d where "d j = nest + int (ones opens j) - int (ones closes j)" for j
  note IH = IH [folded d_def]
  consider (op) "bit opens k" "\<not> bit closes k" | (cl) "bit closes k" "\<not> bit opens k" | (no) "\<not> bit opens k" "\<not> bit closes k"
    using disj [of k] by auto
  then show ?case
  proof cases
    case op
    have "ones opens (Suc k) \<le> ones opens 64" using Suc.prems by (intro ones_mono) simp
    then have "\<not> d k + 1 > budget" using budget op by (simp add: OnesCount64_def d_def)
    moreover have "d (Suc k) = d k + 1" "ones closes (Suc k) = ones closes k" using op by (simp_all add: d_def)
    ultimately show ?thesis unfolding d_def [symmetric] using op IH bits_from_unset [OF op(2)] by simp
  next
    case cl
    note b = bits_from_set [OF cl(1)]
    have "k \<le> 64" using Suc.prems by simp
    note c = OnesCount64_below [OF this, of opens]
    have e: "d (Suc k) = d k - 1" "int (ones closes (Suc k)) = int (ones closes k) + 1" using cl by (simp_all add: d_def)
    have l: "closeLoop opens nest (bits_from closes k) (int (ones closes k))
      = (if d k = 1 then Some k else closeLoop opens nest (bits_from closes (Suc k)) (int (ones closes (Suc k))))"
      unfolding e by (subst closeLoop.simps) (simp only: b c Let_def d_def if_True simp_thms)
    show ?thesis unfolding d_def [symmetric] l using cl IH e(1) by simp
  next
    case no
    then have "d (Suc k) = d k" by (simp add: d_def)
    then show ?thesis unfolding d_def [symmetric] using no IH bits_from_unset [OF no(2)] by simp
  qed
qed

text \<open>A block on which the depth neither reaches zero nor leaves the budget.\<close>

lemma inner_mscan:
  assumes budget: "nest + int (OnesCount64 opens) \<le> budget" "nest - int (OnesCount64 closes) > 0"
    and disj: "\<And>j. \<not> (bit opens j \<and> bit closes j)"
  shows "k + n = 64 \<Longrightarrow> mscan budget (bit opens) (bit closes) i (nest + int (ones opens k) - int (ones closes k)) k n
    = Cont (nest + (int (OnesCount64 opens) - int (OnesCount64 closes)))"
proof (induction n arbitrary: k)
  case 0
  then show ?case by (simp add: OnesCount64_def)
next
  case (Suc n)
  have IH: "mscan budget (bit opens) (bit closes) i (nest + int (ones opens (Suc k)) - int (ones closes (Suc k))) (Suc k) n
    = Cont (nest + (int (OnesCount64 opens) - int (OnesCount64 closes)))" using Suc.prems by (intro Suc.IH) simp
  have m: "ones opens (Suc k) \<le> ones opens 64" "ones closes (Suc k) \<le> ones closes 64" using Suc.prems by (auto intro!: ones_mono simp del: ones_Suc)
  define d where "d j = nest + int (ones opens j) - int (ones closes j)" for j
  note IH = IH [folded d_def]
  consider (op) "bit opens k" "\<not> bit closes k" | (cl) "bit closes k" "\<not> bit opens k" | (no) "\<not> bit opens k" "\<not> bit closes k"
    using disj [of k] by auto
  then show ?case
  proof cases
    case op
    then have "\<not> d k + 1 > budget" using m budget by (simp add: OnesCount64_def d_def)
    moreover have "d (Suc k) = d k + 1" using op by (simp add: d_def)
    ultimately show ?thesis unfolding d_def [symmetric] using op IH by simp
  next
    case cl
    then have "d k - 1 \<noteq> 0" using m budget by (simp add: OnesCount64_def d_def)
    moreover have "d (Suc k) = d k - 1" using cl by (simp add: d_def)
    ultimately show ?thesis unfolding d_def [symmetric] using cl IH by simp
  next
    case no
    then have "d (Suc k) = d k" by (simp add: d_def)
    then show ?thesis unfolding d_def [symmetric] using no IH by simp
  qed
qed


subsection \<open>The block loop is the bracket scan\<close>

definition block_result :: "block_end \<Rightarrow> bool \<Rightarrow> bool \<Rightarrow> scan_end" where
  "block_result r e s = (case r of Cont nest \<Rightarrow> Going e s nest | Done j \<Rightarrow> AtClose j | Deep j \<Rightarrow> AtDeep j)"

lemma bscan_mscan:
  assumes len: "length block = 64"
    and bs: "\<And>k. k < 64 \<Longrightarrow> bs k \<longleftrightarrow> block ! k = ch_backslash"
    and q: "\<And>k. k < 64 \<Longrightarrow> q k \<longleftrightarrow> block ! k = ch_quote \<and> \<not> escaped_at bs e k"
    and op: "\<And>k. k < 64 \<Longrightarrow> opens k \<longleftrightarrow> block ! k \<in> {ch_lbrace, ch_lbracket} \<and> \<not> inside_at q s (Suc k)"
    and cl: "\<And>k. k < 64 \<Longrightarrow> closes k \<longleftrightarrow> block ! k \<in> {ch_rbrace, ch_rbracket} \<and> \<not> inside_at q s (Suc k)"
  shows "k + n = 64 \<Longrightarrow> bscan budget (escaped_at bs e k) (inside_at q s k) nest (i + k) (drop k block)
    = block_result (mscan budget opens closes i nest k n) (escaped_at bs e 64) (inside_at q s 64)"
proof (induction n arbitrary: k nest)
  case 0
  then show ?case by (simp add: len block_result_def)
next
  case (Suc n)
  then have k: "k < 64" by simp
  have IH: "bscan budget (escaped_at bs e (Suc k)) (inside_at q s (Suc k)) nest (Suc (i + k)) (drop (Suc k) block)
    = block_result (mscan budget opens closes i nest (Suc k) n) (escaped_at bs e 64) (inside_at q s 64)" for nest
    using Suc.IH [of "Suc k" nest] Suc.prems by simp
  have d: "drop k block = block ! k # drop (Suc k) block" using k len by (simp add: Cons_nth_drop_Suc)
  have st: "bstep budget (escaped_at bs e k) (inside_at q s k) nest (i + k) (block ! k)
    = (if opens k then if nest + 1 > budget then AtDeep (i + k) else Going (escaped_at bs e (Suc k)) (inside_at q s (Suc k)) (nest + 1)
       else if closes k then if nest - 1 = 0 then AtClose (i + k + 1) else Going (escaped_at bs e (Suc k)) (inside_at q s (Suc k)) (nest - 1)
       else Going (escaped_at bs e (Suc k)) (inside_at q s (Suc k)) nest)"
    using bs [OF k] q [OF k] op [OF k] cl [OF k] by (auto simp: bstep_def Let_def)
  show ?case unfolding d bscan.simps st mscan.simps using IH
    by (simp add: block_result_def del: escaped_at.simps inside_at.simps)
qed

lemma length_block_at [simp]: "length (block_at src i) = 64"
  by (auto simp: block_at_def subslice_def)

lemma skipBlock_bscan:
  obtains r e' s' where "skipBlock src budget i nest (carry_word e s) = (r, carry_word e' s')"
    "bscan budget e s nest i (block_at src i) = block_result r e' s'"
proof -
  define m where "m = Stage1BlockBrackets (block_at src i)"
  note m = Stage1BlockBrackets_bits [where block = "block_at src i", folded m_def]
  let ?bs = "\<lambda>j. block_at src i ! j = ch_backslash" and ?q = "quote_at (block_at src i) e"
  obtain esc ins where st: "Stage1Escaped (BBackslash m) (carry_word e s) = (esc, carry_word (escaped_at ?bs e 64) s)"
      "Stage1PrefixXOR (BQuote m AND NOT esc) (carry_word (escaped_at ?bs e 64) s) = (ins, carry_word (escaped_at ?bs e 64) (inside_at ?q s 64))"
      "\<And>k. k < 64 \<Longrightarrow> bit ins k = inside_at ?q s (Suc k)"
    by (rule Stage1_strings [OF m(2,1)]) (rule that)
  define e' where "e' = escaped_at ?bs e 64"
  define s' where "s' = inside_at ?q s 64"
  define opens where "opens = BOpen m AND NOT ins"
  define closes where "closes = BClose m AND NOT ins"
  have oc: "bit opens k \<longleftrightarrow> block_at src i ! k \<in> {ch_lbrace, ch_lbracket} \<and> \<not> inside_at ?q s (Suc k)"
      "bit closes k \<longleftrightarrow> block_at src i ! k \<in> {ch_rbrace, ch_rbracket} \<and> \<not> inside_at ?q s (Suc k)" if "k < 64" for k
    using st(3) [OF that] that unfolding opens_def closes_def bit_and_iff bit_not_iff m by simp_all
  have disj: "\<not> (bit opens j \<and> bit closes j)" for j
    unfolding opens_def closes_def bit_and_iff m by auto
  define r where "r = mscan budget (bit opens) (bit closes) i nest 0 64"
  have scan: "bscan budget e s nest i (block_at src i) = block_result r e' s'"
    using bscan_mscan [of "block_at src i" ?bs ?q e "bit opens" s "bit closes" 0 64 budget nest i] oc
    unfolding r_def e'_def s'_def by (simp add: quote_at_def)
  have "skipBlock src budget i nest (carry_word e s) =
      (if nest - int (OnesCount64 closes) > 0 \<and> nest + int (OnesCount64 opens) \<le> budget then Cont (nest + (int (OnesCount64 opens) - int (OnesCount64 closes)))
       else if nest + int (OnesCount64 opens) \<le> budget then
         (case closeLoop opens nest closes 0 of Some p \<Rightarrow> Done (i + p + 1) | None \<Rightarrow> Cont (nest + (int (OnesCount64 opens) - int (OnesCount64 closes))))
       else bracketLoop budget opens i (opens OR closes) nest, carry_word e' s')"
    unfolding skipBlock_def m_def [symmetric] Let_def st(1) prod.case st(2) unfolding e'_def [symmetric] s'_def [symmetric]
      opens_def [symmetric] closes_def [symmetric] by (rule refl)
  also have "\<dots> = (r, carry_word e' s')"
    using inner_mscan [of nest opens budget closes 0 64 i] closeLoop_mscan [of opens closes nest budget 0 64 i] disj
      bracketLoop_mscan [of 0 64 budget opens i closes nest] by (simp add: r_def)
  finally show ?thesis using that scan by blast
qed

lemma skipBlocks_bscan:
  "i \<le> length src \<Longrightarrow> skipBlocks src budget i nest (carry_word e s) = skip_end src (bscan budget e s nest i (drop i src))"
proof (induction "length src - i" arbitrary: i nest e s rule: less_induct)
  case less
  show ?case
  proof (cases "i < length src")
    case False
    then show ?thesis using less.prems by (simp add: skipBlocks.simps skip_end_def)
  next
    case True
    obtain r e' s' where b: "skipBlock src budget i nest (carry_word e s) = (r, carry_word e' s')"
        "bscan budget e s nest i (block_at src i) = block_result r e' s'" by (rule skipBlock_bscan)
    note unf = skipBlocks.simps [of src budget i nest "carry_word e s"] b(1)
    show ?thesis
    proof (cases "i + 64 \<le> length src")
      case full: True
      then have d: "drop i src = block_at src i @ drop (i + 64) src" using drop_slice [of i "i + 64" src] by (simp add: block_at_def)
      have IH: "skipBlocks src budget (i + 64) nest' (carry_word e' s') = skip_end src (bscan budget e' s' nest' (i + 64) (drop (i + 64) src))" for nest'
        using True full by (intro less.hyps) simp_all
      show ?thesis unfolding d bscan_append b(2) using True
        by (cases r) (simp_all add: unf IH block_result_def skip_end_def)
    next
      case short: False
      then have blk: "block_at src i = drop i src @ replicate (64 - (length src - i)) 0" by (auto simp: block_at_def)
      have last: "skipBlocks src budget (i + 64) nest' c = Ok (length src)" for nest' c
        using short by (simp add: skipBlocks.simps [of _ _ "i + 64"])
      show ?thesis using True b(2) unfolding blk bscan_append bscan_zeros
        by (cases r; cases "bscan budget e s nest i (drop i src)") (simp_all add: unf last block_result_def skip_end_def)
    qed
  qed
qed

text \<open>C29: on every input, from every offset and for every depth limit, the block-wise skip of a container on the structural
  bitmaps ends where the byte-at-a-time bracket scan ends, and reports the same bracket as too deep.\<close>

theorem skipComposite_bscan:
  assumes "i \<le> length src"
  shows "skipComposite src maxDepth depth i = skip_end src (bscan (int maxDepth - int depth) False False 0 i (drop i src))"
proof -
  have "\<lparr>Escaped = 0, InString = 0\<rparr> = carry_word False False" by (simp add: carry_word_def escape_word_def string_word_def)
  then show ?thesis using skipBlocks_bscan [OF assms] by (simp add: skipComposite_def)
qed


theorem skipComposite_bscan_witness:
  "skipComposite [ch_lbracket, ch_quote, ch_rbracket, ch_quote, ch_rbracket, ch_comma] 5 0 0
    = skip_end [ch_lbracket, ch_quote, ch_rbracket, ch_quote, ch_rbracket, ch_comma]
        (bscan (int 5 - int 0) False False 0 0 (drop 0 [ch_lbracket, ch_quote, ch_rbracket, ch_quote, ch_rbracket, ch_comma]))
    \<and> skip_end [ch_lbracket, ch_quote, ch_rbracket, ch_quote, ch_rbracket, ch_comma]
        (bscan (int 5 - int 0) False False 0 0 (drop 0 [ch_lbracket, ch_quote, ch_rbracket, ch_quote, ch_rbracket, ch_comma])) = Ok 5"
  by (rule conjI, rule skipComposite_bscan) (simp_all add: bstep_def skip_end_def)

subsection \<open>The contents of a string\<close>

text \<open>No quote ends the string inside the contents, and no escape is left open.\<close>

fun quiet :: "bool \<Rightarrow> bytes \<Rightarrow> bool" where
  "quiet e [] = (\<not> e)"
| "quiet e (c # cs) = (if e then quiet False cs else c \<noteq> ch_quote \<and> quiet (c = ch_backslash) cs)"

lemma quiet_append: "quiet e xs \<Longrightarrow> quiet False ys \<Longrightarrow> quiet e (xs @ ys)"
  by (induction e xs rule: quiet.induct) (auto split: if_splits)

lemma quiet_plain: "(\<And>c. c \<in> set xs \<Longrightarrow> c \<noteq> ch_quote \<and> c \<noteq> ch_backslash) \<Longrightarrow> quiet False xs"
  by (induction xs) auto

lemma hexnum_plain: "hexnum h = Some n \<Longrightarrow> c \<in> set h \<Longrightarrow> c \<noteq> ch_quote \<and> c \<noteq> ch_backslash"
  by (erule hexnum_Some) (auto simp: hexval_def)

lemma utf8_seq_plain:
  assumes "utf8_seq s" "length s = 1 \<Longrightarrow> \<not> isStringSyntax (hd s)" "c \<in> set s"
  shows "c \<noteq> ch_quote \<and> c \<noteq> ch_backslash"
  using assms by (cases rule: utf8_seq_cases) (auto simp: leadSize_def acceptSecond_def contByte_def isStringSyntax_def split: if_splits)

lemma quiet_jchars: "jchars raw dec \<Longrightarrow> quiet False raw"
proof (induction rule: jchars.induct)
  case (jchars_cons c d cs ds)
  from jchars_cons.hyps(1) have "quiet False c"
  proof cases
    case jc_plain
    then show ?thesis using utf8_seq_plain by (intro quiet_plain) blast
  next
    case (jc_unicode h n)
    then show ?thesis using hexnum_plain [OF jc_unicode(3)] by (auto intro: quiet_plain)
  next
    case (jc_pair h hi l lo)
    have "quiet False h" "quiet False l" using hexnum_plain [OF jc_pair(3)] hexnum_plain [OF jc_pair(5)] by (auto intro!: quiet_plain)
    then have "quiet False (h @ ch_backslash # ch_u # l)" by (intro quiet_append) simp_all
    then show ?thesis using jc_pair by simp
  qed simp
  then show ?case using jchars_cons.IH by (rule quiet_append)
qed simp

lemma bscan_quiet: "quiet e raw \<Longrightarrow> bscan b e True nest i (raw @ r) = bscan b False True nest (i + length raw) r"
  by (induction e raw arbitrary: i rule: quiet.induct) (auto simp: bstep_def Let_def split: if_splits)

lemma skipStringTrusted_step:
  assumes "i < length src"
  shows "skipStringTrusted src i =
    (if src ! i = ch_quote then i + 1
     else if src ! i = ch_backslash then if i + 2 > length src then length src else skipStringTrusted src (i + 2)
     else skipStringTrusted src (i + 1))"
proof (cases "isStringSyntax (src ! i)")
  case True
  then have "scanStringSyntax src i = i" using assms by (simp add: scanStringSyntax_eq scanBytes_at)
  then show ?thesis using assms by (subst skipStringTrusted.simps) (simp add: Let_def)
next
  case False
  then have "scanStringSyntax src i = scanStringSyntax src (i + 1)"
    using assms by (simp add: scanStringSyntax_eq scanBytes.simps [of _ src i])
  then have "skipStringTrusted src i = skipStringTrusted src (i + 1)"
    by (subst (1 2) skipStringTrusted.simps) (simp only: Let_def)
  then show ?thesis using False by (simp add: isStringSyntax_def)
qed

text \<open>Induction over quiet contents, a plain byte or an escaped pair at a time.\<close>

lemma quiet_induct [consumes 1, case_names Nil Plain Escape]:
  assumes "quiet False raw" "P []"
    and "\<And>c cs. c \<noteq> ch_quote \<Longrightarrow> c \<noteq> ch_backslash \<Longrightarrow> P cs \<Longrightarrow> P (c # cs)"
    and "\<And>c cs. P cs \<Longrightarrow> P (ch_backslash # c # cs)"
  shows "P raw"
  using assms(1)
proof (induction "length raw" arbitrary: raw rule: less_induct)
  case less
  show ?case
  proof (cases raw)
    case (Cons c cs)
    show ?thesis
    proof (cases "c = ch_backslash")
      case True
      then obtain c' cs' where "cs = c' # cs'" "quiet False cs'" using less.prems Cons by (cases cs) auto
      then show ?thesis using less.hyps [of cs'] True Cons assms(4) by simp
    next
      case False
      then show ?thesis using less.hyps [of cs] less.prems Cons assms(3) by simp
    qed
  qed (use assms(2) in simp)
qed

lemma skipStringTrusted_quiet:
  assumes "quiet False raw" "drop i src = raw @ ch_quote # r"
  shows "skipStringTrusted src i = i + length raw + 1"
  using assms
proof (induction raw arbitrary: i rule: quiet_induct)
  case Nil
  then show ?case using drop_eq_ConsD [of i src ch_quote r] by (simp add: skipStringTrusted_step)
next
  case (Plain c cs)
  then show ?case using drop_eq_ConsD [of i src c "cs @ ch_quote # r"] by (simp add: skipStringTrusted_step)
next
  case (Escape c cs)
  have d: "drop i src = ch_backslash # c # cs @ ch_quote # r" using Escape.prems by simp
  show ?case using drop_eq_ConsD [OF d] drop_eq_ConsD [OF drop_eq_ConsD(3) [OF d]] Escape.IH [of "i + 2"]
    by (simp add: skipStringTrusted_step)
qed

subsection \<open>Scalars\<close>

definition scalar_byte :: "byte \<Rightarrow> bool" where
  "scalar_byte c \<longleftrightarrow> ch_space < c \<and> c \<notin> {ch_comma, ch_lbrace, ch_rbrace, ch_lbracket, ch_rbracket, ch_quote, ch_backslash}"

lemma json_number_scalar: "json_number s \<Longrightarrow> list_all scalar_byte s"
proof -
  have d: "list_all scalar_byte ds" if "list_all IsDigit ds" for ds
    using that by (rule list.pred_mono_strong) (auto simp: IsDigit_def scalar_byte_def intro: less_le_trans [of _ "0x30"])
  have c: "scalar_byte c" if "isOneNine c" for c
    using that by (auto simp: isOneNine_def scalar_byte_def intro: less_le_trans [of _ "0x31"])
  assume "json_number s"
  then obtain g i f e where s: "s = g @ i @ f @ e" "g = [] \<or> g = [ch_minus]" "num_int i" "num_frac f" "num_exp e"
    by (auto simp: json_number_def)
  have "list_all scalar_byte i" using s(3) d c by (auto simp: num_int_def) (simp add: scalar_byte_def)
  moreover have "list_all scalar_byte f" using s(4) d by (auto simp: num_frac_def digits1_def) (simp add: scalar_byte_def)
  moreover have "list_all scalar_byte e" using s(5) d by (auto simp: num_exp_def digits1_def) (simp_all add: scalar_byte_def)
  moreover have "list_all scalar_byte g" using s(2) by (auto simp: scalar_byte_def)
  ultimately show ?thesis by (simp add: s(1))
qed

lemma bscan_plain:
  "list_all (\<lambda>c. c \<notin> {ch_lbrace, ch_rbrace, ch_lbracket, ch_rbracket, ch_quote, ch_backslash}) xs
    \<Longrightarrow> bscan b False False nest i (xs @ r) = bscan b False False nest (i + length xs) r"
  by (induction xs arbitrary: i) (auto simp: bstep_def)

lemma bscan_scalar: "list_all scalar_byte xs \<Longrightarrow> bscan b False False nest i (xs @ r) = bscan b False False nest (i + length xs) r"
  by (rule bscan_plain) (auto simp: scalar_byte_def list_all_iff)

lemma bscan_spaces: "spaces w \<Longrightarrow> bscan b False False nest i (w @ r) = bscan b False False nest (i + length w) r"
  by (rule bscan_plain) (auto simp: IsJSONWhitespace_def list_all_iff)

lemma skipScalarTrusted_run:
  "drop i src = xs @ r \<Longrightarrow> i \<le> length src \<Longrightarrow> list_all scalar_byte xs \<Longrightarrow> value_stop r \<Longrightarrow> skipScalarTrusted src i = i + length xs"
proof (induction xs arbitrary: i)
  case Nil
  show ?case
  proof (cases r)
    case (Cons c cs)
    then have "c \<le> ch_space \<or> c = ch_comma \<or> c = ch_rbrace \<or> c = ch_rbracket"
      using Nil.prems(4) by (auto simp: value_stop_def IsJSONWhitespace_def)
    then show ?thesis using Nil.prems(1) Cons drop_eq_ConsD [of i src c cs] by (subst skipScalarTrusted.simps) (auto simp: Let_def)
  qed (use Nil in \<open>simp add: skipScalarTrusted.simps\<close>)
next
  case (Cons c xs)
  then have d: "drop i src = c # xs @ r" by simp
  note at = drop_eq_ConsD [OF d]
  have "\<not> (c \<le> ch_space \<or> c = ch_comma \<or> c = ch_rbrace \<or> c = ch_rbracket)" using Cons.prems(3) by (auto simp: scalar_byte_def)
  then show ?case using Cons.IH [OF at(3)] Cons.prems(3,4) at(1,2) by (subst skipScalarTrusted.simps) (simp add: Let_def)
qed


subsection \<open>Values\<close>

lemma bstep_open: "c = ch_lbrace \<or> c = ch_lbracket \<Longrightarrow> nest + 1 \<le> b \<Longrightarrow> bstep b False False nest i c = Going False False (nest + 1)"
  by (auto simp: bstep_def)

lemma bstep_close: "c = ch_rbrace \<or> c = ch_rbracket
    \<Longrightarrow> bstep b False False nest i c = (if nest = 1 then AtClose (i + 1) else Going False False (nest - 1))"
  by (auto simp: bstep_def)

lemma bstep_punct: "c = ch_comma \<or> c = ch_colon \<Longrightarrow> bstep b False False nest i c = Going False False nest"
  by (auto simp: bstep_def)

lemma bstep_scalar: "scalar_byte c \<Longrightarrow> bstep b False False nest i c = Going False False nest"
  by (auto simp: bstep_def scalar_byte_def)

lemma bstep_quote: "bstep b False s nest i ch_quote = Going False (\<not> s) nest"
  by (auto simp: bstep_def)

lemma bscan_json_string: "json_string raw \<Longrightarrow> bscan b False True nest i (raw @ r) = bscan b False True nest (i + length raw) r"
  unfolding json_string_def by (blast intro: bscan_quiet quiet_jchars)

lemma literal_scalar: "list_all scalar_byte lit_null" "list_all scalar_byte lit_true" "list_all scalar_byte lit_false"
  by code_simp+

lemmas bscan_parts = bscan_spaces bscan_json_string bstep_open bstep_close bstep_punct bstep_quote bstep_scalar

lemma bscan_render:
  "0 < nest \<Longrightarrow> wf t \<Longrightarrow> nest + int (nesting t) \<le> b
    \<Longrightarrow> bscan b False False nest i (render t @ r) = bscan b False False nest (i + length (render t)) r"
  "0 < nest \<Longrightarrow> wf_elems es \<Longrightarrow> nest + int (nesting_elems es) \<le> b \<Longrightarrow> bscan b False False nest i (render_elems es @ r)
    = (if nest = 1 then AtClose (i + length (render_elems es)) else bscan b False False (nest - 1) (i + length (render_elems es)) r)"
  "0 < nest \<Longrightarrow> wf_mems ms \<Longrightarrow> nest + int (nesting_mems ms) \<le> b \<Longrightarrow> bscan b False False nest i (render_mems ms @ r)
    = (if nest = 1 then AtClose (i + length (render_mems ms)) else bscan b False False (nest - 1) (i + length (render_mems ms)) r)"
proof (induction t and es and ms arbitrary: nest i r and nest i r and nest i r)
  case (CNum s)
  then show ?case by (simp add: bscan_scalar json_number_scalar)
next
  case CNull
  then show ?case using bscan_scalar [OF literal_scalar(1)] by simp
next
  case CTrue
  then show ?case using bscan_scalar [OF literal_scalar(2)] by simp
next
  case CFalse
  then show ?case using bscan_scalar [OF literal_scalar(3)] by simp
qed (simp_all add: bscan_parts ac_simps)


lemma skipComposite_value:
  assumes "drop i src = render t @ rest" "wf t" "depth + nesting t \<le> maxDepth" "hd (render t) = ch_lbrace \<or> hd (render t) = ch_lbracket"
  shows "skipComposite src maxDepth depth i = Ok (i + length (render t))"
proof -
  have i: "i \<le> length src" using assms(1) render_first(1) [OF assms(2)] by (cases "i \<le> length src") auto
  have "bscan (int maxDepth - int depth) False False 0 i (render t @ rest) = AtClose (i + length (render t))"
  proof (cases t)
    case (CNum s)
    then show ?thesis using assms(2,4) json_number_first [of s] number_first_byte [of "hd s"] by auto
  qed (use assms(2-4) in \<open>auto simp: bscan_parts bscan_render\<close>)
  then show ?thesis using skipComposite_bscan [OF i] assms(1) by (simp add: skip_end_def)
qed

text \<open>On the text of a value, the skip ends where the value ends.\<close>

lemma trustedSkipValue_complete:
  assumes d: "drop i src = render t @ rest" and "wf t" "value_stop rest" "depth + nesting t \<le> maxDepth"
  shows "trustedSkipValue src maxDepth depth i = Ok (i + length (render t))"
proof -
  obtain c cs where c: "render t = c # cs" using render_first(1) [OF assms(2)] by (cases "render t") auto
  have at: "i < length src" "src ! i = c" "drop (Suc i) src = cs @ rest" using drop_eq_ConsD [of i src c "cs @ rest"] d c by auto
  have scalar: ?thesis if "list_all scalar_byte (render t)"
  proof -
    have "\<not> (c = ch_lbrace \<or> c = ch_lbracket)" "c \<noteq> ch_quote" using that c by (auto simp: scalar_byte_def)
    then show ?thesis using skipScalarTrusted_run [OF d _ that assms(3)] at by (simp add: trustedSkipValue_def)
  qed
  consider (scalar) "list_all scalar_byte (render t)" | (str) s where "t = CStr s" | (comp) "c = ch_lbrace \<or> c = ch_lbracket"
    using assms(2) literal_scalar json_number_scalar [of "render t"] c by (cases t) auto
  then show ?thesis
  proof cases
    case scalar
    then show ?thesis by (rule \<open>list_all scalar_byte (render t) \<Longrightarrow> ?thesis\<close>)
  next
    case str
    then obtain dec where "jchars s dec" using assms(2) by (auto simp: json_string_def)
    from skipStringTrusted_quiet [OF quiet_jchars [OF this], of "Suc i" src rest] at str c
    show ?thesis by (auto simp: trustedSkipValue_def)
  next
    case comp
    then show ?thesis using skipComposite_value [OF d assms(2,4)] at c by (simp add: trustedSkipValue_def)
  qed
qed

text \<open>Whatever the input, a skip ends inside it, not before its start, or reports the nesting depth.\<close>

lemma bscan_bounds:
  "bscan b e s nest i cs = AtClose j \<Longrightarrow> i < j \<and> j \<le> i + length cs"
proof (induction b e s nest i cs rule: bscan.induct)
  case (2 budget e s nest i c cs)
  show ?case
  proof (cases "bstep budget e s nest i c")
    case (Going e' s' nest')
    then show ?thesis using 2 by fastforce
  next
    case (AtClose k)
    then have "k = i + 1" by (auto simp: bstep_def Let_def split: if_splits)
    then show ?thesis using 2 AtClose by simp
  qed (use 2 in simp)
qed simp


lemma skipStringTrusted_bounds: "i \<le> length src \<Longrightarrow> i \<le> skipStringTrusted src i \<and> skipStringTrusted src i \<le> length src"
proof (induction "length src - i" arbitrary: i rule: less_induct)
  case less
  show ?case
  proof (cases "i < length src")
    case True
    then have "i + 2 \<le> length src \<Longrightarrow> i + 2 \<le> skipStringTrusted src (i + 2) \<and> skipStringTrusted src (i + 2) \<le> length src"
      "i + 1 \<le> skipStringTrusted src (i + 1) \<and> skipStringTrusted src (i + 1) \<le> length src"
      by (intro less.hyps; simp)+
    then show ?thesis using True by (auto simp: skipStringTrusted_step [OF True])
  next
    case False
    then show ?thesis using less.prems by (subst (1 2) skipStringTrusted.simps) (simp add: scanStringSyntax_eq scanBytes.simps)
  qed
qed

lemma skipScalarTrusted_bounds: "i \<le> length src \<Longrightarrow> i \<le> skipScalarTrusted src i \<and> skipScalarTrusted src i \<le> length src"
  by (induction src i rule: skipScalarTrusted.induct) (subst (1 2) skipScalarTrusted.simps, auto simp: Let_def)

lemma trustedSkipValue_bounds:
  assumes "trustedSkipValue src maxDepth depth i = Ok j" "i \<le> length src"
  shows "i \<le> j" "j \<le> length src"
proof -
  have comp: "i \<le> j \<and> j \<le> length src" if "skipComposite src maxDepth depth i = Ok j"
    using that bscan_bounds [of "int maxDepth - int depth" False False 0 i "drop i src" j] assms(2)
    by (auto simp: skipComposite_bscan skip_end_def split: scan_end.splits)
  show "i \<le> j" "j \<le> length src"
    using assms comp skipStringTrusted_bounds [of "i + 1" src] skipScalarTrusted_bounds [of i src]
    by (auto simp: trustedSkipValue_def split: if_splits)
qed

lemma trustedSkipValue_total: "trustedSkipValue src maxDepth depth i \<noteq> NoFuel"
  using skipComposite_bscan [of i src maxDepth depth]
  by (auto simp: trustedSkipValue_def skip_end_def not_le split: scan_end.splits)


lemma trustedSkipValue_fail: "trustedSkipValue src maxDepth depth i = Fail e \<Longrightarrow> \<exists>j. e = syntaxError src (int j) ''maximum nesting depth exceeded''"
  using skipComposite_bscan [of i src maxDepth depth]
  by (auto simp: trustedSkipValue_def skip_end_def not_le split: scan_end.splits if_splits)

end
