(* ===== verification/Pointer.thy ===== *)
theory Pointer
  imports KeyHash Errors
begin

text \<open>
  JSON Pointers: \<^verbatim>\<open>pointer.go\<close> and the pointer scanner of \<^verbatim>\<open>raw.go\<close>. A pointer is compiled to its decoded
  tokens; the scanner finds the same tokens in the spelling. Indices are Go's \<^verbatim>\<open>int\<close>, 64 bits wide.
\<close>

subsection \<open>Tokens\<close>

record PointerError =
  perr_pointer :: bytes
  perr_message :: string

definition pointer_error :: "bytes \<Rightarrow> string \<Rightarrow> PointerError" where
  "pointer_error p msg = \<lparr>perr_pointer = p, perr_message = msg\<rparr>"

text \<open>The loop of \<^verbatim>\<open>unescapePointerTokenSlow\<close> at \<open>i\<close>.\<close>

function unescapeLoop :: "bytes \<Rightarrow> nat \<Rightarrow> bytes \<Rightarrow> PointerError + bytes" where
  "unescapeLoop s i out =
     (if i < length s then
        if s ! i \<noteq> ch_tilde then unescapeLoop s (i + 1) (out @ [s ! i])
        else if i + 1 \<ge> length s then Inl (pointer_error s ''dangling tilde escape'')
        else if s ! (i + 1) = ch_0 then unescapeLoop s (i + 2) (out @ [ch_tilde])
        else if s ! (i + 1) = ch_1 then unescapeLoop s (i + 2) (out @ [ch_slash])
        else Inl (pointer_error s ''unknown tilde escape'')
      else Inr out)"
  by pat_completeness auto
termination by (relation "measure (\<lambda>(s, i, out). length s - i)") auto

declare unescapeLoop.simps [simp del]

definition unescapePointerTokenSlow :: "bytes \<Rightarrow> nat \<Rightarrow> PointerError + bytes" where
  "unescapePointerTokenSlow s first = unescapeLoop s first (take first s)"

text \<open>The search for the first tilde is \<^verbatim>\<open>scanBytes\<close> with that stop.\<close>

definition unescapePointerToken :: "bytes \<Rightarrow> PointerError + bytes" where
  "unescapePointerToken s =
     (let first = scanBytes (\<lambda>c. c = ch_tilde) s 0 (length s) in
      if first < length s then unescapePointerTokenSlow s first else Inr s)"

datatype pointerIndexKind = pointerIndexInvalid | pointerIndexNumber | pointerIndexDash

text \<open>\<^verbatim>\<open>strconv.Atoi\<close> on a non-empty string of digits: \<open>None\<close> is the range error.\<close>

definition digits_value :: "bytes \<Rightarrow> nat" where
  "digits_value s = foldl (\<lambda>n c. 10 * n + (unat c - 48)) 0 s"

definition atoi :: "bytes \<Rightarrow> nat option" where
  "atoi s = (if digits_value s < 2 ^ 63 then Some (digits_value s) else None)"

definition classifyPointerIndex :: "bytes \<Rightarrow> nat \<times> pointerIndexKind \<times> string" where
  "classifyPointerIndex s =
     (if s = [ch_minus] then (0, pointerIndexDash, '''')
      else if s = [] then (0, pointerIndexInvalid, ''empty array index'')
      else if length s > 1 \<and> s ! 0 = ch_0 then (0, pointerIndexInvalid, ''array index has leading zero'')
      else if \<exists>c \<in> set s. c < ch_0 \<or> c > ch_9 then (0, pointerIndexInvalid, ''array index is not numeric'')
      else case atoi s of
        None \<Rightarrow> (0, pointerIndexInvalid, ''array index overflows int'')
      | Some idx \<Rightarrow> (idx, pointerIndexNumber, ''''))"

text \<open>\<open>Inr (Some n)\<close> is an index, \<open>Inr None\<close> the past-the-end dash.\<close>

definition parsePointerIndex :: "bytes \<Rightarrow> PointerError + nat option" where
  "parsePointerIndex s =
     (case classifyPointerIndex s of
        (idx, pointerIndexNumber, msg) \<Rightarrow> Inr (Some idx)
      | (idx, pointerIndexDash, msg) \<Rightarrow> Inr None
      | (idx, pointerIndexInvalid, msg) \<Rightarrow> Inl (pointer_error s msg))"

record CompiledPointerToken =
  Text :: bytes
  Hash :: "32 word"
  index :: nat
  indexKind :: pointerIndexKind
  indexMessage :: string

definition arrayIndex :: "CompiledPointerToken \<Rightarrow> PointerError + nat option" where
  "arrayIndex t =
     (case indexKind t of
        pointerIndexNumber \<Rightarrow> Inr (Some (index t))
      | pointerIndexDash \<Rightarrow> Inr None
      | pointerIndexInvalid \<Rightarrow>
          Inl (pointer_error (Text t) (if indexMessage t = '''' then ''array index is not numeric'' else indexMessage t)))"

subsection \<open>Compiling\<close>

record CompiledPointer =
  spelling :: bytes
  Tokens :: "CompiledPointerToken list"

text \<open>The inner loop of \<^verbatim>\<open>CompilePointer\<close>: the end of the token, with its tilde escapes checked.\<close>

function compileTokenEnd :: "bytes \<Rightarrow> nat \<Rightarrow> PointerError + nat" where
  "compileTokenEnd pointer e =
     (if e < length pointer \<and> pointer ! e \<noteq> ch_slash then
        if pointer ! e = ch_tilde then
          if e + 1 \<ge> length pointer then Inl (pointer_error pointer ''dangling tilde escape'')
          else if pointer ! (e + 1) \<noteq> ch_0 \<and> pointer ! (e + 1) \<noteq> ch_1 then Inl (pointer_error pointer ''unknown tilde escape'')
          else compileTokenEnd pointer (e + 2)
        else compileTokenEnd pointer (e + 1)
      else Inr e)"
  by pat_completeness auto
termination by (relation "measure (\<lambda>(pointer, e). length pointer - e)") auto

declare compileTokenEnd.simps [simp del]

lemma compileTokenEnd_ge: "compileTokenEnd pointer e = Inr e' \<Longrightarrow> e \<le> e' \<and> (e \<le> length pointer \<longrightarrow> e' \<le> length pointer)"
proof (induction pointer e rule: compileTokenEnd.induct)
  case (1 pointer e)
  then show ?case by (auto simp: compileTokenEnd.simps [of pointer e] split: if_splits)
qed

definition compiledToken :: "bytes \<Rightarrow> CompiledPointerToken" where
  "compiledToken token =
     (case classifyPointerIndex token of (idx, kind, msg) \<Rightarrow>
        \<lparr>Text = token, Hash = HashKey token, index = idx, indexKind = kind, indexMessage = msg\<rparr>)"

text \<open>\<open>e\<close> never exceeds the length.\<close>

function compileTokens :: "bytes \<Rightarrow> nat \<Rightarrow> CompiledPointerToken list \<Rightarrow> PointerError + CompiledPointer" where
  "compileTokens pointer start tokens =
     (case compileTokenEnd pointer start of
        Inl err \<Rightarrow> Inl err
      | Inr e \<Rightarrow>
          (case unescapePointerToken (subslice pointer start e) of
             Inl err \<Rightarrow> Inl err
           | Inr token \<Rightarrow>
               let tokens = tokens @ [compiledToken token] in
               if e \<ge> length pointer then Inr \<lparr>spelling = pointer, Tokens = tokens\<rparr>
               else compileTokens pointer (e + 1) tokens))"
  by pat_completeness auto
termination
  by (relation "measure (\<lambda>(pointer, start, tokens). length pointer - start)") (auto dest!: compileTokenEnd_ge)

declare compileTokens.simps [simp del]

definition CompilePointer :: "bytes \<Rightarrow> PointerError + CompiledPointer" where
  "CompilePointer pointer =
     (if pointer = [] then Inr \<lparr>spelling = [], Tokens = []\<rparr>
      else if pointer ! 0 \<noteq> ch_slash then Inl (pointer_error pointer ''pointer must be empty or start with slash'')
      else compileTokens pointer 1 [])"

text \<open>\<open>None\<close> is the panic.\<close>

definition MustCompilePointer :: "bytes \<Rightarrow> CompiledPointer option" where
  "MustCompilePointer pointer = (case CompilePointer pointer of Inl _ \<Rightarrow> None | Inr p \<Rightarrow> Some p)"

subsection \<open>The scanner of \<^verbatim>\<open>raw.go\<close>\<close>

definition pointerToken :: "bytes \<Rightarrow> nat \<Rightarrow> nat \<times> nat" where
  "pointerToken pointer start =
     (let e = scanBytes (\<lambda>c. c = ch_slash) pointer start (length pointer) in
      if e = length pointer then (e, length pointer + 1) else (e, e + 1))"

function validateTildes :: "bytes \<Rightarrow> nat \<Rightarrow> PointerError option" where
  "validateTildes pointer i =
     (if i < length pointer then
        if pointer ! i \<noteq> ch_tilde then validateTildes pointer (i + 1)
        else if i + 1 \<ge> length pointer then Some (pointer_error pointer ''dangling tilde escape'')
        else if pointer ! (i + 1) \<noteq> ch_0 \<and> pointer ! (i + 1) \<noteq> ch_1 then Some (pointer_error pointer ''unknown tilde escape'')
        else validateTildes pointer (i + 2)
      else None)"
  by pat_completeness auto
termination by (relation "measure (\<lambda>(pointer, i). length pointer - i)") auto

declare validateTildes.simps [simp del]

definition validatePointerSyntax :: "bytes \<Rightarrow> PointerError option" where
  "validatePointerSyntax pointer =
     (if pointer = [] then None
      else if pointer ! 0 \<noteq> ch_slash then Some (pointer_error pointer ''pointer must be empty or start with slash'')
      else validateTildes pointer 1)"

subsection \<open>The reference\<close>

fun unesc :: "bytes \<Rightarrow> bytes option" where
  "unesc [] = Some []"
| "unesc (c # r) =
     (if c \<noteq> ch_tilde then map_option (Cons c) (unesc r)
      else case r of
          [] \<Rightarrow> None
        | d # r' \<Rightarrow> if d = ch_0 then map_option (Cons ch_tilde) (unesc r')
                    else if d = ch_1 then map_option (Cons ch_slash) (unesc r') else None)"

definition escape_token :: "bytes \<Rightarrow> bytes" where
  "escape_token t = concat (map (\<lambda>c. if c = ch_tilde then [ch_tilde, ch_0] else if c = ch_slash then [ch_tilde, ch_1] else [c]) t)"

definition pointer_of :: "bytes list \<Rightarrow> bytes" where
  "pointer_of ts = concat (map (\<lambda>t. ch_slash # escape_token t) ts)"

lemma escape_token_simps [simp]: "escape_token [] = []"
  "escape_token (c # t) = (if c = ch_tilde then [ch_tilde, ch_0] else if c = ch_slash then [ch_tilde, ch_1] else [c]) @ escape_token t"
  by (simp_all add: escape_token_def)

lemma pointer_of_simps [simp]: "pointer_of [] = []" "pointer_of (t # ts) = ch_slash # escape_token t @ pointer_of ts"
  by (simp_all add: pointer_of_def)

lemma unesc_escape: "unesc (escape_token t) = Some t"
  by (induction t) auto

lemma escape_no_slash: "ch_slash \<notin> set (escape_token t)"
  by (induction t) auto

lemma escape_unesc: "unesc s = Some t \<Longrightarrow> ch_slash \<notin> set s \<Longrightarrow> s = escape_token t"
proof (induction s arbitrary: t rule: unesc.induct)
  case (2 c r)
  then show ?case by (cases r) (auto split: if_splits)
qed simp

abbreviation (input) raw_token :: "bytes \<Rightarrow> nat \<Rightarrow> bytes" where
  "raw_token p start \<equiv> takeWhile (\<lambda>c. c \<noteq> ch_slash) (drop start p)"

function pointer_tokens :: "bytes \<Rightarrow> nat \<Rightarrow> bytes list option" where
  "pointer_tokens p start =
     (if start > length p then Some []
      else case unesc (raw_token p start) of
          None \<Rightarrow> None
        | Some t \<Rightarrow> map_option (Cons t) (pointer_tokens p (start + length (raw_token p start) + 1)))"
  by pat_completeness auto
termination by (relation "measure (\<lambda>(p, start). Suc (length p) - start)") auto

declare pointer_tokens.simps [simp del]

lemma unesc_at:
  assumes "i < length s"
  shows "unesc (drop i s) =
    (if s ! i \<noteq> ch_tilde then map_option (Cons (s ! i)) (unesc (drop (i + 1) s))
     else if i + 1 \<ge> length s then None
     else if s ! (i + 1) = ch_0 then map_option (Cons ch_tilde) (unesc (drop (i + 2) s))
     else if s ! (i + 1) = ch_1 then map_option (Cons ch_slash) (unesc (drop (i + 2) s)) else None)"
proof -
  have d: "drop i s = s ! i # drop (i + 1) s" using assms by (simp add: Cons_nth_drop_Suc)
  have e: "drop (i + 1) s = s ! (i + 1) # drop (i + 2) s" if "i + 1 < length s" using that by (simp add: Cons_nth_drop_Suc)
  show ?thesis
  proof (cases "i + 1 < length s")
    case True
    show ?thesis unfolding d e [OF True] using True by simp
  next
    case False
    then show ?thesis unfolding d by simp
  qed
qed

lemma unescapeLoop_reference:
  "i \<le> length s \<Longrightarrow> (case unesc (drop i s) of Some d \<Rightarrow> unescapeLoop s i out = Inr (out @ d) | None \<Rightarrow> \<exists>e. unescapeLoop s i out = Inl e)"
proof (induction s i out rule: unescapeLoop.induct)
  case (1 s i out)
  show ?case
  proof (cases "i < length s")
    case True
    note at = unesc_at [OF True] and step = unescapeLoop.simps [of s i out]
    show ?thesis using "1.IH" True unfolding at step by (auto split: option.splits)
  next
    case False
    then show ?thesis using "1.prems" by (subst unescapeLoop.simps) simp
  qed
qed

lemma unesc_plain: "ch_tilde \<notin> set xs \<Longrightarrow> unesc (xs @ ys) = map_option ((@) xs) (unesc ys)"
proof (induction xs)
  case (Cons x xs)
  then show ?case by (cases "unesc ys") auto
qed (simp add: option.map_ident)

lemma unescapePointerToken_reference:
  "case unesc s of Some d \<Rightarrow> unescapePointerToken s = Inr d | None \<Rightarrow> \<exists>e. unescapePointerToken s = Inl e"
proof -
  define k where "k = scanBytes (\<lambda>c. c = ch_tilde) s 0 (length s)"
  have p: "k \<le> length s" "\<And>j. j < k \<Longrightarrow> s ! j \<noteq> ch_tilde"
    using scanBytes_props [of 0 "length s", where stop = "\<lambda>c. c = ch_tilde" and src = s] by (auto simp: k_def)
  then have "ch_tilde \<notin> set (take k s)" by (auto simp: in_set_conv_nth)
  from unesc_plain [OF this, of "drop k s"] have u: "unesc s = map_option ((@) (take k s)) (unesc (drop k s))" by simp
  show ?thesis
  proof (cases "k < length s")
    case True
    then show ?thesis using unescapeLoop_reference [OF p(1), of "take k s"] unfolding u
      by (auto simp: unescapePointerToken_def unescapePointerTokenSlow_def k_def [symmetric] split: option.splits)
  next
    case False
    then show ?thesis using p(1) unfolding u by (simp add: unescapePointerToken_def k_def [symmetric])
  qed
qed

lemma raw_token_at:
  "e < length p \<Longrightarrow> p ! e \<noteq> ch_slash \<Longrightarrow> raw_token p e = p ! e # raw_token p (e + 1)"
  "e \<ge> length p \<or> p ! e = ch_slash \<Longrightarrow> raw_token p e = []"
  by (cases "e < length p"; simp add: Cons_nth_drop_Suc [symmetric])+

lemma compileTokenEnd_reference:
  "e \<le> length p \<Longrightarrow> (case unesc (raw_token p e) of
      Some _ \<Rightarrow> compileTokenEnd p e = Inr (e + length (raw_token p e)) | None \<Rightarrow> \<exists>err. compileTokenEnd p e = Inl err)"
proof (induction p e rule: compileTokenEnd.induct)
  case (1 p e)
  note step = compileTokenEnd.simps [of p e]
  consider (stop) "e \<ge> length p \<or> p ! e = ch_slash" | (plain) "e < length p" "p ! e \<noteq> ch_slash" "p ! e \<noteq> ch_tilde"
    | (dangling) "e < length p" "p ! e = ch_tilde" "e + 1 \<ge> length p"
    | (slash) "e < length p" "p ! e = ch_tilde" "e + 1 < length p" "p ! (e + 1) = ch_slash"
    | (escape) "e < length p" "p ! e = ch_tilde" "e + 1 < length p" "p ! (e + 1) \<noteq> ch_slash" by linarith
  then show ?case
  proof cases
    case stop
    then show ?thesis using raw_token_at(2) [OF stop] "1.prems" by (auto simp: step)
  next
    case plain
    then show ?thesis using raw_token_at(1) [OF plain(1,2)] "1.IH"(2) by (auto simp: step split: option.splits)
  next
    case dangling
    then show ?thesis using raw_token_at(1) [of e p] raw_token_at(2) [of p "e + 1"] by (auto simp: step)
  next
    case slash
    then show ?thesis using raw_token_at(1) [of e p] raw_token_at(2) [of p "e + 1"] by (auto simp: step)
  next
    case escape
    have r: "raw_token p e = ch_tilde # p ! (e + 1) # raw_token p (e + 2)"
      using raw_token_at(1) [of e p] raw_token_at(1) [of "e + 1" p] escape by simp
    show ?thesis unfolding r using escape "1.IH"(1) by (auto simp: step split: option.splits)
  qed
qed

lemma compileTokens_reference:
  "start \<le> length p \<Longrightarrow> (case pointer_tokens p start of
      Some ts \<Rightarrow> compileTokens p start acc = Inr \<lparr>spelling = p, Tokens = acc @ map compiledToken ts\<rparr>
    | None \<Rightarrow> \<exists>err. compileTokens p start acc = Inl err)"
proof (induction "length p - start" arbitrary: start acc rule: less_induct)
  case less
  let ?e = "start + length (raw_token p start)"
  have le: "?e \<le> length p" using less.prems length_takeWhile_le [of "\<lambda>c. c \<noteq> ch_slash" "drop start p"] by simp
  have sl: "subslice p start ?e = raw_token p start" by (simp add: subslice_def takeWhile_eq_take [symmetric])
  note step = compileTokens.simps [of p start acc] pointer_tokens.simps [of p start]
  show ?case
  proof (cases "unesc (raw_token p start)")
    case None
    then show ?thesis using compileTokenEnd_reference [OF less.prems] less.prems by (auto simp: step)
  next
    case (Some t)
    then have e: "compileTokenEnd p start = Inr ?e" "unescapePointerToken (raw_token p start) = Inr t"
      using compileTokenEnd_reference [OF less.prems] unescapePointerToken_reference [of "raw_token p start"] by simp_all
    show ?thesis
    proof (cases "?e < length p")
      case True
      then have "case pointer_tokens p (?e + 1) of
          Some ts \<Rightarrow> compileTokens p (?e + 1) (acc @ [compiledToken t])
             = Inr \<lparr>spelling = p, Tokens = (acc @ [compiledToken t]) @ map compiledToken ts\<rparr>
        | None \<Rightarrow> \<exists>err. compileTokens p (?e + 1) (acc @ [compiledToken t]) = Inl err"
        by (intro less.hyps) simp_all
      then show ?thesis using Some e sl True less.prems by (auto simp: step Let_def split: option.splits)
    next
      case False
      then show ?thesis using Some e sl le less.prems by (auto simp: step Let_def pointer_tokens.simps [of p "Suc _"])
    qed
  qed
qed

lemma pointer_tokens_spelling:
  "start \<le> length p \<Longrightarrow> pointer_tokens p start = Some ts \<longleftrightarrow> ts \<noteq> [] \<and> ch_slash # drop start p = pointer_of ts"
proof (induction "length p - start" arbitrary: start ts rule: less_induct)
  case less
  let ?r = "raw_token p start"
  let ?e = "start + length ?r"
  have "drop start p = ?r @ dropWhile (\<lambda>c. c \<noteq> ch_slash) (drop start p)" by (simp only: takeWhile_dropWhile_id)
  then have split: "drop start p = ?r @ drop ?e p" by (simp only: dropWhile_eq_drop drop_drop add.commute)
  have le: "?e \<le> length p" using less.prems length_takeWhile_le [of "\<lambda>c. c \<noteq> ch_slash" "drop start p"] by simp
  have nos: "ch_slash \<notin> set ?r" using set_takeWhileD by fastforce
  note step = pointer_tokens.simps [of p start]
  have first: "escape_token t = ?r \<and> pointer_of ts' = drop ?e p" if "drop start p = escape_token t @ pointer_of ts'" for t ts'
  proof -
    have "takeWhile (\<lambda>c. c \<noteq> ch_slash) (escape_token t @ pointer_of ts') = escape_token t"
      using escape_no_slash [of t] by (cases ts') (auto simp: takeWhile_append2 takeWhile_tail)
    then have "?r = escape_token t" using that by simp
    then show ?thesis using that split by simp
  qed
  show ?case
  proof (cases "?e < length p")
    case True
    then have "p ! ?e = ch_slash"
      using nth_length_takeWhile [of "\<lambda>c. c \<noteq> ch_slash" "drop start p"] less.prems by simp
    then have slash: "drop ?e p = ch_slash # drop (?e + 1) p" using Cons_nth_drop_Suc [OF True] by simp
    have IH: "pointer_tokens p (?e + 1) = Some us \<longleftrightarrow> us \<noteq> [] \<and> ch_slash # drop (?e + 1) p = pointer_of us" for us
      using less.hyps [of "?e + 1" us] True by simp
    show ?thesis
    proof
      assume "pointer_tokens p start = Some ts"
      then obtain t us where u: "unesc ?r = Some t" "pointer_tokens p (?e + 1) = Some us" "ts = t # us"
        using less.prems by (auto simp: step split: option.splits)
      have "ch_slash # drop (?e + 1) p = pointer_of us" using IH u(2) by blast
      then show "ts \<noteq> [] \<and> ch_slash # drop start p = pointer_of ts"
        using escape_unesc [OF u(1) nos] split slash u(3) by (metis list.discI pointer_of_simps(2))
    next
      assume a: "ts \<noteq> [] \<and> ch_slash # drop start p = pointer_of ts"
      then obtain t us where ts: "ts = t # us" "drop start p = escape_token t @ pointer_of us" by (cases ts) auto
      note f = first [OF ts(2)]
      have "us \<noteq> []" using f slash by auto
      then have "pointer_tokens p (?e + 1) = Some us" using IH f slash by simp
      moreover have "unesc ?r = Some t" using f unesc_escape by metis
      ultimately show "pointer_tokens p start = Some ts" using ts less.prems by (simp add: step)
    qed
  next
    case False
    then have end': "drop ?e p = []" "pointer_tokens p (?e + 1) = Some []" using le by (simp_all add: pointer_tokens.simps [of p "Suc _"])
    show ?thesis
    proof
      assume "pointer_tokens p start = Some ts"
      then obtain t where "unesc ?r = Some t" "ts = [t]"
        using less.prems end'(2) by (auto simp: step split: option.splits)
      then show "ts \<noteq> [] \<and> ch_slash # drop start p = pointer_of ts" using escape_unesc [OF _ nos] split end' by simp
    next
      assume a: "ts \<noteq> [] \<and> ch_slash # drop start p = pointer_of ts"
      then obtain t us where ts: "ts = t # us" "drop start p = escape_token t @ pointer_of us" by (cases ts) auto
      note f = first [OF ts(2)]
      have "us = []" using f end'(1) by (cases us) auto
      moreover have "unesc ?r = Some t" using f unesc_escape by metis
      ultimately show "pointer_tokens p start = Some ts" using ts less.prems end'(2) by (simp add: step)
    qed
  qed
qed

lemma unesc_slash:
  "ch_slash \<notin> set xs \<Longrightarrow> unesc (xs @ ch_slash # ys) \<noteq> None \<longleftrightarrow> unesc xs \<noteq> None \<and> unesc ys \<noteq> None"
proof (induction xs rule: unesc.induct)
  case (2 c r)
  then show ?case by (cases r) auto
qed simp

lemma validateTildes_reference: "i \<le> length p \<Longrightarrow> validateTildes p i = None \<longleftrightarrow> unesc (drop i p) \<noteq> None"
proof (induction p i rule: validateTildes.induct)
  case (1 p i)
  show ?case
  proof (cases "i < length p")
    case True
    show ?thesis using "1.IH" True unfolding unesc_at [OF True] validateTildes.simps [of p i] by (auto split: option.splits)
  next
    case False
    then show ?thesis using "1.prems" by (subst validateTildes.simps) simp
  qed
qed

lemma pointer_tokens_unesc: "start \<le> length p \<Longrightarrow> pointer_tokens p start \<noteq> None \<longleftrightarrow> unesc (drop start p) \<noteq> None"
proof (induction "length p - start" arbitrary: start rule: less_induct)
  case less
  let ?r = "raw_token p start"
  let ?e = "start + length ?r"
  have "drop start p = ?r @ dropWhile (\<lambda>c. c \<noteq> ch_slash) (drop start p)" by (simp only: takeWhile_dropWhile_id)
  then have split: "drop start p = ?r @ drop ?e p" by (simp only: dropWhile_eq_drop drop_drop add.commute)
  have le: "?e \<le> length p" using less.prems length_takeWhile_le [of "\<lambda>c. c \<noteq> ch_slash" "drop start p"] by simp
  have nos: "ch_slash \<notin> set ?r" using set_takeWhileD by fastforce
  have step: "pointer_tokens p start \<noteq> None \<longleftrightarrow> unesc ?r \<noteq> None \<and> pointer_tokens p (?e + 1) \<noteq> None"
    using less.prems by (simp add: pointer_tokens.simps [of p start] split: option.split)
  show ?case
  proof (cases "?e < length p")
    case True
    then have "p ! ?e = ch_slash"
      using nth_length_takeWhile [of "\<lambda>c. c \<noteq> ch_slash" "drop start p"] less.prems by simp
    then have slash: "drop ?e p = ch_slash # drop (?e + 1) p" using Cons_nth_drop_Suc [OF True] by simp
    have "unesc (drop start p) \<noteq> None \<longleftrightarrow> unesc ?r \<noteq> None \<and> unesc (drop (?e + 1) p) \<noteq> None"
      using unesc_slash [OF nos, of "drop (?e + 1) p"] split slash by metis
    then show ?thesis using step less.hyps [of "?e + 1"] True by simp
  next
    case False
    then have "drop start p = ?r" "pointer_tokens p (?e + 1) = Some []" using le split by (simp_all add: pointer_tokens.simps [of p "Suc _"])
    then show ?thesis using step by simp
  qed
qed

lemma validatePointerSyntax_iff: "validatePointerSyntax p = None \<longleftrightarrow> (\<exists>ts. p = pointer_of ts)"
proof (cases "p = []")
  case True
  then show ?thesis by (auto simp: validatePointerSyntax_def intro: exI [of _ "[]"])
next
  case ne: False
  show ?thesis
  proof (cases "p ! 0 = ch_slash")
    case False
    have "p ! 0 = ch_slash" if "p = pointer_of ts" for ts using ne that by (cases ts) auto
    with False ne show ?thesis by (auto simp: validatePointerSyntax_def)
  next
    case True
    then have p: "p = ch_slash # drop 1 p" using ne by (cases p) auto
    have l: "1 \<le> length p" using ne by (cases p) auto
    have "validatePointerSyntax p = None \<longleftrightarrow> (\<exists>ts. pointer_tokens p 1 = Some ts)"
      using True ne validateTildes_reference [OF l] pointer_tokens_unesc [OF l] by (simp add: validatePointerSyntax_def)
    also have "\<dots> \<longleftrightarrow> (\<exists>ts. ts \<noteq> [] \<and> p = pointer_of ts)" using pointer_tokens_spelling [OF l] p by metis
    also have "\<dots> \<longleftrightarrow> (\<exists>ts. p = pointer_of ts)" using ne by (metis pointer_of_simps(1))
    finally show ?thesis .
  qed
qed

lemma CompilePointer_tokens:
  assumes "p = pointer_of ts"
  shows "CompilePointer p = Inr \<lparr>spelling = p, Tokens = map compiledToken ts\<rparr>"
proof (cases "ts = []")
  case True
  then show ?thesis using assms by (simp add: CompilePointer_def)
next
  case False
  then have l: "1 \<le> length p" "p ! 0 = ch_slash" "p \<noteq> []" "ch_slash # drop 1 p = p" using assms by (cases ts; auto)+
  then have "pointer_tokens p 1 = Some ts" using pointer_tokens_spelling [OF l(1), of ts] False assms by simp
  then show ?thesis using compileTokens_reference [OF l(1), of "[]"] l by (simp add: CompilePointer_def)
qed

lemma CompilePointer_rejects:
  assumes "\<And>ts. p \<noteq> pointer_of ts"
  shows "\<exists>err. CompilePointer p = Inl err"
proof (cases "p = [] \<or> p ! 0 \<noteq> ch_slash")
  case True
  then show ?thesis using assms [of "[]"] by (auto simp: CompilePointer_def)
next
  case False
  then have l: "1 \<le> length p" "ch_slash # drop 1 p = p" by (cases p; auto)+
  have "pointer_tokens p 1 = None" using pointer_tokens_spelling [OF l(1)] assms l(2) by (metis option.exhaust)
  then show ?thesis using compileTokens_reference [OF l(1), of "[]"] False by (auto simp: CompilePointer_def)
qed

lemma compiledToken_Text: "Text (compiledToken t) = t"
  by (simp add: compiledToken_def split: prod.split)

text \<open>C20: a pointer compiles exactly when the scanner accepts its spelling, that is, when it is a list of tokens, each escaped and
  led by a slash; the compiled tokens are those tokens, so that a list of tokens survives printing and compiling.\<close>

theorem CompilePointer_correct:
  "(case CompilePointer pointer of
      Inr p \<Rightarrow> validatePointerSyntax pointer = None \<and> spelling p = pointer \<and> pointer = pointer_of (map Text (Tokens p))
    | Inl _ \<Rightarrow> validatePointerSyntax pointer \<noteq> None)
   \<and> map_sum id (\<lambda>p. map Text (Tokens p)) (CompilePointer (pointer_of ts)) = Inr ts"
proof
  show "case CompilePointer pointer of
      Inr p \<Rightarrow> validatePointerSyntax pointer = None \<and> spelling p = pointer \<and> pointer = pointer_of (map Text (Tokens p))
    | Inl _ \<Rightarrow> validatePointerSyntax pointer \<noteq> None"
  proof (cases "\<exists>ts. pointer = pointer_of ts")
    case True
    then obtain ts where ts: "pointer = pointer_of ts" by blast
    then show ?thesis using CompilePointer_tokens [OF ts] validatePointerSyntax_iff [of pointer]
      by (auto simp: comp_def compiledToken_Text)
  next
    case False
    then show ?thesis using CompilePointer_rejects [of pointer] validatePointerSyntax_iff [of pointer] by auto
  qed
  show "map_sum id (\<lambda>p. map Text (Tokens p)) (CompilePointer (pointer_of ts)) = Inr ts"
    using CompilePointer_tokens [OF refl, of ts] by (simp add: comp_def compiledToken_Text)
qed

subsection \<open>Array indices\<close>

lemma arrayIndex_compiled: "arrayIndex (compiledToken t) = parsePointerIndex t"
  by (auto simp: arrayIndex_def compiledToken_def parsePointerIndex_def classifyPointerIndex_def split: option.splits)

lemma digits_value_snoc: "digits_value (s @ [c]) = 10 * digits_value s + (unat c - 48)"
  by (simp add: digits_value_def)

abbreviation (input) digit_bytes :: "bytes \<Rightarrow> bool" where
  "digit_bytes s \<equiv> \<forall>c \<in> set s. ch_0 \<le> c \<and> c \<le> ch_9"

lemma decimal_digit: "k < 10 \<Longrightarrow> unat (48 + word_of_nat k :: byte) = 48 + k"
  by (simp add: unat_word_ariths unat_of_nat)

lemma decimal_props: "decimal n \<noteq> [] \<and> digit_bytes (decimal n) \<and> digits_value (decimal n) = n \<and> (1 < length (decimal n) \<longrightarrow> hd (decimal n) \<noteq> ch_0)"
proof (induction n rule: decimal.induct)
  case (1 n)
  have nz: "hd (decimal m) \<noteq> ch_0" if "0 < m" "decimal m \<noteq> []" "1 < length (decimal m) \<longrightarrow> hd (decimal m) \<noteq> ch_0"
      "digits_value (decimal m) = m" for m
  proof (cases "length (decimal m) = 1")
    case True
    then obtain c where c: "decimal m = [c]" by (cases "decimal m") auto
    show ?thesis
    proof
      assume "hd (decimal m) = ch_0"
      with c have "decimal m = [0x30]" by simp
      with that(1,4) show False by (simp add: digits_value_def)
    qed
  qed (use that in \<open>cases "decimal m"; auto\<close>)
  show ?case
  proof (cases "n < 10")
    case True
    then have "decimal n = [ch_0 + word_of_nat n]" by (simp add: decimal.simps)
    then show ?thesis using decimal_digit [OF True] True by (auto simp: digits_value_def word_le_nat_alt)
  next
    case False
    then have d: "decimal n = decimal (n div 10) @ [ch_0 + word_of_nat (n mod 10)]" by (simp add: decimal.simps [of n])
    note IH = "1.IH" [OF False]
    have "0 < n div 10" using False by simp
    then show ?thesis using IH nz [of "n div 10"] decimal_digit [of "n mod 10"] unfolding d
      by (auto simp: digits_value_snoc word_le_nat_alt)
  qed
qed

lemma decimal_of_digits:
  "s \<noteq> [] \<Longrightarrow> digit_bytes s \<Longrightarrow> (1 < length s \<Longrightarrow> hd s \<noteq> ch_0) \<Longrightarrow> decimal (digits_value s) = s"
proof (induction s rule: rev_induct)
  case (snoc c s)
  have c: "48 \<le> unat c" "unat c - 48 < 10" "ch_0 + word_of_nat (unat c - 48) = c"
    using snoc.prems(2) by (auto simp: word_le_nat_alt of_nat_diff)
  show ?case
  proof (cases "s = []")
    case True
    then show ?thesis using c by (simp add: digits_value_def decimal.simps)
  next
    case False
    then have IH: "decimal (digits_value s) = s" using snoc by (auto simp: hd_append)
    have "digits_value s \<noteq> 0"
    proof
      assume "digits_value s = 0"
      then have "s = [ch_0]" using IH by (simp add: decimal.simps [of 0])
      with snoc.prems(3) show False by simp
    qed
    then have ge: "\<not> 10 * digits_value s + k < 10" for k by linarith
    define k where "k = unat c - 48"
    have "decimal (10 * digits_value s + k) = s @ [ch_0 + word_of_nat k]"
      using ge [of k] IH c(2) by (simp add: decimal.simps [of "10 * digits_value s + k"] k_def [symmetric])
    then show ?thesis using c(3) by (simp add: digits_value_snoc k_def)
  qed
qed simp

text \<open>C21: a token names array element \<open>n\<close> exactly when it is the decimal spelling of an \<open>n\<close> that fits Go's \<^verbatim>\<open>int\<close>,
  whether it was compiled or is read from the spelling.\<close>

theorem arrayIndex_decimal:
  "(parsePointerIndex s = Inr (Some n) \<longleftrightarrow> s = decimal n \<and> n < 2 ^ 63) \<and> arrayIndex (compiledToken s) = parsePointerIndex s"
proof
  have "parsePointerIndex s = Inr (Some n) \<longleftrightarrow>
      s \<noteq> [ch_minus] \<and> s \<noteq> [] \<and> \<not> (length s > 1 \<and> s ! 0 = ch_0) \<and> digit_bytes s \<and> digits_value s = n \<and> n < 2 ^ 63"
    by (auto simp: parsePointerIndex_def classifyPointerIndex_def atoi_def not_less not_le)
  also have "\<dots> \<longleftrightarrow> s = decimal n \<and> n < 2 ^ 63"
    using decimal_props [of n] decimal_of_digits [of s] by (auto simp: hd_conv_nth)
  finally show "parsePointerIndex s = Inr (Some n) \<longleftrightarrow> s = decimal n \<and> n < 2 ^ 63" .
qed (rule arrayIndex_compiled)

end
