(* ===== verification/RawSeek.thy ===== *)
theory RawSeek
  imports Walker RawString Pointer
begin

text \<open>
  The raw seeker of \<^verbatim>\<open>raw.go\<close>: one validating pass that follows a JSON Pointer and returns the bytes of the
  target. The seeker's \<^verbatim>\<open>i\<close> and \<^verbatim>\<open>done\<close> are part of the result, together with the target (\<^verbatim>\<open>RawValue\<close> and
  \<^verbatim>\<open>ok\<close>) and a pending pointer error; syntax errors are failures. Pointers are walked in two ways, by their
  spelling and by their compiled tokens. The routines are generic in the position within the pointer, and both
  walks are shown equal to one over the list of tokens.
\<close>

subsection \<open>Values\<close>

type_synonym target = "bytes option \<times> PointerError option"
type_synonym seek = "nat \<times> bool \<times> target"
type_synonym skip_fn = "nat \<Rightarrow> nat \<Rightarrow> (SyntaxError, nat) outcome"
type_synonym 'p find_fn = "nat \<Rightarrow> 'p \<Rightarrow> nat \<Rightarrow> (SyntaxError, seek) outcome"
type_synonym 'p elems_fn = "nat \<Rightarrow> nat option \<Rightarrow> 'p \<Rightarrow> nat \<Rightarrow> target \<Rightarrow> nat \<Rightarrow> (SyntaxError, seek) outcome"
type_synonym 'p mems_fn = "nat \<Rightarrow> bytes \<Rightarrow> 'p \<Rightarrow> target \<Rightarrow> nat \<Rightarrow> (SyntaxError, seek) outcome"

definition skipValue :: "nat \<Rightarrow> bytes \<Rightarrow> nat \<Rightarrow> skip_fn" where
  "skipValue n src maxDepth depth i = bind_outcome (parseValue n src maxDepth depth i None) (\<lambda>(i, _). Ok i)"

definition captureValue :: "skip_fn \<Rightarrow> bytes \<Rightarrow> bool \<Rightarrow> nat \<Rightarrow> nat \<Rightarrow> (SyntaxError, seek) outcome" where
  "captureValue skip src stopAfterFound depth start =
     bind_outcome (skip depth start) (\<lambda>i. Ok (i, stopAfterFound, Some (subslice src start i), None))"

subsection \<open>The loops of \<^verbatim>\<open>findArray\<close> and \<^verbatim>\<open>findObject\<close>\<close>

text \<open>One turn of the element loop. \<open>found\<close> holds \<^verbatim>\<open>raw\<close>, \<^verbatim>\<open>ok\<close> and \<^verbatim>\<open>pointerErr\<close> of the turns before.\<close>

definition findArrayStep :: "'p find_fn \<Rightarrow> skip_fn \<Rightarrow> 'p elems_fn \<Rightarrow> bytes \<Rightarrow> bool \<Rightarrow> 'p elems_fn" where
  "findArrayStep find_value skip loop src stopAfterFound depth index' nextToken elem found i =
     (let next = (\<lambda>found i.
            let i = SkipSpace src i in
            if i \<ge> length src then err_at src (int i) ''unterminated array''
            else if src ! i = ch_comma then loop depth index' nextToken (elem + 1) found (i + 1)
            else if src ! i = ch_rbracket then Ok (i + 1, False, found)
            else err_at src (int i) ''expected comma or closing bracket in array'');
          i = SkipSpace src i in
      if index' = Some elem then
        bind_outcome (find_value depth nextToken i) (\<lambda>(i, done, raw, perr).
          if perr \<noteq> None \<and> stopAfterFound then Ok (i, done, None, perr)
          else if done then Ok (i, done, raw, None)
          else next (raw, if perr \<noteq> None then perr else snd found) i)
      else bind_outcome (skip depth i) (next found))"

definition findObjectStep :: "'p find_fn \<Rightarrow> skip_fn \<Rightarrow> 'p mems_fn \<Rightarrow> bytes \<Rightarrow> bool \<Rightarrow> 'p mems_fn" where
  "findObjectStep find_value skip loop src stopAfterFound depth token nextToken found i =
     (let next = (\<lambda>found i.
            let i = SkipSpace src i in
            if i \<ge> length src then err_at src (int i) ''unterminated object''
            else if src ! i = ch_comma then loop depth token nextToken found (i + 1)
            else if src ! i = ch_rbrace then Ok (i + 1, False, found)
            else err_at src (int i) ''expected comma or closing brace in object'');
          i = SkipSpace src i in
      if i \<ge> length src \<or> src ! i \<noteq> ch_quote then err_at src (int i) ''expected object key string''
      else bind_outcome (parseStringRaw src i) (\<lambda>(keyStart, keyEnd, escaped, i).
        bind_outcome (keyMatches src token keyStart keyEnd escaped) (\<lambda>matched.
          let i = SkipSpace src i in
          if i \<ge> length src \<or> src ! i \<noteq> ch_colon then err_at src (int i) ''expected colon after object key''
          else let i = SkipSpace src (i + 1) in
            if matched then
              bind_outcome (find_value depth nextToken i) (\<lambda>(i, done, raw, perr).
                if perr \<noteq> None \<and> stopAfterFound then Ok (i, done, None, perr)
                else if done then Ok (i, done, raw, None)
                else next (raw, perr) i)
            else bind_outcome (skip depth i) (next found))))"

subsection \<open>Walking a pointer by its spelling\<close>

definition findArray :: "bytes \<Rightarrow> bytes \<Rightarrow> nat \<Rightarrow> bool \<Rightarrow> skip_fn \<Rightarrow> nat elems_fn \<Rightarrow> nat find_fn" where
  "findArray pointer src maxDepth stopAfterFound skip loop depth tokenStart i =
     (if depth > maxDepth then err_at src (int i) ''maximum nesting depth exceeded''
      else case pointerToken pointer tokenStart of (tokenEnd, nextToken) \<Rightarrow>
        (case unescapePointerToken (subslice pointer tokenStart tokenEnd) of
           Inl err \<Rightarrow> Ok (i, False, None, Some err)
         | Inr token \<Rightarrow>
             (case parsePointerIndex token of
                Inl err \<Rightarrow>
                  if \<not> stopAfterFound then bind_outcome (skip (depth - 1) i) (\<lambda>i. Ok (i, False, None, Some err))
                  else Ok (i, False, None, Some err)
              | Inr index' \<Rightarrow>
                  let i = SkipSpace src (i + 1) in
                  if i < length src \<and> src ! i = ch_rbracket then Ok (i + 1, False, None, None)
                  else loop depth index' nextToken 0 (None, None) i)))"

definition findObject :: "bytes \<Rightarrow> bytes \<Rightarrow> nat \<Rightarrow> nat mems_fn \<Rightarrow> nat find_fn" where
  "findObject pointer src maxDepth loop depth tokenStart i =
     (if depth > maxDepth then err_at src (int i) ''maximum nesting depth exceeded''
      else case pointerToken pointer tokenStart of (tokenEnd, nextToken) \<Rightarrow>
        (case unescapePointerToken (subslice pointer tokenStart tokenEnd) of
           Inl err \<Rightarrow> Ok (i, False, None, Some err)
         | Inr token \<Rightarrow>
             let i = SkipSpace src (i + 1) in
             if i < length src \<and> src ! i = ch_rbrace then Ok (i + 1, False, None, None)
             else loop depth token nextToken (None, None) i))"

definition findValueStep :: "bytes \<Rightarrow> bytes \<Rightarrow> nat \<Rightarrow> bool \<Rightarrow> skip_fn \<Rightarrow> nat elems_fn \<Rightarrow> nat mems_fn \<Rightarrow> nat find_fn" where
  "findValueStep pointer src maxDepth stopAfterFound skip elems mems depth tokenStart i =
     (if tokenStart > length pointer then captureValue skip src stopAfterFound depth i
      else if depth > maxDepth then err_at src (int i) ''maximum nesting depth exceeded''
      else if i \<ge> length src then err_at src (int i) ''expected value''
      else if src ! i = ch_lbrace then findObject pointer src maxDepth mems (depth + 1) tokenStart i
      else if src ! i = ch_lbracket then findArray pointer src maxDepth stopAfterFound skip elems (depth + 1) tokenStart i
      else bind_outcome (skip depth i) (\<lambda>i. Ok (i, False, None, None)))"

subsection \<open>Walking the compiled tokens\<close>

definition findCompiledArray :: "CompiledPointer \<Rightarrow> bytes \<Rightarrow> nat \<Rightarrow> bool \<Rightarrow> skip_fn \<Rightarrow> nat elems_fn \<Rightarrow> nat find_fn" where
  "findCompiledArray pointer src maxDepth stopAfterFound skip loop depth tokenIndex i =
     (if depth > maxDepth then err_at src (int i) ''maximum nesting depth exceeded''
      else case arrayIndex (Tokens pointer ! tokenIndex) of
          Inl err \<Rightarrow>
            if \<not> stopAfterFound then bind_outcome (skip (depth - 1) i) (\<lambda>i. Ok (i, False, None, Some err))
            else Ok (i, False, None, Some err)
        | Inr index' \<Rightarrow>
            let i = SkipSpace src (i + 1) in
            if i < length src \<and> src ! i = ch_rbracket then Ok (i + 1, False, None, None)
            else loop depth index' (tokenIndex + 1) 0 (None, None) i)"

definition findCompiledObject :: "CompiledPointer \<Rightarrow> bytes \<Rightarrow> nat \<Rightarrow> nat mems_fn \<Rightarrow> nat find_fn" where
  "findCompiledObject pointer src maxDepth loop depth tokenIndex i =
     (if depth > maxDepth then err_at src (int i) ''maximum nesting depth exceeded''
      else let token = Text (Tokens pointer ! tokenIndex); i = SkipSpace src (i + 1) in
        if i < length src \<and> src ! i = ch_rbrace then Ok (i + 1, False, None, None)
        else loop depth token (tokenIndex + 1) (None, None) i)"

definition findCompiledValueStep :: "CompiledPointer \<Rightarrow> bytes \<Rightarrow> nat \<Rightarrow> bool \<Rightarrow> skip_fn \<Rightarrow> nat elems_fn \<Rightarrow> nat mems_fn \<Rightarrow> nat find_fn" where
  "findCompiledValueStep pointer src maxDepth stopAfterFound skip elems mems depth tokenIndex i =
     (if tokenIndex \<ge> length (Tokens pointer) then captureValue skip src stopAfterFound depth i
      else if depth > maxDepth then err_at src (int i) ''maximum nesting depth exceeded''
      else if i \<ge> length src then err_at src (int i) ''expected value''
      else if src ! i = ch_lbrace then findCompiledObject pointer src maxDepth mems (depth + 1) tokenIndex i
      else if src ! i = ch_lbracket then findCompiledArray pointer src maxDepth stopAfterFound skip elems (depth + 1) tokenIndex i
      else bind_outcome (skip depth i) (\<lambda>i. Ok (i, False, None, None)))"

subsection \<open>Tying the knot\<close>

type_synonym 'p step_fn = "bytes \<Rightarrow> nat \<Rightarrow> bool \<Rightarrow> skip_fn \<Rightarrow> 'p elems_fn \<Rightarrow> 'p mems_fn \<Rightarrow> 'p find_fn"

text \<open>One unit of fuel per call, as for the validator; a skipped value gets the fuel of the level it is skipped on.\<close>

primrec seekers :: "nat \<Rightarrow> 'p step_fn \<Rightarrow> bytes \<Rightarrow> nat \<Rightarrow> bool \<Rightarrow> 'p find_fn \<times> 'p elems_fn \<times> 'p mems_fn" where
  "seekers 0 step src maxDepth stop = ((\<lambda>_ _ _. NoFuel), (\<lambda>_ _ _ _ _ _. NoFuel), (\<lambda>_ _ _ _ _. NoFuel))"
| "seekers (Suc n) step src maxDepth stop =
     (case seekers n step src maxDepth stop of (find_value, elems, mems) \<Rightarrow>
        (step src maxDepth stop (skipValue (Suc n) src maxDepth) elems mems,
         findArrayStep find_value (skipValue n src maxDepth) elems src stop,
         findObjectStep find_value (skipValue n src maxDepth) mems src stop))"

definition seekValue :: "nat \<Rightarrow> 'p step_fn \<Rightarrow> bytes \<Rightarrow> nat \<Rightarrow> bool \<Rightarrow> 'p find_fn" where
  "seekValue n step src maxDepth stop = fst (seekers n step src maxDepth stop)"

definition seekElems :: "nat \<Rightarrow> 'p step_fn \<Rightarrow> bytes \<Rightarrow> nat \<Rightarrow> bool \<Rightarrow> 'p elems_fn" where
  "seekElems n step src maxDepth stop = fst (snd (seekers n step src maxDepth stop))"

definition seekMems :: "nat \<Rightarrow> 'p step_fn \<Rightarrow> bytes \<Rightarrow> nat \<Rightarrow> bool \<Rightarrow> 'p mems_fn" where
  "seekMems n step src maxDepth stop = snd (snd (seekers n step src maxDepth stop))"

definition findValue :: "nat \<Rightarrow> bytes \<Rightarrow> bytes \<Rightarrow> nat \<Rightarrow> bool \<Rightarrow> nat find_fn" where
  "findValue n pointer = seekValue n (findValueStep pointer)"

definition findCompiledValue :: "nat \<Rightarrow> CompiledPointer \<Rightarrow> bytes \<Rightarrow> nat \<Rightarrow> bool \<Rightarrow> nat find_fn" where
  "findCompiledValue n pointer = seekValue n (findCompiledValueStep pointer)"

lemma seek_0 [simp]:
  "seekValue 0 step src maxDepth stop depth p i = NoFuel"
  "seekElems 0 step src maxDepth stop depth index' p elem found i = NoFuel"
  "seekMems 0 step src maxDepth stop depth token p found i = NoFuel"
  by (simp_all add: seekValue_def seekElems_def seekMems_def)

lemma seek_Suc:
  "seekValue (Suc n) step src maxDepth stop = step src maxDepth stop (skipValue (Suc n) src maxDepth)
     (seekElems n step src maxDepth stop) (seekMems n step src maxDepth stop)"
  "seekElems (Suc n) step src maxDepth stop = findArrayStep (seekValue n step src maxDepth stop)
     (skipValue n src maxDepth) (seekElems n step src maxDepth stop) src stop"
  "seekMems (Suc n) step src maxDepth stop = findObjectStep (seekValue n step src maxDepth stop)
     (skipValue n src maxDepth) (seekMems n step src maxDepth stop) src stop"
  by (simp_all add: seekValue_def seekElems_def seekMems_def split: prod.splits)

subsection \<open>Entry points\<close>

datatype rawError = SyntaxFailure SyntaxError | PointerFailure PointerError

text \<open>What a seeker's result is to its caller: a pending pointer error is an error value.\<close>

definition rawResult :: "(SyntaxError, seek) outcome \<Rightarrow> (rawError, nat \<times> bytes option) outcome" where
  "rawResult r = (case r of
       Ok (i, done, raw, None) \<Rightarrow> Ok (i, raw)
     | Ok (i, done, raw, Some err) \<Rightarrow> Fail (PointerFailure err)
     | Fail err \<Rightarrow> Fail (SyntaxFailure err)
     | NoFuel \<Rightarrow> NoFuel)"

definition trailing :: "bytes \<Rightarrow> nat \<times> bytes option \<Rightarrow> (rawError, bytes option) outcome" where
  "trailing src = (\<lambda>(i, raw).
     let i = SkipSpace src i in
     if i \<noteq> length src
     then Fail (SyntaxFailure (syntaxError src (int i) ''unexpected data after top-level value''))
     else Ok raw)"

definition GetRawOptions :: "bytes \<Rightarrow> bytes \<Rightarrow> int \<Rightarrow> (rawError, bytes option) outcome" where
  "GetRawOptions src pointer maxDepth =
     (case validatePointerSyntax pointer of
        Some err \<Rightarrow> Fail (PointerFailure err)
      | None \<Rightarrow>
          let d = maxDepthOrDefault maxDepth; i = SkipSpace src 0; n = value_fuel src 0 in
          bind_outcome (rawResult
            (if pointer = [] then captureValue (skipValue n src d) src False 0 i
             else findValue n pointer src d False 0 1 i)) (trailing src))"

definition ScanFirstRawOptions :: "bytes \<Rightarrow> bytes \<Rightarrow> int \<Rightarrow> (rawError, bytes option) outcome" where
  "ScanFirstRawOptions src pointer maxDepth =
     (case validatePointerSyntax pointer of
        Some err \<Rightarrow> Fail (PointerFailure err)
      | None \<Rightarrow>
          let d = maxDepthOrDefault maxDepth; i = SkipSpace src 0; n = value_fuel src 0 in
          bind_outcome (rawResult
            (if pointer = [] then captureValue (skipValue n src d) src True 0 i
             else findValue n pointer src d True 0 1 i)) (\<lambda>(i, raw). Ok raw))"

definition CompiledPointer_GetRawOptions :: "CompiledPointer \<Rightarrow> bytes \<Rightarrow> int \<Rightarrow> (rawError, bytes option) outcome" where
  "CompiledPointer_GetRawOptions p src maxDepth =
     (let d = maxDepthOrDefault maxDepth; i = SkipSpace src 0; n = value_fuel src 0 in
      bind_outcome (rawResult (findCompiledValue n p src d False 0 0 i)) (trailing src))"

definition CompiledPointer_ScanFirstRawOptions :: "CompiledPointer \<Rightarrow> bytes \<Rightarrow> int \<Rightarrow> (rawError, bytes option) outcome" where
  "CompiledPointer_ScanFirstRawOptions p src maxDepth =
     (let d = maxDepthOrDefault maxDepth; i = SkipSpace src 0; n = value_fuel src 0 in
      bind_outcome (rawResult (findCompiledValue n p src d True 0 0 i)) (\<lambda>(i, raw). Ok raw))"

text \<open>The entry points with default options, and the methods of \<^verbatim>\<open>RawValue\<close> that call them.\<close>

definition GetRaw :: "bytes \<Rightarrow> bytes \<Rightarrow> (rawError, bytes option) outcome" where
  "GetRaw src pointer = GetRawOptions src pointer 0"

definition ScanFirstRaw :: "bytes \<Rightarrow> bytes \<Rightarrow> (rawError, bytes option) outcome" where
  "ScanFirstRaw src pointer = ScanFirstRawOptions src pointer 0"

definition CompiledPointer_GetRaw :: "CompiledPointer \<Rightarrow> bytes \<Rightarrow> (rawError, bytes option) outcome" where
  "CompiledPointer_GetRaw p src = CompiledPointer_GetRawOptions p src 0"

definition CompiledPointer_ScanFirstRaw :: "CompiledPointer \<Rightarrow> bytes \<Rightarrow> (rawError, bytes option) outcome" where
  "CompiledPointer_ScanFirstRaw p src = CompiledPointer_ScanFirstRawOptions p src 0"

definition RawValue_Pointer :: "bytes \<Rightarrow> bytes \<Rightarrow> (rawError, bytes option) outcome" where
  "RawValue_Pointer src pointer = GetRaw src pointer"

definition RawValue_ScanFirstPointer :: "bytes \<Rightarrow> bytes \<Rightarrow> (rawError, bytes option) outcome" where
  "RawValue_ScanFirstPointer src pointer = ScanFirstRaw src pointer"

definition RawValue_PointerCompiled :: "bytes \<Rightarrow> CompiledPointer \<Rightarrow> (rawError, bytes option) outcome" where
  "RawValue_PointerCompiled src pointer = CompiledPointer_GetRaw pointer src"

definition RawValue_ScanFirstPointerCompiled :: "bytes \<Rightarrow> CompiledPointer \<Rightarrow> (rawError, bytes option) outcome" where
  "RawValue_ScanFirstPointerCompiled src pointer = CompiledPointer_ScanFirstRaw pointer src"

subsection \<open>Both walks are the walk over the tokens\<close>

definition seek_step :: "bytes list step_fn" where
  "seek_step src maxDepth stop skip elems mems depth ts i =
     (case ts of
        [] \<Rightarrow> captureValue skip src stop depth i
      | t # ts' \<Rightarrow>
          if depth > maxDepth then err_at src (int i) ''maximum nesting depth exceeded''
          else if i \<ge> length src then err_at src (int i) ''expected value''
          else if src ! i = ch_lbrace then
            if depth + 1 > maxDepth then err_at src (int i) ''maximum nesting depth exceeded''
            else let i = SkipSpace src (i + 1) in
              if i < length src \<and> src ! i = ch_rbrace then Ok (i + 1, False, None, None)
              else mems (depth + 1) t ts' (None, None) i
          else if src ! i = ch_lbracket then
            if depth + 1 > maxDepth then err_at src (int i) ''maximum nesting depth exceeded''
            else case parsePointerIndex t of
                Inl err \<Rightarrow>
                  if \<not> stop then bind_outcome (skip depth i) (\<lambda>i. Ok (i, False, None, Some err))
                  else Ok (i, False, None, Some err)
              | Inr index' \<Rightarrow>
                  let i = SkipSpace src (i + 1) in
                  if i < length src \<and> src ! i = ch_rbracket then Ok (i + 1, False, None, None)
                  else elems (depth + 1) index' ts' 0 (None, None) i
          else bind_outcome (skip depth i) (\<lambda>i. Ok (i, False, None, None)))"

text \<open>Two triples of routines agree at positions and their tokens.\<close>

definition same_walk :: "('p \<Rightarrow> bytes list option) \<Rightarrow> 'p find_fn \<times> 'p elems_fn \<times> 'p mems_fn
    \<Rightarrow> bytes list find_fn \<times> bytes list elems_fn \<times> bytes list mems_fn \<Rightarrow> bool" where
  "same_walk tokens_at a b \<longleftrightarrow> (\<forall>p ts. tokens_at p = Some ts \<longrightarrow>
     (\<forall>depth i. fst a depth p i = fst b depth ts i)
     \<and> (\<forall>depth index' elem found i. fst (snd a) depth index' p elem found i = fst (snd b) depth index' ts elem found i)
     \<and> (\<forall>depth token found i. snd (snd a) depth token p found i = snd (snd b) depth token ts found i))"

lemma seekers_Suc: "seekers (Suc n) step src maxDepth stop =
    (step src maxDepth stop (skipValue (Suc n) src maxDepth) (fst (snd (seekers n step src maxDepth stop))) (snd (snd (seekers n step src maxDepth stop))),
     findArrayStep (fst (seekers n step src maxDepth stop)) (skipValue n src maxDepth) (fst (snd (seekers n step src maxDepth stop))) src stop,
     findObjectStep (fst (seekers n step src maxDepth stop)) (skipValue n src maxDepth) (snd (snd (seekers n step src maxDepth stop))) src stop)"
  by (simp split: prod.splits)

text \<open>
  The contract between the seeker and a representation of pointers: \<open>tokens_at\<close> gives the tokens that are
  left at a position, and one step at the position is the step over those tokens.
\<close>

locale token_cursor =
  fixes step :: "'p step_fn" and tokens_at :: "'p \<Rightarrow> bytes list option"
  assumes step_tokens: "tokens_at p = Some ts
    \<Longrightarrow> (\<And>depth index' p' ts' elem found i. tokens_at p' = Some ts' \<Longrightarrow>
          elems depth index' p' elem found i = elems' depth index' ts' elem found i)
    \<Longrightarrow> (\<And>depth token p' ts' found i. tokens_at p' = Some ts' \<Longrightarrow>
          mems depth token p' found i = mems' depth token ts' found i)
    \<Longrightarrow> step src maxDepth stop skip elems mems depth p i = seek_step src maxDepth stop skip elems' mems' depth ts i"
begin

lemma walks_agree: "same_walk tokens_at (seekers n step src maxDepth stop) (seekers n seek_step src maxDepth stop)"
proof (induction n)
  case (Suc n)
  note IH = Suc.IH [unfolded same_walk_def]
  have "fst (seekers (Suc n) step src maxDepth stop) depth p i = fst (seekers (Suc n) seek_step src maxDepth stop) depth ts i"
    if "tokens_at p = Some ts" for depth p ts i
    unfolding seekers_Suc fst_conv by (rule step_tokens [OF that]) (use IH in blast)+
  with IH show ?case unfolding same_walk_def seekers_Suc
    by (simp add: findArrayStep_def findObjectStep_def cong: if_cong)
qed (simp add: same_walk_def)

lemma seek_tokens:
  "tokens_at p = Some ts \<Longrightarrow> seekValue n step src maxDepth stop depth p i = seekValue n seek_step src maxDepth stop depth ts i"
  using walks_agree [of n src maxDepth stop] by (simp add: same_walk_def seekValue_def)

end

lemma pointerToken_raw:
  assumes "start \<le> length p"
  shows "pointerToken p start = (start + length (raw_token p start), start + length (raw_token p start) + 1)"
    "subslice p start (start + length (raw_token p start)) = raw_token p start"
proof -
  have "scanBytes (\<lambda>c. c = ch_slash) p start (length p) = start + length (raw_token p start)" using assms
  proof (induction "length p - start" arbitrary: start rule: less_induct)
    case less
    show ?case
    proof (cases "start < length p \<and> p ! start \<noteq> ch_slash")
      case True
      then have "length p - Suc start < length p - start" "Suc start \<le> length p" by auto
      then show ?thesis using less.hyps [of "Suc start"] raw_token_at(1) [of start p] True
        by (simp add: scanBytes.simps [of _ p start])
    next
      case False
      then show ?thesis using less.prems raw_token_at(2) [of p start] by (auto simp: scanBytes.simps [of _ p start])
    qed
  qed
  then show "pointerToken p start = (start + length (raw_token p start), start + length (raw_token p start) + 1)"
    by (simp add: pointerToken_def Let_def)
  show "subslice p start (start + length (raw_token p start)) = raw_token p start"
    by (simp add: subslice_def takeWhile_eq_take [symmetric])
qed

interpretation spelled: token_cursor "findValueStep pointer" "pointer_tokens pointer" for pointer
proof (unfold_locales, goal_cases)
  case (1 p ts elems elems' mems mems' src maxDepth stop skip depth i)
  show ?case
  proof (cases "p > length pointer")
    case True
    then show ?thesis using 1(1) by (simp add: pointer_tokens.simps [of pointer p] findValueStep_def seek_step_def)
  next
    case False
    let ?r = "raw_token pointer p"
    obtain t ts' where t: "unesc ?r = Some t" "pointer_tokens pointer (p + length ?r + 1) = Some ts'" "ts = t # ts'"
      using 1(1) False by (auto simp: pointer_tokens.simps [of pointer p] split: option.splits)
    have u: "unescapePointerToken ?r = Inr t" using unescapePointerToken_reference [of ?r] t(1) by simp
    show ?thesis using False t u pointerToken_raw [of p pointer] 1(2,3) [OF t(2)]
      by (simp add: findValueStep_def seek_step_def findObject_def findArray_def Let_def cong: if_cong sum.case_cong)
  qed
qed

interpretation compiled: token_cursor "findCompiledValueStep \<lparr>spelling = s, Tokens = map compiledToken ts0\<rparr>"
  "\<lambda>k. if k \<le> length ts0 then Some (drop k ts0) else None" for s ts0
proof (unfold_locales, goal_cases)
  case (1 p ts elems elems' mems mems' src maxDepth stop skip depth i)
  then have p: "p \<le> length ts0" "ts = drop p ts0" by (auto split: if_splits)
  show ?case
  proof (cases "p < length ts0")
    case True
    then have ts: "ts = ts0 ! p # drop (Suc p) ts0" using p by (simp add: Cons_nth_drop_Suc)
    show ?thesis using True ts 1(2) [of "Suc p"] 1(3) [of "Suc p"]
      by (simp add: findCompiledValueStep_def seek_step_def findCompiledObject_def findCompiledArray_def
          compiledToken_Text arrayIndex_compiled Let_def cong: if_cong sum.case_cong)
  next
    case False
    then show ?thesis using p by (simp add: findCompiledValueStep_def seek_step_def)
  qed
qed

end
