(* ===== verification/RawResolve.thy ===== *)
theory RawResolve
  imports RawSeek Emit
begin

text \<open>
  What the raw seeker returns. The specification \<open>resolve\<close> looks a list of tokens up in a syntax tree; the
  seeker is shown to fail exactly where the validator fails, never to run out of fuel, and to return what
  \<open>resolve\<close> returns, in both modes: the last duplicate of a key decides, or the first one that leads somewhere.
\<close>

subsection \<open>The seeker fails only where the validator fails\<close>

lemma layout_None [simp]: "countValue None = None" "countMember None = None" "openContainer None = (None, None)"
  "closeContainer None ci count = None"
  by (simp_all add: countValue_def countMember_def)

lemma parse_None:
  "(\<forall>depth i j l. parseValue n src maxDepth depth i None = Ok (j, l) \<longrightarrow> l = None)
   \<and> (\<forall>depth ci count i j l. arrayLoop n src maxDepth depth ci count i None = Ok (j, l) \<longrightarrow> l = None)
   \<and> (\<forall>depth ci count i j l. objectLoop n src maxDepth depth ci count i None = Ok (j, l) \<longrightarrow> l = None)"
proof (induction n)
  case (Suc n)
  have "l = None" if "parseValue (Suc n) src maxDepth depth i None = Ok (j, l)" for depth i j l
    using that Suc.IH unfolding parseValue_Suc parseValueStep_def Let_def
    by (auto simp: parseLiteral_def parseStringValue_def parseNumber_def parseArray_def parseObject_def Let_def
        bind_outcome_eq_Ok split: if_splits prod.splits)
  moreover have "l = None" if "arrayLoop (Suc n) src maxDepth depth ci count i None = Ok (j, l)" for depth ci count i j l
  proof -
    from that obtain k where "parseValue n src maxDepth depth (SkipSpace src i) None = Ok (k, None)"
      using Suc.IH unfolding arrayLoop_Suc arrayStep_def bind_outcome_eq_Ok by fast
    with that Suc.IH show ?thesis unfolding arrayLoop_Suc arrayStep_def Let_def by (auto split: if_splits)
  qed
  moreover have "l = None" if "objectLoop (Suc n) src maxDepth depth ci count i None = Ok (j, l)" for depth ci count i j l
  proof -
    from that obtain e k where "parseString src (SkipSpace src i) = Ok e"
        "parseValue n src maxDepth depth (SkipSpace src (SkipSpace src e + 1)) None = Ok (k, None)"
      using Suc.IH unfolding objectLoop_Suc objectStep_def Let_def by (auto simp: bind_outcome_eq_Ok split: if_splits)
    with that Suc.IH show ?thesis unfolding objectLoop_Suc objectStep_def Let_def by (auto split: if_splits)
  qed
  ultimately show ?case by blast
qed simp

definition follows :: "bool \<Rightarrow> (SyntaxError, seek) outcome \<Rightarrow> (SyntaxError, vstate) outcome \<Rightarrow> bool" where
  "follows stop r s \<longleftrightarrow> (case r of
       Ok (j, done, raw, perr) \<Rightarrow> stop \<and> (done \<or> perr \<noteq> None) \<or> \<not> done \<and> s = Ok (j, None)
     | Fail _ \<Rightarrow> \<forall>x. s \<noteq> Ok x
     | NoFuel \<Rightarrow> s = NoFuel)"

lemma follows_simps [simp]:
  "follows stop (Ok (j, done, raw, perr)) s \<longleftrightarrow> stop \<and> (done \<or> perr \<noteq> None) \<or> \<not> done \<and> s = Ok (j, None)"
  "follows stop (Fail e) s \<longleftrightarrow> (\<forall>x. s \<noteq> Ok x)"
  "follows stop NoFuel s \<longleftrightarrow> s = NoFuel"
  by (simp_all add: follows_def)

lemma follows_find:
  assumes "follows stop f s" "\<And>i raw perr. s = Ok (i, None) \<Longrightarrow> follows stop (k raw perr i) (k' (i, None))"
  shows "follows stop (bind_outcome f (\<lambda>(i, done, raw, perr).
      if perr \<noteq> None \<and> stop then Ok (i, done, None, perr) else if done then Ok (i, done, raw, None) else k raw perr i)) (bind_outcome s k')"
proof (cases f)
  case (Ok x)
  obtain i d raw perr where x: "x = (i, d, raw, perr)" by (cases x)
  with assms Ok show ?thesis by auto
next
  case (Fail e)
  with assms(1) show ?thesis by (cases s) auto
qed (use assms in simp)

lemma follows_skip:
  assumes "\<And>i. parseValue n src maxDepth depth i0 None = Ok (i, None) \<Longrightarrow> follows stop (k i) (k' (i, None))"
  shows "follows stop (bind_outcome (skipValue n src maxDepth depth i0) k) (bind_outcome (parseValue n src maxDepth depth i0 None) k')"
proof (cases "parseValue n src maxDepth depth i0 None")
  case (Ok x)
  then obtain i where "x = (i, None)" using parse_None [of n src maxDepth] by (cases x) blast
  with assms Ok show ?thesis by (simp add: skipValue_def)
qed (simp_all add: skipValue_def)

lemma follows_skip_value:
  assumes "\<And>i. follows stop (k i) (Ok (i, None))"
  shows "follows stop (bind_outcome (skipValue n src maxDepth depth i0) k) (parseValue n src maxDepth depth i0 None)"
proof -
  have "bind_outcome s (\<lambda>x. Ok x) = s" for s :: "(SyntaxError, vstate) outcome" by (cases s) simp_all
  with follows_skip [where k' = "\<lambda>x. Ok x" and k = k] assms show ?thesis by metis
qed

lemma findArrayStep_follows:
  assumes f: "\<And>i. follows stop (f depth p i) (parseValue n src maxDepth depth i None)"
    and e: "\<And>elem found i. follows stop (e depth index' p elem found i) (arrayLoop n src maxDepth depth ci (Suc count) i None)"
  shows "follows stop (findArrayStep f (skipValue n src maxDepth) e src stop depth index' p elem found i)
    (arrayStep (parseValue n src maxDepth) (arrayLoop n src maxDepth) src depth ci count i None)"
proof (cases "index' = Some elem")
  case True
  show ?thesis unfolding findArrayStep_def arrayStep_def Let_def if_P [OF True]
    by (rule follows_find [OF f]) (use e in auto)
next
  case False
  show ?thesis unfolding findArrayStep_def arrayStep_def Let_def if_not_P [OF False]
    by (rule follows_skip) (use e in \<open>cases found; auto\<close>)
qed

lemma findObjectStep_follows:
  assumes f: "\<And>i. follows stop (f depth p i) (parseValue n src maxDepth depth i None)"
    and e: "\<And>found i. follows stop (e depth token p found i) (objectLoop n src maxDepth depth ci (Suc count) i None)"
  shows "follows stop (findObjectStep f (skipValue n src maxDepth) e src stop depth token p found i)
    (objectStep (parseValue n src maxDepth) (objectLoop n src maxDepth) src depth ci count i None)"
proof (cases "SkipSpace src i \<ge> length src \<or> src ! SkipSpace src i \<noteq> ch_quote")
  case True
  then show ?thesis by (auto simp: findObjectStep_def objectStep_def Let_def)
next
  case False
  then have q: "SkipSpace src i < length src" "src ! SkipSpace src i = ch_quote" by auto
  from q(1) show ?thesis
  proof (cases rule: parseStringRaw_cases)
    case (ok raw dec)
    note k = keyMatches_decoded [OF q(1) ok(1,3,2), of token]
    define c where "c = SkipSpace src (SkipSpace src i + length raw + 2)"
    note simps = findObjectStep_def objectStep_def Let_def ok(3,4) k bind_outcome_simps prod.case if_not_P [OF False] c_def [symmetric]
    show ?thesis
    proof (cases "c \<ge> length src \<or> src ! c \<noteq> ch_colon")
      case True
      then show ?thesis unfolding simps by simp
    next
      case no: False
      show ?thesis
      proof (cases "dec = token")
        case True
        show ?thesis unfolding simps if_not_P [OF no] if_P [OF True]
          by (rule follows_find [OF f]) (use e in auto)
      next
        case False
        show ?thesis unfolding simps if_not_P [OF no] if_not_P [OF False]
          by (rule follows_skip) (use e in \<open>cases found; auto\<close>)
      qed
    qed
  next
    case (bad err err')
    then show ?thesis using q by (simp add: findObjectStep_def objectStep_def Let_def)
  qed
qed

definition walk_follows :: "nat \<Rightarrow> bytes \<Rightarrow> nat \<Rightarrow> bool \<Rightarrow> bool" where
  "walk_follows n src maxDepth stop \<longleftrightarrow>
     (\<forall>depth ts i. follows stop (seekValue n seek_step src maxDepth stop depth ts i) (parseValue n src maxDepth depth i None))
     \<and> (\<forall>depth index' ts elem found i ci count. follows stop (seekElems n seek_step src maxDepth stop depth index' ts elem found i)
         (arrayLoop n src maxDepth depth ci count i None))
     \<and> (\<forall>depth token ts found i ci count. follows stop (seekMems n seek_step src maxDepth stop depth token ts found i)
         (objectLoop n src maxDepth depth ci count i None))"

lemma captureValue_follows:
  "follows stop (captureValue (skipValue n src maxDepth) src stop depth i) (parseValue n src maxDepth depth i None)"
  unfolding captureValue_def by (rule follows_skip_value) simp

text \<open>One step over the tokens.\<close>

lemma seek_Nil: "seekValue (Suc n) seek_step src maxDepth stop depth [] i = captureValue (skipValue (Suc n) src maxDepth) src stop depth i"
  by (simp add: seek_Suc(1) seek_step_def)

lemma seek_Cons:
  "seekValue (Suc n) seek_step src maxDepth stop depth (t # ts) i =
    (if depth > maxDepth then err_at src (int i) ''maximum nesting depth exceeded''
     else if i \<ge> length src then err_at src (int i) ''expected value''
     else if src ! i = ch_lbrace then
       if depth + 1 > maxDepth then err_at src (int i) ''maximum nesting depth exceeded''
       else let i = SkipSpace src (i + 1) in
         if i < length src \<and> src ! i = ch_rbrace then Ok (i + 1, False, None, None)
         else seekMems n seek_step src maxDepth stop (depth + 1) t ts (None, None) i
     else if src ! i = ch_lbracket then
       if depth + 1 > maxDepth then err_at src (int i) ''maximum nesting depth exceeded''
       else case parsePointerIndex t of
           Inl err \<Rightarrow>
             if \<not> stop then bind_outcome (skipValue (Suc n) src maxDepth depth i) (\<lambda>i. Ok (i, False, None, Some err))
             else Ok (i, False, None, Some err)
         | Inr index' \<Rightarrow>
             let i = SkipSpace src (i + 1) in
             if i < length src \<and> src ! i = ch_rbracket then Ok (i + 1, False, None, None)
             else seekElems n seek_step src maxDepth stop (depth + 1) index' ts 0 (None, None) i
     else bind_outcome (skipValue (Suc n) src maxDepth depth i) (\<lambda>i. Ok (i, False, None, None)))"
  by (simp add: seek_Suc(1) seek_step_def)

lemma seek_follows: "walk_follows n src maxDepth stop"
proof (induction n)
  case (Suc n)
  note IH = Suc.IH [unfolded walk_follows_def]
  have "follows stop (seekValue (Suc n) seek_step src maxDepth stop depth ts i) (parseValue (Suc n) src maxDepth depth i None)" for depth ts i
  proof (cases ts)
    case Nil
    then show ?thesis using captureValue_follows by (simp add: seek_Nil)
  next
    case (Cons t ts')
    show ?thesis
    proof (cases "depth > maxDepth \<or> i \<ge> length src")
      case True
      then show ?thesis by (auto simp: seek_Cons Cons parseValue_Suc parseValueStep_def)
    next
      case False
      then have d: "\<not> depth > maxDepth" "\<not> i \<ge> length src" by auto
      note sk = Cons seek_Cons if_not_P [OF d(1)] if_not_P [OF d(2)]
      have scalar: "follows stop (bind_outcome (skipValue (Suc n) src maxDepth depth i) (\<lambda>i. Ok (i, False, None, None))) (parseValue (Suc n) src maxDepth depth i None)"
        by (rule follows_skip_value) simp
      have perr: "follows stop (if \<not> stop then bind_outcome (skipValue (Suc n) src maxDepth depth i) (\<lambda>i. Ok (i, False, None, Some err))
          else Ok (i, False, None, Some err)) (parseValue (Suc n) src maxDepth depth i None)" for err
        by (cases stop) (simp_all add: follows_skip_value)
      consider "src ! i = ch_lbrace" | "src ! i = ch_lbracket" | "src ! i \<noteq> ch_lbrace" "src ! i \<noteq> ch_lbracket" by blast
      then show ?thesis
      proof cases
        case 1
        then show ?thesis unfolding sk using d IH
          by (simp add: parseValue_Suc parseValueStep_def parseObject_def Let_def)
      next
        case 2
        then show ?thesis unfolding sk using d IH perr
          by (cases "parsePointerIndex t") (auto simp: parseValue_Suc parseValueStep_def parseArray_def Let_def)
      next
        case 3
        then show ?thesis unfolding sk using scalar by simp
      qed
    qed
  qed
  moreover have "follows stop (seekElems (Suc n) seek_step src maxDepth stop depth index' ts elem found i)
         (arrayLoop (Suc n) src maxDepth depth ci count i None)" for depth index' ts elem found i ci count
    unfolding seek_Suc arrayLoop_Suc by (rule findArrayStep_follows) (use IH in blast)+
  moreover have "follows stop (seekMems (Suc n) seek_step src maxDepth stop depth token ts found i)
         (objectLoop (Suc n) src maxDepth depth ci count i None)" for depth token ts found i ci count
    unfolding seek_Suc objectLoop_Suc by (rule findObjectStep_follows) (use IH in blast)+
  ultimately show ?case unfolding walk_follows_def by blast
qed (simp add: walk_follows_def)

lemma seekValue_follows:
  "follows stop (seekValue n seek_step src maxDepth stop depth ts i) (parseValue n src maxDepth depth i None)"
  using seek_follows [of n src maxDepth stop] by (simp add: walk_follows_def)

subsection \<open>Looking tokens up in a tree\<close>

primrec elem_list :: "celems \<Rightarrow> cst list" where
  "elem_list (ELast w v w') = [v]"
| "elem_list (EMore w v w' es) = v # elem_list es"

primrec mem_list :: "cmems \<Rightarrow> (bytes \<times> cst) list" where
  "mem_list (MLast w k a b v w') = [(k, v)]"
| "mem_list (MMore w k a b v w' ms) = (k, v) # mem_list ms"

text \<open>
  Of the results for the members with the key, the last one counts when the whole document is read. A scan that stops at
  the first target takes the first result that is a target or an error.
\<close>

fun select :: "bool \<Rightarrow> target \<Rightarrow> target list \<Rightarrow> target" where
  "select stop found [] = found"
| "select stop found (r # rs) = (if stop \<and> r \<noteq> (None, None) then r else select stop r rs)"

fun resolve :: "bool \<Rightarrow> bytes list \<Rightarrow> cst \<Rightarrow> target" where
  "resolve stop [] t = (Some (render t), None)"
| "resolve stop (tok # ts) t =
     (case t of
        CArr0 w \<Rightarrow> (case parsePointerIndex tok of Inl err \<Rightarrow> (None, Some err) | Inr _ \<Rightarrow> (None, None))
      | CArr es \<Rightarrow>
          (case parsePointerIndex tok of
             Inl err \<Rightarrow> (None, Some err)
           | Inr None \<Rightarrow> (None, None)
           | Inr (Some k) \<Rightarrow> if k < length (elem_list es) then resolve stop ts (elem_list es ! k) else (None, None))
      | CObj ms \<Rightarrow>
          select stop (None, None) (map (\<lambda>(k, v). resolve stop ts v) (filter (\<lambda>(k, v). unescape k = Some tok) (mem_list ms)))
      | _ \<Rightarrow> (None, None))"

text \<open>A seeker's result: the target, and the end of the value unless the scan stopped early.\<close>

definition hits :: "bool \<Rightarrow> nat \<Rightarrow> target \<Rightarrow> (SyntaxError, seek) outcome \<Rightarrow> bool" where
  "hits stop j r out \<longleftrightarrow> (\<exists>j'. out = Ok (j', stop \<and> fst r \<noteq> None, r) \<and> (stop \<and> r \<noteq> (None, None) \<or> j' = j)) \<and> (fst r = None \<or> snd r = None)"

lemma skipValue_complete:
  assumes "drop i src = render t @ rest" "wf t" "value_stop rest" "depth + nesting t \<le> maxDepth" "value_fuel src i \<le> n"
  shows "skipValue n src maxDepth depth i = Ok (i + length (render t))"
  using parse_complete(1) [OF assms, of None] by (simp add: skipValue_def)

text \<open>One turn of the element loop at a value that is followed by \<open>c\<close>.\<close>

lemma findArrayStep_turn:
  assumes d: "drop i src = w @ render v @ w' @ c # rest" and wf: "spaces w" "wf v" "spaces w'"
    and c: "c = ch_rbracket \<or> c = ch_comma"
    and f: "index' = Some elem \<Longrightarrow> hits stop (i + length w + length (render v)) r (f depth p (i + length w))"
    and s: "skip depth (i + length w) = Ok (i + length w + length (render v))"
    and found: "index' = Some elem \<or> stop \<Longrightarrow> found = (None, None)"
  defines "j \<equiv> i + length w + length (render v) + length w'"
    and "r' \<equiv> if index' = Some elem then r else found"
  shows "if stop \<and> r' \<noteq> (None, None) then hits stop k r' (findArrayStep f skip e src stop depth index' p elem found i)
    else findArrayStep f skip e src stop depth index' p elem found i
      = (if c = ch_comma then e depth index' p (elem + 1) r' (j + 1) else Ok (j + 1, False, r'))"
proof -
  have cs: "\<not> IsJSONWhitespace c" using c by auto
  note t = elem_turn [OF d wf cs, folded j_def]
  have tail: "SkipSpace src (i + length w + length (render v)) = j" "SkipSpace src i = i + length w" "j < length src" "src ! j = c"
    using t by (simp_all add: SkipSpace_eq)
  show ?thesis
  proof (cases "index' = Some elem")
    case True
    with f obtain j' where h: "f depth p (i + length w) = Ok (j', stop \<and> fst r \<noteq> None, r)"
      "stop \<and> r \<noteq> (None, None) \<or> j' = i + length w + length (render v)" "fst r = None \<or> snd r = None" by (auto simp: hits_def)
    show ?thesis using True h tail c found
      by (cases r) (auto simp: findArrayStep_def r'_def hits_def Let_def)
  next
    case False
    then show ?thesis using s tail c found by (auto simp: findArrayStep_def r'_def Let_def)
  qed
qed

lemma member_key:
  assumes d: "drop i src = ch_quote # k @ ch_quote # rest" and k: "jchars k dec"
  shows "parseStringRaw src i = Ok (i + 1, i + 1 + length k, ch_backslash \<in> set k, i + length k + 2)"
    "keyMatches src token (i + 1) (i + 1 + length k) (ch_backslash \<in> set k) = Ok (dec = token)"
proof -
  note i = drop_eq_ConsD [OF d]
  have e: "parseString src i = Ok (i + length k + 2)"
    using string_end_complete [OF k i(3)] i(1) by (simp add: parseString_end)
  have "drop (i + 1) src = k @ ch_quote # rest" using i(3) by simp
  from slice_of_drop [OF this] have sk: "subslice src (i + 1) (i + 1 + length k) = k" .
  from i(1) show "parseStringRaw src i = Ok (i + 1, i + 1 + length k, ch_backslash \<in> set k, i + length k + 2)"
  proof (cases rule: parseStringRaw_cases)
    case (ok raw dec')
    then have "length raw = length k" using e by simp
    with ok(2) sk have "raw = k" by simp
    with ok(4) show ?thesis by simp
  qed (use e in simp)
  show "keyMatches src token (i + 1) (i + 1 + length k) (ch_backslash \<in> set k) = Ok (dec = token)"
    by (rule keyMatches_decoded [OF i(1) k e sk])
qed

definition member_next :: "bytes \<Rightarrow> 'p mems_fn \<Rightarrow> nat \<Rightarrow> bytes \<Rightarrow> 'p \<Rightarrow> target \<Rightarrow> nat \<Rightarrow> (SyntaxError, seek) outcome" where
  "member_next src e depth token q found i =
     (if SkipSpace src i \<ge> length src then err_at src (int (SkipSpace src i)) ''unterminated object''
      else if src ! SkipSpace src i = ch_comma then e depth token q found (SkipSpace src i + 1)
      else if src ! SkipSpace src i = ch_rbrace then Ok (SkipSpace src i + 1, False, found)
      else err_at src (int (SkipSpace src i)) ''expected comma or closing brace in object'')"

lemma findObjectStep_value:
  assumes d: "drop i src = w @ ch_quote # k @ ch_quote # a @ ch_colon # b @ render v @ w' @ c # rest"
    and wf: "spaces w" "jchars k dec" "spaces a" "spaces b" "wf v" "spaces w'" and c: "\<not> IsJSONWhitespace c"
    and p: "p = i + length w + length k + length a + length b + 3"
  shows "findObjectStep f skip e src stop depth token q found i =
    (if dec = token then bind_outcome (f depth q p) (\<lambda>(i, done, raw, perr).
        if perr \<noteq> None \<and> stop then Ok (i, done, None, perr)
        else if done then Ok (i, done, raw, None)
        else member_next src e depth token q (raw, perr) i)
     else bind_outcome (skip depth p) (member_next src e depth token q found))"
proof -
  have ks: "json_string k" using wf(2) by (auto simp: json_string_def)
  note t = mem_turn [OF d wf(1) ks wf(3-6) c p]
  note w = skip_to_token [OF d wf(1), simplified IsJSONWhitespace_def, simplified]
  have s: "SkipSpace src i = i + length w" using w(1) by (simp add: SkipSpace_eq)
  have at: "drop (SkipSpace src i) src = ch_quote # k @ ch_quote # a @ ch_colon # b @ render v @ w' @ c # rest" using w(4) by (simp add: SkipSpace_eq)
  note key = member_key(1) [OF at wf(2), unfolded s] member_key(2) [OF at wf(2), of token, unfolded s]
  have nq: "\<not> (i + length w \<ge> length src \<or> src ! (i + length w) \<noteq> ch_quote)" using t(1,2) w(1) by simp
  define o' where "o' = SkipSpace src (i + length w + length k + 2)"
  have o: "\<not> (o' \<ge> length src \<or> src ! o' \<noteq> ch_colon)" "SkipSpace src (o' + 1) = p" using t(5-7) by (simp_all add: o'_def SkipSpace_eq)
  show ?thesis unfolding findObjectStep_def Let_def s if_not_P [OF nq] key bind_outcome_simps prod.case o'_def [symmetric] if_not_P [OF o(1)] o(2) member_next_def
    by (rule refl)
qed

lemma findObjectStep_turn:
  assumes d: "drop i src = w @ ch_quote # k @ ch_quote # a @ ch_colon # b @ render v @ w' @ c # rest"
    and wf: "spaces w" "jchars k dec" "spaces a" "spaces b" "wf v" "spaces w'"
    and c: "c = ch_rbrace \<or> c = ch_comma"
    and p: "p = i + length w + length k + length a + length b + 3"
    and f: "dec = token \<Longrightarrow> hits stop (p + length (render v)) r (f depth q p)"
    and s: "skip depth p = Ok (p + length (render v))"
    and found: "stop \<Longrightarrow> found = (None, None)"
  defines "j \<equiv> p + length (render v) + length w'"
    and "r' \<equiv> if dec = token then r else found"
  shows "if stop \<and> r' \<noteq> (None, None) then hits stop e' r' (findObjectStep f skip e src stop depth token q found i)
    else findObjectStep f skip e src stop depth token q found i
      = (if c = ch_comma then e depth token q r' (j + 1) else Ok (j + 1, False, r'))"
proof -
  have cs: "\<not> IsJSONWhitespace c" and ks: "json_string k" using c wf(2) by (auto simp: json_string_def)
  note t = mem_turn [OF d wf(1) ks wf(3-6) cs p, folded j_def]
  have tail: "SkipSpace src (p + length (render v)) = j" "j < length src" "src ! j = c" using t(9-11) by (simp_all add: SkipSpace_eq)
  note unf = findObjectStep_value [OF d wf cs p, where f = f and skip = skip and e = e and stop = stop and depth = depth and token = token and q = q and found = found]
  show ?thesis
  proof (cases "dec = token")
    case True
    with f obtain j' where h: "f depth q p = Ok (j', stop \<and> fst r \<noteq> None, r)"
      "stop \<and> r \<noteq> (None, None) \<or> j' = p + length (render v)" "fst r = None \<or> snd r = None" by (auto simp: hits_def)
    show ?thesis using h tail c unfolding unf if_P [OF True] r'_def
      by (cases r) (auto simp: hits_def member_next_def)
  next
    case False
    show ?thesis using s tail c found unfolding unf if_not_P [OF False] r'_def by (auto simp: member_next_def)
  qed
qed

lemma celems_induct [case_names ELast EMore]:
  "(\<And>w v w'. P (ELast w v w')) \<Longrightarrow> (\<And>w v w' es. P es \<Longrightarrow> P (EMore w v w' es)) \<Longrightarrow> P es"
  by (rule celems.induct [of "\<lambda>_. True" P "\<lambda>_. True"]) auto

lemma cmems_induct [case_names MLast MMore]:
  "(\<And>w k a b v w'. P (MLast w k a b v w')) \<Longrightarrow> (\<And>w k a b v w' ms. P ms \<Longrightarrow> P (MMore w k a b v w' ms)) \<Longrightarrow> P ms"
  by (rule cmems.induct [of "\<lambda>_. True" "\<lambda>_. True" P]) auto

definition picked :: "nat option \<Rightarrow> nat \<Rightarrow> (cst \<Rightarrow> target) \<Rightarrow> target \<Rightarrow> cst list \<Rightarrow> target" where
  "picked index' elem res found vs =
     (case index' of None \<Rightarrow> found | Some k \<Rightarrow> if elem \<le> k \<and> k < elem + length vs then res (vs ! (k - elem)) else found)"

lemma picked_Cons:
  "picked index' elem res found (v # vs) = picked index' (Suc elem) res (if index' = Some elem then res v else found) vs"
  by (auto simp: picked_def nth_Cons' split: option.splits)

lemma picked_Nil [simp]: "picked index' elem res found [] = found"
  by (auto simp: picked_def split: option.splits)

lemma hits_found [simp]: "hits stop j r (Ok (j, False, r)) \<longleftrightarrow> (\<not> stop \<or> fst r = None) \<and> (fst r = None \<or> snd r = None)"
  by (auto simp: hits_def)

lemma picked_after: "(\<forall>k. index' = Some k \<longrightarrow> k < elem) \<Longrightarrow> picked index' elem res found vs = found"
  by (auto simp: picked_def split: option.splits)

lemma select_in: "select stop f rs \<in> insert f (set rs)"
  by (induction stop f rs rule: select.induct) auto

lemma resolve_excl: "fst (resolve stop ts t) = None \<or> snd (resolve stop ts t) = None"
proof (induction stop ts t rule: resolve.induct)
  case (2 stop tok ts t)
  show ?case
  proof (cases t)
    case (CObj ms)
    let ?rs = "map (\<lambda>(k, v). resolve stop ts v) (filter (\<lambda>(k, v). unescape k = Some tok) (mem_list ms))"
    have "fst r = None \<or> snd r = None" if "r \<in> insert (None, None) (set ?rs)" for r
      using that 2(2) [OF CObj] by fastforce
    from this [OF select_in [of stop]] show ?thesis by (simp add: CObj)
  qed (use 2 in \<open>auto split: sum.splits option.splits\<close>)
qed simp

subsection \<open>The loops return what the tree holds\<close>

abbreviation (input) keyed :: "bytes \<Rightarrow> (bytes \<times> cst) list \<Rightarrow> (bytes \<times> cst) list" where
  "keyed token ms \<equiv> filter (\<lambda>(k, v). unescape k = Some token) ms"

text \<open>
  The contract of a seeker on the text of a tree, with fuel: what one turn of each loop does at an element or a member, and what
  happens at a value when no token, or one more token, is left. A position \<open>p\<close> within the pointer stands for the tokens \<open>tokens_at p\<close>.
  The checked seeker and the trusted one both provide it.
\<close>

type_synonym 'p val_fn = "nat \<Rightarrow> 'p find_fn"

definition finds :: "bool \<Rightarrow> bytes \<Rightarrow> nat \<Rightarrow> ('p \<Rightarrow> bytes list option) \<Rightarrow> 'p val_fn \<Rightarrow> nat \<Rightarrow> bytes list \<Rightarrow> bool" where
  "finds stop src maxDepth tokens_at val depth ts \<longleftrightarrow> (\<forall>p t i rest n. tokens_at p = Some ts \<longrightarrow> drop i src = render t @ rest \<longrightarrow> wf t \<longrightarrow> value_stop rest
     \<longrightarrow> depth + nesting t \<le> maxDepth \<longrightarrow> value_fuel src i \<le> n
     \<longrightarrow> hits stop (i + length (render t)) (resolve stop ts t) (val n depth p i))"

definition at_value :: "bytes \<Rightarrow> nat \<Rightarrow> cst \<Rightarrow> nat \<Rightarrow> nat \<Rightarrow> nat \<Rightarrow> bool" where
  "at_value src maxDepth t depth m i \<longleftrightarrow> wf t \<and> depth + nesting t \<le> maxDepth \<and> value_fuel src i \<le> Suc m
     \<and> (\<exists>rest. drop i src = render t @ rest \<and> value_stop rest)"

locale tree_seeker =
  fixes src :: bytes and maxDepth :: nat and stop :: bool
    and tokens_at :: "'p \<Rightarrow> bytes list option"
    and val :: "'p val_fn" and elems :: "nat \<Rightarrow> 'p elems_fn" and mems :: "nat \<Rightarrow> 'p mems_fn"
  assumes elem_turn_law:
    "drop i src = w @ render v @ w' @ c # rest \<Longrightarrow> spaces w \<Longrightarrow> wf v \<Longrightarrow> spaces w' \<Longrightarrow> c = ch_rbracket \<or> c = ch_comma
      \<Longrightarrow> depth + nesting v \<le> maxDepth \<Longrightarrow> loop_fuel src i \<le> Suc m
      \<Longrightarrow> (index' = Some elem \<Longrightarrow> hits stop (i + length w + length (render v)) r (val m depth p (i + length w)))
      \<Longrightarrow> (index' = Some elem \<or> stop \<Longrightarrow> found = (None, None))
      \<Longrightarrow> r' = (if index' = Some elem then r else found)
      \<Longrightarrow> if stop \<and> r' \<noteq> (None, None) then hits stop k r' (elems (Suc m) depth index' p elem found i)
        else elems (Suc m) depth index' p elem found i
          = (if c = ch_comma then elems m depth index' p (elem + 1) r' (i + length w + length (render v) + length w' + 1)
             else Ok (i + length w + length (render v) + length w' + 1, False, r'))"
    and mem_turn_law:
    "drop i src = w @ ch_quote # key @ ch_quote # a @ ch_colon # b @ render v @ w' @ c # rest
      \<Longrightarrow> spaces w \<Longrightarrow> jchars key dec \<Longrightarrow> spaces a \<Longrightarrow> spaces b \<Longrightarrow> wf v \<Longrightarrow> spaces w' \<Longrightarrow> c = ch_rbrace \<or> c = ch_comma
      \<Longrightarrow> depth + nesting v \<le> maxDepth \<Longrightarrow> loop_fuel src i \<le> Suc m
      \<Longrightarrow> j = i + length w + length key + length a + length b + 3
      \<Longrightarrow> (dec = token \<Longrightarrow> hits stop (j + length (render v)) r (val m depth p j))
      \<Longrightarrow> (stop \<Longrightarrow> found = (None, None))
      \<Longrightarrow> r' = (if dec = token then r else found)
      \<Longrightarrow> if stop \<and> r' \<noteq> (None, None) then hits stop k r' (mems (Suc m) depth token p found i)
        else mems (Suc m) depth token p found i
          = (if c = ch_comma then mems m depth token p r' (j + length (render v) + length w' + 1)
             else Ok (j + length (render v) + length w' + 1, False, r'))"
    and val_nil: "tokens_at p = Some [] \<Longrightarrow> at_value src maxDepth t depth m i
      \<Longrightarrow> val (Suc m) depth p i = Ok (i + length (render t), stop, Some (render t), None)"
    and val_scalar: "tokens_at p = Some (tok # ts) \<Longrightarrow> at_value src maxDepth t depth m i
      \<Longrightarrow> hd (render t) \<noteq> ch_lbrace \<and> hd (render t) \<noteq> ch_lbracket \<Longrightarrow> val (Suc m) depth p i = Ok (i + length (render t), False, None, None)"
    and val_bad_index: "tokens_at p = Some (tok # ts) \<Longrightarrow> at_value src maxDepth t depth m i \<Longrightarrow> hd (render t) = ch_lbracket
      \<Longrightarrow> parsePointerIndex tok = Inl err
      \<Longrightarrow> \<exists>j. val (Suc m) depth p i = Ok (j, False, None, Some err) \<and> (stop \<or> j = i + length (render t))"
    and val_empty: "tokens_at p = Some (tok # ts) \<Longrightarrow> at_value src maxDepth t depth m i
      \<Longrightarrow> t = CArr0 w \<and> parsePointerIndex tok = Inr index' \<or> t = CObj0 w
      \<Longrightarrow> val (Suc m) depth p i = Ok (i + length (render t), False, None, None)"
    and val_array: "tokens_at p = Some (tok # ts) \<Longrightarrow> at_value src maxDepth (CArr es) depth m i \<Longrightarrow> parsePointerIndex tok = Inr index'
      \<Longrightarrow> \<exists>p'. tokens_at p' = Some ts \<and> val (Suc m) depth p i = elems m (depth + 1) index' p' 0 (None, None) (Suc i)"
    and val_object: "tokens_at p = Some (tok # ts) \<Longrightarrow> at_value src maxDepth (CObj ms) depth m i
      \<Longrightarrow> \<exists>p'. tokens_at p' = Some ts \<and> val (Suc m) depth p i = mems m (depth + 1) tok p' (None, None) (Suc i)"
begin

lemma elem_step:
  assumes F: "finds stop src maxDepth tokens_at val depth ts" and p: "tokens_at p = Some ts"
    and d: "drop i src = w @ render v @ w' @ c # rest" "spaces w" "wf v" "spaces w'" "c = ch_rbracket \<or> c = ch_comma"
    and b: "depth + nesting v \<le> maxDepth" "loop_fuel src i \<le> Suc m"
    and found: "stop \<Longrightarrow> found = (None, None)" "\<forall>k. index' = Some k \<longrightarrow> elem \<le> k \<longrightarrow> found = (None, None)"
  defines "j \<equiv> i + length w + length (render v) + length w'"
    and "r' \<equiv> if index' = Some elem then resolve stop ts v else found"
  shows "if stop \<and> r' \<noteq> (None, None) then hits stop k r' (elems (Suc m) depth index' p elem found i)
    else elems (Suc m) depth index' p elem found i
      = (if c = ch_comma then elems m depth index' p (elem + 1) r' (j + 1) else Ok (j + 1, False, r'))"
proof -
  have at: "drop (i + length w) src = render v @ w' @ c # rest" using drop_eq_appendD [OF d(1)] .
  have vs: "value_stop (w' @ c # rest)" using d(4,5) by (auto intro: value_stop_spaces)
  have n: "value_fuel src (i + length w) \<le> m" using b(2) by linarith
  have f: "hits stop (i + length w + length (render v)) (resolve stop ts v) (val m depth p (i + length w))"
    using F [unfolded finds_def, rule_format, OF p at d(3) vs b(1) n] .
  have fd: "found = (None, None)" if "index' = Some elem \<or> stop" using that found by auto
  show ?thesis unfolding j_def by (rule elem_turn_law [OF d b f fd]) (simp_all add: r'_def)
qed

lemma seekElems_hits:
  assumes F: "finds stop src maxDepth tokens_at val depth ts" and p: "tokens_at p = Some ts"
  shows "drop i src = render_elems es @ rest \<Longrightarrow> wf_elems es \<Longrightarrow> depth + nesting_elems es \<le> maxDepth \<Longrightarrow> loop_fuel src i \<le> n
    \<Longrightarrow> (stop \<Longrightarrow> found = (None, None)) \<Longrightarrow> (\<forall>k. index' = Some k \<longrightarrow> elem \<le> k \<longrightarrow> found = (None, None))
    \<Longrightarrow> fst found = None \<or> snd found = None
    \<Longrightarrow> hits stop (i + length (render_elems es)) (picked index' elem (resolve stop ts) found (elem_list es))
      (elems n depth index' p elem found i)"
proof (induction es arbitrary: i n elem found rule: celems_induct)
  case (ELast w v w')
  obtain m where m: "n = Suc m" using ELast.prems(4) by (cases n) auto
  have d: "drop i src = w @ render v @ w' @ ch_rbracket # rest" using ELast.prems(1) by simp
  have wf: "spaces w" "wf v" "spaces w'" and b: "depth + nesting v \<le> maxDepth" "loop_fuel src i \<le> Suc m"
    using ELast.prems(2-4) m by simp_all
  define r where "r = (if index' = Some elem then resolve stop ts v else found)"
  define j where "j = i + length w + length (render v) + length w'"
  note step = elem_step [OF F p d wf disjI1 [OF refl] b ELast.prems(5,6), folded r_def j_def]
  have "fst r = None \<or> snd r = None" using ELast.prems(7) resolve_excl by (auto simp: r_def)
  moreover have "picked index' elem (resolve stop ts) found (elem_list (ELast w v w')) = r" by (simp add: picked_Cons r_def)
  moreover have "i + length (render_elems (ELast w v w')) = j + 1" by (simp add: j_def)
  ultimately show ?case using step [of "j + 1"] unfolding m by (simp split: if_splits)
next
  case (EMore w v w' es)
  obtain m where m: "n = Suc m" using EMore.prems(4) by (cases n) auto
  have d: "drop i src = w @ render v @ w' @ ch_comma # (render_elems es @ rest)" using EMore.prems(1) by simp
  have wf: "spaces w" "wf v" "spaces w'" and b: "depth + nesting v \<le> maxDepth" "loop_fuel src i \<le> Suc m"
    using EMore.prems(2-4) m by simp_all
  define r where "r = (if index' = Some elem then resolve stop ts v else found)"
  define j where "j = i + length w + length (render v) + length w'"
  note step = elem_step [OF F p d wf disjI2 [OF refl] b EMore.prems(5,6), folded r_def j_def]
  have pk: "picked index' elem (resolve stop ts) found (elem_list (EMore w v w' es)) = picked index' (Suc elem) (resolve stop ts) r (elem_list es)"
    by (simp add: picked_Cons r_def)
  show ?case
  proof (cases "stop \<and> r \<noteq> (None, None)")
    case True
    then have "index' = Some elem" using EMore.prems(5) by (auto simp: r_def split: if_splits)
    then have "picked index' (Suc elem) (resolve stop ts) r (elem_list es) = r" by (intro picked_after) auto
    with step True show ?thesis unfolding pk m by simp
  next
    case False
    have d': "drop (Suc j) src = render_elems es @ rest"
      using elem_turn(6) [OF d wf, folded j_def] by simp
    have "i < length src" using d by (cases "i < length src") auto
    then have "loop_fuel src (Suc j) \<le> m" using b(2) by (simp add: j_def)
    moreover have "depth + nesting_elems es \<le> maxDepth" "wf_elems es" using EMore.prems(2,3) by simp_all
    moreover have "r = (None, None)" if "index' = Some k" "Suc elem \<le> k" for k using that EMore.prems(6) by (auto simp: r_def)
    moreover have "fst r = None \<or> snd r = None" using EMore.prems(7) resolve_excl by (auto simp: r_def)
    ultimately have "hits stop (Suc j + length (render_elems es)) (picked index' (Suc elem) (resolve stop ts) r (elem_list es))
        (elems m depth index' p (Suc elem) r (Suc j))"
      using False by (intro EMore.IH [OF d']) auto
    moreover have e: "i + length (render_elems (EMore w v w' es)) = Suc j + length (render_elems es)" by (simp add: j_def)
    ultimately show ?thesis using step False unfolding pk m e by simp
  qed
qed

lemma mem_step:
  fixes token :: bytes
  assumes F: "finds stop src maxDepth tokens_at val depth ts" and p: "tokens_at p = Some ts"
    and d: "drop i src = w @ ch_quote # k @ ch_quote # a @ ch_colon # b @ render v @ w' @ c # rest"
    and wf: "spaces w" "jchars k dec" "spaces a" "spaces b" "wf v" "spaces w'" "c = ch_rbrace \<or> c = ch_comma"
    and b: "depth + nesting v \<le> maxDepth" "loop_fuel src i \<le> Suc m"
    and found: "stop \<Longrightarrow> found = (None, None)"
  defines "j \<equiv> i + length w + length k + length a + length b + 3 + length (render v) + length w'"
    and "r' \<equiv> if dec = token then resolve stop ts v else found"
  shows "if stop \<and> r' \<noteq> (None, None) then hits stop e' r' (mems (Suc m) depth token p found i)
    else mems (Suc m) depth token p found i
      = (if c = ch_comma then mems m depth token p r' (j + 1) else Ok (j + 1, False, r'))"
    and "\<not> IsJSONWhitespace c \<Longrightarrow> drop (Suc j) src = rest"
proof -
  let ?p = "i + length w + length k + length a + length b + 3"
  have ks: "json_string k" and cs: "\<not> IsJSONWhitespace c" using wf(2,7) by (auto simp: json_string_def)
  note t = mem_turn [OF d wf(1) ks wf(3-6) cs refl]
  have vs: "value_stop (w' @ c # rest)" using wf(6,7) by (auto intro: value_stop_spaces)
  have n: "value_fuel src ?p \<le> m" using b(2) by linarith
  have f: "hits stop (?p + length (render v)) (resolve stop ts v) (val m depth p ?p)"
    using F [unfolded finds_def, rule_format, OF p t(8) wf(5) vs b(1) n] .
  show "if stop \<and> r' \<noteq> (None, None) then hits stop e' r' (mems (Suc m) depth token p found i)
    else mems (Suc m) depth token p found i
      = (if c = ch_comma then mems m depth token p r' (j + 1) else Ok (j + 1, False, r'))"
    unfolding j_def by (rule mem_turn_law [OF d wf b refl f found]) (simp_all add: r'_def)
  show "drop (Suc j) src = rest" using t(12) by (simp add: j_def)
qed

lemma seekMems_hits:
  assumes F: "finds stop src maxDepth tokens_at val depth ts" and p: "tokens_at p = Some ts"
  shows "drop i src = render_mems ms @ rest \<Longrightarrow> wf_mems ms \<Longrightarrow> depth + nesting_mems ms \<le> maxDepth \<Longrightarrow> loop_fuel src i \<le> n
    \<Longrightarrow> (stop \<Longrightarrow> found = (None, None)) \<Longrightarrow> fst found = None \<or> snd found = None
    \<Longrightarrow> hits stop (i + length (render_mems ms)) (select stop found (map (\<lambda>(k, v). resolve stop ts v) (keyed token (mem_list ms))))
      (mems n depth token p found i)"
proof (induction ms arbitrary: i n found rule: cmems_induct)
  case (MLast w k a b v w')
  obtain m where m: "n = Suc m" using MLast.prems(4) by (cases n) auto
  have d: "drop i src = w @ ch_quote # k @ ch_quote # a @ ch_colon # b @ render v @ w' @ ch_rbrace # rest" using MLast.prems(1) by simp
  obtain dec where k: "jchars k dec" using MLast.prems(2) by (auto simp: json_string_def)
  have wf: "spaces w" "jchars k dec" "spaces a" "spaces b" "wf v" "spaces w'" and b: "depth + nesting v \<le> maxDepth" "loop_fuel src i \<le> Suc m"
    using MLast.prems(2-4) m k by simp_all
  define r where "r = (if dec = token then resolve stop ts v else found)"
  define j where "j = i + length w + length k + length a + length b + 3 + length (render v) + length w'"
  note step = mem_step(1) [OF F p d wf disjI1 [OF refl] b MLast.prems(5), where token = token, folded r_def j_def]
  have "fst r = None \<or> snd r = None" using MLast.prems(6) resolve_excl by (auto simp: r_def)
  moreover have "select stop found (map (\<lambda>(k, v). resolve stop ts v) (keyed token (mem_list (MLast w k a b v w')))) = r"
    using unescape_jchars [OF k] MLast.prems(5) by (auto simp: r_def)
  moreover have "i + length (render_mems (MLast w k a b v w')) = j + 1" by (simp add: j_def)
  ultimately show ?case using step [of "j + 1"] unfolding m by (simp split: if_splits)
next
  case (MMore w k a b v w' ms)
  obtain m where m: "n = Suc m" using MMore.prems(4) by (cases n) auto
  have d: "drop i src = w @ ch_quote # k @ ch_quote # a @ ch_colon # b @ render v @ w' @ ch_comma # (render_mems ms @ rest)" using MMore.prems(1) by simp
  obtain dec where k: "jchars k dec" using MMore.prems(2) by (auto simp: json_string_def)
  have wf: "spaces w" "jchars k dec" "spaces a" "spaces b" "wf v" "spaces w'" and b: "depth + nesting v \<le> maxDepth" "loop_fuel src i \<le> Suc m"
    using MMore.prems(2-4) m k by simp_all
  define r where "r = (if dec = token then resolve stop ts v else found)"
  define j where "j = i + length w + length k + length a + length b + 3 + length (render v) + length w'"
  note step = mem_step(1) [OF F p d wf disjI2 [OF refl] b MMore.prems(5), where token = token, folded r_def j_def]
  let ?sel = "\<lambda>r. select stop r (map (\<lambda>(k, v). resolve stop ts v) (keyed token (mem_list ms)))"
  show ?case
  proof (cases "stop \<and> r \<noteq> (None, None)")
    case True
    then have "dec = token" using MMore.prems(5) by (auto simp: r_def split: if_splits)
    then have "select stop found (map (\<lambda>(k, v). resolve stop ts v) (keyed token (mem_list (MMore w k a b v w' ms)))) = r"
      using True unescape_jchars [OF k] by (auto simp: r_def)
    with step True show ?thesis unfolding m by presburger
  next
    case False
    have d': "drop (Suc j) src = render_mems ms @ rest"
      using mem_step(2) [OF F p d wf disjI2 [OF refl] b MMore.prems(5), folded j_def] by simp
    have "i < length src" using d by (cases "i < length src") auto
    then have "loop_fuel src (Suc j) \<le> m" using b(2) by (simp add: j_def)
    moreover have "depth + nesting_mems ms \<le> maxDepth" "wf_mems ms" using MMore.prems(2,3) by simp_all
    moreover have "fst r = None \<or> snd r = None" using MMore.prems(6) resolve_excl by (auto simp: r_def)
    ultimately have "hits stop (Suc j + length (render_mems ms)) (?sel r) (mems m depth token p r (Suc j))"
      using False by (intro MMore.IH [OF d']) auto
    moreover have e: "i + length (render_mems (MMore w k a b v w' ms)) = Suc j + length (render_mems ms)" by (simp add: j_def)
    moreover have "select stop found (map (\<lambda>(k, v). resolve stop ts v) (keyed token (mem_list (MMore w k a b v w' ms)))) = ?sel r"
      using False unescape_jchars [OF k] by (auto simp: r_def)
    ultimately show ?thesis using step False unfolding m e by simp
  qed
qed

lemma finds_all: "finds stop src maxDepth tokens_at val depth ts"
proof (induction ts arbitrary: depth)
  case Nil
  have "hits stop (i + length (render t)) (resolve stop [] t) (val n depth p i)"
    if "tokens_at p = Some []" "drop i src = render t @ rest" "wf t" "value_stop rest" "depth + nesting t \<le> maxDepth" "value_fuel src i \<le> n" for p t i rest n
    using val_nil [OF that(1), of t depth "n - 1" i] that by (cases n) (auto simp: at_value_def hits_def)
  then show ?case unfolding finds_def by blast
next
  case (Cons tok ts)
  have "hits stop (i + length (render t)) (resolve stop (tok # ts) t) (val n depth p i)"
    if p: "tokens_at p = Some (tok # ts)" and d: "drop i src = render t @ rest" "wf t" "value_stop rest" "depth + nesting t \<le> maxDepth" "value_fuel src i \<le> n"
    for p t i rest n
  proof -
    obtain m where m: "n = Suc m" using d(5) by (cases n) auto
    have at: "at_value src maxDepth t depth m i" using d m by (auto simp: at_value_def)
    have i: "i < length src" "drop (Suc i) src = tl (render t) @ rest" using d(1) render_first(1) [OF d(2)]
      by (cases "render t"; auto dest: drop_eq_ConsD)+
    have fuel: "loop_fuel src (Suc i) \<le> m" using d(5) i(1) m by linarith
    consider (bad) err where "hd (render t) = ch_lbracket" "parsePointerIndex tok = Inl err" "resolve stop (tok # ts) t = (None, Some err)"
      | (empty) w index' where "t = CArr0 w \<and> parsePointerIndex tok = Inr index' \<or> t = CObj0 w" "resolve stop (tok # ts) t = (None, None)"
      | (arr) es index' where "t = CArr es" "parsePointerIndex tok = Inr index'" | (obj) ms where "t = CObj ms"
      | (scalar) "hd (render t) \<noteq> ch_lbrace \<and> hd (render t) \<noteq> ch_lbracket" "resolve stop (tok # ts) t = (None, None)"
      using d(2) json_number_first [of "render t"] number_first_byte [of "hd (render t)"] by (cases t; cases "parsePointerIndex tok") auto
    then show ?thesis
    proof cases
      case bad
      then show ?thesis using val_bad_index [OF p at bad(1,2)] m by (auto simp: hits_def simp del: resolve.simps)
    next
      case empty
      then show ?thesis using val_empty [OF p at empty(1)] m by (simp add: hits_def del: resolve.simps)
    next
      case arr
      then obtain p' where p': "tokens_at p' = Some ts" "val n depth p i = elems m (depth + 1) index' p' 0 (None, None) (Suc i)"
        using val_array [OF p _ arr(2)] at m by blast
      have e: "drop (Suc i) src = render_elems es @ rest" "wf_elems es" "depth + 1 + nesting_elems es \<le> maxDepth" using i(2) arr(1) d(2,4) by simp_all
      have "picked index' 0 (resolve stop ts) (None, None) (elem_list es) = resolve stop (tok # ts) t"
        using arr by (auto simp: picked_def split: option.splits)
      then show ?thesis using seekElems_hits [OF Cons.IH p'(1) e fuel, of "(None, None)" index' 0] p'(2) arr(1) by simp
    next
      case obj
      then obtain p' where p': "tokens_at p' = Some ts" "val n depth p i = mems m (depth + 1) tok p' (None, None) (Suc i)"
        using val_object [OF p] at m by blast
      have e: "drop (Suc i) src = render_mems ms @ rest" "wf_mems ms" "depth + 1 + nesting_mems ms \<le> maxDepth" using i(2) obj d(2,4) by simp_all
      show ?thesis using seekMems_hits [OF Cons.IH p'(1) e fuel, of "(None, None)" tok] p'(2) obj by simp
    next
      case scalar
      then show ?thesis using val_scalar [OF p at scalar(1)] m by (simp add: hits_def del: resolve.simps)
    qed
  qed
  then show ?case unfolding finds_def by blast
qed

text \<open>A whole document.\<close>

lemma document_hits:
  assumes "document_of maxDepth src w t w'" "tokens_at p = Some ts"
  shows "hits stop (length w + length (render t)) (resolve stop ts t) (val (value_fuel src 0) 0 p (SkipSpace src 0))"
proof -
  have d: "drop 0 src = w @ render t @ w'" "spaces w" "wf t" "spaces w'" "nesting t \<le> maxDepth" using assms by (simp_all add: document_of_def)
  note v = skip_to_value [OF d(1-3)]
  have stop: "value_stop w'" using d(4) by (cases w') (auto simp: value_stop_def)
  show ?thesis
    using finds_all [of 0 ts, unfolded finds_def, rule_format, OF assms(2) v(3) d(3) stop] d(5) v(1) by (simp add: SkipSpace_eq)
qed

end

lemma seek_skip:
  "seekElems n step src maxDepth stop depth index' p elem found (skip_to src i) = seekElems n step src maxDepth stop depth index' p elem found i"
  "seekMems n step src maxDepth stop depth token p found (skip_to src i) = seekMems n step src maxDepth stop depth token p found i"
  by (cases n; simp add: seek_Suc findArrayStep_def findObjectStep_def SkipSpace_eq)+


text \<open>The checked seeker over the list of tokens.\<close>

lemma at_value_byte:
  assumes "at_value src maxDepth t depth m i"
  shows "i < length src" "src ! i = hd (render t)" "\<not> depth > maxDepth" "\<not> i \<ge> length src"
  using assms render_first(1) [of t] by (cases "render t"; auto simp: at_value_def dest: drop_eq_ConsD)+

lemma at_value_skip: "at_value src maxDepth t depth m i \<Longrightarrow> skipValue (Suc m) src maxDepth depth i = Ok (i + length (render t))"
  by (auto simp: at_value_def intro: skipValue_complete)

lemma at_empty:
  assumes "at_value src maxDepth t depth m i" "t = CArr0 w \<or> t = CObj0 w"
  shows "SkipSpace src (Suc i) = i + length w + 1" "i + length w + 1 < length src" "src ! (i + length w + 1) = last (render t)" "depth + 1 \<le> maxDepth"
proof -
  obtain rest where d: "drop i src = hd (render t) # w @ last (render t) # rest" and "spaces w"
    using assms by (auto simp: at_value_def)
  moreover have "\<not> IsJSONWhitespace (last (render t))" using assms(2) by (auto simp: IsJSONWhitespace_def)
  ultimately show "SkipSpace src (Suc i) = i + length w + 1" "i + length w + 1 < length src" "src ! (i + length w + 1) = last (render t)"
    using skip_to_token [OF drop_eq_ConsD(3) [OF d]] by (simp_all add: SkipSpace_eq)
  show "depth + 1 \<le> maxDepth" using assms by (auto simp: at_value_def)
qed

interpretation checked: tree_seeker src maxDepth stop Some "\<lambda>n. seekValue n seek_step src maxDepth stop"
  "\<lambda>n. seekElems n seek_step src maxDepth stop" "\<lambda>n. seekMems n seek_step src maxDepth stop" for src maxDepth stop
proof (unfold_locales, goal_cases)
  case (1 i w v w' c rest depth m index' elem r p found r' k)
  have at: "drop (i + length w) src = render v @ w' @ c # rest" using drop_eq_appendD [OF 1(1)] .
  have vs: "value_stop (w' @ c # rest)" using 1(4,5) by (auto intro: value_stop_spaces)
  have n: "value_fuel src (i + length w) \<le> m" using 1(7) by linarith
  show ?case unfolding seek_Suc 1(10)
    by (rule findArrayStep_turn [OF 1(1-5)]) (rule 1(8), assumption, rule skipValue_complete [OF at 1(3) vs 1(6) n], rule 1(9))
next
  case (2 i w key a b v w' c rest dec depth m j token r p found r' k)
  have ks: "json_string key" and cs: "\<not> IsJSONWhitespace c" using 2(3,8) by (auto simp: json_string_def)
  note t = mem_turn [OF 2(1,2) ks 2(4-7) cs 2(11)]
  have vs: "value_stop (w' @ c # rest)" using 2(7,8) by (auto intro: value_stop_spaces)
  have n: "value_fuel src j \<le> m" using 2(10,11) by linarith
  show ?case unfolding seek_Suc 2(14)
    by (rule findObjectStep_turn [OF 2(1-8,11)]) (rule 2(12), assumption, rule skipValue_complete [OF t(8) 2(6) vs 2(9) n], rule 2(13))
next
  case (3 p t depth m i)
  then show ?case using at_value_skip [OF 3(2)] slice_of_drop [of i src "render t"]
    by (auto simp: seek_Nil captureValue_def at_value_def)
next
  case (4 p tok ts t depth m i)
  then show ?case using at_value_skip [OF 4(2)] at_value_byte [OF 4(2)] by (simp add: seek_Cons)
next
  case (5 p tok ts t depth m i err)
  have "\<not> depth + 1 > maxDepth" using 5(2,3) json_number_first [of "render t"] number_first_byte [of ch_lbracket]
    by (cases t) (auto simp: at_value_def)
  then show ?case using 5 at_value_skip [OF 5(2)] at_value_byte [OF 5(2)] by (cases stop) (simp_all add: seek_Cons)
next
  case (6 p tok ts t depth m i w index')
  then have "t = CArr0 w \<or> t = CObj0 w" by auto
  note e = at_empty [OF 6(2) this]
  show ?case using 6 at_value_byte [OF 6(2)] e by (auto simp: seek_Cons Let_def)
next
  case (7 p tok ts es depth m i index')
  obtain rest where d: "drop i src = ch_lbracket # render_elems es @ rest" and w: "wf_elems es" "depth + 1 \<le> maxDepth" using 7(2) by (auto simp: at_value_def)
  show ?case using 7(1,3) at_value_byte [OF 7(2)] elems_first [OF drop_eq_ConsD(3) [OF d] w(1)] w(2) by (simp add: seek_Cons Let_def SkipSpace_eq seek_skip)
next
  case (8 p tok ts ms depth m i)
  obtain rest where d: "drop i src = ch_lbrace # render_mems ms @ rest" and w: "wf_mems ms" "depth + 1 \<le> maxDepth" using 8(2) by (auto simp: at_value_def)
  show ?case using 8(1) at_value_byte [OF 8(2)] mems_first [OF drop_eq_ConsD(3) [OF d] w(1)] w(2) by (simp add: seek_Cons Let_def SkipSpace_eq seek_skip)
qed

subsection \<open>The entry points\<close>

abbreviation (input) lookup :: "bool \<Rightarrow> bytes list \<Rightarrow> bytes \<Rightarrow> nat \<Rightarrow> (SyntaxError, seek) outcome" where
  "lookup stop ts src maxDepth \<equiv> seekValue (value_fuel src 0) seek_step src maxDepth stop 0 ts (SkipSpace src 0)"

lemma lookup_spelled:
  "(if pointer_of ts = [] then captureValue (skipValue (value_fuel src 0) src maxDepth) src stop 0 (SkipSpace src 0)
    else findValue (value_fuel src 0) (pointer_of ts) src maxDepth stop 0 1 (SkipSpace src 0)) = lookup stop ts src maxDepth"
proof (cases "ts = []")
  case True
  then show ?thesis using seek_Nil [of "2 * length src + 1"] by simp
next
  case False
  then have ne: "pointer_of ts \<noteq> []" "1 \<le> length (pointer_of ts)" "ch_slash # drop 1 (pointer_of ts) = pointer_of ts"
    by (cases ts; simp)+
  then have "pointer_tokens (pointer_of ts) 1 = Some ts" using pointer_tokens_spelling [OF ne(2)] False by simp
  from spelled.seek_tokens [OF this] ne(1) show ?thesis by (simp add: findValue_def)
qed

lemma lookup_compiled:
  "findCompiledValue n \<lparr>spelling = s, Tokens = map compiledToken ts\<rparr> src maxDepth stop 0 0 i = seekValue n seek_step src maxDepth stop 0 ts i"
  using compiled.seek_tokens [where p = 0] by (simp add: findCompiledValue_def)

lemma GetRawOptions_lookup:
  "GetRawOptions src (pointer_of ts) d = bind_outcome (rawResult (lookup False ts src (maxDepthOrDefault d))) (trailing src)"
  "ScanFirstRawOptions src (pointer_of ts) d = bind_outcome (rawResult (lookup True ts src (maxDepthOrDefault d))) (\<lambda>(i, raw). Ok raw)"
proof -
  have "validatePointerSyntax (pointer_of ts) = None" using validatePointerSyntax_iff by blast
  then show "GetRawOptions src (pointer_of ts) d = bind_outcome (rawResult (lookup False ts src (maxDepthOrDefault d))) (trailing src)"
    "ScanFirstRawOptions src (pointer_of ts) d = bind_outcome (rawResult (lookup True ts src (maxDepthOrDefault d))) (\<lambda>(i, raw). Ok raw)"
    by (simp_all only: GetRawOptions_def ScanFirstRawOptions_def Let_def lookup_spelled option.case)
qed

lemma CompiledPointer_lookup:
  assumes "CompilePointer pointer = Inr p"
  obtains ts where "pointer = pointer_of ts"
    "CompiledPointer_GetRawOptions p src d = bind_outcome (rawResult (lookup False ts src (maxDepthOrDefault d))) (trailing src)"
    "CompiledPointer_ScanFirstRawOptions p src d = bind_outcome (rawResult (lookup True ts src (maxDepthOrDefault d))) (\<lambda>(i, raw). Ok raw)"
proof -
  obtain ts where ts: "pointer = pointer_of ts" using CompilePointer_rejects [of pointer] assms by fastforce
  then have "p = \<lparr>spelling = pointer, Tokens = map compiledToken ts\<rparr>" using CompilePointer_tokens [OF ts] assms by simp
  then show ?thesis using that [OF ts]
    by (simp add: CompiledPointer_GetRawOptions_def CompiledPointer_ScanFirstRawOptions_def Let_def lookup_compiled)
qed

lemma lookup_document:
  assumes "document_of maxDepth src w t w'"
  shows "hits stop (length w + length (render t)) (resolve stop ts t) (lookup stop ts src maxDepth)"
    "SkipSpace src (length w + length (render t)) = length src"
proof -
  show "hits stop (length w + length (render t)) (resolve stop ts t) (lookup stop ts src maxDepth)"
    by (rule checked.document_hits [OF assms refl])
  have "drop (length w + length (render t)) src = w' @ []" "spaces w'" using assms by (simp_all add: document_of_def)
  from drop_skip_to [OF this] show "SkipSpace src (length w + length (render t)) = length src"
    using assms by (simp add: SkipSpace_eq document_of_def)
qed

definition answer :: "target \<Rightarrow> (rawError, bytes option) outcome" where
  "answer r = (case snd r of None \<Rightarrow> Ok (fst r) | Some err \<Rightarrow> Fail (PointerFailure err))"

text \<open>C22: on a JSON document, a lookup returns what the pointer's tokens select in the syntax tree: the exact bytes of the target, a
  miss, or the error of a malformed array index. Of duplicate keys the last one decides, nested lookups and errors included.\<close>

theorem GetRawOptions_document:
  assumes "document_of (maxDepthOrDefault d) src w t w'"
  shows "GetRawOptions src (pointer_of ts) d = answer (resolve False ts t)"
  using lookup_document(1) [OF assms, of False ts] lookup_document(2) [OF assms]
  by (auto simp: GetRawOptions_lookup hits_def rawResult_def trailing_def answer_def split: option.splits prod.splits)

theorem GetRawOptions_document_witness:
  "GetRawOptions [ch_lbrace, ch_quote, ch_b, ch_quote, ch_colon, ch_0, ch_comma, ch_quote, ch_b, ch_quote, ch_colon, ch_1, ch_rbrace]
     (pointer_of [[ch_b]]) 3 = answer (resolve False [[ch_b]] (CObj (MMore [] [ch_b] [] [] (CNum [ch_0]) [] (MLast [] [ch_b] [] [] (CNum [ch_1]) []))))"
proof (rule GetRawOptions_document [where w = "[]" and w' = "[]"])
  have "validNumber [ch_0]" "validNumber [ch_1]" by code_simp+
  then have "json_number [ch_0]" "json_number [ch_1]" by (simp_all add: validNumber_iff)
  moreover have "jchar [ch_b] [ch_b]" by (intro jc_plain) (simp_all add: utf8_seq_def leadSize_def isStringSyntax_def)
  from jchars_cons [OF this jchars_nil] have "json_string [ch_b]" by (auto simp: json_string_def)
  ultimately show "document_of (maxDepthOrDefault 3) [ch_lbrace, ch_quote, ch_b, ch_quote, ch_colon, ch_0, ch_comma, ch_quote, ch_b, ch_quote, ch_colon, ch_1, ch_rbrace]
      [] (CObj (MMore [] [ch_b] [] [] (CNum [ch_0]) [] (MLast [] [ch_b] [] [] (CNum [ch_1]) []))) []"
    by (simp add: document_of_def maxDepthOrDefault_def)
qed

text \<open>C24: a scan for the first target returns, on a JSON document, the first match in document order that is a target or an error, also
  when earlier duplicates of a key on the path lead nowhere.\<close>

theorem ScanFirstRawOptions_document:
  assumes "document_of (maxDepthOrDefault d) src w t w'"
  shows "ScanFirstRawOptions src (pointer_of ts) d = answer (resolve True ts t)"
  using lookup_document(1) [OF assms, of True ts]
  by (auto simp: GetRawOptions_lookup hits_def rawResult_def answer_def split: option.splits prod.splits)

theorem ScanFirstRawOptions_document_witness:
  "ScanFirstRawOptions [ch_lbracket, ch_rbracket] (pointer_of [[ch_b]]) 3 = answer (resolve True [[ch_b]] (CArr0 []))"
  by (rule ScanFirstRawOptions_document [where w = "[]" and w' = "[]"]) (simp add: document_of_def maxDepthOrDefault_def)

text \<open>C26: compiled pointers change nothing: on every input, valid or not, the lookups with the compiled pointer return the same
  targets, the same misses and the same errors at the same positions as the lookups by spelling.\<close>

theorem compiled_lookup_equal:
  assumes "CompilePointer pointer = Inr p"
  shows "CompiledPointer_GetRawOptions p src d = GetRawOptions src pointer d
    \<and> CompiledPointer_ScanFirstRawOptions p src d = ScanFirstRawOptions src pointer d"
proof -
  from assms obtain ts where "pointer = pointer_of ts"
    "CompiledPointer_GetRawOptions p src d = bind_outcome (rawResult (lookup False ts src (maxDepthOrDefault d))) (trailing src)"
    "CompiledPointer_ScanFirstRawOptions p src d = bind_outcome (rawResult (lookup True ts src (maxDepthOrDefault d))) (\<lambda>(i, raw). Ok raw)"
    by (rule CompiledPointer_lookup)
  then show ?thesis by (simp add: GetRawOptions_lookup)
qed

theorem compiled_lookup_equal_witness:
  "CompiledPointer_GetRawOptions \<lparr>spelling = [ch_slash, ch_b], Tokens = map compiledToken [[ch_b]]\<rparr> [ch_lbracket] 0 = GetRawOptions [ch_lbracket] [ch_slash, ch_b] 0
    \<and> CompiledPointer_ScanFirstRawOptions \<lparr>spelling = [ch_slash, ch_b], Tokens = map compiledToken [[ch_b]]\<rparr> [ch_lbracket] 0
      = ScanFirstRawOptions [ch_lbracket] [ch_slash, ch_b] 0"
  by (rule compiled_lookup_equal, rule CompilePointer_tokens) simp

subsection \<open>Arbitrary inputs\<close>

lemma lookup_follows: "follows stop (lookup stop ts src maxDepth) (parseValue (value_fuel src 0) src maxDepth 0 (SkipSpace src 0) None)"
  by (rule seekValue_follows)

lemma lookup_total: "lookup stop ts src maxDepth \<noteq> NoFuel"
proof
  assume "lookup stop ts src maxDepth = NoFuel"
  with lookup_follows [where stop = stop and ts = ts and src = src and maxDepth = maxDepth] have "parseValue (value_fuel src 0) src maxDepth 0 (SkipSpace src 0) None = NoFuel" by simp
  moreover have "value_fuel src (SkipSpace src 0) \<le> value_fuel src 0" by simp
  ultimately show False using parse_fuel(1) by blast
qed

lemma document_parse:
  assumes "json_document maxDepth src"
  obtains j where "parseValue (value_fuel src 0) src maxDepth 0 (SkipSpace src 0) None = Ok (j, None)" "SkipSpace src j = length src"
proof -
  obtain w t w' where d: "document_of maxDepth src w t w'" using assms by (auto simp: json_document_iff)
  have "follows False (lookup False [] src maxDepth) (parseValue (value_fuel src 0) src maxDepth 0 (SkipSpace src 0) None)"
    by (rule lookup_follows)
  with lookup_document(1) [OF d, of False "[]"] lookup_document(2) [OF d] that show ?thesis by (auto simp: hits_def)
qed

text \<open>C23: a lookup always returns. It succeeds only on a document the validator accepts and with a well-formed pointer; a syntax error
  is only reported for an input that is no document; a pointer error is that of the pointer itself or is reported after the whole top-level value was validated.\<close>

theorem GetRawOptions_validates:
  "case GetRawOptions src pointer d of
      Ok _ \<Rightarrow> json_document (maxDepthOrDefault d) src \<and> validatePointerSyntax pointer = None
    | Fail (SyntaxFailure _) \<Rightarrow> \<not> json_document (maxDepthOrDefault d) src \<and> validatePointerSyntax pointer = None
    | Fail (PointerFailure e) \<Rightarrow> validatePointerSyntax pointer = Some e
        \<or> validatePointerSyntax pointer = None \<and> (\<exists>j. reads_value src (maxDepthOrDefault d) 0 (SkipSpace src 0) j)
    | NoFuel \<Rightarrow> False"
proof (cases "validatePointerSyntax pointer")
  case (Some e)
  then show ?thesis by (simp add: GetRawOptions_def)
next
  case None
  then obtain ts where ts: "pointer = pointer_of ts" using validatePointerSyntax_iff by blast
  define md where "md = maxDepthOrDefault d"
  note f = lookup_follows [where stop = False and ts = ts and src = src and maxDepth = md]
  show ?thesis
  proof (cases "lookup False ts src md")
    case (Ok x)
    obtain j dn raw perr where x: "x = (j, dn, raw, perr)" by (cases x)
    with f Ok have p: "parseValue (value_fuel src 0) src md 0 (SkipSpace src 0) None = Ok (j, None)" by simp
    note r = parse_sound(1) [OF p]
    have ends: "SkipSpace src j = length src \<longleftrightarrow> json_document md src"
      using reads_document [of src md j] r document_parse [of md src] p by (auto simp: SkipSpace_eq)
    show ?thesis unfolding ts GetRawOptions_lookup md_def [symmetric] Ok x using None ts r ends
      by (cases perr) (auto simp: rawResult_def trailing_def Let_def)
  next
    case (Fail e)
    then have "\<not> json_document md src" using f document_parse [of md src] by auto
    then show ?thesis unfolding ts GetRawOptions_lookup md_def [symmetric] Fail using None ts by (simp add: rawResult_def)
  qed (use lookup_total in blast)
qed

definition sound_target :: "target \<Rightarrow> bool" where
  "sound_target r \<longleftrightarrow> (\<forall>raw. fst r = Some raw \<longrightarrow> (\<exists>t. wf t \<and> raw = render t))"

definition sound_seek :: "(SyntaxError, seek) outcome \<Rightarrow> bool" where
  "sound_seek out \<longleftrightarrow> (\<forall>i d r. out = Ok (i, d, r) \<longrightarrow> sound_target r \<and> (d \<longrightarrow> fst r \<noteq> None \<and> snd r = None))"

lemma sound_seek_simps [simp]: "sound_seek (Ok (i, d, r)) \<longleftrightarrow> sound_target r \<and> (d \<longrightarrow> fst r \<noteq> None \<and> snd r = None)" "sound_seek (Fail e)" "sound_seek NoFuel" "sound_target (None, x)"
  by (cases r; simp add: sound_seek_def sound_target_def)+

lemma sound_if: "(c \<Longrightarrow> sound_seek a) \<Longrightarrow> (\<not> c \<Longrightarrow> sound_seek b) \<Longrightarrow> sound_seek (if c then a else b)"
  by simp

lemma sound_fst: "sound_target (raw, a) \<Longrightarrow> sound_target (raw, b)"
  by (simp add: sound_target_def)

lemma captureValue_sound: "sound_seek (captureValue (skipValue n src maxDepth) src stop depth i)"
proof (cases "parseValue n src maxDepth depth i None")
  case (Ok x)
  obtain j l where x: "x = (j, l)" by force
  from parse_sound(1) [OF Ok [unfolded x]] obtain t where "wf t" "drop i src = render t @ drop j src" "j = i + length (render t)"
    unfolding reads_value_def by blast
  with slice_of_drop [of i src "render t"] show ?thesis
    by (auto simp: captureValue_def skipValue_def Ok x sound_target_def)
qed (simp_all add: captureValue_def skipValue_def)

lemma sound_bind: "(\<And>x. f = Ok x \<Longrightarrow> sound_seek (k x)) \<Longrightarrow> sound_seek (bind_outcome f k)"
  by (cases f) simp_all

lemma sound_find:
  assumes "sound_seek f" "\<And>i raw perr. sound_target (raw, perr) \<Longrightarrow> sound_seek (k raw perr i)"
  shows "sound_seek (bind_outcome f (\<lambda>(i, done, raw, perr).
      if perr \<noteq> None \<and> stop then Ok (i, done, None, perr) else if done then Ok (i, done, raw, None) else k raw perr i))"
  using assms by (cases f) (auto split: prod.splits intro: sound_fst)

definition walk_sound :: "nat \<Rightarrow> bytes \<Rightarrow> nat \<Rightarrow> bool \<Rightarrow> bool" where
  "walk_sound n src maxDepth stop \<longleftrightarrow>
     (\<forall>depth ts i. sound_seek (seekValue n seek_step src maxDepth stop depth ts i))
     \<and> (\<forall>depth index' ts elem found i. sound_target found \<longrightarrow> sound_seek (seekElems n seek_step src maxDepth stop depth index' ts elem found i))
     \<and> (\<forall>depth token ts found i. sound_target found \<longrightarrow> sound_seek (seekMems n seek_step src maxDepth stop depth token ts found i))"

lemma findArrayStep_sound:
  assumes f: "\<And>i. sound_seek (f depth p i)" and e: "\<And>elem found i. sound_target found \<Longrightarrow> sound_seek (e depth index' p elem found i)"
    and r: "sound_target found"
  shows "sound_seek (findArrayStep f skip e src stop depth index' p elem found i)"
proof (cases "index' = Some elem")
  case True
  show ?thesis unfolding findArrayStep_def Let_def if_P [OF True]
    by (rule sound_find [OF f], intro sound_if) (auto intro: e dest: sound_fst)
next
  case False
  show ?thesis unfolding findArrayStep_def Let_def if_not_P [OF False]
    by (rule sound_bind) (use e r in auto)
qed

lemma findObjectStep_sound:
  assumes f: "\<And>i. sound_seek (f depth p i)" and e: "\<And>found i. sound_target found \<Longrightarrow> sound_seek (e depth token p found i)"
    and r: "sound_target found"
  shows "sound_seek (findObjectStep f skip e src stop depth token p found i)"
proof -
  have tail: "sound_seek (if c then Fail z else if m then bind_outcome (f depth p i) (\<lambda>(i, done, raw, perr).
        if perr \<noteq> None \<and> stop then Ok (i, done, None, perr) else if done then Ok (i, done, raw, None)
        else member_next src e depth token p (raw, perr) i)
      else bind_outcome (skip depth i) (member_next src e depth token p found))" for c z m i
    by (intro sound_if sound_find [OF f] sound_bind) (use e r in \<open>auto simp: member_next_def\<close>)
  show ?thesis unfolding findObjectStep_def Let_def
    by (rule sound_if, simp, rule sound_bind, unfold split_paired_all prod.case, rule sound_bind, rule tail [unfolded member_next_def])
qed

lemma seek_sound: "walk_sound n src maxDepth stop"
proof (induction n)
  case (Suc n)
  note IH = Suc.IH [unfolded walk_sound_def]
  have "sound_seek (seekValue (Suc n) seek_step src maxDepth stop depth ts i)" for depth ts i
  proof (cases ts)
    case Nil
    then show ?thesis using captureValue_sound by (simp add: seek_Nil)
  next
    case (Cons t ts')
    have "sound_seek (bind_outcome (skipValue (Suc n) src maxDepth depth i) (\<lambda>i. Ok (i, False, None, x)))" for x
      by (rule sound_bind) simp
    with IH show ?thesis unfolding Cons seek_Cons Let_def by (intro sound_if) (auto split: sum.splits)
  qed
  moreover have "sound_seek (seekElems (Suc n) seek_step src maxDepth stop depth index' ts elem found i)"
    if "sound_target found" for depth index' ts elem found i
    unfolding seek_Suc by (rule findArrayStep_sound) (use IH that in blast)+
  moreover have "sound_seek (seekMems (Suc n) seek_step src maxDepth stop depth token ts found i)"
    if "sound_target found" for depth token ts found i
    unfolding seek_Suc by (rule findObjectStep_sound) (use IH that in blast)+
  ultimately show ?case unfolding walk_sound_def by blast
qed (simp add: walk_sound_def)

text \<open>C25: a scan for the first target always returns; whatever follows it in the input, a target it returns is one complete JSON value;
  it reports a miss only after a complete top-level value, and a syntax error only for an input that is no document.\<close>

theorem ScanFirstRawOptions_sound:
  "case ScanFirstRawOptions src pointer d of
      Ok (Some raw) \<Rightarrow> validatePointerSyntax pointer = None \<and> (\<exists>t. wf t \<and> raw = render t)
    | Ok None \<Rightarrow> validatePointerSyntax pointer = None \<and> (\<exists>j. reads_value src (maxDepthOrDefault d) 0 (SkipSpace src 0) j)
    | Fail (SyntaxFailure _) \<Rightarrow> validatePointerSyntax pointer = None \<and> \<not> json_document (maxDepthOrDefault d) src
    | Fail (PointerFailure e) \<Rightarrow> validatePointerSyntax pointer \<in> {None, Some e}
    | NoFuel \<Rightarrow> False"
proof (cases "validatePointerSyntax pointer")
  case (Some e)
  then show ?thesis by (simp add: ScanFirstRawOptions_def)
next
  case None
  then obtain ts where ts: "pointer = pointer_of ts" using validatePointerSyntax_iff by blast
  define md where "md = maxDepthOrDefault d"
  note f = lookup_follows [where stop = True and ts = ts and src = src and maxDepth = md]
  have s: "sound_seek (lookup True ts src md)" using seek_sound [unfolded walk_sound_def] by blast
  show ?thesis
  proof (cases "lookup True ts src md")
    case (Ok x)
    obtain j dn raw perr where x: "x = (j, dn, raw, perr)" by (cases x)
    have miss: "\<exists>j. reads_value src md 0 (SkipSpace src 0) j" if "raw = None" "perr = None"
    proof -
      have "\<not> dn" using s Ok x that by simp
      then have "parseValue (value_fuel src 0) src md 0 (SkipSpace src 0) None = Ok (j, None)" using that f Ok x by simp
      from parse_sound(1) [OF this] show ?thesis by blast
    qed
    show ?thesis unfolding ts GetRawOptions_lookup md_def [symmetric] Ok x using None ts s Ok x miss
      by (cases perr; cases raw) (auto simp: rawResult_def sound_target_def)
  next
    case (Fail e)
    then have "\<not> json_document md src" using f document_parse [of md src] by auto
    then show ?thesis unfolding ts GetRawOptions_lookup md_def [symmetric] Fail using None ts by (simp add: rawResult_def)
  qed (use lookup_total in blast)
qed

end
