(* ===== verification/TrustedSeek.thy ===== *)
theory TrustedSeek
  imports TrustedSkip RawResolve
begin

text \<open>
  Lookups that do not validate (\<^verbatim>\<open>raw_trusted.go\<close>): the trusted seeker follows a compiled pointer and skips
  what is not on the path with the structural scan of \<open>TrustedSkip\<close>. On a valid document it returns what the
  checked seeker of \<open>RawSeek\<close> returns, since it provides the same contract \<open>tree_seeker\<close>; on any
  other input it returns, and what it returns is a part of the input.
\<close>

subsection \<open>Keys\<close>

text \<open>The results are start, end, the flag and the offset behind the key.\<close>

function scanKeyLoop :: "bytes \<Rightarrow> nat \<Rightarrow> nat \<Rightarrow> bool \<Rightarrow> nat \<times> nat \<times> bool \<times> nat" where
  "scanKeyLoop src start i escaped =
     (let j = scanStringSyntax src i in
      if j \<ge> length src then (start, length src, escaped, length src)
      else if src ! j = ch_quote then (start, j, escaped, j + 1)
      else if src ! j = ch_backslash then
        if j + 2 > length src then (start, length src, True, length src)
        else scanKeyLoop src start (j + 2) True
      else scanKeyLoop src start (j + 1) escaped)"
  by pat_completeness auto
termination
proof (relation "measure (\<lambda>(src, start, i, escaped). length src - i)", simp_all, goal_cases)
  case (1 src i)
  then show ?case using scanStringSyntax_ge [of src i] by simp
next
  case (2 src i)
  then show ?case using scanStringSyntax_ge [of src i] by simp
qed

declare scanKeyLoop.simps [simp del]

definition scanKey :: "bytes \<Rightarrow> nat \<Rightarrow> nat \<times> nat \<times> bool \<times> nat" where
  "scanKey src i = scanKeyLoop src (i + 1) (i + 1) False"

definition trustedKeyMatches :: "bytes \<Rightarrow> bytes \<Rightarrow> nat \<Rightarrow> nat \<Rightarrow> bool \<Rightarrow> bool" where
  "trustedKeyMatches src token keyStart keyEnd escaped =
     (if \<not> escaped then subslice src keyStart keyEnd = token
      else (case parser_parseString src (keyStart - 1) of Ok (key, _) \<Rightarrow> key = token | _ \<Rightarrow> False))"

subsection \<open>The seeker\<close>

definition trustedCapture :: "skip_fn \<Rightarrow> bytes \<Rightarrow> bool \<Rightarrow> nat \<Rightarrow> nat \<Rightarrow> (SyntaxError, seek) outcome" where
  "trustedCapture skip src lastWins depth start =
     bind_outcome (skip depth start) (\<lambda>i.
       if i = start then Ok (i, False, None, None)
       else Ok (i, \<not> lastWins, Some (subslice src start i), None))"

text \<open>
  One turn of the element loop; \<open>found\<close> holds \<^verbatim>\<open>selected\<close>, \<^verbatim>\<open>selectedOK\<close> and \<^verbatim>\<open>pointerErr\<close>.
\<close>

definition trustedArrayStep :: "'p find_fn \<Rightarrow> skip_fn \<Rightarrow> 'p elems_fn \<Rightarrow> bytes \<Rightarrow> bool \<Rightarrow> 'p elems_fn" where
  "trustedArrayStep find_value skip loop src lastWins depth index' nextToken elem found i =
     (let next = (\<lambda>found i.
            let i = SkipSpace src i in
            if i \<ge> length src then Ok (i, False, if lastWins then found else (None, None))
            else if src ! i = ch_comma then loop depth index' nextToken (elem + 1) found (i + 1)
            else if src ! i = ch_rbracket then Ok (i + 1, False, if lastWins then found else (None, None))
            else Ok (i, False, None, None));
          i = SkipSpace src i in
      if index' = Some elem then
        bind_outcome (find_value depth nextToken i) (\<lambda>(i, done, raw, perr).
          if perr \<noteq> None \<and> \<not> lastWins then Ok (i, done, None, perr)
          else if done then Ok (i, done, raw, perr)
          else next (if lastWins then raw else fst found, if perr \<noteq> None then perr else snd found) i)
      else bind_outcome (skip depth i) (next found))"

definition trustedObjectStep :: "'p find_fn \<Rightarrow> skip_fn \<Rightarrow> 'p mems_fn \<Rightarrow> bytes \<Rightarrow> bool \<Rightarrow> 'p mems_fn" where
  "trustedObjectStep find_value skip loop src lastWins depth token nextToken found i =
     (let result = (\<lambda>found. if lastWins then found else (None, None));
          next = (\<lambda>found i.
            let i = SkipSpace src i in
            if i \<ge> length src then Ok (i, False, result found)
            else if src ! i = ch_comma then loop depth token nextToken found (i + 1)
            else if src ! i = ch_rbrace then Ok (i + 1, False, result found)
            else Ok (i, False, None, None));
          i = SkipSpace src i in
      if i \<ge> length src then Ok (i, False, result found)
      else if src ! i = ch_rbrace then Ok (i + 1, False, result found)
      else if src ! i \<noteq> ch_quote then Ok (i, False, None, None)
      else case scanKey src i of (keyStart, keyEnd, escaped, i) \<Rightarrow>
        let matched = trustedKeyMatches src token keyStart keyEnd escaped;
            i = SkipSpace src i in
        if i \<ge> length src \<or> src ! i \<noteq> ch_colon then Ok (i, False, None, None)
        else let i = SkipSpace src (i + 1) in
          if matched then
            bind_outcome (find_value depth nextToken i) (\<lambda>(i, done, raw, perr).
              if perr \<noteq> None \<and> \<not> lastWins then Ok (i, done, None, perr)
              else if lastWins then next (raw, perr) i
              else if done then Ok (i, done, raw, perr)
              else next found i)
          else bind_outcome (skip depth i) (next found))"

definition trustedFindArray :: "CompiledPointer \<Rightarrow> bytes \<Rightarrow> nat \<Rightarrow> bool \<Rightarrow> skip_fn \<Rightarrow> nat elems_fn \<Rightarrow> nat find_fn" where
  "trustedFindArray pointer src maxDepth lastWins skip loop depth tokenIndex i =
     (if depth > maxDepth then err_at src (int i) ''maximum nesting depth exceeded''
      else case arrayIndex (Tokens pointer ! tokenIndex) of
          Inl err \<Rightarrow>
            if lastWins then bind_outcome (skip (depth - 1) i) (\<lambda>i. Ok (i, False, None, Some err))
            else Ok (i, False, None, Some err)
        | Inr index' \<Rightarrow>
            let i = SkipSpace src (i + 1) in
            if i < length src \<and> src ! i = ch_rbracket then Ok (i + 1, False, None, None)
            else loop depth index' (tokenIndex + 1) 0 (None, None) i)"

definition trustedFindObject :: "CompiledPointer \<Rightarrow> bytes \<Rightarrow> nat \<Rightarrow> nat mems_fn \<Rightarrow> nat find_fn" where
  "trustedFindObject pointer src maxDepth loop depth tokenIndex i =
     (if depth > maxDepth then err_at src (int i) ''maximum nesting depth exceeded''
      else loop depth (Text (Tokens pointer ! tokenIndex)) (tokenIndex + 1) (None, None) (i + 1))"

definition trustedFindStep :: "CompiledPointer \<Rightarrow> bytes \<Rightarrow> nat \<Rightarrow> bool \<Rightarrow> skip_fn \<Rightarrow> nat elems_fn \<Rightarrow> nat mems_fn \<Rightarrow> nat find_fn" where
  "trustedFindStep pointer src maxDepth lastWins skip elems mems depth tokenIndex i =
     (if tokenIndex \<ge> length (Tokens pointer) then trustedCapture skip src lastWins depth i
      else if depth > maxDepth then err_at src (int i) ''maximum nesting depth exceeded''
      else if i \<ge> length src then Ok (i, False, None, None)
      else if src ! i = ch_lbrace then trustedFindObject pointer src maxDepth mems (depth + 1) tokenIndex i
      else if src ! i = ch_lbracket then trustedFindArray pointer src maxDepth lastWins skip elems (depth + 1) tokenIndex i
      else bind_outcome (skip depth i) (\<lambda>i. Ok (i, False, None, None)))"

text \<open>The mutual recursion, one unit of fuel per call.\<close>

primrec trustedSeekers :: "nat \<Rightarrow> CompiledPointer \<Rightarrow> bytes \<Rightarrow> nat \<Rightarrow> bool \<Rightarrow> nat find_fn \<times> nat elems_fn \<times> nat mems_fn" where
  "trustedSeekers 0 pointer src maxDepth lastWins = ((\<lambda>_ _ _. NoFuel), (\<lambda>_ _ _ _ _ _. NoFuel), (\<lambda>_ _ _ _ _. NoFuel))"
| "trustedSeekers (Suc n) pointer src maxDepth lastWins =
     (case trustedSeekers n pointer src maxDepth lastWins of (find_value, elems, mems) \<Rightarrow>
        (trustedFindStep pointer src maxDepth lastWins (trustedSkipValue src maxDepth) elems mems,
         trustedArrayStep find_value (trustedSkipValue src maxDepth) elems src lastWins,
         trustedObjectStep find_value (trustedSkipValue src maxDepth) mems src lastWins))"

definition trustedFind :: "CompiledPointer \<Rightarrow> bytes \<Rightarrow> nat \<Rightarrow> bool \<Rightarrow> nat \<Rightarrow> nat find_fn" where
  "trustedFind pointer src maxDepth lastWins n = fst (trustedSeekers n pointer src maxDepth lastWins)"

definition trustedElems :: "CompiledPointer \<Rightarrow> bytes \<Rightarrow> nat \<Rightarrow> bool \<Rightarrow> nat \<Rightarrow> nat elems_fn" where
  "trustedElems pointer src maxDepth lastWins n = fst (snd (trustedSeekers n pointer src maxDepth lastWins))"

definition trustedMems :: "CompiledPointer \<Rightarrow> bytes \<Rightarrow> nat \<Rightarrow> bool \<Rightarrow> nat \<Rightarrow> nat mems_fn" where
  "trustedMems pointer src maxDepth lastWins n = snd (snd (trustedSeekers n pointer src maxDepth lastWins))"

lemma trusted_0 [simp]:
  "trustedFind pointer src maxDepth lastWins 0 depth p i = NoFuel"
  "trustedElems pointer src maxDepth lastWins 0 depth index' p elem found i = NoFuel"
  "trustedMems pointer src maxDepth lastWins 0 depth token p found i = NoFuel"
  by (simp_all add: trustedFind_def trustedElems_def trustedMems_def)

lemma trusted_Suc:
  "trustedFind pointer src maxDepth lastWins (Suc n) = trustedFindStep pointer src maxDepth lastWins (trustedSkipValue src maxDepth)
     (trustedElems pointer src maxDepth lastWins n) (trustedMems pointer src maxDepth lastWins n)"
  "trustedElems pointer src maxDepth lastWins (Suc n) = trustedArrayStep (trustedFind pointer src maxDepth lastWins n)
     (trustedSkipValue src maxDepth) (trustedElems pointer src maxDepth lastWins n) src lastWins"
  "trustedMems pointer src maxDepth lastWins (Suc n) = trustedObjectStep (trustedFind pointer src maxDepth lastWins n)
     (trustedSkipValue src maxDepth) (trustedMems pointer src maxDepth lastWins n) src lastWins"
  by (simp_all add: trustedFind_def trustedElems_def trustedMems_def split: prod.splits)

subsection \<open>Entry points\<close>

definition CompiledPointer_ScanFirstRawTrustedOptions :: "CompiledPointer \<Rightarrow> bytes \<Rightarrow> int \<Rightarrow> (rawError, bytes option) outcome" where
  "CompiledPointer_ScanFirstRawTrustedOptions p src maxDepth =
     bind_outcome (rawResult (trustedFind p src (maxDepthOrDefault maxDepth) False (value_fuel src 0) 0 0 (SkipSpace src 0))) (\<lambda>(i, raw). Ok raw)"

definition CompiledPointer_GetRawTrusted :: "CompiledPointer \<Rightarrow> bytes \<Rightarrow> (rawError, bytes option) outcome" where
  "CompiledPointer_GetRawTrusted p src =
     bind_outcome (rawResult (trustedFind p src DefaultMaxDepth True (value_fuel src 0) 0 0 (SkipSpace src 0))) (\<lambda>(i, raw). Ok raw)"

definition ScanFirstRawTrustedOptions :: "bytes \<Rightarrow> bytes \<Rightarrow> int \<Rightarrow> (rawError, bytes option) outcome" where
  "ScanFirstRawTrustedOptions src pointer maxDepth =
     (case CompilePointer pointer of
        Inl err \<Rightarrow> Fail (PointerFailure err)
      | Inr p \<Rightarrow> CompiledPointer_ScanFirstRawTrustedOptions p src maxDepth)"

definition ScanFirstRawTrusted :: "bytes \<Rightarrow> bytes \<Rightarrow> (rawError, bytes option) outcome" where
  "ScanFirstRawTrusted src pointer = ScanFirstRawTrustedOptions src pointer 0"

definition CompiledPointer_ScanFirstRawTrusted :: "CompiledPointer \<Rightarrow> bytes \<Rightarrow> (rawError, bytes option) outcome" where
  "CompiledPointer_ScanFirstRawTrusted p src = CompiledPointer_ScanFirstRawTrustedOptions p src 0"


subsection \<open>Keys of a valid document\<close>

lemma scanKeyLoop_step:
  assumes "i < length src"
  shows "scanKeyLoop src start i escaped =
    (if src ! i = ch_quote then (start, i, escaped, i + 1)
     else if src ! i = ch_backslash then if i + 2 > length src then (start, length src, True, length src) else scanKeyLoop src start (i + 2) True
     else scanKeyLoop src start (i + 1) escaped)"
proof (cases "isStringSyntax (src ! i)")
  case True
  then have "scanStringSyntax src i = i" using assms by (simp add: scanStringSyntax_eq scanBytes_at)
  then show ?thesis using assms by (subst scanKeyLoop.simps) (simp add: Let_def)
next
  case False
  then have "scanStringSyntax src i = scanStringSyntax src (i + 1)"
    using assms by (simp add: scanStringSyntax_eq scanBytes.simps [of _ src i])
  then have "scanKeyLoop src start i escaped = scanKeyLoop src start (i + 1) escaped"
    by (subst (1 2) scanKeyLoop.simps) (simp only: Let_def)
  then show ?thesis using False by (simp add: isStringSyntax_def)
qed

lemma scanKeyLoop_quiet:
  assumes "quiet False raw" "drop i src = raw @ ch_quote # r"
  shows "scanKeyLoop src start i escaped = (start, i + length raw, escaped \<or> ch_backslash \<in> set raw, i + length raw + 1)"
  using assms
proof (induction raw arbitrary: i escaped rule: quiet_induct)
  case Nil
  then show ?case using drop_eq_ConsD [of i src ch_quote r] by (simp add: scanKeyLoop_step)
next
  case (Plain c cs)
  then show ?case using drop_eq_ConsD [of i src c "cs @ ch_quote # r"] by (simp add: scanKeyLoop_step)
next
  case (Escape c cs)
  have d: "drop i src = ch_backslash # c # cs @ ch_quote # r" using Escape.prems by simp
  show ?case using drop_eq_ConsD [OF d] drop_eq_ConsD [OF drop_eq_ConsD(3) [OF d]] Escape.IH [of "i + 2"]
    by (simp add: scanKeyLoop_step)
qed

lemma scanned_key:
  assumes d: "drop i src = ch_quote # k @ ch_quote # rest" and k: "jchars k dec"
  shows "scanKey src i = (i + 1, i + 1 + length k, ch_backslash \<in> set k, i + length k + 2)"
    "trustedKeyMatches src token (i + 1) (i + 1 + length k) (ch_backslash \<in> set k) \<longleftrightarrow> dec = token"
proof -
  note i = drop_eq_ConsD [OF d]
  show "scanKey src i = (i + 1, i + 1 + length k, ch_backslash \<in> set k, i + length k + 2)"
    using scanKeyLoop_quiet [OF quiet_jchars [OF k] i(3)] by (simp add: scanKey_def)
  have "keyMatches src token (i + 1) (i + 1 + length k) (ch_backslash \<in> set k) = Ok (dec = token)"
    by (rule member_key(2) [OF d k])
  then show "trustedKeyMatches src token (i + 1) (i + 1 + length k) (ch_backslash \<in> set k) \<longleftrightarrow> dec = token"
    by (auto simp: keyMatches_def trustedKeyMatches_def split: outcome.splits if_splits prod.splits)
qed

subsection \<open>The turns of the loops on the text of a tree\<close>

lemma trustedArrayStep_turn:
  assumes d: "drop i src = w @ render v @ w' @ c # rest" and wf: "spaces w" "wf v" "spaces w'"
    and c: "c = ch_rbracket \<or> c = ch_comma"
    and f: "index' = Some elem \<Longrightarrow> hits stop (i + length w + length (render v)) r (f depth p (i + length w))"
    and s: "skip depth (i + length w) = Ok (i + length w + length (render v))"
    and found: "index' = Some elem \<or> stop \<Longrightarrow> found = (None, None)"
  defines "j \<equiv> i + length w + length (render v) + length w'"
    and "r' \<equiv> if index' = Some elem then r else found"
  shows "if stop \<and> r' \<noteq> (None, None) then hits stop k r' (trustedArrayStep f skip e src (\<not> stop) depth index' p elem found i)
    else trustedArrayStep f skip e src (\<not> stop) depth index' p elem found i
      = (if c = ch_comma then e depth index' p (elem + 1) r' (j + 1) else Ok (j + 1, False, r'))"
proof -
  have cs: "\<not> IsJSONWhitespace c" using c by auto
  note t = elem_turn [OF d wf cs, folded j_def]
  have tail: "SkipSpace src (i + length w + length (render v)) = j" "SkipSpace src i = i + length w" "j < length src" "src ! j = c"
    using t by (simp_all add: SkipSpace_eq)
  show ?thesis
  proof (cases "index' = Some elem")
    case True
    with f obtain j' where h: "f depth p (i + length w) = Ok (j', stop \<and> fst r \<noteq> None, r)"
      "stop \<and> r \<noteq> (None, None) \<or> j' = i + length w + length (render v)" "fst r = None \<or> snd r = None" by (auto simp: hits_def)
    show ?thesis using True h tail c found
      by (cases r) (auto simp: trustedArrayStep_def r'_def hits_def Let_def)
  next
    case False
    then show ?thesis using s tail c found by (auto simp: trustedArrayStep_def r'_def Let_def)
  qed
qed

lemma trustedObjectStep_turn:
  assumes d: "drop i src = w @ ch_quote # k @ ch_quote # a @ ch_colon # b @ render v @ w' @ c # rest"
    and wf: "spaces w" "jchars k dec" "spaces a" "spaces b" "wf v" "spaces w'"
    and c: "c = ch_rbrace \<or> c = ch_comma"
    and p: "p = i + length w + length k + length a + length b + 3"
    and f: "dec = token \<Longrightarrow> hits stop (p + length (render v)) r (f depth q p)"
    and s: "skip depth p = Ok (p + length (render v))"
    and found: "stop \<Longrightarrow> found = (None, None)"
  defines "j \<equiv> p + length (render v) + length w'"
    and "r' \<equiv> if dec = token then r else found"
  shows "if stop \<and> r' \<noteq> (None, None) then hits stop e' r' (trustedObjectStep f skip e src (\<not> stop) depth token q found i)
    else trustedObjectStep f skip e src (\<not> stop) depth token q found i
      = (if c = ch_comma then e depth token q r' (j + 1) else Ok (j + 1, False, r'))"
proof -
  have cs: "\<not> IsJSONWhitespace c" and ks: "json_string k" using c wf(2) by (auto simp: json_string_def)
  note t = mem_turn [OF d wf(1) ks wf(3-6) cs p, folded j_def]
  note w = skip_to_token [OF d wf(1), simplified IsJSONWhitespace_def, simplified]
  have s0: "SkipSpace src i = i + length w" using w(1) by (simp add: SkipSpace_eq)
  have at: "drop (i + length w) src = ch_quote # k @ ch_quote # a @ ch_colon # b @ render v @ w' @ c # rest" using w(4) w(1) by simp
  note key = scanned_key(1) [OF at wf(2)] scanned_key(2) [OF at wf(2), of token]
  have first: "\<not> i + length w \<ge> length src" "src ! (i + length w) = ch_quote" using t(1,2) w(1) by simp_all
  define o' where "o' = SkipSpace src (i + length w + length k + 2)"
  have o: "\<not> (o' \<ge> length src \<or> src ! o' \<noteq> ch_colon)" "SkipSpace src (o' + 1) = p" using t(5-7) by (simp_all add: o'_def SkipSpace_eq)
  have tail: "SkipSpace src (p + length (render v)) = j" "j < length src" "src ! j = c" using t(9-11) by (simp_all add: SkipSpace_eq)
  have q: "\<not> src ! (i + length w) = ch_rbrace" "\<not> src ! (i + length w) \<noteq> ch_quote" using first(2) by simp_all
  note unf = trustedObjectStep_def Let_def s0 if_not_P [OF first(1)] if_not_P [OF q(1)] if_not_P [OF q(2)] key prod.case o'_def [symmetric] if_not_P [OF o(1)] o(2)
  show ?thesis
  proof (cases "dec = token")
    case True
    with f obtain j' where h: "f depth q p = Ok (j', stop \<and> fst r \<noteq> None, r)"
      "stop \<and> r \<noteq> (None, None) \<or> j' = p + length (render v)" "fst r = None \<or> snd r = None" by (auto simp: hits_def)
    show ?thesis using h tail c found True unfolding unf if_P [OF True] r'_def
      by (cases r) (auto simp: hits_def)
  next
    case False
    show ?thesis using s tail c found unfolding unf if_not_P [OF False] r'_def by auto
  qed
qed


subsection \<open>The trusted seeker provides the contract\<close>

lemma trusted_elems_skip:
  "trustedElems pointer src maxDepth lastWins n depth index' p elem found (skip_to src i) = trustedElems pointer src maxDepth lastWins n depth index' p elem found i"
  by (cases n) (simp_all add: trusted_Suc trustedArrayStep_def SkipSpace_eq)

lemma at_value_trusted: "at_value src maxDepth t depth m i \<Longrightarrow> trustedSkipValue src maxDepth depth i = Ok (i + length (render t))"
  by (auto simp: at_value_def intro: trustedSkipValue_complete)

abbreviation (input) compiled_pointer :: "bytes \<Rightarrow> bytes list \<Rightarrow> CompiledPointer" where
  "compiled_pointer s ts \<equiv> \<lparr>spelling = s, Tokens = map compiledToken ts\<rparr>"

lemma tokens_left:
  assumes "(if p \<le> length ts0 then Some (drop p ts0) else None) = Some ts"
  shows "ts = [] \<longleftrightarrow> \<not> p < length ts0" "ts = tok # ts' \<Longrightarrow> p < length ts0 \<and> ts0 ! p = tok \<and> Suc p \<le> length ts0 \<and> drop (Suc p) ts0 = ts'"
  using assms by (auto split: if_splits simp: Cons_nth_drop_Suc dest: drop_eq_ConsD)

interpretation trusted: tree_seeker src maxDepth stop "\<lambda>k. if k \<le> length ts0 then Some (drop k ts0) else None"
  "trustedFind (compiled_pointer s ts0) src maxDepth (\<not> stop)" "trustedElems (compiled_pointer s ts0) src maxDepth (\<not> stop)"
  "trustedMems (compiled_pointer s ts0) src maxDepth (\<not> stop)" for src maxDepth stop s ts0
proof (unfold_locales, goal_cases)
  case (1 i w v w' c rest depth m index' elem r p found r' k)
  have at: "drop (i + length w) src = render v @ w' @ c # rest" using drop_eq_appendD [OF 1(1)] .
  have vs: "value_stop (w' @ c # rest)" using 1(4,5) by (auto intro: value_stop_spaces)
  show ?case unfolding trusted_Suc 1(10)
    by (rule trustedArrayStep_turn [OF 1(1-5)]) (rule 1(8), assumption, rule trustedSkipValue_complete [OF at 1(3) vs 1(6)], rule 1(9))
next
  case (2 i w key a b v w' c rest dec depth m j token r p found r' k)
  have ks: "json_string key" and cs: "\<not> IsJSONWhitespace c" using 2(3,8) by (auto simp: json_string_def)
  note t = mem_turn [OF 2(1,2) ks 2(4-7) cs 2(11)]
  have vs: "value_stop (w' @ c # rest)" using 2(7,8) by (auto intro: value_stop_spaces)
  show ?case unfolding trusted_Suc 2(14)
    by (rule trustedObjectStep_turn [OF 2(1-8,11)]) (rule 2(12), assumption, rule trustedSkipValue_complete [OF t(8) 2(6) vs 2(9)], rule 2(13))
next
  case (3 p t depth m i)
  have "render t \<noteq> []" using render_first(1) 3(2) by (auto simp: at_value_def)
  then show ?case using 3 tokens_left(1) [OF 3(1)] at_value_trusted [OF 3(2)] slice_of_drop [of i src "render t"]
    by (auto simp: trusted_Suc trustedFindStep_def trustedCapture_def at_value_def)
next
  case (4 p tok ts t depth m i)
  then show ?case using tokens_left(2) [OF 4(1) refl] at_value_trusted [OF 4(2)] at_value_byte [OF 4(2)] by (simp add: trusted_Suc trustedFindStep_def)
next
  case (5 p tok ts t depth m i err)
  have "\<not> depth + 1 > maxDepth" using 5(2,3) json_number_first [of "render t"] number_first_byte [of ch_lbracket]
    by (cases t) (auto simp: at_value_def)
  then show ?case using 5 tokens_left(2) [OF 5(1) refl] at_value_trusted [OF 5(2)] at_value_byte [OF 5(2)]
    by (cases stop) (simp_all add: trusted_Suc trustedFindStep_def trustedFindArray_def arrayIndex_compiled)
next
  case (6 p tok ts t depth m i w index')
  then have "t = CArr0 w \<or> t = CObj0 w" by auto
  note e = at_empty [OF 6(2) this]
  obtain m' where m: "m = Suc m'" using 6(2) at_value_byte(1) [OF 6(2)] by (cases m) (auto simp: at_value_def)
  show ?case using 6 tokens_left(2) [OF 6(1) refl] at_value_byte [OF 6(2)] e
    by (auto simp: trusted_Suc trustedFindStep_def trustedFindArray_def trustedFindObject_def arrayIndex_compiled trustedObjectStep_def m Let_def)
next
  case (7 p tok ts es depth m i index')
  obtain rest where d: "drop i src = ch_lbracket # render_elems es @ rest" and w: "wf_elems es" "depth + 1 \<le> maxDepth" using 7(2) by (auto simp: at_value_def)
  note t = tokens_left(2) [OF 7(1) refl]
  show ?case using t 7(3) at_value_byte [OF 7(2)] elems_first [OF drop_eq_ConsD(3) [OF d] w(1)] w(2)
    by (intro exI [of _ "Suc p"]) (simp add: trusted_Suc trustedFindStep_def trustedFindArray_def arrayIndex_compiled Let_def SkipSpace_eq trusted_elems_skip)
next
  case (8 p tok ts ms depth m i)
  have "depth + 1 \<le> maxDepth" using 8(2) by (auto simp: at_value_def)
  then show ?case using tokens_left(2) [OF 8(1) refl] at_value_byte [OF 8(2)]
    by (intro exI [of _ "Suc p"]) (simp add: trusted_Suc trustedFindStep_def trustedFindObject_def compiledToken_Text)
qed

lemma compiled_for:
  assumes "CompilePointer pointer = Inr p"
  obtains ts where "pointer = pointer_of ts" "p = compiled_pointer pointer ts"
    "(if 0 \<le> length ts then Some (drop 0 ts) else None) = Some ts"
    "CompiledPointer_GetRawOptions p src d = bind_outcome (rawResult (lookup False ts src (maxDepthOrDefault d))) (trailing src)"
    "CompiledPointer_ScanFirstRawOptions p src d = bind_outcome (rawResult (lookup True ts src (maxDepthOrDefault d))) (\<lambda>(i, raw). Ok raw)"
proof -
  from assms obtain ts where ts: "pointer = pointer_of ts"
    "CompiledPointer_GetRawOptions p src d = bind_outcome (rawResult (lookup False ts src (maxDepthOrDefault d))) (trailing src)"
    "CompiledPointer_ScanFirstRawOptions p src d = bind_outcome (rawResult (lookup True ts src (maxDepthOrDefault d))) (\<lambda>(i, raw). Ok raw)"
    by (rule CompiledPointer_lookup)
  then show ?thesis using that CompilePointer_tokens [OF ts(1)] assms by simp
qed

text \<open>C27: on a valid document the trusted scan for the first target, by a compiled pointer or by its spelling, returns what the
  validating scan returns: the same target, a miss, or the same pointer error.\<close>

theorem trusted_scan_equal:
  assumes "document_of (maxDepthOrDefault d) src w t w'" "CompilePointer pointer = Inr p"
  shows "CompiledPointer_ScanFirstRawTrustedOptions p src d = CompiledPointer_ScanFirstRawOptions p src d
    \<and> ScanFirstRawTrustedOptions src pointer d = ScanFirstRawOptions src pointer d"
proof -
  obtain ts where ts: "pointer = pointer_of ts" "p = compiled_pointer pointer ts" and all: "(if 0 \<le> length ts then Some (drop 0 ts) else None) = Some ts"
    and checked: "CompiledPointer_ScanFirstRawOptions p src d = bind_outcome (rawResult (lookup True ts src (maxDepthOrDefault d))) (\<lambda>(i, raw). Ok raw)"
    by (rule compiled_for [OF assms(2), of src d]) (rule that)
  have scan: "CompiledPointer_ScanFirstRawTrustedOptions p src d = CompiledPointer_ScanFirstRawOptions p src d"
    unfolding checked CompiledPointer_ScanFirstRawTrustedOptions_def unfolding ts(2)
    using trusted.document_hits [OF assms(1) all, where stop = True and s = pointer] lookup_document(1) [OF assms(1), of True ts]
    by (auto simp: hits_def rawResult_def split: option.splits prod.splits)
  moreover have "ScanFirstRawTrustedOptions src pointer d = ScanFirstRawOptions src pointer d"
    using scan checked assms(2) [unfolded ts(1)] by (simp add: ScanFirstRawTrustedOptions_def ts(1) GetRawOptions_lookup(2))
  ultimately show ?thesis by blast
qed

lemma pair_document: "document_of 3 [ch_lbracket, ch_0, ch_comma, ch_1, ch_rbracket] [] (CArr (EMore [] (CNum [ch_0]) [] (ELast [] (CNum [ch_1]) []))) []"
proof -
  have "validNumber [ch_0]" "validNumber [ch_1]" by code_simp+
  then show ?thesis by (simp add: validNumber_iff document_of_def)
qed

theorem trusted_scan_equal_witness:
  "CompiledPointer_ScanFirstRawTrustedOptions (compiled_pointer [ch_slash, ch_1] [[ch_1]]) [ch_lbracket, ch_0, ch_comma, ch_1, ch_rbracket] 3
      = CompiledPointer_ScanFirstRawOptions (compiled_pointer [ch_slash, ch_1] [[ch_1]]) [ch_lbracket, ch_0, ch_comma, ch_1, ch_rbracket] 3
    \<and> ScanFirstRawTrustedOptions [ch_lbracket, ch_0, ch_comma, ch_1, ch_rbracket] [ch_slash, ch_1] 3
      = ScanFirstRawOptions [ch_lbracket, ch_0, ch_comma, ch_1, ch_rbracket] [ch_slash, ch_1] 3"
proof (rule trusted_scan_equal)
  show "document_of (maxDepthOrDefault 3) [ch_lbracket, ch_0, ch_comma, ch_1, ch_rbracket] [] (CArr (EMore [] (CNum [ch_0]) [] (ELast [] (CNum [ch_1]) []))) []"
    using pair_document by (simp add: maxDepthOrDefault_def)
  show "CompilePointer [ch_slash, ch_1] = Inr (compiled_pointer [ch_slash, ch_1] [[ch_1]])" by (rule CompilePointer_tokens) simp
qed

text \<open>C28: on a valid document the trusted lookup with the last duplicate deciding returns what the validating lookup returns.\<close>

theorem trusted_get_equal:
  assumes "document_of DefaultMaxDepth src w t w'" "CompilePointer pointer = Inr p"
  shows "CompiledPointer_GetRawTrusted p src = CompiledPointer_GetRaw p src"
proof -
  have md: "maxDepthOrDefault 0 = DefaultMaxDepth" by (simp add: maxDepthOrDefault_def)
  obtain ts where ts: "p = compiled_pointer pointer ts" and all: "(if 0 \<le> length ts then Some (drop 0 ts) else None) = Some ts"
    and checked: "CompiledPointer_GetRawOptions p src 0 = bind_outcome (rawResult (lookup False ts src DefaultMaxDepth)) (trailing src)"
    by (rule compiled_for [OF assms(2), of src 0, unfolded md]) (rule that)
  show ?thesis unfolding CompiledPointer_GetRaw_def checked CompiledPointer_GetRawTrusted_def unfolding ts
    using trusted.document_hits [OF assms(1) all, where stop = False and s = pointer] lookup_document(1) [OF assms(1), of False ts] lookup_document(2) [OF assms(1)]
    by (auto simp: hits_def rawResult_def trailing_def split: option.splits prod.splits)
qed


theorem trusted_get_equal_witness:
  "CompiledPointer_GetRawTrusted (compiled_pointer [ch_slash, ch_1] [[ch_1]]) [ch_lbracket, ch_0, ch_comma, ch_1, ch_rbracket]
    = CompiledPointer_GetRaw (compiled_pointer [ch_slash, ch_1] [[ch_1]]) [ch_lbracket, ch_0, ch_comma, ch_1, ch_rbracket]"
proof (rule trusted_get_equal)
  show "document_of DefaultMaxDepth [ch_lbracket, ch_0, ch_comma, ch_1, ch_rbracket] [] (CArr (EMore [] (CNum [ch_0]) [] (ELast [] (CNum [ch_1]) []))) []"
    using pair_document by (simp add: document_of_def DefaultMaxDepth_def)
  show "CompilePointer [ch_slash, ch_1] = Inr (compiled_pointer [ch_slash, ch_1] [[ch_1]])" by (rule CompilePointer_tokens) simp
qed

subsection \<open>Arbitrary inputs\<close>

definition part_of :: "bytes \<Rightarrow> bytes option \<Rightarrow> bool" where
  "part_of src raw \<longleftrightarrow> (\<forall>v. raw = Some v \<longrightarrow> (\<exists>a b. a \<le> b \<and> b \<le> length src \<and> v = subslice src a b))"

lemma part_of_simps [simp]: "part_of src None" "a \<le> b \<Longrightarrow> b \<le> length src \<Longrightarrow> part_of src (Some (subslice src a b))"
  by (auto simp: part_of_def)

text \<open>A pointer error a lookup reports is one of the compiled tokens read as an array index.\<close>

definition bad_index :: "CompiledPointer \<Rightarrow> PointerError \<Rightarrow> bool" where
  "bad_index ptr e \<longleftrightarrow> (\<exists>t\<in>set (Tokens ptr). arrayIndex t = Inl e)"

definition found_ok :: "CompiledPointer \<Rightarrow> bytes \<Rightarrow> bytes option \<times> PointerError option \<Rightarrow> bool" where
  "found_ok ptr src found \<longleftrightarrow> part_of src (fst found) \<and> (\<forall>e. snd found = Some e \<longrightarrow> bad_index ptr e)"

lemma found_ok_simps [simp]:
  "found_ok ptr src (raw, None) \<longleftrightarrow> part_of src raw"
  "found_ok ptr src (raw, Some e) \<longleftrightarrow> part_of src raw \<and> bad_index ptr e"
  by (auto simp: found_ok_def)

text \<open>A result that is there, stays inside the input and moves forward; the one error a trusted scan reports is the nesting depth.\<close>

definition depth_error :: "bytes \<Rightarrow> SyntaxError \<Rightarrow> bool" where
  "depth_error src e \<longleftrightarrow> (\<exists>i. e = syntaxError src (int i) ''maximum nesting depth exceeded'')"

lemma depth_errorI [simp]: "depth_error src (syntaxError src (int i) ''maximum nesting depth exceeded'')"
  unfolding depth_error_def by blast

definition safe_seek :: "CompiledPointer \<Rightarrow> bytes \<Rightarrow> nat \<Rightarrow> (SyntaxError, seek) outcome \<Rightarrow> bool" where
  "safe_seek ptr src i out \<longleftrightarrow> (case out of Ok (j, d, raw, perr) \<Rightarrow> i \<le> j \<and> j \<le> length src \<and> found_ok ptr src (raw, perr) | Fail e \<Rightarrow> depth_error src e | NoFuel \<Rightarrow> False)"

lemma safe_seek_simps [simp]:
  "safe_seek ptr src i (Ok (j, d, raw, perr)) \<longleftrightarrow> i \<le> j \<and> j \<le> length src \<and> found_ok ptr src (raw, perr)"
  "safe_seek ptr src i (Fail e) \<longleftrightarrow> depth_error src e" "\<not> safe_seek ptr src i NoFuel"
  by (simp_all add: safe_seek_def)

lemma safe_seek_mono: "safe_seek ptr src j out \<Longrightarrow> i \<le> j \<Longrightarrow> safe_seek ptr src i out"
  by (cases out) auto

lemma safe_bind:
  assumes "safe_seek ptr src i f"
    and "\<And>j d raw perr. i \<le> j \<Longrightarrow> j \<le> length src \<Longrightarrow> found_ok ptr src (raw, perr) \<Longrightarrow> safe_seek ptr src i' (k (j, d, raw, perr))"
  shows "safe_seek ptr src i' (bind_outcome f k)"
  using assms by (cases f) auto

lemma safe_skip:
  assumes "i \<le> length src" "\<And>j. i \<le> j \<Longrightarrow> j \<le> length src \<Longrightarrow> safe_seek ptr src i' (k j)"
  shows "safe_seek ptr src i' (bind_outcome (trustedSkipValue src maxDepth depth i) k)"
  using assms trustedSkipValue_bounds [of src maxDepth depth i] trustedSkipValue_total [of src maxDepth depth i]
    trustedSkipValue_fail [of src maxDepth depth i] unfolding depth_error_def [symmetric]
  by (cases "trustedSkipValue src maxDepth depth i") auto

lemma SkipSpace_bounds: "i \<le> length src \<Longrightarrow> i \<le> SkipSpace src i \<and> SkipSpace src i \<le> length src"
  by (simp add: SkipSpace_eq skip_to_le)

lemma scanKeyLoop_bounds:
  "i \<le> length src \<Longrightarrow> case scanKeyLoop src start i escaped of (a, b, e, j) \<Rightarrow> a = start \<and> i \<le> j \<and> j \<le> length src"
proof (induction "length src - i" arbitrary: i escaped rule: less_induct)
  case less
  show ?case
  proof (cases "i < length src")
    case True
    then have "i + 2 \<le> length src \<Longrightarrow> case scanKeyLoop src start (i + 2) True of (a, b, e, j) \<Rightarrow> a = start \<and> i + 2 \<le> j \<and> j \<le> length src"
      "case scanKeyLoop src start (i + 1) escaped of (a, b, e, j) \<Rightarrow> a = start \<and> i + 1 \<le> j \<and> j \<le> length src"
      by (intro less.hyps; simp)+
    then show ?thesis using True by (auto simp: scanKeyLoop_step [OF True])
  next
    case False
    then show ?thesis using less.prems by (subst scanKeyLoop.simps) (simp add: scanStringSyntax_eq scanBytes.simps Let_def)
  qed
qed

definition walk_safe :: "nat \<Rightarrow> CompiledPointer \<Rightarrow> bytes \<Rightarrow> nat \<Rightarrow> bool \<Rightarrow> bool" where
  "walk_safe n pointer src maxDepth lastWins \<longleftrightarrow>
     (\<forall>depth p i. i \<le> length src \<longrightarrow> value_fuel src i \<le> n \<longrightarrow> safe_seek pointer src i (trustedFind pointer src maxDepth lastWins n depth p i))
     \<and> (\<forall>depth index' p elem found i. i \<le> length src \<longrightarrow> loop_fuel src i \<le> n \<longrightarrow> found_ok pointer src found
          \<longrightarrow> safe_seek pointer src i (trustedElems pointer src maxDepth lastWins n depth index' p elem found i))
     \<and> (\<forall>depth token p found i. i \<le> length src \<longrightarrow> loop_fuel src i \<le> n \<longrightarrow> found_ok pointer src found
          \<longrightarrow> safe_seek pointer src i (trustedMems pointer src maxDepth lastWins n depth token p found i))"

lemma trustedArrayStep_safe:
  assumes f: "\<And>k. i \<le> k \<Longrightarrow> k \<le> length src \<Longrightarrow> safe_seek ptr src k (f depth p k)"
    and e: "\<And>elem found k. i < k \<Longrightarrow> k \<le> length src \<Longrightarrow> found_ok ptr src found \<Longrightarrow> safe_seek ptr src k (e depth index' p elem found k)"
    and i: "i \<le> length src" and r: "found_ok ptr src found"
  shows "safe_seek ptr src i (trustedArrayStep f (trustedSkipValue src maxDepth) e src lastWins depth index' p elem found i)"
proof -
  define next' where "next' = (\<lambda>found i.
            let i = SkipSpace src i in
            if i \<ge> length src then Ok (i, False, if lastWins then found else (None, None))
            else if src ! i = ch_comma then e depth index' p (elem + 1) found (i + 1)
            else if src ! i = ch_rbracket then Ok (i + 1, False, if lastWins then found else (None, None))
            else Ok (i, False, None, None))"
  have nx: "safe_seek ptr src i (next' found' k)" if "i \<le> k" "k \<le> length src" "found_ok ptr src found'" for found' k
    using SkipSpace_bounds [OF that(2)] that safe_seek_mono [OF e [of "SkipSpace src k + 1" found' "elem + 1"], of i]
    by (cases found') (auto simp: next'_def Let_def)
  define k where "k = SkipSpace src i"
  have k: "i \<le> k" "k \<le> length src" using SkipSpace_bounds [OF i] by (simp_all add: k_def)
  have shape: "trustedArrayStep f (trustedSkipValue src maxDepth) e src lastWins depth index' p elem found i =
    (if index' = Some elem then bind_outcome (f depth p k) (\<lambda>(i, done, raw, perr).
          if perr \<noteq> None \<and> \<not> lastWins then Ok (i, done, None, perr)
          else if done then Ok (i, done, raw, perr)
          else next' (if lastWins then raw else fst found, if perr \<noteq> None then perr else snd found) i)
      else bind_outcome (trustedSkipValue src maxDepth depth k) (next' found))"
    unfolding trustedArrayStep_def Let_def next'_def k_def by (rule refl)
  show ?thesis
  proof (cases "index' = Some elem")
    case True
    show ?thesis unfolding shape if_P [OF True] by (rule safe_bind [OF f [OF k]]) (use k r nx in \<open>auto simp: found_ok_def\<close>)
  next
    case False
    show ?thesis unfolding shape if_not_P [OF False] by (rule safe_skip [OF k(2)]) (use k r nx in auto)
  qed
qed

lemma trustedObjectStep_safe:
  assumes f: "\<And>k. i \<le> k \<Longrightarrow> k \<le> length src \<Longrightarrow> safe_seek ptr src k (f depth p k)"
    and e: "\<And>found k. i < k \<Longrightarrow> k \<le> length src \<Longrightarrow> found_ok ptr src found \<Longrightarrow> safe_seek ptr src k (e depth token p found k)"
    and i: "i \<le> length src" and r: "found_ok ptr src found"
  shows "safe_seek ptr src i (trustedObjectStep f (trustedSkipValue src maxDepth) e src lastWins depth token p found i)"
proof -
  define next' where "next' = (\<lambda>found i.
            if SkipSpace src i \<ge> length src then Ok (SkipSpace src i, False, if lastWins then found else (None, None))
            else if src ! SkipSpace src i = ch_comma then e depth token p found (SkipSpace src i + 1)
            else if src ! SkipSpace src i = ch_rbrace then Ok (SkipSpace src i + 1, False, if lastWins then found else (None, None))
            else Ok (SkipSpace src i, False, None, None))"
  have nx: "safe_seek ptr src i (next' found' k)" if "i \<le> k" "k \<le> length src" "found_ok ptr src found'" for found' k
    using SkipSpace_bounds [OF that(2)] that safe_seek_mono [OF e [of "SkipSpace src k + 1" found'], of i]
    by (cases found') (auto simp: next'_def)
  define k where "k = SkipSpace src i"
  have k: "i \<le> k" "k \<le> length src" using SkipSpace_bounds [OF i] by (simp_all add: k_def)
  obtain a b es j where key: "scanKey src k = (a, b, es, j)" by (cases "scanKey src k")
  define c where "c = SkipSpace src j"
  define v where "v = SkipSpace src (c + 1)"
  have shape: "trustedObjectStep f (trustedSkipValue src maxDepth) e src lastWins depth token p found i =
    (if k \<ge> length src then Ok (k, False, if lastWins then found else (None, None))
     else if src ! k = ch_rbrace then Ok (k + 1, False, if lastWins then found else (None, None))
     else if src ! k \<noteq> ch_quote then Ok (k, False, None, None)
     else if c \<ge> length src \<or> src ! c \<noteq> ch_colon then Ok (c, False, None, None)
     else if trustedKeyMatches src token a b es then
       bind_outcome (f depth p v) (\<lambda>(i, done, raw, perr).
              if perr \<noteq> None \<and> \<not> lastWins then Ok (i, done, None, perr)
              else if lastWins then next' (raw, perr) i
              else if done then Ok (i, done, raw, perr)
              else next' found i)
     else bind_outcome (trustedSkipValue src maxDepth depth v) (next' found))"
    unfolding trustedObjectStep_def Let_def k_def [symmetric] key prod.case c_def [symmetric] v_def [symmetric] next'_def by (rule refl)
  show ?thesis
  proof (cases "k < length src")
    case True
    then have j: "k < j" "j \<le> length src" using scanKeyLoop_bounds [of "k + 1" src "k + 1" False] key by (auto simp: scanKey_def)
    have c: "j \<le> c" "c \<le> length src" using SkipSpace_bounds [OF j(2)] by (simp_all add: c_def)
    have v: "i \<le> v" "v \<le> length src" if "c < length src" using SkipSpace_bounds [of "c + 1" src] that c j k by (simp_all add: v_def)
    have m: "safe_seek ptr src i (bind_outcome (f depth p v) (\<lambda>(i, done, raw, perr).
              if perr \<noteq> None \<and> \<not> lastWins then Ok (i, done, None, perr)
              else if lastWins then next' (raw, perr) i
              else if done then Ok (i, done, raw, perr)
              else next' found i))" if "c < length src"
      by (rule safe_bind [OF f [OF v [OF that]]]) (use v [OF that] r nx in \<open>auto simp: found_ok_def\<close>)
    have s: "safe_seek ptr src i (bind_outcome (trustedSkipValue src maxDepth depth v) (next' found))" if "c < length src"
      by (rule safe_skip [OF v(2) [OF that]]) (use v [OF that] r nx in \<open>auto simp: found_ok_def\<close>)
    show ?thesis unfolding shape using m s k c j r True by (cases found) (auto simp: not_le)
  next
    case False
    then show ?thesis unfolding shape using k r by (cases found) auto
  qed
qed

lemma trusted_walk_safe: "walk_safe n pointer src maxDepth lastWins"
proof (induction n)
  case (Suc n)
  note IH = Suc.IH [unfolded walk_safe_def]
  note IHf = IH [THEN conjunct1, rule_format] and IHe = IH [THEN conjunct2, THEN conjunct1, rule_format]
    and IHm = IH [THEN conjunct2, THEN conjunct2, rule_format]
  have "safe_seek pointer src i (trustedFind pointer src maxDepth lastWins (Suc n) depth p i)"
    if i: "i \<le> length src" and n: "value_fuel src i \<le> Suc n" for depth p i
  proof (cases "i < length src")
    case True
    then have m: "Suc i \<le> length src" "loop_fuel src (Suc i) \<le> n" using n by linarith+
    have sp: "Suc i \<le> SkipSpace src (Suc i)" "SkipSpace src (Suc i) \<le> length src" using SkipSpace_bounds [OF m(1)] by simp_all
    then have m': "loop_fuel src (SkipSpace src (Suc i)) \<le> n" using m by linarith
    have el: "safe_seek pointer src i (trustedElems pointer src maxDepth lastWins n (Suc depth) index' (Suc p) 0 (None, None) (SkipSpace src (Suc i)))" for index'
      by (rule safe_seek_mono [OF IHe [OF sp(2) m']]) (use sp(1) in simp_all)
    have me: "safe_seek pointer src i (trustedMems pointer src maxDepth lastWins n (Suc depth) token (Suc p) (None, None) (Suc i))" for token
      by (rule safe_seek_mono [OF IHm [OF m]]) simp_all
    have sk: "safe_seek pointer src i (bind_outcome (trustedSkipValue src maxDepth d i) (\<lambda>i. Ok (i, False, None, x)))" if "found_ok pointer src (None, x)" for d x
      by (rule safe_skip [OF i]) (use that in simp)
    have bad: "bad_index pointer e" if "arrayIndex (Tokens pointer ! p) = Inl e" "p < length (Tokens pointer)" for e
      using that unfolding bad_index_def by (meson nth_mem)
    have cp: "safe_seek pointer src i (trustedCapture (trustedSkipValue src maxDepth) src lastWins depth i)"
      unfolding trustedCapture_def by (rule safe_skip [OF i]) (use i in simp)
    show ?thesis unfolding trusted_Suc trustedFindStep_def trustedFindArray_def trustedFindObject_def Let_def
      using el me sk cp True sp bad by (auto split: sum.splits)
  next
    case False
    have cp: "safe_seek pointer src i (trustedCapture (trustedSkipValue src maxDepth) src lastWins depth i)"
      unfolding trustedCapture_def by (rule safe_skip [OF i]) (use i in simp)
    then show ?thesis unfolding trusted_Suc trustedFindStep_def using False i by simp
  qed
  moreover have "safe_seek pointer src i (trustedElems pointer src maxDepth lastWins (Suc n) depth index' p elem found i)"
    if i: "i \<le> length src" and n: "loop_fuel src i \<le> Suc n" and r: "found_ok pointer src found" for depth index' p elem found i
    unfolding trusted_Suc by (rule trustedArrayStep_safe [OF _ _ i r]) (rule IHf IHe, (use n in \<open>linarith | assumption\<close>)+)+
  moreover have "safe_seek pointer src i (trustedMems pointer src maxDepth lastWins (Suc n) depth token p found i)"
    if i: "i \<le> length src" and n: "loop_fuel src i \<le> Suc n" and r: "found_ok pointer src found" for depth token p found i
    unfolding trusted_Suc by (rule trustedObjectStep_safe [OF _ _ i r]) (rule IHf IHm, (use n in \<open>linarith | assumption\<close>)+)+
  ultimately show ?case unfolding walk_safe_def by blast
qed (simp add: walk_safe_def)


text \<open>
  What a lookup may answer on arbitrary bytes: nothing, a part of the input, the nesting error, or a pointer error of
  the given kind.
\<close>

definition safe_answer :: "bytes \<Rightarrow> (PointerError \<Rightarrow> bool) \<Rightarrow> (rawError, bytes option) outcome \<Rightarrow> bool" where
  "safe_answer src perr r \<longleftrightarrow> (case r of
       Ok None \<Rightarrow> True
     | Ok (Some raw) \<Rightarrow> \<exists>a b. a \<le> b \<and> b \<le> length src \<and> raw = subslice src a b
     | Fail (SyntaxFailure e) \<Rightarrow> \<exists>i. e = syntaxError src (int i) ''maximum nesting depth exceeded''
     | Fail (PointerFailure e) \<Rightarrow> perr e
     | NoFuel \<Rightarrow> False)"

text \<open>C30: on arbitrary bytes, valid JSON or not, the trusted lookups return; a target they return is a contiguous part of the
  input, the only syntax error they report is the nesting depth, and the only pointer errors are those of a token of the pointer
  that is no array index and, for a spelled pointer, the error of compiling it.\<close>

theorem trusted_lookup_safe:
  "safe_answer src (bad_index p) (CompiledPointer_ScanFirstRawTrustedOptions p src d) \<and>
   safe_answer src (bad_index p) (CompiledPointer_GetRawTrusted p src) \<and>
   safe_answer src (\<lambda>e. case CompilePointer pointer of Inl err \<Rightarrow> e = err | Inr q \<Rightarrow> bad_index q e) (ScanFirstRawTrustedOptions src pointer d)"
proof -
  have s: "safe_seek p src (SkipSpace src 0) (trustedFind p src maxDepth lastWins (value_fuel src 0) 0 0 (SkipSpace src 0))" for p maxDepth lastWins
    using trusted_walk_safe [of "value_fuel src 0" p src maxDepth lastWins, unfolded walk_safe_def, THEN conjunct1, rule_format, of "SkipSpace src 0" 0 0]
      SkipSpace_bounds [of 0 src] by simp
  have a: "safe_answer src (bad_index p) (bind_outcome (rawResult (trustedFind p src maxDepth lastWins (value_fuel src 0) 0 0 (SkipSpace src 0))) (\<lambda>(i, raw). Ok raw))" for p maxDepth lastWins
    using s [of p maxDepth lastWins]
    by (auto simp: rawResult_def safe_answer_def safe_seek_def part_of_def depth_error_def split: outcome.splits option.splits)
  have scan: "safe_answer src (bad_index p) (CompiledPointer_ScanFirstRawTrustedOptions p src d)" for p
    unfolding CompiledPointer_ScanFirstRawTrustedOptions_def by (rule a)
  moreover have "safe_answer src (bad_index p) (CompiledPointer_GetRawTrusted p src)" unfolding CompiledPointer_GetRawTrusted_def by (rule a)
  moreover have "safe_answer src (\<lambda>e. case CompilePointer pointer of Inl err \<Rightarrow> e = err | Inr q \<Rightarrow> bad_index q e) (ScanFirstRawTrustedOptions src pointer d)"
    unfolding ScanFirstRawTrustedOptions_def using scan by (cases "CompilePointer pointer") (simp_all add: safe_answer_def)
  ultimately show ?thesis by blast
qed

end
