(* ===== verification/Stage1Stream.thy ===== *)
theory Stage1Stream
  imports TrustedSkip
begin

text \<open>
  Streamed structural bitmaps (\<^verbatim>\<open>x/kernels/stage1_stream.go\<close> and \<^verbatim>\<open>stage1_stream_default.go\<close>): runs of up to 32 blocks
  are classified with the carries threaded through, either into one record per block or
  into the packed list of absolute positions, 32 bits each. A call that the code answers with a panic is \<open>None\<close>.
  The specification is a byte-at-a-time scan.
\<close>

subsection \<open>Records of a block\<close>

definition Stage1ChunkBlocks :: nat where "Stage1ChunkBlocks = 32"

record Stage1Rec =
  RecEmit :: "64 word"
  RecScalar :: "64 word"
  RecEscInStr :: "64 word"
  RecWsOut :: "64 word"
  RecInStr :: "64 word"
  RecBad :: bool
  RecNonASCII :: bool

record Stage1Stream =
  StreamCarry :: Stage1Carry
  StreamFollows :: "64 word"

definition Stage1RecFromMasks :: "Stage1Masks \<Rightarrow> Stage1Stream \<Rightarrow> Stage1Rec \<times> Stage1Stream" where
  "Stage1RecFromMasks m st =
     (let (escaped, carry) = Stage1Escaped (Backslash m) (StreamCarry st);
          quotes = Quote m AND NOT escaped;
          (inString, carry) = Stage1PrefixXOR quotes carry;
          outside = NOT (inString OR quotes);
          openers = quotes AND inString;
          cand = NOT (Whitespace m OR Structural m OR Quote m OR inString);
          starts = cand AND NOT (push_bit 1 cand OR StreamFollows st) in
      (\<lparr>RecEmit = (Structural m OR starts) AND outside OR openers,
        RecScalar = cand,
        RecEscInStr = escaped AND inString,
        RecWsOut = Whitespace m AND outside,
        RecInStr = inString,
        RecBad = Control m AND (inString OR outside AND NOT (Whitespace m)) \<noteq> 0,
        RecNonASCII = NonASCII m\<rparr>,
       \<lparr>StreamCarry = carry, StreamFollows = drop_bit 63 cand\<rparr>))"

text \<open>Block \<open>i\<close> of a chunk.\<close>

definition block64 :: "bytes \<Rightarrow> nat \<Rightarrow> bytes" where
  "block64 p i = take 64 (drop (i * 64) p)"

primrec recordLoop :: "nat \<Rightarrow> bytes \<Rightarrow> nat \<Rightarrow> Stage1Stream \<Rightarrow> Stage1Rec list \<times> Stage1Stream" where
  "recordLoop 0 p i st = ([], st)"
| "recordLoop (Suc k) p i st =
     (let (r, st) = Stage1RecFromMasks (Stage1Block (block64 p i)) st; (rs, st) = recordLoop k p (i + 1) st in (r # rs, st))"

definition Stage1BlocksGP :: "bytes \<Rightarrow> nat \<Rightarrow> Stage1Stream \<Rightarrow> (Stage1Rec list \<times> Stage1Stream) option" where
  "Stage1BlocksGP p nblocks st =
     (if nblocks = 0 \<or> nblocks > Stage1ChunkBlocks then None else Some (recordLoop nblocks p 0 st))"

subsection \<open>Packed positions\<close>

record Stage1IndexStream =
  IndexCarry :: Stage1Carry
  Follows :: "64 word"
  PreviousIn :: "64 word"
  IndexBad :: bool
  IndexNonASCII :: bool
  IndexEscaped :: bool

record Stage1CursorMeta =
  CursorEscaped :: bool
  CursorNonASCII :: bool

record Stage1ValidMeta =
  ValidEscInStr :: "64 word list"
  ValidNonASCII :: "32 word"

record Stage1IndexMeta =
  MetaEscInStr :: "64 word list"
  MetaInStr :: "64 word list"
  MetaNonASCII :: "32 word"
  Sample :: bool
  WsCount :: "32 word"
  EmitCount :: "32 word"
  InStrCount :: "32 word"
  EscCount :: "32 word"

datatype index_mode = IndexFull | IndexCursor | IndexValid

definition stage1ZeroByteMaskExact :: "64 word \<Rightarrow> 64 word" where
  "stage1ZeroByteMaskExact x =
     NOT (((x AND 0x7f7f7f7f7f7f7f7f) + 0x7f7f7f7f7f7f7f7f) OR x OR 0x7f7f7f7f7f7f7f7f) AND 0x8080808080808080"

definition stage1ByteEqExact :: "64 word \<Rightarrow> byte \<Rightarrow> 64 word" where
  "stage1ByteEqExact x v = stage1ZeroByteMaskExact (x XOR ucast v * 0x0101010101010101)"

definition stage1CompressHighBytes :: "64 word \<Rightarrow> 64 word" where
  "stage1CompressHighBytes x = drop_bit 56 (x * 0x0002040810204081)"

definition stage1BlockByteMaskPortable :: "bytes \<Rightarrow> byte \<Rightarrow> 64 word" where
  "stage1BlockByteMaskPortable block v =
     foldl (\<lambda>m w. m OR push_bit (w * 8) (stage1CompressHighBytes (stage1ByteEqExact (le64 block (w * 8)) v))) 0 [0..<8]"

text \<open>The loop that empties a mask into positions.\<close>

function emitPositions :: "32 word \<Rightarrow> 64 word \<Rightarrow> 32 word list" where
  "emitPositions blockBase m =
     (if m \<noteq> 0 then (blockBase + of_nat (TrailingZeros64 m)) # emitPositions blockBase (m AND (m - 1)) else [])"
  by pat_completeness auto
termination by (relation "measure (\<lambda>(b, m). unat m)") (simp_all add: clear_lowest_less)

declare emitPositions.simps [simp del]

definition noteValid :: "nat \<Rightarrow> 64 word \<Rightarrow> bool \<Rightarrow> Stage1ValidMeta \<Rightarrow> Stage1ValidMeta" where
  "noteValid block escInString nonASCII vm =
     vm\<lparr>ValidEscInStr := (ValidEscInStr vm)[block := escInString],
        ValidNonASCII := (if nonASCII then ValidNonASCII vm OR push_bit block 1 else ValidNonASCII vm)\<rparr>"

definition noteIndex :: "nat \<Rightarrow> Stage1Masks \<Rightarrow> 64 word \<Rightarrow> 64 word \<Rightarrow> 64 word \<Rightarrow> Stage1IndexMeta \<Rightarrow> Stage1IndexMeta" where
  "noteIndex block masks emit inString escInString xm =
     (let xm = xm\<lparr>MetaEscInStr := (MetaEscInStr xm)[block := escInString], MetaInStr := (MetaInStr xm)[block := inString],
            MetaNonASCII := (if NonASCII masks then MetaNonASCII xm OR push_bit block 1 else MetaNonASCII xm)\<rparr> in
      if Sample xm then
        xm\<lparr>WsCount := WsCount xm + of_nat (OnesCount64 (Whitespace masks)), EmitCount := EmitCount xm + of_nat (OnesCount64 emit),
           InStrCount := InStrCount xm + of_nat (OnesCount64 inString), EscCount := EscCount xm + of_nat (OnesCount64 escInString)\<rparr>
      else xm)"

record index_run =
  stream :: Stage1IndexStream
  validMeta :: "Stage1ValidMeta option"
  indexMeta :: "Stage1IndexMeta option"
  written :: "32 word list"

definition indexBlock :: "bytes \<Rightarrow> 32 word \<Rightarrow> index_mode \<Rightarrow> nat \<Rightarrow> index_run \<Rightarrow> index_run" where
  "indexBlock p base mode block run =
     (let bytes = block64 p block; masks = Stage1Block bytes; st = stream run;
          (escaped, carry) = Stage1Escaped (Backslash masks) (IndexCarry st);
          quotes = Quote masks AND NOT escaped;
          (inString, carry) = Stage1PrefixXOR quotes carry;
          outside = NOT (inString OR quotes);
          openers = quotes AND inString;
          cand = NOT (Whitespace masks OR Structural masks OR Quote masks OR inString);
          starts = cand AND NOT (push_bit 1 cand OR Follows st);
          emit = (Structural masks OR starts) AND outside OR openers;
          closers = (push_bit 1 inString OR PreviousIn st) AND NOT inString;
          m = emit;
          m = (if mode \<noteq> IndexValid then m OR closers else m);
          m = (if mode = IndexCursor then m AND NOT (stage1BlockByteMaskPortable bytes ch_colon) else m);
          escInString = escaped AND inString in
      \<lparr>stream = \<lparr>IndexCarry = carry, Follows = drop_bit 63 cand, PreviousIn = drop_bit 63 inString,
           IndexBad = (IndexBad st \<or> Control masks AND (inString OR outside AND NOT (Whitespace masks)) \<noteq> 0),
           IndexNonASCII = (IndexNonASCII st \<or> NonASCII masks), IndexEscaped = (IndexEscaped st \<or> escInString \<noteq> 0)\<rparr>,
       validMeta = map_option (noteValid block escInString (NonASCII masks)) (validMeta run),
       indexMeta = map_option (noteIndex block masks emit inString escInString) (indexMeta run),
       written = written run @ emitPositions (base + of_nat (block * 64)) m\<rparr>)"

primrec indexLoop :: "nat \<Rightarrow> bytes \<Rightarrow> 32 word \<Rightarrow> index_mode \<Rightarrow> nat \<Rightarrow> index_run \<Rightarrow> index_run" where
  "indexLoop 0 p base mode block run = run"
| "indexLoop (Suc k) p base mode block run = indexLoop k p base mode (block + 1) (indexBlock p base mode block run)"

definition clearedIndexMeta :: "Stage1IndexMeta \<Rightarrow> Stage1IndexMeta" where
  "clearedIndexMeta xm = \<lparr>MetaEscInStr = replicate Stage1ChunkBlocks 0, MetaInStr = replicate Stage1ChunkBlocks 0, MetaNonASCII = 0,
     Sample = Sample xm, WsCount = 0, EmitCount = 0, InStrCount = 0, EscCount = 0\<rparr>"

text \<open>\<open>room\<close> is the length of the output slice.\<close>

definition stage1IndexBlocksPortable :: "bytes \<Rightarrow> nat \<Rightarrow> 32 word \<Rightarrow> Stage1IndexStream \<Rightarrow> nat \<Rightarrow> index_mode
    \<Rightarrow> Stage1ValidMeta option \<Rightarrow> Stage1IndexMeta option \<Rightarrow> index_run option" where
  "stage1IndexBlocksPortable p nblocks base st room mode vm xm =
     (if nblocks = 0 \<or> nblocks > Stage1ChunkBlocks then None
      else if room < nblocks * 64 + 64 then None
      else if mode = IndexValid \<and> vm = None then None
      else Some (indexLoop nblocks p base mode 0
        \<lparr>stream = st, validMeta = map_option (\<lambda>m. m\<lparr>ValidNonASCII := 0\<rparr>) vm, indexMeta = map_option clearedIndexMeta xm, written = []\<rparr>))"

definition Stage1IndexBlocks :: "bytes \<Rightarrow> nat \<Rightarrow> 32 word \<Rightarrow> Stage1IndexStream \<Rightarrow> nat \<Rightarrow> (32 word list \<times> Stage1IndexStream) option" where
  "Stage1IndexBlocks p nblocks base st room =
     map_option (\<lambda>r. (written r, stream r)) (stage1IndexBlocksPortable p nblocks base st room IndexFull None None)"

definition Stage1IndexBlocksMeta :: "bytes \<Rightarrow> nat \<Rightarrow> 32 word \<Rightarrow> Stage1IndexStream \<Rightarrow> nat \<Rightarrow> Stage1IndexMeta
    \<Rightarrow> (32 word list \<times> Stage1IndexStream \<times> Stage1IndexMeta) option" where
  "Stage1IndexBlocksMeta p nblocks base st room xm =
     map_option (\<lambda>r. (written r, stream r, the (indexMeta r))) (stage1IndexBlocksPortable p nblocks base st room IndexFull None (Some xm))"

definition Stage1CursorBlocks :: "bytes \<Rightarrow> nat \<Rightarrow> 32 word \<Rightarrow> Stage1IndexStream \<Rightarrow> nat \<Rightarrow> (32 word list \<times> Stage1IndexStream) option" where
  "Stage1CursorBlocks p nblocks base st room =
     map_option (\<lambda>r. (written r, stream r)) (stage1IndexBlocksPortable p nblocks base st room IndexCursor None None)"

definition Stage1CursorBlocksMeta :: "bytes \<Rightarrow> nat \<Rightarrow> 32 word \<Rightarrow> Stage1IndexStream \<Rightarrow> nat
    \<Rightarrow> (32 word list \<times> Stage1IndexStream \<times> Stage1CursorMeta) option" where
  "Stage1CursorBlocksMeta p nblocks base st room =
     map_option (\<lambda>r. let st' = stream r; meta = \<lparr>CursorEscaped = IndexEscaped st', CursorNonASCII = IndexNonASCII st'\<rparr> in
         (written r, st'\<lparr>IndexNonASCII := IndexNonASCII st \<or> CursorNonASCII meta, IndexEscaped := IndexEscaped st \<or> CursorEscaped meta\<rparr>, meta))
       (stage1IndexBlocksPortable p nblocks base (st\<lparr>IndexNonASCII := False, IndexEscaped := False\<rparr>) room IndexCursor None None)"

definition Stage1ValidBlocks :: "bytes \<Rightarrow> nat \<Rightarrow> 32 word \<Rightarrow> Stage1IndexStream \<Rightarrow> nat \<Rightarrow> Stage1ValidMeta
    \<Rightarrow> (32 word list \<times> Stage1IndexStream \<times> Stage1ValidMeta) option" where
  "Stage1ValidBlocks p nblocks base st room vm =
     map_option (\<lambda>r. (written r, stream r, the (validMeta r))) (stage1IndexBlocksPortable p nblocks base st room IndexValid (Some vm) None)"

definition Stage1ValidBlocksCoarse :: "bytes \<Rightarrow> nat \<Rightarrow> 32 word \<Rightarrow> Stage1IndexStream \<Rightarrow> nat \<Rightarrow> Stage1ValidMeta
    \<Rightarrow> (32 word list \<times> Stage1IndexStream \<times> Stage1ValidMeta) option" where
  "Stage1ValidBlocksCoarse p nblocks base st room vm =
     map_option (\<lambda>r. let vm = the (validMeta r) in
         (written r, stream r, if ValidNonASCII vm \<noteq> 0 then vm\<lparr>ValidNonASCII := drop_bit (Stage1ChunkBlocks - nblocks) (NOT 0)\<rparr> else vm))
       (stage1IndexBlocksPortable p nblocks base st room IndexValid (Some vm) None)"

subsection \<open>The byte-at-a-time scan\<close>

text \<open>
  The state in front of a byte: whether it is escaped, whether a string is open, whether the byte before it is part of
  a scalar. The functions below say what the scan finds out about a byte.
\<close>

type_synonym scan = "bool \<times> bool \<times> bool"

abbreviation (input) is_space :: "byte \<Rightarrow> bool" where "is_space c \<equiv> c \<in> {ch_space, ch_tab, ch_lf, ch_cr}"
abbreviation (input) is_structural :: "byte \<Rightarrow> bool" where
  "is_structural c \<equiv> c \<in> {ch_lbrace, ch_rbrace, ch_lbracket, ch_rbracket, ch_colon, ch_comma}"

fun toggles :: "scan \<Rightarrow> byte \<Rightarrow> bool" where "toggles (e, s, f) c = (c = ch_quote \<and> \<not> e)"
fun stays_inside :: "scan \<Rightarrow> byte \<Rightarrow> bool" where "stays_inside (e, s, f) c = (s \<noteq> toggles (e, s, f) c)"

definition scalar_part :: "scan \<Rightarrow> byte \<Rightarrow> bool" where
  "scalar_part st c \<longleftrightarrow> \<not> (is_space c \<or> is_structural c \<or> c = ch_quote \<or> stays_inside st c)"

fun advance :: "scan \<Rightarrow> byte \<Rightarrow> scan" where
  "advance (e, s, f) c = (c = ch_backslash \<and> \<not> e, stays_inside (e, s, f) c, scalar_part (e, s, f) c)"

text \<open>Structural bytes, opening quotes and first bytes of scalars are grammar events.\<close>

fun grammar_event :: "scan \<Rightarrow> byte \<Rightarrow> bool" where
  "grammar_event (e, s, f) c =
     ((is_structural c \<or> scalar_part (e, s, f) c \<and> \<not> f) \<and> \<not> (stays_inside (e, s, f) c \<or> toggles (e, s, f) c)
      \<or> toggles (e, s, f) c \<and> stays_inside (e, s, f) c)"

fun closing_quote :: "scan \<Rightarrow> byte \<Rightarrow> bool" where "closing_quote (e, s, f) c = (s \<and> \<not> stays_inside (e, s, f) c)"
fun escape_target :: "scan \<Rightarrow> byte \<Rightarrow> bool" where "escape_target (e, s, f) c = (e \<and> stays_inside (e, s, f) c)"

definition stray_control :: "scan \<Rightarrow> byte \<Rightarrow> bool" where
  "stray_control st c \<longleftrightarrow> c < 0x20 \<and> (stays_inside st c \<or> \<not> (stays_inside st c \<or> toggles st c) \<and> \<not> is_space c)"

definition outside_space :: "scan \<Rightarrow> byte \<Rightarrow> bool" where
  "outside_space st c \<longleftrightarrow> is_space c \<and> \<not> (stays_inside st c \<or> toggles st c)"

primrec state_at :: "scan \<Rightarrow> bytes \<Rightarrow> nat \<Rightarrow> scan" where
  "state_at st p 0 = st"
| "state_at st p (Suc k) = advance (state_at st p k) (p ! k)"

text \<open>Positions of the bytes with a property.\<close>

definition found :: "(scan \<Rightarrow> byte \<Rightarrow> bool) \<Rightarrow> scan \<Rightarrow> bytes \<Rightarrow> nat \<Rightarrow> bool" where
  "found P st p k = P (state_at st p k) (p ! k)"

subsection \<open>Masks\<close>

lemma Stage1Block_NonASCII: "NonASCII (Stage1Block block) \<longleftrightarrow> (\<exists>k<64. block ! k \<ge> 0x80)"
proof -
  let ?m = "push_bit 40 0xFF :: 64 word"
  let ?p = "stage1Pack8 block"
  have ff: "(0xFF :: 64 word) = Bit_Operations.mask 8" by (simp add: mask_eq_exp_minus_1)
  have m: "bit ?m n \<longleftrightarrow> (\<exists>j<8. n = 40 + j)" for n
  proof -
    have "bit ?m n \<longleftrightarrow> 40 \<le> n \<and> n < 48" unfolding ff bit_push_bit_iff bit_mask_iff by auto
    also have "\<dots> \<longleftrightarrow> (\<exists>j<8. n = 40 + j)" by (auto intro: exI [of _ "n - 40"])
    finally show ?thesis .
  qed
  have one: "?p (8 * g) AND ?m \<noteq> 0 \<longleftrightarrow> (\<exists>j<8. block ! (8 * g + j) \<ge> 0x80)" for g
  proof -
    have "?p (8 * g) AND ?m \<noteq> 0 \<longleftrightarrow> (\<exists>n. bit (?p (8 * g)) n \<and> bit ?m n)" unfolding zero_iff_bits bit_and_iff by blast
    also have "\<dots> \<longleftrightarrow> (\<exists>j<8. bit (?p (8 * g)) (40 + j))" unfolding m by blast
    also have "\<dots> \<longleftrightarrow> (\<exists>j<8. block ! (8 * g + j) \<ge> 0x80)" using stage1Pack8_bit [of _ 40 block "8 * g"] by (auto simp: stage1_class_bit)
    finally show ?thesis .
  qed
  have "NonASCII (Stage1Block block) \<longleftrightarrow> (\<exists>g<8. \<exists>j<8. block ! (8 * g + j) \<ge> 0x80)"
  proof -
    have r: "a OR b \<noteq> 0 \<longleftrightarrow> a \<noteq> 0 \<or> b \<noteq> 0" for a b :: "64 word" by (simp add: or_eq_0_iff)
    have g: "(\<exists>g<8. P g) \<longleftrightarrow> P 0 \<or> P 1 \<or> P 2 \<or> P 3 \<or> P 4 \<or> P 5 \<or> P 6 \<or> P 7" for P :: "nat \<Rightarrow> bool"
    proof
      assume "\<exists>g<8. P g"
      then obtain g where "g < 8" "P g" by blast
      moreover then have "g = 0 \<or> g = 1 \<or> g = 2 \<or> g = 3 \<or> g = 4 \<or> g = 5 \<or> g = 6 \<or> g = 7" by linarith
      ultimately show "P 0 \<or> P 1 \<or> P 2 \<or> P 3 \<or> P 4 \<or> P 5 \<or> P 6 \<or> P 7" by blast
    next
      have "(0::nat) < 8" "(1::nat) < 8" "(2::nat) < 8" "(3::nat) < 8" "(4::nat) < 8" "(5::nat) < 8" "(6::nat) < 8" "(7::nat) < 8" by simp_all
      then show "P 0 \<or> P 1 \<or> P 2 \<or> P 3 \<or> P 4 \<or> P 5 \<or> P 6 \<or> P 7 \<Longrightarrow> \<exists>g<8. P g" by blast
    qed
    have e: "(8::nat) * 0 = 0" "(8::nat) * 1 = 8" "(8::nat) * 2 = 16" "(8::nat) * 3 = 24" "(8::nat) * 4 = 32" "(8::nat) * 5 = 40" "(8::nat) * 6 = 48" "(8::nat) * 7 = 56"
      by simp_all
    show ?thesis unfolding one [symmetric] unfolding g unfolding e
      unfolding Stage1Block_def stage1BlockPortable_def Let_def Stage1Masks.simps bit.conj_disj_distrib2 r
      by (simp only: disj_assoc)
  qed
  also have "\<dots> \<longleftrightarrow> (\<exists>k<64. block ! k \<ge> 0x80)"
  proof
    assume "\<exists>g<8. \<exists>j<8. block ! (8 * g + j) \<ge> 0x80"
    then obtain g j where "g < 8" "j < 8" "block ! (8 * g + j) \<ge> 0x80" by blast
    moreover then have "8 * g + j < 64" by linarith
    ultimately show "\<exists>k<64. block ! k \<ge> 0x80" by blast
  next
    assume "\<exists>k<64. block ! k \<ge> 0x80"
    then obtain k where "k < 64" "block ! k \<ge> 0x80" by blast
    moreover then have "k div 8 < 8" "k mod 8 < 8" "8 * (k div 8) + k mod 8 = k" by (simp_all add: less_mult_imp_div_less)
    ultimately show "\<exists>g<8. \<exists>j<8. block ! (8 * g + j) \<ge> 0x80" by metis
  qed
  finally show ?thesis .
qed

lemma emitPositions_bits:
  "k + n = 64 \<Longrightarrow> emitPositions b (bits_from m k) = map (\<lambda>k. b + of_nat k) (filter (bit m) [k..<64])"
proof (induction n arbitrary: k)
  case 0
  then show ?case by (simp add: emitPositions.simps)
next
  case (Suc n)
  have next_k: "emitPositions b (bits_from m (Suc k)) = map (\<lambda>k. b + of_nat k) (filter (bit m) [Suc k..<64])"
    using Suc.prems by (intro Suc.IH) simp
  have up: "[k..<64] = k # [Suc k..<64]" using Suc.prems by (intro upt_conv_Cons) simp
  show ?case
  proof (cases "bit m k")
    case True
    then show ?thesis using bits_from_set [OF True] next_k by (subst emitPositions.simps) (simp add: up)
  next
    case False
    then show ?thesis using next_k by (simp add: bits_from_unset up)
  qed
qed

lemma emitPositions_filter: "emitPositions b m = map (\<lambda>k. b + of_nat k) (filter (bit m) [0..<64])"
  using emitPositions_bits [of 0 64 b m] by simp

text \<open>The exact byte mask and its compression.\<close>

lemma zero_exact_byte:
  fixes v :: byte
  shows "NOT (((v AND 0x7f) + 0x7f) OR v OR 0x7f) AND 0x80 = (if v = 0 then 0x80 else 0)"
proof -
  define u where "u = v AND 0x7f"
  have u: "u \<le> 0x7f" unfolding u_def by (rule word_and_le1)
  have v: "v = 0 \<longleftrightarrow> u = 0 \<and> \<not> bit v 7"
  proof
    assume r: "u = 0 \<and> \<not> bit v 7"
    have "\<not> bit v n" if "n < 8" for n
    proof (cases "n = 7")
      case False
      have "bit u n \<longleftrightarrow> bit v n" unfolding u_def
        using that False mask_eq_exp_minus_1 [of 7, where ?'a = "8 word"] bit_mask_iff [of 7 n, where ?'a = "8 word"]
        by (simp add: bit_and_iff)
      then show ?thesis using r by simp
    qed (use r in simp)
    then show "v = 0" by (intro bit_word_eqI) simp
  qed (simp add: u_def)
  have "bit (u + 0x7f) 7 \<longleftrightarrow> u \<noteq> 0"
  proof -
    have "0x80 \<le> u + 0x7f \<longleftrightarrow> u \<noteq> 0" using u by unat_arith auto
    then show ?thesis by (simp add: bit7)
  qed
  then have hi: "bit ((u + 0x7f) OR v OR 0x7f) 7 \<longleftrightarrow> u \<noteq> 0 \<or> bit v 7"
    by (simp add: bit_or_iff bit_numeral_rec)
  have no: "bit (NOT w) 7 \<longleftrightarrow> \<not> bit w 7" for w :: byte by (simp add: bit_not_iff)
  show ?thesis unfolding u_def [symmetric] v and_high no hi by (simp only: de_Morgan_disj not_not)
qed

lemma lane_zero_exact: "k < 8 \<Longrightarrow> lane k (stage1ZeroByteMaskExact x) = (if lane k x = 0 then 0x80 else 0)"
proof -
  assume k: "k < 8"
  have c: "lane j 0x7f7f7f7f7f7f7f7f = 0x7f" if "j < 8" for j
    using lane_spread [OF that, of "0x7f"] by simp
  have small: "unat (lane j x AND 0x7f) \<le> 127" for j
    using word_and_le1 [of "lane j x" "0x7f"] by (simp add: word_le_nat_alt)
  have "lane k ((x AND 0x7f7f7f7f7f7f7f7f) + 0x7f7f7f7f7f7f7f7f) = (lane k x AND 0x7f) + 0x7f"
  proof (subst lane_add [OF k])
    show "unat (lane j (x AND 0x7f7f7f7f7f7f7f7f)) + unat (lane j 0x7f7f7f7f7f7f7f7f) < 256" if "j < k" for j
      using small [of j] c [of j] that k by simp
    show "lane k (x AND 0x7f7f7f7f7f7f7f7f) + lane k 0x7f7f7f7f7f7f7f7f = (lane k x AND 0x7f) + 0x7f" using c [OF k] by simp
  qed
  then show ?thesis using zero_exact_byte [of "lane k x"] k
    unfolding stage1ZeroByteMaskExact_def by (simp only: lane_and lane_or lane_not lane_consts [OF k] c [OF k])
qed

lemma lane_byte_eq: "k < 8 \<Longrightarrow> lane k (stage1ByteEqExact x v) = (if lane k x = v then 0x80 else 0)"
proof -
  have "a XOR v = 0 \<longleftrightarrow> a = v" for a :: byte by (auto simp: bit_eq_iff bit_xor_iff)
  then show "k < 8 \<Longrightarrow> ?thesis" by (simp add: stage1ByteEqExact_def lane_zero_exact)
qed

fun high_bytes :: "bool list \<Rightarrow> 64 word" where
  "high_bytes [] = 0"
| "high_bytes (b # bs) = (if b then 0x80 else 0) + 256 * high_bytes bs"

fun packed :: "bool list \<Rightarrow> 64 word" where
  "packed [] = 0"
| "packed (b # bs) = (if b then 1 else 0) + 2 * packed bs"

lemma compress_high_bytes:
  "stage1CompressHighBytes (high_bytes [b0, b1, b2, b3, b4, b5, b6, b7]) = packed [b0, b1, b2, b3, b4, b5, b6, b7]"
  unfolding stage1CompressHighBytes_def
  by (cases b0; cases b1; cases b2; cases b3; cases b4; cases b5; cases b6; cases b7; simp)

lemma bit_packed: "length bs \<le> 64 \<Longrightarrow> bit (packed bs) j \<longleftrightarrow> j < length bs \<and> bs ! j"
proof (induction bs arbitrary: j)
  case (Cons b bs)
  have one: "bit (if b then 1 else 0 :: 64 word) j \<longleftrightarrow> b \<and> j = 0" for j by (simp add: bit_1_iff)
  have "(if b then 1 else 0) AND push_bit 1 (packed bs) = 0"
    by (rule bit_word_eqI) (simp only: bit_and_iff one bit_push_bit_iff bit_0_eq bot_fun_def, simp)
  moreover have "2 * packed bs = push_bit 1 (packed bs)" by (simp add: push_bit_eq_mult mult.commute)
  ultimately have "packed (b # bs) = (if b then 1 else 0) OR push_bit 1 (packed bs)" by (simp only: packed.simps disjunctive_add_eq_or)
  moreover have ih: "bit (packed bs) i \<longleftrightarrow> i < length bs \<and> bs ! i" for i using Cons.prems by (intro Cons.IH) simp
  ultimately have "bit (packed (b # bs)) j \<longleftrightarrow> b \<and> j = 0 \<or> 1 \<le> j \<and> j < 64 \<and> j - 1 < length bs \<and> bs ! (j - 1)"
    by (simp only: bit_or_iff one bit_push_bit_iff ih len_num1 len_bit0) simp
  then show ?case using Cons.prems by (cases j) (auto simp del: packed.simps)
qed simp

lemma le_word_high_bytes: "le_word (map (\<lambda>b. if b then 0x80 else 0) bs) = high_bytes bs"
proof (induction bs)
  case (Cons b bs)
  have "le_word (map (\<lambda>b. if b then 0x80 else 0) (b # bs)) = ucast (if b then 0x80 else 0 :: byte) + 256 * high_bytes bs"
    unfolding list.map le_word_Cons_add Cons.IH by (rule refl)
  then show ?case by simp
qed simp

lemma compress_lanes:
  assumes "\<And>k. k < 8 \<Longrightarrow> lane k x = (if P k then 0x80 else 0)"
  shows "bit (stage1CompressHighBytes x) j \<longleftrightarrow> j < 8 \<and> P j"
proof -
  have u: "[0..<8] = [0, 1, 2, 3, 4, 5, 6, 7::nat]" by (simp add: upt_rec)
  have "lanes x = map (\<lambda>b. if b then 0x80 else 0) (map P [0..<8])"
    by (rule nth_equalityI) (simp_all add: assms)
  then have "x = high_bytes (map P [0..<8])" using le_word_lanes [of x] by (simp only: le_word_high_bytes)
  then have "stage1CompressHighBytes x = packed (map P [0..<8])" unfolding u list.map by (simp only: compress_high_bytes)
  then show ?thesis by (auto simp: bit_packed)
qed

lemma bit_fold_or: "bit (foldl (\<lambda>m w. m OR f w) a ws) k \<longleftrightarrow> bit a k \<or> (\<exists>w\<in>set ws. bit (f w :: 64 word) k)"
  by (induction ws arbitrary: a) (auto simp: bit_or_iff)

lemma stage1BlockByteMask_bit:
  assumes "length block = 64"
  shows "bit (stage1BlockByteMaskPortable block v) k \<longleftrightarrow> k < 64 \<and> block ! k = v"
proof -
  have part: "bit (push_bit (w * 8) (stage1CompressHighBytes (stage1ByteEqExact (le64 block (w * 8)) v))) k
      \<longleftrightarrow> k < 64 \<and> k div 8 = w \<and> block ! k = v" if w: "w < 8" for w
  proof -
    have l: "lane j (le64 block (w * 8)) = block ! (w * 8 + j)" if "j < 8" for j
      using that w assms unfolding le64_def by (subst lane_le_word) (auto simp: subslice_def)
    have "bit (stage1CompressHighBytes (stage1ByteEqExact (le64 block (w * 8)) v)) j \<longleftrightarrow> j < 8 \<and> block ! (w * 8 + j) = v" for j
      by (rule compress_lanes) (simp add: lane_byte_eq l)
    then have "bit (push_bit (w * 8) (stage1CompressHighBytes (stage1ByteEqExact (le64 block (w * 8)) v))) k
      \<longleftrightarrow> k < 64 \<and> (w * 8 \<le> k \<and> k - w * 8 < 8) \<and> block ! (w * 8 + (k - w * 8)) = v" unfolding bit_push_bit_iff by auto
    also have "\<dots> \<longleftrightarrow> k < 64 \<and> (w * 8 \<le> k \<and> k - w * 8 < 8) \<and> block ! k = v" by auto
    also have "w * 8 \<le> k \<and> k - w * 8 < 8 \<longleftrightarrow> k div 8 = w"
      using div_nat_eqI [of 8 w k] div_mult_mod_eq [of k 8] mod_less_divisor [of 8 k] by (auto simp: mult.commute)
    finally show ?thesis by blast
  qed
  have "k div 8 < 8" if "k < 64" using that by (simp add: less_mult_imp_div_less)
  then show ?thesis unfolding stage1BlockByteMaskPortable_def bit_fold_or using part by auto
qed

end
