(* ===== verification/Stage1Scan.thy ===== *)
theory Stage1Scan
  imports Stage1Stream
begin

text \<open>
  The streamed bitmaps compute the byte-at-a-time scan: one block first, with the carries in front of and behind it, then
  runs of blocks.
\<close>

subsection \<open>A block\<close>

lemma state_at_parts:
  "state_at (e, s, f) p k = (escaped_at (\<lambda>j. p ! j = ch_backslash) e k, inside_at (quote_at p e) s k, snd (snd (state_at (e, s, f) p k)))"
proof (induction k)
  case (Suc k)
  show ?case unfolding state_at.simps by (subst (1 2) Suc) (simp add: quote_at_def)
qed simp

text \<open>What both kernels make of the masks of a block, and the carries behind it.\<close>

lemma block_scan:
  fixes block :: bytes and st :: scan
  defines "M \<equiv> Stage1Block block" and "Z \<equiv> \<lambda>P. found P st block"
  assumes st: "st = (e, s, f)"
  obtains escaped ins c1 where
    "Stage1Escaped (Backslash M) (carry_word e s) = (escaped, c1)"
    "Stage1PrefixXOR (Quote M AND NOT escaped) c1 = (ins, carry_word (fst (state_at st block 64)) (fst (snd (state_at st block 64))))"
    "\<And>k. k < 64 \<Longrightarrow> bit escaped k = fst (state_at st block k)"
    "\<And>k. k < 64 \<Longrightarrow> bit (Quote M AND NOT escaped) k = Z toggles k"
    "\<And>k. k < 64 \<Longrightarrow> bit ins k = Z stays_inside k"
    "\<And>k. k < 64 \<Longrightarrow> bit (NOT (Whitespace M OR Structural M OR Quote M OR ins)) k = Z scalar_part k"
proof -
  have parts: "state_at st block k = (escaped_at (\<lambda>j. block ! j = ch_backslash) e k, inside_at (quote_at block e) s k, snd (snd (state_at st block k)))" for k
    unfolding st by (rule state_at_parts)
  define e' where "e' = escaped_at (\<lambda>j. block ! j = ch_backslash) e"
  define s' where "s' = inside_at (quote_at block e) s"
  note parts' = parts [folded e'_def s'_def]
  note strings = Stage1_strings [OF Stage1Block_bits(4,3), where block = block and e = e and s = s, folded M_def e'_def s'_def]
  obtain escaped ins where *: "Stage1Escaped (Backslash M) (carry_word e s) = (escaped, carry_word (e' 64) s)"
    "Stage1PrefixXOR (Quote M AND NOT escaped) (carry_word (e' 64) s) = (ins, carry_word (e' 64) (s' 64))"
    "\<And>k. k < 64 \<Longrightarrow> bit escaped k = e' k" "\<And>k. k < 64 \<Longrightarrow> bit (Quote M AND NOT escaped) k = quote_at block e k"
    "\<And>k. k < 64 \<Longrightarrow> bit ins k = s' (Suc k)"
    by (rule strings) (rule that)
  have T: "Z toggles k = quote_at block e k" for k
    unfolding Z_def found_def by (subst parts') (simp add: quote_at_def e'_def)
  have I: "Z stays_inside k = s' (Suc k)" for k
  proof -
    have "s' (Suc k) = (s' k \<noteq> quote_at block e k)" by (simp add: s'_def)
    then show ?thesis unfolding T [symmetric] Z_def found_def by (subst parts', subst (asm) parts') simp
  qed
  have C: "bit (NOT (Whitespace M OR Structural M OR Quote M OR ins)) k = Z scalar_part k" if "k < 64" for k
  proof -
    have "Z scalar_part k \<longleftrightarrow> \<not> (is_space (block ! k) \<or> is_structural (block ! k) \<or> block ! k = ch_quote \<or> Z stays_inside k)"
      by (simp add: Z_def found_def scalar_part_def)
    then show ?thesis using that *(5) [OF that] I [of k]
      unfolding bit_not_iff bit_or_iff M_def Stage1Block_bits by simp
  qed
  show ?thesis
  proof (rule that)
    show "Stage1Escaped (Backslash M) (carry_word e s) = (escaped, carry_word (e' 64) s)" by (rule *(1))
    show "Stage1PrefixXOR (Quote M AND NOT escaped) (carry_word (e' 64) s)
        = (ins, carry_word (fst (state_at st block 64)) (fst (snd (state_at st block 64))))" unfolding *(2) by (subst (1 2) parts') simp
    show "k < 64 \<Longrightarrow> bit escaped k = fst (state_at st block k)" for k using *(3) [of k] by (subst parts') simp
    show "k < 64 \<Longrightarrow> bit (Quote M AND NOT escaped) k = Z toggles k" for k using *(4) T by simp
    show "k < 64 \<Longrightarrow> bit ins k = Z stays_inside k" for k using *(5) I by simp
    show "k < 64 \<Longrightarrow> bit (NOT (Whitespace M OR Structural M OR Quote M OR ins)) k = Z scalar_part k" for k by (rule C)
  qed
qed

text \<open>The word with the given bits.\<close>

definition mask_of :: "(nat \<Rightarrow> bool) \<Rightarrow> 64 word" where
  "mask_of P = horner_sum of_bool 2 (map P [0..<64])"

lemma bit_mask_of: "bit (mask_of P) k \<longleftrightarrow> k < 64 \<and> P k"
  by (auto simp: mask_of_def bit_horner_sum_bit_word_iff)

lemma mask_ofI: "(\<And>k. k < 64 \<Longrightarrow> bit w k = P k) \<Longrightarrow> w = mask_of P"
  by (rule bit_word_eqI) (simp add: bit_mask_of)

lemma mask_of_zero: "mask_of P = 0 \<longleftrightarrow> (\<forall>k<64. \<not> P k)"
  by (auto simp: zero_iff_bits bit_mask_of)

lemma drop_63: "drop_bit 63 w = escape_word (bit w 63)"
proof (rule bit_word_eqI)
  fix n assume "n < LENGTH(64)"
  have "bit w (63 + n) \<longleftrightarrow> n = 0 \<and> bit w 63" using bit_imp_le_length [of w "63 + n"] by (cases n) auto
  then show "bit (drop_bit 63 w) n = bit (escape_word (bit w 63)) n" by (simp add: bit_drop_bit_eq bit_escape_word)
qed

fun stream_carry :: "scan \<Rightarrow> Stage1Carry" where "stream_carry (e, s, f) = carry_word e s"
fun follows_word :: "scan \<Rightarrow> 64 word" where "follows_word (e, s, f) = escape_word f"
fun previous_word :: "scan \<Rightarrow> 64 word" where "previous_word (e, s, f) = escape_word s"

text \<open>The masks both kernels derive, bit by bit.\<close>

lemma derived_masks:
  fixes block :: bytes and st :: scan
  defines "M \<equiv> Stage1Block block" and "Z \<equiv> \<lambda>P. mask_of (found P st block)" and "st' \<equiv> state_at st block 64"
  obtains escaped ins c1 where
    "Stage1Escaped (Backslash M) (stream_carry st) = (escaped, c1)"
    "Stage1PrefixXOR (Quote M AND NOT escaped) c1 = (ins, stream_carry st')"
    "ins = Z stays_inside"
    "NOT (Whitespace M OR Structural M OR Quote M OR ins) = Z scalar_part"
    "(Structural M OR (Z scalar_part AND NOT (push_bit 1 (Z scalar_part) OR follows_word st))) AND NOT (ins OR (Quote M AND NOT escaped))
       OR ((Quote M AND NOT escaped) AND ins) = Z grammar_event"
    "(push_bit 1 ins OR previous_word st) AND NOT ins = Z closing_quote"
    "escaped AND ins = Z escape_target"
    "Control M AND (ins OR NOT (ins OR (Quote M AND NOT escaped)) AND NOT (Whitespace M)) = Z stray_control"
    "Whitespace M AND NOT (ins OR (Quote M AND NOT escaped)) = Z outside_space"
    "drop_bit 63 (Z scalar_part) = follows_word st'" "drop_bit 63 ins = previous_word st'"
proof -
  obtain e s f where st: "st = (e, s, f)" by (cases st)
  obtain escaped ins c1 where *: "Stage1Escaped (Backslash M) (carry_word e s) = (escaped, c1)"
    "Stage1PrefixXOR (Quote M AND NOT escaped) c1 = (ins, carry_word (fst (state_at st block 64)) (fst (snd (state_at st block 64))))"
    "\<And>k. k < 64 \<Longrightarrow> bit escaped k = fst (state_at st block k)"
    "\<And>k. k < 64 \<Longrightarrow> bit (Quote M AND NOT escaped) k = found toggles st block k"
    "\<And>k. k < 64 \<Longrightarrow> bit ins k = found stays_inside st block k"
    "\<And>k. k < 64 \<Longrightarrow> bit (NOT (Whitespace M OR Structural M OR Quote M OR ins)) k = found scalar_part st block k"
    by (rule block_scan [OF st, of block, folded M_def]) (rule that)
  have quotes: "Quote M AND NOT escaped = Z toggles" unfolding Z_def by (rule mask_ofI) (rule *(4))
  have ins: "ins = Z stays_inside" unfolding Z_def by (rule mask_ofI) (rule *(5))
  have cand: "NOT (Whitespace M OR Structural M OR Quote M OR ins) = Z scalar_part" unfolding Z_def by (rule mask_ofI) (rule *(6))
  have third: "snd (snd (state_at st block (Suc k))) = found scalar_part st block k"
    "fst (snd (state_at st block (Suc k))) = found stays_inside st block k" for k
    by (cases "state_at st block k"; simp add: found_def)+
  have shifted: "bit (push_bit 1 w OR escape_word b) k \<longleftrightarrow> k < 64 \<and> (if k = 0 then b else bit w (k - 1))" for w b k
    unfolding bit_or_iff bit_push_bit_iff bit_escape_word by (auto dest: bit_imp_le_length)
  have follows: "bit (push_bit 1 (Z scalar_part) OR follows_word st) k = snd (snd (state_at st block k))" if "k < 64" for k
    unfolding st follows_word.simps shifted Z_def using that third(1) [of "k - 1"]
    by (cases k) (simp_all add: st bit_mask_of)
  have previous: "bit (push_bit 1 ins OR previous_word st) k = fst (snd (state_at st block k))" if "k < 64" for k
    unfolding st previous_word.simps shifted ins Z_def using that third(2) [of "k - 1"]
    by (cases k) (simp_all add: st bit_mask_of)
  have split: "found P st block k = (case state_at st block k of (e, s, f) \<Rightarrow> P (e, s, f) (block ! k))" for P k
    by (simp add: found_def split: prod.split)
  note bits = bit_and_iff bit_or_iff bit_not_iff Stage1Block_bits M_def
  show ?thesis
  proof (rule that [OF _ _ ins cand])
    show "Stage1Escaped (Backslash M) (stream_carry st) = (escaped, c1)" using *(1) st by simp
    show "Stage1PrefixXOR (Quote M AND NOT escaped) c1 = (ins, stream_carry st')"
      using *(2) by (cases st') (simp add: st'_def)
    show "(Structural M OR (Z scalar_part AND NOT (push_bit 1 (Z scalar_part) OR follows_word st))) AND NOT (ins OR (Quote M AND NOT escaped))
       OR ((Quote M AND NOT escaped) AND ins) = Z grammar_event"
    proof -
      define F where "F = push_bit 1 (Z scalar_part) OR follows_word st"
      have F: "bit F k = snd (snd (state_at st block k))" if "k < 64" for k unfolding F_def by (rule follows [OF that])
      show ?thesis unfolding quotes ins F_def [symmetric] unfolding Z_def
      proof (rule mask_ofI)
        fix k :: nat assume k: "k < 64"
        obtain e' s' f' where z: "state_at st block k = (e', s', f')" by (cases "state_at st block k")
        show "bit ((Structural M OR (mask_of (found scalar_part st block) AND NOT F))
              AND NOT (mask_of (found stays_inside st block) OR mask_of (found toggles st block))
            OR (mask_of (found toggles st block) AND mask_of (found stays_inside st block))) k = found grammar_event st block k"
          using F [OF k] k z by (simp add: bits bit_mask_of found_def)
      qed
    qed
    show "(push_bit 1 ins OR previous_word st) AND NOT ins = Z closing_quote"
      unfolding Z_def
    proof (rule mask_ofI)
      fix k :: nat assume k: "k < 64"
      show "bit ((push_bit 1 ins OR previous_word st) AND NOT ins) k = found closing_quote st block k"
        using previous [OF k] *(5) [OF k] k unfolding bit_and_iff bit_not_iff
        by (cases "state_at st block k") (simp add: found_def)
    qed
    show "escaped AND ins = Z escape_target"
      unfolding Z_def
    proof (rule mask_ofI)
      fix k :: nat assume k: "k < 64"
      show "bit (escaped AND ins) k = found escape_target st block k"
        using *(3,5) [OF k] by (cases "state_at st block k") (simp add: bit_and_iff found_def)
    qed
    show "Control M AND (ins OR NOT (ins OR (Quote M AND NOT escaped)) AND NOT (Whitespace M)) = Z stray_control"
      unfolding quotes ins Z_def
      by (rule mask_ofI) (simp add: bits bit_mask_of found_def stray_control_def)
    show "Whitespace M AND NOT (ins OR (Quote M AND NOT escaped)) = Z outside_space"
      unfolding quotes ins Z_def
      by (rule mask_ofI) (simp add: bits bit_mask_of found_def outside_space_def)
    show "drop_bit 63 (Z scalar_part) = follows_word st'"
      using third(1) [of 63] by (cases st') (simp add: drop_63 Z_def bit_mask_of st'_def del: state_at.simps)
    show "drop_bit 63 ins = previous_word st'"
      using third(2) [of 63] by (cases st') (simp add: drop_63 ins Z_def bit_mask_of st'_def del: state_at.simps)
  qed
qed

subsection \<open>Runs of blocks\<close>

text \<open>The stream that belongs to a state of the scan, with the sticky facts.\<close>

definition index_stream :: "scan \<Rightarrow> bool \<Rightarrow> bool \<Rightarrow> bool \<Rightarrow> Stage1IndexStream" where
  "index_stream st bad na esc = \<lparr>IndexCarry = stream_carry st, Follows = follows_word st, PreviousIn = previous_word st,
     IndexBad = bad, IndexNonASCII = na, IndexEscaped = esc\<rparr>"

definition record_stream :: "scan \<Rightarrow> Stage1Stream" where
  "record_stream st = \<lparr>StreamCarry = stream_carry st, StreamFollows = follows_word st\<rparr>"

text \<open>The bytes whose positions a mode selects.\<close>

definition selected :: "index_mode \<Rightarrow> scan \<Rightarrow> byte \<Rightarrow> bool" where
  "selected mode st c = (case mode of
      IndexValid \<Rightarrow> grammar_event st c
    | IndexFull \<Rightarrow> grammar_event st c \<or> closing_quote st c
    | IndexCursor \<Rightarrow> (grammar_event st c \<or> closing_quote st c) \<and> c \<noteq> ch_colon)"

lemma indexBlock_scan:
  fixes st :: scan
  fixes p :: bytes and i :: nat
  defines "B \<equiv> block64 p i"
  assumes run: "stream run = index_stream st bad na esc" and len: "length B = 64"
  shows "indexBlock p base mode i run =
    \<lparr>stream = index_stream (state_at st B 64) (bad \<or> (\<exists>k<64. found stray_control st B k)) (na \<or> (\<exists>k<64. B ! k \<ge> 0x80))
        (esc \<or> (\<exists>k<64. found escape_target st B k)),
     validMeta = map_option (noteValid i (mask_of (found escape_target st B)) (\<exists>k<64. B ! k \<ge> 0x80)) (validMeta run),
     indexMeta = map_option (noteIndex i (Stage1Block B) (mask_of (found grammar_event st B)) (mask_of (found stays_inside st B))
        (mask_of (found escape_target st B))) (indexMeta run),
     written = written run @ map (\<lambda>k. base + of_nat (i * 64) + of_nat k) (filter (found (selected mode) st B) [0..<64])\<rparr>"
proof -
  obtain escaped ins c1 where m:
    "Stage1Escaped (Backslash (Stage1Block B)) (stream_carry st) = (escaped, c1)"
    "Stage1PrefixXOR (Quote (Stage1Block B) AND NOT escaped) c1 = (ins, stream_carry (state_at st B 64))"
    "ins = mask_of (found stays_inside st B)"
    "NOT (Whitespace (Stage1Block B) OR Structural (Stage1Block B) OR Quote (Stage1Block B) OR ins) = mask_of (found scalar_part st B)"
    "(Structural (Stage1Block B) OR (mask_of (found scalar_part st B) AND NOT (push_bit 1 (mask_of (found scalar_part st B)) OR follows_word st)))
       AND NOT (ins OR (Quote (Stage1Block B) AND NOT escaped)) OR ((Quote (Stage1Block B) AND NOT escaped) AND ins) = mask_of (found grammar_event st B)"
    "(push_bit 1 ins OR previous_word st) AND NOT ins = mask_of (found closing_quote st B)"
    "escaped AND ins = mask_of (found escape_target st B)"
    "Control (Stage1Block B) AND (ins OR NOT (ins OR (Quote (Stage1Block B) AND NOT escaped)) AND NOT (Whitespace (Stage1Block B))) = mask_of (found stray_control st B)"
    "drop_bit 63 (mask_of (found scalar_part st B)) = follows_word (state_at st B 64)"
    "drop_bit 63 ins = previous_word (state_at st B 64)"
    by (rule derived_masks [of B st]) (rule that)
  define G where "G = mask_of (found grammar_event st B)"
  define m1 where "m1 = (if mode \<noteq> IndexValid then G OR mask_of (found closing_quote st B) else G)"
  define m2 where "m2 = (if mode = IndexCursor then m1 AND NOT (stage1BlockByteMaskPortable B ch_colon) else m1)"
  have m2: "bit m2 k = found (selected mode) st B k" if "k < 64" for k
    using that unfolding m2_def m1_def G_def
    by (cases mode) (simp_all add: selected_def found_def bit_or_iff bit_and_iff bit_not_iff bit_mask_of stage1BlockByteMask_bit [OF len])
  have sel: "filter (bit m2) [0..<64] = filter (found (selected mode) st B) [0..<64]"
    by (rule filter_cong) (simp_all add: m2)
  have e: "IndexCarry (stream run) = stream_carry st" "Follows (stream run) = follows_word st" "PreviousIn (stream run) = previous_word st"
    "IndexBad (stream run) = bad" "IndexNonASCII (stream run) = na" "IndexEscaped (stream run) = esc"
    by (simp_all add: run index_stream_def)
  show ?thesis
    unfolding indexBlock_def Let_def B_def [symmetric] e m(1,2) prod.case m(4) m(5) m(6) m(7) m(8) m(9) m(10)
      G_def [symmetric] m1_def [symmetric] m2_def [symmetric] emitPositions_filter sel
    unfolding G_def index_stream_def mask_of_zero Stage1Block_NonASCII m(3)
    by (simp only: not_all not_imp simp_thms)
qed

lemma mask_of_cong: "(\<And>k. k < 64 \<Longrightarrow> P k = Q k) \<Longrightarrow> mask_of P = mask_of Q"
  by (rule mask_ofI) (simp add: bit_mask_of)

lemma block64_nth: "64 * i + 64 \<le> length p \<Longrightarrow> k < 64 \<Longrightarrow> block64 p i ! k = p ! (64 * i + k)"
  by (simp add: block64_def mult.commute)

lemma length_block64: "64 * i + 64 \<le> length p \<Longrightarrow> length (block64 p i) = 64"
  by (simp add: block64_def)

lemma state_at_block:
  assumes "64 * i + 64 \<le> length p"
  shows "k \<le> 64 \<Longrightarrow> state_at (state_at st p (64 * i)) (block64 p i) k = state_at st p (64 * i + k)"
  by (induction k) (simp_all add: block64_nth [OF assms])

lemma found_block:
  assumes "64 * i + 64 \<le> length p" "k < 64"
  shows "found P (state_at st p (64 * i)) (block64 p i) k = found P st p (64 * i + k)"
  using assms by (simp add: found_def state_at_block block64_nth)

text \<open>The word of block \<open>j\<close> that marks the bytes with a property, and whether the block has a byte beyond ASCII.\<close>

definition block_mask :: "(scan \<Rightarrow> byte \<Rightarrow> bool) \<Rightarrow> scan \<Rightarrow> bytes \<Rightarrow> nat \<Rightarrow> 64 word" where
  "block_mask P st p j = mask_of (\<lambda>k. found P st p (64 * j + k))"

definition high_block :: "bytes \<Rightarrow> nat \<Rightarrow> bool" where
  "high_block p j \<longleftrightarrow> (\<exists>k<64. p ! (64 * j + k) \<ge> 0x80)"

lemma block_mask_eq:
  "64 * i + 64 \<le> length p \<Longrightarrow> mask_of (found P (state_at st p (64 * i)) (block64 p i)) = block_mask P st p i"
  unfolding block_mask_def by (rule mask_of_cong) (simp add: found_block)

definition noteAllValid :: "scan \<Rightarrow> bytes \<Rightarrow> nat list \<Rightarrow> Stage1ValidMeta \<Rightarrow> Stage1ValidMeta" where
  "noteAllValid st p js = fold (\<lambda>j. noteValid j (block_mask escape_target st p j) (high_block p j)) js"

definition noteAllIndex :: "scan \<Rightarrow> bytes \<Rightarrow> nat list \<Rightarrow> Stage1IndexMeta \<Rightarrow> Stage1IndexMeta" where
  "noteAllIndex st p js = fold (\<lambda>j. noteIndex j (Stage1Block (block64 p j)) (block_mask grammar_event st p j)
     (block_mask stays_inside st p j) (block_mask escape_target st p j)) js"

definition any_in :: "(nat \<Rightarrow> bool) \<Rightarrow> nat \<Rightarrow> nat \<Rightarrow> bool" where
  "any_in P a b \<longleftrightarrow> (\<exists>k. a \<le> k \<and> k < b \<and> P k)"

lemma any_in_block: "(\<exists>k<64. P (64 * i + k)) \<longleftrightarrow> any_in P (64 * i) (64 * i + 64)"
proof
  assume "any_in P (64 * i) (64 * i + 64)"
  then obtain k where "64 * i \<le> k" "k < 64 * i + 64" "P k" by (auto simp: any_in_def)
  then have "k - 64 * i < 64" "P (64 * i + (k - 64 * i))" by simp_all
  then show "\<exists>k<64. P (64 * i + k)" by blast
next
  assume "\<exists>k<64. P (64 * i + k)"
  then obtain k where "k < 64" "P (64 * i + k)" by blast
  then show "any_in P (64 * i) (64 * i + 64)" unfolding any_in_def by (intro exI [of _ "64 * i + k"]) simp
qed

lemma any_in_join: "a \<le> b \<Longrightarrow> b \<le> c \<Longrightarrow> any_in P a c \<longleftrightarrow> any_in P a b \<or> any_in P b c"
  by (auto simp: any_in_def) (meson linorder_not_less order_less_le_trans order.trans)+

lemma any_in_empty [simp]: "\<not> any_in P a a"
  by (simp add: any_in_def)

lemma filter_block: "filter P [64 * i..<64 * i + 64] = map ((+) (64 * i)) (filter (\<lambda>k. P (64 * i + k)) [0..<64])"
proof -
  have "[64 * i..<64 * i + 64] = map ((+) (64 * i)) [0..<64]" by (rule nth_equalityI) simp_all
  then show ?thesis by (simp add: filter_map comp_def)
qed

lemma indexBlock_chunk:
  fixes st :: scan
  assumes run: "stream run = index_stream (state_at st p (64 * i)) bad na esc" and len: "64 * i + 64 \<le> length p"
  shows "indexBlock p base mode i run =
    \<lparr>stream = index_stream (state_at st p (64 * i + 64)) (bad \<or> any_in (found stray_control st p) (64 * i) (64 * i + 64))
        (na \<or> high_block p i) (esc \<or> any_in (found escape_target st p) (64 * i) (64 * i + 64)),
     validMeta = map_option (noteAllValid st p [i]) (validMeta run), indexMeta = map_option (noteAllIndex st p [i]) (indexMeta run),
     written = written run @ map (\<lambda>k. base + of_nat k) (filter (found (selected mode) st p) [64 * i..<64 * i + 64])\<rparr>"
proof -
  have P: "(\<exists>k<64. found P (state_at st p (64 * i)) (block64 p i) k) = any_in (found P st p) (64 * i) (64 * i + 64)" for P
    unfolding any_in_block [symmetric] by (intro ex_cong1 conj_cong refl found_block [OF len])
  have H: "(\<exists>k<64. block64 p i ! k \<ge> 0x80) = high_block p i"
    unfolding high_block_def using block64_nth [OF len] by auto
  have W: "map (\<lambda>k. base + of_nat (i * 64) + of_nat k) (filter (found (selected mode) (state_at st p (64 * i)) (block64 p i)) [0..<64])
      = map (\<lambda>k. base + of_nat k) (filter (found (selected mode) st p) [64 * i..<64 * i + 64])"
  proof -
    have "filter (found (selected mode) (state_at st p (64 * i)) (block64 p i)) [0..<64] = filter (\<lambda>k. found (selected mode) st p (64 * i + k)) [0..<64]"
      by (rule filter_cong) (simp_all add: found_block [OF len])
    moreover have "base + of_nat (i * 64) + of_nat k = base + of_nat (64 * i + k)" for k by (simp add: mult.commute)
    ultimately show ?thesis by (simp only: filter_block map_map comp_def)
  qed
  have S: "state_at (state_at st p (64 * i)) (block64 p i) 64 = state_at st p (64 * i + 64)" by (rule state_at_block [OF len]) simp
  show ?thesis
    unfolding indexBlock_scan [OF run length_block64 [OF len]] P H W S block_mask_eq [OF len] noteAllValid_def noteAllIndex_def
    by simp
qed

lemma indexLoop_scan:
  fixes st :: scan
  assumes "stream run = index_stream (state_at st p (64 * i)) bad na esc" "64 * (i + n) \<le> length p"
  shows "indexLoop n p base mode i run =
    \<lparr>stream = index_stream (state_at st p (64 * (i + n))) (bad \<or> any_in (found stray_control st p) (64 * i) (64 * (i + n)))
        (na \<or> any_in (\<lambda>k. p ! k \<ge> 0x80) (64 * i) (64 * (i + n))) (esc \<or> any_in (found escape_target st p) (64 * i) (64 * (i + n))),
     validMeta = map_option (noteAllValid st p [i..<i + n]) (validMeta run), indexMeta = map_option (noteAllIndex st p [i..<i + n]) (indexMeta run),
     written = written run @ map (\<lambda>k. base + of_nat k) (filter (found (selected mode) st p) [64 * i..<64 * (i + n)])\<rparr>"
  using assms
proof (induction n arbitrary: i run bad na esc)
  case 0
  then show ?case by (cases run) (simp add: noteAllValid_def noteAllIndex_def map_option.id [unfolded id_def] id_def)
next
  case (Suc n)
  have len: "64 * i + 64 \<le> length p" "64 * (i + 1 + n) \<le> length p" using Suc.prems(2) by simp_all
  note one = indexBlock_chunk [OF Suc.prems(1) len(1), of base mode]
  have e: "64 * i + 64 = 64 * (i + 1)" by simp
  have b: "64 * i \<le> 64 * (i + 1)" "64 * (i + 1) \<le> 64 * (i + 1 + n)" by simp_all
  have high: "high_block p i = any_in (\<lambda>k. p ! k \<ge> 0x80) (64 * i) (64 * (i + 1))"
    using any_in_block [of "\<lambda>k. p ! k \<ge> 0x80" i] unfolding high_block_def e .
  have up: "[i..<i + 1 + n] = [i] @ [i + 1..<i + 1 + n]" by (simp add: upt_conv_Cons)
  have up2: "[64 * i..<64 * (i + 1 + n)] = [64 * i..<64 * (i + 1)] @ [64 * (i + 1)..<64 * (i + 1 + n)]"
    using upt_add_eq_append [of "64 * i" "64 * (i + 1)" "64 * n"] by (simp add: algebra_simps)
  have s: "stream (indexBlock p base mode i run) = index_stream (state_at st p (64 * (i + 1)))
      (bad \<or> any_in (found stray_control st p) (64 * i) (64 * (i + 1))) (na \<or> any_in (\<lambda>k. p ! k \<ge> 0x80) (64 * i) (64 * (i + 1)))
      (esc \<or> any_in (found escape_target st p) (64 * i) (64 * (i + 1)))"
    unfolding one e high by simp
  have n: "i + Suc n = i + 1 + n" by simp
  show ?case unfolding indexLoop.simps(2) n Suc.IH [OF s len(2)] up up2
      any_in_join [OF b, of "found stray_control st p"] any_in_join [OF b, of "found escape_target st p"] any_in_join [OF b, of "\<lambda>k. p ! k \<ge> 0x80"]
    unfolding one e high
    by (simp add: noteAllValid_def noteAllIndex_def option.map_comp comp_def disj_assoc)
qed

definition record_at :: "scan \<Rightarrow> bytes \<Rightarrow> nat \<Rightarrow> Stage1Rec" where
  "record_at st p j = \<lparr>RecEmit = block_mask grammar_event st p j, RecScalar = block_mask scalar_part st p j,
     RecEscInStr = block_mask escape_target st p j, RecWsOut = block_mask outside_space st p j, RecInStr = block_mask stays_inside st p j,
     RecBad = any_in (found stray_control st p) (64 * j) (64 * j + 64), RecNonASCII = high_block p j\<rparr>"

lemma record_scan:
  assumes "64 * i + 64 \<le> length p"
  shows "Stage1RecFromMasks (Stage1Block (block64 p i)) (record_stream (state_at st p (64 * i)))
    = (record_at st p i, record_stream (state_at st p (64 * i + 64)))"
proof -
  define B where "B = block64 p i"
  define z where "z = state_at st p (64 * i)"
  obtain escaped ins c1 where m:
    "Stage1Escaped (Backslash (Stage1Block B)) (stream_carry z) = (escaped, c1)"
    "Stage1PrefixXOR (Quote (Stage1Block B) AND NOT escaped) c1 = (ins, stream_carry (state_at z B 64))"
    "ins = mask_of (found stays_inside z B)"
    "NOT (Whitespace (Stage1Block B) OR Structural (Stage1Block B) OR Quote (Stage1Block B) OR ins) = mask_of (found scalar_part z B)"
    "(Structural (Stage1Block B) OR (mask_of (found scalar_part z B) AND NOT (push_bit 1 (mask_of (found scalar_part z B)) OR follows_word z)))
       AND NOT (ins OR (Quote (Stage1Block B) AND NOT escaped)) OR ((Quote (Stage1Block B) AND NOT escaped) AND ins) = mask_of (found grammar_event z B)"
    "escaped AND ins = mask_of (found escape_target z B)"
    "Control (Stage1Block B) AND (ins OR NOT (ins OR (Quote (Stage1Block B) AND NOT escaped)) AND NOT (Whitespace (Stage1Block B))) = mask_of (found stray_control z B)"
    "Whitespace (Stage1Block B) AND NOT (ins OR (Quote (Stage1Block B) AND NOT escaped)) = mask_of (found outside_space z B)"
    "drop_bit 63 (mask_of (found scalar_part z B)) = follows_word (state_at z B 64)"
    by (rule derived_masks [of B z]) (rule that)
  have f: "StreamCarry (record_stream z) = stream_carry z" "StreamFollows (record_stream z) = follows_word z" by (simp_all add: record_stream_def)
  have "Stage1RecFromMasks (Stage1Block B) (record_stream z) =
    (\<lparr>RecEmit = mask_of (found grammar_event z B), RecScalar = mask_of (found scalar_part z B), RecEscInStr = mask_of (found escape_target z B),
      RecWsOut = mask_of (found outside_space z B), RecInStr = mask_of (found stays_inside z B),
      RecBad = mask_of (found stray_control z B) \<noteq> 0, RecNonASCII = NonASCII (Stage1Block B)\<rparr>,
     record_stream (state_at z B 64))"
    unfolding Stage1RecFromMasks_def Let_def f m(1,2) prod.case m(4) m(5) m(6) m(7) m(8) m(9)
    unfolding m(3) record_stream_def by (rule refl)
  moreover have "block_mask stray_control st p i \<noteq> 0 \<longleftrightarrow> any_in (found stray_control st p) (64 * i) (64 * i + 64)"
    unfolding any_in_block [symmetric] block_mask_def mask_of_zero by blast
  moreover have "(\<exists>k<64. B ! k \<ge> 0x80) = high_block p i"
    unfolding high_block_def B_def using block64_nth [OF assms] by auto
  moreover have "state_at z B 64 = state_at st p (64 * i + 64)" unfolding B_def z_def by (rule state_at_block [OF assms]) simp
  ultimately show ?thesis unfolding B_def z_def record_at_def block_mask_eq [OF assms] by (simp add: Stage1Block_NonASCII)
qed

lemma recordLoop_scan:
  "64 * (i + n) \<le> length p \<Longrightarrow> recordLoop n p i (record_stream (state_at st p (64 * i)))
    = (map (record_at st p) [i..<i + n], record_stream (state_at st p (64 * (i + n))))"
proof (induction n arbitrary: i)
  case (Suc n)
  have e: "64 * i + 64 = 64 * (i + 1)" by simp
  have len: "64 * (i + 1 + n) \<le> length p" using Suc.prems by simp
  have up: "[i..<i + Suc n] = i # [i + 1..<i + 1 + n]" by (simp add: upt_conv_Cons)
  show ?case using Suc.prems record_scan [of i p st] Suc.IH [OF len] unfolding up by (simp add: e)
qed simp

text \<open>What the notes of a chunk hold in the end.\<close>

lemma noteAllValid_append: "noteAllValid st p (js @ ks) vm = noteAllValid st p ks (noteAllValid st p js vm)"
  by (simp add: noteAllValid_def)

lemma noteAllValid_get:
  assumes "length (ValidEscInStr vm) = 32" "n \<le> 32" "ValidNonASCII vm = 0"
  shows "length (ValidEscInStr (noteAllValid st p [0..<n] vm)) = 32"
    "j < n \<Longrightarrow> ValidEscInStr (noteAllValid st p [0..<n] vm) ! j = block_mask escape_target st p j"
    "bit (ValidNonASCII (noteAllValid st p [0..<n] vm)) j \<longleftrightarrow> j < n \<and> high_block p j"
proof -
  have "length (ValidEscInStr (noteAllValid st p [0..<n] vm)) = 32
    \<and> (\<forall>j<n. ValidEscInStr (noteAllValid st p [0..<n] vm) ! j = block_mask escape_target st p j)
    \<and> (\<forall>j. bit (ValidNonASCII (noteAllValid st p [0..<n] vm)) j \<longleftrightarrow> j < n \<and> high_block p j)"
    using assms(2)
  proof (induction n)
    case 0
    then show ?case using assms by (simp add: noteAllValid_def)
  next
    case (Suc n)
    define v where "v = noteAllValid st p [0..<n] vm"
    have ih: "length (ValidEscInStr v) = 32" "\<And>j. j < n \<Longrightarrow> ValidEscInStr v ! j = block_mask escape_target st p j"
      "\<And>j. bit (ValidNonASCII v) j \<longleftrightarrow> j < n \<and> high_block p j" unfolding v_def using Suc by auto
    have one: "bit (push_bit n 1 :: 32 word) j \<longleftrightarrow> j = n" for j
      using Suc.prems unfolding bit_push_bit_iff by (auto simp: bit_1_iff)
    have step: "noteAllValid st p [0..<Suc n] vm = noteValid n (block_mask escape_target st p n) (high_block p n) v"
      by (simp add: v_def noteAllValid_def)
    have b: "bit (ValidNonASCII (noteValid n (block_mask escape_target st p n) (high_block p n) v)) j \<longleftrightarrow> j < Suc n \<and> high_block p j" for j
      unfolding noteValid_def using ih(3) [of j] by (cases "high_block p n") (auto simp: bit_or_iff one less_Suc_eq simp del: push_bit_of_1)
    have g: "ValidEscInStr (noteValid n (block_mask escape_target st p n) (high_block p n) v) ! j = block_mask escape_target st p j" if "j < Suc n" for j
      using that ih(1,2) Suc.prems by (cases "j = n") (simp_all add: noteValid_def)
    show ?case unfolding step using b g ih(1) by (simp add: noteValid_def)
  qed
  then show "length (ValidEscInStr (noteAllValid st p [0..<n] vm)) = 32"
    "j < n \<Longrightarrow> ValidEscInStr (noteAllValid st p [0..<n] vm) ! j = block_mask escape_target st p j"
    "bit (ValidNonASCII (noteAllValid st p [0..<n] vm)) j \<longleftrightarrow> j < n \<and> high_block p j" by auto
qed

text \<open>C32: on any whole number of blocks up to the limit and from every carried state, the packed producer writes exactly the absolute
  positions that the byte-at-a-time scan selects for its mode, in order; its carries are the state of that scan behind
  the blocks, and the sticky flags and the notes of the blocks say what the scan found.\<close>

theorem stage1IndexBlocks_scan:
  assumes "0 < n" "n \<le> Stage1ChunkBlocks" "64 * n \<le> length p" "n * 64 + 64 \<le> room" "mode = IndexValid \<longrightarrow> vm \<noteq> None"
  shows "stage1IndexBlocksPortable p n base (index_stream st bad na esc) room mode vm xm = Some
    \<lparr>stream = index_stream (state_at st p (64 * n)) (bad \<or> any_in (found stray_control st p) 0 (64 * n))
        (na \<or> any_in (\<lambda>k. p ! k \<ge> 0x80) 0 (64 * n)) (esc \<or> any_in (found escape_target st p) 0 (64 * n)),
     validMeta = map_option (\<lambda>m. noteAllValid st p [0..<n] (m\<lparr>ValidNonASCII := 0\<rparr>)) vm,
     indexMeta = map_option (\<lambda>m. noteAllIndex st p [0..<n] (clearedIndexMeta m)) xm,
     written = map (\<lambda>k. base + of_nat k) (filter (found (selected mode) st p) [0..<64 * n])\<rparr>"
proof -
  have z: "index_stream st bad na esc = index_stream (state_at st p (64 * 0)) bad na esc" by simp
  have n: "\<not> (n = 0 \<or> n > Stage1ChunkBlocks)" "\<not> room < n * 64 + 64" "\<not> (mode = IndexValid \<and> vm = None)" using assms by auto
  show ?thesis
    unfolding stage1IndexBlocksPortable_def if_not_P [OF n(1)] if_not_P [OF n(2)] if_not_P [OF n(3)]
    using indexLoop_scan [of "\<lparr>stream = index_stream st bad na esc, validMeta = map_option (\<lambda>m. m\<lparr>ValidNonASCII := 0\<rparr>) vm,
        indexMeta = map_option clearedIndexMeta xm, written = []\<rparr>" st p 0 bad na esc n base mode] assms(3)
    by (simp add: option.map_comp comp_def)
qed

theorem stage1IndexBlocks_scan_witness:
  "stage1IndexBlocksPortable (replicate 64 ch_quote) 1 0 (index_stream (False, False, False) False False False) 128 IndexFull None None = Some
    \<lparr>stream = index_stream (state_at (False, False, False) (replicate 64 ch_quote) (64 * 1))
        (False \<or> any_in (found stray_control (False, False, False) (replicate 64 ch_quote)) 0 (64 * 1))
        (False \<or> any_in (\<lambda>k. replicate 64 ch_quote ! k \<ge> 0x80) 0 (64 * 1))
        (False \<or> any_in (found escape_target (False, False, False) (replicate 64 ch_quote)) 0 (64 * 1)),
     validMeta = map_option (\<lambda>m. noteAllValid (False, False, False) (replicate 64 ch_quote) [0..<1] (m\<lparr>ValidNonASCII := 0\<rparr>)) None,
     indexMeta = map_option (\<lambda>m. noteAllIndex (False, False, False) (replicate 64 ch_quote) [0..<1] (clearedIndexMeta m)) None,
     written = map (\<lambda>k. 0 + of_nat k) (filter (found (selected IndexFull) (False, False, False) (replicate 64 ch_quote)) [0..<64 * 1])\<rparr>"
  by (rule stage1IndexBlocks_scan) (simp_all add: Stage1ChunkBlocks_def)

end
