(* ===== verification/Stage2.thy ===== *)
theory Stage2
  imports Swar
begin

text \<open>
  The grammar machine over structural positions (\<^verbatim>\<open>x/kernels/stage2.go\<close> and \<^verbatim>\<open>stage2_grammar_go.go\<close>).
  Each position names a token of the input: a structural byte, the quote that opens a string, or the first byte of
  a scalar. The machine judges the pairs of neighbouring tokens by a table, keeps the kinds of the open containers in a
  slab, and collects violations in a sticky word. Its fused states read the likely next token
  directly. The specification is a stack machine; the fused machine is shown to refine it.
\<close>

subsection \<open>Classes and tables\<close>

abbreviation (input) stage2ccO :: "64 word" where "stage2ccO \<equiv> 0"
abbreviation (input) stage2ccA :: "64 word" where "stage2ccA \<equiv> 1"
abbreviation (input) stage2ccC :: "64 word" where "stage2ccC \<equiv> 2"
abbreviation (input) stage2ccB :: "64 word" where "stage2ccB \<equiv> 3"
abbreviation (input) stage2ccL :: "64 word" where "stage2ccL \<equiv> 4"
abbreviation (input) stage2ccM :: "64 word" where "stage2ccM \<equiv> 5"
abbreviation (input) stage2ccQ :: "64 word" where "stage2ccQ \<equiv> 6"
abbreviation (input) stage2ccS :: "64 word" where "stage2ccS \<equiv> 7"
abbreviation (input) stage2RowStart :: "64 word" where "stage2RowStart \<equiv> 8"
abbreviation (input) stage2RowQk :: "64 word" where "stage2RowQk \<equiv> 14"

definition Stage2MaxDepth :: nat where "Stage2MaxDepth = 10000"
definition Stage2KindsLen :: nat where "Stage2KindsLen = 16384"

definition stage2ClsOff :: "byte \<Rightarrow> 64 word" where
  "stage2ClsOff c =
     (if c = ch_lbrace then stage2ccO
      else if c = ch_lbracket then stage2ccA
      else if c = ch_rbrace then stage2ccC
      else if c = ch_rbracket then stage2ccB
      else if c = ch_colon then stage2ccL
      else if c = ch_comma then stage2ccM
      else if c = ch_quote then stage2ccQ
      else stage2ccS) * 128"

definition stage2Class :: "byte \<Rightarrow> byte" where
  "stage2Class c = ucast (drop_bit 7 (stage2ClsOff c))"

text \<open>
  The pair table is filled with ones and then cleared at the legal triples of row, container kind and class.
\<close>

type_synonym table = "64 word \<Rightarrow> byte"

definition legal :: "64 word \<Rightarrow> 64 word \<Rightarrow> 64 word list \<Rightarrow> table \<Rightarrow> table" where
  "legal row io cols t = fold (\<lambda>c t. t((push_bit 4 row OR push_bit 3 io OR c) := 0)) cols t"

definition both :: "64 word \<Rightarrow> 64 word list \<Rightarrow> table \<Rightarrow> table" where
  "both row cols t = legal row 1 cols (legal row 0 cols t)"

definition stage2PairBad :: table where
  "stage2PairBad =
     (let value = [stage2ccO, stage2ccA, stage2ccQ, stage2ccS];
          after = [stage2ccM, stage2ccC, stage2ccB];
          t = (\<lambda>_. 1);
          t = both stage2ccO [stage2ccQ, stage2ccC] t;
          t = both stage2ccA (value @ [stage2ccB]) t;
          t = both stage2ccC after t;
          t = both stage2ccB after t;
          t = both stage2ccL value t;
          t = legal stage2ccM 0 value t;
          t = legal stage2ccM 1 [stage2ccQ] t;
          t = both stage2ccQ after t;
          t = both stage2ccS after t;
          t = both stage2RowQk [stage2ccL] t;
          t = both stage2RowStart value t in t)"

definition stage2EOFBad :: table where
  "stage2EOFBad = ((\<lambda>_. 1)(stage2ccC := 0, stage2ccB := 0, stage2ccQ := 0, stage2ccS := 0))"

subsection \<open>The machine\<close>

record Stage2State =
  Bad2 :: "64 word"
  Depth2 :: int
  PrevRowIO :: "64 word"
  KeyRow8 :: "64 word"

definition Stage2Reset :: Stage2State where
  "Stage2Reset = \<lparr>Bad2 = 0, Depth2 = 0, PrevRowIO = push_bit 4 stage2RowStart, KeyRow8 = 0\<rparr>"

definition Stage2Finish :: "Stage2State \<Rightarrow> bool" where
  "Stage2Finish st =
     (let bad = Bad2 st OR ucast (stage2EOFBad (drop_bit 4 (PrevRowIO st) AND 15));
          bad = (if Depth2 st \<noteq> 0 then bad OR 1 else bad) in bad = 0)"

text \<open>
  The registers of a call: the state, the container kind, the slab of kinds, and the scalar positions
  written so far. The labels are those at which the machine reads a position.
\<close>

record machine = Stage2State +
  inObj :: "64 word"
  kinds :: bytes
  scalars :: "nat list"

datatype label = Dispatch | FusedKey | FusedColon | FusedValue | FusedComma | FusedArrayComma | FusedArrayValue

definition slot :: "int \<Rightarrow> nat" where
  "slot d = nat (d mod int Stage2KindsLen)"

definition openContainer2 :: "byte \<Rightarrow> machine \<Rightarrow> machine" where
  "openContainer2 kind m =
     (let depth = Depth2 m + 1;
          m = m\<lparr>Depth2 := depth, Bad2 := (if depth > int Stage2MaxDepth then Bad2 m OR 1 else Bad2 m),
                kinds := (kinds m)[slot depth := kind]\<rparr> in
      if kind = 8 then m\<lparr>inObj := 8, PrevRowIO := 8, KeyRow8 := 8\<rparr>
      else m\<lparr>inObj := 0, PrevRowIO := 16, KeyRow8 := 0\<rparr>)"

text \<open>Where the machine goes on after a value.\<close>

definition afterLabel :: "machine \<Rightarrow> label" where
  "afterLabel m = (if inObj m \<noteq> 0 then FusedComma else if Depth2 m > 0 then FusedArrayComma else Dispatch)"

definition closeContainer2 :: "64 word \<Rightarrow> machine \<Rightarrow> machine \<times> label" where
  "closeContainer2 row m =
     (let depth = Depth2 m - 1;
          io = ucast (kinds m ! slot depth) AND 8;
          m = m\<lparr>Depth2 := depth, Bad2 := (if depth < 0 then Bad2 m OR 1 else Bad2 m),
                inObj := io, PrevRowIO := row OR io, KeyRow8 := 0\<rparr> in
      (m, afterLabel m))"

definition scalarAt :: "nat \<Rightarrow> machine \<Rightarrow> machine" where
  "scalarAt j m = m\<lparr>scalars := scalars m @ [j]\<rparr>"

definition handleKnown :: "64 word \<Rightarrow> nat \<Rightarrow> machine \<Rightarrow> machine \<times> label" where
  "handleKnown cls j m =
     (let m = m\<lparr>Bad2 := Bad2 m OR ucast (stage2PairBad (PrevRowIO m OR cls))\<rparr> in
      if cls = stage2ccO then (openContainer2 8 m, FusedKey)
      else if cls = stage2ccA then (openContainer2 0 m, FusedArrayValue)
      else if cls = stage2ccC then closeContainer2 32 (m\<lparr>Bad2 := Bad2 m OR drop_bit 3 (inObj m XOR 8)\<rparr>)
      else if cls = stage2ccB then closeContainer2 48 (m\<lparr>Bad2 := Bad2 m OR drop_bit 3 (inObj m)\<rparr>)
      else if cls = stage2ccL then (m\<lparr>PrevRowIO := 64 OR inObj m, KeyRow8 := 0\<rparr>, Dispatch)
      else if cls = stage2ccM then
        let m = m\<lparr>Bad2 := (if Depth2 m = 0 then Bad2 m OR 1 else Bad2 m), PrevRowIO := 80 OR inObj m, KeyRow8 := inObj m\<rparr> in
        (m, if inObj m \<noteq> 0 then FusedKey else if Depth2 m > 0 then FusedArrayValue else Dispatch)
      else if cls = stage2ccQ then
        let isKey = KeyRow8 m;
            m = m\<lparr>PrevRowIO := 96 OR push_bit 4 isKey OR inObj m, KeyRow8 := 0\<rparr> in
        (m, if isKey \<noteq> 0 then FusedColon else afterLabel m)
      else
        let m = (scalarAt j m)\<lparr>PrevRowIO := 112 OR inObj m, KeyRow8 := 0\<rparr> in
        (m, afterLabel m))"

definition stage2Step :: "bytes \<Rightarrow> label \<Rightarrow> machine \<Rightarrow> nat \<Rightarrow> machine \<times> label" where
  "stage2Step src l m j =
     (let c = src ! j; cls = ucast (stage2Class c) in
      case l of
        Dispatch \<Rightarrow> handleKnown cls j m
      | FusedKey \<Rightarrow>
          if c \<noteq> ch_quote then handleKnown cls j m
          else (m\<lparr>PrevRowIO := 224 OR inObj m\<rparr>, FusedColon)
      | FusedColon \<Rightarrow>
          if c \<noteq> ch_colon then handleKnown cls j m
          else (m\<lparr>PrevRowIO := 64 OR inObj m, KeyRow8 := 0\<rparr>, FusedValue)
      | FusedValue \<Rightarrow>
          if c = ch_quote then (m\<lparr>PrevRowIO := 96 OR inObj m, KeyRow8 := 0\<rparr>, FusedComma)
          else if c = ch_lbrace then (openContainer2 8 m, FusedKey)
          else if c = ch_lbracket then (openContainer2 0 m, FusedArrayValue)
          else if cls \<noteq> stage2ccS then handleKnown cls j m
          else ((scalarAt j m)\<lparr>PrevRowIO := 112 OR inObj m, KeyRow8 := 0\<rparr>, FusedComma)
      | FusedComma \<Rightarrow>
          if c = ch_comma then (m\<lparr>PrevRowIO := 80 OR inObj m, KeyRow8 := inObj m\<rparr>, FusedKey)
          else if c = ch_rbrace then closeContainer2 32 m
          else handleKnown cls j m
      | FusedArrayComma \<Rightarrow>
          if c = ch_comma then (m\<lparr>PrevRowIO := 80, KeyRow8 := 0\<rparr>, FusedArrayValue)
          else if c = ch_rbracket then closeContainer2 48 m
          else handleKnown cls j m
      | FusedArrayValue \<Rightarrow>
          if cls = stage2ccQ then (m\<lparr>PrevRowIO := 96, KeyRow8 := 0\<rparr>, FusedArrayComma)
          else if cls = stage2ccS then ((scalarAt j m)\<lparr>PrevRowIO := 112, KeyRow8 := 0\<rparr>, FusedArrayComma)
          else if cls = stage2ccA then (openContainer2 0 m, FusedArrayValue)
          else if cls = stage2ccO then (openContainer2 8 m, FusedKey)
          else handleKnown cls j m)"

definition stage2Run :: "bytes \<Rightarrow> nat list \<Rightarrow> machine \<times> label \<Rightarrow> machine \<times> label" where
  "stage2Run src positions ml = foldl (\<lambda>(m, l) j. stage2Step src l m j) ml positions"

text \<open>A call returns the scalar positions, the slab and the state.\<close>

definition Stage2PositionsTrusted :: "bytes \<Rightarrow> nat list \<Rightarrow> bytes \<Rightarrow> Stage2State \<Rightarrow> nat list \<times> bytes \<times> Stage2State" where
  "Stage2PositionsTrusted src positions slab st =
     (let m = \<lparr>Bad2 = Bad2 st, Depth2 = Depth2 st, PrevRowIO = PrevRowIO st, KeyRow8 = KeyRow8 st,
               inObj = PrevRowIO st AND 8, kinds = slab, scalars = []\<rparr>;
          (m, _) = stage2Run src positions (m, Dispatch) in
      (scalars m, kinds m, \<lparr>Bad2 = Bad2 m, Depth2 = Depth2 m, PrevRowIO = PrevRowIO m, KeyRow8 = KeyRow8 m\<rparr>))"


subsection \<open>The stack machine\<close>

datatype tok = TObject | TArray | TEndObject | TEndArray | TColon | TComma | TString | TScalar

datatype ctx = AtStart | AtOpen | AtColon | AtComma | AtKey | AtEnd

definition tok_of :: "byte \<Rightarrow> tok" where
  "tok_of c =
     (if c = ch_lbrace then TObject
      else if c = ch_lbracket then TArray
      else if c = ch_rbrace then TEndObject
      else if c = ch_rbracket then TEndArray
      else if c = ch_colon then TColon
      else if c = ch_comma then TComma
      else if c = ch_quote then TString
      else TScalar)"

text \<open>The stack holds True for an object and False for an array; a value may come at the start, behind a colon, and in an
  array behind the bracket or a comma.\<close>

definition in_object :: "bool list \<Rightarrow> bool" where
  "in_object stk \<longleftrightarrow> stk \<noteq> [] \<and> hd stk"

definition takes_value :: "ctx \<Rightarrow> bool list \<Rightarrow> bool" where
  "takes_value x stk = (case x of AtStart \<Rightarrow> True | AtColon \<Rightarrow> True | AtOpen \<Rightarrow> \<not> in_object stk | AtComma \<Rightarrow> \<not> in_object stk | _ \<Rightarrow> False)"

definition takes_key :: "ctx \<Rightarrow> bool list \<Rightarrow> bool" where
  "takes_key x stk = (x \<in> {AtOpen, AtComma} \<and> in_object stk)"

fun astep :: "tok \<Rightarrow> ctx \<times> bool list \<Rightarrow> (ctx \<times> bool list) option" where
  "astep TObject (x, stk) = (if takes_value x stk \<and> length stk < Stage2MaxDepth then Some (AtOpen, True # stk) else None)"
| "astep TArray (x, stk) = (if takes_value x stk \<and> length stk < Stage2MaxDepth then Some (AtOpen, False # stk) else None)"
| "astep TScalar (x, stk) = (if takes_value x stk then Some (AtEnd, stk) else None)"
| "astep TString (x, stk) = (if takes_value x stk then Some (AtEnd, stk) else if takes_key x stk then Some (AtKey, stk) else None)"
| "astep TColon (x, stk) = (if x = AtKey then Some (AtColon, stk) else None)"
| "astep TComma (x, stk) = (if x = AtEnd \<and> stk \<noteq> [] then Some (AtComma, stk) else None)"
| "astep TEndObject (x, stk) = (if x \<in> {AtOpen, AtEnd} \<and> in_object stk then Some (AtEnd, tl stk) else None)"
| "astep TEndArray (x, stk) = (if x \<in> {AtOpen, AtEnd} \<and> stk \<noteq> [] \<and> \<not> in_object stk then Some (AtEnd, tl stk) else None)"

primrec asteps :: "tok list \<Rightarrow> ctx \<times> bool list \<Rightarrow> (ctx \<times> bool list) option" where
  "asteps [] a = Some a"
| "asteps (t # ts) a = (case astep t a of None \<Rightarrow> None | Some a \<Rightarrow> asteps ts a)"

definition accepted :: "tok list \<Rightarrow> bool" where
  "accepted ts \<longleftrightarrow> asteps ts (AtStart, []) = Some (AtEnd, [])"

lemma asteps_append: "asteps (ts @ us) a = (case asteps ts a of None \<Rightarrow> None | Some a \<Rightarrow> asteps us a)"
  by (induction ts arbitrary: a) (auto split: option.splits)

subsection \<open>Tables as data\<close>

lemma pair_table:
  "stage2PairBad x =
     (if x \<in> {6, 14, 2, 10, 16, 17, 22, 23, 19, 24, 25, 30, 31, 27, 37, 34, 35, 45, 42, 43, 53, 50, 51, 61, 58, 59,
       64, 65, 70, 71, 72, 73, 78, 79, 80, 81, 86, 87, 94, 101, 98, 99, 109, 106, 107, 117, 114, 115, 125, 122, 123,
       228, 236, 128, 129, 134, 135, 136, 137, 142, 143} then 0 else 1)"
  unfolding stage2PairBad_def both_def legal_def Let_def by simp

lemma class_of: "ucast (stage2Class c) =
  (case tok_of c of TObject \<Rightarrow> stage2ccO | TArray \<Rightarrow> stage2ccA | TEndObject \<Rightarrow> stage2ccC | TEndArray \<Rightarrow> stage2ccB
    | TColon \<Rightarrow> stage2ccL | TComma \<Rightarrow> stage2ccM | TString \<Rightarrow> stage2ccQ | TScalar \<Rightarrow> stage2ccS)"
  by (simp add: tok_of_def stage2Class_def stage2ClsOff_def)

lemma tok_of_eq:
  "c = ch_lbrace \<longleftrightarrow> tok_of c = TObject" "c = ch_lbracket \<longleftrightarrow> tok_of c = TArray" "c = ch_rbrace \<longleftrightarrow> tok_of c = TEndObject"
  "c = ch_rbracket \<longleftrightarrow> tok_of c = TEndArray" "c = ch_colon \<longleftrightarrow> tok_of c = TColon" "c = ch_comma \<longleftrightarrow> tok_of c = TComma"
  "c = ch_quote \<longleftrightarrow> tok_of c = TString"
  by (simp_all add: tok_of_def)

subsection \<open>The machine refines the stack machine\<close>

definition kind_bit :: "bool list \<Rightarrow> 64 word" where
  "kind_bit stk = (if in_object stk then 8 else 0)"

fun slab_ok :: "bytes \<Rightarrow> bool list \<Rightarrow> bool" where
  "slab_ok ks [] = (ks ! 0 AND 8 = 0)"
| "slab_ok ks (o1 # stk) = (ks ! Suc (length stk) = (if o1 then 8 else 0) \<and> slab_ok ks stk)"

lemma slab_ok_update: "i > length stk \<Longrightarrow> slab_ok (ks[i := v]) stk = slab_ok ks stk"
  by (induction stk) auto

lemma slab_ok_top: "slab_ok ks stk \<Longrightarrow> ucast (ks ! length stk) AND 8 = kind_bit stk"
proof (cases stk)
  case Nil
  assume "slab_ok ks stk"
  then have "ucast (ks ! 0 AND 8) = (0 :: 64 word)" using Nil by simp
  then show ?thesis using Nil by (simp add: kind_bit_def in_object_def unsigned_and_eq)
qed (auto simp: kind_bit_def in_object_def)

definition prev_rows :: "ctx \<Rightarrow> bool list \<Rightarrow> 64 word set" where
  "prev_rows x stk = (case x of
      AtStart \<Rightarrow> {128}
    | AtOpen \<Rightarrow> {if in_object stk then 8 else 16}
    | AtColon \<Rightarrow> {72}
    | AtComma \<Rightarrow> {if in_object stk then 88 else 80}
    | AtKey \<Rightarrow> {232}
    | AtEnd \<Rightarrow> if in_object stk then {40, 56, 104, 120} else {32, 48, 96, 112})"

definition entries :: "ctx \<Rightarrow> bool list \<Rightarrow> label set" where
  "entries x stk = insert Dispatch (case x of
      AtStart \<Rightarrow> {}
    | AtOpen \<Rightarrow> {if in_object stk then FusedKey else FusedArrayValue}
    | AtColon \<Rightarrow> {FusedValue}
    | AtComma \<Rightarrow> {if in_object stk then FusedKey else FusedArrayValue}
    | AtKey \<Rightarrow> {FusedColon}
    | AtEnd \<Rightarrow> if in_object stk then {FusedComma} else if stk = [] then {} else {FusedArrayComma})"

definition shape :: "ctx \<Rightarrow> bool list \<Rightarrow> bool" where
  "shape x stk = (case x of AtStart \<Rightarrow> stk = [] | AtOpen \<Rightarrow> stk \<noteq> [] | AtComma \<Rightarrow> stk \<noteq> [] | AtColon \<Rightarrow> in_object stk
    | AtKey \<Rightarrow> in_object stk | AtEnd \<Rightarrow> True)"

definition models :: "'z Stage2State_scheme \<Rightarrow> bytes \<Rightarrow> 64 word \<Rightarrow> ctx \<Rightarrow> bool list \<Rightarrow> bool" where
  "models st ks io x stk \<longleftrightarrow>
     Bad2 st = 0 \<and> Depth2 st = int (length stk) \<and> length stk \<le> Stage2MaxDepth \<and> shape x stk \<and>
     io = kind_bit stk \<and> length ks = Stage2KindsLen \<and> slab_ok ks stk \<and> PrevRowIO st \<in> prev_rows x stk \<and>
     (x = AtKey \<or> KeyRow8 st = (if takes_key x stk then 8 else 0))"

definition at :: "machine \<Rightarrow> label \<Rightarrow> ctx \<Rightarrow> bool list \<Rightarrow> bool" where
  "at m l x stk \<longleftrightarrow> models m (kinds m) (inObj m) x stk \<and> l \<in> entries x stk"

lemma slot_small: "d \<le> 10001 \<Longrightarrow> slot (int d) = d"
  by (simp add: slot_def Stage2KindsLen_def)

lemma open_at:
  assumes "models m (kinds m) (inObj m) x stk" "length stk < Stage2MaxDepth" "l \<in> {FusedKey, Dispatch}" "l' \<in> {FusedArrayValue, Dispatch}"
  shows "at (openContainer2 8 m) l AtOpen (True # stk)" "at (openContainer2 0 m) l' AtOpen (False # stk)"
  using assms by (auto simp: openContainer2_def Let_def at_def models_def entries_def shape_def kind_bit_def in_object_def
      prev_rows_def takes_key_def slab_ok_update slot_small Stage2MaxDepth_def Stage2KindsLen_def slot_def nat_add_distrib)

lemma open_deep: "models m (kinds m) (inObj m) x stk \<Longrightarrow> \<not> length stk < Stage2MaxDepth \<Longrightarrow> Bad2 (openContainer2 k m) \<noteq> 0"
  by (auto simp: openContainer2_def Let_def models_def Stage2MaxDepth_def)

lemma close_at:
  assumes "models m (kinds m) (inObj m) x stk" "stk \<noteq> []"
  shows "at (fst (closeContainer2 32 m)) (snd (closeContainer2 32 m)) AtEnd (tl stk)"
    "at (fst (closeContainer2 48 m)) (snd (closeContainer2 48 m)) AtEnd (tl stk)"
proof -
  obtain o1 r where stk: "stk = o1 # r" using assms(2) by (cases stk) auto
  have k: "ucast (kinds m ! length r) AND 8 = kind_bit r" using assms(1) stk by (intro slab_ok_top) (simp add: models_def)
  show "at (fst (closeContainer2 32 m)) (snd (closeContainer2 32 m)) AtEnd (tl stk)"
    "at (fst (closeContainer2 48 m)) (snd (closeContainer2 48 m)) AtEnd (tl stk)"
    using assms(1) k stk
    by (auto simp: closeContainer2_def Let_def at_def models_def entries_def shape_def afterLabel_def slot_small Stage2MaxDepth_def
        prev_rows_def takes_key_def kind_bit_def)
qed

definition pair_ok :: "ctx \<Rightarrow> bool list \<Rightarrow> tok \<Rightarrow> bool" where
  "pair_ok x stk t = (t \<in> (case x of
      AtStart \<Rightarrow> {TObject, TArray, TString, TScalar}
    | AtOpen \<Rightarrow> if in_object stk then {TString, TEndObject} else {TObject, TArray, TString, TScalar, TEndArray}
    | AtColon \<Rightarrow> {TObject, TArray, TString, TScalar}
    | AtComma \<Rightarrow> if in_object stk then {TString} else {TObject, TArray, TString, TScalar}
    | AtKey \<Rightarrow> {TColon}
    | AtEnd \<Rightarrow> {TComma, TEndObject, TEndArray}))"

abbreviation (input) code :: "tok \<Rightarrow> 64 word" where
  "code t \<equiv> (case t of TObject \<Rightarrow> 0 | TArray \<Rightarrow> 1 | TEndObject \<Rightarrow> 2 | TEndArray \<Rightarrow> 3
    | TColon \<Rightarrow> 4 | TComma \<Rightarrow> 5 | TString \<Rightarrow> 6 | TScalar \<Rightarrow> 7)"

lemma pair_lookup:
  assumes "p \<in> prev_rows x stk"
  shows "ucast (stage2PairBad (p OR code t)) = (if pair_ok x stk t then 0 else 1 :: 64 word)"
  using assms unfolding prev_rows_def pair_ok_def pair_table
  by (cases x; cases t; cases "in_object stk"; simp; elim disjE; simp)

lemma astep_pair: "astep t (x, stk) = Some a \<Longrightarrow> pair_ok x stk t"
  by (cases x; cases t) (auto simp: pair_ok_def takes_value_def takes_key_def split: if_splits)

lemma bad_open [simp]: "Bad2 m \<noteq> 0 \<Longrightarrow> Bad2 (openContainer2 k m) \<noteq> 0"
  by (simp add: openContainer2_def Let_def or_eq_0_iff)

lemma bad_close [simp]: "Bad2 m \<noteq> 0 \<Longrightarrow> Bad2 (fst (closeContainer2 k m)) \<noteq> 0"
  by (simp add: closeContainer2_def Let_def or_eq_0_iff)

lemma bad_known: "Bad2 m OR ucast (stage2PairBad (PrevRowIO m OR cls)) \<noteq> 0 \<Longrightarrow> Bad2 (fst (handleKnown cls j m)) \<noteq> 0"
proof -
  assume bad: "Bad2 m OR ucast (stage2PairBad (PrevRowIO m OR cls)) \<noteq> 0"
  obtain m' where m': "m\<lparr>Bad2 := Bad2 m OR ucast (stage2PairBad (PrevRowIO m OR cls))\<rparr> = m'" by blast
  then have b: "Bad2 m' \<noteq> 0" using bad by auto
  show ?thesis unfolding handleKnown_def m' using b by (simp add: Let_def scalarAt_def or_eq_0_iff)
qed

lemma bad_step: "Bad2 m \<noteq> 0 \<Longrightarrow> Bad2 (fst (stage2Step src l m j)) \<noteq> 0"
  by (cases l) (simp_all add: stage2Step_def Let_def scalarAt_def bad_known or_eq_0_iff)

lemma same_scalars [simp]: "scalars (openContainer2 k m) = scalars m" "scalars (fst (closeContainer2 row m)) = scalars m"
  by (simp_all add: openContainer2_def closeContainer2_def Let_def)

definition refines :: "machine \<times> label \<Rightarrow> nat list \<Rightarrow> (ctx \<times> bool list) option \<Rightarrow> bool" where
  "refines ml js a = (case a of None \<Rightarrow> Bad2 (fst ml) \<noteq> 0
    | Some (x, stk) \<Rightarrow> at (fst ml) (snd ml) x stk \<and> scalars (fst ml) = js)"

lemma handleKnown_refines:
  assumes "models m (kinds m) (inObj m) x stk"
  shows "refines (handleKnown (code t) j m) (scalars m @ (if t = TScalar then [j] else [])) (astep t (x, stk))"
proof (cases "pair_ok x stk t")
  case False
  have "Bad2 (fst (handleKnown (code t) j m)) \<noteq> 0"
    using assms False pair_lookup [of "PrevRowIO m" x stk t] by (intro bad_known) (simp add: models_def or_eq_0_iff)
  moreover have "astep t (x, stk) = None" using False astep_pair [of t x stk] by (cases "astep t (x, stk)") auto
  ultimately show ?thesis by (simp add: refines_def)
next
  case True
  have b: "Bad2 m = 0" and io: "inObj m = kind_bit stk" and d: "Depth2 m = int (length stk)" and sh: "shape x stk"
    and key: "x = AtKey \<or> KeyRow8 m = (if takes_key x stk then 8 else 0)"
    using assms by (auto simp: models_def)
  have look: "ucast (stage2PairBad (PrevRowIO m OR code t)) = (0 :: 64 word)"
    using assms True pair_lookup [of "PrevRowIO m" x stk t] by (simp add: models_def)
  have clear: "m\<lparr>Bad2 := 0\<rparr> = m" using b by (cases m) simp
  have k: "kind_bit stk = (if in_object stk then 8 else 0)" by (simp add: kind_bit_def)
  show ?thesis
  proof (cases t)
    case TObject
    have "takes_value x stk" using True TObject by (cases x) (auto simp: pair_ok_def takes_value_def split: if_splits)
    then show ?thesis using open_at(1) [OF assms, of FusedKey Dispatch] open_deep [OF assms, of 8] look TObject b
      by (auto simp: refines_def handleKnown_def clear)
  next
    case TArray
    have "takes_value x stk" using True TArray by (cases x) (auto simp: pair_ok_def takes_value_def split: if_splits)
    then show ?thesis using open_at(2) [OF assms, of Dispatch FusedArrayValue] open_deep [OF assms, of 0] look TArray b
      by (auto simp: refines_def handleKnown_def clear)
  next
    case TEndObject
    have x: "x \<in> {AtOpen, AtEnd}" using True TEndObject by (cases x) (auto simp: pair_ok_def split: if_splits)
    show ?thesis
    proof (cases "in_object stk")
      case True
      then show ?thesis using close_at(1) [OF assms] x look TEndObject b io
        by (auto simp: refines_def handleKnown_def clear k in_object_def Let_def)
    next
      case False
      then show ?thesis using x look TEndObject b io by (auto simp: refines_def handleKnown_def k Let_def closeContainer2_def)
    qed
  next
    case TEndArray
    have x: "x \<in> {AtOpen, AtEnd}" using True TEndArray by (cases x) (auto simp: pair_ok_def split: if_splits)
    consider "in_object stk" | "\<not> in_object stk" "stk \<noteq> []" | "stk = []" by blast
    then show ?thesis
    proof cases
      case 1
      then show ?thesis using x look TEndArray b io by (auto simp: refines_def handleKnown_def k Let_def closeContainer2_def)
    next
      case 2
      then show ?thesis using close_at(2) [OF assms] x look TEndArray b io
        by (auto simp: refines_def handleKnown_def clear k in_object_def Let_def)
    next
      case 3
      then show ?thesis using x look TEndArray b io d by (auto simp: refines_def handleKnown_def k Let_def closeContainer2_def or_eq_0_iff)
    qed
  next
    case TColon
    have x: "x = AtKey" using True TColon by (cases x) (auto simp: pair_ok_def split: if_splits)
    then show ?thesis using assms look TColon b io sh
      by (auto simp: refines_def handleKnown_def k at_def models_def shape_def entries_def prev_rows_def takes_key_def)
  next
    case TComma
    have x: "x = AtEnd" using True TComma by (cases x) (auto simp: pair_ok_def split: if_splits)
    then show ?thesis using assms look TComma b io sh
      by (auto simp: refines_def handleKnown_def k at_def models_def shape_def entries_def prev_rows_def takes_key_def Let_def in_object_def)
  next
    case TString
    have x: "takes_value x stk \<or> takes_key x stk" "x \<noteq> AtKey" using True TString
      by (cases x; auto simp: pair_ok_def takes_value_def takes_key_def split: if_splits)+
    show ?thesis
    proof (cases "takes_key x stk")
      case True
      then have "\<not> takes_value x stk" "in_object stk" by (auto simp: takes_key_def takes_value_def)
      then show ?thesis using True assms look TString b io key x(2)
        by (auto simp: refines_def handleKnown_def k at_def models_def shape_def entries_def prev_rows_def takes_key_def Let_def in_object_def)
    next
      case False
      then show ?thesis using x assms look TString b io key x(2)
        by (auto simp: refines_def handleKnown_def k at_def models_def shape_def entries_def prev_rows_def takes_key_def Let_def afterLabel_def in_object_def)
    qed
  next
    case TScalar
    have x: "takes_value x stk" using True TScalar by (cases x) (auto simp: pair_ok_def takes_value_def split: if_splits)
    then show ?thesis using assms look TScalar b io
      by (auto simp: refines_def handleKnown_def k at_def models_def shape_def entries_def prev_rows_def takes_key_def Let_def afterLabel_def in_object_def scalarAt_def)
  qed
qed

lemma step_refines:
  assumes "at m l x stk"
  shows "refines (stage2Step src l m j) (scalars m @ (if tok_of (src ! j) = TScalar then [j] else [])) (astep (tok_of (src ! j)) (x, stk))"
proof -
  define t where "t = tok_of (src ! j)"
  have R: "models m (kinds m) (inObj m) x stk" and l: "l \<in> entries x stk" using assms by (auto simp: at_def)
  have cls: "ucast (stage2Class (src ! j)) = code t" by (simp add: class_of t_def)
  have known: "refines (handleKnown (code t) j m) (scalars m @ (if t = TScalar then [j] else [])) (astep t (x, stk))"
    by (rule handleKnown_refines [OF R])
  have k: "kind_bit stk = (if in_object stk then 8 else 0)" by (simp add: kind_bit_def)
  note kinds_of = tok_of_eq [of "src ! j", folded t_def]
  note parts = refines_def at_def models_def shape_def entries_def prev_rows_def takes_key_def takes_value_def kind_bit_def
  have opens: "takes_value x stk \<Longrightarrow> refines (openContainer2 8 m, FusedKey) (scalars m) (astep TObject (x, stk))"
    "takes_value x stk \<Longrightarrow> refines (openContainer2 0 m, FusedArrayValue) (scalars m) (astep TArray (x, stk))"
    using open_at(1) [OF R, of FusedKey Dispatch] open_at(2) [OF R, of Dispatch FusedArrayValue] open_deep [OF R] by (auto simp: refines_def)
  have closes: "x = AtEnd \<Longrightarrow> in_object stk \<Longrightarrow> refines (closeContainer2 32 m) (scalars m) (astep TEndObject (x, stk))"
    "x = AtEnd \<Longrightarrow> stk \<noteq> [] \<Longrightarrow> \<not> in_object stk \<Longrightarrow> refines (closeContainer2 48 m) (scalars m) (astep TEndArray (x, stk))"
    using close_at [OF R] by (auto simp: refines_def in_object_def)
  have "refines (stage2Step src l m j) (scalars m @ (if t = TScalar then [j] else [])) (astep t (x, stk))"
  proof (cases l)
    case Dispatch
    then show ?thesis using known by (simp add: stage2Step_def cls)
  next
    case FusedKey
    have x: "x \<in> {AtOpen, AtComma}" "in_object stk" using l FusedKey by (auto simp: entries_def split: ctx.splits if_splits)
    then show ?thesis using known R FusedKey
      by (cases "t = TString") (auto simp: stage2Step_def cls kinds_of k parts)
  next
    case FusedColon
    have x: "x = AtKey" using l FusedColon by (auto simp: entries_def split: ctx.splits if_splits)
    then show ?thesis using known R FusedColon
      by (cases "t = TColon") (auto simp: stage2Step_def cls kinds_of k parts)
  next
    case FusedValue
    have x: "x = AtColon" using l FusedValue by (auto simp: entries_def split: ctx.splits if_splits)
    then have v: "takes_value x stk" by (simp add: takes_value_def)
    show ?thesis using known R FusedValue opens [OF v] x
      by (cases t) (auto simp: stage2Step_def cls kinds_of k scalarAt_def parts)
  next
    case FusedComma
    have x: "x = AtEnd" "in_object stk" using l FusedComma by (auto simp: entries_def split: ctx.splits if_splits)
    then have ne: "stk \<noteq> []" by (auto simp: in_object_def)
    show ?thesis using known R FusedComma closes(1) [OF x] x ne
      by (cases t) (auto simp: stage2Step_def cls kinds_of k parts)
  next
    case FusedArrayComma
    have x: "x = AtEnd" "stk \<noteq> []" "\<not> in_object stk" using l FusedArrayComma by (auto simp: entries_def split: ctx.splits if_splits)
    show ?thesis using known R FusedArrayComma closes(2) [OF x] x
      by (cases t) (auto simp: stage2Step_def cls kinds_of k parts)
  next
    case FusedArrayValue
    have x: "x \<in> {AtOpen, AtComma}" "stk \<noteq> []" "\<not> in_object stk"
      using l R FusedArrayValue by (auto simp: entries_def models_def shape_def split: ctx.splits if_splits)
    then have v: "takes_value x stk" by (auto simp: takes_value_def)
    show ?thesis using known R FusedArrayValue opens [OF v] x
      by (cases t) (auto simp: stage2Step_def cls kinds_of k scalarAt_def parts)
  qed
  then show ?thesis by (simp add: t_def)
qed

subsection \<open>Runs and calls\<close>

lemma stage2Run_simps [simp]:
  "stage2Run src [] ml = ml"
  "stage2Run src (j # js) ml = stage2Run src js (stage2Step src (snd ml) (fst ml) j)"
  by (simp_all add: stage2Run_def case_prod_unfold)

lemma run_bad: "Bad2 (fst ml) \<noteq> 0 \<Longrightarrow> Bad2 (fst (stage2Run src js ml)) \<noteq> 0"
  by (induction js arbitrary: ml) (simp_all add: bad_step)

definition toks_at :: "bytes \<Rightarrow> nat list \<Rightarrow> tok list" where
  "toks_at src js = map (\<lambda>j. tok_of (src ! j)) js"

definition scalars_of :: "bytes \<Rightarrow> nat list \<Rightarrow> nat list" where
  "scalars_of src js = filter (\<lambda>j. tok_of (src ! j) = TScalar) js"

lemma scalars_of_append: "scalars_of src (js @ ks) = scalars_of src js @ scalars_of src ks"
  by (simp add: scalars_of_def)

lemma toks_at_append: "toks_at src (js @ ks) = toks_at src js @ toks_at src ks"
  by (simp add: toks_at_def)

lemma run_refines:
  "at m l x stk \<Longrightarrow> refines (stage2Run src js (m, l)) (scalars m @ scalars_of src js) (asteps (toks_at src js) (x, stk))"
proof (induction js arbitrary: m l x stk)
  case Nil
  then show ?case by (simp add: refines_def scalars_of_def toks_at_def)
next
  case (Cons j js)
  obtain m' l' where step: "stage2Step src l m j = (m', l')" by fastforce
  note one = step_refines [OF Cons.prems, of src j, unfolded step]
  show ?case
  proof (cases "astep (tok_of (src ! j)) (x, stk)")
    case None
    then show ?thesis using one run_bad [of "(m', l')" src js] by (simp add: refines_def toks_at_def step)
  next
    case (Some a)
    then have next_at: "at m' l' (fst a) (snd a)" "scalars m' = scalars m @ (if tok_of (src ! j) = TScalar then [j] else [])"
      using one by (auto simp: refines_def split: prod.splits)
    show ?thesis using Cons.IH [OF next_at(1)] next_at(2) Some
      by (cases "tok_of (src ! j) = TScalar") (simp_all add: toks_at_def scalars_of_def step)
  qed
qed

definition initial_machine :: "bytes \<Rightarrow> Stage2State \<Rightarrow> machine" where
  "initial_machine slab st = \<lparr>Bad2 = Bad2 st, Depth2 = Depth2 st, PrevRowIO = PrevRowIO st, KeyRow8 = KeyRow8 st,
     inObj = PrevRowIO st AND 8, kinds = slab, scalars = []\<rparr>"

lemma prev_rows_kind: "p \<in> prev_rows x stk \<Longrightarrow> shape x stk \<Longrightarrow> p AND 8 = kind_bit stk"
  by (cases x) (auto simp: prev_rows_def kind_bit_def shape_def in_object_def split: if_splits)

lemma call_refines:
  assumes "models st slab io x stk" "Stage2PositionsTrusted src js slab st = (sc, slab', st')"
  shows "case asteps (toks_at src js) (x, stk) of None \<Rightarrow> Bad2 st' \<noteq> 0
    | Some (x', stk') \<Rightarrow> models st' slab' (kind_bit stk') x' stk' \<and> sc = scalars_of src js"
proof -
  have "at (initial_machine slab st) Dispatch x stk"
    using assms(1) prev_rows_kind by (auto simp: at_def models_def initial_machine_def entries_def)
  from run_refines [OF this, of src js] show ?thesis
    using assms(2) unfolding Stage2PositionsTrusted_def Let_def initial_machine_def
    by (auto simp: refines_def at_def models_def case_prod_unfold split: option.splits)
qed

lemma call_bad: "Bad2 st \<noteq> 0 \<Longrightarrow> Stage2PositionsTrusted src js slab st = (sc, slab', st') \<Longrightarrow> Bad2 st' \<noteq> 0"
  using run_bad [of "(initial_machine slab st, Dispatch)" src js]
  by (auto simp: Stage2PositionsTrusted_def initial_machine_def case_prod_unfold Let_def)

lemma reset_models: "models Stage2Reset (replicate Stage2KindsLen 0) 0 AtStart []"
  by (simp add: models_def Stage2Reset_def shape_def kind_bit_def in_object_def prev_rows_def takes_key_def Stage2KindsLen_def Stage2MaxDepth_def)

lemma finish_bad: "Bad2 st \<noteq> 0 \<Longrightarrow> \<not> Stage2Finish st"
  by (simp add: Stage2Finish_def or_eq_0_iff)

lemma finish_models: "models st slab io x stk \<Longrightarrow> Stage2Finish st \<longleftrightarrow> (x, stk) = (AtEnd, [])"
  by (cases x) (auto simp: models_def Stage2Finish_def prev_rows_def stage2EOFBad_def or_eq_0_iff shape_def in_object_def split: if_splits)

text \<open>A document arrives in batches of positions; every call reports the scalars of its batch.\<close>

primrec stage2Batches :: "bytes \<Rightarrow> nat list list \<Rightarrow> bytes \<Rightarrow> Stage2State \<Rightarrow> nat list \<times> Stage2State" where
  "stage2Batches src [] slab st = ([], st)"
| "stage2Batches src (js # bs) slab st =
     (let (sc, slab, st) = Stage2PositionsTrusted src js slab st; (scs, st) = stage2Batches src bs slab st in (sc @ scs, st))"

lemma batches_bad: "Bad2 st \<noteq> 0 \<Longrightarrow> Bad2 (snd (stage2Batches src bs slab st)) \<noteq> 0"
proof (induction bs arbitrary: slab st)
  case (Cons js bs)
  obtain sc slab' st' where c: "Stage2PositionsTrusted src js slab st = (sc, slab', st')" by (metis prod_cases3)
  then have "Bad2 st' \<noteq> 0" by (rule call_bad [OF Cons.prems])
  from Cons.IH [OF this, of slab'] show ?case by (simp add: c case_prod_unfold Let_def)
qed simp

lemma batches_refine:
  assumes "models st slab io x stk" "stage2Batches src bs slab st = (sc, st')"
  shows "case asteps (toks_at src (concat bs)) (x, stk) of None \<Rightarrow> Bad2 st' \<noteq> 0
    | Some (x', stk') \<Rightarrow> (\<exists>slab'. models st' slab' (kind_bit stk') x' stk') \<and> sc = scalars_of src (concat bs)"
  using assms
proof (induction bs arbitrary: slab st io x stk sc)
  case Nil
  then show ?case by (auto simp: toks_at_def scalars_of_def models_def)
next
  case (Cons js bs)
  obtain sc1 slab1 st1 where c: "Stage2PositionsTrusted src js slab st = (sc1, slab1, st1)" by (metis prod_cases3)
  obtain sc2 where r: "stage2Batches src bs slab1 st1 = (sc2, st')" "sc = sc1 @ sc2" using Cons.prems(2) c by (auto split: prod.splits)
  note one = call_refines [OF Cons.prems(1) c]
  show ?case
  proof (cases "asteps (toks_at src js) (x, stk)")
    case None
    then have "Bad2 st1 \<noteq> 0" using one by simp
    then show ?thesis using None batches_bad [of st1 src bs slab1] r(1) by (simp add: toks_at_append asteps_append)
  next
    case (Some a)
    then have m: "models st1 slab1 (kind_bit (snd a)) (fst a) (snd a)" and s: "sc1 = scalars_of src js" using one by (auto split: prod.splits)
    show ?thesis using Cons.IH [OF m r(1)] Some s r(2)
      by (simp add: toks_at_append asteps_append scalars_of_append split: option.splits prod.splits)
  qed
qed

text \<open>C31: fed with the token positions of a document in batches of any sizes, the fused machine with its pair table and its slab of
  container kinds gives the verdict of the stack machine on the tokens, nesting limit included, and on acceptance reports exactly the
  positions of the scalar tokens, in order.\<close>

theorem Stage2_refines_stack_machine:
  "(case stage2Batches src bs (replicate Stage2KindsLen 0) Stage2Reset of
      (sc, st) \<Rightarrow> if Stage2Finish st then Some sc else None)
   = (if accepted (toks_at src (concat bs)) then Some (scalars_of src (concat bs)) else None)"
proof -
  obtain sc st where b: "stage2Batches src bs (replicate Stage2KindsLen 0) Stage2Reset = (sc, st)" by fastforce
  show ?thesis using batches_refine [OF reset_models b] finish_bad [of st] finish_models [of st] b
    by (auto simp: accepted_def split: option.splits)
qed

end
