(* ===== verification/Tokens.thy ===== *)
theory Tokens
  imports Stage2 Grammar
begin

text \<open>
  The stack machine of \<open>Stage2\<close> decides the grammar: a sequence of lexemes with the white space in front of each is
  accepted exactly when it spells a syntax tree within the nesting limit.
\<close>

subsection \<open>Lexemes\<close>

type_synonym lexeme = "bytes \<times> tok \<times> bytes"

abbreviation tok :: "lexeme \<Rightarrow> tok" where "tok lx \<equiv> fst (snd lx)"

definition literals :: "bytes set" where
  "literals = {lit_null, lit_true, lit_false}"

definition lexeme_ok :: "lexeme \<Rightarrow> bool" where
  "lexeme_ok lx = (case lx of (w, t, s) \<Rightarrow> spaces w \<and> (case t of
      TObject \<Rightarrow> s = [ch_lbrace] | TArray \<Rightarrow> s = [ch_lbracket] | TEndObject \<Rightarrow> s = [ch_rbrace] | TEndArray \<Rightarrow> s = [ch_rbracket]
    | TColon \<Rightarrow> s = [ch_colon] | TComma \<Rightarrow> s = [ch_comma]
    | TString \<Rightarrow> (\<exists>raw. s = ch_quote # raw @ [ch_quote] \<and> json_string raw)
    | TScalar \<Rightarrow> json_number s \<or> s \<in> literals))"

definition unlex :: "lexeme list \<Rightarrow> bytes" where
  "unlex ls = concat (map (\<lambda>(w, t, s). w @ s) ls)"

lemma unlex_simps [simp]: "unlex [] = []" "unlex ((w, t, s) # ls) = w @ s @ unlex ls" "unlex (ls @ ms) = unlex ls @ unlex ms"
  by (simp_all add: unlex_def)

abbreviation (input) quoted :: "bytes \<Rightarrow> bytes" where "quoted raw \<equiv> ch_quote # raw @ [ch_quote]"

primrec lex :: "cst \<Rightarrow> bytes \<Rightarrow> lexeme list" and lex_elems :: "celems \<Rightarrow> lexeme list" and lex_mems :: "cmems \<Rightarrow> lexeme list" where
  "lex CNull w = [(w, TScalar, lit_null)]"
| "lex CTrue w = [(w, TScalar, lit_true)]"
| "lex CFalse w = [(w, TScalar, lit_false)]"
| "lex (CNum s) w = [(w, TScalar, s)]"
| "lex (CStr s) w = [(w, TString, quoted s)]"
| "lex (CArr0 v) w = [(w, TArray, [ch_lbracket]), (v, TEndArray, [ch_rbracket])]"
| "lex (CArr es) w = (w, TArray, [ch_lbracket]) # lex_elems es"
| "lex (CObj0 v) w = [(w, TObject, [ch_lbrace]), (v, TEndObject, [ch_rbrace])]"
| "lex (CObj ms) w = (w, TObject, [ch_lbrace]) # lex_mems ms"
| "lex_elems (ELast w v w') = lex v w @ [(w', TEndArray, [ch_rbracket])]"
| "lex_elems (EMore w v w' es) = lex v w @ (w', TComma, [ch_comma]) # lex_elems es"
| "lex_mems (MLast w k a b v w') = (w, TString, quoted k) # (a, TColon, [ch_colon]) # lex v b @ [(w', TEndObject, [ch_rbrace])]"
| "lex_mems (MMore w k a b v w' ms) =
     (w, TString, quoted k) # (a, TColon, [ch_colon]) # lex v b @ (w', TComma, [ch_comma]) # lex_mems ms"

lemma unlex_lex:
  "unlex (lex t w) = w @ render t" "unlex (lex_elems es) = render_elems es" "unlex (lex_mems ms) = render_mems ms"
  by (induction t and es and ms arbitrary: w) simp_all

lemma lex_ok:
  "wf t \<Longrightarrow> spaces w \<Longrightarrow> list_all lexeme_ok (lex t w)" "wf_elems es \<Longrightarrow> list_all lexeme_ok (lex_elems es)"
  "wf_mems ms \<Longrightarrow> list_all lexeme_ok (lex_mems ms)"
  by (induction t and es and ms arbitrary: w) (auto simp: lexeme_ok_def literals_def)

lemma lex_nonempty [simp]: "lex t w \<noteq> []"
  by (cases t) simp_all

subsection \<open>Trees are accepted\<close>

lemma lex_accepted:
  "takes_value x stk \<Longrightarrow> nesting t + length stk \<le> Stage2MaxDepth \<Longrightarrow> asteps (map tok (lex t w)) (x, stk) = Some (AtEnd, stk)"
  "x \<in> {AtOpen, AtComma} \<Longrightarrow> nesting_elems es + Suc (length stk) \<le> Stage2MaxDepth
    \<Longrightarrow> asteps (map tok (lex_elems es)) (x, False # stk) = Some (AtEnd, stk)"
  "x \<in> {AtOpen, AtComma} \<Longrightarrow> nesting_mems ms + Suc (length stk) \<le> Stage2MaxDepth
    \<Longrightarrow> asteps (map tok (lex_mems ms)) (x, True # stk) = Some (AtEnd, stk)"
proof (induction t and es and ms arbitrary: x stk w and x stk and x stk)
  case (ELast w v w')
  then have "takes_value x (False # stk)" by (auto simp: takes_value_def in_object_def)
  then show ?case using ELast by (simp add: asteps_append in_object_def)
next
  case (EMore w v w' es)
  then have "takes_value x (False # stk)" by (auto simp: takes_value_def in_object_def)
  then show ?case using EMore by (simp add: asteps_append in_object_def)
next
  case (MLast w k a b v w')
  then have "\<not> takes_value x (True # stk)" "takes_key x (True # stk)" "takes_value AtColon (True # stk)"
    by (auto simp: takes_value_def takes_key_def in_object_def)
  then show ?case using MLast by (simp add: asteps_append in_object_def)
next
  case (MMore w k a b v w' ms)
  then have "\<not> takes_value x (True # stk)" "takes_key x (True # stk)" "takes_value AtColon (True # stk)"
    by (auto simp: takes_value_def takes_key_def in_object_def)
  then show ?case using MMore by (simp add: asteps_append in_object_def)
qed (auto simp: in_object_def)

subsection \<open>What is accepted is a tree\<close>

definition starts_with :: "tok \<Rightarrow> lexeme list \<Rightarrow> bool" where
  "starts_with t ls \<longleftrightarrow> ls \<noteq> [] \<and> tok (hd ls) = t"

text \<open>The rest of an accepted run: a value, the elements behind a bracket, the members behind a brace.\<close>

definition finishes :: "lexeme list \<Rightarrow> ctx \<times> bool list \<Rightarrow> bool" where
  "finishes ls a \<longleftrightarrow> list_all lexeme_ok ls \<and> asteps (map tok ls) a = Some (AtEnd, []) \<and> length (snd a) \<le> Stage2MaxDepth"

definition value_split :: "lexeme list \<Rightarrow> bool list \<Rightarrow> bool" where
  "value_split ls stk \<longleftrightarrow> (\<exists>w t rest. ls = lex t w @ rest \<and> wf t \<and> spaces w \<and> nesting t + length stk \<le> Stage2MaxDepth
     \<and> finishes rest (AtEnd, stk))"

definition elems_split :: "lexeme list \<Rightarrow> bool list \<Rightarrow> bool" where
  "elems_split ls stk \<longleftrightarrow> (\<exists>es rest. ls = lex_elems es @ rest \<and> wf_elems es \<and> nesting_elems es + Suc (length stk) \<le> Stage2MaxDepth
     \<and> finishes rest (AtEnd, stk))"

definition mems_split :: "lexeme list \<Rightarrow> bool list \<Rightarrow> bool" where
  "mems_split ls stk \<longleftrightarrow> (\<exists>ms rest. ls = lex_mems ms @ rest \<and> wf_mems ms \<and> nesting_mems ms + Suc (length stk) \<le> Stage2MaxDepth
     \<and> finishes rest (AtEnd, stk))"

lemma finishes_Cons:
  "finishes ((w, t, s) # ls) (x, stk) \<Longrightarrow> \<exists>a. astep t (x, stk) = Some a \<and> finishes ls a \<and> lexeme_ok (w, t, s) \<and> length stk \<le> Stage2MaxDepth"
  by (cases t) (auto simp: finishes_def split: option.splits if_splits)

lemma finishes_Nil: "finishes [] (x, stk) \<longleftrightarrow> x = AtEnd \<and> stk = []"
  by (auto simp: finishes_def)

lemma value_split_intro:
  "wf t \<Longrightarrow> spaces w \<Longrightarrow> nesting t + length stk \<le> Stage2MaxDepth \<Longrightarrow> finishes rest (AtEnd, stk) \<Longrightarrow> value_split (lex t w @ rest) stk"
  unfolding value_split_def by blast

lemma value_step:
  assumes f: "finishes ls (x, stk)" and v: "takes_value x stk" "x = AtOpen \<longrightarrow> \<not> starts_with TEndArray ls"
    and E: "\<And>ls' stk. length ls' < length ls \<Longrightarrow> finishes ls' (AtOpen, False # stk) \<Longrightarrow> \<not> starts_with TEndArray ls' \<Longrightarrow> elems_split ls' stk"
    and M: "\<And>ls' stk. length ls' < length ls \<Longrightarrow> finishes ls' (AtOpen, True # stk) \<Longrightarrow> \<not> starts_with TEndObject ls' \<Longrightarrow> mems_split ls' stk"
  shows "value_split ls stk"
proof (cases ls)
  case Nil
  then show ?thesis using f v(1) by (auto simp: finishes_Nil takes_value_def)
next
  case (Cons lx rest)
  obtain w t s where lx: "lx = (w, t, s)" by (cases lx) auto
  obtain a where a: "astep t (x, stk) = Some a" "finishes rest a" "lexeme_ok (w, t, s)" "length stk \<le> Stage2MaxDepth"
    using finishes_Cons f Cons lx by metis
  have x: "x \<noteq> AtEnd" "x \<noteq> AtKey" using v(1) by (auto simp: takes_value_def)
  have w: "spaces w" using a(3) by (simp add: lexeme_ok_def)
  show ?thesis
  proof (cases t)
    case TObject
    then have d: "length stk < Stage2MaxDepth" and o1: "finishes rest (AtOpen, True # stk)" "s = [ch_lbrace]"
      using a by (auto simp: lexeme_ok_def split: if_splits)
    show ?thesis
    proof (cases "starts_with TEndObject rest")
      case True
      then obtain v s' rest' where r: "rest = (v, TEndObject, s') # rest'" by (cases rest) (auto simp: starts_with_def)
      then have "finishes rest' (AtEnd, stk)" "s' = [ch_rbrace]" "spaces v"
        using finishes_Cons [OF o1(1) [unfolded r]] by (auto simp: lexeme_ok_def in_object_def)
      then show ?thesis using value_split_intro [of "CObj0 v" w stk rest'] Cons lx TObject o1(2) r w d by simp
    next
      case False
      then obtain ms rest' where "rest = lex_mems ms @ rest'" "wf_mems ms" "nesting_mems ms + Suc (length stk) \<le> Stage2MaxDepth" "finishes rest' (AtEnd, stk)"
        using M [OF _ o1(1)] Cons by (auto simp: mems_split_def)
      then show ?thesis using value_split_intro [of "CObj ms" w stk rest'] Cons lx TObject o1(2) w by simp
    qed
  next
    case TArray
    then have d: "length stk < Stage2MaxDepth" and o1: "finishes rest (AtOpen, False # stk)" "s = [ch_lbracket]"
      using a by (auto simp: lexeme_ok_def split: if_splits)
    show ?thesis
    proof (cases "starts_with TEndArray rest")
      case True
      then obtain v s' rest' where r: "rest = (v, TEndArray, s') # rest'" by (cases rest) (auto simp: starts_with_def)
      then have "finishes rest' (AtEnd, stk)" "s' = [ch_rbracket]" "spaces v"
        using finishes_Cons [OF o1(1) [unfolded r]] by (auto simp: lexeme_ok_def in_object_def)
      then show ?thesis using value_split_intro [of "CArr0 v" w stk rest'] Cons lx TArray o1(2) r w d by simp
    next
      case False
      then obtain es rest' where "rest = lex_elems es @ rest'" "wf_elems es" "nesting_elems es + Suc (length stk) \<le> Stage2MaxDepth" "finishes rest' (AtEnd, stk)"
        using E [OF _ o1(1)] Cons by (auto simp: elems_split_def)
      then show ?thesis using value_split_intro [of "CArr es" w stk rest'] Cons lx TArray o1(2) w by simp
    qed
  next
    case TScalar
    then have "json_number s \<or> s \<in> literals" "finishes rest (AtEnd, stk)" using a by (auto simp: lexeme_ok_def split: if_splits)
    then show ?thesis
      using value_split_intro [of "CNum s" w stk rest] value_split_intro [of CNull w stk rest] value_split_intro [of CTrue w stk rest]
        value_split_intro [of CFalse w stk rest] Cons lx TScalar w a(4) by (auto simp: literals_def)
  next
    case TString
    then obtain raw where "s = quoted raw" "json_string raw" "finishes rest (AtEnd, stk)"
      using a v(1) by (auto simp: lexeme_ok_def)
    then show ?thesis using value_split_intro [of "CStr raw" w stk rest] Cons lx TString w a(4) by simp
  next
    case TEndObject
    then show ?thesis using a(1) v x Cons lx by (auto simp: starts_with_def takes_value_def split: if_splits)
  next
    case TEndArray
    then show ?thesis using a(1) v x Cons lx by (auto simp: starts_with_def split: if_splits)
  next
    case TColon
    then show ?thesis using a(1) x by (simp split: if_splits)
  next
    case TComma
    then show ?thesis using a(1) x by (simp split: if_splits)
  qed
qed

lemma elems_step:
  assumes f: "finishes ls (x, False # stk)" and x: "x = AtComma \<or> x = AtOpen \<and> \<not> starts_with TEndArray ls"
    and V: "\<And>x stk. finishes ls (x, stk) \<Longrightarrow> takes_value x stk \<Longrightarrow> x = AtOpen \<longrightarrow> \<not> starts_with TEndArray ls \<Longrightarrow> value_split ls stk"
    and E: "\<And>ls'. length ls' < length ls \<Longrightarrow> finishes ls' (AtComma, False # stk) \<Longrightarrow> elems_split ls' stk"
  shows "elems_split ls stk"
proof -
  have "takes_value x (False # stk)" using x by (auto simp: takes_value_def in_object_def)
  from V [OF f this] x obtain w v rest where v: "ls = lex v w @ rest" "wf v" "spaces w" "nesting v + Suc (length stk) \<le> Stage2MaxDepth"
      "finishes rest (AtEnd, False # stk)" by (auto simp: value_split_def)
  obtain w' t s rest' where r: "rest = (w', t, s) # rest'" using v(5) by (cases rest) (auto simp: finishes_Nil)
  obtain a where a: "astep t (AtEnd, False # stk) = Some a" "finishes rest' a" "lexeme_ok (w', t, s)"
    using finishes_Cons [OF v(5) [unfolded r]] by blast
  have w': "spaces w'" using a(3) by (simp add: lexeme_ok_def)
  consider "t = TComma" | "t = TEndArray" using a(1) by (cases t) (auto simp: takes_value_def takes_key_def in_object_def)
  then show ?thesis
  proof cases
    case 1
    then have "finishes rest' (AtComma, False # stk)" "s = [ch_comma]" using a by (auto simp: lexeme_ok_def)
    moreover have "length rest' < length ls" using v(1) r by simp
    ultimately obtain es rest'' where "rest' = lex_elems es @ rest''" "wf_elems es" "nesting_elems es + Suc (length stk) \<le> Stage2MaxDepth" "finishes rest'' (AtEnd, stk)"
      using E [of rest'] by (auto simp: elems_split_def)
    then show ?thesis unfolding elems_split_def using v r 1 w' \<open>s = [ch_comma]\<close>
      by (intro exI [of _ "EMore w v w' es"] exI [of _ rest'']) simp
  next
    case 2
    then have "finishes rest' (AtEnd, stk)" "s = [ch_rbracket]" using a by (auto simp: lexeme_ok_def in_object_def)
    then show ?thesis unfolding elems_split_def using v r 2 w'
      by (intro exI [of _ "ELast w v w'"] exI [of _ rest']) simp
  qed
qed

lemma mems_step:
  assumes f: "finishes ls (x, True # stk)" and x: "x = AtComma \<or> x = AtOpen \<and> \<not> starts_with TEndObject ls"
    and V: "\<And>ls'. length ls' < length ls \<Longrightarrow> finishes ls' (AtColon, True # stk) \<Longrightarrow> value_split ls' (True # stk)"
    and M: "\<And>ls'. length ls' < length ls \<Longrightarrow> finishes ls' (AtComma, True # stk) \<Longrightarrow> mems_split ls' stk"
  shows "mems_split ls stk"
proof -
  obtain w t s ls1 where l: "ls = (w, t, s) # ls1" using f x by (cases ls) (auto simp: finishes_Nil)
  obtain a where a: "astep t (x, True # stk) = Some a" "finishes ls1 a" "lexeme_ok (w, t, s)" using finishes_Cons [OF f [unfolded l]] by blast
  have t: "t = TString" "a = (AtKey, True # stk)" using a(1) x l
    by (cases t; auto simp: starts_with_def takes_value_def takes_key_def in_object_def split: if_splits)+
  obtain k where k: "s = quoted k" "json_string k" "spaces w" using a(3) t(1) by (auto simp: lexeme_ok_def)
  obtain b0 t' s' ls2 where l1: "ls1 = (b0, t', s') # ls2" using a(2) t(2) by (cases ls1) (auto simp: finishes_Nil)
  obtain a' where a': "astep t' (AtKey, True # stk) = Some a'" "finishes ls2 a'" "lexeme_ok (b0, t', s')"
    using finishes_Cons [of b0 t' s' ls2 AtKey "True # stk"] a(2) t(2) l1 by auto
  have c: "t' = TColon" "a' = (AtColon, True # stk)" using a'(1) by (cases t'; auto simp: takes_value_def takes_key_def)+
  have b0: "spaces b0" "s' = [ch_colon]" using a'(3) c(1) by (auto simp: lexeme_ok_def)
  obtain b v rest where v: "ls2 = lex v b @ rest" "wf v" "spaces b" "nesting v + Suc (length stk) \<le> Stage2MaxDepth"
      "finishes rest (AtEnd, True # stk)" using V [of ls2] a'(2) c(2) l l1 by (auto simp: value_split_def)
  obtain w' t2 s2 rest' where r: "rest = (w', t2, s2) # rest'" using v(5) by (cases rest) (auto simp: finishes_Nil)
  obtain a2 where a2: "astep t2 (AtEnd, True # stk) = Some a2" "finishes rest' a2" "lexeme_ok (w', t2, s2)"
    using finishes_Cons [OF v(5) [unfolded r]] by blast
  have w': "spaces w'" using a2(3) by (simp add: lexeme_ok_def)
  consider "t2 = TComma" | "t2 = TEndObject" using a2(1) by (cases t2) (auto simp: takes_value_def takes_key_def in_object_def)
  then show ?thesis
  proof cases
    case 1
    then have "finishes rest' (AtComma, True # stk)" "s2 = [ch_comma]" using a2 by (auto simp: lexeme_ok_def)
    moreover have "length rest' < length ls" using v(1) r l l1 by simp
    ultimately obtain ms rest'' where "rest' = lex_mems ms @ rest''" "wf_mems ms" "nesting_mems ms + Suc (length stk) \<le> Stage2MaxDepth" "finishes rest'' (AtEnd, stk)"
      using M [of rest'] by (auto simp: mems_split_def)
    then show ?thesis unfolding mems_split_def using v r 1 w' l l1 t c k b0 \<open>s2 = [ch_comma]\<close>
      by (intro exI [of _ "MMore w k b0 b v w' ms"] exI [of _ rest'']) simp
  next
    case 2
    then have "finishes rest' (AtEnd, stk)" "s2 = [ch_rbrace]" using a2 by (auto simp: lexeme_ok_def in_object_def)
    then show ?thesis unfolding mems_split_def using v r 2 w' l l1 t c k b0
      by (intro exI [of _ "MLast w k b0 b v w'"] exI [of _ rest']) simp
  qed
qed

lemma accepted_splits:
  "(\<forall>x stk. finishes ls (x, stk) \<longrightarrow> takes_value x stk \<longrightarrow> (x = AtOpen \<longrightarrow> \<not> starts_with TEndArray ls) \<longrightarrow> value_split ls stk)
   \<and> (\<forall>x stk. finishes ls (x, False # stk) \<longrightarrow> x = AtComma \<or> x = AtOpen \<and> \<not> starts_with TEndArray ls \<longrightarrow> elems_split ls stk)
   \<and> (\<forall>x stk. finishes ls (x, True # stk) \<longrightarrow> x = AtComma \<or> x = AtOpen \<and> \<not> starts_with TEndObject ls \<longrightarrow> mems_split ls stk)"
proof (induction "length ls" arbitrary: ls rule: less_induct)
  case less
  have V: "length ls' < length ls \<Longrightarrow> finishes ls' (AtColon, stk) \<Longrightarrow> value_split ls' stk" for ls' stk
    using less.hyps [of ls'] by (auto simp: takes_value_def)
  have E: "length ls' < length ls \<Longrightarrow> finishes ls' (x, False # stk) \<Longrightarrow> x = AtComma \<or> x = AtOpen \<and> \<not> starts_with TEndArray ls' \<Longrightarrow> elems_split ls' stk" for ls' x stk
    using less.hyps [of ls'] by blast
  have M: "length ls' < length ls \<Longrightarrow> finishes ls' (x, True # stk) \<Longrightarrow> x = AtComma \<or> x = AtOpen \<and> \<not> starts_with TEndObject ls' \<Longrightarrow> mems_split ls' stk" for ls' x stk
    using less.hyps [of ls'] by blast
  have here: "finishes ls (x, stk) \<Longrightarrow> takes_value x stk \<Longrightarrow> x = AtOpen \<longrightarrow> \<not> starts_with TEndArray ls \<Longrightarrow> value_split ls stk" for x stk
    by (rule value_step) (use E [of _ AtOpen] M [of _ AtOpen] in blast)+
  have "finishes ls (x, False # stk) \<Longrightarrow> x = AtComma \<or> x = AtOpen \<and> \<not> starts_with TEndArray ls \<Longrightarrow> elems_split ls stk" for x stk
    by (rule elems_step [OF _ _ here]) (use E [of _ AtComma] in blast)+
  moreover have "finishes ls (x, True # stk) \<Longrightarrow> x = AtComma \<or> x = AtOpen \<and> \<not> starts_with TEndObject ls \<Longrightarrow> mems_split ls stk" for x stk
    by (rule mems_step) (use V M [of _ AtComma] in blast)+
  ultimately show ?case using here by blast
qed

text \<open>Lexemes spell a document exactly when the stack machine accepts them.\<close>

definition lexes_as :: "bytes \<Rightarrow> lexeme list \<Rightarrow> bool" where
  "lexes_as src ls \<longleftrightarrow> (\<exists>w'. src = unlex ls @ w' \<and> spaces w' \<and> list_all lexeme_ok ls)"

theorem accepted_iff_document:
  "(\<exists>ls. lexes_as src ls \<and> accepted (map tok ls)) \<longleftrightarrow> json_document Stage2MaxDepth src"
proof
  assume "\<exists>ls. lexes_as src ls \<and> accepted (map tok ls)"
  then obtain ls w' where ls: "src = unlex ls @ w'" "spaces w'" "finishes ls (AtStart, [])"
    by (auto simp: lexes_as_def accepted_def finishes_def)
  have "value_split ls []" using accepted_splits [of ls, THEN conjunct1, rule_format, of AtStart "[]"] ls(3) by (simp add: takes_value_def)
  then obtain w t rest where v: "ls = lex t w @ rest" "wf t" "spaces w" "nesting t \<le> Stage2MaxDepth" "finishes rest (AtEnd, [])"
    by (auto simp: value_split_def)
  have "rest = []"
  proof (rule ccontr)
    assume "rest \<noteq> []"
    then obtain w t s rest' where "rest = (w, t, s) # rest'" by (cases rest) auto
    then show False using finishes_Cons [of w t s rest' AtEnd "[]"] v(5) by (cases t) (auto simp: takes_value_def takes_key_def in_object_def)
  qed
  then show "json_document Stage2MaxDepth src" using v ls unfolding json_document_def
    by (intro exI [of _ w] exI [of _ t] exI [of _ w']) (simp add: unlex_lex)
next
  assume "json_document Stage2MaxDepth src"
  then obtain w t w' where d: "src = w @ render t @ w'" "spaces w" "wf t" "spaces w'" "nesting t \<le> Stage2MaxDepth"
    by (auto simp: json_document_def)
  then have "lexes_as src (lex t w)" using lex_ok(1) [OF d(3,2)] by (auto simp: lexes_as_def unlex_lex)
  moreover have "accepted (map tok (lex t w))" using lex_accepted(1) [of AtStart "[]" t w] d(5) by (simp add: accepted_def takes_value_def)
  ultimately show "\<exists>ls. lexes_as src ls \<and> accepted (map tok ls)" by blast
qed

end
