(* ===== verification/ValidFast.thy ===== *)
theory ValidFast
  imports Walker StringFast
begin

text \<open>
  The bool-only validator of \<^verbatim>\<open>valid_fast.go\<close> as portable builds run it (there
  \<^verbatim>\<open>validBitmapAccelerated()\<close> is false and the bitmap engine is not entered). Literals are compared as
  words, numbers and strings go through the fast scanners. A Go result \<^verbatim>\<open>(i, ok)\<close> is \<open>Ok i\<close> when
  \<^verbatim>\<open>ok\<close> is true and \<open>Fail i\<close> otherwise. The walker tracks the strict validator.
\<close>

subsection \<open>Literals\<close>

definition wordTrueLE :: "32 word" where "wordTrueLE = 0x65757274"
definition wordAlseLE :: "32 word" where "wordAlseLE = 0x65736C61"
definition wordNullLE :: "32 word" where "wordNullLE = 0x6C6C756E"

definition literalNullAt :: "bytes \<Rightarrow> nat \<Rightarrow> bool" where
  "literalNullAt src i = (if i + 4 > length src then False else le32 src i = wordNullLE)"

definition literalTrueAt :: "bytes \<Rightarrow> nat \<Rightarrow> bool" where
  "literalTrueAt src i = (if i + 4 > length src then False else le32 src i = wordTrueLE)"

text \<open>The caller has seen the leading \<^verbatim>\<open>f\<close>.\<close>

definition literalFalseTailAt :: "bytes \<Rightarrow> nat \<Rightarrow> bool" where
  "literalFalseTailAt src i = (if i + 5 > length src then False else le32 src (i + 1) = wordAlseLE)"

subsection \<open>The walker\<close>

type_synonym fast_fn = "nat \<Rightarrow> byte \<Rightarrow> nat \<Rightarrow> (nat, nat) outcome"

definition literalFast :: "bytes \<Rightarrow> nat \<Rightarrow> byte \<Rightarrow> (nat, nat) outcome" where
  "literalFast src i c =
     (let n = length src in
      if c = ch_t then (if i + 4 > n \<or> le32 src i \<noteq> wordTrueLE then Fail i else Ok (i + 4))
      else if c = ch_f then (if i + 5 > n \<or> le32 src (i + 1) \<noteq> wordAlseLE then Fail i else Ok (i + 5))
      else if c = ch_n then (if i + 4 > n \<or> le32 src i \<noteq> wordNullLE then Fail i else Ok (i + 4))
      else if c \<noteq> ch_minus \<and> \<not> IsDigit c then Fail i
      else case scanNumberFast src n i of (i, ok) \<Rightarrow> if ok then Ok i else Fail i)"

definition validValueStep :: "fast_fn \<Rightarrow> fast_fn \<Rightarrow> bytes \<Rightarrow> fast_fn" where
  "validValueStep elems membs src i c depth =
     (let n = length src in
      if c = ch_lbrace then
        if depth \<ge> DefaultMaxDepth then Fail i
        else case nextSignificantFast src n (i + 1) of (i, c) \<Rightarrow>
          if i \<ge> n then Fail i else if c = ch_rbrace then Ok (i + 1) else membs i c depth
      else if c = ch_lbracket then
        if depth \<ge> DefaultMaxDepth then Fail i
        else case nextSignificantFast src n (i + 1) of (i, c) \<Rightarrow>
          if i \<ge> n then Fail i else if c = ch_rbracket then Ok (i + 1) else elems i c depth
      else if c = ch_quote then validStringFast src i
      else literalFast src i c)"

definition validMembersStep :: "fast_fn \<Rightarrow> fast_fn \<Rightarrow> bytes \<Rightarrow> fast_fn" where
  "validMembersStep value_fn membs src i c depth =
     (let n = length src in
      if c \<noteq> ch_quote then Fail i
      else bind_outcome (validStringFast src i) (\<lambda>i.
        case nextSignificantFast src n i of (i, c) \<Rightarrow>
        if i \<ge> n \<or> c \<noteq> ch_colon then Fail i
        else case nextSignificantFast src n (i + 1) of (i, c) \<Rightarrow>
        if i \<ge> n then Fail i
        else bind_outcome (value_fn i c (depth + 1)) (\<lambda>i.
          case nextSignificantFast src n i of (i, c) \<Rightarrow>
          if i \<ge> n then Fail i
          else if c = ch_comma then
            (case nextSignificantFast src n (i + 1) of (i, c) \<Rightarrow>
               if i \<ge> n then Fail i else membs i c depth)
          else if c = ch_rbrace then Ok (i + 1)
          else Fail i)))"

definition validElementsStep :: "fast_fn \<Rightarrow> fast_fn \<Rightarrow> bytes \<Rightarrow> fast_fn" where
  "validElementsStep value_fn elems src i c depth =
     (let n = length src in
      bind_outcome (value_fn i c (depth + 1)) (\<lambda>i.
        case nextSignificantFast src n i of (i, c) \<Rightarrow>
        if i \<ge> n then Fail i
        else if c = ch_comma then
          (case nextSignificantFast src n (i + 1) of (i, c) \<Rightarrow>
             if i \<ge> n then Fail i else elems i c depth)
        else if c = ch_rbracket then Ok (i + 1)
        else Fail i))"

primrec fastWalkers :: "nat \<Rightarrow> bytes \<Rightarrow> fast_fn \<times> fast_fn \<times> fast_fn" where
  "fastWalkers 0 src = ((\<lambda>_ _ _. NoFuel), (\<lambda>_ _ _. NoFuel), (\<lambda>_ _ _. NoFuel))"
| "fastWalkers (Suc n) src =
     (case fastWalkers n src of (value_fn, elems, membs) \<Rightarrow>
        (validValueStep elems membs src,
         validElementsStep value_fn elems src,
         validMembersStep value_fn membs src))"

definition validValueFast :: "nat \<Rightarrow> bytes \<Rightarrow> fast_fn" where
  "validValueFast n src = fst (fastWalkers n src)"

definition validElementsFast :: "nat \<Rightarrow> bytes \<Rightarrow> fast_fn" where
  "validElementsFast n src = fst (snd (fastWalkers n src))"

definition validMembersFast :: "nat \<Rightarrow> bytes \<Rightarrow> fast_fn" where
  "validMembersFast n src = snd (snd (fastWalkers n src))"

definition validRootValueFast :: "bytes \<Rightarrow> nat \<Rightarrow> byte \<Rightarrow> (nat, nat) outcome" where
  "validRootValueFast src i c = validValueFast (value_fuel src 0) src i c 0"

definition validFast :: "bytes \<Rightarrow> (nat, bool) outcome" where
  "validFast src =
     (let n = length src in
      case nextSignificantFast src n 0 of (i, c) \<Rightarrow>
      if i \<ge> n then Ok False
      else case validValueFast (value_fuel src 0) src i c 0 of
          NoFuel \<Rightarrow> NoFuel
        | Fail _ \<Rightarrow> Ok False
        | Ok i \<Rightarrow> Ok (skipSpaceFast src n i = n))"

text \<open>The exported \<^verbatim>\<open>Valid\<close>.\<close>

definition Valid :: "bytes \<Rightarrow> (nat, bool) outcome" where
  "Valid src = validFast src"

lemma fast_0 [simp]:
  "validValueFast 0 src i c depth = NoFuel" "validElementsFast 0 src i c depth = NoFuel"
  "validMembersFast 0 src i c depth = NoFuel"
  by (simp_all add: validValueFast_def validElementsFast_def validMembersFast_def)

lemma fast_Suc:
  "validValueFast (Suc n) src = validValueStep (validElementsFast n src) (validMembersFast n src) src"
  "validElementsFast (Suc n) src = validElementsStep (validValueFast n src) (validElementsFast n src) src"
  "validMembersFast (Suc n) src = validMembersStep (validValueFast n src) (validMembersFast n src) src"
  by (simp_all add: validValueFast_def validElementsFast_def validMembersFast_def split: prod.splits)

subsection \<open>The leaves agree with the validator\<close>

lemma le32_word:
  assumes "i + 4 \<le> length src" "length s = 4"
  shows "le32 src i = le_word s \<longleftrightarrow> take 4 (drop i src) = s"
  using le_word_inject [of "subslice src i (i + 4)" s, where 'a = 32] assms
  by (auto simp: le32_def slices subslice_def)

lemma literal_words:
  "wordTrueLE = le_word [0x74, 0x72, 0x75, 0x65]" "wordAlseLE = le_word [0x61, 0x6C, 0x73, 0x65]"
  "wordNullLE = le_word [0x6E, 0x75, 0x6C, 0x6C]"
  by (simp_all add: wordTrueLE_def wordAlseLE_def wordNullLE_def)

lemma le32_literals:
  assumes "i + 4 \<le> length src"
  shows "le32 src i = wordTrueLE \<longleftrightarrow> take 4 (drop i src) = lit_true"
    "le32 src i = wordNullLE \<longleftrightarrow> take 4 (drop i src) = lit_null"
    "le32 src i = wordAlseLE \<longleftrightarrow> take 4 (drop i src) = [0x61, 0x6C, 0x73, 0x65]"
  unfolding literal_words by (rule le32_word [OF assms], simp)+

lemma match_literals:
  "matchStringAt src i lit_null \<longleftrightarrow> take 4 (drop i src) = lit_null"
  "matchStringAt src i lit_true \<longleftrightarrow> take 4 (drop i src) = lit_true"
  "matchStringAt src i lit_false \<longleftrightarrow> take 5 (drop i src) = lit_false"
  by (simp_all add: matchStringAt_iff numeral_eq_Suc)

lemma take_short: "length xs < n \<Longrightarrow> length ys = n \<Longrightarrow> take n xs \<noteq> ys"
  by auto

lemma literal_At:
  "literalNullAt src i \<longleftrightarrow> matchStringAt src i lit_null"
  "literalTrueAt src i \<longleftrightarrow> matchStringAt src i lit_true"
  "i < length src \<Longrightarrow> src ! i = ch_f \<Longrightarrow> literalFalseTailAt src i \<longleftrightarrow> matchStringAt src i lit_false"
proof -
  show "literalNullAt src i \<longleftrightarrow> matchStringAt src i lit_null"
    "literalTrueAt src i \<longleftrightarrow> matchStringAt src i lit_true"
    using take_short [of "drop i src" 4]
    by (cases "i + 4 \<le> length src"; force simp: literalNullAt_def literalTrueAt_def le32_literals match_literals)+
  assume f: "i < length src" "src ! i = ch_f"
  then have "take 5 (drop i src) = ch_f # take 4 (drop (i + 1) src)" by (simp add: drop_at numeral_eq_Suc)
  with f show "literalFalseTailAt src i \<longleftrightarrow> matchStringAt src i lit_false"
    using take_short [of "drop (Suc i) src" 4]
    by (cases "i + 5 \<le> length src"; force simp: literalFalseTailAt_def le32_literals match_literals)+
qed

lemma literalFast_tracks:
  assumes "i < length src" "depth \<le> maxDepth"
    "src ! i \<noteq> ch_quote" "src ! i \<noteq> ch_lbracket" "src ! i \<noteq> ch_lbrace"
  shows "tracks id (literalFast src i (src ! i)) (parseValueStep al ol src maxDepth depth i l)"
proof -
  have e: "literalFast src i (src ! i) =
     (if src ! i = ch_t then (if literalTrueAt src i then Ok (i + 4) else Fail i)
      else if src ! i = ch_f then (if literalFalseTailAt src i then Ok (i + 5) else Fail i)
      else if src ! i = ch_n then (if literalNullAt src i then Ok (i + 4) else Fail i)
      else if src ! i \<noteq> ch_minus \<and> \<not> IsDigit (src ! i) then Fail i
      else case scanNumber src i of (i, msg) \<Rightarrow> if msg = [] then Ok i else Fail i)"
    using assms(1) by (auto simp: literalFast_def literalTrueAt_def literalFalseTailAt_def literalNullAt_def
        scanNumberFast_reference Let_def split: prod.splits)
  have t: "ch_t \<noteq> ch_minus" "\<not> IsDigit ch_t" "\<not> IsDigit ch_f" "\<not> IsDigit ch_n" by (simp_all add: IsDigit_def)
  show ?thesis unfolding e using assms
    by (auto simp: parseValueStep_def Let_def parseLiteral_def parseNumber_def literal_At split: prod.splits)
qed

subsection \<open>The walker tracks the validator\<close>

text \<open>What \<^verbatim>\<open>nextSignificantFast\<close> hands over, in the shape the steps consume it.\<close>

lemma next_case:
  "(case nextSignificantFast src (length src) i of (i, c) \<Rightarrow> if i \<ge> length src then Fail i else k i c)
   = (if skip_to src i \<ge> length src then Fail (skip_to src i) else k (skip_to src i) (src ! skip_to src i))"
  by (simp add: nextSignificantFast_eq Let_def)

lemma validStringFast_case:
  "i < length src \<Longrightarrow> case validStringFast src i of Ok j \<Rightarrow> string_end src (Suc i) = Ok (id j)
     | Fail _ \<Rightarrow> \<exists>err. string_end src (Suc i) = Fail err | NoFuel \<Rightarrow> False"
  using validStringFast_reference [of i src] by (auto simp: same_end_def split: outcome.splits)

lemma elements_tracks:
  assumes V: "\<And>i l. i < length src \<Longrightarrow> tracks id (V i (src ! i) (Suc depth)) (pv (Suc depth) i l)"
    and A: "\<And>i ci count l. i < length src \<Longrightarrow> skip_to src i = i \<Longrightarrow> tracks id (A i (src ! i) depth) (al (Suc depth) ci count i l)"
    and end_al: "\<And>i ci count l r. length src \<le> skip_to src i \<Longrightarrow> al (Suc depth) ci count i l \<noteq> Ok r"
    and skip_al: "\<And>i ci count l. al (Suc depth) ci count (skip_to src i) l = al (Suc depth) ci count i l"
    and i: "i < length src" "skip_to src i = i"
  shows "tracks id (validElementsStep V A src i (src ! i) depth) (arrayStep pv al src (Suc depth) ci count i l)"
proof -
  have "tracks id (V i (src ! i) (Suc depth)) (pv (Suc depth) (SkipSpace src i) l)"
    using V [OF i(1)] i(2) by (simp add: SkipSpace_eq)
  then show ?thesis unfolding validElementsStep_def arrayStep_def Let_def Suc_eq_plus1 [symmetric]
  proof (rule tracks_bind, goal_cases)
    case (1 j l)
    let ?c = "skip_to src j"
    show ?case
      using A [of "skip_to src (Suc ?c)" ci "Suc count" "countValue l"] end_al [of "Suc ?c" ci "Suc count" "countValue l"]
      by (auto simp: next_case SkipSpace_eq skip_al not_le)
  qed
qed

lemma next_colon:
  "(case nextSignificantFast src (length src) i of (i, c) \<Rightarrow> if i \<ge> length src \<or> c \<noteq> ch_colon then Fail i else k i c)
   = (if skip_to src i \<ge> length src \<or> src ! skip_to src i \<noteq> ch_colon then Fail (skip_to src i)
      else k (skip_to src i) (src ! skip_to src i))"
  by (simp add: nextSignificantFast_eq Let_def)

lemma members_tracks:
  assumes V: "\<And>i l. i < length src \<Longrightarrow> tracks id (V i (src ! i) (Suc depth)) (pv (Suc depth) i l)"
    and end_pv: "\<And>i l r. length src \<le> i \<Longrightarrow> pv (Suc depth) i l \<noteq> Ok r"
    and M: "\<And>i ci count l. i < length src \<Longrightarrow> skip_to src i = i \<Longrightarrow> tracks id (M i (src ! i) depth) (ol (Suc depth) ci count i l)"
    and end_ol: "\<And>i ci count l r. length src \<le> skip_to src i \<Longrightarrow> ol (Suc depth) ci count i l \<noteq> Ok r"
    and skip_ol: "\<And>i ci count l. ol (Suc depth) ci count (skip_to src i) l = ol (Suc depth) ci count i l"
    and i: "i < length src" "skip_to src i = i"
  shows "tracks id (validMembersStep V M src i (src ! i) depth) (objectStep pv ol src (Suc depth) ci count i l)"
proof (cases "src ! i = ch_quote")
  case True
  have turn: "tracks id (bind_outcome (V p (src ! p) (Suc depth)) (\<lambda>i.
          case nextSignificantFast src (length src) i of (i, c) \<Rightarrow>
          if i \<ge> length src then Fail i
          else if c = ch_comma then
            (case nextSignificantFast src (length src) (Suc i) of (i, c) \<Rightarrow> if i \<ge> length src then Fail i else M i c depth)
          else if c = ch_rbrace then Ok (Suc i) else Fail i))
      (bind_outcome (pv (Suc depth) p l) (\<lambda>(i, l).
          if skip_to src i \<ge> length src then err_at src (int (skip_to src i)) ''unterminated object''
          else if src ! skip_to src i = ch_comma then ol (Suc depth) ci (Suc count) (Suc (skip_to src i)) (countMember l)
          else if src ! skip_to src i = ch_rbrace then Ok (Suc (skip_to src i), closeContainer (countMember l) ci (Suc count))
          else err_at src (int (skip_to src i)) ''expected comma or closing brace in object''))"
    if "p < length src" for p
  proof (rule tracks_bind [OF V [OF that]], goal_cases)
    case (1 j l)
    let ?c = "skip_to src j"
    show ?case
      using M [of "skip_to src (Suc ?c)" ci "Suc count" "countMember l"] end_ol [of "Suc ?c" ci "Suc count" "countMember l"]
      by (auto simp: next_case skip_ol not_le)
  qed
  show ?thesis
    using True i unfolding validMembersStep_def objectStep_def Let_def Suc_eq_plus1 [symmetric] SkipSpace_eq i(2)
  proof (simp, intro tracks_string [OF validStringFast_case], goal_cases)
    case (3 e)
    then show ?case
      using turn [of "skip_to src (Suc (skip_to src e))"] end_pv [of "skip_to src (Suc (skip_to src e))" l]
      by (auto simp: next_colon next_case not_le bind_outcome_eq_Ok)
  qed simp_all
next
  case False
  with i show ?thesis by (simp add: validMembersStep_def objectStep_def SkipSpace_eq)
qed

lemma value_tracks:
  assumes A: "\<And>i ci count l. depth < DefaultMaxDepth \<Longrightarrow> i < length src \<Longrightarrow> skip_to src i = i \<Longrightarrow> tracks id (A i (src ! i) depth) (al (Suc depth) ci count i l)"
    and end_al: "\<And>i ci count l r. length src \<le> skip_to src i \<Longrightarrow> al (Suc depth) ci count i l \<noteq> Ok r"
    and M: "\<And>i ci count l. depth < DefaultMaxDepth \<Longrightarrow> i < length src \<Longrightarrow> skip_to src i = i \<Longrightarrow> tracks id (M i (src ! i) depth) (ol (Suc depth) ci count i l)"
    and end_ol: "\<And>i ci count l r. length src \<le> skip_to src i \<Longrightarrow> ol (Suc depth) ci count i l \<noteq> Ok r"
    and i: "i < length src" "depth \<le> DefaultMaxDepth"
  shows "tracks id (validValueStep A M src i (src ! i) depth) (parseValueStep al ol src DefaultMaxDepth depth i l)"
proof -
  let ?p = "skip_to src (Suc i)"
  consider "src ! i = ch_lbrace" | "src ! i = ch_lbracket" | "src ! i = ch_quote"
    | "src ! i \<noteq> ch_quote" "src ! i \<noteq> ch_lbracket" "src ! i \<noteq> ch_lbrace" by blast
  then show ?thesis
  proof cases
    case 1
    then show ?thesis using i M [of ?p] end_ol [of ?p]
      by (auto simp: validValueStep_def parseValueStep_def parseObject_def next_case SkipSpace_eq Let_def not_le split: prod.splits)
  next
    case 2
    then show ?thesis using i A [of ?p] end_al [of ?p]
      by (auto simp: validValueStep_def parseValueStep_def parseArray_def next_case SkipSpace_eq Let_def not_le split: prod.splits)
  next
    case 3
    then show ?thesis using i validStringFast_reference [OF i(1)]
      by (auto simp: validValueStep_def parseValueStep_def parseStringValue_def parseString_end same_end_def
          split: outcome.splits)
  next
    case 4
    with literalFast_tracks [OF i 4] show ?thesis by (simp add: validValueStep_def)
  qed
qed

lemma fast_tracks:
  "i < length src \<Longrightarrow> depth \<le> DefaultMaxDepth \<Longrightarrow>
     tracks id (validValueFast n src i (src ! i) depth) (parseValue n src DefaultMaxDepth depth i l)"
  "i < length src \<Longrightarrow> skip_to src i = i \<Longrightarrow> depth < DefaultMaxDepth \<Longrightarrow>
     tracks id (validElementsFast n src i (src ! i) depth) (arrayLoop n src DefaultMaxDepth (Suc depth) ci count i l)"
  "i < length src \<Longrightarrow> skip_to src i = i \<Longrightarrow> depth < DefaultMaxDepth \<Longrightarrow>
     tracks id (validMembersFast n src i (src ! i) depth) (objectLoop n src DefaultMaxDepth (Suc depth) ci count i l)"
proof (induction n arbitrary: i depth ci count l)
  case (Suc n)
  {
    case 1
    then show ?case unfolding fast_Suc parseValue_Suc by (intro value_tracks Suc.IH parse_end) simp_all
  next
    case 2
    then show ?case unfolding fast_Suc arrayLoop_Suc by (intro elements_tracks Suc.IH parse_end loop_skip) simp_all
  next
    case 3
    then show ?case unfolding fast_Suc objectLoop_Suc by (intro members_tracks Suc.IH parse_end loop_skip) simp_all
  }
qed simp_all

interpretation fast: document_walker
  "\<lambda>src i. validValueFast (value_fuel src 0) src i (src ! i) 0" id DefaultMaxDepth
proof
  fix i :: nat and src :: bytes assume "i < length src"
  then have "tracks id (validValueFast (value_fuel src 0) src i (src ! i) 0)
      (parseValue (value_fuel src 0) src DefaultMaxDepth 0 i None)" by (intro fast_tracks) simp_all
  then show "\<exists>n\<ge>value_fuel src i. tracks id (validValueFast (value_fuel src 0) src i (src ! i) 0)
      (parseValue n src DefaultMaxDepth 0 i None)" by (intro exI [of _ "value_fuel src 0"]) simp
qed

lemma validFast_document: "validFast src = Ok (json_document DefaultMaxDepth src)"
proof -
  let ?r = "validValueFast (value_fuel src 0) src (skip_to src 0) (src ! skip_to src 0) 0"
  show ?thesis
  proof (cases "skip_to src 0 < length src")
    case False
    then show ?thesis using fast.document_iff [of src]
      by (simp add: validFast_def nextSignificantFast_eq Let_def not_less)
  next
    case True
    then show ?thesis using fast.document_iff [of src] fast.run_total [OF True]
      by (cases ?r) (auto simp: validFast_def nextSignificantFast_eq skipSpaceFast_eq Let_def)
  qed
qed

text \<open>C2: The exported \<^verbatim>\<open>Valid\<close>, with its word-wide string, number and literal scanners, always returns, and returns
  true exactly for the inputs the strict validator accepts under the default nesting limit.\<close>

theorem Valid_iff_Validate: "Valid src = Ok (validateOptions src 0 = Ok ())"
  by (simp add: Valid_def validFast_document validateOptions_ok maxDepthOrDefault_def)

end
