(* ===== verification/ValidPositions.thy ===== *)
theory ValidPositions
  imports Stage1Scan Tokens ValidFast
begin

text \<open>
  The bitmap validator (\<^verbatim>\<open>valid_bitmap.go\<close>, \<^verbatim>\<open>valid_positions.go\<close>): stage 1 packs the grammar events of the document into
  positions, stage 2 judges them, and what the two leave open, escapes, scalars and UTF-8, is checked on the side. The
  document is read in batches of 128 blocks; the last, partial block is padded with spaces.
\<close>

subsection \<open>The density sample\<close>

definition validBitmapSampleBlocks :: nat where "validBitmapSampleBlocks = 32"
definition validBitmapSampleMinWs :: nat where "validBitmapSampleMinWs = 512"
definition validBitmapSampleMinInStr :: nat where "validBitmapSampleMinInStr = validBitmapSampleBlocks * 64 * 9 div 16"
definition validUTF8CoalesceBlocks :: nat where "validUTF8CoalesceBlocks = 2"

datatype number_mode = vbNumberDefault | vbNumberNine | vbNumberShort

definition validBitmapSampleCommit :: "nat \<Rightarrow> nat \<Rightarrow> nat \<Rightarrow> nat \<Rightarrow> bool" where
  "validBitmapSampleCommit ws emit inStr esc =
     (if ws \<ge> validBitmapSampleMinWs \<and> ws * 2 \<ge> emit * 7 then True
      else inStr \<ge> validBitmapSampleMinInStr \<and> esc * 16 \<le> inStr \<and> ws + inStr \<ge> emit * 6)"

definition validBitmapNumberMode :: "nat \<Rightarrow> number_mode" where
  "validBitmapNumberMode inStr = (if inStr \<ge> validBitmapSampleMinInStr then vbNumberShort else vbNumberNine)"

text \<open>The totals of the sample; a record with a violation ends it.\<close>

primrec sampleLoop :: "Stage1Rec list \<Rightarrow> nat \<times> nat \<times> nat \<times> nat \<times> bool \<Rightarrow> (nat \<times> nat \<times> nat \<times> nat \<times> bool) option" where
  "sampleLoop [] t = Some t"
| "sampleLoop (r # rs) t =
     (if RecBad r then None
      else case t of (ws, emit, inStr, esc, na) \<Rightarrow>
        sampleLoop rs (ws + OnesCount64 (RecWsOut r), emit + OnesCount64 (RecEmit r), inStr + OnesCount64 (RecInStr r),
          esc + OnesCount64 (RecEscInStr r), na \<or> RecNonASCII r))"

text \<open>Whether the sampled words have few bytes beyond ASCII.\<close>

primrec fewHighBytes :: "bytes \<Rightarrow> nat list \<Rightarrow> nat \<Rightarrow> bool" where
  "fewHighBytes src [] high = True"
| "fewHighBytes src (i # js) high =
     (let high = high + OnesCount64 (le64 src i AND highBits) in if high > 64 then False else fewHighBytes src js high)"

text \<open>The answers are commit, invalid, the number mode, and whether non-ASCII blocks are tracked coarsely. \<open>None\<close> is a panic.\<close>

definition validPositionsSample :: "bytes \<Rightarrow> (bool \<times> bool \<times> number_mode \<times> bool) option" where
  "validPositionsSample src =
     (case Stage1BlocksGP src validBitmapSampleBlocks \<lparr>StreamCarry = \<lparr>Escaped = 0, InString = 0\<rparr>, StreamFollows = 0\<rparr> of
        None \<Rightarrow> None
      | Some (recs, _) \<Rightarrow>
        (case sampleLoop recs (0, 0, 0, 0, False) of
           None \<Rightarrow> Some (False, True, vbNumberDefault, False)
         | Some (ws, emit, inStr, esc, hasNonASCII) \<Rightarrow>
           let coarse = (if hasNonASCII then fewHighBytes src (map (\<lambda>k. 8 * k) [0..<validBitmapSampleBlocks * 8]) 0 else True) in
           Some (validBitmapSampleCommit ws emit inStr esc, False, validBitmapNumberMode inStr, coarse)))"

subsection \<open>Escapes\<close>

definition hex4Fixed :: "bytes \<Rightarrow> 16 word \<times> bool" where
  "hex4Fixed h =
     (let a = hexNibbleTable (h ! 0); b = hexNibbleTable (h ! 1); c = hexNibbleTable (h ! 2); d = hexNibbleTable (h ! 3) in
      (push_bit 12 (ucast a) OR push_bit 8 (ucast b) OR push_bit 4 (ucast c) OR ucast d, a OR b OR c OR d < 0x10))"

text \<open>The loop body at offset \<open>j\<close>: \<open>None\<close> for a malformed escape, otherwise the escape target to skip.\<close>

definition escapeStep :: "bytes \<Rightarrow> nat \<Rightarrow> int \<Rightarrow> int option" where
  "escapeStep src j skip =
     (if j \<ge> length src then None
      else if int j = skip then Some skip
      else if src ! j \<in> {ch_quote, ch_backslash, ch_slash, ch_b, ch_f, ch_n, ch_r, ch_t} then Some skip
      else if src ! j = ch_u then
        if length src - j < 5 then None
        else let (u, ok) = hex4Fixed (subslice src (j + 1) (j + 5)) in
          if \<not> ok then None
          else if 0xDC00 \<le> u \<and> u \<le> 0xDFFF then None
          else if 0xD800 \<le> u \<and> u \<le> 0xDBFF then
            if length src - j < 11 then None
            else let pair = subslice src (j + 5) (j + 11) in
              if pair ! 0 \<noteq> ch_backslash \<or> pair ! 1 \<noteq> ch_u then None
              else let (lo, ok) = hex4Fixed (drop 2 pair) in
                if \<not> ok \<or> lo < 0xDC00 \<or> lo > 0xDFFF then None else Some (int j + 6)
          else Some skip
      else None)"

function escapesLoop :: "bytes \<Rightarrow> nat \<Rightarrow> 64 word \<Rightarrow> int \<Rightarrow> bool \<times> int" where
  "escapesLoop src pos e skip =
     (if e \<noteq> 0 then
        case escapeStep src (pos + TrailingZeros64 e) skip of
          None \<Rightarrow> (True, skip)
        | Some skip \<Rightarrow> escapesLoop src pos (e AND (e - 1)) skip
      else (False, skip))"
  by pat_completeness auto
termination by (relation "measure (\<lambda>(src, pos, e, skip). unat e)") (simp_all add: clear_lowest_less)

declare escapesLoop.simps [simp del]

definition validBitmapEscapes :: "bytes \<Rightarrow> nat \<Rightarrow> nat \<Rightarrow> 64 word \<Rightarrow> int \<Rightarrow> bool \<times> int" where
  "validBitmapEscapes src n pos escInStr skip = (if n > length src then (True, skip) else escapesLoop (take n src) pos escInStr skip)"

subsection \<open>Scalars\<close>

definition isJSONSpaceOrStructural :: "byte \<Rightarrow> bool" where
  "isJSONSpaceOrStructural c =
     (c \<in> {ch_space, ch_tab, ch_lf, ch_cr, ch_comma, ch_colon, ch_lbrace, ch_rbrace, ch_lbracket, ch_rbracket})"

definition nonDigitMask4 :: "32 word \<Rightarrow> 32 word" where
  "nonDigitMask4 x = ((x + 0x46464646) OR (x - 0x30303030)) AND 0x80808080"

definition TrailingZeros32 :: "32 word \<Rightarrow> nat" where
  "TrailingZeros32 x = length (takeWhile (\<lambda>n. \<not> bit x n) [0..<32])"

definition validScalarTokenAt :: "bytes \<Rightarrow> nat \<Rightarrow> nat \<Rightarrow> bool" where
  "validScalarTokenAt src n j =
     (let c = src ! j; ends = (\<lambda>stop. stop = n \<or> isJSONSpaceOrStructural (src ! stop)) in
      if c = ch_minus \<or> IsDigit c then (case scanNumberFast src n j of (stop, ok) \<Rightarrow> if \<not> ok then False else ends stop)
      else if c = ch_t then (if \<not> literalTrueAt src j then False else ends (j + 4))
      else if c = ch_f then (if \<not> literalFalseTailAt src j then False else ends (j + 5))
      else if c = ch_n then (if \<not> literalNullAt src j then False else ends (j + 4))
      else False)"

definition shortNumber :: "bytes \<Rightarrow> nat \<Rightarrow> nat \<Rightarrow> bool" where
  "shortNumber src n j =
     (let c = src ! j in
      if j + 4 \<le> n then
        let invalid = nonDigitMask4 (le32 src j) in
        if invalid \<noteq> 0 then
          let width = TrailingZeros32 invalid div 8 in
          width \<noteq> 0 \<and> (c \<noteq> ch_0 \<or> width = 1) \<and> isJSONSpaceOrStructural (src ! (j + width))
        else False
      else False)"

definition nineDigits :: "bytes \<Rightarrow> nat \<Rightarrow> nat \<Rightarrow> bool" where
  "nineDigits src n j =
     (src ! j \<noteq> ch_0 \<and> j + 9 \<le> n \<and> nonDigitMask8 (le64 src j) = 0 \<and> IsDigit (src ! (j + 8)) \<and>
      (j + 9 = n \<or> isJSONSpaceOrStructural (src ! (j + 9))))"

definition validScalarTokenAtMode :: "bytes \<Rightarrow> nat \<Rightarrow> nat \<Rightarrow> number_mode \<Rightarrow> bool" where
  "validScalarTokenAtMode src n j mode =
     (let c = src ! j; digit = (c \<noteq> ch_minus \<and> IsDigit c) in
      if digit \<and> mode = vbNumberShort \<and> shortNumber src n j then True
      else if digit \<and> mode = vbNumberNine \<and> nineDigits src n j then True
      else validScalarTokenAt src n j)"

subsection \<open>The engine\<close>

text \<open>\<^verbatim>\<open>scanner.ValidUTF8\<close> of the portable build.\<close>

definition validUTF8Fast :: "bytes \<Rightarrow> bool" where "validUTF8Fast src = utf8Valid src"

definition consumeBlocks :: nat where "consumeBlocks = 4 * Stage1ChunkBlocks"

text \<open>The variables of the loop. \<open>Reject\<close> is the return of false.\<close>

record engine =
  indexStream :: Stage1IndexStream
  grammar :: Stage2State
  kindSlab :: bytes
  meta :: Stage1ValidMeta
  utf8RunStart :: int
  utf8RunEnd :: int
  skipTarget :: int

datatype 'a flow = Panic | Reject | Go 'a

fun flow_bind :: "'a flow \<Rightarrow> ('a \<Rightarrow> 'b flow) \<Rightarrow> 'b flow" where
  "flow_bind Panic f = Panic"
| "flow_bind Reject f = Reject"
| "flow_bind (Go a) f = f a"

definition engineStart :: engine where
  "engineStart = \<lparr>indexStream = \<lparr>IndexCarry = \<lparr>Escaped = 0, InString = 0\<rparr>, Follows = 0, PreviousIn = 0, IndexBad = False,
       IndexNonASCII = False, IndexEscaped = False\<rparr>,
     grammar = Stage2Reset, kindSlab = replicate Stage2KindsLen 0,
     meta = \<lparr>ValidEscInStr = replicate Stage1ChunkBlocks 0, ValidNonASCII = 0\<rparr>, utf8RunStart = - 1, utf8RunEnd = 0, skipTarget = - 1\<rparr>"

definition consume :: "bytes \<Rightarrow> number_mode \<Rightarrow> 32 word list \<Rightarrow> engine \<Rightarrow> engine flow" where
  "consume src mode positions en =
     (if positions = [] then Go en
      else case Stage2PositionsTrusted src (map unat positions) (kindSlab en) (grammar en) of (scs, slab, st) \<Rightarrow>
        let en = en\<lparr>grammar := st, kindSlab := slab\<rparr> in
        if Bad2 st \<noteq> 0 then Reject
        else if list_all (\<lambda>j. validScalarTokenAtMode src (length src) j mode) scs then Go en
        else Reject)"

text \<open>The checks of a block: the pending run of blocks beyond ASCII is extended, or checked when the gap is long.\<close>

definition utf8Block :: "bytes \<Rightarrow> nat \<Rightarrow> engine \<Rightarrow> engine flow" where
  "utf8Block src current en =
     (if utf8RunStart en \<ge> 0 \<and> int current - utf8RunEnd en > int validUTF8CoalesceBlocks then
        if \<not> validUTF8Fast (subslice src (nat (utf8RunStart en) * 64) (nat (utf8RunEnd en) * 64)) then Reject
        else Go (en\<lparr>utf8RunStart := int current, utf8RunEnd := int current + 1\<rparr>)
      else if utf8RunStart en < 0 then Go (en\<lparr>utf8RunStart := int current, utf8RunEnd := int current + 1\<rparr>)
      else Go (en\<lparr>utf8RunEnd := int current + 1\<rparr>))"

definition escapeBlock :: "bytes \<Rightarrow> nat \<Rightarrow> 64 word \<Rightarrow> engine \<Rightarrow> engine flow" where
  "escapeBlock src current esc en =
     (if esc \<noteq> 0 then case validBitmapEscapes src (length src) (current * 64) esc (skipTarget en) of
        (bad, skip) \<Rightarrow> if bad then Reject else Go (en\<lparr>skipTarget := skip\<rparr>)
      else Go en)"

definition checkBlock :: "bytes \<Rightarrow> nat \<Rightarrow> nat \<Rightarrow> engine \<Rightarrow> engine flow" where
  "checkBlock src block i en =
     flow_bind (if bit (ValidNonASCII (meta en)) i then utf8Block src (block + i) en else Go en)
       (escapeBlock src (block + i) (ValidEscInStr (meta en) ! i))"

primrec checkBlocks :: "bytes \<Rightarrow> nat \<Rightarrow> nat list \<Rightarrow> engine \<Rightarrow> engine flow" where
  "checkBlocks src block [] en = Go en"
| "checkBlocks src block (i # js) en = flow_bind (checkBlock src block i en) (checkBlocks src block js)"

definition sparseNonASCIIMask :: "bytes \<Rightarrow> nat \<Rightarrow> 32 word" where
  "sparseNonASCIIMask p nblocks =
     foldl (\<lambda>m block.
       let hi = le64 p (block * 64) OR le64 p (block * 64 + 8) OR le64 p (block * 64 + 16) OR le64 p (block * 64 + 24) OR
                le64 p (block * 64 + 32) OR le64 p (block * 64 + 40) OR le64 p (block * 64 + 48) OR le64 p (block * 64 + 56) in
       if hi AND highBits \<noteq> 0 then m OR push_bit block 1 else m) 0 [0..<nblocks]"

text \<open>Stage 1 on \<open>count\<close> blocks from the bytes \<open>p\<close>; \<open>sparse\<close> says whether a coarse mask is refined afterwards.\<close>

definition classify :: "bytes \<Rightarrow> nat \<Rightarrow> nat \<Rightarrow> nat \<Rightarrow> bool \<Rightarrow> bool \<Rightarrow> engine \<Rightarrow> (32 word list \<times> engine) flow" where
  "classify p count block room coarse sparse en =
     (case (if coarse then Stage1ValidBlocksCoarse p count (of_nat (block * 64)) (indexStream en) room (meta en)
            else Stage1ValidBlocks p count (of_nat (block * 64)) (indexStream en) room (meta en)) of
        None \<Rightarrow> Panic
      | Some (positions, st, vm) \<Rightarrow>
        Go (positions, en\<lparr>indexStream := st,
          meta := (if coarse \<and> sparse \<and> ValidNonASCII vm \<noteq> 0 then vm\<lparr>ValidNonASCII := sparseNonASCIIMask p count\<rparr> else vm)\<rparr>))"

function chunkLoop :: "bytes \<Rightarrow> bool \<Rightarrow> nat \<Rightarrow> nat \<Rightarrow> 32 word list \<Rightarrow> engine \<Rightarrow> (32 word list \<times> engine) flow" where
  "chunkLoop src coarse block batchEnd positions en =
     (if block < batchEnd then
        let count = min Stage1ChunkBlocks (batchEnd - block) in
        flow_bind (classify (drop (block * 64) src) count block (consumeBlocks * 64 + 64 - length positions) coarse True en)
          (\<lambda>(chunk, en). flow_bind (checkBlocks src block [0..<count] en)
            (\<lambda>en. chunkLoop src coarse (block + Stage1ChunkBlocks) batchEnd (positions @ chunk) en))
      else Go (positions, en))"
  by pat_completeness auto
termination by (relation "measure (\<lambda>(src, coarse, block, batchEnd, positions, en). batchEnd - block)") (simp_all add: Stage1ChunkBlocks_def)

declare chunkLoop.simps [simp del]

function batchLoop :: "bytes \<Rightarrow> number_mode \<Rightarrow> bool \<Rightarrow> nat \<Rightarrow> nat \<Rightarrow> engine \<Rightarrow> engine flow" where
  "batchLoop src mode coarse batch fullBlocks en =
     (if batch < fullBlocks then
        flow_bind (chunkLoop src coarse batch (min (batch + consumeBlocks) fullBlocks) [] en)
          (\<lambda>(positions, en). flow_bind (consume src mode positions en)
            (\<lambda>en. batchLoop src mode coarse (batch + consumeBlocks) fullBlocks en))
      else Go en)"
  by pat_completeness auto
termination
  by (relation "measure (\<lambda>(src, mode, coarse, batch, fullBlocks, en). fullBlocks - batch)") (simp_all add: consumeBlocks_def Stage1ChunkBlocks_def)

declare batchLoop.simps [simp del]

definition tailBlock :: "bytes \<Rightarrow> number_mode \<Rightarrow> bool \<Rightarrow> nat \<Rightarrow> engine \<Rightarrow> engine flow" where
  "tailBlock src mode coarse fullBlocks en =
     (if fullBlocks * 64 \<noteq> length src then
        let tail = drop (fullBlocks * 64) src @ replicate (64 - (length src - fullBlocks * 64)) ch_space in
        flow_bind (classify tail 1 fullBlocks (consumeBlocks * 64 + 64) coarse False en)
          (\<lambda>(positions, en). flow_bind (checkBlock src fullBlocks 0 en) (consume src mode positions))
      else Go en)"

definition engineVerdict :: "bytes \<Rightarrow> engine \<Rightarrow> unit flow" where
  "engineVerdict src en =
     (if IndexBad (indexStream en) \<or> InString (IndexCarry (indexStream en)) \<noteq> 0 \<or> \<not> Stage2Finish (grammar en) then Reject
      else if utf8RunStart en \<ge> 0 \<and>
        \<not> validUTF8Fast (subslice src (nat (utf8RunStart en) * 64) (min (nat (utf8RunEnd en) * 64) (length src))) then Reject
      else Go ())"

definition validPositionsCommitted :: "bytes \<Rightarrow> number_mode \<Rightarrow> bool \<Rightarrow> unit flow" where
  "validPositionsCommitted src mode coarse =
     (let fullBlocks = length src div 64 in
      flow_bind (batchLoop src mode coarse 0 fullBlocks engineStart)
        (\<lambda>en. flow_bind (tailBlock src mode coarse fullBlocks en) (engineVerdict src)))"

text \<open>The result is the pair of valid and decided.\<close>

definition accepts :: "unit flow \<Rightarrow> bool option" where
  "accepts r = (case r of Panic \<Rightarrow> None | Reject \<Rightarrow> Some False | Go _ \<Rightarrow> Some True)"

definition validPositionsStreamed :: "bytes \<Rightarrow> (bool \<times> bool) option" where
  "validPositionsStreamed src =
     (case validPositionsSample src of
        None \<Rightarrow> None
      | Some (commit, invalid, numberMode, coarseNonASCII) \<Rightarrow>
        if invalid then Some (False, True)
        else if \<not> commit then Some (False, False)
        else map_option (\<lambda>valid. (valid, True)) (accepts (validPositionsCommitted src numberMode coarseNonASCII)))"

definition validBitmap :: "bytes \<Rightarrow> (bool \<times> bool) option" where
  "validBitmap src = (if length src < validBitmapSampleBlocks * 64 then Some (False, False) else validPositionsStreamed src)"

subsection \<open>The routes of Valid and Validate\<close>

text \<open>
  \<open>accelerated\<close> stands for \<^verbatim>\<open>validBitmapAccelerated\<close>: whether the build selects an architecture kernel for stage 1. The
  exported functions take the bitmap validator first there; \<^verbatim>\<open>Validate\<close> runs the strict validator again on a failure, for its
  error.
\<close>

definition ValidBitmapMinBytes :: nat where "ValidBitmapMinBytes = 2 ^ 16"

definition validFast_build :: "bool \<Rightarrow> bytes \<Rightarrow> (nat, bool) outcome option" where
  "validFast_build accelerated src =
     (if accelerated \<and> length src \<ge> ValidBitmapMinBytes then
        case validBitmap src of None \<Rightarrow> None | Some (ok, decided) \<Rightarrow> if decided then Some (Ok ok) else Some (validFast src)
      else Some (validFast src))"

definition Validate_build :: "bool \<Rightarrow> bytes \<Rightarrow> (SyntaxError, unit) outcome option" where
  "Validate_build accelerated src =
     (if accelerated \<and> length src \<ge> ValidBitmapMinBytes then
        case validBitmap src of None \<Rightarrow> None | Some (ok, decided) \<Rightarrow> if decided \<and> ok then Some (Ok ()) else Some (validateOptions src 0)
      else Some (validateOptions src 0))"

end
