(* ===== verification/Lexing.thy ===== *)
theory Lexing
  imports Stage1Scan Tokens
begin

text \<open>
  The byte-at-a-time scan of \<open>Stage1Stream\<close> splits a text into lexemes: when its side checks pass, the
  grammar events are the lexemes, and the other way round.
\<close>

subsection \<open>Marks\<close>

primrec marks :: "(scan \<Rightarrow> byte \<Rightarrow> bool) \<Rightarrow> nat \<Rightarrow> scan \<Rightarrow> bytes \<Rightarrow> nat list" where
  "marks P i st [] = []"
| "marks P i st (c # cs) = (if P st c then [i] else []) @ marks P (Suc i) (advance st c) cs"

primrec after :: "scan \<Rightarrow> bytes \<Rightarrow> scan" where
  "after st [] = st"
| "after st (c # cs) = after (advance st c) cs"

lemma after_append: "after st (xs @ ys) = after (after st xs) ys"
  by (induction xs arbitrary: st) simp_all

lemma marks_append: "marks P i st (xs @ ys) = marks P i st xs @ marks P (i + length xs) (after st xs) ys"
  by (induction xs arbitrary: i st) simp_all

lemma state_at_Cons: "state_at st (c # cs) (Suc k) = state_at (advance st c) cs k"
  by (induction k) simp_all

lemma found_Cons: "found P st (c # cs) (Suc k) = found P (advance st c) cs k" "found P st (c # cs) 0 = P st c"
  by (simp_all only: found_def state_at_Cons nth_Cons_Suc state_at.simps(1) nth_Cons_0)

lemma after_state: "after st cs = state_at st cs (length cs)"
  by (induction cs arbitrary: st) (simp_all only: after.simps list.size state_at_Cons state_at.simps(1) add_0_right add_Suc_right)

lemma marks_found: "marks P i st cs = map ((+) i) (filter (found P st cs) [0..<length cs])"
proof (induction cs arbitrary: i st)
  case (Cons c cs)
  have u: "[0..<length (c # cs)] = 0 # map Suc [0..<length cs]" by (simp add: upt_conv_Cons map_Suc_upt del: upt_Suc)
  show ?case unfolding u marks.simps Cons.IH by (simp add: filter_map comp_def found_Cons)
qed simp

lemma marks_0: "marks P 0 st cs = filter (found P st cs) [0..<length cs]"
  by (simp add: marks_found map_idI)

lemma marks_bounds: "j \<in> set (marks P i st cs) \<Longrightarrow> i \<le> j \<and> j < i + length cs"
  by (auto simp: marks_found)

text \<open>Escapes are checked in order, each check telling the next one which target to skip.\<close>

primrec escRun :: "(nat \<Rightarrow> int \<Rightarrow> int option) \<Rightarrow> int \<Rightarrow> nat list \<Rightarrow> int option" where
  "escRun f skip [] = Some skip"
| "escRun f skip (j # js) = (case f j skip of None \<Rightarrow> None | Some skip \<Rightarrow> escRun f skip js)"

lemma escRun_append: "escRun f skip (js @ ks) = (case escRun f skip js of None \<Rightarrow> None | Some skip \<Rightarrow> escRun f skip ks)"
  by (induction js arbitrary: skip) (auto split: option.splits)

definition escape_check :: "bytes \<Rightarrow> nat \<Rightarrow> int \<Rightarrow> int option" where
  "escape_check src j skip =
     (if j \<ge> length src then None else if int j = skip then Some skip
      else case validateEscape src j of Ok k \<Rightarrow> Some (if k = j + 11 then int j + 6 else skip) | _ \<Rightarrow> None)"

subsection \<open>Outside and inside\<close>

abbreviation (input) inside :: scan where "inside \<equiv> (False, True, False)"

lemma scan_space:
  assumes "IsJSONWhitespace c"
  shows "advance (e, False, f) c = (False, False, False)" "\<not> grammar_event (e, False, f) c" "\<not> stray_control (e, False, f) c"
    "\<not> escape_target (e, False, f) c"
  using assms by (auto simp: IsJSONWhitespace_def scalar_part_def stray_control_def)

lemma scan_spaces:
  assumes "spaces w" "P \<in> {grammar_event, stray_control, escape_target}"
  shows "marks P i (e, False, f) w = []" "after (e, False, f) w = (if w = [] then (e, False, f) else (False, False, False))"
proof -
  have "spaces w \<Longrightarrow> marks P i (e, False, f) w = []" for w i e f
    using assms(2) by (induction w arbitrary: i e f) (auto simp del: advance.simps grammar_event.simps escape_target.simps simp: scan_space)
  then show "marks P i (e, False, f) w = []" using assms(1) by blast
  have "spaces w \<Longrightarrow> after (False, False, False) w = (False, False, False)" for w
    by (induction w) (simp_all del: advance.simps add: scan_space)
  then show "after (e, False, f) w = (if w = [] then (e, False, f) else (False, False, False))"
    using assms(1) by (cases w) (simp_all del: advance.simps add: scan_space)
qed

lemma scan_structural:
  assumes "is_structural c"
  shows "advance (False, False, f) c = (False, False, False)" "grammar_event (False, False, f) c" "\<not> stray_control (False, False, f) c"
    "\<not> escape_target (False, False, f) c"
  using assms by (auto simp: scalar_part_def stray_control_def)

text \<open>The bytes of numbers and literals.\<close>

definition plain_scalar :: "byte \<Rightarrow> bool" where
  "plain_scalar c \<longleftrightarrow> \<not> is_space c \<and> \<not> is_structural c \<and> c \<noteq> ch_quote \<and> c \<noteq> ch_backslash \<and> \<not> c < 0x20"

lemma scan_scalar:
  assumes "plain_scalar c"
  shows "advance (False, False, f) c = (False, False, True)" "grammar_event (False, False, f) c \<longleftrightarrow> \<not> f"
    "\<not> stray_control (False, False, f) c" "\<not> escape_target (False, False, f) c"
  using assms by (auto simp: plain_scalar_def scalar_part_def stray_control_def)

lemma scan_scalars:
  assumes "list_all plain_scalar s" "s \<noteq> []"
  shows "marks grammar_event i (False, False, f) s = (if f then [] else [i])" "marks stray_control i (False, False, f) s = []"
    "marks escape_target i (False, False, f) s = []" "after (False, False, f) s = (False, False, True)"
proof -
  have run: "list_all plain_scalar s \<Longrightarrow> marks grammar_event i (False, False, True) s = [] \<and> marks stray_control i (False, False, True) s = []
      \<and> marks escape_target i (False, False, True) s = [] \<and> after (False, False, True) s = (False, False, True)" for s i
    by (induction s arbitrary: i) (simp_all del: advance.simps grammar_event.simps escape_target.simps add: scan_scalar)
  obtain c cs where s: "s = c # cs" "plain_scalar c" "list_all plain_scalar cs" using assms by (cases s) auto
  show "marks grammar_event i (False, False, f) s = (if f then [] else [i])" "marks stray_control i (False, False, f) s = []"
    "marks escape_target i (False, False, f) s = []" "after (False, False, f) s = (False, False, True)"
    using run [OF s(3), of "Suc i"] s(2) unfolding s(1)
    by (simp_all del: advance.simps grammar_event.simps escape_target.simps add: scan_scalar)
qed

lemma scan_inside:
  assumes "c \<noteq> ch_quote" "c \<noteq> ch_backslash" "\<not> c < 0x20"
  shows "advance inside c = inside" "\<not> grammar_event inside c" "\<not> stray_control inside c" "\<not> escape_target inside c"
  using assms by (auto simp: scalar_part_def stray_control_def)

lemma scan_plain_inside:
  "list_all (\<lambda>c. c \<noteq> ch_quote \<and> c \<noteq> ch_backslash \<and> \<not> c < 0x20) r \<Longrightarrow>
    marks grammar_event i inside r = [] \<and> marks stray_control i inside r = [] \<and> marks escape_target i inside r = [] \<and> after inside r = inside"
  by (induction r arbitrary: i) (simp_all del: advance.simps grammar_event.simps escape_target.simps add: scan_inside)

lemma scan_escape_pair:
  assumes "\<not> c < 0x20"
  shows "marks grammar_event i inside [ch_backslash, c] = []" "marks stray_control i inside [ch_backslash, c] = []"
    "marks escape_target i inside [ch_backslash, c] = [Suc i]" "after inside [ch_backslash, c] = inside"
  using assms by (auto simp: scalar_part_def stray_control_def)

subsection \<open>Characters of a string\<close>

abbreviation (input) text_byte :: "byte \<Rightarrow> bool" where
  "text_byte c \<equiv> c \<noteq> ch_quote \<and> c \<noteq> ch_backslash \<and> \<not> c < 0x20"

lemma utf8_seq_text:
  assumes "utf8_seq s" "length s = 1 \<Longrightarrow> \<not> isStringSyntax (hd s)"
  shows "list_all text_byte s"
proof -
  have lead: "\<not> a < 0x20" if "leadSize a = 2 \<or> leadSize a = 3 \<or> leadSize a = 4" for a
    using that by (auto simp: leadSize_def word_less_nat_alt word_le_nat_alt split: if_splits)
  have second: "\<not> b < 0x20" if "acceptSecond a b" for a b
    using that by (auto simp: acceptSecond_def contByte_def split: if_splits dest: le_less_trans)
  have cont: "\<not> c < 0x20" if "contByte c" for c
    using that by (auto simp: contByte_def dest: le_less_trans)
  have "\<not> c < 0x20" if "c \<in> set s" for c
    using assms that lead [of c]
    by (cases rule: utf8_seq_cases) (auto simp: isStringSyntax_def dest: lead second cont)
  then show ?thesis using utf8_seq_plain [OF assms] by (auto simp: list_all_iff)
qed

lemma hexnum_text: "hexnum h = Some n \<Longrightarrow> list_all text_byte h"
proof (erule hexnum_Some)
  fix a b c d
  assume h: "h = [a, b, c, d]" "hexval a \<noteq> None" "hexval b \<noteq> None" "hexval c \<noteq> None" "hexval d \<noteq> None"
  have "text_byte x" if "hexval x \<noteq> None" for x
    using that by (auto simp: hexval_def split: if_splits dest: le_less_trans)
  then show "list_all text_byte h" using h by simp
qed

lemma hexnum_ascii: "hexnum h = Some n \<Longrightarrow> list_all (\<lambda>c. c < 0x80) h"
proof (erule hexnum_Some)
  fix a b c d
  assume h: "h = [a, b, c, d]" "hexval a \<noteq> None" "hexval b \<noteq> None" "hexval c \<noteq> None" "hexval d \<noteq> None"
  have "x < 0x80" if "hexval x \<noteq> None" for x
    using that by (auto simp: hexval_def word_less_nat_alt word_le_nat_alt split: if_splits)
  then show "list_all (\<lambda>c. c < 0x80) h" using h by simp
qed

lemma simple_escape_text: "simple_escape c = Some d \<Longrightarrow> \<not> c < 0x20"
  by (auto simp: simple_escape_def split: if_splits)

lemma escape_check_advance:
  assumes "string_unit src i = Advance k" "src ! i = ch_backslash" "skip < int i"
  shows "escape_check src (Suc i) skip = Some (if k = i + 12 then int i + 7 else skip)"
proof -
  have "validateEscape src (Suc i) = Ok k" "Suc i < length src"
    using assms(1,2) string_unit_lt [OF assms(1)] by (auto simp: string_unit_def split: if_splits outcome.splits)
  then show ?thesis using assms(3) by (simp add: escape_check_def)
qed

lemma jchar_scan:
  assumes "jchar r d" "drop i src = r @ rest" "skip < int i"
  shows "after inside r = inside" "marks grammar_event i inside r = []" "marks stray_control i inside r = []"
    "\<exists>skip'. escRun (escape_check src) skip (marks escape_target i inside r) = Some skip' \<and> skip' < int (i + length r)"
proof -
  note adv = string_unit_complete [OF assms(1,2)]
  have len: "i + length r \<le> length src" using drop_eq_append_le [OF assms(2)] jchar_nonempty [OF assms(1)] by simp
  have "after inside r = inside \<and> marks grammar_event i inside r = [] \<and> marks stray_control i inside r = [] \<and>
    (\<exists>skip'. escRun (escape_check src) skip (marks escape_target i inside r) = Some skip' \<and> skip' < int (i + length r))"
    using assms(1)
  proof cases
    case jc_plain
    then show ?thesis using scan_plain_inside [OF utf8_seq_text, of r i] assms(3) by simp
  next
    case (jc_escape c d)
    have "src ! i = ch_backslash" using assms(2) jc_escape drop_eq_ConsD(2) [of i src ch_backslash] by simp
    then show ?thesis using escape_check_advance [OF adv _ assms(3)] simple_escape_text [OF jc_escape(3)] scan_escape_pair [of c] assms(3) jc_escape
      by (simp del: marks.simps after.simps)
  next
    case (jc_unicode h n)
    have r: "r = [ch_backslash, ch_u] @ h" and l: "length h = 4" using jc_unicode by (simp_all add: hexnum_length)
    have "src ! i = ch_backslash" using assms(2) r drop_eq_ConsD(2) [of i src ch_backslash] by simp
    then show ?thesis using escape_check_advance [OF adv _ assms(3)] scan_escape_pair [of ch_u] scan_plain_inside [OF hexnum_text [OF jc_unicode(3)], of "i + 2"]
      assms(3) l unfolding r marks_append after_append by (simp del: marks.simps after.simps)
  next
    case (jc_pair h hi l lo)
    have r: "r = [ch_backslash, ch_u] @ h @ [ch_backslash, ch_u] @ l" and len4: "length h = 4" "length l = 4" using jc_pair by (simp_all add: hexnum_length)
    have "src ! i = ch_backslash" using assms(2) r drop_eq_ConsD(2) [of i src ch_backslash] by simp
    then have c1: "escape_check src (Suc i) skip = Some (int i + 7)" using escape_check_advance [OF adv _ assms(3)] r len4 by simp
    have c2: "escape_check src (7 + i) (int i + 7) = Some (int i + 7)" using len r len4 by (simp add: escape_check_def)
    have e: "Suc (i + 6) = i + 7" by simp
    show ?thesis using scan_escape_pair [of ch_u] c1 c2 e
      scan_plain_inside [OF hexnum_text [OF jc_pair(3)], of "i + 2"] scan_plain_inside [OF hexnum_text [OF jc_pair(5)], of "8 + i"] len4
      unfolding r marks_append after_append by (simp add: add.assoc del: marks.simps after.simps)
  qed
  then show "after inside r = inside" "marks grammar_event i inside r = []" "marks stray_control i inside r = []"
    "\<exists>skip'. escRun (escape_check src) skip (marks escape_target i inside r) = Some skip' \<and> skip' < int (i + length r)" by blast+
qed

lemma jchars_scan:
  assumes "jchars raw dec" "drop i src = raw @ rest" "skip < int i"
  shows "after inside raw = inside \<and> marks grammar_event i inside raw = [] \<and> marks stray_control i inside raw = [] \<and>
    (\<exists>skip'. escRun (escape_check src) skip (marks escape_target i inside raw) = Some skip' \<and> skip' < int (i + length raw))"
  using assms
proof (induction arbitrary: i skip rule: jchars.induct)
  case (jchars_cons c d cs ds)
  have d1: "drop i src = c @ cs @ rest" using jchars_cons.prems(1) by simp
  note one = jchar_scan [OF jchars_cons.hyps(1) d1 jchars_cons.prems(2)]
  obtain skip' where s1: "escRun (escape_check src) skip (marks escape_target i inside c) = Some skip'" "skip' < int (i + length c)" using one(4) by blast
  from jchars_cons.IH [OF drop_eq_appendD [OF d1] s1(2)] s1(1) one(1-3) show ?case
    unfolding marks_append after_append escRun_append by (simp add: add.assoc)
qed simp

subsection \<open>UTF-8\<close>

lemma utf8_append: "utf8 xs \<Longrightarrow> utf8 ys \<Longrightarrow> utf8 (xs @ ys)"
  by (induction rule: utf8.induct) (simp_all add: utf8_cons)

lemma utf8_seq_ascii: "c < 0x80 \<Longrightarrow> utf8_seq [c]"
  by (simp add: utf8_seq_def leadSize_def)

lemma utf8_ascii_Cons: "c < 0x80 \<Longrightarrow> utf8 (c # cs) \<longleftrightarrow> utf8 cs"
  using utf8Valid_seq [OF utf8_seq_ascii, of c cs] by (simp add: utf8Valid_iff)

lemma utf8_ascii_append: "list_all (\<lambda>c. c < 0x80) xs \<Longrightarrow> utf8 (xs @ ys) \<longleftrightarrow> utf8 ys"
  by (induction xs) (simp_all add: utf8_ascii_Cons)

lemma utf8_jchar: "jchar r d \<Longrightarrow> utf8 (r @ x) \<longleftrightarrow> utf8 x"
proof (induction rule: jchar.induct)
  case (jc_plain s)
  then show ?case using utf8Valid_seq [of s x] by (simp add: utf8Valid_iff)
next
  case (jc_escape c d)
  then show ?case by (auto simp: utf8_ascii_Cons simple_escape_def split: if_splits)
next
  case (jc_unicode h n)
  have "list_all (\<lambda>c. c < 0x80) h" using hexnum_ascii [OF jc_unicode(1)] .
  then show ?case by (simp add: utf8_ascii_Cons utf8_ascii_append)
next
  case (jc_pair h hi l lo)
  then show ?case using hexnum_ascii [of h hi] hexnum_ascii [of l lo] by (simp add: utf8_ascii_Cons utf8_ascii_append)
qed

lemma utf8_jchars: "jchars raw dec \<Longrightarrow> utf8 (raw @ x) \<longleftrightarrow> utf8 x"
  by (induction rule: jchars.induct) (simp_all add: utf8_jchar)

subsection \<open>Clean text\<close>

text \<open>The side checks on the text from \<open>i\<close> on, from a state of the scan.\<close>

definition clean :: "bytes \<Rightarrow> nat \<Rightarrow> scan \<Rightarrow> int \<Rightarrow> bool" where
  "clean src i st skip \<longleftrightarrow> \<not> fst (snd (after st (drop i src))) \<and> marks stray_control i st (drop i src) = []
     \<and> escRun (escape_check src) skip (marks escape_target i st (drop i src)) \<noteq> None \<and> utf8 (drop i src)"

lemma clean_append:
  assumes "drop i src = r @ drop k src" "k = i + length r" "\<And>x. utf8 (r @ x) \<longleftrightarrow> utf8 x"
  shows "clean src i st skip \<longleftrightarrow> marks stray_control i st r = [] \<and>
    (\<exists>skip'. escRun (escape_check src) skip (marks escape_target i st r) = Some skip' \<and> clean src k (after st r) skip')"
  unfolding clean_def assms(1) marks_append after_append escRun_append assms(3) assms(2) [symmetric]
  by (auto split: option.splits)

lemma clean_string:
  "clean src i inside skip \<Longrightarrow> skip < int i \<Longrightarrow> i \<le> length src \<Longrightarrow>
    \<exists>raw dec k skip'. drop i src = raw @ ch_quote # drop k src \<and> jchars raw dec \<and> k = i + length raw + 1 \<and> k \<le> length src
      \<and> clean src k (False, False, False) skip' \<and> skip' < int k"
proof (induction "length src - i" arbitrary: i skip rule: less_induct)
  case less
  have ne: "i < length src" using less.prems by (cases "i < length src") (auto simp: clean_def)
  then have d: "drop i src = src ! i # drop (Suc i) src" by (simp add: Cons_nth_drop_Suc)
  show ?case
  proof (cases "src ! i = ch_quote")
    case True
    have one: "drop i src = [ch_quote] @ drop (Suc i) src" "Suc i = i + length [ch_quote]" using d True by simp_all
    have u: "utf8 ([ch_quote] @ x) \<longleftrightarrow> utf8 x" for x by (simp add: utf8_ascii_Cons)
    have "clean src (Suc i) (False, False, False) skip"
      using less.prems(1) unfolding clean_append [OF one u, of "inside"] by (auto simp: scalar_part_def stray_control_def)
    then show ?thesis using d True jchars_nil less.prems(2) ne
      by (intro exI [of _ "[]"] exI [of _ "Suc i"] exI [of _ skip]) auto
  next
    case False
    have u: "\<exists>k. string_unit src i = Advance k"
    proof (cases "src ! i = ch_backslash")
      case True
      have "Suc i < length src"
      proof (rule ccontr)
        assume "\<not> Suc i < length src"
        then have "drop i src = [ch_backslash]" using d True by simp
        then show False using less.prems(1) by (simp add: clean_def)
      qed
      then have d2: "drop i src = ch_backslash # src ! Suc i # drop (Suc (Suc i)) src" using d True by (simp add: Cons_nth_drop_Suc)
      have "escape_check src (Suc i) skip \<noteq> None"
        using less.prems(1) unfolding clean_def d2 by (auto split: option.splits)
      then show ?thesis using True ne less.prems(2) \<open>Suc i < length src\<close>
        by (auto simp: string_unit_def escape_check_def split: outcome.splits if_splits)
    next
      case bs: False
      have st: "\<not> stray_control inside (src ! i)" using less.prems(1) unfolding clean_def d by (auto split: if_splits)
      then have c: "\<not> src ! i < 0x20" using False by (auto simp: stray_control_def)
      have "utf8Valid (drop i src)" using less.prems(1) by (simp add: clean_def utf8Valid_iff)
      then have "\<not> badRune (DecodeRune (drop i src))" using ne by (subst (asm) utf8Valid.simps) (simp split: if_splits)
      then show ?thesis using False bs c ne by (simp add: string_unit_def)
    qed
    then obtain k where u: "string_unit src i = Advance k" by blast
    then obtain r d where r: "jchar r d" "drop i src = r @ drop k src" "k = i + length r" by (rule string_unit_sound)
    note sc = jchar_scan [OF r(1,2) less.prems(2)]
    obtain skip' where s1: "escRun (escape_check src) skip (marks escape_target i inside r) = Some skip'" "skip' < int k" using sc(4) r(3) by auto
    have c: "clean src k inside skip'"
      using less.prems(1) s1(1) sc(1) unfolding clean_append [OF r(2,3) utf8_jchar [OF r(1)], of "inside"] by auto
    have k: "i < k" "k \<le> length src"
      using string_unit_gt [OF u] drop_eq_append_le [OF r(2)] jchar_nonempty [OF r(1)] r(3) by simp_all
    have "length src - k < length src - i" using k ne by linarith
    then obtain raw dec k' skip'' where ih: "drop k src = raw @ ch_quote # drop k' src" "jchars raw dec" "k' = k + length raw + 1" "k' \<le> length src"
      "clean src k' (False, False, False) skip''" "skip'' < int k'"
      using less.hyps [OF _ c s1(2) k(2)] by blast
    show ?thesis using jchars_cons [OF r(1) ih(2)] r ih
      by (intro exI [of _ "r @ raw"] exI [of _ "d @ dec"] exI [of _ k'] exI [of _ skip'']) simp
  qed
qed

subsection \<open>Scalars\<close>

definition scalar_at :: "bytes \<Rightarrow> nat \<Rightarrow> bool" where
  "scalar_at src j \<longleftrightarrow> (\<exists>s rest. drop j src = s @ rest \<and> (json_number s \<or> s \<in> literals)
     \<and> (rest = [] \<or> is_space (hd rest) \<or> is_structural (hd rest)))"

definition scalars_ok :: "bytes \<Rightarrow> nat list \<Rightarrow> bool" where
  "scalars_ok src js \<longleftrightarrow> (\<forall>j\<in>set js. tok_of (src ! j) = TScalar \<longrightarrow> scalar_at src j)"

lemma json_number_plain: "json_number s \<Longrightarrow> list_all plain_scalar s \<and> s \<noteq> []"
proof -
  have dd: "plain_scalar c" if "IsDigit c" for c
    using that by (auto simp: IsDigit_def plain_scalar_def word_less_nat_alt word_le_nat_alt)
  have d: "list_all plain_scalar ds" if "list_all IsDigit ds" for ds
    using that by (rule list.pred_mono_strong) (simp add: dd)
  have c: "plain_scalar c" if "isOneNine c" for c
    using that by (intro dd) (auto simp: isOneNine_def IsDigit_def intro: order_trans [of _ "0x31"])
  assume n: "json_number s"
  then obtain g i f e where s: "s = g @ i @ f @ e" "g = [] \<or> g = [ch_minus]" "num_int i" "num_frac f" "num_exp e"
    by (auto simp: json_number_def)
  have "list_all plain_scalar i" using s(3) d c by (auto simp: num_int_def) (simp add: plain_scalar_def)
  moreover have "list_all plain_scalar f" using s(4) d by (auto simp: num_frac_def digits1_def) (simp add: plain_scalar_def)
  moreover have "list_all plain_scalar e" using s(5) d by (auto simp: num_exp_def digits1_def) (simp_all add: plain_scalar_def)
  moreover have "list_all plain_scalar g" using s(2) by (auto simp: plain_scalar_def)
  ultimately show ?thesis using json_number_first [OF n] by (simp add: s(1))
qed

lemma literals_plain: "s \<in> literals \<Longrightarrow> list_all plain_scalar s \<and> s \<noteq> []"
  by (auto simp: literals_def plain_scalar_def)

lemma plain_scalar_tok: "plain_scalar c \<Longrightarrow> tok_of c = TScalar"
  by (simp add: plain_scalar_def tok_of_def)

lemma number_ascii: "json_number s \<Longrightarrow> list_all (\<lambda>c. c < 0x80) s"
proof -
  have dd: "c < 0x80" if "IsDigit c" for c using that by (auto simp: IsDigit_def word_less_nat_alt word_le_nat_alt)
  have d: "list_all (\<lambda>c. c < 0x80) ds" if "list_all IsDigit ds" for ds
    using that by (rule list.pred_mono_strong) (simp add: dd)
  have c: "c < 0x80" if "isOneNine c" for c
    using that by (intro dd) (auto simp: isOneNine_def IsDigit_def intro: order_trans [of _ "0x31"])
  assume n: "json_number s"
  then obtain g i f e where s: "s = g @ i @ f @ e" "g = [] \<or> g = [ch_minus]" "num_int i" "num_frac f" "num_exp e"
    by (auto simp: json_number_def)
  have "list_all (\<lambda>c. c < 0x80) i" using s(3) d c by (auto simp: num_int_def)
  moreover have "list_all (\<lambda>c. c < 0x80) f" using s(4) d by (auto simp: num_frac_def digits1_def)
  moreover have "list_all (\<lambda>c. c < 0x80) e" using s(5) d by (auto simp: num_exp_def digits1_def)
  moreover have "list_all (\<lambda>c. c < 0x80) g" using s(2) by auto
  ultimately show ?thesis by (simp add: s(1))
qed

lemma scalar_ascii: "json_number s \<or> s \<in> literals \<Longrightarrow> list_all (\<lambda>c. c < 0x80) s"
  using number_ascii by (auto simp: literals_def)

lemma spaces_ascii: "spaces w \<Longrightarrow> list_all (\<lambda>c. c < 0x80) w"
  by (auto simp: list_all_iff IsJSONWhitespace_def)

subsection \<open>Lexemes of clean text\<close>

abbreviation (input) outside :: "bool \<Rightarrow> scan" where "outside f \<equiv> (False, False, f)"

abbreviation (input) events :: "bytes \<Rightarrow> nat \<Rightarrow> bool \<Rightarrow> nat list" where
  "events src i f \<equiv> marks grammar_event i (outside f) (drop i src)"

definition stopped :: "bytes \<Rightarrow> bool" where
  "stopped cs \<longleftrightarrow> cs = [] \<or> is_space (hd cs) \<or> is_structural (hd cs)"

lemma whitespace_space: "IsJSONWhitespace c \<longleftrightarrow> is_space c"
  by (auto simp: IsJSONWhitespace_def)

text \<open>One lexeme in front: the side checks, the event, and where the scan goes on.\<close>

lemma lexeme_scan:
  assumes ok: "lexeme_ok ([], t, s)" and d: "drop i src = s @ drop k src" "k = i + length s" and skip: "skip < int i"
    and f: "t = TScalar \<longrightarrow> \<not> f"
  shows "marks grammar_event i (outside f) s = [i]" "after (outside f) s = outside (t = TScalar)" "tok_of (src ! i) = t"
    "\<exists>skip'. skip' < int k \<and> (clean src i (outside f) skip \<longleftrightarrow> clean src k (outside (t = TScalar)) skip')" "i < k" "s \<noteq> []"
proof -
  have one: "\<exists>skip'. skip' < int k \<and> (clean src i (outside f) skip \<longleftrightarrow> clean src k (outside (t = TScalar)) skip')"
    if "marks stray_control i (outside f) s = []" "escRun (escape_check src) skip (marks escape_target i (outside f) s) = Some skip'" "skip' < int k"
      "after (outside f) s = outside (t = TScalar)" "\<And>x. utf8 (s @ x) \<longleftrightarrow> utf8 x" for skip'
    using that clean_append [OF d that(5), of "outside f" skip] by auto
  have all: "marks grammar_event i (outside f) s = [i] \<and> after (outside f) s = outside (t = TScalar) \<and> tok_of (src ! i) = t
    \<and> (\<exists>skip'. skip' < int k \<and> (clean src i (outside f) skip \<longleftrightarrow> clean src k (outside (t = TScalar)) skip')) \<and> s \<noteq> []"
  proof (cases "t = TScalar")
    case True
    then have sc: "json_number s \<or> s \<in> literals" using ok by (simp add: lexeme_ok_def)
    then have p: "list_all plain_scalar s" "s \<noteq> []" using json_number_plain literals_plain by blast+
    note m = scan_scalars [OF p, where f = f]
    have "src ! i = hd s" using d(1) p(2) by (cases s) (auto simp: drop_eq_Cons_iff)
    then have "tok_of (src ! i) = TScalar" using p by (cases s) (simp_all add: plain_scalar_tok)
    moreover have "skip < int k" using skip d(2) by simp
    ultimately show ?thesis using m f True p(2) one [of skip] utf8_ascii_append [OF scalar_ascii [OF sc]] by auto
  next
    case ns: False
    show ?thesis
    proof (cases "t = TString")
      case True
      then obtain raw dec where raw: "s = ch_quote # raw @ [ch_quote]" "jchars raw dec" using ok by (auto simp: lexeme_ok_def json_string_def)
      have d1: "drop (Suc i) src = raw @ ch_quote # drop k src" and at: "src ! i = ch_quote" using d(1) raw(1) by (auto simp: drop_eq_Cons_iff)
      have op: "after (outside f) [ch_quote] = inside" by (simp add: scalar_part_def)
      have cl: "after inside [ch_quote] = outside False" "marks grammar_event j inside [ch_quote] = []" "marks stray_control j inside [ch_quote] = []"
        "marks escape_target j inside [ch_quote] = []" for j by (auto simp: scalar_part_def stray_control_def)
      obtain skip' where js: "after inside raw = inside" "marks grammar_event (Suc i) inside raw = []" "marks stray_control (Suc i) inside raw = []"
          "escRun (escape_check src) skip (marks escape_target (Suc i) inside raw) = Some skip'" "skip' < int (Suc i + length raw)"
        using jchars_scan [OF raw(2) d1, of skip] skip by auto
      have o1: "marks grammar_event i (outside f) [ch_quote] = [i]" "marks stray_control i (outside f) [ch_quote] = []"
        "marks escape_target i (outside f) [ch_quote] = []"
        by (auto simp: scalar_part_def stray_control_def)
      have r: "s = [ch_quote] @ raw @ [ch_quote]" using raw(1) by simp
      have m: "marks grammar_event i (outside f) s = [i]" "marks stray_control i (outside f) s = []"
        "marks escape_target i (outside f) s = marks escape_target (Suc i) inside raw" "after (outside f) s = outside False"
        unfolding r marks_append after_append op o1 js(1) cl using js(2,3) by simp_all
      have u: "utf8 (s @ x) \<longleftrightarrow> utf8 x" for x unfolding raw(1) by (simp add: utf8_ascii_Cons utf8_jchars [OF raw(2)])
      have "skip' < int k" using js(5) d(2) raw(1) by simp
      then show ?thesis using m js(4) one [of skip'] u True at by (simp add: tok_of_def raw(1) del: marks.simps after.simps)
    next
      case False
      obtain c where c: "s = [c]" "is_structural c" "tok_of c = t" "c < 0x80" using ok ns False by (cases t) (auto simp: lexeme_ok_def tok_of_def)
      have "src ! i = c" using d(1) c(1) by (simp add: drop_eq_Cons_iff)
      moreover have "skip < int k" using skip d(2) by simp
      ultimately show ?thesis using scan_structural [OF c(2), of f] c ns one [of skip]
        by (simp add: utf8_ascii_Cons del: advance.simps grammar_event.simps escape_target.simps)
    qed
  qed
  then show "marks grammar_event i (outside f) s = [i]" "after (outside f) s = outside (t = TScalar)" "tok_of (src ! i) = t"
    "\<exists>skip'. skip' < int k \<and> (clean src i (outside f) skip \<longleftrightarrow> clean src k (outside (t = TScalar)) skip')" "s \<noteq> []" by blast+
  then show "i < k" using d(2) by simp
qed

lemma spaces_scan:
  assumes w: "spaces w" and d: "drop i src = w @ drop k src" "k = i + length w"
  shows "clean src i (outside f) skip \<longleftrightarrow> clean src k (outside (f \<and> w = [])) skip"
    "events src i f = events src k (f \<and> w = [])"
proof -
  have a: "after (outside f) w = outside (f \<and> w = [])" using scan_spaces(2) [OF w, of grammar_event False f] by auto
  have m: "marks grammar_event i (outside f) w = []" "marks stray_control i (outside f) w = []" "marks escape_target i (outside f) w = []"
    by (rule scan_spaces(1) [OF w]; simp)+
  show "clean src i (outside f) skip \<longleftrightarrow> clean src k (outside (f \<and> w = [])) skip"
    unfolding clean_append [OF d utf8_ascii_append [OF spaces_ascii [OF w]], of "outside f"] m a by simp
  show "events src i f = events src k (f \<and> w = [])"
    unfolding d(1) marks_append m a using d(2) by simp
qed

definition lexed :: "bytes \<Rightarrow> nat \<Rightarrow> bool \<Rightarrow> bool" where
  "lexed src i f \<longleftrightarrow> (\<exists>ls. lexes_as (drop i src) ls \<and> toks_at src (events src i f) = map tok ls)"

lemma lexed_lexeme:
  assumes "lexeme_ok ([], t, s)" "drop i src = s @ drop k src" "k = i + length s" "skip < int i" "t = TScalar \<longrightarrow> \<not> f"
    and "lexed src k (t = TScalar)"
  shows "lexed src i f"
proof -
  note l = lexeme_scan [OF assms(1-5)]
  obtain ls where ls: "lexes_as (drop k src) ls" "toks_at src (events src k (t = TScalar)) = map tok ls" using assms(6) by (auto simp: lexed_def)
  have "lexes_as (drop i src) (([], t, s) # ls)" using ls(1) assms(1,2) by (auto simp: lexes_as_def)
  moreover have "events src i f = i # events src k (t = TScalar)" unfolding assms(2) marks_append l(1,2) assms(3) by simp
  ultimately show ?thesis unfolding lexed_def using ls(2) l(3) by (intro exI [of _ "([], t, s) # ls"]) (simp add: toks_at_def)
qed

lemma lexed_space:
  assumes "spaces [c]" "drop i src = c # drop (Suc i) src" "lexed src (Suc i) False"
  shows "lexed src i f"
proof -
  have "drop i src = [c] @ drop (Suc i) src" "Suc i = i + length [c]" using assms(2) by simp_all
  then have "events src i f = events src (Suc i) (f \<and> [c] = [])" by (rule spaces_scan(2) [OF assms(1)])
  then have e: "events src i f = events src (Suc i) False" by (simp only: list.distinct simp_thms)
  obtain ls w' where ls: "drop (Suc i) src = unlex ls @ w'" "spaces w'" "list_all lexeme_ok ls" "toks_at src (events src (Suc i) False) = map tok ls"
    using assms(3) by (auto simp: lexed_def lexes_as_def)
  show ?thesis
  proof (cases ls)
    case Nil
    then have "lexes_as (drop i src) []" using ls assms(1,2) by (auto simp: lexes_as_def intro!: exI [of _ "c # w'"])
    then show ?thesis unfolding lexed_def e using ls(4) Nil by blast
  next
    case (Cons lx ls')
    obtain w t s where lx: "lx = (w, t, s)" by (cases lx) auto
    have "lexes_as (drop i src) ((c # w, t, s) # ls')"
      using ls assms(1,2) Cons lx by (auto simp: lexes_as_def lexeme_ok_def intro!: exI [of _ w'])
    moreover have "toks_at src (events src (Suc i) False) = map tok ((c # w, t, s) # ls')" using ls(4) Cons lx by simp
    ultimately show ?thesis unfolding lexed_def e by blast
  qed
qed

lemma scalars_ok_append: "scalars_ok src (js @ ks) \<longleftrightarrow> scalars_ok src js \<and> scalars_ok src ks"
  by (auto simp: scalars_ok_def)

lemma clean_lexed:
  "clean src i (outside f) skip \<Longrightarrow> skip < int i \<Longrightarrow> i \<le> length src \<Longrightarrow> f \<longrightarrow> stopped (drop i src)
    \<Longrightarrow> scalars_ok src (events src i f) \<Longrightarrow> lexed src i f"
proof (induction "length src - i" arbitrary: i f skip rule: less_induct)
  case less
  show ?case
  proof (cases "i < length src")
    case False
    then show ?thesis using less.prems(3) by (auto simp: lexed_def lexes_as_def toks_at_def intro!: exI [of _ "[]"])
  next
    case True
    then have d: "drop i src = src ! i # drop (Suc i) src" by (simp add: Cons_nth_drop_Suc)
    have go: "lexed src i f"
      if lx: "lexeme_ok ([], t, s)" "drop i src = s @ drop k src" "k = i + length s" "k \<le> length src" "t = TScalar \<longrightarrow> \<not> f"
        "t = TScalar \<longrightarrow> stopped (drop k src)" for t s k
    proof (rule lexed_lexeme [OF lx(1-3) less.prems(2) lx(5)])
      note l = lexeme_scan [OF lx(1-3) less.prems(2) lx(5)]
      obtain skip' where skip': "skip' < int k" "clean src k (outside (t = TScalar)) skip'" using l(4) less.prems(1) by blast
      have "events src i f = [i] @ events src k (t = TScalar)" unfolding lx(2) marks_append l(1,2) lx(3) by simp
      then have "scalars_ok src (events src k (t = TScalar))" using less.prems(5) by (simp only: scalars_ok_append)
      moreover have "length src - k < length src - i" using l(5) True by linarith
      ultimately show "lexed src k (t = TScalar)" using less.hyps [OF _ skip'(2,1) lx(4)] lx(6) by blast
    qed
    consider "is_space (src ! i)" | "is_structural (src ! i)" | "src ! i = ch_quote"
      | "\<not> is_space (src ! i)" "\<not> is_structural (src ! i)" "src ! i \<noteq> ch_quote" by blast
    then show ?thesis
    proof cases
      case 1
      then have w: "spaces [src ! i]" by (simp add: whitespace_space)
      have one: "drop i src = [src ! i] @ drop (Suc i) src" "Suc i = i + length [src ! i]" using d by simp_all
      have s: "clean src (Suc i) (outside False) skip" "events src i f = events src (Suc i) False"
        using spaces_scan [OF w one, of f] less.prems(1) by (simp_all only: list.distinct simp_thms)
      show ?thesis
        by (rule lexed_space [OF w d]) (rule less.hyps [OF _ s(1)], use True less.prems s(2) in simp_all)
    next
      case 2
      then have "lexeme_ok ([], tok_of (src ! i), [src ! i])" "tok_of (src ! i) \<noteq> TScalar" by (auto simp: lexeme_ok_def tok_of_def)
      then show ?thesis using d True by (intro go [of "tok_of (src ! i)" "[src ! i]" "Suc i"]) auto
    next
      case 3
      have one: "drop i src = [ch_quote] @ drop (Suc i) src" "Suc i = i + length [ch_quote]" using d 3 by simp_all
      have u: "utf8 ([ch_quote] @ x) \<longleftrightarrow> utf8 x" for x by (simp add: utf8_ascii_Cons)
      have "clean src (Suc i) inside skip"
        using less.prems(1) unfolding clean_append [OF one u, of "outside f"] by (auto simp: scalar_part_def stray_control_def)
      then obtain raw dec k skip' where r: "drop (Suc i) src = raw @ ch_quote # drop k src" "jchars raw dec" "k = Suc i + length raw + 1" "k \<le> length src"
        using clean_string [of src "Suc i" skip] less.prems(2) True by auto
      then have "lexeme_ok ([], TString, quoted raw)" by (auto simp: lexeme_ok_def json_string_def)
      then show ?thesis using r one(1) by (intro go [of TString "quoted raw" k]) auto
    next
      case 4
      then have nf: "\<not> f" using less.prems(4) d by (auto simp: stopped_def)
      have "grammar_event (outside False) (src ! i)" using 4 by (auto simp: scalar_part_def)
      then have "i \<in> set (events src i f)" using d nf by simp
      moreover have "tok_of (src ! i) = TScalar" using 4 by (auto simp: tok_of_def)
      ultimately have "scalar_at src i" using less.prems(5) unfolding scalars_ok_def by blast
      then obtain s rest where s: "drop i src = s @ rest" "json_number s \<or> s \<in> literals" "stopped rest"
        unfolding scalar_at_def stopped_def by blast
      have ne: "s \<noteq> []" using s(2) json_number_plain literals_plain by blast
      have "lexeme_ok ([], TScalar, s)" using s(2) by (simp add: lexeme_ok_def)
      moreover have "rest = drop (i + length s) src" using drop_eq_appendD [OF s(1)] by simp
      ultimately show ?thesis using s nf drop_eq_append_le [OF s(1) ne] by (intro go [of TScalar s "i + length s"]) auto
    qed
  qed
qed

text \<open>Behind a scalar the stack machine takes a comma or a closing bracket only, so the scalar ends there.\<close>

lemma astep_AtEnd: "astep t (AtEnd, stk) \<noteq> None \<Longrightarrow> t \<in> {TComma, TEndObject, TEndArray}"
  by (cases t) (auto simp: takes_value_def takes_key_def)

lemma astep_scalar: "astep TScalar (x, stk) = Some a \<Longrightarrow> fst a = AtEnd"
  by (auto split: if_splits)

lemma stopped_lexemes:
  assumes "list_all lexeme_ok ls" "spaces w'" "asteps (map tok ls) (AtEnd, stk) \<noteq> None"
  shows "stopped (unlex ls @ w')"
proof (cases ls)
  case Nil
  then show ?thesis using assms(2) by (cases w') (auto simp: stopped_def whitespace_space)
next
  case (Cons lx ls')
  obtain w t s where lx: "lx = (w, t, s)" by (cases lx) auto
  have "t \<in> {TComma, TEndObject, TEndArray}" using assms(3) Cons lx by (intro astep_AtEnd [of t stk]) (auto split: option.splits)
  then have "\<exists>c. s = [c] \<and> is_structural c" "spaces w" using assms(1) Cons lx by (auto simp: lexeme_ok_def)
  then show ?thesis using Cons lx by (cases w) (auto simp: stopped_def whitespace_space)
qed

lemma lexemes_clean:
  "drop i src = unlex ls @ w' \<Longrightarrow> i \<le> length src \<Longrightarrow> list_all lexeme_ok ls \<Longrightarrow> spaces w' \<Longrightarrow> asteps (map tok ls) (x, stk) \<noteq> None
    \<Longrightarrow> f \<longrightarrow> x = AtEnd \<Longrightarrow> skip < int i
    \<Longrightarrow> clean src i (outside f) skip \<and> scalars_ok src (events src i f) \<and> toks_at src (events src i f) = map tok ls"
proof (induction ls arbitrary: i x stk f skip)
  case Nil
  have d: "drop i src = w' @ drop (length src) src" "length src = i + length w'"
    using Nil.prems(1,2) by (simp_all, metis length_drop le_add_diff_inverse)
  have "clean src (length src) (outside (f \<and> w' = [])) skip" by (simp add: clean_def utf8_nil)
  then show ?case using spaces_scan [OF Nil.prems(4) d, of f] by (simp add: scalars_ok_def toks_at_def)
next
  case (Cons lx ls)
  obtain w t s where lx: "lx = (w, t, s)" by (cases lx) auto
  obtain a where a: "astep t (x, stk) = Some a" "asteps (map tok ls) a \<noteq> None" using Cons.prems(5) lx by (auto split: option.splits)
  have "lexeme_ok (w, t, s)" and tail: "list_all lexeme_ok ls" using Cons.prems(3) lx by simp_all
  then have ok: "lexeme_ok ([], t, s)" "spaces w" "list_all lexeme_ok ls" by (simp_all add: lexeme_ok_def)
  define j where "j = i + length w"
  define k where "k = j + length s"
  have dw: "drop i src = w @ (s @ unlex ls @ w')" using Cons.prems(1) lx by simp
  have dj: "drop j src = s @ unlex ls @ w'" using drop_eq_appendD [OF dw] by (simp add: j_def)
  have dk: "drop k src = unlex ls @ w'" using drop_eq_appendD [OF dj] by (simp add: k_def)
  have d1: "drop i src = w @ drop j src" "drop j src = s @ drop k src" using dw dj dk by simp_all
  have ft: "t = TScalar \<longrightarrow> \<not> (f \<and> w = [])"
    using Cons.prems(6) a(1) astep_AtEnd [of t stk] by (cases x) auto
  have sk: "skip < int j" using Cons.prems(7) by (simp add: j_def)
  note l = lexeme_scan [OF ok(1) d1(2) k_def sk ft]
  obtain skip' where skip': "skip' < int k" "clean src j (outside (f \<and> w = [])) skip \<longleftrightarrow> clean src k (outside (t = TScalar)) skip'" using l(4) by blast
  have kl: "k \<le> length src" using drop_eq_append_le [OF dj l(6)] by (simp add: k_def)
  have at_end: "(t = TScalar) \<longrightarrow> fst a = AtEnd" using astep_scalar a(1) by blast
  have ih: "clean src k (outside (t = TScalar)) skip'" "scalars_ok src (events src k (t = TScalar))" "toks_at src (events src k (t = TScalar)) = map tok ls"
    using Cons.IH [OF dk kl ok(3) Cons.prems(4) _ at_end skip'(1), of "snd a"] a(2) by auto
  have ev: "events src i f = j # events src k (t = TScalar)"
    unfolding spaces_scan(2) [OF ok(2) d1(1) j_def] unfolding d1(2) marks_append l(1,2) unfolding k_def [symmetric] by simp
  have sc: "scalar_at src j" if "t = TScalar"
  proof -
    have "asteps (map tok ls) (AtEnd, snd a) \<noteq> None" using a(2) at_end that by (cases a) auto
    then have "stopped (unlex ls @ w')" by (rule stopped_lexemes [OF ok(3) Cons.prems(4)])
    then show ?thesis using dj ok(1) that unfolding scalar_at_def stopped_def lexeme_ok_def by auto
  qed
  show ?case using ih skip'(2) spaces_scan(1) [OF ok(2) d1(1) j_def, of f skip] l(3) sc unfolding ev lx
    by (simp add: scalars_ok_def toks_at_def)
qed

text \<open>A text is a document exactly when its events pass the stack machine and the side checks succeed.\<close>

theorem clean_accepted_document:
  "clean src 0 (outside False) (- 1) \<and> scalars_ok src (marks grammar_event 0 (outside False) src)
     \<and> accepted (toks_at src (marks grammar_event 0 (outside False) src))
   \<longleftrightarrow> json_document Stage2MaxDepth src"
proof
  assume c: "clean src 0 (outside False) (- 1) \<and> scalars_ok src (marks grammar_event 0 (outside False) src)
     \<and> accepted (toks_at src (marks grammar_event 0 (outside False) src))"
  then have "lexed src 0 False" using clean_lexed [of src 0 False "- 1"] by simp
  then show "json_document Stage2MaxDepth src" using c unfolding accepted_iff_document [symmetric] lexed_def by auto
next
  assume "json_document Stage2MaxDepth src"
  then obtain ls where ls: "lexes_as src ls" "accepted (map tok ls)" unfolding accepted_iff_document [symmetric] by blast
  then show "clean src 0 (outside False) (- 1) \<and> scalars_ok src (marks grammar_event 0 (outside False) src)
     \<and> accepted (toks_at src (marks grammar_event 0 (outside False) src))"
    using lexemes_clean [of 0 src ls _ AtStart "[]" False "- 1"] by (auto simp: lexes_as_def accepted_def)
qed

end
