(* ===== verification/BitmapChecks.thy ===== *)
theory BitmapChecks
  imports ValidPositions Lexing
begin

text \<open>
  The checks the bitmap validator makes beside the grammar: escapes, scalars, UTF-8 and the masks of blocks beyond
  ASCII, each against what \<open>Lexing\<close> asks of a clean text.
\<close>

subsection \<open>Escapes\<close>

lemma hex4_Fixed: "hex4 src i = (if i + 4 > length src then (0, False) else hex4Fixed (subslice src i (i + 4)))"
  by (simp add: hex4_def hex4Fixed_def subslice_def Let_def)

lemma escapeStep_check: "escapeStep src j skip = escape_check src j skip"
proof (cases "j < length src \<and> int j \<noteq> skip \<and> src ! j = ch_u")
  case True
  have pair: "subslice src (j + 5) (j + 11) ! 0 = src ! (j + 5)" "subslice src (j + 5) (j + 11) ! 1 = src ! (j + 6)"
    "drop 2 (subslice src (j + 5) (j + 11)) = subslice src (j + 7) (j + 11)" if "j + 11 \<le> length src"
    using that by (simp_all add: subslice_def drop_take add.commute)
  have l5: "length src - j < 5 \<longleftrightarrow> j + 1 + 4 > length src" "length src - j < 11 \<longleftrightarrow> j + 11 > length src" using True by auto
  have e: "j + 1 + 4 = j + 5" "j + 7 + 4 = j + 11" by simp_all
  obtain u ok where h: "hex4 src (j + 1) = (u, ok)" by fastforce
  obtain lo ok2 where h2: "hex4 src (j + 7) = (lo, ok2)" by fastforce
  have v: "validateEscape src j = validateUnicodeEscape src j" using True by (simp add: validateEscape_def)
  have ne: "\<not> (0xDC00 \<le> u \<and> u \<le> 0xDFFF)" if "0xD800 \<le> u" "u \<le> 0xDBFF" using that by (auto simp: word_le_nat_alt)
  show ?thesis
  proof (cases "j + 1 + 4 > length src")
    case short: True
    then have "\<not> ok" using h by (simp add: hex4_Fixed)
    then show ?thesis using True short h unfolding escapeStep_def escape_check_def v validateUnicodeEscape_offsets l5 by simp
  next
    case False
    have f1: "hex4Fixed (subslice src (j + 1) (j + 5)) = (u, ok)" using h unfolding hex4_Fixed if_not_P [OF False] unfolding e .
    show ?thesis
    proof (cases "ok \<and> 0xD800 \<le> u \<and> u \<le> 0xDBFF \<and> j + 11 \<le> length src")
      case True': True
      then have "\<not> j + 7 + 4 > length src" by simp
      from h2 [unfolded hex4_Fixed if_not_P [OF this], unfolded e] have f2: "hex4Fixed (subslice src (j + 7) (j + 11)) = (lo, ok2)" .
      show ?thesis using True True' False ne unfolding escapeStep_def escape_check_def v validateUnicodeEscape_offsets l5 h h2 f1
        by (simp add: pair [unfolded One_nat_def] f2 Let_def)
    next
      case False': False
      show ?thesis using True False False' ne unfolding escapeStep_def escape_check_def v validateUnicodeEscape_offsets l5 h f1 by auto
    qed
  qed
next
  case False
  then show ?thesis by (auto simp: escapeStep_def escape_check_def validateEscape_def Let_def)
qed

text \<open>The loop over a block runs the checks in order.\<close>

lemma escapesLoop_bits:
  "k + n = 64 \<Longrightarrow> (case escRun (escape_check src) skip (map ((+) pos) (filter (bit e) [k..<64])) of
      None \<Rightarrow> fst (escapesLoop src pos (bits_from e k) skip)
    | Some skip' \<Rightarrow> escapesLoop src pos (bits_from e k) skip = (False, skip'))"
proof (induction n arbitrary: k skip)
  case 0
  then show ?case by (simp add: escapesLoop.simps)
next
  case (Suc n)
  have up: "[k..<64] = k # [Suc k..<64]" using Suc.prems by (intro upt_conv_Cons) simp
  have ih: "case escRun (escape_check src) skip (map ((+) pos) (filter (bit e) [Suc k..<64])) of
      None \<Rightarrow> fst (escapesLoop src pos (bits_from e (Suc k)) skip)
    | Some skip' \<Rightarrow> escapesLoop src pos (bits_from e (Suc k)) skip = (False, skip')" for skip
    using Suc.prems by (intro Suc.IH) simp
  show ?case
  proof (cases "bit e k")
    case True
    note b = bits_from_set [OF True]
    show ?thesis
    proof (cases "escape_check src (pos + k) skip")
      case None
      then show ?thesis using b True by (subst escapesLoop.simps) (simp add: up escapeStep_check)
    next
      case (Some s)
      have "escapesLoop src pos (bits_from e k) skip = escapesLoop src pos (bits_from e (Suc k)) s"
        using b Some by (subst escapesLoop.simps) (simp add: escapeStep_check)
      then show ?thesis using ih [of s] True Some by (simp add: up split: option.splits)
    qed
  next
    case False
    then show ?thesis using ih [of skip] by (simp add: up bits_from_unset split: option.splits)
  qed
qed

lemma validBitmapEscapes_run:
  "case escRun (escape_check src) skip (map ((+) pos) (filter (bit e) [0..<64])) of
      None \<Rightarrow> fst (validBitmapEscapes src (length src) pos e skip)
    | Some skip' \<Rightarrow> validBitmapEscapes src (length src) pos e skip = (False, skip')"
  using escapesLoop_bits [where k = 0 and n = 64 and src = src and skip = skip and pos = pos and e = e]
  by (simp add: validBitmapEscapes_def split: option.splits)

subsection \<open>Scalars\<close>

lemma boundary_stopped: "isJSONSpaceOrStructural c \<longleftrightarrow> is_space c \<or> is_structural c"
  by (auto simp: isJSONSpaceOrStructural_def)

lemma ends_stopped:
  assumes "stop \<le> length src"
  shows "stop = length src \<or> isJSONSpaceOrStructural (src ! stop) \<longleftrightarrow> stopped (drop stop src)"
proof (cases "stop < length src")
  case True
  then show ?thesis by (simp add: stopped_def boundary_stopped hd_drop_conv_nth)
qed (use assms in \<open>simp add: stopped_def\<close>)

lemma stopped_num: "stopped rest \<Longrightarrow> num_stop rest"
  by (auto simp: stopped_def num_stop_def IsDigit_def)

lemma scalar_at_stopped:
  "scalar_at src j \<longleftrightarrow> (\<exists>s rest. drop j src = s @ rest \<and> (json_number s \<or> s \<in> literals) \<and> stopped rest)"
  by (auto simp: scalar_at_def stopped_def)

lemma scalar_at_number:
  assumes "j < length src" "src ! j = ch_minus \<or> IsDigit (src ! j)"
  shows "(case scanNumberFast src (length src) j of (stop, ok) \<Rightarrow> ok \<and> (stop = length src \<or> isJSONSpaceOrStructural (src ! stop)))
    \<longleftrightarrow> scalar_at src j"
proof -
  obtain stop msg where sc: "scanNumber src j = (stop, msg)" by fastforce
  have fast: "scanNumberFast src (length src) j = (stop, msg = [])" using scanNumberFast_reference [OF assms(1)] sc by simp
  have "msg = [] \<and> (stop = length src \<or> isJSONSpaceOrStructural (src ! stop)) \<longleftrightarrow> scalar_at src j"
  proof
    assume a: "msg = [] \<and> (stop = length src \<or> isJSONSpaceOrStructural (src ! stop))"
    then have n: "j < stop" "stop \<le> length src" "json_number (subslice src j stop)" using scanNumber_sound [of src j stop] sc by simp_all
    have "drop j src = subslice src j stop @ drop stop src" using n by (intro drop_slice) simp_all
    then show "scalar_at src j" unfolding scalar_at_stopped using n a ends_stopped [OF n(2)] by blast
  next
    assume "scalar_at src j"
    then obtain s rest where s: "drop j src = s @ rest" "json_number s \<or> s \<in> literals" "stopped rest" by (auto simp: scalar_at_stopped)
    have "s \<noteq> []" using s(2) json_number_plain literals_plain by blast
    then have "hd s = src ! j" using s(1) assms(1) by (cases s) (auto simp: drop_eq_Cons_iff)
    then have "s \<notin> literals" using assms(2) by (auto simp: literals_def IsDigit_def)
    then have n: "json_number s" using s(2) by blast
    have "scanNumber src j = (j + length s, [])" by (rule scanNumber_complete [OF s(1) n stopped_num [OF s(3)]])
    moreover have "j + length s \<le> length src" using drop_eq_append_le [OF s(1) \<open>s \<noteq> []\<close>] .
    ultimately show "msg = [] \<and> (stop = length src \<or> isJSONSpaceOrStructural (src ! stop))"
      using sc ends_stopped [of stop src] s(3) drop_eq_appendD [OF s(1)] by simp
  qed
  then show ?thesis by (simp add: fast)
qed

lemma scalar_at_literal:
  assumes "lit \<in> literals" "j < length src" "src ! j = hd lit"
  shows "matchStringAt src j lit \<and> (j + length lit = length src \<or> isJSONSpaceOrStructural (src ! (j + length lit))) \<longleftrightarrow> scalar_at src j"
proof
  have ne: "lit \<noteq> []" using assms(1) by (auto simp: literals_def)
  assume a: "matchStringAt src j lit \<and> (j + length lit = length src \<or> isJSONSpaceOrStructural (src ! (j + length lit)))"
  then obtain r where r: "drop j src = lit @ r" using matchStringAt_drop [OF ne, of src j] by auto
  then have "stopped r" using a ends_stopped [OF drop_eq_append_le [OF r ne]] drop_eq_appendD [OF r] by simp
  then show "scalar_at src j" unfolding scalar_at_stopped using r assms(1) by blast
next
  have ne: "lit \<noteq> []" using assms(1) by (auto simp: literals_def)
  assume "scalar_at src j"
  then obtain s rest where s: "drop j src = s @ rest" "json_number s \<or> s \<in> literals" "stopped rest" by (auto simp: scalar_at_stopped)
  have sne: "s \<noteq> []" using s(2) json_number_plain literals_plain by blast
  then have h: "hd s = hd lit" using s(1) assms(2,3) by (cases s) (auto simp: drop_eq_Cons_iff)
  have "\<not> json_number s" using json_number_first [of s] h assms(1) by (auto simp: literals_def IsDigit_def)
  then have "s = lit" using s(2) h assms(1) by (auto simp: literals_def)
  then show "matchStringAt src j lit \<and> (j + length lit = length src \<or> isJSONSpaceOrStructural (src ! (j + length lit)))"
    using s ne matchStringAt_drop [OF ne, of src j] ends_stopped [OF drop_eq_append_le [OF s(1) sne]] drop_eq_appendD [OF s(1)] by auto
qed

lemma scalar_at_keyword:
  assumes "lit \<in> literals" "j < length src" "src ! j = hd lit" "length lit = m"
  shows "matchStringAt src j lit \<and> (j + m = length src \<or> isJSONSpaceOrStructural (src ! (j + m))) \<longleftrightarrow> scalar_at src j"
  using scalar_at_literal [OF assms(1-3)] assms(4) by simp

lemma validScalarTokenAt_iff: "j < length src \<Longrightarrow> validScalarTokenAt src (length src) j \<longleftrightarrow> scalar_at src j"
proof -
  assume j: "j < length src"
  consider "src ! j = ch_minus \<or> IsDigit (src ! j)" | "src ! j = ch_t" | "src ! j = ch_f" | "src ! j = ch_n"
    | "\<not> (src ! j = ch_minus \<or> IsDigit (src ! j)) \<and> src ! j \<noteq> ch_t \<and> src ! j \<noteq> ch_f \<and> src ! j \<noteq> ch_n" by blast
  then show ?thesis
  proof cases
    case 1
    then show ?thesis using scalar_at_number [OF j 1] by (auto simp: validScalarTokenAt_def Let_def split: prod.splits)
  next
    case 2
    have "matchStringAt src j lit_true \<and> (j + 4 = length src \<or> isJSONSpaceOrStructural (src ! (j + 4))) \<longleftrightarrow> scalar_at src j"
      by (rule scalar_at_keyword) (use 2 j in \<open>simp_all add: literals_def\<close>)
    then show ?thesis using 2 j by (auto simp: validScalarTokenAt_def Let_def literal_At IsDigit_def)
  next
    case 3
    have "matchStringAt src j lit_false \<and> (j + 5 = length src \<or> isJSONSpaceOrStructural (src ! (j + 5))) \<longleftrightarrow> scalar_at src j"
      by (rule scalar_at_keyword) (use 3 j in \<open>simp_all add: literals_def\<close>)
    then show ?thesis using 3 j by (auto simp: validScalarTokenAt_def Let_def literal_At IsDigit_def)
  next
    case 4
    have "matchStringAt src j lit_null \<and> (j + 4 = length src \<or> isJSONSpaceOrStructural (src ! (j + 4))) \<longleftrightarrow> scalar_at src j"
      by (rule scalar_at_keyword) (use 4 j in \<open>simp_all add: literals_def\<close>)
    then show ?thesis using 4 j by (auto simp: validScalarTokenAt_def Let_def literal_At IsDigit_def)
  next
    case 5
    have "\<not> scalar_at src j"
    proof
      assume "scalar_at src j"
      then obtain s rest where s: "drop j src = s @ rest" "json_number s \<or> s \<in> literals" by (auto simp: scalar_at_stopped)
      have "s \<noteq> []" using s(2) json_number_plain literals_plain by blast
      then have "hd s = src ! j" using s(1) j by (cases s) (auto simp: drop_eq_Cons_iff)
      then show False using s(2) 5 json_number_first [of s] by (auto simp: literals_def)
    qed
    then show ?thesis using 5 by (simp add: validScalarTokenAt_def Let_def)
  qed
qed

text \<open>The short-number word of four bytes is the eight-byte mask of the word with four empty lanes.\<close>

lemma ucast_down:
  fixes u v :: "64 word"
  shows "(ucast (u + v) :: 32 word) = ucast u + ucast v" "(ucast (u - v) :: 32 word) = ucast u - ucast v"
proof -
  have d: "(word_of_int (take_bit 64 n) :: 32 word) = word_of_int n" for n
    by transfer simp
  have "uint (u + v) = take_bit 64 (uint u + uint v)" "uint (u - v) = take_bit 64 (uint u - uint v)"
    by (simp_all add: uint_word_ariths take_bit_eq_mod)
  then show "(ucast (u + v) :: 32 word) = ucast u + ucast v" "(ucast (u - v) :: 32 word) = ucast u - ucast v"
    by (simp_all only: ucast_eq d wi_hom_add wi_hom_sub)
qed

lemma nonDigitMask4_wide: "nonDigitMask4 x = ucast (nonDigitMask8 (ucast x))"
proof -
  have "(ucast (ucast x :: 64 word) :: 32 word) = x" by (rule bit_word_eqI) (simp add: bit_unsigned_iff)
  moreover have "(ucast (0x4646464646464646 :: 64 word) :: 32 word) = 0x46464646" "(ucast (0x3030303030303030 :: 64 word) :: 32 word) = 0x30303030"
    "(ucast (0x8080808080808080 :: 64 word) :: 32 word) = 0x80808080" by simp_all
  ultimately show ?thesis by (simp only: nonDigitMask4_def nonDigitMask8_def unsigned_and_eq unsigned_or_eq ucast_down)
qed

lemma le32_wide:
  assumes "i + 4 \<le> length src"
  shows "ucast (le32 src i) = (le_word (subslice src i (i + 4)) :: 64 word)"
proof (rule bit_word_eqI)
  fix n assume "n < LENGTH(64)"
  then show "bit (ucast (le32 src i) :: 64 word) n \<longleftrightarrow> bit (le_word (subslice src i (i + 4)) :: 64 word) n"
    using assms bit_imp_le_length [of "le32 src i" n] by (cases "n < 32") (auto simp: le32_def bit_unsigned_iff bit_le_word slices div_less_iff_less_mult)
qed

lemma lane_le_word_short: "k < 8 \<Longrightarrow> lane k (le_word bs) = (if k < length bs then bs ! k else 0)"
  by (rule bit_word_eqI) (simp add: bit_lane bit_le_word)

lemma takeWhile_upto:
  assumes "m < n" "n \<le> N" "P m"
  shows "takeWhile (\<lambda>i. \<not> P i) [0..<n] = takeWhile (\<lambda>i. \<not> P i) [0..<N]"
proof -
  have "[0..<N] = [0..<n] @ [n..<N]" using assms(2) by (metis le_add_diff_inverse upt_add_eq_append zero_le)
  moreover have "m \<in> set [0..<n]" using assms(1) by simp
  ultimately show ?thesis using assms(3) by (metis (no_types, lifting) takeWhile_append1)
qed

lemma shortNumber_width:
  assumes "j + 4 \<le> length src" "nonDigitMask4 (le32 src j) \<noteq> 0"
  shows "TrailingZeros32 (nonDigitMask4 (le32 src j)) div 8 < 4 \<and>
    list_all IsDigit (subslice src j (j + TrailingZeros32 (nonDigitMask4 (le32 src j)) div 8))"
proof -
  define w :: "64 word" where "w = le_word (subslice src j (j + 4))"
  have m: "nonDigitMask4 (le32 src j) = ucast (nonDigitMask8 w)" using assms(1) by (simp add: nonDigitMask4_wide le32_wide w_def)
  have l: "lane k w = (if k < 4 then src ! (j + k) else 0)" if "k < 8" for k
    using that assms(1) by (simp add: w_def lane_le_word_short slices)
  have "\<not> IsDigit (lane 4 w)" by (simp add: l IsDigit_def)
  then obtain k where k: "\<not> IsDigit (lane k w)" "\<forall>i<k. IsDigit (lane i w)" "k \<le> 4"
    using exists_least_iff [of "\<lambda>k. \<not> IsDigit (lane k w)"] by (metis leI)
  have lanes0: "lane i (nonDigitMask8 w) = 0" if "i < k" for i using that k by (subst non_digit.lane_mask) auto
  have "k \<noteq> 4"
  proof
    assume "k = 4"
    have "\<not> bit (nonDigitMask8 w) n" if "n < 32" for n
      using bit_lane [of "n div 8" "nonDigitMask8 w" "n mod 8"] lanes0 [of "n div 8"] that \<open>k = 4\<close> by simp
    then have "nonDigitMask4 (le32 src j) = 0" unfolding m by (intro bit_word_eqI) (simp add: bit_unsigned_iff)
    then show False using assms(2) by simp
  qed
  then have k4: "k < 4" using k(3) by simp
  have at: "TrailingZeros64 (nonDigitMask8 w) div 8 = k" using k k4 by (intro non_digit.mask_first_hit) auto
  have "bit (nonDigitMask8 w) (TrailingZeros64 (nonDigitMask8 w))"
    by (rule TrailingZeros64_bit) (use non_digit.mask_first_hit(1) [of k w] k k4 in auto)
  moreover have "TrailingZeros64 (nonDigitMask8 w) < 32" using at k4 by linarith
  ultimately have "TrailingZeros32 (nonDigitMask4 (le32 src j)) = TrailingZeros64 (nonDigitMask8 w)"
    using takeWhile_upto [of "TrailingZeros64 (nonDigitMask8 w)" 32 64 "bit (nonDigitMask8 w)"]
      takeWhile_cong [OF refl, of "[0..<32]" "\<lambda>n. \<not> bit (nonDigitMask4 (le32 src j)) n" "\<lambda>n. \<not> bit (nonDigitMask8 w) n"]
    by (simp add: TrailingZeros64_def TrailingZeros32_def m bit_unsigned_iff)
  moreover have "list_all IsDigit (subslice src j (j + k))"
    using k(2) l k4 assms(1) by (auto simp: list_all_length slices)
  ultimately show ?thesis using at k4 by simp
qed

lemma digits_number: "digits1 ds \<Longrightarrow> hd ds \<noteq> ch_0 \<or> length ds = 1 \<Longrightarrow> json_number ds"
proof -
  assume d: "digits1 ds" "hd ds \<noteq> ch_0 \<or> length ds = 1"
  then obtain c cs where c: "ds = c # cs" "IsDigit c" "list_all IsDigit cs" by (cases ds) (auto simp: digits1_def)
  have "c \<noteq> ch_0 \<Longrightarrow> isOneNine c" using c(2) unfolding isOneNine_def IsDigit_def by unat_arith
  then have "num_int ds" using d c by (auto simp: num_int_def)
  moreover have "num_frac []" "num_exp []" by (simp_all add: num_frac_def num_exp_def)
  ultimately show "json_number ds" unfolding json_number_def by (metis append_Nil append_Nil2)
qed

lemma digits_scalar_at:
  assumes "0 < w" "j + w \<le> length src" "list_all IsDigit (subslice src j (j + w))" "src ! j \<noteq> ch_0 \<or> w = 1"
    "j + w = length src \<or> isJSONSpaceOrStructural (src ! (j + w))"
  shows "scalar_at src j"
proof -
  have "json_number (subslice src j (j + w))"
    using assms(1-4) by (intro digits_number) (simp_all add: digits1_def slices hd_conv_nth flip: length_greater_0_conv)
  moreover have "drop j src = subslice src j (j + w) @ drop (j + w) src" using assms by (intro drop_slice) simp_all
  ultimately show ?thesis unfolding scalar_at_stopped using assms(5) ends_stopped [OF assms(2)] by blast
qed

lemma shortNumber_scalar: "shortNumber src (length src) j \<Longrightarrow> scalar_at src j"
proof -
  assume s: "shortNumber src (length src) j"
  define w where "w = TrailingZeros32 (nonDigitMask4 (le32 src j)) div 8"
  have j: "j + 4 \<le> length src" "nonDigitMask4 (le32 src j) \<noteq> 0" "w \<noteq> 0" "src ! j \<noteq> ch_0 \<or> w = 1"
    "isJSONSpaceOrStructural (src ! (j + w))" using s by (auto simp: shortNumber_def Let_def w_def split: if_splits)
  have "w < 4" "list_all IsDigit (subslice src j (j + w))" using shortNumber_width [OF j(1,2)] by (simp_all add: w_def)
  then show ?thesis using j by (intro digits_scalar_at [of w]) simp_all
qed

lemma clear_word: "i + 8 \<le> length src \<Longrightarrow> nonDigitMask8 (le64 src i) = 0 \<Longrightarrow> k < 8 \<Longrightarrow> IsDigit (src ! (i + k))"
  using non_digit.word_miss [of i "i + 8" src] scanBytes_props(4) [where stop = "\<lambda>c. \<not> IsDigit c" and src = src and i = i and limit = "i + 8" and k = "i + k"]
    scanBytes_props(1) [where stop = "\<lambda>c. \<not> IsDigit c" and src = src and i = "i + 8" and limit = "i + 8"] by auto

lemma nineDigits_scalar: "nineDigits src (length src) j \<Longrightarrow> scalar_at src j"
proof -
  assume n: "nineDigits src (length src) j"
  then have j: "src ! j \<noteq> ch_0" "j + 8 \<le> length src" "j + 9 \<le> length src" "nonDigitMask8 (le64 src j) = 0" "IsDigit (src ! (j + 8))"
    "j + 9 = length src \<or> isJSONSpaceOrStructural (src ! (j + 9))" by (auto simp: nineDigits_def)
  have "IsDigit (src ! (j + k))" if "k < 9" for k
    using clear_word [OF j(2,4)] j(5) that by (cases "k = 8") auto
  then have "list_all IsDigit (subslice src j (j + 9))" using j(3) by (simp add: list_all_length slices)
  then show ?thesis using j by (intro digits_scalar_at [of 9]) simp_all
qed

lemma validScalarTokenAtMode_iff: "j < length src \<Longrightarrow> validScalarTokenAtMode src (length src) j mode \<longleftrightarrow> scalar_at src j"
  using shortNumber_scalar nineDigits_scalar validScalarTokenAt_iff by (auto simp: validScalarTokenAtMode_def Let_def)

subsection \<open>Words with bytes beyond ASCII\<close>

lemma utf8_prefix: "utf8 xs \<Longrightarrow> utf8 (xs @ ys) \<longleftrightarrow> utf8 ys"
  by (induction rule: utf8.induct) (simp_all add: utf8Valid_seq flip: utf8Valid_iff)

lemma utf8_seq_tail: "utf8_seq s \<Longrightarrow> 0 < i \<Longrightarrow> i < length s \<Longrightarrow> s ! i \<ge> 0x80"
proof -
  assume s: "utf8_seq s" "0 < i" "i < length s"
  have "length s \<le> 4" using s(1) leadSize_le [of "s ! 0"] by (simp add: utf8_seq_def)
  then have "i = 1 \<or> i = 2 \<or> i = 3" using s by linarith
  then show ?thesis using s by (auto simp: utf8_seq_def acceptSecond_def contByte_def word_le_nat_alt split: if_splits)
qed

text \<open>A sequence does not reach across a byte of ASCII.\<close>

lemma utf8_before_ascii: "utf8 (xs @ c # ys) \<Longrightarrow> c < 0x80 \<Longrightarrow> utf8 xs"
proof (induction "length xs" arbitrary: xs rule: less_induct)
  case less
  show ?case
  proof (cases "xs = []")
    case False
    from less.prems(1) obtain s r where s: "xs @ c # ys = s @ r" "utf8_seq s" "utf8 r" by (cases "xs @ c # ys" rule: utf8.cases) simp_all
    have "length s \<le> length xs"
    proof (rule ccontr)
      assume l: "\<not> length s \<le> length xs"
      then have "s ! length xs = c" using arg_cong [OF s(1), of "\<lambda>x. x ! length xs"] by (simp add: nth_append)
      then have "c \<ge> 0x80" using utf8_seq_tail [OF s(2), of "length xs"] l False by simp
      then show False using less.prems(2) by (simp add: linorder_not_less [symmetric])
    qed
    then have t: "take (length s) xs = s" "r = drop (length s) xs @ c # ys"
      using arg_cong [OF s(1), of "take (length s)"] arg_cong [OF s(1), of "drop (length s)"] by simp_all
    have z: "xs = s @ drop (length s) xs" using append_take_drop_id [of "length s" xs] unfolding t(1) by (rule sym)
    have "length (drop (length s) xs) < length xs" using conjunct1 [OF s(2) [unfolded utf8_seq_def]] False by simp
    then have "utf8 (drop (length s) xs)" by (rule less.hyps [OF _ _ less.prems(2)]) (use t(2) s(3) in simp)
    then show ?thesis by (subst z) (rule utf8_cons [OF s(2)])
  qed (simp add: utf8_nil)
qed

lemma utf8_ascii: "list_all (\<lambda>c. c < 0x80) xs \<Longrightarrow> utf8 xs"
  using utf8_ascii_append [of xs "[]"] by (simp add: utf8_nil)

subsection \<open>The mask of blocks beyond ASCII\<close>

lemma high_word: "i + 8 \<le> length p \<Longrightarrow> le64 p i AND highBits \<noteq> 0 \<longleftrightarrow> (\<exists>k<8. p ! (i + k) \<ge> 0x80)"
proof -
  assume l: "i + 8 \<le> length p"
  have lane: "lane k (le64 p i AND highBits) = (if p ! (i + k) \<ge> 0x80 then 0x80 else 0)" if "k < 8" for k
    using lane_highBits [OF that, of "le64 p i"] lane_le64 [OF l that] by simp
  show ?thesis
  proof
    assume "le64 p i AND highBits \<noteq> 0"
    then obtain k where "k < 8" "lane k (le64 p i AND highBits) \<noteq> 0" using lane_eq_imp by blast
    then show "\<exists>k<8. p ! (i + k) \<ge> 0x80" using lane by (metis (full_types))
  next
    assume "\<exists>k<8. p ! (i + k) \<ge> 0x80"
    then obtain k where k: "k < 8" "p ! (i + k) \<ge> 0x80" by blast
    then have "lane k (le64 p i AND highBits) \<noteq> 0" using lane by simp
    moreover have "lane k 0 = 0" by (simp add: lane_def)
    ultimately show "le64 p i AND highBits \<noteq> 0" by metis
  qed
qed

lemma high_block_words:
  assumes "64 * b + 64 \<le> length p"
  shows "(le64 p (b * 64) OR le64 p (b * 64 + 8) OR le64 p (b * 64 + 16) OR le64 p (b * 64 + 24) OR
      le64 p (b * 64 + 32) OR le64 p (b * 64 + 40) OR le64 p (b * 64 + 48) OR le64 p (b * 64 + 56)) AND highBits \<noteq> 0
    \<longleftrightarrow> high_block p b"
proof -
  have w: "le64 p (b * 64 + 8 * m) AND highBits = 0 \<longleftrightarrow> (\<forall>k<8. \<not> p ! (64 * b + (8 * m + k)) \<ge> 0x80)" if "m < 8" for m
    using high_word [of "b * 64 + 8 * m" p] assms that by (auto simp: algebra_simps)
  have "high_block p b \<longleftrightarrow> (\<exists>m<8. \<exists>k<8. p ! (64 * b + (8 * m + k)) \<ge> 0x80)"
  proof
    assume "high_block p b"
    then obtain j where j: "j < 64" "p ! (64 * b + j) \<ge> 0x80" by (auto simp: high_block_def)
    have "j = 8 * (j div 8) + j mod 8" "j div 8 < 8" "j mod 8 < 8" using j(1) by simp_all
    then show "\<exists>m<8. \<exists>k<8. p ! (64 * b + (8 * m + k)) \<ge> 0x80" using j(2) by metis
  next
    assume "\<exists>m<8. \<exists>k<8. p ! (64 * b + (8 * m + k)) \<ge> 0x80"
    then obtain m k where "m < 8" "k < 8" "p ! (64 * b + (8 * m + k)) \<ge> 0x80" by blast
    then show "high_block p b" unfolding high_block_def by (intro exI [of _ "8 * m + k"]) simp
  qed
  also have "\<dots> \<longleftrightarrow> (\<exists>m<8. le64 p (b * 64 + 8 * m) AND highBits \<noteq> 0)" using w by blast
  also have "\<dots> \<longleftrightarrow> (\<exists>m\<in>set [0..<8]. le64 p (b * 64 + 8 * m) AND highBits \<noteq> 0)" by auto
  finally show ?thesis by (simp add: upt_rec or_eq_0_iff bit.conj_disj_distrib2)
qed

lemma sparseNonASCIIMask_bits:
  assumes "n \<le> 32" "64 * n \<le> length p"
  shows "bit (sparseNonASCIIMask p n) i \<longleftrightarrow> i < n \<and> high_block p i"
  using assms
proof (induction n)
  case 0
  then show ?case by (simp add: sparseNonASCIIMask_def)
next
  case (Suc n)
  have one: "bit (push_bit n 1 :: 32 word) i \<longleftrightarrow> i = n"
    using Suc.prems(1) unfolding bit_push_bit_iff by (auto simp: bit_1_iff)
  have "64 * n + 64 \<le> length p" using Suc.prems(2) by simp
  note h = high_block_words [OF this]
  have "sparseNonASCIIMask p (Suc n) = (if high_block p n then sparseNonASCIIMask p n OR push_bit n 1 else sparseNonASCIIMask p n)"
    unfolding h [symmetric] by (simp add: sparseNonASCIIMask_def Let_def)
  then show ?case using Suc one by (auto simp: bit_or_iff less_Suc_eq simp del: push_bit_of_1)
qed

lemma drop_bit_ones: "n \<le> 32 \<Longrightarrow> bit (drop_bit (32 - n) (NOT 0 :: 32 word)) i \<longleftrightarrow> i < n"
  by (auto simp: bit_mask_iff)

end
