(* ===== verification/BitmapCorrect.thy ===== *)
theory BitmapCorrect
  imports BitmapChecks
begin

text \<open>
  The bitmap validator accepts exactly the documents. \<open>S\<close> is the text padded to whole blocks with spaces, which add no
  event; at every block boundary the engine holds the state of the byte-wise scan of \<open>S\<close>, and each check it makes is a
  part of what \<open>Lexing\<close> asks of the whole text.
\<close>

subsection \<open>Results of the engine\<close>

text \<open>The engine does not panic, rejects only what is not \<open>good\<close>, and goes on in a state with \<open>Q\<close>.\<close>

definition keeps :: "bool \<Rightarrow> 'a flow \<Rightarrow> ('a \<Rightarrow> bool) \<Rightarrow> bool" where
  "keeps good r Q \<longleftrightarrow> (case r of Panic \<Rightarrow> False | Reject \<Rightarrow> \<not> good | Go a \<Rightarrow> Q a)"

lemma keeps_simps [simp]: "\<not> keeps good Panic Q" "keeps good Reject Q \<longleftrightarrow> \<not> good" "keeps good (Go a) Q \<longleftrightarrow> Q a"
  by (simp_all add: keeps_def)

lemma keeps_bind: "keeps good r P \<Longrightarrow> (\<And>a. P a \<Longrightarrow> keeps good (f a) Q) \<Longrightarrow> keeps good (flow_bind r f) Q"
  by (cases r) simp_all

lemma keeps_mono: "keeps good r P \<Longrightarrow> (\<And>a. P a \<Longrightarrow> Q a) \<Longrightarrow> keeps good r Q"
  by (cases r) simp_all

lemma keeps_accepts: "keeps good r (\<lambda>_. good) \<Longrightarrow> accepts r = Some good"
  by (cases r) (simp_all add: accepts_def)

subsection \<open>Stage 1 on a run of blocks\<close>

abbreviation (input) at_byte :: "bytes \<Rightarrow> nat \<Rightarrow> scan" where "at_byte S k \<equiv> state_at (outside False) S k"
abbreviation (input) spots :: "(scan \<Rightarrow> byte \<Rightarrow> bool) \<Rightarrow> bytes \<Rightarrow> nat \<Rightarrow> nat \<Rightarrow> nat list" where
  "spots P S a b \<equiv> filter (found P (outside False) S) [a..<b]"

text \<open>\<open>p\<close> holds the \<open>n\<close> blocks of \<open>S\<close> from block \<open>b\<close> on.\<close>

definition window :: "bytes \<Rightarrow> nat \<Rightarrow> nat \<Rightarrow> bytes \<Rightarrow> bool" where
  "window S b n p \<longleftrightarrow> 64 * n \<le> length p \<and> (\<forall>k<64 * n. p ! k = S ! (64 * b + k))"

lemma window_state: "window S b n p \<Longrightarrow> k \<le> 64 * n \<Longrightarrow> state_at (at_byte S (64 * b)) p k = at_byte S (64 * b + k)"
  by (induction k) (simp_all add: window_def)

lemma window_found: "window S b n p \<Longrightarrow> k < 64 * n \<Longrightarrow> found P (at_byte S (64 * b)) p k = found P (outside False) S (64 * b + k)"
  by (simp add: found_def window_state) (simp add: window_def)

lemma window_high: "window S b n p \<Longrightarrow> i < n \<Longrightarrow> high_block p i \<longleftrightarrow> high_block S (b + i)"
proof -
  assume w: "window S b n p" "i < n"
  have "p ! (64 * i + k) = S ! (64 * (b + i) + k)" if "k < 64" for k
    using w that by (simp add: window_def algebra_simps)
  then show ?thesis unfolding high_block_def by auto
qed

lemma window_mask: "window S b n p \<Longrightarrow> i < n \<Longrightarrow> block_mask P (at_byte S (64 * b)) p i = block_mask P (outside False) S (b + i)"
proof -
  assume w: "window S b n p" "i < n"
  have "found P (at_byte S (64 * b)) p (64 * i + k) = found P (outside False) S (64 * (b + i) + k)" if "k < 64" for k
    using window_found [OF w(1), of "64 * i + k" P] w(2) that by (simp add: algebra_simps)
  then show ?thesis unfolding block_mask_def by (intro mask_of_cong) simp
qed

lemma shift_filter: "map ((+) a) (filter (\<lambda>k. P (a + k)) [0..<n]) = filter P [a..<a + n]"
proof -
  have "[a..<a + n] = map ((+) a) [0..<n]" by (rule nth_equalityI) simp_all
  then show ?thesis by (simp add: filter_map comp_def)
qed

lemma window_any:
  assumes "window S b n p"
  shows "any_in (found P (at_byte S (64 * b)) p) 0 (64 * n) \<longleftrightarrow> any_in (found P (outside False) S) (64 * b) (64 * (b + n))"
proof
  assume "any_in (found P (at_byte S (64 * b)) p) 0 (64 * n)"
  then obtain k where "k < 64 * n" "found P (outside False) S (64 * b + k)" using window_found [OF assms] by (auto simp: any_in_def)
  then show "any_in (found P (outside False) S) (64 * b) (64 * (b + n))" unfolding any_in_def by (intro exI [of _ "64 * b + k"]) simp
next
  assume "any_in (found P (outside False) S) (64 * b) (64 * (b + n))"
  then obtain k where k: "64 * b \<le> k" "k < 64 * (b + n)" "found P (outside False) S k" by (auto simp: any_in_def)
  then have "k - 64 * b < 64 * n" "found P (at_byte S (64 * b)) p (k - 64 * b)" using window_found [OF assms, of "k - 64 * b"] by simp_all
  then show "any_in (found P (at_byte S (64 * b)) p) 0 (64 * n)" unfolding any_in_def by blast
qed

text \<open>The stream at a block boundary, and what the notes of a run of blocks say.\<close>

definition streamed :: "bytes \<Rightarrow> nat \<Rightarrow> Stage1IndexStream \<Rightarrow> bool" where
  "streamed S b st \<longleftrightarrow> (\<exists>na esc. st = index_stream (at_byte S (64 * b)) (any_in (found stray_control (outside False) S) 0 (64 * b)) na esc)"

definition noted :: "bytes \<Rightarrow> nat \<Rightarrow> nat \<Rightarrow> Stage1ValidMeta \<Rightarrow> bool" where
  "noted S b n vm \<longleftrightarrow> length (ValidEscInStr vm) = 32 \<and>
     (\<forall>i<n. ValidEscInStr vm ! i = block_mask escape_target (outside False) S (b + i) \<and> (bit (ValidNonASCII vm) i \<longleftrightarrow> high_block S (b + i)))"

lemma stage1_window:
  assumes "window S b n p" "0 < n" "n \<le> 32" "n * 64 + 64 \<le> room" "streamed S b st" "length (ValidEscInStr vm) = 32" "64 * (b + n) \<le> 2 ^ 32"
  shows "\<exists>r. stage1IndexBlocksPortable p n (of_nat (b * 64)) st room IndexValid (Some vm) None = Some r \<and>
    streamed S (b + n) (stream r) \<and> map unat (written r) = spots grammar_event S (64 * b) (64 * (b + n)) \<and>
    (\<exists>m. validMeta r = Some m \<and> noted S b n m \<and> (ValidNonASCII m = 0 \<longleftrightarrow> (\<forall>i<n. \<not> high_block S (b + i))))"
proof -
  obtain na esc where st: "st = index_stream (at_byte S (64 * b)) (any_in (found stray_control (outside False) S) 0 (64 * b)) na esc"
    using assms(5) by (auto simp: streamed_def)
  have c: "\<not> (n = 0 \<or> n > Stage1ChunkBlocks)" "\<not> room < n * 64 + 64" "\<not> (IndexValid = IndexValid \<and> Some vm = None)"
    using assms by (auto simp: Stage1ChunkBlocks_def)
  have len: "64 * (0 + n) \<le> length p" using assms(1) by (simp add: window_def)
  define z where "z = at_byte S (64 * b)"
  define m where "m = noteAllValid z p [0..<n] (vm\<lparr>ValidNonASCII := 0\<rparr>)"
  define r0 where "r0 = \<lparr>stream = st, validMeta = map_option (\<lambda>m. m\<lparr>ValidNonASCII := 0\<rparr>) (Some vm), indexMeta = map_option clearedIndexMeta None, written = []\<rparr>"
  have r0: "stream r0 = index_stream (state_at z p (64 * 0)) (any_in (found stray_control (outside False) S) 0 (64 * b)) na esc"
    by (simp add: r0_def st z_def)
  have run: "stage1IndexBlocksPortable p n (of_nat (b * 64)) st room IndexValid (Some vm) None = Some (indexLoop n p (of_nat (b * 64)) IndexValid 0 r0)"
    unfolding stage1IndexBlocksPortable_def if_not_P [OF c(1)] if_not_P [OF c(2)] if_not_P [OF c(3)] r0_def ..
  note loop = indexLoop_scan [OF r0 len, of "of_nat (b * 64)" IndexValid]
  have "state_at z p (64 * n) = at_byte S (64 * (b + n))" using window_state [OF assms(1), of "64 * n"] by (simp add: z_def algebra_simps)
  moreover have "any_in (found stray_control (outside False) S) 0 (64 * b) \<or> any_in (found stray_control z p) 0 (64 * n)
      \<longleftrightarrow> any_in (found stray_control (outside False) S) 0 (64 * (b + n))"
    unfolding z_def window_any [OF assms(1)] using any_in_join [of 0 "64 * b" "64 * (b + n)" "found stray_control (outside False) S"] by simp
  ultimately have s: "streamed S (b + n) (stream (indexLoop n p (of_nat (b * 64)) IndexValid 0 r0))"
    unfolding loop streamed_def by (intro exI) simp
  have "map unat (written (indexLoop n p (of_nat (b * 64)) IndexValid 0 r0))
      = map (\<lambda>k. unat (of_nat (b * 64) + of_nat k :: 32 word)) (filter (found (selected IndexValid) z p) [0..<64 * n])"
    unfolding loop by (simp add: r0_def)
  also have "\<dots> = map ((+) (64 * b)) (filter (\<lambda>k. found grammar_event (outside False) S (64 * b + k)) [0..<64 * n])"
  proof (rule map_cong)
    show "filter (found (selected IndexValid) z p) [0..<64 * n] = filter (\<lambda>k. found grammar_event (outside False) S (64 * b + k)) [0..<64 * n]"
      using window_found [OF assms(1), of _ grammar_event] by (intro filter_cong refl) (simp add: z_def found_def selected_def)
    fix k assume "k \<in> set (filter (\<lambda>k. found grammar_event (outside False) S (64 * b + k)) [0..<64 * n])"
    then have "64 * b + k < 2 ^ 32" using assms(7) by simp
    moreover have "of_nat (b * 64) + of_nat k = (of_nat (64 * b + k) :: 32 word)" by (simp add: mult.commute)
    ultimately show "unat (of_nat (b * 64) + of_nat k :: 32 word) = 64 * b + k"
      by (simp only: unat_of_nat take_bit_nat_eq_self len_bit0 len_num1) (simp add: take_bit_nat_eq_self)
  qed
  also have "\<dots> = spots grammar_event S (64 * b) (64 * (b + n))" unfolding shift_filter by (simp add: algebra_simps)
  finally have w: "map unat (written (indexLoop n p (of_nat (b * 64)) IndexValid 0 r0)) = spots grammar_event S (64 * b) (64 * (b + n))" .
  note get = noteAllValid_get [where vm = "vm\<lparr>ValidNonASCII := 0\<rparr>" and n = n and st = z and p = p, folded m_def]
  have "noted S b n m" unfolding noted_def
    using get assms(3,6) window_mask [OF assms(1), of _ escape_target, folded z_def] window_high [OF assms(1)] by simp
  moreover have "ValidNonASCII m = 0 \<longleftrightarrow> (\<forall>i<n. \<not> high_block S (b + i))"
    using get(3) assms(3,6) window_high [OF assms(1)] by (auto simp: bit_eq_iff)
  moreover have "validMeta (indexLoop n p (of_nat (b * 64)) IndexValid 0 r0) = Some m" unfolding loop by (simp add: r0_def m_def)
  ultimately show ?thesis using run s w by blast
qed

lemma classify_keeps:
  assumes w: "window S b n p" and n: "0 < n" "n \<le> 32" and "n * 64 + 64 \<le> room" "streamed S b (indexStream en)"
    "length (ValidEscInStr (meta en)) = 32" "64 * (b + n) \<le> 2 ^ 32" and one: "sparse \<or> n = 1"
  shows "keeps good (classify p n b room coarse sparse en) (\<lambda>(ps, en'). \<exists>st vm. en' = en\<lparr>indexStream := st, meta := vm\<rparr> \<and>
    streamed S (b + n) st \<and> noted S b n vm \<and> map unat ps = spots grammar_event S (64 * b) (64 * (b + n)))"
proof -
  obtain r m where r: "stage1IndexBlocksPortable p n (of_nat (b * 64)) (indexStream en) room IndexValid (Some (meta en)) None = Some r"
    "streamed S (b + n) (stream r)" "map unat (written r) = spots grammar_event S (64 * b) (64 * (b + n))"
    "validMeta r = Some m" "noted S b n m" "ValidNonASCII m = 0 \<longleftrightarrow> (\<forall>i<n. \<not> high_block S (b + i))"
    using stage1_window [OF assms(1-7)] by blast
  show ?thesis
  proof (cases "coarse \<and> ValidNonASCII m \<noteq> 0")
    case True
    define ones :: "32 word" where "ones = drop_bit (Stage1ChunkBlocks - n) (NOT 0)"
    have ones: "bit ones i \<longleftrightarrow> i < n" for i using drop_bit_ones [OF n(2)] by (simp add: ones_def Stage1ChunkBlocks_def)
    then have "ones \<noteq> 0" using n(1) by (metis bit_0_eq bot_apply bot_bool_def)
    then have c: "classify p n b room coarse sparse en = Go (written r, en\<lparr>indexStream := stream r,
        meta := m\<lparr>ValidNonASCII := (if sparse then sparseNonASCIIMask p n else ones)\<rparr>\<rparr>)"
      using True \<open>ones \<noteq> 0\<close> unfolding classify_def Stage1ValidBlocksCoarse_def r(1) Let_def option.map r(4) option.sel ones_def [symmetric]
      by simp
    have "bit (if sparse then sparseNonASCIIMask p n else ones) i \<longleftrightarrow> high_block S (b + i)" if "i < n" for i
      using that one ones r(6) True w sparseNonASCIIMask_bits [OF n(2), of p i] window_high [OF w that] by (auto simp: window_def)
    then have "noted S b n (m\<lparr>ValidNonASCII := (if sparse then sparseNonASCIIMask p n else ones)\<rparr>)"
      using r(5) by (simp add: noted_def)
    then show ?thesis using r(2,3) unfolding c keeps_simps prod.case by blast
  next
    case False
    then have c: "classify p n b room coarse sparse en = Go (written r, en\<lparr>indexStream := stream r, meta := m\<rparr>)"
      using r(1,4) by (auto simp: classify_def Stage1ValidBlocksCoarse_def Stage1ValidBlocks_def Let_def)
    then show ?thesis using r(2,3,5) unfolding c keeps_simps prod.case by blast
  qed
qed

subsection \<open>Escapes and UTF-8 of a block\<close>

text \<open>The pending run of blocks beyond ASCII, when the first \<open>c\<close> blocks have been looked at.\<close>

definition utf8_run :: "bytes \<Rightarrow> nat \<Rightarrow> int \<Rightarrow> int \<Rightarrow> bool" where
  "utf8_run src c s e \<longleftrightarrow>
     (if s < 0 then \<forall>k<64 * c. k < length src \<longrightarrow> src ! k < 0x80
      else \<exists>a b. s = int a \<and> e = int b \<and> a < b \<and> b \<le> c \<and> 64 * a < length src \<and> utf8 (take (64 * a) src) \<and>
        (\<forall>k<64 * c. 64 * b \<le> k \<longrightarrow> k < length src \<longrightarrow> src ! k < 0x80))"

lemma ascii_part: "(\<And>k. a \<le> k \<Longrightarrow> k < b \<Longrightarrow> k < length src \<Longrightarrow> src ! k < 0x80) \<Longrightarrow> list_all (\<lambda>c. c < (0x80 :: byte)) (subslice src a b)"
  by (auto simp: list_all_length subslice_def)

text \<open>The pending run is valid when the whole text is, as soon as a block of ASCII follows; and then the text is valid up to here.\<close>

lemma slice_checked:
  assumes "utf8 (take a src)" "a \<le> b" "b \<le> c" "\<And>k. b \<le> k \<Longrightarrow> k < c \<Longrightarrow> k < length src \<Longrightarrow> src ! k < 0x80"
  shows "utf8 (subslice src a b) \<Longrightarrow> utf8 (take c src)"
    "utf8 src \<Longrightarrow> b < c \<Longrightarrow> b < length src \<Longrightarrow> utf8 (subslice src a b)"
proof -
  have t: "take c src = take a src @ subslice src a b @ subslice src b c"
    using assms(2,3) slice_append_slice [of 0 a b src] slice_append_slice [of 0 b c src] by (simp add: subslice_def [of src 0] flip: append_assoc)
  have g: "list_all (\<lambda>c. c < 0x80) (subslice src b c)" by (rule ascii_part) (rule assms(4))
  { assume "utf8 (subslice src a b)"
    then show "utf8 (take c src)" unfolding t using assms(1) utf8_ascii [OF g] by (intro utf8_append) }
  assume u: "utf8 src" and b: "b < c" "b < length src"
  have "src = take a src @ subslice src a b @ src ! b # drop (Suc b) src"
    using drop_slice [OF assms(2), of src] b(2) by (metis Cons_nth_drop_Suc append_take_drop_id)
  then have "utf8 (subslice src a b @ src ! b # drop (Suc b) src)" using u utf8_prefix [OF assms(1)] by metis
  then show "utf8 (subslice src a b)" by (rule utf8_before_ascii) (use assms(4) b in simp)
qed

definition side :: "bytes \<Rightarrow> bytes \<Rightarrow> nat \<Rightarrow> engine \<Rightarrow> bool" where
  "side src S c en \<longleftrightarrow> utf8_run src c (utf8RunStart en) (utf8RunEnd en) \<and>
     escRun (escape_check src) (- 1) (spots escape_target S 0 (64 * c)) = Some (skipTarget en)"

lemma utf8_run_ascii:
  "utf8_run src c s e \<Longrightarrow> (\<And>k. 64 * c \<le> k \<Longrightarrow> k < 64 * (c + 1) \<Longrightarrow> k < length src \<Longrightarrow> src ! k < 0x80) \<Longrightarrow> utf8_run src (c + 1) s e"
proof -
  assume r: "utf8_run src c s e" and a: "\<And>k. 64 * c \<le> k \<Longrightarrow> k < 64 * (c + 1) \<Longrightarrow> k < length src \<Longrightarrow> src ! k < 0x80"
  show ?thesis
  proof (cases "s < 0")
    case True
    then show ?thesis using r a unfolding utf8_run_def by (metis linorder_not_less)
  next
    case False
    then obtain x b where x: "s = int x" "e = int b" "x < b" "b \<le> c" "64 * x < length src" "utf8 (take (64 * x) src)"
      "\<And>k. k < 64 * c \<Longrightarrow> 64 * b \<le> k \<Longrightarrow> k < length src \<Longrightarrow> src ! k < 0x80" using r by (auto simp: utf8_run_def)
    have "src ! k < 0x80" if "k < 64 * (c + 1)" "64 * b \<le> k" "k < length src" for k
      using x(7) [of k] a [of k] that by (cases "k < 64 * c") simp_all
    then show ?thesis unfolding utf8_run_def if_not_P [OF False] using x(1-6) by (intro exI [of _ x] exI [of _ b]) simp
  qed
qed

lemma utf8_run_start:
  "utf8 (take (64 * c) src) \<Longrightarrow> 64 * c < length src \<Longrightarrow> utf8_run src (c + 1) (int c) (int c + 1)"
  unfolding utf8_run_def by (simp, intro exI [of _ c] exI [of _ "c + 1"]) simp

lemma utf8Block_keeps:
  assumes run: "utf8_run src c (utf8RunStart en) (utf8RunEnd en)" and c: "64 * c < length src" and good: "good \<Longrightarrow> utf8 src"
  shows "keeps good (utf8Block src c en) (\<lambda>en'. \<exists>s e. en' = en\<lparr>utf8RunStart := s, utf8RunEnd := e\<rparr> \<and> utf8_run src (c + 1) s e)"
proof (cases "utf8RunStart en < 0")
  case True
  then have "utf8 (take (64 * c) src)"
    using run by (intro utf8_ascii) (auto simp: utf8_run_def list_all_length)
  from utf8_run_start [OF this c] show ?thesis using True by (auto simp: utf8Block_def)
next
  case False
  then obtain a b where ab: "utf8RunStart en = int a" "utf8RunEnd en = int b" "a < b" "b \<le> c" "64 * a < length src" "utf8 (take (64 * a) src)"
    "\<And>k. k < 64 * c \<Longrightarrow> 64 * b \<le> k \<Longrightarrow> k < length src \<Longrightarrow> src ! k < 0x80" using run by (auto simp: utf8_run_def)
  show ?thesis
  proof (cases "int c - int b > int validUTF8CoalesceBlocks")
    case long: True
    then have lt: "64 * b < 64 * c" "64 * b < length src" using c by (simp_all add: validUTF8CoalesceBlocks_def)
    have le: "64 * a \<le> 64 * b" "64 * b \<le> 64 * c" using ab by simp_all
    note checked = slice_checked [OF ab(6) le ab(7)]
    have e: "nat (int a) * 64 = 64 * a" "nat (int b) * 64 = 64 * b" by simp_all
    show ?thesis
    proof (cases "utf8 (subslice src (64 * a) (64 * b))")
      case True
      have "utf8 (take (64 * c) src)" by (rule checked(1) [OF _ _ _ True])
      from utf8_run_start [OF this c] show ?thesis
        using True long unfolding utf8Block_def ab(1,2) e by (auto simp: validUTF8Fast_def utf8Valid_iff ab)
    next
      case bad: False
      have "\<not> good" using checked(2) good lt bad by blast
      then show ?thesis using bad long unfolding utf8Block_def ab(1,2) e by (simp add: validUTF8Fast_def utf8Valid_iff ab)
    qed
  next
    case short: False
    have "utf8_run src (c + 1) (int a) (int c + 1)"
      unfolding utf8_run_def using ab by (simp, intro exI [of _ "c + 1"]) simp
    moreover have "utf8Block src c en = Go (en\<lparr>utf8RunStart := int a, utf8RunEnd := int c + 1\<rparr>)"
      using short ab(1,2) by (cases en) (simp add: utf8Block_def)
    ultimately show ?thesis by auto
  qed
qed

text \<open>The text padded to whole blocks.\<close>

definition padded :: "bytes \<Rightarrow> bytes \<Rightarrow> bool" where
  "padded src S \<longleftrightarrow> (\<exists>pad < 64. S = src @ replicate pad ch_space) \<and> 64 dvd length S"

lemma padded_nth: "padded src S \<Longrightarrow> k < length src \<Longrightarrow> S ! k = src ! k"
  by (auto simp: padded_def nth_append)

text \<open>The fields that only the grammar and stage 1 touch.\<close>

definition same_core :: "engine \<Rightarrow> engine \<Rightarrow> bool" where
  "same_core en en' \<longleftrightarrow> indexStream en' = indexStream en \<and> grammar en' = grammar en \<and> kindSlab en' = kindSlab en \<and> meta en' = meta en"

lemma block_targets: "map ((+) (c * 64)) (filter (bit (block_mask P (outside False) S c)) [0..<64]) = spots P S (64 * c) (64 * (c + 1))"
proof -
  have "filter (bit (block_mask P (outside False) S c)) [0..<64] = filter (\<lambda>k. found P (outside False) S (64 * c + k)) [0..<64]"
    by (rule filter_cong) (simp_all add: block_mask_def bit_mask_of)
  then show ?thesis using shift_filter [of "64 * c" "found P (outside False) S" 64] by (simp add: mult.commute add.commute)
qed

lemma spots_append: "a \<le> b \<Longrightarrow> b \<le> c \<Longrightarrow> spots P S a c = spots P S a b @ spots P S b c"
  using upt_add_eq_append [of a b "c - b"] by simp

lemma escapeBlock_keeps:
  assumes run: "escRun (escape_check src) (- 1) (spots escape_target S 0 (64 * c)) = Some (skipTarget en)" and len: "64 * (c + 1) \<le> length S"
    and good: "good \<Longrightarrow> escRun (escape_check src) (- 1) (spots escape_target S 0 (length S)) \<noteq> None"
  shows "keeps good (escapeBlock src c (block_mask escape_target (outside False) S c) en) (\<lambda>en'. \<exists>t. en' = en\<lparr>skipTarget := t\<rparr> \<and>
    escRun (escape_check src) (- 1) (spots escape_target S 0 (64 * (c + 1))) = Some t)"
proof -
  define m where "m = block_mask escape_target (outside False) S c"
  define rest where "rest = escRun (escape_check src) (skipTarget en) (spots escape_target S (64 * c) (64 * (c + 1)))"
  have next_run: "escRun (escape_check src) (- 1) (spots escape_target S 0 (64 * (c + 1))) = rest"
    using spots_append [of 0 "64 * c" "64 * (c + 1)" escape_target S] run by (simp add: escRun_append rest_def)
  have block: "case rest of None \<Rightarrow> fst (validBitmapEscapes src (length src) (c * 64) m (skipTarget en))
      | Some t \<Rightarrow> validBitmapEscapes src (length src) (c * 64) m (skipTarget en) = (False, t)"
    using validBitmapEscapes_run [where src = src and skip = "skipTarget en" and pos = "c * 64" and e = m] unfolding m_def block_targets rest_def .
  show ?thesis
  proof (cases "m = 0")
    case True
    then have "rest = Some (skipTarget en)" using block_targets [of c escape_target S] by (simp add: rest_def m_def [symmetric])
    then show ?thesis using True next_run unfolding escapeBlock_def m_def by (auto intro: exI [of _ "skipTarget en"])
  next
    case m: False
    show ?thesis
    proof (cases rest)
      case None
      then have "\<not> good" using good next_run spots_append [of 0 "64 * (c + 1)" "length S" escape_target S] len by (auto simp: escRun_append)
      then show ?thesis using m block None unfolding escapeBlock_def m_def by (auto split: prod.splits)
    next
      case (Some t)
      then show ?thesis using m block next_run unfolding escapeBlock_def m_def by auto
    qed
  qed
qed

text \<open>What the text must satisfy to be good.\<close>

definition demands :: "bytes \<Rightarrow> bytes \<Rightarrow> bool \<Rightarrow> bool" where
  "demands src S good \<longleftrightarrow> (good \<longrightarrow> utf8 src \<and> escRun (escape_check src) (- 1) (spots escape_target S 0 (length S)) \<noteq> None \<and>
     scalars_ok src (spots grammar_event S 0 (length S)) \<and> asteps (toks_at src (spots grammar_event S 0 (length S))) (AtStart, []) \<noteq> None)"

lemma padded_block: "padded src S \<Longrightarrow> 64 * c < length src \<Longrightarrow> 64 * (c + 1) \<le> length S"
proof -
  assume p: "padded src S" "64 * c < length src"
  then obtain n where "length S = 64 * n" "64 * c < length S" by (auto simp: padded_def)
  then show ?thesis by simp
qed

lemma checkBlock_keeps:
  assumes p: "padded src S" and d: "demands src S good" and nt: "noted S b n (meta en)" "i < n" and c: "64 * (b + i) < length src"
    and sd: "side src S (b + i) en"
  shows "keeps good (checkBlock src b i en) (\<lambda>en'. side src S (b + i + 1) en' \<and> same_core en en')"
proof -
  define c where "c = b + i"
  have nt': "ValidEscInStr (meta en) ! i = block_mask escape_target (outside False) S c" "bit (ValidNonASCII (meta en)) i \<longleftrightarrow> high_block S c"
    using nt by (simp_all add: noted_def c_def)
  have c': "64 * c < length src" and sd': "utf8_run src c (utf8RunStart en) (utf8RunEnd en)"
    "escRun (escape_check src) (- 1) (spots escape_target S 0 (64 * c)) = Some (skipTarget en)"
    using c sd by (simp_all add: c_def side_def)
  have "keeps good (if high_block S c then utf8Block src c en else Go en)
      (\<lambda>en'. \<exists>s e. en' = en\<lparr>utf8RunStart := s, utf8RunEnd := e\<rparr> \<and> utf8_run src (c + 1) s e)"
  proof (cases "high_block S c")
    case True
    then show ?thesis using utf8Block_keeps [OF sd'(1) c', of good] d by (simp add: demands_def)
  next
    case False
    have "src ! k < 0x80" if "64 * c \<le> k" "k < 64 * (c + 1)" "k < length src" for k
    proof -
      have "\<not> S ! (64 * c + (k - 64 * c)) \<ge> 0x80" using False that(1,2) less_diff_conv2 [OF that(1), of 64] unfolding high_block_def by auto
      then show ?thesis using padded_nth [OF p that(3)] that(1) by simp
    qed
    then have "utf8_run src (c + 1) (utf8RunStart en) (utf8RunEnd en)" by (rule utf8_run_ascii [OF sd'(1)])
    moreover have "en = en\<lparr>utf8RunStart := utf8RunStart en, utf8RunEnd := utf8RunEnd en\<rparr>" by simp
    ultimately show ?thesis using False unfolding if_not_P [OF False] keeps_simps by blast
  qed
  then show ?thesis unfolding checkBlock_def nt' c_def [symmetric]
  proof (rule keeps_bind, elim exE conjE)
    fix en1 s e assume en1: "en1 = en\<lparr>utf8RunStart := s, utf8RunEnd := e\<rparr>" "utf8_run src (c + 1) s e"
    have "skipTarget en1 = skipTarget en" by (simp add: en1)
    then have "keeps good (escapeBlock src c (block_mask escape_target (outside False) S c) en1) (\<lambda>en'. \<exists>t. en' = en1\<lparr>skipTarget := t\<rparr> \<and>
        escRun (escape_check src) (- 1) (spots escape_target S 0 (64 * (c + 1))) = Some t)"
      using sd'(2) d padded_block [OF p c'] by (intro escapeBlock_keeps) (simp_all add: demands_def)
    then show "keeps good (escapeBlock src c (block_mask escape_target (outside False) S c) en1) (\<lambda>en'. side src S (c + 1) en' \<and> same_core en en')"
      by (rule keeps_mono) (auto simp: side_def same_core_def en1(1) en1(2) [simplified])
  qed
qed

lemma checkBlocks_keeps:
  assumes p: "padded src S" and d: "demands src S good"
  shows "i + m = n \<Longrightarrow> noted S b n (meta en) \<Longrightarrow> 64 * (b + n) \<le> length src \<Longrightarrow> side src S (b + i) en \<Longrightarrow>
    keeps good (checkBlocks src b [i..<n] en) (\<lambda>en'. side src S (b + n) en' \<and> same_core en en')"
proof (induction m arbitrary: i en)
  case 0
  then show ?case by (simp add: same_core_def)
next
  case (Suc m)
  have up: "[i..<n] = i # [i + 1..<n]" using Suc.prems(1) by (simp add: upt_conv_Cons)
  have i: "i < n" "64 * (b + i) < length src" using Suc.prems by simp_all
  show ?case unfolding up checkBlocks.simps
  proof (rule keeps_bind [OF checkBlock_keeps [OF p d Suc.prems(2) i Suc.prems(4)]])
    fix en1 assume a: "side src S (b + i + 1) en1 \<and> same_core en en1"
    have "keeps good (checkBlocks src b [i + 1..<n] en1) (\<lambda>en'. side src S (b + n) en' \<and> same_core en1 en')"
      by (rule Suc.IH) (use Suc.prems a in \<open>simp_all add: same_core_def\<close>)
    then show "keeps good (checkBlocks src b [i + 1..<n] en1) (\<lambda>en'. side src S (b + n) en' \<and> same_core en en')"
      by (rule keeps_mono) (use a in \<open>simp add: same_core_def\<close>)
  qed
qed

subsection \<open>Chunks, batches and the tail\<close>

text \<open>The engine at a block boundary, and with the grammar fed up to block \<open>g\<close>.\<close>

definition reads :: "bytes \<Rightarrow> bytes \<Rightarrow> nat \<Rightarrow> engine \<Rightarrow> bool" where
  "reads src S b en \<longleftrightarrow> streamed S b (indexStream en) \<and> length (ValidEscInStr (meta en)) = 32 \<and> side src S b en"

definition fed :: "bytes \<Rightarrow> bytes \<Rightarrow> nat \<Rightarrow> engine \<Rightarrow> bool" where
  "fed src S g en \<longleftrightarrow> scalars_ok src (spots grammar_event S 0 (64 * g)) \<and>
     (\<exists>x stk io. asteps (toks_at src (spots grammar_event S 0 (64 * g))) (AtStart, []) = Some (x, stk) \<and> models (grammar en) (kindSlab en) io x stk)"

lemma fed_same: "fed src S g en \<Longrightarrow> same_core en en' \<Longrightarrow> fed src S g en'"
  by (simp add: fed_def same_core_def)

lemma chunkLoop_keeps:
  assumes p: "padded src S" and d: "demands src S good" and len: "64 * stop \<le> length src" "length S \<le> 2 ^ 32" and small: "stop \<le> first + consumeBlocks"
  shows "first \<le> b \<Longrightarrow> b \<le> stop + 31 \<Longrightarrow> reads src S (min b stop) en \<Longrightarrow> fed src S first en \<Longrightarrow>
    map unat ps = spots grammar_event S (64 * first) (64 * min b stop) \<Longrightarrow>
    keeps good (chunkLoop src coarse b stop ps en) (\<lambda>(ps', en'). reads src S stop en' \<and> fed src S first en' \<and>
      map unat ps' = spots grammar_event S (64 * first) (64 * stop))"
proof (induction "stop - b" arbitrary: b ps en rule: less_induct)
  case less
  show ?case
  proof (cases "b < stop")
    case False
    then show ?thesis using less.prems by (subst chunkLoop.simps) (simp add: min_absorb2)
  next
    case True
    define n where "n = min Stage1ChunkBlocks (stop - b)"
    have n: "0 < n" "n \<le> 32" "b + n \<le> stop" "min (b + Stage1ChunkBlocks) stop = b + n" "min b stop = b"
      using True by (auto simp: n_def Stage1ChunkBlocks_def)
    have ps: "map unat ps = spots grammar_event S (64 * first) (64 * b)" using less.prems(5) by (simp add: n(5))
    have "length ps \<le> 64 * b - 64 * first"
      using arg_cong [OF ps, of length] length_filter_le [of "found grammar_event (outside False) S" "[64 * first..<64 * b]"] by simp
    then have room: "n * 64 + 64 \<le> consumeBlocks * 64 + 64 - length ps" using n(3) small less.prems(1) by simp
    have w: "window S b n (drop (b * 64) src)"
      using n(3) len(1) padded_nth [OF p] by (simp add: window_def mult.commute)
    have r: "streamed S b (indexStream en)" "length (ValidEscInStr (meta en)) = 32" "side src S b en"
      using less.prems(3) by (simp_all add: n(5) reads_def)
    have "64 * (b + n) \<le> 2 ^ 32" using len p n(3) by (auto simp: padded_def)
    note cl = classify_keeps [OF w n(1,2) room r(1,2) this disjI1, of True good coarse, OF TrueI]
    show ?thesis
      using True unfolding chunkLoop.simps [of src coarse b] if_P [OF True] Let_def n_def [symmetric]
    proof (intro keeps_bind [OF cl], clarify)
      fix chunk :: "32 word list" and st vm
      assume a: "streamed S (b + n) st" "noted S b n vm" "map unat chunk = spots grammar_event S (64 * b) (64 * (b + n))"
      define en1 where "en1 = en\<lparr>indexStream := st, meta := vm\<rparr>"
      have "side src S (b + 0) en1" "noted S b n (meta en1)" "64 * (b + n) \<le> length src" using r(3) a(2) n(3) len(1) by (simp_all add: en1_def side_def)
      then have "keeps good (checkBlocks src b [0..<n] en1) (\<lambda>en'. side src S (b + n) en' \<and> same_core en1 en')"
        by (intro checkBlocks_keeps [OF p d, of 0 n]) simp_all
      then show "keeps good (flow_bind (checkBlocks src b [0..<n] (en\<lparr>indexStream := st, meta := vm\<rparr>)) (chunkLoop src coarse (b + Stage1ChunkBlocks) stop (ps @ chunk)))
        (\<lambda>(ps', en'). reads src S stop en' \<and> fed src S first en' \<and> map unat ps' = spots grammar_event S (64 * first) (64 * stop))"
        unfolding en1_def [symmetric]
      proof (rule keeps_bind)
        fix en2 assume e: "side src S (b + n) en2 \<and> same_core en1 en2"
        have "fed src S first en1" using less.prems(4) by (simp add: fed_def en1_def)
        then have "fed src S first en2" using e fed_same by blast
        moreover have "reads src S (b + n) en2" using e a(1,2) by (simp add: reads_def same_core_def en1_def noted_def)
        moreover have "map unat (ps @ chunk) = spots grammar_event S (64 * first) (64 * (b + n))"
          using ps a(3) spots_append [of "64 * first" "64 * b" "64 * (b + n)" grammar_event S] less.prems(1) by simp
        ultimately show "keeps good (chunkLoop src coarse (b + Stage1ChunkBlocks) stop (ps @ chunk) en2)
          (\<lambda>(ps', en'). reads src S stop en' \<and> fed src S first en' \<and> map unat ps' = spots grammar_event S (64 * first) (64 * stop))"
          using True less.prems(1) by (intro less.hyps) (simp_all add: n(4), simp_all add: Stage1ChunkBlocks_def)
      qed
    qed
  qed
qed

lemma space_quiet: "\<not> grammar_event st ch_space"
  by (cases st) (simp add: scalar_part_def)

lemma events_inside: "padded src S \<Longrightarrow> j \<in> set (spots grammar_event S a b) \<Longrightarrow> b \<le> length S \<Longrightarrow> j < length src"
proof (rule ccontr)
  assume a: "padded src S" "j \<in> set (spots grammar_event S a b)" "b \<le> length S" "\<not> j < length src"
  then have "S ! j = ch_space" by (auto simp: padded_def nth_append)
  then show False using a(2) space_quiet by (simp add: found_def)
qed

lemma consume_keeps:
  assumes p: "padded src S" and d: "demands src S good" and g: "g \<le> g'" "64 * g' \<le> length S" and f: "fed src S g en"
    and ps: "map unat ps = spots grammar_event S (64 * g) (64 * g')"
  shows "keeps good (consume src mode ps en) (\<lambda>en'. fed src S g' en' \<and> (\<exists>st slab. en' = en\<lparr>grammar := st, kindSlab := slab\<rparr>))"
proof -
  define old where "old = spots grammar_event S 0 (64 * g)"
  define new where "new = spots grammar_event S (64 * g) (64 * g')"
  have all: "spots grammar_event S 0 (64 * g') = old @ new" using g(1) spots_append [of 0 "64 * g" "64 * g'" grammar_event S] by (simp add: old_def new_def)
  have whole: "spots grammar_event S 0 (length S) = (old @ new) @ spots grammar_event S (64 * g') (length S)"
    using spots_append [of 0 "64 * g'" "length S" grammar_event S] g(2) unfolding all by simp
  obtain x stk io where m: "asteps (toks_at src old) (AtStart, []) = Some (x, stk)" "models (grammar en) (kindSlab en) io x stk" "scalars_ok src old"
    using f by (auto simp: fed_def old_def)
  show ?thesis
  proof (cases "ps = []")
    case True
    then have "new = []" using ps by (simp add: new_def)
    then have "fed src S g' en" using f unfolding fed_def all old_def [symmetric] by simp
    then show ?thesis using True by (auto simp: consume_def intro!: exI [of _ "grammar en"] exI [of _ "kindSlab en"])
  next
    case False
    obtain scs slab st where call: "Stage2PositionsTrusted src new (kindSlab en) (grammar en) = (scs, slab, st)" by (metis prod_cases3)
    have c: "consume src mode ps en = (if Bad2 st \<noteq> 0 then Reject
        else if list_all (\<lambda>j. validScalarTokenAtMode src (length src) j mode) scs then Go (en\<lparr>grammar := st, kindSlab := slab\<rparr>) else Reject)"
      using False unfolding consume_def ps new_def [symmetric] call by (simp add: Let_def)
    note run = call_refines [OF m(2) call]
    show ?thesis
    proof (cases "asteps (toks_at src new) (x, stk)")
      case None
      then have "\<not> good" using d m(1) unfolding demands_def whole toks_at_append asteps_append by auto
      moreover have "Bad2 st \<noteq> 0" using run None by simp
      ultimately show ?thesis unfolding c by simp
    next
      case (Some a)
      then have s: "models st slab (kind_bit (snd a)) (fst a) (snd a)" "scs = scalars_of src new" using run by (auto split: prod.splits)
      then have bad: "Bad2 st = 0" by (simp add: models_def)
      have "validScalarTokenAtMode src (length src) j mode \<longleftrightarrow> scalar_at src j" if "j \<in> set scs" for j
        using that events_inside [OF p _ g(2)] by (intro validScalarTokenAtMode_iff) (auto simp: s(2) scalars_of_def new_def)
      then have sc: "list_all (\<lambda>j. validScalarTokenAtMode src (length src) j mode) scs \<longleftrightarrow> scalars_ok src new"
        by (auto simp: list_all_iff scalars_ok_def s(2) scalars_of_def)
      show ?thesis
      proof (cases "scalars_ok src new")
        case True
        have "fed src S g' (en\<lparr>grammar := st, kindSlab := slab\<rparr>)"
          unfolding fed_def all using m(1,3) True Some s(1) by (auto simp: scalars_ok_append toks_at_append asteps_append prod_eq_iff)
        then show ?thesis unfolding c using bad sc True by auto
      next
        case False
        then have "\<not> good" using d unfolding demands_def whole scalars_ok_append by blast
        then show ?thesis unfolding c using bad sc False by simp
      qed
    qed
  qed
qed

lemma batchLoop_keeps:
  assumes p: "padded src S" and d: "demands src S good" and len: "64 * stop \<le> length src" "length S \<le> 2 ^ 32"
  shows "b \<le> stop + consumeBlocks \<Longrightarrow> reads src S (min b stop) en \<Longrightarrow> fed src S (min b stop) en \<Longrightarrow>
    keeps good (batchLoop src mode coarse b stop en) (\<lambda>en'. reads src S stop en' \<and> fed src S stop en')"
proof (induction "stop + consumeBlocks - b" arbitrary: b en rule: less_induct)
  case less
  show ?case
  proof (cases "b < stop")
    case False
    then show ?thesis using less.prems by (subst batchLoop.simps) (simp add: min_absorb2)
  next
    case True
    define last' where "last' = min (b + consumeBlocks) stop"
    have l: "b \<le> last'" "last' \<le> stop" "last' \<le> b + consumeBlocks" "min b last' = b" "min b stop = b" using True by (auto simp: last'_def)
    have len': "64 * last' \<le> length src" "64 * last' \<le> length S" using l(2) len p by (auto simp: padded_def)
    have chunks: "keeps good (chunkLoop src coarse b last' [] en) (\<lambda>(ps', en'). reads src S last' en' \<and> fed src S b en' \<and>
        map unat ps' = spots grammar_event S (64 * b) (64 * last'))"
      by (rule chunkLoop_keeps [OF p d len'(1) len(2) l(3)]) (use l less.prems in simp_all)
    show ?thesis unfolding batchLoop.simps [of src mode coarse b] if_P [OF True] last'_def [symmetric]
    proof (rule keeps_bind [OF chunks], clarify)
      fix ps :: "32 word list" and en1
      assume a: "reads src S last' en1" "fed src S b en1" "map unat ps = spots grammar_event S (64 * b) (64 * last')"
      show "keeps good (flow_bind (consume src mode ps en1) (batchLoop src mode coarse (b + consumeBlocks) stop)) (\<lambda>en'. reads src S stop en' \<and> fed src S stop en')"
      proof (rule keeps_bind [OF consume_keeps [OF p d l(1) len'(2) a(2,3)]], elim conjE exE)
        fix en2 st slab assume e: "fed src S last' en2" "en2 = en1\<lparr>grammar := st, kindSlab := slab\<rparr>"
        have "reads src S last' en2" using a(1) by (simp add: e(2) reads_def side_def)
        then show "keeps good (batchLoop src mode coarse (b + consumeBlocks) stop en2) (\<lambda>en'. reads src S stop en' \<and> fed src S stop en')"
          using True e(1) unfolding last'_def by (intro less.hyps) (simp_all add: consumeBlocks_def Stage1ChunkBlocks_def)
      qed
    qed
  qed
qed

definition block_padding :: "bytes \<Rightarrow> bytes" where
  "block_padding src = replicate (if 64 dvd length src then 0 else 64 - length src mod 64) ch_space"

lemma padded_block_padding: "padded src (src @ block_padding src)"
proof -
  have "length src + (64 - length src mod 64) = 64 * (length src div 64 + 1)"
    using mult_div_mod_eq [of 64 "length src"] mod_less_divisor [of 64 "length src"] by arith
  then have d: "64 dvd length src + (64 - length src mod 64)" by (metis dvd_triv_left)
  show ?thesis
  proof (cases "64 dvd length src")
    case True
    then show ?thesis by (auto simp: padded_def block_padding_def intro: exI [of _ 0])
  next
    case False
    then have "64 - length src mod 64 < 64" by (simp add: mod_greater_zero_iff_not_dvd)
    then show ?thesis using d False unfolding padded_def block_padding_def by auto
  qed
qed

lemma tailBlock_keeps:
  assumes S: "S = src @ block_padding src" and d: "demands src S good" and len: "length S \<le> 2 ^ 32"
    and r: "reads src S (length src div 64) en" "fed src S (length src div 64) en"
  shows "keeps good (tailBlock src mode coarse (length src div 64) en) (\<lambda>en'. reads src S (length S div 64) en' \<and> fed src S (length S div 64) en')"
proof (cases "64 dvd length src")
  case True
  then show ?thesis using r by (simp add: tailBlock_def S block_padding_def)
next
  case False
  define b where "b = length src div 64"
  define tail where "tail = drop (b * 64) src @ replicate (64 - (length src - b * 64)) ch_space"
  have p: "padded src S" unfolding S by (rule padded_block_padding)
  have b: "64 * b < length src" "length src < 64 * b + 64" "length src mod 64 = length src - 64 * b"
    using False mult_div_mod_eq [of 64 "length src"] mod_less_divisor [of 64 "length src"] unfolding b_def dvd_eq_mod_eq_0 by arith+
  have lS: "length S = 64 * (b + 1)" using b False by (simp add: S block_padding_def)
  have t: "S = take (b * 64) src @ tail" using b False by (simp add: S tail_def block_padding_def mult.commute)
  have "64 * b = length (take (b * 64) src)" using b by simp
  then have w: "window S b 1 tail" using b lS unfolding window_def t by (auto simp: nth_append tail_def)
  have rr: "streamed S b (indexStream en)" "length (ValidEscInStr (meta en)) = 32" "side src S b en" using r(1) by (simp_all add: reads_def b_def)
  have "64 * (b + 1) \<le> 2 ^ 32" using len lS by simp
  moreover have "0 < (1 :: nat)" "(1 :: nat) \<le> 32" "1 * 64 + 64 \<le> consumeBlocks * 64 + 64" by (simp_all add: consumeBlocks_def Stage1ChunkBlocks_def)
  ultimately have cl: "keeps good (classify tail 1 b (consumeBlocks * 64 + 64) coarse False en) (\<lambda>(ps, en'). \<exists>st vm. en' = en\<lparr>indexStream := st, meta := vm\<rparr> \<and>
    streamed S (b + 1) st \<and> noted S b 1 vm \<and> map unat ps = spots grammar_event S (64 * b) (64 * (b + 1)))"
    by (intro classify_keeps [OF w _ _ _ rr(1,2)] disjI2 refl) simp_all
  have ne: "b * 64 \<noteq> length src" using b by simp
  have "keeps good (tailBlock src mode coarse b en) (\<lambda>en'. reads src S (b + 1) en' \<and> fed src S (b + 1) en')"
    unfolding tailBlock_def if_P [OF ne] Let_def tail_def [symmetric]
  proof (rule keeps_bind [OF cl], clarify)
    fix ps :: "32 word list" and st vm
    assume a: "streamed S (b + 1) st" "noted S b 1 vm" "map unat ps = spots grammar_event S (64 * b) (64 * (b + 1))"
    define en1 where "en1 = en\<lparr>indexStream := st, meta := vm\<rparr>"
    have e1: "noted S b 1 (meta en1)" "side src S (b + 0) en1" "64 * (b + 0) < length src" "fed src S b en1"
      using a(2) rr(3) b r(2) by (simp_all add: en1_def side_def fed_def b_def)
    show "keeps good (flow_bind (checkBlock src b 0 (en\<lparr>indexStream := st, meta := vm\<rparr>)) (consume src mode ps)) (\<lambda>en'. reads src S (b + 1) en' \<and> fed src S (b + 1) en')"
      unfolding en1_def [symmetric]
    proof (rule keeps_bind [OF checkBlock_keeps [OF p d e1(1) _ e1(3,2)]], simp)
      fix en2 assume e: "side src S (b + 0 + 1) en2 \<and> same_core en1 en2"
      then have f: "fed src S b en2" "reads src S (b + 1) en2"
        using fed_same [OF e1(4)] a(1,2) by (simp_all add: reads_def same_core_def en1_def noted_def)
      show "keeps good (consume src mode ps en2) (\<lambda>en'. reads src S (b + 1) en' \<and> fed src S (b + 1) en')"
        using consume_keeps [OF p d _ _ f(1) a(3), of mode]
        by (rule keeps_mono) (use lS f(2) in \<open>auto simp: reads_def side_def\<close>)
    qed
  qed
  then show ?thesis using lS by (simp add: b_def)
qed

subsection \<open>The verdict\<close>

text \<open>Spaces behind the text add nothing, unless a string is still open.\<close>

lemma spaces_behind:
  "marks grammar_event i st (replicate n ch_space) = []" "marks stray_control i st (replicate n ch_space) = []"
  "fst (snd (after st (replicate n ch_space))) = fst (snd st)"
  "\<not> fst (snd st) \<Longrightarrow> marks escape_target i st (replicate n ch_space) = []"
proof -
  have "marks grammar_event i st (replicate n ch_space) = [] \<and> marks stray_control i st (replicate n ch_space) = []
    \<and> fst (snd (after st (replicate n ch_space))) = fst (snd st) \<and> (\<not> fst (snd st) \<longrightarrow> marks escape_target i st (replicate n ch_space) = [])"
  proof (induction n arbitrary: i st)
    case (Suc n)
    obtain e s f where st: "st = (e, s, f)" by (cases st)
    show ?case using Suc.IH [where st = "advance st ch_space" and i = "Suc i"] by (simp add: st space_quiet [simplified] scalar_part_def stray_control_def)
  qed simp
  then show "marks grammar_event i st (replicate n ch_space) = []" "marks stray_control i st (replicate n ch_space) = []"
    "fst (snd (after st (replicate n ch_space))) = fst (snd st)"
    "\<not> fst (snd st) \<Longrightarrow> marks escape_target i st (replicate n ch_space) = []" by blast+
qed

lemma padding_adds_nothing:
  assumes "S = src @ block_padding src"
  shows "spots grammar_event S 0 (length S) = marks grammar_event 0 (outside False) src"
    "spots stray_control S 0 (length S) = marks stray_control 0 (outside False) src"
    "fst (snd (at_byte S (length S))) = fst (snd (after (outside False) src))"
    "\<not> fst (snd (after (outside False) src)) \<Longrightarrow> spots escape_target S 0 (length S) = marks escape_target 0 (outside False) src"
  unfolding marks_0 [symmetric] after_state [symmetric] assms marks_append after_append block_padding_def by (simp_all add: spaces_behind)

abbreviation (input) clean_text :: "bytes \<Rightarrow> bool" where
  "clean_text src \<equiv> clean src 0 (outside False) (- 1) \<and> scalars_ok src (marks grammar_event 0 (outside False) src)
     \<and> accepted (toks_at src (marks grammar_event 0 (outside False) src))"

lemma clean_parts:
  assumes "S = src @ block_padding src"
  shows "clean_text src \<longleftrightarrow> \<not> fst (snd (at_byte S (length S))) \<and> \<not> any_in (found stray_control (outside False) S) 0 (length S) \<and>
    escRun (escape_check src) (- 1) (spots escape_target S 0 (length S)) \<noteq> None \<and> utf8 src \<and>
    scalars_ok src (spots grammar_event S 0 (length S)) \<and> accepted (toks_at src (spots grammar_event S 0 (length S)))"
proof -
  have "spots stray_control S 0 (length S) = [] \<longleftrightarrow> \<not> any_in (found stray_control (outside False) S) 0 (length S)"
    by (auto simp: any_in_def filter_empty_conv)
  then show ?thesis unfolding clean_def drop_0 using padding_adds_nothing [OF assms] by (cases "fst (snd (after (outside False) src))") auto
qed

lemma clean_demands: "S = src @ block_padding src \<Longrightarrow> demands src S (clean_text src)"
  unfolding clean_parts demands_def by (simp add: accepted_def)

lemma utf8_run_verdict:
  assumes "utf8_run src c s e" "length src \<le> 64 * c"
  shows "utf8 src \<longleftrightarrow> s < 0 \<or> utf8 (subslice src (nat s * 64) (min (nat e * 64) (length src)))"
proof (cases "s < 0")
  case True
  then have "list_all (\<lambda>c. c < 0x80) src" using assms by (simp add: utf8_run_def list_all_length)
  then show ?thesis using True utf8_ascii by blast
next
  case False
  then obtain a b where ab: "s = int a" "e = int b" "a < b" "b \<le> c" "64 * a < length src" "utf8 (take (64 * a) src)"
    "\<And>k. k < 64 * c \<Longrightarrow> 64 * b \<le> k \<Longrightarrow> k < length src \<Longrightarrow> src ! k < 0x80" using assms(1) by (auto simp: utf8_run_def)
  define z where "z = min (64 * b) (length src)"
  have z: "64 * a \<le> z" "z \<le> length src" "\<And>k. z \<le> k \<Longrightarrow> k < length src \<Longrightarrow> src ! k < 0x80"
    using ab assms(2) by (auto simp: z_def)
  note checked = slice_checked [OF ab(6) z(1,2)]
  have "utf8 (subslice src (64 * a) z)" if u: "utf8 src"
  proof (cases "z < length src")
    case True
    then show ?thesis using checked(2) z(3) u by blast
  next
    case False
    then have "src = take (64 * a) src @ subslice src (64 * a) z" using z(2) by (simp add: subslice_def)
    then show ?thesis using u utf8_prefix [OF ab(6)] by metis
  qed
  moreover have "utf8 src" if "utf8 (subslice src (64 * a) z)" using checked(1) [OF z(3) that] by simp
  ultimately show ?thesis using False by (auto simp: ab(1,2) z_def mult.commute)
qed

lemma engineVerdict_keeps:
  assumes S: "S = src @ block_padding src" and N: "64 * N = length S" and r: "reads src S N en" "fed src S N en"
  shows "keeps (clean_text src) (engineVerdict src en) (\<lambda>_. clean_text src)"
proof -
  obtain na esc where st: "indexStream en = index_stream (at_byte S (length S)) (any_in (found stray_control (outside False) S) 0 (length S)) na esc"
    using r(1) by (auto simp: reads_def streamed_def N)
  have i: "InString (IndexCarry (indexStream en)) \<noteq> 0 \<longleftrightarrow> fst (snd (at_byte S (length S)))"
    by (cases "at_byte S (length S)") (simp add: st index_stream_def carry_word_fields string_word_def)
  have b: "IndexBad (indexStream en) \<longleftrightarrow> any_in (found stray_control (outside False) S) 0 (length S)" by (simp add: st index_stream_def)
  obtain x stk io where m: "asteps (toks_at src (spots grammar_event S 0 (length S))) (AtStart, []) = Some (x, stk)"
    "models (grammar en) (kindSlab en) io x stk" "scalars_ok src (spots grammar_event S 0 (length S))"
    using r(2) by (auto simp: fed_def N)
  have f: "Stage2Finish (grammar en) \<longleftrightarrow> accepted (toks_at src (spots grammar_event S 0 (length S)))"
    using finish_models [OF m(2)] m(1) by (simp add: accepted_def)
  have e: "escRun (escape_check src) (- 1) (spots escape_target S 0 (length S)) \<noteq> None" using r(1) by (simp add: reads_def side_def N)
  have "length src \<le> 64 * N" by (simp add: N S)
  then have u: "utf8 src \<longleftrightarrow> utf8RunStart en < 0 \<or> utf8 (subslice src (nat (utf8RunStart en) * 64) (min (nat (utf8RunEnd en) * 64) (length src)))"
    using r(1) by (intro utf8_run_verdict) (simp_all add: reads_def side_def)
  show ?thesis unfolding clean_parts [OF S] engineVerdict_def i b f using e m(3) u by (auto simp: validUTF8Fast_def utf8Valid_iff)
qed

lemma start_ready:
  "reads src S 0 engineStart" "fed src S 0 engineStart"
  using reset_models
  by (auto simp: reads_def fed_def streamed_def engineStart_def index_stream_def side_def utf8_run_def scalars_ok_def toks_at_def Stage1ChunkBlocks_def
    carry_word_def escape_word_def string_word_def)

text \<open>The compile-time assertion of the source.\<close>

lemma same_limit: "DefaultMaxDepth = Stage2MaxDepth"
  by (simp add: DefaultMaxDepth_def Stage2MaxDepth_def)

lemma committed_correct:
  assumes "length src < 2 ^ 32"
  shows "accepts (validPositionsCommitted src mode coarse) = Some (json_document DefaultMaxDepth src)"
  unfolding same_limit clean_accepted_document [symmetric]
proof (rule keeps_accepts)
  define S where "S = src @ block_padding src"
  define n where "n = length src div 64"
  note p = padded_block_padding [of src, folded S_def] and d = clean_demands [OF S_def]
  obtain k where "length S = 64 * k" "length S < length src + 64" using p by (auto simp: padded_def)
  then have len: "length S \<le> 2 ^ 32" "64 * (length S div 64) = length S" using assms by simp_all
  have "64 * n \<le> length src" by (simp add: n_def)
  note batches = batchLoop_keeps [OF p d this len(1), of 0 engineStart mode coarse, simplified, OF start_ready]
  show "keeps (clean_text src) (validPositionsCommitted src mode coarse) (\<lambda>_. clean_text src)"
    unfolding validPositionsCommitted_def Let_def n_def [symmetric]
  proof (rule keeps_bind [OF batches])
    fix en assume "reads src S n en \<and> fed src S n en"
    then have t: "keeps (clean_text src) (tailBlock src mode coarse n en) (\<lambda>en'. reads src S (length S div 64) en' \<and> fed src S (length S div 64) en')"
      unfolding n_def using tailBlock_keeps [OF S_def d len(1)] by blast
    show "keeps (clean_text src) (flow_bind (tailBlock src mode coarse n en) (engineVerdict src)) (\<lambda>_. clean_text src)"
      by (rule keeps_bind [OF t]) (use engineVerdict_keeps [OF S_def len(2)] in blast)
  qed
qed

text \<open>The sample rejects a document only for a control byte in a string or between the tokens.\<close>

lemma sampleLoop_none: "sampleLoop rs t = None \<Longrightarrow> \<exists>r\<in>set rs. RecBad r"
  by (induction rs arbitrary: t) (auto split: if_splits)

lemma sample_correct:
  assumes "validBitmapSampleBlocks * 64 \<le> length src"
  shows "case validPositionsSample src of None \<Rightarrow> False | Some (commit, invalid, mode, coarse) \<Rightarrow> invalid \<longrightarrow> \<not> json_document DefaultMaxDepth src"
proof -
  define recs where "recs = map (record_at (outside False) src) [0..<validBitmapSampleBlocks]"
  have "\<lparr>StreamCarry = \<lparr>Escaped = 0, InString = 0\<rparr>, StreamFollows = 0\<rparr> = record_stream (at_byte src (64 * 0))"
    by (simp add: record_stream_def carry_word_def escape_word_def string_word_def)
  then have run: "Stage1BlocksGP src validBitmapSampleBlocks \<lparr>StreamCarry = \<lparr>Escaped = 0, InString = 0\<rparr>, StreamFollows = 0\<rparr>
      = Some (recs, record_stream (at_byte src (64 * (0 + validBitmapSampleBlocks))))"
    using recordLoop_scan [of 0 validBitmapSampleBlocks src "outside False"] assms
    by (simp add: Stage1BlocksGP_def validBitmapSampleBlocks_def Stage1ChunkBlocks_def recs_def)
  show ?thesis
  proof (cases "sampleLoop recs (0, 0, 0, 0, False)")
    case None
    then obtain j where j: "j < validBitmapSampleBlocks" "any_in (found stray_control (outside False) src) (64 * j) (64 * j + 64)"
      using sampleLoop_none [OF None] by (auto simp: recs_def record_at_def)
    then have "\<exists>k<length src. found stray_control (outside False) src k" using assms unfolding any_in_def
      by (metis (no_types, lifting) add.commute less_le_trans mult.commute mult_Suc mult_le_mono2 Suc_leI)
    then have "marks stray_control 0 (outside False) src \<noteq> []" unfolding marks_0 by (auto simp: filter_empty_conv)
    then have "\<not> json_document DefaultMaxDepth src" unfolding same_limit clean_accepted_document [symmetric] by (simp add: clean_def)
    then show ?thesis unfolding validPositionsSample_def run using None by simp
  next
    case (Some t)
    obtain ws em ins es na where "t = (ws, em, ins, es, na)" by (cases t)
    then show ?thesis unfolding validPositionsSample_def run using Some by (simp add: Let_def)
  qed
qed

lemma bitmap_correct:
  assumes "length src < 2 ^ 32"
  shows "case validBitmap src of None \<Rightarrow> False | Some (valid, decided) \<Rightarrow> decided \<longrightarrow> valid = json_document DefaultMaxDepth src"
  using sample_correct [of src] committed_correct [OF assms]
  by (cases "length src < validBitmapSampleBlocks * 64") (auto simp: validBitmap_def validPositionsStreamed_def split: option.splits)

text \<open>C3: on every text shorter than 2^32 bytes, the range of its positions, the packed engine (stage 1 on blocks of 64 bytes in its
  portable body, the grammar machine on the positions, and escapes, scalars and UTF-8 checked on the side) does not panic and
  accepts exactly the JSON documents within the nesting limit, whatever number mode and coverage of non-ASCII blocks the
  density sample chose; so \<^verbatim>\<open>Valid\<close> and \<^verbatim>\<open>Validate\<close> give the same verdicts and errors on the route of accelerated builds as on the
  portable one.\<close>

theorem bitmap_validator_correct:
  assumes "length src < 2 ^ 32"
  shows "accepts (validPositionsCommitted src mode coarse) = Some (json_document DefaultMaxDepth src) \<and>
    validFast_build accelerated src = Some (validFast src) \<and>
    Validate_build accelerated src = Some (validateOptions src 0)"
proof -
  obtain valid decided where b: "validBitmap src = Some (valid, decided)" "decided \<longrightarrow> valid = json_document DefaultMaxDepth src"
    using bitmap_correct [OF assms] by (auto split: option.splits)
  have "validateOptions src 0 = Ok () \<longleftrightarrow> json_document DefaultMaxDepth src" by (simp add: validateOptions_ok maxDepthOrDefault_def)
  then show ?thesis using committed_correct [OF assms, of mode coarse] b
    by (auto simp: validFast_build_def Validate_build_def validFast_document)
qed

theorem bitmap_validator_correct_witness:
  "accepts (validPositionsCommitted [ch_lbracket, ch_1, ch_rbracket] vbNumberNine True) = Some True \<and>
   accepts (validPositionsCommitted [ch_lbracket, ch_1, ch_1] vbNumberNine True) = Some (json_document DefaultMaxDepth [ch_lbracket, ch_1, ch_1])"
proof -
  have "json_number [ch_1]" by (intro digits_number) (simp_all add: digits1_def IsDigit_def)
  then have "json_document DefaultMaxDepth [ch_lbracket, ch_1, ch_rbracket]"
    unfolding json_document_def DefaultMaxDepth_def
    by (intro exI [of _ "[]"] exI [of _ "CArr (ELast [] (CNum [ch_1]) [])"]) simp
  then show ?thesis using bitmap_validator_correct [of "[ch_lbracket, ch_1, ch_rbracket]" vbNumberNine True False]
      bitmap_validator_correct [of "[ch_lbracket, ch_1, ch_1]" vbNumberNine True False] by simp
qed

end
