(* ===== verification/DigitWords.thy ===== *)
theory DigitWords
  imports ShortStrings Pointer
begin

text \<open>
  Eight decimal digits in one machine word (\<^verbatim>\<open>simd/digits.go\<close>, \<^verbatim>\<open>number_digits.go\<close>): the store kernel
  splits two numbers below 10000 into digits with two multiplications by reciprocals, the load kernel
  folds eight digits with three multiplications. Both are shown equal to plain decimal notation.
\<close>

subsection \<open>Fixed-width decimal notation\<close>

text \<open>The last \<open>n\<close> decimal digits of a number, with leading zeros.\<close>

primrec fixed :: "nat \<Rightarrow> nat \<Rightarrow> bytes" where
  "fixed 0 v = []"
| "fixed (Suc n) v = fixed n (v div 10) @ [ch_0 + of_nat (v mod 10)]"

lemma length_fixed [simp]: "length (fixed n v) = n"
  by (induction n arbitrary: v) simp_all

lemma fixed_add: "fixed (m + n) v = fixed m (v div 10 ^ n) @ fixed n v"
  by (induction n arbitrary: v) (simp_all add: div_mult2_eq [symmetric] mult.commute)

lemma fixed_mod: "fixed n (v mod 10 ^ n) = fixed n v"
proof (induction n arbitrary: v)
  case (Suc n)
  have "(v mod 10 ^ Suc n) div 10 = v div 10 mod 10 ^ n" by (simp add: mod_mult2_eq)
  moreover have "(v mod 10 ^ Suc n) mod 10 = v mod 10" by (simp add: mod_mod_cancel)
  ultimately show ?case by (simp only: fixed.simps Suc)
qed simp

lemma decimal_fixed: "v < 10 ^ Suc n \<Longrightarrow> (0 < n \<Longrightarrow> 10 ^ n \<le> v) \<Longrightarrow> decimal v = fixed (Suc n) v"
proof (induction n arbitrary: v)
  case 0
  then show ?case by (simp add: decimal.simps [of v])
next
  case (Suc n)
  have "10 * 10 ^ n \<le> v" using Suc.prems(2) by simp
  then have "10 ^ n \<le> v div 10" by (simp add: less_eq_div_iff_mult_less_eq mult.commute)
  moreover have "(1 :: nat) \<le> 10 ^ n" by simp
  ultimately have "\<not> v < 10" "0 < n \<Longrightarrow> 10 ^ n \<le> v div 10" by auto
  moreover have "v div 10 < 10 ^ Suc n" using Suc.prems(1) by (simp add: less_mult_imp_div_less)
  ultimately show ?case using Suc.IH [of "v div 10"] by (simp add: decimal.simps [of v])
qed

subsection \<open>The store kernel\<close>

definition encodeTwoFourDigitChunks :: "64 word \<Rightarrow> 64 word \<Rightarrow> 64 word" where
  "encodeTwoFourDigitChunks hi lo =
     (let merged = hi OR push_bit 32 lo;
          top = drop_bit 20 (merged * 10486) AND (0x7f OR push_bit 32 0x7f);
          bottom = merged - 100 * top;
          hundreds = push_bit 16 bottom + top;
          tens = drop_bit 10 (hundreds * 103);
          tens = tens AND (0x0f OR push_bit 16 0x0f OR push_bit 32 0x0f OR push_bit 48 0x0f)
      in tens + push_bit 8 (hundreds - 10 * tens))"

text \<open>\<^verbatim>\<open>Store8Digits\<close>: the eight bytes that are stored.\<close>

definition Store8Digits :: "64 word \<Rightarrow> bytes" where
  "Store8Digits v = lanes (0x3030303030303030 + encodeTwoFourDigitChunks (v div 10000) (v mod 10000))"

text \<open>\<^verbatim>\<open>store16DigitsScalar\<close>, the portable body of \<^verbatim>\<open>Store16Digits\<close>.\<close>

definition Store16Digits :: "64 word \<Rightarrow> bytes" where
  "Store16Digits v =
     (let hi = v div 100000000; lo = v - hi * 100000000;
          first = 0x3030303030303030 + encodeTwoFourDigitChunks (hi div 10000) (hi mod 10000);
          second = 0x3030303030303030 + encodeTwoFourDigitChunks (lo div 10000) (lo mod 10000)
      in lanes first @ lanes second)"

lemma unat64 [simp]: "n < 2 ^ 64 \<Longrightarrow> unat (word_of_nat n :: 64 word) = n"
  by (simp add: unat_of_nat)

text \<open>The words as numbers, as long as nothing overflows.\<close>

lemma nat64_mult: "word_of_nat a * word_of_nat b = (word_of_nat (a * b) :: 64 word)" by simp
lemma nat64_diff: "b \<le> a \<Longrightarrow> word_of_nat a - word_of_nat b = (word_of_nat (a - b) :: 64 word)" by (simp add: of_nat_diff)

lemma nat64_push: "push_bit k (word_of_nat a) = (word_of_nat (a * 2 ^ k) :: 64 word)"
  by (simp add: push_bit_eq_mult)

lemma nat64_drop: "a < 2 ^ 64 \<Longrightarrow> drop_bit k (word_of_nat a) = (word_of_nat (a div 2 ^ k) :: 64 word)"
  by (rule word_unat_eq_iff [THEN iffD2], simp only: unat_drop_bit_eq)
    (simp add: drop_bit_eq_div unat_of_nat take_bit_eq_mod le_less_trans [OF div_le_dividend])

lemma nat64_and: "word_of_nat a AND word_of_nat b = (word_of_nat (a AND b) :: 64 word)"
  by (rule bit_word_eqI) (auto simp: bit_simps)

lemma nat64_or: "word_of_nat a OR word_of_nat b = (word_of_nat (a OR b) :: 64 word)"
  by (rule bit_word_eqI) (auto simp: bit_simps)

lemma or_split: "a < 2 ^ k \<Longrightarrow> a OR b * 2 ^ k = a + b * (2 ^ k :: nat)"
proof -
  assume "a < 2 ^ k"
  then have a: "a = take_bit k a" by (simp add: take_bit_nat_eq_self)
  have "take_bit k a AND push_bit k b = 0" by (rule bit_eqI) (auto simp: bit_simps)
  then have "take_bit k a OR push_bit k b = take_bit k a + push_bit k b" by (simp add: disjunctive_add_eq_or)
  with a show ?thesis by (simp add: push_bit_eq_mult)
qed

lemma and_split: "(a :: nat) < 2 ^ k \<Longrightarrow> c < 2 ^ k \<Longrightarrow> (a + b * 2 ^ k) AND (c + d * 2 ^ k) = (a AND c) + (b AND d) * 2 ^ k"
proof -
  assume a: "a < 2 ^ k" "c < 2 ^ k"
  then have t: "a = take_bit k a" "c = take_bit k c" by (simp_all add: take_bit_nat_eq_self)
  have "(take_bit k a OR push_bit k b) AND (take_bit k c OR push_bit k d) = take_bit k (a AND c) OR push_bit k (b AND d)"
    by (rule bit_eqI) (auto simp: bit_simps)
  moreover have "take_bit k (a AND c) = a AND c" using t by (metis take_bit_and)
  moreover have "a AND c < 2 ^ k" using \<open>take_bit k (a AND c) = a AND c\<close> by (metis take_bit_nat_less_exp)
  ultimately show ?thesis using or_split [of a k b] or_split [of c k d] or_split [of "a AND c" k "b AND d"] a t
    by (simp add: push_bit_eq_mult)
qed

lemma and_low: "(a :: nat) AND 0x7F = a mod 128" "(a :: nat) AND 0x0F = a mod 16"
proof -
  have m: "a AND mask n = a mod 2 ^ n" for n by (simp only: take_bit_eq_mask [symmetric] take_bit_eq_mod)
  show "a AND 0x7F = a mod 128" using m [of 7] by (simp add: mask_eq_exp_minus_1)
  show "a AND 0x0F = a mod 16" using m [of 4] by (simp add: mask_eq_exp_minus_1)
qed

lemma mod_div_swap: "0 < a \<Longrightarrow> x mod (a * b) div a = x div a mod (b :: nat)"
  by (simp add: mod_mult2_eq)

lemma recip_100: "h < 10000 \<Longrightarrow> \<exists>r < 2 ^ 20. h * 10486 = h div 100 * 2 ^ 20 + (r :: nat)"
proof -
  assume h: "h < 10000"
  define q m where "q = h div 100" and "m = h mod 100"
  have e: "h = q * 100 + m" and b: "q < 100" "m < 100" using h by (auto simp: q_def m_def less_mult_imp_div_less)
  have "h * 10486 = q * 2 ^ 20 + (24 * q + 10486 * m)" by (simp add: e)
  moreover have "24 * q + 10486 * m < 2 ^ 20" using b by simp
  ultimately show ?thesis unfolding q_def [symmetric] by blast
qed

lemma recip_10: "f < 100 \<Longrightarrow> \<exists>s < 2 ^ 10. f * 103 = f div 10 * 2 ^ 10 + (s :: nat)"
proof -
  assume f: "f < 100"
  define q m where "q = f div 10" and "m = f mod 10"
  have e: "f = q * 10 + m" and b: "q < 10" "m < 10" using f by (auto simp: q_def m_def less_mult_imp_div_less)
  have "f * 103 = q * 2 ^ 10 + (6 * q + 103 * m)" by (simp add: e)
  moreover have "6 * q + 103 * m < 2 ^ 10" using b by simp
  ultimately show ?thesis unfolding q_def [symmetric] by blast
qed

lemma mod_pow: "x < 2 ^ k \<Longrightarrow> k \<le> n \<Longrightarrow> (x + y * 2 ^ n) mod 2 ^ k = (x :: nat)"
  by (metis (no_types, lifting) le_add_diff_inverse2 mod_less mod_mult_self1 mult.assoc power_add)

text \<open>The first half: hundreds and remainders of both numbers, in 32-bit fields.\<close>

lemma chunks_top:
  assumes h: "h < 10000" and l: "l < 10000"
  shows "drop_bit 20 ((word_of_nat h OR push_bit 32 (word_of_nat l)) * 10486) AND (0x7f OR push_bit 32 0x7f)
    = (word_of_nat (h div 100 + l div 100 * 2 ^ 32) :: 64 word)"
proof -
  obtain r where r: "h * 10486 = h div 100 * 2 ^ 20 + r" "r < 2 ^ 20" using recip_100 [OF h] by blast
  obtain s where s: "l * 10486 = l div 100 * 2 ^ 20 + s" "s < 2 ^ 20" using recip_100 [OF l] by blast
  have q: "h div 100 < 100" "l div 100 < 100" using h l by (auto simp: less_mult_imp_div_less)
  have hb: "h < 2 ^ 32" using h by simp
  have m: "word_of_nat h OR push_bit 32 (word_of_nat l) = (word_of_nat (h + l * 2 ^ 32) :: 64 word)"
    by (simp only: nat64_push nat64_or or_split [OF hb])
  have e: "(h + l * 2 ^ 32) * 10486 = r + (h div 100 + s * 2 ^ 12 + l div 100 * 2 ^ 32) * 2 ^ 20"
    using r(1) s(1) by (simp add: algebra_simps)
  have b: "(h + l * 2 ^ 32) * 10486 < 2 ^ 64" using h l by simp
  have d: "(h + l * 2 ^ 32) * 10486 div 2 ^ 20 = h div 100 + s * 2 ^ 12 + l div 100 * 2 ^ 32" unfolding e using r(2) by simp
  have "drop_bit 20 ((word_of_nat h OR push_bit 32 (word_of_nat l)) * 10486)
      = (word_of_nat (h div 100 + s * 2 ^ 12 + l div 100 * 2 ^ 32) :: 64 word)"
    using nat64_drop [OF b, of 20] unfolding m d by (simp only: of_nat_mult of_nat_numeral)
  moreover have "(0x7f OR push_bit 32 0x7f :: 64 word) = word_of_nat (127 + 127 * 2 ^ 32)" by simp
  moreover have "(h div 100 + s * 2 ^ 12 + l div 100 * 2 ^ 32) AND (127 + 127 * 2 ^ 32) = h div 100 + l div 100 * 2 ^ 32"
  proof -
    have "h div 100 + s * 2 ^ 12 < 2 ^ 32" using q s(2) by simp
    moreover have "(127 :: nat) < 2 ^ 32" by simp
    moreover have "(h div 100 + s * 2 ^ 12) AND 127 = h div 100" using q mod_pow [of "h div 100" 7 12 s] by (simp only: and_low) simp
    moreover have "l div 100 AND 127 = l div 100" using q by (simp add: and_low)
    ultimately show ?thesis by (simp only: and_split)
  qed
  ultimately show ?thesis by (simp only: nat64_and)
qed

text \<open>The second half: tens and units of four numbers below 100, in 16-bit fields.\<close>

abbreviation (input) fields :: "nat \<Rightarrow> nat \<Rightarrow> nat \<Rightarrow> nat \<Rightarrow> nat" where
  "fields a b c d \<equiv> a + (b + (c + d * 2 ^ 16) * 2 ^ 16) * 2 ^ 16"

lemma chunks_tens:
  assumes "a < 100" "b < 100" "c < 100" "d < 100"
  shows "drop_bit 10 (word_of_nat (fields a b c d) * 103) AND (0x0f OR push_bit 16 0x0f OR push_bit 32 0x0f OR push_bit 48 0x0f)
    = (word_of_nat (fields (a div 10) (b div 10) (c div 10) (d div 10)) :: 64 word)"
proof -
  obtain p where p: "a * 103 = a div 10 * 2 ^ 10 + p" "p < 2 ^ 10" using recip_10 [OF assms(1)] by blast
  obtain q where q: "b * 103 = b div 10 * 2 ^ 10 + q" "q < 2 ^ 10" using recip_10 [OF assms(2)] by blast
  obtain r where r: "c * 103 = c div 10 * 2 ^ 10 + r" "r < 2 ^ 10" using recip_10 [OF assms(3)] by blast
  obtain s where s: "d * 103 = d div 10 * 2 ^ 10 + s" "s < 2 ^ 10" using recip_10 [OF assms(4)] by blast
  have t: "a div 10 < 10" "b div 10 < 10" "c div 10 < 10" "d div 10 < 10" using assms by (auto simp: less_mult_imp_div_less)
  let ?f = "fields (a div 10 + q * 2 ^ 6) (b div 10 + r * 2 ^ 6) (c div 10 + s * 2 ^ 6) (d div 10)"
  have e: "fields a b c d * 103 = p + ?f * 2 ^ 10" using p(1) q(1) r(1) s(1) by (simp add: algebra_simps)
  have b: "fields a b c d * 103 < 2 ^ 64" using assms by simp
  have dv: "fields a b c d * 103 div 2 ^ 10 = ?f" unfolding e using p(2) by simp
  have "drop_bit 10 (word_of_nat (fields a b c d) * 103) = (word_of_nat ?f :: 64 word)"
    using nat64_drop [OF b, of 10] unfolding dv by (simp only: of_nat_mult of_nat_numeral)
  moreover have "(0x0f OR push_bit 16 0x0f OR push_bit 32 0x0f OR push_bit 48 0x0f :: 64 word) = word_of_nat (fields 15 15 15 15)" by simp
  moreover have "?f AND fields 15 15 15 15 = fields (a div 10) (b div 10) (c div 10) (d div 10)"
  proof -
    have low: "x + y * 2 ^ 6 < 2 ^ 16" "(x + y * 2 ^ 6) AND 15 = x" if "x < 10" "y < 2 ^ 10" for x y :: nat
      using that mod_pow [of x 4 6 y] by (simp, simp only: and_low) simp
    have "(15 :: nat) < 2 ^ 16" "d div 10 AND 15 = d div 10" using t(4) by (simp_all add: and_low)
    then show ?thesis using low [OF t(1) q(2)] low [OF t(2) r(2)] low [OF t(3) s(2)] by (simp only: and_split)
  qed
  ultimately show ?thesis by (simp only: nat64_and)
qed

lemma encodeTwoFourDigitChunks_fields:
  assumes h: "h < 10000" and l: "l < 10000"
  shows "encodeTwoFourDigitChunks (word_of_nat h) (word_of_nat l) = word_of_nat (fields
      (h div 1000 + h div 100 mod 10 * 256) (h div 10 mod 10 + h mod 10 * 256)
      (l div 1000 + l div 100 mod 10 * 256) (l div 10 mod 10 + l mod 10 * 256))"
proof -
  define a b c d where "a = h div 100" and "b = h mod 100" and "c = l div 100" and "d = l mod 100"
  have bounds: "a < 100" "b < 100" "c < 100" "d < 100" using h l by (auto simp: a_def b_def c_def d_def less_mult_imp_div_less)
  have hl: "h = a * 100 + b" "l = c * 100 + d" by (simp_all add: a_def b_def c_def d_def)
  have "(word_of_nat h OR push_bit 32 (word_of_nat l) :: 64 word) = word_of_nat (h + l * 2 ^ 32)"
    using or_split [of h 32 l] h by (simp only: nat64_push nat64_or) simp
  then have bottom: "(word_of_nat h OR push_bit 32 (word_of_nat l)) - 100 * word_of_nat (a + c * 2 ^ 32) = (word_of_nat (b + d * 2 ^ 32) :: 64 word)"
    by (simp add: hl algebra_simps)
  have hundreds: "push_bit 16 (word_of_nat (b + d * 2 ^ 32)) + word_of_nat (a + c * 2 ^ 32) = (word_of_nat (fields a b c d) :: 64 word)"
    by (simp only: nat64_push of_nat_add [symmetric]) (simp add: algebra_simps)
  let ?t = "fields (a div 10) (b div 10) (c div 10) (d div 10)"
  have units: "fields a b c d = 10 * ?t + fields (a mod 10) (b mod 10) (c mod 10) (d mod 10)"
  proof -
    have e: "x = 10 * (x div 10) + x mod 10" for x :: nat by simp
    have "fields (10 * p + w) (10 * q + x) (10 * r + y) (10 * s + z) = 10 * fields p q r s + fields w x y z" for p q r s w x y z :: nat
      by (simp add: algebra_simps)
    from this [of "a div 10" "a mod 10" "b div 10" "b mod 10" "c div 10" "c mod 10" "d div 10" "d mod 10"] show ?thesis by simp
  qed
  have rest: "word_of_nat (fields a b c d) - 10 * word_of_nat ?t = (word_of_nat (fields (a mod 10) (b mod 10) (c mod 10) (d mod 10)) :: 64 word)"
  proof -
    have "word_of_nat (10 * x + y) - 10 * word_of_nat x = (word_of_nat y :: 64 word)" for x y by simp
    then show ?thesis unfolding units .
  qed
  have dig: "a div 10 = h div 1000" "a mod 10 = h div 100 mod 10" "b div 10 = h div 10 mod 10" "b mod 10 = h mod 10"
    "c div 10 = l div 1000" "c mod 10 = l div 100 mod 10" "d div 10 = l div 10 mod 10" "d mod 10 = l mod 10"
    using mod_div_swap [of 10 h 10] mod_div_swap [of 10 l 10] unfolding a_def b_def c_def d_def
    by (simp_all add: div_mult2_eq [symmetric] mod_mod_cancel)
  have pairs: "fields p q r s + fields w x y z * 2 ^ 8 = fields (p + w * 256) (q + x * 256) (r + y * 256) (s + z * 256)"
    for p q r s w x y z :: nat by (simp add: algebra_simps)
  have "encodeTwoFourDigitChunks (word_of_nat h) (word_of_nat l)
      = word_of_nat ?t + push_bit 8 (word_of_nat (fields (a mod 10) (b mod 10) (c mod 10) (d mod 10)))"
    unfolding encodeTwoFourDigitChunks_def Let_def chunks_top [OF h l, folded a_def c_def] bottom hundreds chunks_tens [OF bounds] rest
    by (rule refl)
  also have "\<dots> = word_of_nat (?t + fields (a mod 10) (b mod 10) (c mod 10) (d mod 10) * 2 ^ 8)"
    unfolding nat64_push by (rule of_nat_add [symmetric])
  finally show ?thesis unfolding pairs dig .
qed

lemma le_word_digit: "d < 10 \<Longrightarrow> (le_word ((ch_0 + word_of_nat d) # bs) :: 64 word) = word_of_nat (48 + d) + 256 * le_word bs"
proof -
  assume d: "d < 10"
  then have "unat (ch_0 + word_of_nat d :: byte) = 48 + d" by (rule decimal_digit)
  moreover have "(ucast x :: 64 word) = word_of_nat (unat x)" for x :: byte by simp
  ultimately have "(ucast (ch_0 + word_of_nat d :: byte) :: 64 word) = word_of_nat (48 + d)" by metis
  then show ?thesis by (simp only: le_word_Cons_add)
qed

text \<open>A word of eight digits, loaded from memory.\<close>

abbreviation (input) digit_word :: "nat list \<Rightarrow> bytes" where
  "digit_word ds \<equiv> map (\<lambda>d. ch_0 + word_of_nat d) ds"

lemma le_word_digits:
  assumes "list_all (\<lambda>d. d < 10) [a, b, c, d, e, f, g, h]"
  shows "(le_word (digit_word [a, b, c, d, e, f, g, h]) :: 64 word)
    = 0x3030303030303030 + word_of_nat (fields (a + b * 256) (c + d * 256) (e + f * 256) (g + h * 256))"
proof -
  have "(le_word (digit_word [a, b, c, d, e, f, g, h]) :: 64 word)
    = word_of_nat (48 + a + 256 * (48 + b + 256 * (48 + c + 256 * (48 + d + 256 * (48 + e + 256 * (48 + f + 256 * (48 + g + 256 * (48 + h))))))))"
    using assms by (simp add: le_word_digit del: le_word.simps(2))
  also have "48 + a + 256 * (48 + b + 256 * (48 + c + 256 * (48 + d + 256 * (48 + e + 256 * (48 + f + 256 * (48 + g + 256 * (48 + h)))))))
    = 0x3030303030303030 + fields (a + b * 256) (c + d * 256) (e + f * 256) (g + h * 256)" by simp
  finally show ?thesis by (simp only: of_nat_add of_nat_numeral)
qed

lemma lanes_digits: "length ds = 8 \<Longrightarrow> lanes (le_word (digit_word ds)) = digit_word ds"
  by (simp add: lanes_le_word)

lemma fixed_8: "fixed 8 v = digit_word [v div 10000000 mod 10, v div 1000000 mod 10, v div 100000 mod 10, v div 10000 mod 10,
    v div 1000 mod 10, v div 100 mod 10, v div 10 mod 10, v mod 10]"
proof -
  have "fixed (Suc (Suc (Suc (Suc (Suc (Suc (Suc (Suc 0)))))))) v
    = digit_word [v div 10000000 mod 10, v div 1000000 mod 10, v div 100000 mod 10, v div 10000 mod 10,
    v div 1000 mod 10, v div 100 mod 10, v div 10 mod 10, v mod 10]"
    by (simp add: div_mult2_eq [symmetric])
  moreover have "8 = Suc (Suc (Suc (Suc (Suc (Suc (Suc (Suc 0)))))))" by simp
  ultimately show ?thesis by (simp only:)
qed

lemma chunks_fixed:
  assumes "v < 10 ^ 8"
  shows "lanes (0x3030303030303030 + encodeTwoFourDigitChunks (word_of_nat (v div 10000)) (word_of_nat (v mod 10000))) = fixed 8 v"
proof -
  have b: "v div 10000 < 10000" "v mod 10000 < 10000" using assms by (auto simp: less_mult_imp_div_less)
  have "v div 10000000 < 10" using assms by (simp add: less_mult_imp_div_less)
  then have d: "v div 10000 div 1000 = v div 10000000 mod 10" "v div 10000 div 100 mod 10 = v div 1000000 mod 10"
    "v div 10000 div 10 mod 10 = v div 100000 mod 10"
    "v mod 10000 div 1000 = v div 1000 mod 10" "v mod 10000 div 100 mod 10 = v div 100 mod 10"
    "v mod 10000 div 10 mod 10 = v div 10 mod 10" "v mod 10000 mod 10 = v mod 10"
    using mod_div_swap [of 1000 v 10] mod_div_swap [of 100 v 100] mod_div_swap [of 10 v 1000]
    by (simp_all add: div_mult2_eq [symmetric] mod_mod_cancel)
  have m: "n mod 10 < 10" for n :: nat by simp
  show ?thesis unfolding encodeTwoFourDigitChunks_fields [OF b] d fixed_8
    by (subst le_word_digits [symmetric]) (simp only: list.pred_inject m simp_thms, rule lanes_digits, simp)
qed

lemma nat64_div: "a < 2 ^ 64 \<Longrightarrow> b < 2 ^ 64 \<Longrightarrow> word_of_nat a div word_of_nat b = (word_of_nat (a div b) :: 64 word)"
  by (rule word_unat_eq_iff [THEN iffD2]) (simp add: unat_div unat_of_nat le_less_trans [OF div_le_dividend])

lemma nat64_mod: "a < 2 ^ 64 \<Longrightarrow> b < 2 ^ 64 \<Longrightarrow> word_of_nat a mod word_of_nat b = (word_of_nat (a mod b) :: 64 word)"
  by (rule word_unat_eq_iff [THEN iffD2]) (simp add: unat_mod unat_of_nat le_less_trans [OF mod_less_eq_dividend])

lemma Store8Digits_fixed: "v < 10 ^ 8 \<Longrightarrow> Store8Digits (word_of_nat v) = fixed 8 v"
  using chunks_fixed [of v] nat64_div [of v 10000] nat64_mod [of v 10000] by (simp add: Store8Digits_def)

lemma Store16Digits_fixed:
  assumes "v < 10 ^ 16"
  shows "Store16Digits (word_of_nat v) = fixed 16 v"
proof -
  define hi lo where "hi = v div 10 ^ 8" and "lo = v mod 10 ^ 8"
  have v: "v = hi * 10 ^ 8 + lo" "hi < 10 ^ 8" "lo < 10 ^ 8" using assms by (auto simp: hi_def lo_def less_mult_imp_div_less)
  have h: "word_of_nat v div 100000000 = (word_of_nat hi :: 64 word)" using nat64_div [of v 100000000] assms by (simp add: hi_def)
  have l: "word_of_nat v - word_of_nat hi * 100000000 = (word_of_nat lo :: 64 word)" by (simp add: v(1))
  have "fixed (8 + 8) v = fixed 8 hi @ fixed 8 lo" by (simp only: fixed_add hi_def lo_def fixed_mod)
  then show ?thesis using chunks_fixed [OF v(2)] chunks_fixed [OF v(3)] nat64_div [of hi 10000] nat64_mod [of hi 10000]
      nat64_div [of lo 10000] nat64_mod [of lo 10000] v(2,3) unfolding Store16Digits_def h Let_def l by simp
qed

end
