(* ===== verification/DigitParse.thy ===== *)
theory DigitParse
  imports DigitWords Numbers
begin

text \<open>
  Reading decimal digits eight at a time (\<^verbatim>\<open>number_digits.go\<close>, \<^verbatim>\<open>simd/digits.go\<close>, \<^verbatim>\<open>node.go\<close>, \<^verbatim>\<open>raw.go\<close>): the
  three-step reduction of a word of digits, the loads that end at the last digit, and the integer
  accessors of a raw value.
\<close>

subsection \<open>The kernels\<close>

definition parse8DigitsWord :: "64 word \<Rightarrow> 64 word" where
  "parse8DigitsWord x =
     (let x = drop_bit 8 ((x AND 0x0f0f0f0f0f0f0f0f) * 2561);
          x = drop_bit 16 ((x AND 0x00ff00ff00ff00ff) * 6553601)
      in drop_bit 32 ((x AND 0x0000ffff0000ffff) * 42949672960001))"

text \<open>Loads at an offset; the callers stay inside the document.\<close>

definition parse8Digits :: "bytes \<Rightarrow> nat \<Rightarrow> 64 word" where
  "parse8Digits src i = parse8DigitsWord (le64 src i)"

definition parse16Digits :: "bytes \<Rightarrow> nat \<Rightarrow> 64 word" where
  "parse16Digits src i = parse8DigitsWord (le64 src i) * 100000000 + parse8DigitsWord (le64 src (i + 8))"

definition parseTrailingDigits :: "64 word \<Rightarrow> nat \<Rightarrow> 64 word" where
  "parseTrailingDigits w k =
     (let s = (8 - k) * 8
      in parse8DigitsWord (w AND push_bit s (NOT 0) OR drop_bit (64 - s) 0x3030303030303030))"

function scalarDigits :: "bytes \<Rightarrow> nat \<Rightarrow> nat \<Rightarrow> 64 word \<Rightarrow> 64 word" where
  "scalarDigits src i e v = (if i < e then scalarDigits src (i + 1) e (v * 10 + ucast (src ! i - ch_0)) else v)"
  by pat_completeness auto
termination by (relation "measure (\<lambda>(src, i, e, v). e - i)") auto

declare scalarDigits.simps [simp del]

text \<open>\<^verbatim>\<open>parseTapeDigitsUint64\<close> reads the digits in \<open>[i, e)\<close>; \<open>None\<close> when there are more than nineteen.\<close>

definition parseTapeDigitsUint64 :: "bytes \<Rightarrow> nat \<Rightarrow> nat \<Rightarrow> 64 word option" where
  "parseTapeDigitsUint64 src i e =
     (let d = e - i in
      if d \<le> 8 \<and> e \<ge> 8 then Some (parseTrailingDigits (le64 src (e - 8)) d)
      else if d > 8 \<and> d \<le> 16 \<and> e \<ge> 16 then
        Some (parseTrailingDigits (le64 src (e - 16)) (d - 8) * 100000000 + parse8Digits src (e - 8))
      else if d > 16 \<and> d \<le> 19 \<and> e \<ge> 24 then
        Some (parseTrailingDigits (le64 src (e - 24)) (d - 16) * 10000000000000000 + parse16Digits src (e - 16))
      else if d > 19 then None
      else Some (scalarDigits src i e 0))"

subsection \<open>The reduction\<close>

abbreviation (input) octets :: "nat \<Rightarrow> nat \<Rightarrow> nat \<Rightarrow> nat \<Rightarrow> nat \<Rightarrow> nat \<Rightarrow> nat \<Rightarrow> nat \<Rightarrow> nat" where
  "octets a b c d e f g h \<equiv> a + (b + (c + (d + (e + (f + (g + h * 2 ^ 8) * 2 ^ 8) * 2 ^ 8) * 2 ^ 8) * 2 ^ 8) * 2 ^ 8) * 2 ^ 8"

lemma word_digits_octets:
  assumes "list_all (\<lambda>d. d < 10) [a, b, c, d, e, f, g, h]"
  shows "(le_word (digit_word [a, b, c, d, e, f, g, h]) :: 64 word)
    = word_of_nat (octets (48 + a) (48 + b) (48 + c) (48 + d) (48 + e) (48 + f) (48 + g) (48 + h))"
  using assms by (simp add: le_word_digit del: le_word.simps(2))

lemma and_digit: "d < 10 \<Longrightarrow> (48 + d) AND 15 = (d :: nat)"
proof -
  assume "d < 10"
  then show ?thesis using mod_pow [of d 4 4 3] by (simp add: and_low add.commute)
qed

lemma byte_bound: "d < 10 \<Longrightarrow> 48 + d < (2 ^ 8 :: nat)" "15 < (2 ^ 8 :: nat)" "255 < (2 ^ 8 :: nat)" "0 < (2 ^ 8 :: nat)"
  by simp_all

lemma and_byte: "d < 2 ^ 8 \<Longrightarrow> d AND 255 = (d :: nat)"
proof -
  assume d: "d < 2 ^ 8"
  have "d AND mask 8 = d mod 2 ^ 8" by (simp only: take_bit_eq_mask [symmetric] take_bit_eq_mod)
  then show ?thesis using d by (simp add: mask_eq_exp_minus_1)
qed

lemma and_half: "d < 2 ^ 16 \<Longrightarrow> d AND 65535 = (d :: nat)"
proof -
  assume d: "d < 2 ^ 16"
  have "d AND mask 16 = d mod 2 ^ 16" by (simp only: take_bit_eq_mask [symmetric] take_bit_eq_mod)
  then show ?thesis using d by (simp add: mask_eq_exp_minus_1)
qed

lemma of_nat_overflow: "word_of_nat (a + b * 2 ^ 64) = (word_of_nat a :: 64 word)"
  by (simp only: word_unat_eq_iff unat_of_nat) simp

lemma nat64_times: "n * numeral k = m \<Longrightarrow> word_of_nat m = (w :: 64 word) \<Longrightarrow> word_of_nat n * numeral k = w"
  by (metis of_nat_mult of_nat_numeral)

lemma parse8_step1:
  assumes "list_all (\<lambda>d. d < 10) [a, b, c, d, e, f, g, h]"
  shows "drop_bit 8 ((le_word (digit_word [a, b, c, d, e, f, g, h]) AND 0x0f0f0f0f0f0f0f0f) * 2561)
    = (word_of_nat (octets (10 * a + b) (10 * b + c) (10 * c + d) (10 * d + e) (10 * e + f) (10 * f + g) (10 * g + h) 0) :: 64 word)"
proof -
  have dg: "a < 10" "b < 10" "c < 10" "d < 10" "e < 10" "f < 10" "g < 10" "h < 10" using assms by simp_all
  have m: "(0x0f0f0f0f0f0f0f0f :: 64 word) = word_of_nat (octets 15 15 15 15 15 15 15 15)" by simp
  have "octets (48 + a) (48 + b) (48 + c) (48 + d) (48 + e) (48 + f) (48 + g) (48 + h) AND octets 15 15 15 15 15 15 15 15 = octets a b c d e f g h"
    by (simp only: and_split byte_bound dg and_digit)
  then have x: "le_word (digit_word [a, b, c, d, e, f, g, h]) AND 0x0f0f0f0f0f0f0f0f = (word_of_nat (octets a b c d e f g h) :: 64 word)"
    unfolding word_digits_octets [OF assms] m nat64_and by simp
  let ?o = "octets (10 * a + b) (10 * b + c) (10 * c + d) (10 * d + e) (10 * e + f) (10 * f + g) (10 * g + h) 0"
  have "octets a b c d e f g h * 2561 = (a + ?o * 2 ^ 8) + (10 * h) * 2 ^ 64" by simp
  then have p: "word_of_nat (octets a b c d e f g h) * 2561 = (word_of_nat (a + ?o * 2 ^ 8) :: 64 word)"
    using of_nat_overflow by (rule nat64_times)
  have lt: "a + ?o * 2 ^ 8 < 2 ^ 64" and dv: "(a + ?o * 2 ^ 8) div 2 ^ 8 = ?o" using dg by simp_all
  show ?thesis unfolding x p nat64_drop [OF lt] dv ..
qed

lemma parse8_step2:
  assumes "p < 100" "q < 100" "r < 100" "s < 100" "t < 100" "u < 100" "v < 100"
  shows "drop_bit 16 ((word_of_nat (octets p q r s t u v 0) AND 0x00ff00ff00ff00ff) * 6553601)
    = (word_of_nat (fields (100 * p + r) (100 * r + t) (100 * t + v) 0) :: 64 word)"
proof -
  have m: "(0x00ff00ff00ff00ff :: 64 word) = word_of_nat (octets 255 0 255 0 255 0 255 0)" by simp
  have b: "x < 2 ^ 8" if "x < 100" for x :: nat using that by simp
  have "octets p q r s t u v 0 AND octets 255 0 255 0 255 0 255 0 = octets p 0 r 0 t 0 v 0"
    by (simp only: and_split byte_bound b assms and_byte) simp
  then have x: "word_of_nat (octets p q r s t u v 0) AND 0x00ff00ff00ff00ff = (word_of_nat (octets p 0 r 0 t 0 v 0) :: 64 word)"
    unfolding m nat64_and by simp
  let ?o = "fields (100 * p + r) (100 * r + t) (100 * t + v) 0"
  have "octets p 0 r 0 t 0 v 0 * 6553601 = (p + ?o * 2 ^ 16) + (100 * v) * 2 ^ 64" by simp
  then have e: "word_of_nat (octets p 0 r 0 t 0 v 0) * 6553601 = (word_of_nat (p + ?o * 2 ^ 16) :: 64 word)"
    using of_nat_overflow by (rule nat64_times)
  have lt: "p + ?o * 2 ^ 16 < 2 ^ 64" and dv: "(p + ?o * 2 ^ 16) div 2 ^ 16 = ?o" using assms by simp_all
  show ?thesis unfolding x e nat64_drop [OF lt] dv ..
qed

lemma parse8_step3:
  assumes "p < 10000" "q < 10000" "r < 10000"
  shows "drop_bit 32 ((word_of_nat (fields p q r 0) AND 0x0000ffff0000ffff) * 42949672960001) = (word_of_nat (10000 * p + r) :: 64 word)"
proof -
  have m: "(0x0000ffff0000ffff :: 64 word) = word_of_nat (fields 65535 0 65535 0)" by simp
  have b: "x < 2 ^ 16" if "x < 10000" for x :: nat using that by simp
  have n: "65535 < (2 ^ 16 :: nat)" "0 < (2 ^ 16 :: nat)" by simp_all
  have "fields p q r 0 AND fields 65535 0 65535 0 = fields p 0 r 0"
    by (simp only: and_split n b assms and_half) simp
  then have x: "word_of_nat (fields p q r 0) AND 0x0000ffff0000ffff = (word_of_nat (fields p 0 r 0) :: 64 word)"
    unfolding m nat64_and by simp
  have "fields p 0 r 0 * 42949672960001 = (p + (10000 * p + r) * 2 ^ 32) + (10000 * r) * 2 ^ 64" by simp
  then have e: "word_of_nat (fields p 0 r 0) * 42949672960001 = (word_of_nat (p + (10000 * p + r) * 2 ^ 32) :: 64 word)"
    using of_nat_overflow by (rule nat64_times)
  have lt: "p + (10000 * p + r) * 2 ^ 32 < 2 ^ 64" and dv: "(p + (10000 * p + r) * 2 ^ 32) div 2 ^ 32 = 10000 * p + r" using assms by simp_all
  show ?thesis unfolding x e nat64_drop [OF lt] dv ..
qed

abbreviation (input) value8 :: "nat list \<Rightarrow> nat" where
  "value8 ds \<equiv> foldl (\<lambda>n d. 10 * n + d) 0 ds"

lemma parse8DigitsWord_value:
  assumes "list_all (\<lambda>d. d < 10) ds" "length ds = 8"
  shows "parse8DigitsWord (le_word (digit_word ds)) = word_of_nat (value8 ds)"
proof -
  obtain a b c d e f g h where ds: "ds = [a, b, c, d, e, f, g, h]"
    using assms(2) by (auto simp: length_Suc_conv numeral_eq_Suc)
  have dg: "list_all (\<lambda>d. d < 10) [a, b, c, d, e, f, g, h]" using assms(1) by (simp add: ds)
  have p: "10 * a + b < 100" "10 * b + c < 100" "10 * c + d < 100" "10 * d + e < 100" "10 * e + f < 100" "10 * f + g < 100" "10 * g + h < 100"
    using dg by simp_all
  have q: "100 * (10 * a + b) + (10 * c + d) < 10000" "100 * (10 * c + d) + (10 * e + f) < 10000" "100 * (10 * e + f) + (10 * g + h) < 10000"
    using dg by simp_all
  show ?thesis unfolding parse8DigitsWord_def Let_def ds parse8_step1 [OF dg] parse8_step2 [OF p] parse8_step3 [OF q] by simp
qed

text \<open>The same, for bytes.\<close>

lemma digit_byte: "IsDigit c \<Longrightarrow> c = ch_0 + word_of_nat (unat c - 48) \<and> unat c - 48 < 10"
proof -
  assume "IsDigit c"
  then have c: "48 \<le> unat c" "unat c \<le> 57" by (simp_all add: IsDigit_def word_le_nat_alt)
  have "unat (ch_0 + word_of_nat (unat c - 48) :: byte) = 48 + (unat c - 48)" using c by (intro decimal_digit) simp
  with c show ?thesis by (simp add: word_unat_eq_iff)
qed

lemma digit_widened: "IsDigit c \<Longrightarrow> (ucast (c - ch_0) :: 64 word) = word_of_nat (unat c - 48)"
proof -
  assume "IsDigit c"
  then have "unat (c - ch_0) = unat c - 48" by (simp add: IsDigit_def unat_sub word_le_nat_alt)
  moreover have "(ucast x :: 64 word) = word_of_nat (unat x)" for x :: byte by simp
  ultimately show ?thesis by metis
qed

lemma digits_word: "list_all IsDigit bs \<Longrightarrow> digit_word (map (\<lambda>c. unat c - 48) bs) = bs"
  by (induction bs) (auto simp flip: digit_byte)

lemma parse8_bytes:
  assumes "list_all IsDigit bs" "length bs = 8"
  shows "parse8DigitsWord (le_word bs) = word_of_nat (digits_value bs)"
proof -
  have "list_all (\<lambda>d. d < 10) (map (\<lambda>c. unat c - 48) bs)" using assms(1) digit_byte by (simp add: list_all_iff)
  from parse8DigitsWord_value [OF this] have "parse8DigitsWord (le_word (digit_word (map (\<lambda>c. unat c - 48) bs))) = word_of_nat (value8 (map (\<lambda>c. unat c - 48) bs))"
    using assms(2) by simp
  then show ?thesis unfolding digits_word [OF assms(1)] by (simp add: digits_value_def foldl_map)
qed

subsection \<open>Loads that end at the last digit\<close>

lemma digits_value_from: "foldl (\<lambda>n c. 10 * n + (unat c - 48)) v ys = v * 10 ^ length ys + digits_value ys"
  by (induction ys rule: rev_induct) (simp_all add: digits_value_def)

lemma digits_value_append: "digits_value (xs @ ys) = digits_value xs * 10 ^ length ys + digits_value ys"
  using digits_value_from [of "digits_value xs" ys] by (simp add: digits_value_def)

lemma digits_value_zeros: "digits_value (replicate n ch_0 @ ys) = digits_value ys"
proof -
  have "digits_value (replicate n ch_0) = 0" by (induction n) (simp_all add: digits_value_def)
  then show ?thesis by (simp add: digits_value_append)
qed

lemma digits_value_bound: "list_all IsDigit ys \<Longrightarrow> digits_value ys < 10 ^ length ys"
proof (induction ys rule: rev_induct)
  case (snoc c ys)
  then have "unat c - 48 < 10" using digit_byte by simp
  with snoc show ?case by (simp add: digits_value_append) (simp add: digits_value_def)
qed (simp add: digits_value_def)

lemma backfill:
  assumes "length bs = 8" "k \<le> 8"
  shows "le_word bs AND push_bit ((8 - k) * 8) (NOT 0) OR drop_bit (64 - (8 - k) * 8) 0x3030303030303030
    = (le_word (replicate (8 - k) ch_0 @ drop (8 - k) bs) :: 64 word)"
proof (rule bit_word_eqI)
  fix n assume "n < LENGTH(64)"
  then have n: "n < 64" by simp
  define s where "s = 8 - k"
  have z: "(0x3030303030303030 :: 64 word) = le_word (replicate 8 ch_0)" by (simp add: le_word_replicate)
  have hi: "bit (drop_bit (64 - s * 8) 0x3030303030303030 :: 64 word) n \<longleftrightarrow> n < s * 8 \<and> bit (ch_0 :: byte) (n mod 8)"
  proof (cases "n < s * 8")
    case True
    have "64 - s * 8 + n = (8 - s) * 8 + n" by simp
    moreover have "s * 8 \<le> 64" by (simp add: s_def)
    ultimately have "64 - s * 8 + n < 64" "(64 - s * 8 + n) mod 8 = n mod 8" using True by (linarith, simp)
    then show ?thesis using True by (simp add: z bit_drop_bit_eq bit_le_word less_mult_imp_div_less)
  next
    case False
    then have "\<not> 64 - s * 8 + n < 64" by simp
    then show ?thesis using False bit_imp_le_length [of "0x3030303030303030 :: 64 word" "64 - s * 8 + n"] by (auto simp: bit_drop_bit_eq)
  qed
  have d: "n div 8 < 8" using n by simp
  have lo: "n < s * 8 \<longleftrightarrow> n div 8 < s" by (metis div_less_iff_less_mult zero_less_numeral)
  show "bit (le_word bs AND push_bit ((8 - k) * 8) (NOT 0) OR drop_bit (64 - (8 - k) * 8) 0x3030303030303030 :: 64 word) n
     \<longleftrightarrow> bit (le_word (replicate (8 - k) ch_0 @ drop (8 - k) bs) :: 64 word) n"
    unfolding s_def [symmetric] bit_or_iff hi
    using n d assms lo s_def by (auto simp: bit_le_word bit_simps nth_append)
qed

lemma parseTrailingDigits_value:
  assumes "length bs = 8" "k \<le> 8" "list_all IsDigit (drop (8 - k) bs)"
  shows "parseTrailingDigits (le_word bs) k = word_of_nat (digits_value (drop (8 - k) bs))"
proof -
  have "list_all IsDigit (replicate (8 - k) ch_0 @ drop (8 - k) bs)" using assms(3) by (auto simp: list_all_iff IsDigit_def)
  from parse8_bytes [OF this] show ?thesis using assms(1)
    unfolding parseTrailingDigits_def Let_def backfill [OF assms(1,2)] by (simp add: digits_value_zeros)
qed

lemma scalarDigits_value:
  assumes "list_all IsDigit (subslice src i e)" "i \<le> e" "e \<le> length src"
  shows "scalarDigits src i e v = v * 10 ^ (e - i) + word_of_nat (digits_value (subslice src i e))"
  using assms
proof (induction src i e v rule: scalarDigits.induct)
  case (1 src i e v)
  show ?case
  proof (cases "i < e")
    case True
    then have sl: "subslice src i e = src ! i # subslice src (i + 1) e" using "1.prems" by (simp add: slice_Cons)
    define k where "k = unat (src ! i) - 48"
    have d: "(ucast (src ! i - ch_0) :: 64 word) = word_of_nat k" using "1.prems"(1) sl digit_widened by (simp add: k_def)
    have "scalarDigits src i e v = (v * 10 + word_of_nat k) * 10 ^ (e - (i + 1)) + word_of_nat (digits_value (subslice src (i + 1) e))"
      using "1.IH" True "1.prems" sl d by (simp add: scalarDigits.simps [of src i e v])
    moreover have "10 ^ (e - i) = 10 * (10 ^ (e - (i + 1)) :: 64 word)" using True by (simp flip: power_Suc add: Suc_diff_Suc)
    moreover have "digits_value (subslice src i e) = k * 10 ^ (e - (i + 1)) + digits_value (subslice src (i + 1) e)"
      using digits_value_append [of "[src ! i]" "subslice src (i + 1) e"] "1.prems"(3) unfolding sl by (simp add: digits_value_def length_slice k_def)
    ultimately show ?thesis by (simp add: algebra_simps)
  next
    case False
    then have "e = i" using "1.prems"(2) by simp
    then show ?thesis by (subst scalarDigits.simps) (simp add: digits_value_def)
  qed
qed

lemma drop_subslice: "i \<le> j \<Longrightarrow> j \<le> k \<Longrightarrow> drop (j - i) (subslice xs i k) = subslice xs j k"
  by (simp add: subslice_def drop_take)

lemma list_all_slice: "list_all P (subslice xs i k) \<Longrightarrow> i \<le> j \<Longrightarrow> j \<le> k \<Longrightarrow> list_all P (subslice xs j k)"
  using drop_subslice [of i j k xs] by (metis list_all_iff in_set_dropD)

text \<open>A load that ends at the last digit, and the digits in front of it.\<close>

lemma trailing_slice:
  assumes "list_all IsDigit (subslice src i e)" "8 \<le> e" "e \<le> length src" "i \<le> e" "e - i \<le> 8"
  shows "parseTrailingDigits (le64 src (e - 8)) (e - i) = word_of_nat (digits_value (subslice src i e))"
proof -
  have "e - 8 \<le> i" "8 - (e - i) = i - (e - 8)" "e - 8 + 8 = e" using assms by auto
  then have "drop (8 - (e - i)) (subslice src (e - 8) e) = subslice src i e" using drop_subslice [of "e - 8" i e src] assms(4) by simp
  then show ?thesis using parseTrailingDigits_value [of "subslice src (e - 8) e" "e - i"] assms by (simp add: le64_def length_slice)
qed

text \<open>The reader returns the value of every run of at most nineteen digits, wherever the run lies in the
  document and however short the document is, and refuses longer runs.\<close>

lemma parseTapeDigitsUint64_value:
  assumes "list_all IsDigit (subslice src i e)" "i \<le> e" "e \<le> length src"
  shows "parseTapeDigitsUint64 src i e = (if e - i > 19 then None else Some (word_of_nat (digits_value (subslice src i e))))"
proof -
  define d where "d = e - i"
  have e8: "parse8Digits src (e - 8) = word_of_nat (digits_value (subslice src (e - 8) e))" if "i + 8 \<le> e"
  proof -
    have "list_all IsDigit (subslice src (e - 8) e)" using list_all_slice [OF assms(1)] that by simp
    from parse8_bytes [OF this] that assms(3) show ?thesis by (simp add: parse8Digits_def le64_def length_slice)
  qed
  consider (a) "d \<le> 8 \<and> e \<ge> 8" | (b) "\<not> (d \<le> 8 \<and> e \<ge> 8)" "d > 8 \<and> d \<le> 16 \<and> e \<ge> 16"
    | (c) "\<not> (d \<le> 8 \<and> e \<ge> 8)" "\<not> (d > 8 \<and> d \<le> 16 \<and> e \<ge> 16)" "d > 16 \<and> d \<le> 19 \<and> e \<ge> 24"
    | (d) "\<not> (d \<le> 8 \<and> e \<ge> 8)" "\<not> (d > 8 \<and> d \<le> 16 \<and> e \<ge> 16)" "\<not> (d > 16 \<and> d \<le> 19 \<and> e \<ge> 24)" by blast
  then show ?thesis
  proof cases
    case a
    then show ?thesis using trailing_slice [OF assms(1)] assms by (simp add: parseTapeDigitsUint64_def d_def)
  next
    case b
    then have i: "i + 8 \<le> e" by (simp add: d_def)
    have s: "subslice src i e = subslice src i (e - 8) @ subslice src (e - 8) e" using i slice_append_slice [of i "e - 8" e src] by simp
    have "list_all IsDigit (subslice src i (e - 8))" using assms(1) s by simp
    moreover have "e - 8 - i = d - 8" "e - 8 - 8 = e - 16" by (simp_all add: d_def)
    moreover have "8 \<le> e - 8" "e - 8 \<le> length src" "i \<le> e - 8" "d - 8 \<le> 8" using b(2) assms(3) i by linarith+
    ultimately have "parseTrailingDigits (le64 src (e - 16)) (d - 8) = word_of_nat (digits_value (subslice src i (e - 8)))"
      using trailing_slice [of src i "e - 8"] by simp
    moreover have "digits_value (subslice src i e) = digits_value (subslice src i (e - 8)) * 100000000 + digits_value (subslice src (e - 8) e)"
      unfolding s digits_value_append using assms(3) b by (simp add: length_slice)
    ultimately show ?thesis using b e8 [OF i] by (simp add: parseTapeDigitsUint64_def d_def Let_def)
  next
    case c
    then have i: "i + 16 \<le> e" by (simp add: d_def)
    have s: "subslice src i e = subslice src i (e - 16) @ subslice src (e - 16) (e - 8) @ subslice src (e - 8) e"
      using i slice_append_slice [of i "e - 16" e src] slice_append_slice [of "e - 16" "e - 8" e src] by simp
    have m: "parse8DigitsWord (le64 src (e - 16)) = word_of_nat (digits_value (subslice src (e - 16) (e - 8)))"
    proof -
      have "list_all IsDigit (subslice src (e - 16) (e - 8))" using assms(1) s by simp
      from parse8_bytes [OF this] i assms(3) show ?thesis by (simp add: le64_def length_slice)
    qed
    have "list_all IsDigit (subslice src i (e - 16))" using assms(1) s by simp
    moreover have "e - 16 - i = d - 16" "e - 16 - 8 = e - 24" by (simp_all add: d_def)
    moreover have "8 \<le> e - 16" "e - 16 \<le> length src" "i \<le> e - 16" "d - 16 \<le> 8" using c(3) assms(3) i by linarith+
    ultimately have "parseTrailingDigits (le64 src (e - 24)) (d - 16) = word_of_nat (digits_value (subslice src i (e - 16)))"
      using trailing_slice [of src i "e - 16"] c assms(3) i by simp
    moreover have "parse16Digits src (e - 16) = word_of_nat (digits_value (subslice src (e - 16) (e - 8)) * 100000000 + digits_value (subslice src (e - 8) e))"
      using m e8 i c(3) by (simp add: parse16Digits_def parse8Digits_def)
    moreover have "digits_value (subslice src i e) = digits_value (subslice src i (e - 16)) * 10000000000000000
        + (digits_value (subslice src (e - 16) (e - 8)) * 100000000 + digits_value (subslice src (e - 8) e))"
      unfolding s digits_value_append using assms(3) c by (simp add: length_slice)
    ultimately show ?thesis using c by (simp add: parseTapeDigitsUint64_def d_def Let_def)
  next
    case d
    then show ?thesis using scalarDigits_value [OF assms, of 0]
      unfolding parseTapeDigitsUint64_def Let_def d_def [symmetric] if_not_P [OF d(1)] if_not_P [OF d(2)] if_not_P [OF d(3)] by simp
  qed
qed

end
