(* ===== verification/IntAccess.thy ===== *)
theory IntAccess
  imports DigitParse RawString
begin

text \<open>
  Integer accessors (\<^verbatim>\<open>node.go\<close>, \<^verbatim>\<open>raw.go\<close>): a number token without fraction and exponent is read as a 64-bit
  integer when it fits. A signed result is the 64-bit word that \<^verbatim>\<open>sint\<close> reads; \<open>None\<close> is the false flag.
\<close>

subsection \<open>The code\<close>

text \<open>The loop for twenty digits in \<^verbatim>\<open>tapeUint64\<close>, with its overflow check.\<close>

function checkedDigits :: "bytes \<Rightarrow> nat \<Rightarrow> nat \<Rightarrow> 64 word \<Rightarrow> 64 word option" where
  "checkedDigits src i e v =
     (if i < e then
        let digit = ucast (src ! i - ch_0) in
        if v > (NOT 0 - digit) div 10 then None
        else checkedDigits src (i + 1) e (v * 10 + digit)
      else Some v)"
  by pat_completeness auto
termination by (relation "measure (\<lambda>(src, i, e, v). e - i)") auto

declare checkedDigits.simps [simp del]

definition tapeUint64 :: "bytes \<Rightarrow> nat \<Rightarrow> nat \<Rightarrow> 64 word option" where
  "tapeUint64 src start e =
     (case parseTapeDigitsUint64 src start e of
        Some v \<Rightarrow> Some v
      | None \<Rightarrow> if e - start \<noteq> 20 then None else checkedDigits src start e 0)"

definition signedTape :: "bool \<Rightarrow> 64 word \<Rightarrow> 64 word option" where
  "signedTape negative v =
     (if negative then (if v > 0x8000000000000000 then None else Some (- v))
      else if v > 0x8000000000000000 - 1 then None else Some v)"

definition TapeInt64 :: "bytes \<Rightarrow> nat \<Rightarrow> nat \<Rightarrow> 64 word option" where
  "TapeInt64 src start e =
     (let negative = (src ! start = ch_minus);
          i = (if negative then start + 1 else start)
      in case parseTapeDigitsUint64 src i e of None \<Rightarrow> None | Some v \<Rightarrow> signedTape negative v)"

text \<open>\<^verbatim>\<open>strconv.ParseInt(s, 10, 64)\<close> on an optional minus and digits.\<close>

definition int_text :: "bytes \<Rightarrow> int" where
  "int_text s = (if s \<noteq> [] \<and> hd s = ch_minus then - int (digits_value (tl s)) else int (digits_value s))"

abbreviation (input) in_int64 :: "int \<Rightarrow> bool" where "in_int64 n \<equiv> - (2 ^ 63) \<le> n \<and> n < 2 ^ 63"

definition ParseInt :: "bytes \<Rightarrow> 64 word option" where
  "ParseInt s = (if in_int64 (int_text s) then Some (word_of_int (int_text s)) else None)"

definition RawValue_Int64 :: "bytes \<Rightarrow> 64 word option" where
  "RawValue_Int64 src =
     (if length src = 0 then None
      else case scanNumberFastTagged src (length src) 0 of (e, integer, ok) \<Rightarrow>
        if \<not> ok \<or> e \<noteq> length src \<or> \<not> integer then None
        else
          let negative = (src ! 0 = ch_minus); i = (if negative then 1 else 0) in
          case parseTapeDigitsUint64 src i e of
            None \<Rightarrow> ParseInt src
          | Some v \<Rightarrow> signedTape negative v)"

definition RawValue_Uint64 :: "bytes \<Rightarrow> 64 word option" where
  "RawValue_Uint64 src =
     (if length src = 0 then None
      else case scanNumberFastTagged src (length src) 0 of (e, integer, ok) \<Rightarrow>
        if \<not> ok \<or> e \<noteq> length src \<or> \<not> integer \<or> src ! 0 = ch_minus then None
        else tapeUint64 src 0 e)"

subsection \<open>Integer tokens\<close>

text \<open>A JSON number without fraction and exponent.\<close>

definition json_integer :: "bytes \<Rightarrow> bool" where
  "json_integer s \<longleftrightarrow> num_int (if s \<noteq> [] \<and> hd s = ch_minus then tl s else s)"

lemma fraction_whole: "i \<le> length src \<Longrightarrow> numberFastFraction src (length src) i = (length src, True, True) \<longleftrightarrow> i = length src"
  by (auto simp: numberFastFraction_def numberFastExponent_def Let_def)

lemma digits_end_whole: "i \<le> length src \<Longrightarrow> digits_end src i = length src \<longleftrightarrow> list_all IsDigit (drop i src)"
proof -
  assume i: "i \<le> length src"
  have "length (takeWhile IsDigit (drop i src)) = length (drop i src) \<longleftrightarrow> takeWhile IsDigit (drop i src) = drop i src"
    by (metis takeWhile_eq_take take_all order_refl)
  then show ?thesis using i by (auto simp: digits_end_def takeWhile_eq_all_conv list_all_iff)
qed

lemma integer_tail:
  assumes "i < length src"
  shows "(if src ! i = ch_0 then numberFastFraction src (length src) (i + 1)
      else if isOneNine (src ! i) then numberFastFraction src (length src) (skipDigits src (length src) (i + 1))
      else (i, False, False)) = (length src, True, True) \<longleftrightarrow> num_int (drop i src)"
proof -
  have d: "drop i src = src ! i # drop (i + 1) src" using assms by (simp add: Cons_nth_drop_Suc)
  have le: "digits_end src (i + 1) \<le> length src" using assms digits_end_le [of "i + 1" src] by simp
  show ?thesis
  proof (cases "src ! i = ch_0")
    case True
    then have "num_int (drop i src) \<longleftrightarrow> drop (i + 1) src = []" by (simp add: d num_int_def isOneNine_def)
    then show ?thesis using True assms fraction_whole [of "i + 1" src] by auto
  next
    case False
    then have "num_int (drop i src) \<longleftrightarrow> isOneNine (src ! i) \<and> list_all IsDigit (drop (i + 1) src)" by (auto simp: d num_int_def)
    then show ?thesis using False assms fraction_whole [OF le] digits_end_whole [of "i + 1" src] by (simp add: skipDigits_eq)
  qed
qed

lemma scan_integer:
  assumes "src \<noteq> []"
  shows "scanNumberFastTagged src (length src) 0 = (length src, True, True) \<longleftrightarrow> json_integer src"
proof (cases "src ! 0 = ch_minus")
  case True
  then have h: "hd src = ch_minus" "tl src = drop 1 src" using assms by (simp_all add: hd_conv_nth drop_Suc)
  then have j: "json_integer src \<longleftrightarrow> num_int (drop 1 src)" using assms by (simp add: json_integer_def)
  have c: "scanNumberFastTagged src (length src) 0 = (if length src \<le> 1 then (1, False, False)
     else if src ! 1 = ch_0 then numberFastFraction src (length src) (1 + 1)
     else if isOneNine (src ! 1) then numberFastFraction src (length src) (skipDigits src (length src) (1 + 1))
     else (1, False, False))"
    using True by (simp add: scanNumberFastTagged_def)
  show ?thesis
  proof (cases "1 < length src")
    case l: True
    then show ?thesis unfolding c using integer_tail [OF l] j by (simp only: not_le [symmetric] if_False)
  next
    case False
    then show ?thesis unfolding c j by (simp add: num_int_def)
  qed
next
  case False
  then have "hd src \<noteq> ch_minus" "0 < length src" using assms by (simp_all add: hd_conv_nth)
  then have j: "json_integer src \<longleftrightarrow> num_int (drop 0 src)" "0 < length src" by (simp_all add: json_integer_def)
  have c: "scanNumberFastTagged src (length src) 0 = (if src ! 0 = ch_0 then numberFastFraction src (length src) (0 + 1)
     else if isOneNine (src ! 0) then numberFastFraction src (length src) (skipDigits src (length src) (0 + 1))
     else (0, False, False))"
    using False by (simp add: scanNumberFastTagged_def)
  show ?thesis unfolding c using integer_tail [OF j(2)] j(1) by (rule trans [OF _ sym])
qed

lemma one_nine_bounds: "isOneNine c \<Longrightarrow> 49 \<le> unat c \<and> unat c \<le> 57"
  by (simp add: isOneNine_def word_le_nat_alt)

lemma num_int_digits: "num_int ds \<Longrightarrow> list_all IsDigit ds \<and> ds \<noteq> [] \<and> hd ds \<noteq> ch_minus"
  by (auto simp: num_int_def IsDigit_def word_le_nat_alt dest: one_nine_bounds)

lemma num_int_large: "num_int ds \<Longrightarrow> 1 < length ds \<Longrightarrow> 10 ^ (length ds - 1) \<le> digits_value ds"
proof -
  assume n: "num_int ds" "1 < length ds"
  then obtain c r where d: "ds = c # r" "isOneNine c" by (auto simp: num_int_def)
  have "1 \<le> unat c - 48" using one_nine_bounds [OF d(2)] by linarith
  moreover have "digits_value ds = (unat c - 48) * 10 ^ length r + digits_value r"
    using digits_value_append [of "[c]" r] d(1) by (simp add: digits_value_def)
  ultimately show ?thesis using d(1) by (simp add: trans_le_add1)
qed

lemma num_int_huge:
  assumes "num_int ds" "19 < length ds"
  shows "10 ^ 19 \<le> digits_value ds"
proof -
  have "(10 :: nat) ^ 19 \<le> 10 ^ (length ds - 1)" using assms(2) by (intro power_increasing) simp_all
  with num_int_large [OF assms(1)] assms(2) show ?thesis by linarith
qed

subsection \<open>Signed results\<close>

lemma signedTape_value:
  assumes "n < 2 ^ 64"
  shows "signedTape neg (word_of_nat n) =
     (if in_int64 (if neg then - int n else int n) then Some (word_of_int (if neg then - int n else int n)) else None)"
  using assms by (auto simp: signedTape_def word_less_nat_alt unat_of_nat word_of_int_minus)

lemma nat_digits_bound: "list_all IsDigit ds \<Longrightarrow> length ds \<le> 19 \<Longrightarrow> digits_value ds < 2 ^ 64"
proof -
  assume d: "list_all IsDigit ds" and "length ds \<le> 19"
  then have "(10 :: nat) ^ length ds \<le> 10 ^ 19" by (intro power_increasing) simp_all
  with digits_value_bound [OF d] have "digits_value ds < 10 ^ 19" by (rule less_le_trans)
  then show ?thesis by simp
qed

subsection \<open>Twenty digits\<close>

lemma checkedDigits_value:
  assumes "list_all IsDigit (subslice src i e)" "i \<le> e" "e \<le> length src" "a < 2 ^ 64"
  shows "checkedDigits src i e (word_of_nat a) =
     (let n = a * 10 ^ (e - i) + digits_value (subslice src i e) in if n < 2 ^ 64 then Some (word_of_nat n) else None)"
  using assms
proof (induction "e - i" arbitrary: i a)
  case 0
  then show ?case by (subst checkedDigits.simps) (simp add: digits_value_def)
next
  case (Suc m)
  then have i: "i < e" "m = e - (i + 1)" "e - i = Suc m" by auto
  have sl: "subslice src i e = src ! i # subslice src (i + 1) e" using i Suc.prems by (simp add: slice_Cons)
  define k where "k = unat (src ! i) - 48"
  have dg: "IsDigit (src ! i)" using Suc.prems(1) sl by simp
  have d: "(ucast (src ! i - ch_0) :: 64 word) = word_of_nat k" using digit_widened [OF dg] by (simp add: k_def)
  have k: "k < 10" using dg by (auto simp: k_def IsDigit_def word_le_nat_alt)
  define r where "r = digits_value (subslice src (i + 1) e)"
  have dv: "digits_value (subslice src i e) = k * 10 ^ m + r"
    using digits_value_append [of "[src ! i]" "subslice src (i + 1) e"] Suc.prems(3) i
    unfolding sl by (simp add: digits_value_def length_slice k_def r_def)
  have lim: "(NOT 0 - word_of_nat k) div 10 = (word_of_nat ((18446744073709551615 - k) div 10) :: 64 word)"
  proof -
    have m: "(NOT 0 - word_of_nat k :: 64 word) = word_of_nat (18446744073709551615 - k)" using k by (simp add: of_nat_diff)
    have "18446744073709551615 - k < 2 ^ 64" "(10 :: nat) < 2 ^ 64" by simp_all
    from nat64_div [OF this] show ?thesis unfolding m by (simp only: of_nat_numeral)
  qed
  have ov: "word_of_nat a > (NOT 0 - word_of_nat k) div (10 :: 64 word) \<longleftrightarrow> 2 ^ 64 \<le> a * 10 + k"
  proof -
    have "(18446744073709551615 - k) div 10 < 2 ^ 64" using k by (simp add: div_less_iff_less_mult)
    then have "word_of_nat ((18446744073709551615 - k) div 10) < (word_of_nat a :: 64 word) \<longleftrightarrow> (18446744073709551615 - k) div 10 < a"
      using Suc.prems(4) by (simp only: word_less_nat_alt unat64)
    also have "\<dots> \<longleftrightarrow> 18446744073709551615 - k < a * 10" by (simp add: div_less_iff_less_mult)
    also have "\<dots> \<longleftrightarrow> 2 ^ 64 \<le> a * 10 + k" using k by auto
    finally show ?thesis unfolding lim .
  qed
  show ?case
  proof (cases "2 ^ 64 \<le> a * 10 + k")
    case True
    have "(2 :: nat) ^ 64 * 1 \<le> (a * 10 + k) * 10 ^ m" using True by (intro mult_le_mono) simp_all
    then have "\<not> a * 10 ^ Suc m + (k * 10 ^ m + r) < 2 ^ 64" by (simp add: algebra_simps)
    then show ?thesis using True ov i(1) unfolding checkedDigits.simps [of src i] d dv i(3) by simp
  next
    case False
    have "word_of_nat a * 10 + word_of_nat k = (word_of_nat (a * 10 + k) :: 64 word)" by simp
    moreover have "(a * 10 + k) * 10 ^ m + r = a * 10 ^ Suc m + (k * 10 ^ m + r)" by (simp add: algebra_simps)
    moreover have "list_all IsDigit (subslice src (i + 1) e)" using Suc.prems(1) sl by simp
    ultimately show ?thesis using False ov i Suc.hyps(1) [of "i + 1" "a * 10 + k"] Suc.prems(3)
      unfolding checkedDigits.simps [of src i] d dv by (simp add: r_def Let_def)
  qed
qed

lemma tapeUint64_value:
  assumes "num_int (subslice src i e)" "i \<le> e" "e \<le> length src"
  shows "tapeUint64 src i e =
     (let n = digits_value (subslice src i e) in if n < 2 ^ 64 then Some (word_of_nat n) else None)"
proof -
  have ds: "list_all IsDigit (subslice src i e)" "length (subslice src i e) = e - i"
    using num_int_digits [OF assms(1)] assms(2,3) by (auto simp: length_slice)
  note p = parseTapeDigitsUint64_value [OF ds(1) assms(2,3)]
  consider "e - i \<le> 19" | "e - i = 20" | "20 < e - i" by linarith
  then show ?thesis
  proof cases
    case 1
    then show ?thesis using p nat_digits_bound [OF ds(1)] ds(2) by (simp add: tapeUint64_def Let_def)
  next
    case 2
    then show ?thesis using p checkedDigits_value [OF ds(1) assms(2,3), of 0] by (simp add: tapeUint64_def Let_def)
  next
    case 3
    have "(10 :: nat) ^ 20 \<le> 10 ^ (e - i - 1)" using 3 by (intro power_increasing) simp_all
    also have "\<dots> \<le> digits_value (subslice src i e)" using num_int_large [OF assms(1)] 3 unfolding ds(2) by simp
    finally have "10 ^ 20 \<le> digits_value (subslice src i e)" .
    then have "\<not> digits_value (subslice src i e) < 2 ^ 64" by simp
    then show ?thesis using 3 p by (simp add: tapeUint64_def Let_def)
  qed
qed

subsection \<open>Signed and unsigned tokens\<close>

lemma int_text_cases:
  assumes "json_integer s"
  defines "neg \<equiv> s \<noteq> [] \<and> hd s = ch_minus"
  shows "num_int (if neg then tl s else s)"
    "int_text s = (if neg then - int (digits_value (tl s)) else int (digits_value s))"
  using assms by (simp_all add: json_integer_def int_text_def)

lemma signed_digits:
  assumes "num_int (subslice src i e)" "i \<le> e" "e \<le> length src"
  shows "(case parseTapeDigitsUint64 src i e of None \<Rightarrow> None | Some v \<Rightarrow> signedTape neg v) =
     (let n = int (digits_value (subslice src i e)); n = (if neg then - n else n)
      in if in_int64 n then Some (word_of_int n) else None)"
proof -
  have ds: "list_all IsDigit (subslice src i e)" "length (subslice src i e) = e - i"
    using num_int_digits [OF assms(1)] assms(2,3) by (auto simp: length_slice)
  note p = parseTapeDigitsUint64_value [OF ds(1) assms(2,3)]
  show ?thesis
  proof (cases "19 < e - i")
    case True
    then have "10 ^ 19 \<le> digits_value (subslice src i e)" using num_int_huge [OF assms(1)] ds(2) by simp
    then show ?thesis using p True by (auto simp: Let_def)
  next
    case False
    then have "digits_value (subslice src i e) < 2 ^ 64" using nat_digits_bound [OF ds(1)] ds(2) by simp
    from signedTape_value [OF this] show ?thesis using p False by (simp add: Let_def)
  qed
qed

text \<open>\<^verbatim>\<open>TapeInt64\<close> on a number token without fraction and exponent: the value comes back exactly when it lies
  in the range of \<^verbatim>\<open>int64\<close>, both ends included, and every larger magnitude is refused whatever its length.\<close>

theorem TapeInt64_value:
  assumes "start < e" "e \<le> length src" "json_integer (subslice src start e)"
  shows "TapeInt64 src start e =
     (let n = int_text (subslice src start e) in if - (2 ^ 63) \<le> n \<and> n < 2 ^ 63 then Some (word_of_int n) else None)"
proof -
  have sl: "subslice src start e = src ! start # subslice src (start + 1) e" using assms(1,2) by (simp add: slice_Cons)
  then have "num_int (subslice src (if src ! start = ch_minus then start + 1 else start) e)"
    using int_text_cases(1) [OF assms(3)] by (simp split: if_splits)
  from signed_digits [OF this, of "src ! start = ch_minus"] show ?thesis
    using assms(1,2) int_text_cases(2) [OF assms(3)] sl by (simp add: TapeInt64_def Let_def split: if_splits)
qed

theorem TapeInt64_value_witness:
  "TapeInt64 (map (of_nat \<circ> of_char) ''[-9223372036854775808]'') 1 21 = Some (word_of_int (- (2 ^ 63)))"
proof -
  let ?s = "map (of_nat \<circ> of_char) ''[-9223372036854775808]'' :: bytes"
  have "subslice ?s 1 21 = map (of_nat \<circ> of_char) ''-9223372036854775808''" by (simp add: subslice_def)
  then have "json_integer (subslice ?s 1 21)" "int_text (subslice ?s 1 21) = - (2 ^ 63)"
    by (simp_all add: json_integer_def num_int_def isOneNine_def IsDigit_def int_text_def digits_value_def)
  with TapeInt64_value [of 1 21 ?s] show ?thesis by simp
qed

lemma RawValue_Int64_eq:
  "RawValue_Int64 src =
     (if json_integer src \<and> - (2 ^ 63) \<le> int_text src \<and> int_text src < 2 ^ 63 then Some (word_of_int (int_text src)) else None)"
proof (cases "src = []")
  case True
  then show ?thesis by (simp add: RawValue_Int64_def json_integer_def num_int_def)
next
  case ne: False
  obtain e integer ok where sc: "scanNumberFastTagged src (length src) 0 = (e, integer, ok)" by (metis prod_cases3)
  show ?thesis
  proof (cases "json_integer src")
    case False
    then show ?thesis using scan_integer [OF ne] sc ne by (auto simp: RawValue_Int64_def)
  next
    case True
    then have e: "e = length src" "integer" "ok" using scan_integer [OF ne] sc by auto
    have h: "hd src = src ! 0" using ne by (simp add: hd_conv_nth)
    define neg where "neg \<longleftrightarrow> src ! 0 = ch_minus"
    define i where "i = (if neg then 1 else 0 :: nat)"
    have i: "i \<le> length src" "subslice src i (length src) = (if neg then tl src else src)" using ne by (cases src; simp add: i_def subslice_def)+
    have "num_int (subslice src i (length src))" using int_text_cases(1) [OF True] ne h i(2) by (simp add: neg_def)
    note v = signed_digits [OF this i(1) order_refl, of neg]
    have t: "int_text src = (if neg then - int (digits_value (subslice src i (length src))) else int (digits_value (subslice src i (length src))))"
      using int_text_cases(2) [OF True] ne h i(2) by (simp add: neg_def)
    have "RawValue_Int64 src = (case parseTapeDigitsUint64 src i (length src) of None \<Rightarrow> ParseInt src | Some v \<Rightarrow> signedTape neg v)"
      unfolding i_def neg_def using ne e sc by (simp add: RawValue_Int64_def Let_def)
    then show ?thesis using v t True by (auto simp: ParseInt_def Let_def split: option.splits)
  qed
qed

lemma RawValue_Uint64_eq:
  "RawValue_Uint64 src =
     (if num_int src \<and> digits_value src < 2 ^ 64 then Some (word_of_nat (digits_value src)) else None)"
proof (cases "src = []")
  case True
  then show ?thesis by (simp add: RawValue_Uint64_def num_int_def)
next
  case ne: False
  obtain e integer ok where sc: "scanNumberFastTagged src (length src) 0 = (e, integer, ok)" by (metis prod_cases3)
  have h: "hd src = src ! 0" using ne by (simp add: hd_conv_nth)
  have s: "subslice src 0 (length src) = src" by (simp add: subslice_def)
  show ?thesis
  proof (cases "num_int src")
    case True
    then have m: "src ! 0 \<noteq> ch_minus" using num_int_digits [OF True] h by simp
    then have "json_integer src" using True h by (simp add: json_integer_def)
    then have "e = length src" "integer" "ok" using scan_integer [OF ne] sc by auto
    then have "RawValue_Uint64 src = tapeUint64 src 0 (length src)" using ne sc m by (simp add: RawValue_Uint64_def)
    then show ?thesis using True tapeUint64_value [of src 0 "length src"] unfolding s by (simp add: Let_def)
  next
    case False
    then have "src ! 0 = ch_minus \<or> \<not> json_integer src" using h by (auto simp: json_integer_def)
    then show ?thesis using False scan_integer [OF ne] sc ne by (auto simp: RawValue_Uint64_def)
  qed
qed

text \<open>C36: \<^verbatim>\<open>RawValue.Int64\<close> succeeds exactly on the JSON numbers without fraction and exponent whose value fits
  \<^verbatim>\<open>int64\<close>, and returns that value.\<close>

theorem RawValue_Int64_correct:
  "RawValue_Int64 src =
     (if json_integer src \<and> - (2 ^ 63) \<le> int_text src \<and> int_text src < 2 ^ 63 then Some (word_of_int (int_text src)) else None)"
  by (rule RawValue_Int64_eq)

text \<open>C37: \<^verbatim>\<open>RawValue.Uint64\<close> succeeds exactly on the non-negative JSON numbers without fraction and exponent
  below \<open>2 ^ 64\<close>, and returns their value.\<close>

theorem RawValue_Uint64_correct:
  "RawValue_Uint64 src =
     (if num_int src \<and> digits_value src < 2 ^ 64 then Some (word_of_nat (digits_value src)) else None)"
  by (rule RawValue_Uint64_eq)

end
