(* ===== verification/IntEncode.thy ===== *)
theory IntEncode
  imports IntAccess
begin

text \<open>
  The integer formatter (\<^verbatim>\<open>encoder_int.go\<close>). It writes two digits per store into the spare capacity of
  the output slice, so the model keeps that capacity: a \<open>goslice\<close> is the slice's bytes together with what the
  backing array holds between length and capacity. A reslice past the capacity panics and is \<open>None\<close>. What the
  array of a reallocating append holds in its spare part is the parameter \<open>fresh\<close>.
\<close>

subsection \<open>Slices with capacity\<close>

record goslice =
  contents :: bytes
  spare :: bytes

type_synonym allocator = "bytes \<Rightarrow> bytes"

text \<open>\<^verbatim>\<open>append(dst, xs...)\<close>\<close>

definition append_slice :: "allocator \<Rightarrow> goslice \<Rightarrow> bytes \<Rightarrow> goslice" where
  "append_slice fresh dst xs =
     (if length xs \<le> length (spare dst) then \<lparr>contents = contents dst @ xs, spare = drop (length xs) (spare dst)\<rparr>
      else \<lparr>contents = contents dst @ xs, spare = fresh (contents dst @ xs)\<rparr>)"

text \<open>\<^verbatim>\<open>dst[:len(dst)+n]\<close>\<close>

definition extend_slice :: "goslice \<Rightarrow> nat \<Rightarrow> goslice option" where
  "extend_slice dst n =
     (if n \<le> length (spare dst) then Some \<lparr>contents = contents dst @ take n (spare dst), spare = drop n (spare dst)\<rparr>
      else None)"

text \<open>A store of \<open>xs\<close> at offset \<open>i\<close>.\<close>

definition store_at :: "bytes \<Rightarrow> nat \<Rightarrow> bytes \<Rightarrow> bytes" where
  "store_at buf i xs = take i buf @ xs @ drop (i + length xs) buf"

definition store_slice :: "goslice \<Rightarrow> nat \<Rightarrow> bytes \<Rightarrow> goslice" where
  "store_slice dst i xs = dst\<lparr>contents := store_at (contents dst) i xs\<rparr>"

text \<open>\<^verbatim>\<open>strconv.AppendUint(dst, v, 10)\<close>\<close>

definition AppendUint :: "allocator \<Rightarrow> goslice \<Rightarrow> 64 word \<Rightarrow> goslice" where
  "AppendUint fresh dst v = append_slice fresh dst (decimal (unat v))"

text \<open>\<^verbatim>\<open>bits.Len64\<close>\<close>

fun bit_length :: "nat \<Rightarrow> nat" where
  "bit_length n = (if n = 0 then 0 else Suc (bit_length (n div 2)))"

declare bit_length.simps [simp del]

definition Len64 :: "64 word \<Rightarrow> nat" where
  "Len64 v = bit_length (unat v)"

subsection \<open>The formatter\<close>

definition encodeDigitPairs :: bytes where
  "encodeDigitPairs = map (of_nat \<circ> of_char)
    (''00010203040506070809'' @
     ''10111213141516171819'' @
     ''20212223242526272829'' @
     ''30313233343536373839'' @
     ''40414243444546474849'' @
     ''50515253545556575859'' @
     ''60616263646566676869'' @
     ''70717273747576777879'' @
     ''80818283848586878889'' @
     ''90919293949596979899'')"

definition storeCompactDigitPair :: "goslice \<Rightarrow> nat \<Rightarrow> 64 word \<Rightarrow> goslice" where
  "storeCompactDigitPair dst i pair =
     store_slice dst i [encodeDigitPairs ! (unat pair * 2), encodeDigitPairs ! (unat pair * 2 + 1)]"

definition pow10Uint64 :: "64 word list" where
  "pow10Uint64 =
     [1,
      10,
      100,
      1000,
      10000,
      100000,
      1000000,
      10000000,
      100000000,
      1000000000,
      10000000000,
      100000000000,
      1000000000000,
      10000000000000,
      100000000000000,
      1000000000000000,
      10000000000000000,
      100000000000000000,
      1000000000000000000,
      10000000000000000000]"

text \<open>The digit count, from the length in bits.\<close>

definition digitCount :: "64 word \<Rightarrow> nat" where
  "digitCount v =
     (let digits = drop_bit 12 (Len64 v * 1233) + 1
      in if v < pow10Uint64 ! (digits - 1) then digits - 1 else digits)"

text \<open>One case of the switch in \<^verbatim>\<open>appendCompactUint\<close>: store the last two digits.\<close>

definition pairStep :: "goslice \<times> nat \<times> 64 word \<Rightarrow> goslice \<times> nat \<times> 64 word" where
  "pairStep = (\<lambda>(dst, i, v).
     let pair = v mod 100; v = v div 100; i = i - 2 in (storeCompactDigitPair dst i pair, i, v))"

text \<open>The cases fall through to the last one.\<close>

definition pairCases :: "64 word \<Rightarrow> nat" where
  "pairCases v = (if v \<ge> 100000000 then 4 else if v \<ge> 1000000 then 3 else if v \<ge> 10000 then 2 else if v \<ge> 100 then 1 else 0)"

definition appendCompactUint9 :: "allocator \<Rightarrow> goslice \<Rightarrow> 64 word \<Rightarrow> goslice option" where
  "appendCompactUint9 fresh dst v =
     (if length (spare dst) < 9 then Some (AppendUint fresh dst v)
      else
        let hi = v div 100000000; lo = v - hi * 100000000 in
        Option.bind (extend_slice dst 9) (\<lambda>dst.
          let dst = store_slice dst (length (contents dst) - 9) [ch_0 + ucast hi]
          in Some (store_slice dst (length (contents dst) - 8) (Store8Digits lo))))"

definition appendCompactUint10 :: "allocator \<Rightarrow> goslice \<Rightarrow> 64 word \<Rightarrow> goslice option" where
  "appendCompactUint10 fresh dst v =
     (if length (spare dst) < 10 then Some (AppendUint fresh dst v)
      else
        let hi = v div 100000000; lo = v - hi * 100000000; start = length (contents dst) in
        Option.bind (extend_slice dst 10) (\<lambda>dst.
          let dst = storeCompactDigitPair dst start hi
          in Some (store_slice dst (start + 2) (Store8Digits lo))))"

function appendCompactUint :: "allocator \<Rightarrow> goslice \<Rightarrow> 64 word \<Rightarrow> goslice option"
  and appendCompactUintLarge :: "allocator \<Rightarrow> goslice \<Rightarrow> 64 word \<Rightarrow> goslice option" where
  "appendCompactUint fresh dst v =
     (if v < 10 then Some (append_slice fresh dst [ch_0 + ucast v])
      else if v < 100 then
        Some (append_slice fresh dst [encodeDigitPairs ! unat (v * 2), encodeDigitPairs ! unat (v * 2 + 1)])
      else if v \<ge> 10000000000 then appendCompactUintLarge fresh dst v
      else if v \<ge> 1000000000 then appendCompactUint10 fresh dst v
      else if v \<ge> 100000000 then appendCompactUint9 fresh dst v
      else
        let digits = digitCount v in
        if length (spare dst) < digits then Some (AppendUint fresh dst v)
        else
          let start = length (contents dst) in
          Option.bind (extend_slice dst digits) (\<lambda>dst.
            if digits = 8 then Some (store_slice dst start (Store8Digits v))
            else
              let (dst, i, v) = (pairStep ^^ pairCases v) (dst, length (contents dst), v) in
              if v \<ge> 10 then Some (storeCompactDigitPair dst (i - 2) v)
              else Some (store_slice dst (i - 1) [ch_0 + ucast v])))"
| "appendCompactUintLarge fresh dst v =
     (let digits = digitCount v in
      if length (spare dst) < digits then Some (AppendUint fresh dst v)
      else if v < 10000000000000000 then Some (append_slice fresh dst (drop (16 - digits) (Store16Digits v)))
      else
        let hi = v div 10000000000000000; lo = v - hi * 10000000000000000 in
        Option.bind (appendCompactUint fresh dst hi) (\<lambda>dst.
          let start = length (contents dst) in
          Option.bind (extend_slice dst 16) (\<lambda>dst. Some (store_slice dst start (Store16Digits lo)))))"
  by pat_completeness auto
termination
proof (relation "measure (case_sum (\<lambda>(fresh, dst, v). 2 * unat v + 1) (\<lambda>(fresh, dst, v). 2 * unat v))")
  fix v :: "64 word"
  assume "\<not> v < 10000000000000000"
  then have "unat v div 10000000000000000 < unat v" by (simp add: word_less_nat_alt)
  then show "\<And>fresh dst digits hi lo. hi = v div 10000000000000000 \<Longrightarrow>
     (Inl (fresh, dst, hi), Inr (fresh, dst, v)) \<in> measure (case_sum (\<lambda>(fresh, dst, v). 2 * unat v + 1) (\<lambda>(fresh, dst, v). 2 * unat v))"
    by (simp add: unat_div)
qed auto

declare appendCompactUint.simps [simp del] appendCompactUintLarge.simps [simp del]

definition appendCompactInt :: "allocator \<Rightarrow> goslice \<Rightarrow> 64 word \<Rightarrow> goslice option" where
  "appendCompactInt fresh dst v =
     (if sint v < 0 then appendCompactUint fresh (append_slice fresh dst [ch_minus]) (- v)
      else appendCompactUint fresh dst v)"

definition appendCommaCompactUint :: "allocator \<Rightarrow> goslice \<Rightarrow> 64 word \<Rightarrow> goslice option" where
  "appendCommaCompactUint fresh dst v =
     (if v < 10 then Some (append_slice fresh dst [ch_comma, ch_0 + ucast v])
      else if v < 100 then
        Some (append_slice fresh dst [ch_comma, encodeDigitPairs ! unat (v * 2), encodeDigitPairs ! unat (v * 2 + 1)])
      else
        let digits = digitCount v in
        if v \<ge> 10000000000000000 \<or> length (spare dst) < digits + 1 then
          appendCompactUint fresh (append_slice fresh dst [ch_comma]) v
        else
          let start = length (contents dst) in
          Option.bind (extend_slice dst (digits + 1)) (\<lambda>dst.
            let dst = store_slice dst start [ch_comma]
            in Some (store_slice dst (start + 1) (drop (16 - digits) (Store16Digits v)))))"

definition appendCommaCompactInt :: "allocator \<Rightarrow> goslice \<Rightarrow> 64 word \<Rightarrow> goslice option" where
  "appendCommaCompactInt fresh dst v =
     (if sint v < 0 then appendCompactUint fresh (append_slice fresh dst [ch_comma, ch_minus]) (- v)
      else appendCommaCompactUint fresh dst v)"

subsection \<open>Decimal notation\<close>

lemma decimal_bounds: "n < 10 ^ length (decimal n)" "0 < n \<Longrightarrow> 10 ^ (length (decimal n) - 1) \<le> n" "decimal n \<noteq> []"
proof (induction n rule: decimal.induct)
  case (1 n)
  case 1
  show ?case using "1.IH"(1) by (simp add: decimal.simps [of n] div_less_iff_less_mult mult.commute)
next
  case (1 n)
  case 2
  then show ?case using "1.IH"(2,3)
    by (cases "decimal (n div 10)") (simp_all add: decimal.simps [of n] less_eq_div_iff_mult_less_eq mult.commute)
next
  case (1 n)
  case 3
  show ?case by (simp add: decimal.simps [of n])
qed

lemma decimal_width: "n < 10 ^ d \<Longrightarrow> 10 ^ (d - 1) \<le> n \<Longrightarrow> 0 < d \<Longrightarrow> length (decimal n) = d"
  using decimal_fixed [of n "d - 1"] by simp

lemma decimal_is_fixed: "decimal n = fixed (length (decimal n)) n"
proof (cases "n = 0")
  case True
  then show ?thesis by (simp add: decimal.simps)
next
  case False
  then show ?thesis using decimal_bounds [of n] decimal_fixed [of n "length (decimal n) - 1"] by (simp add: decimal_bounds)
qed

lemma decimal_single: "n < 10 \<Longrightarrow> decimal n = [ch_0 + of_nat n]"
  by (simp add: decimal.simps)

lemma drop_fixed: "k \<le> n \<Longrightarrow> drop (n - k) (fixed n v) = fixed k v"
  using fixed_add [of "n - k" k v] by simp

lemma bit_length_bounds: "n < 2 ^ bit_length n" "0 < n \<Longrightarrow> 2 ^ (bit_length n - 1) \<le> n" "bit_length n = 0 \<longleftrightarrow> n = 0"
proof (induction n rule: bit_length.induct)
  case (1 n)
  case 1
  show ?case using "1.IH"(1) by (cases "n = 0") (simp_all add: bit_length.simps [of n] div_less_iff_less_mult mult.commute)
next
  case (1 n)
  case 2
  then show ?case using "1.IH"(2,3)
    by (cases "n div 2 = 0") (auto simp: bit_length.simps [of n] less_eq_div_iff_mult_less_eq mult.commute simp flip: power_Suc)
next
  case (1 n)
  case 3
  show ?case by (simp add: bit_length.simps [of n])
qed

text \<open>For every width of a 64-bit word, the estimate of the code is the digit count or one more.\<close>

lemma estimate_table:
  "list_all (\<lambda>l. let t = l * 1233 div 4096 in t < 20 \<and> (0 < t \<longrightarrow> 10 ^ (t - 1) \<le> (2 :: nat) ^ (l - 1)) \<and> (2 :: nat) ^ l \<le> 10 ^ (t + 1)) [1..<65]"
  by (simp add: upt_rec Let_def)

lemma pow10_table:
  assumes "t < 20"
  shows "pow10Uint64 ! t = word_of_nat (10 ^ t)"
proof -
  have p: "pow10Uint64 = map (\<lambda>t. 10 ^ t) [0..<20]" by code_simp
  have "pow10Uint64 ! t = 10 ^ ([0..<20] ! t)" unfolding p by (rule nth_map) (use assms in simp)
  moreover have "[0..<20] ! t = t" using nth_upt [of 0 t 20] assms by (simp only: add_0)
  ultimately show ?thesis by simp
qed

lemma digitCount_length:
  assumes "0 < n" "n < 2 ^ 64"
  shows "digitCount (word_of_nat n) = length (decimal n)"
proof -
  define l where "l = bit_length n"
  define t where "t = l * 1233 div 4096"
  have "(2 :: nat) ^ (l - 1) < 2 ^ 64" using bit_length_bounds(2) [OF assms(1)] assms(2) unfolding l_def by (rule le_less_trans)
  then have "l - 1 < 64" by (simp only: power_strict_increasing_iff)
  moreover have "0 < l" using bit_length_bounds(3) [of n] assms(1) by (simp add: l_def)
  ultimately have "l \<in> set [1..<65]" by simp
  then have b: "t < 20" "0 < t \<Longrightarrow> 10 ^ (t - 1) \<le> (2 :: nat) ^ (l - 1)" "(2 :: nat) ^ l \<le> 10 ^ (t + 1)"
    using estimate_table by (auto simp: list_all_iff t_def Let_def)
  have u: "n < 10 ^ (t + 1)" "0 < t \<Longrightarrow> 10 ^ (t - 1) \<le> n"
    using bit_length_bounds(1,2) [of n] assms(1) b(2,3) unfolding l_def [symmetric] by (auto intro: less_le_trans order_trans)
  have "(10 :: nat) ^ t \<le> 10 ^ 19" using b(1) by (intro power_increasing) simp_all
  then have p: "(10 :: nat) ^ t < 2 ^ 64" by simp
  have c: "digitCount (word_of_nat n) = (if n < 10 ^ t then t else t + 1)"
    using unat64 [OF p] assms(2) pow10_table [OF b(1)]
    by (simp del: of_nat_power add: digitCount_def Len64_def l_def [symmetric] drop_bit_eq_div t_def [symmetric] Let_def word_less_nat_alt)
  show ?thesis
  proof (cases "n < 10 ^ t")
    case True
    then have "0 < t" using assms(1) by (cases t) simp_all
    then show ?thesis using c True decimal_width [of n t] u(2) by simp
  next
    case False
    then show ?thesis using c decimal_width [of n "t + 1"] u(1) by simp
  qed
qed

lemma digit_pairs: "encodeDigitPairs = concat (map (fixed 2) [0..<100])"
  by (simp add: encodeDigitPairs_def upt_rec numeral_2_eq_2)

lemma concat_pairs: "(\<And>k. length (f k) = 2) \<Longrightarrow> p < n \<Longrightarrow> j < 2 \<Longrightarrow> concat (map f [0..<n]) ! (2 * p + j) = f p ! j"
proof (induction n)
  case (Suc n)
  have l: "length (concat (map f [0..<n])) = 2 * n" using Suc.prems(1) by (induction n) simp_all
  then show ?case using Suc by (cases "p = n") (simp_all add: nth_append)
qed simp

lemma digit_pair:
  assumes "p < 100"
  shows "[encodeDigitPairs ! (p * 2), encodeDigitPairs ! (p * 2 + 1)] = fixed 2 p"
proof -
  have "encodeDigitPairs ! (2 * p + j) = fixed 2 p ! j" if "j < 2" for j
    unfolding digit_pairs using concat_pairs [of "fixed 2" p 100 j] assms that by simp
  note this [of 0] this [of 1]
  moreover have "fixed 2 p = [fixed 2 p ! 0, fixed 2 p ! 1]" by (simp add: numeral_2_eq_2)
  ultimately show ?thesis by (simp add: mult.commute)
qed

lemma storeCompactDigitPair_eq: "p < 100 \<Longrightarrow> storeCompactDigitPair dst i (word_of_nat p) = store_slice dst i (fixed 2 p)"
  using digit_pair [of p] by (simp add: storeCompactDigitPair_def)

lemma store_at_append: "i = length a \<Longrightarrow> length b = length xs \<Longrightarrow> store_at (a @ b @ c) i xs = a @ xs @ c"
  by (simp add: store_at_def)

lemma extend_slice_some: "n \<le> length (spare dst) \<Longrightarrow>
    extend_slice dst n = Some \<lparr>contents = contents dst @ take n (spare dst), spare = drop n (spare dst)\<rparr>"
  by (simp add: extend_slice_def)

text \<open>Extending a slice and filling the extension is an append.\<close>

lemma fill_extension:
  assumes "length xs \<le> length (spare dst)"
  shows "Option.bind (extend_slice dst (length xs)) (\<lambda>d. Some (store_slice d (length (contents dst)) xs)) = Some (append_slice fresh dst xs)"
  using assms store_at_append [of _ "contents dst" "take (length xs) (spare dst)" xs "[]"]
  by (simp add: extend_slice_some append_slice_def store_slice_def)

subsection \<open>Two digits per store\<close>

lemma fixed2_step: "fixed (2 * Suc k) n = fixed 2 (n div 100 ^ k mod 100) @ fixed (2 * k) n"
proof -
  have "fixed 2 (m mod 100) = fixed 2 m" for m using fixed_mod [of 2 m] by simp
  moreover have "(100 :: nat) ^ k = 10 ^ (2 * k)" by (simp add: power_mult)
  ultimately show ?thesis using fixed_add [of 2 "2 * k" n] by simp
qed

lemma pairStep_run:
  assumes "n < 2 ^ 64" "2 * k \<le> length g"
  shows "(pairStep ^^ k) (\<lparr>contents = a @ g, spare = sp\<rparr>, length a + length g, word_of_nat n) =
     (\<lparr>contents = a @ take (length g - 2 * k) g @ fixed (2 * k) n, spare = sp\<rparr>, length a + (length g - 2 * k), word_of_nat (n div 100 ^ k))"
  using assms(2)
proof (induction k)
  case (Suc k)
  define m where "m = n div 100 ^ k"
  define r where "r = length g - 2 * Suc k"
  have m: "m < 2 ^ 64" using assms(1) unfolding m_def by (rule le_less_trans [OF div_le_dividend])
  have r: "length g - 2 * k = r + 2" "r + 2 \<le> length g" using Suc.prems by (simp_all add: r_def)
  define gap where "gap = take 2 (drop r g)"
  have t: "take (r + 2) g = take r g @ gap" "length gap = 2" using r(2) unfolding gap_def take_add by simp_all
  have w: "word_of_nat m mod 100 = (word_of_nat (m mod 100) :: 64 word)" "word_of_nat m div 100 = (word_of_nat (m div 100) :: 64 word)"
    using nat64_mod [OF m, of 100] nat64_div [OF m, of 100] by simp_all
  have st: "store_at (a @ take (r + 2) g @ fixed (2 * k) n) (length a + r) (fixed 2 (m mod 100)) = a @ take r g @ fixed (2 * Suc k) n"
    using store_at_append [of "length a + r" "a @ take r g" gap "fixed 2 (m mod 100)" "fixed (2 * k) n"] r(2) t(2)
    unfolding t(1) fixed2_step m_def [symmetric] by simp
  have "(pairStep ^^ Suc k) (\<lparr>contents = a @ g, spare = sp\<rparr>, length a + length g, word_of_nat n) =
     pairStep (\<lparr>contents = a @ take (r + 2) g @ fixed (2 * k) n, spare = sp\<rparr>, length a + (r + 2), word_of_nat m)"
    using Suc by (simp only: funpow.simps comp_apply m_def r(1)) simp
  also have "\<dots> = (store_slice \<lparr>contents = a @ take (r + 2) g @ fixed (2 * k) n, spare = sp\<rparr> (length a + r) (fixed 2 (m mod 100)),
      length a + r, word_of_nat (m div 100))"
    by (simp only: pairStep_def prod.case Let_def w storeCompactDigitPair_eq mod_less_divisor zero_less_numeral) simp
  finally show ?case using st unfolding r_def [symmetric] by (simp add: store_slice_def m_def div_mult2_eq [symmetric] mult.commute)
qed simp

lemma fill_extension2:
  assumes "length xs + length ys \<le> length (spare dst)"
  shows "Option.bind (extend_slice dst (length xs + length ys)) (\<lambda>d. Some (store_slice (store_slice d (length (contents dst)) xs) (length (contents dst) + length xs) ys))
     = Some (append_slice fresh dst (xs @ ys))"
proof -
  define g where "g = take (length ys) (drop (length xs) (spare dst))"
  have t: "take (length xs + length ys) (spare dst) = take (length xs) (spare dst) @ g" "length g = length ys" "length (take (length xs) (spare dst)) = length xs"
    using assms unfolding g_def take_add by simp_all
  show ?thesis
    using assms t(2,3) store_at_append [of "length (contents dst)" "contents dst" "take (length xs) (spare dst)" xs g]
      store_at_append [of "length (contents dst) + length xs" "contents dst @ xs" g ys "[]"]
    by (simp add: extend_slice_some append_slice_def store_slice_def t(1))
qed

lemma digit_byte_word: "ch_0 + ucast (word_of_nat m :: 64 word) = ch_0 + of_nat m"
  by (rule arg_cong [where f = "(+) ch_0"], rule bit_word_eqI) (simp add: bit_simps)

lemma fixed_1: "m < 10 \<Longrightarrow> fixed 1 m = [ch_0 + of_nat m]"
  by simp

text \<open>The switch leaves one or two leading digits.\<close>

lemma pairCases_rest:
  assumes "100 \<le> n" "n < 10 ^ 8"
  defines "d \<equiv> length (decimal n)" and "k \<equiv> pairCases (word_of_nat n)"
  shows "2 * k < d" "d \<le> 2 * k + 2" "n div 100 ^ k < 10 \<longleftrightarrow> d = 2 * k + 1" "n div 100 ^ k < 100"
proof -
  have b: "n < 10 ^ d" "10 ^ (d - 1) \<le> n" using decimal_bounds [of n] assms(1) by (simp_all add: d_def)
  have w: "c \<le> word_of_nat n \<longleftrightarrow> unat c \<le> n" for c :: "64 word" using assms(2) by (simp add: word_le_nat_alt)
  have k: "k = (if n \<ge> 1000000 then 3 else if n \<ge> 10000 then 2 else 1)" using assms(1,2) by (simp add: k_def pairCases_def w)
  have up: "d \<le> m" if "n < 10 ^ m" for m
  proof -
    have "(10 :: nat) ^ (d - 1) < 10 ^ m" using b(2) that by (rule le_less_trans)
    then show ?thesis by (simp only: power_strict_increasing_iff)
  qed
  have lo: "m < d" if "10 ^ m \<le> n" for m
  proof -
    have "(10 :: nat) ^ m < 10 ^ d" using that b(1) by (rule le_less_trans)
    then show ?thesis by (simp only: power_strict_increasing_iff)
  qed
  have e: "(100 :: nat) ^ k = 10 ^ (2 * k)" by (simp add: power_mult)
  show "2 * k < d" using k assms(1) by (intro lo) auto
  then have "n div 100 ^ k < 10 \<longleftrightarrow> n < 10 ^ (2 * k + 1)" by (simp add: e div_less_iff_less_mult)
  also have "\<dots> \<longleftrightarrow> d = 2 * k + 1" using up [of "2 * k + 1"] lo [of "2 * k + 1"] \<open>2 * k < d\<close> b(1) by (metis Suc_eq_plus1 Suc_leI le_antisym not_le not_less_iff_gr_or_eq)
  finally show "n div 100 ^ k < 10 \<longleftrightarrow> d = 2 * k + 1" .
  show "d \<le> 2 * k + 2" using k assms(2) by (intro up) auto
  show "n div 100 ^ k < 100" using k assms(2) by (auto simp: div_less_iff_less_mult)
qed

lemma switch_result:
  assumes "100 \<le> n" "n < 10 ^ 8" "length (decimal n) \<le> length (spare dst)"
  shows "Option.bind (extend_slice dst (length (decimal n))) (\<lambda>dst.
     let (dst, i, v) = (pairStep ^^ pairCases (word_of_nat n)) (dst, length (contents dst), word_of_nat n) in
     if v \<ge> 10 then Some (storeCompactDigitPair dst (i - 2) v)
     else Some (store_slice dst (i - 1) [ch_0 + ucast v])) = Some (append_slice fresh dst (decimal n))"
proof -
  define d k where "d = length (decimal n)" and "k = pairCases (word_of_nat n)"
  define m where "m = n div 100 ^ k"
  define g where "g = take (d - 2 * k) (take d (spare dst))"
  define c where "c = \<lparr>contents = contents dst @ g @ fixed (2 * k) n, spare = drop d (spare dst)\<rparr>"
  note r = pairCases_rest [OF assms(1,2), folded d_def k_def, folded m_def]
  have l: "length (take d (spare dst)) = d" "length g = d - 2 * k" using assms(3) by (simp_all add: d_def g_def)
  have run: "(pairStep ^^ k) (\<lparr>contents = contents dst @ take d (spare dst), spare = drop d (spare dst)\<rparr>,
      length (contents dst @ take d (spare dst)), word_of_nat n) = (c, length (contents dst) + (d - 2 * k), word_of_nat m)"
    using pairStep_run [of n k "take d (spare dst)" "contents dst" "drop d (spare dst)"] assms(2) r(1) l
    by (simp add: c_def g_def m_def)
  have f: "decimal n = fixed (d - 2 * k) m @ fixed (2 * k) n"
    using decimal_is_fixed [of n] fixed_add [of "d - 2 * k" "2 * k" n] r(1) by (simp add: d_def [symmetric] m_def power_mult)
  have st: "store_slice c (length (contents dst)) (fixed (d - 2 * k) m) = append_slice fresh dst (decimal n)"
    using store_at_append [of "length (contents dst)" "contents dst" g "fixed (d - 2 * k) m" "fixed (2 * k) n"] l assms(3) r(1)
    unfolding f by (simp add: c_def store_slice_def append_slice_def d_def [symmetric])
  have "word_of_nat m \<ge> (10 :: 64 word) \<longleftrightarrow> 10 \<le> m" using r(4) by (simp add: word_le_nat_alt)
  then have "(if word_of_nat m \<ge> (10 :: 64 word) then storeCompactDigitPair c (length (contents dst) + (d - 2 * k) - 2) (word_of_nat m)
      else store_slice c (length (contents dst) + (d - 2 * k) - 1) [ch_0 + ucast (word_of_nat m :: 64 word)]) = append_slice fresh dst (decimal n)"
  proof (cases "10 \<le> m")
    case True
    then have "d - 2 * k = 2" using r by auto
    then show ?thesis using st True \<open>_ \<longleftrightarrow> 10 \<le> m\<close> storeCompactDigitPair_eq [OF r(4)] by simp
  next
    case False
    then have "d - 2 * k = 1" "m < 10" using r(3) by auto
    then show ?thesis using st False \<open>_ \<longleftrightarrow> 10 \<le> m\<close> by (simp only: if_False fixed_1 digit_byte_word add_diff_cancel_right')
  qed
  then show ?thesis
    using run assms(3) by (simp add: extend_slice_some d_def [symmetric] k_def [symmetric] split: if_splits)
qed

subsection \<open>The formatter writes decimal notation\<close>

text \<open>A number split at the eighth or sixteenth digit, as words.\<close>

lemma split_word:
  assumes "n < 2 ^ 64" "0 < b" "b < 2 ^ 64"
  shows "word_of_nat n div word_of_nat b = (word_of_nat (n div b) :: 64 word)"
    "word_of_nat n - word_of_nat (n div b) * word_of_nat b = (word_of_nat (n mod b) :: 64 word)"
proof -
  show "word_of_nat n div word_of_nat b = (word_of_nat (n div b) :: 64 word)" using assms by (simp add: nat64_div)
  have "n mod b = n - n div b * b" by (simp add: minus_div_mult_eq_mod)
  then show "word_of_nat n - word_of_nat (n div b) * word_of_nat b = (word_of_nat (n mod b) :: 64 word)"
    by (simp only: nat64_mult nat64_diff div_times_less_eq_dividend)
qed

lemma decimal_split:
  assumes "length (decimal n) = k + j"
  shows "decimal n = fixed k (n div 10 ^ j) @ fixed j (n mod 10 ^ j)"
  using decimal_is_fixed [of n] unfolding assms fixed_add fixed_mod .

lemma appendCompactUint9_eq:
  assumes "10 ^ 8 \<le> n" "n < 10 ^ 9"
  shows "appendCompactUint9 fresh dst (word_of_nat n) = Some (append_slice fresh dst (decimal n))"
proof (cases "length (spare dst) < 9")
  case True
  then show ?thesis using assms(2) by (simp add: appendCompactUint9_def AppendUint_def)
next
  case False
  have "length (decimal n) = 1 + 8" using decimal_width [of n 9] assms by simp
  from decimal_split [OF this] have d: "decimal n = fixed 1 (n div 10 ^ 8) @ fixed 8 (n mod 10 ^ 8)" .
  have h: "n div 10 ^ 8 < 10" using assms(2) by (simp add: div_less_iff_less_mult)
  have w: "word_of_nat n div 100000000 = (word_of_nat (n div 10 ^ 8) :: 64 word)"
    "word_of_nat n - word_of_nat (n div 10 ^ 8) * 100000000 = (word_of_nat (n mod 10 ^ 8) :: 64 word)"
    using split_word [of n "10 ^ 8"] assms(2) by simp_all
  have o: "length (contents d) - 9 = length (contents dst)"
    "length (contents (store_slice d (length (contents dst)) [x])) - 8 = length (contents dst) + 1"
    if "extend_slice dst 9 = Some d" for d x
    using False that by (auto simp: extend_slice_def store_slice_def store_at_def)
  then show ?thesis
    using fill_extension2 [of "fixed 1 (n div 10 ^ 8)" "fixed 8 (n mod 10 ^ 8)" dst fresh] False
    unfolding appendCompactUint9_def Let_def w digit_byte_word d fixed_1 [OF h]
    by (cases "extend_slice dst 9") (simp_all add: Store8Digits_fixed o)
qed

lemma appendCompactUint10_eq:
  assumes "10 ^ 9 \<le> n" "n < 10 ^ 10"
  shows "appendCompactUint10 fresh dst (word_of_nat n) = Some (append_slice fresh dst (decimal n))"
proof (cases "length (spare dst) < 10")
  case True
  then show ?thesis using assms(2) by (simp add: appendCompactUint10_def AppendUint_def)
next
  case False
  have "length (decimal n) = 2 + 8" using decimal_width [of n 10] assms by simp
  from decimal_split [OF this] have d: "decimal n = fixed 2 (n div 10 ^ 8) @ fixed 8 (n mod 10 ^ 8)" .
  have h: "n div 10 ^ 8 < 100" using assms(2) by (simp add: div_less_iff_less_mult)
  have w: "word_of_nat n div 100000000 = (word_of_nat (n div 10 ^ 8) :: 64 word)"
    "word_of_nat n - word_of_nat (n div 10 ^ 8) * 100000000 = (word_of_nat (n mod 10 ^ 8) :: 64 word)"
    using split_word [of n "10 ^ 8"] assms(2) by simp_all
  show ?thesis
    using fill_extension2 [of "fixed 2 (n div 10 ^ 8)" "fixed 8 (n mod 10 ^ 8)" dst fresh] False
    unfolding appendCompactUint10_def Let_def w d storeCompactDigitPair_eq [OF h]
    by (simp add: Store8Digits_fixed)
qed

lemma less_nat64: "n < 2 ^ 64 \<Longrightarrow> word_of_nat n < (c :: 64 word) \<longleftrightarrow> n < unat c" "n < 2 ^ 64 \<Longrightarrow> c \<le> word_of_nat n \<longleftrightarrow> unat c \<le> n"
  by (simp_all add: word_less_nat_alt word_le_nat_alt)

lemma appendCompactUint_below_100:
  assumes "n < 100"
  shows "decimal n = (if n < 10 then [ch_0 + ucast (word_of_nat n :: 64 word)]
    else [encodeDigitPairs ! unat (word_of_nat n * 2 :: 64 word), encodeDigitPairs ! unat (word_of_nat n * 2 + 1 :: 64 word)])"
proof (cases "n < 10")
  case True
  then show ?thesis by (simp only: digit_byte_word decimal_single if_True)
next
  case False
  have "word_of_nat n * 2 = (word_of_nat (n * 2) :: 64 word)" "word_of_nat n * 2 + 1 = (word_of_nat (n * 2 + 1) :: 64 word)" by simp_all
  then have "unat (word_of_nat n * 2 :: 64 word) = n * 2" "unat (word_of_nat n * 2 + 1 :: 64 word) = n * 2 + 1"
    using assms unat64 [of "n * 2"] unat64 [of "n * 2 + 1"] by (simp_all only:) simp_all
  then show ?thesis using False digit_pair [OF assms] decimal_fixed [of n 1] assms by (simp add: numeral_2_eq_2)
qed

lemma appendCompactUint_small:
  assumes "n < 10 ^ 10"
  shows "appendCompactUint fresh dst (word_of_nat n) = Some (append_slice fresh dst (decimal n))"
proof -
  have b: "n < 2 ^ 64" using assms by simp
  note less = less_nat64 [OF b]
  consider "n < 100" | "100 \<le> n" "n < 10 ^ 8" | "10 ^ 8 \<le> n" "n < 10 ^ 9" | "10 ^ 9 \<le> n" by linarith
  then show ?thesis
  proof cases
    case 1
    then show ?thesis using appendCompactUint_below_100 [OF 1] by (simp add: appendCompactUint.simps [of fresh dst] less)
  next
    case 2
    define d where "d = length (decimal n)"
    have dc: "digitCount (word_of_nat n) = d" using digitCount_length [of n] 2(1) b by (simp add: d_def)
    show ?thesis
    proof (cases "length (spare dst) < d")
      case True
      then show ?thesis using 2 dc b by (simp add: appendCompactUint.simps [of fresh dst] less AppendUint_def Let_def)
    next
      case False
      note sw = switch_result [OF 2, of dst fresh, folded d_def]
      have "decimal n = fixed 8 n" if "d = 8" using decimal_is_fixed [of n] that by (simp add: d_def)
      moreover have "appendCompactUint fresh dst (word_of_nat n) =
        (if d = 8 then Option.bind (extend_slice dst 8) (\<lambda>d. Some (store_slice d (length (contents dst)) (Store8Digits (word_of_nat n))))
         else Some (append_slice fresh dst (decimal n)))"
        using 2 dc False sw by (simp add: appendCompactUint.simps [of fresh dst] less Let_def cong: if_cong)
      ultimately show ?thesis using fill_extension [of "fixed 8 n" dst fresh] Store8Digits_fixed [OF 2(2)] False by simp
    qed
  next
    case 3
    then show ?thesis using appendCompactUint9_eq [OF 3] by (simp add: appendCompactUint.simps [of fresh dst] less)
  next
    case 4
    then show ?thesis using appendCompactUint10_eq [OF 4 assms] assms by (simp add: appendCompactUint.simps [of fresh dst] less)
  qed
qed

lemma append_slice_twice:
  "length xs + length ys \<le> length (spare dst) \<Longrightarrow>
     append_slice fresh (append_slice fresh dst xs) ys = append_slice fresh dst (xs @ ys)"
  by (auto simp: append_slice_def add.commute)

lemma appendCompactUintLarge_eq:
  assumes "10 ^ 10 \<le> n" "n < 2 ^ 64"
  shows "appendCompactUintLarge fresh dst (word_of_nat n) = Some (append_slice fresh dst (decimal n))"
proof -
  note less = less_nat64 [OF assms(2)]
  define d where "d = length (decimal n)"
  have dc: "digitCount (word_of_nat n) = d" using digitCount_length [of n] assms by (simp add: d_def)
  consider "length (spare dst) < d" | "d \<le> length (spare dst)" "n < 10 ^ 16" | "d \<le> length (spare dst)" "10 ^ 16 \<le> n" by linarith
  then show ?thesis
  proof cases
    case 1
    then show ?thesis using dc assms(2) by (simp add: appendCompactUintLarge.simps AppendUint_def Let_def)
  next
    case 2
    have "10 ^ (d - 1) \<le> n" using decimal_bounds(2) [of n] assms(1) by (simp add: d_def)
    then have "(10 :: nat) ^ (d - 1) < 10 ^ 16" using 2(2) by (rule le_less_trans)
    then have "d - 1 < 16" by (simp only: power_strict_increasing_iff)
    then have "drop (16 - d) (Store16Digits (word_of_nat n)) = decimal n"
      using drop_fixed [of d 16 n] Store16Digits_fixed [OF 2(2)] decimal_is_fixed [of n] by (simp add: d_def)
    then show ?thesis using 2 dc by (simp add: appendCompactUintLarge.simps less Let_def)
  next
    case 3
    define h where "h = n div 10 ^ 16"
    have "n < 1845 * 10 ^ 16" using assms(2) by simp
    then have h: "h < 1845" by (simp add: h_def div_less_iff_less_mult)
    have w: "word_of_nat n div 10000000000000000 = (word_of_nat h :: 64 word)"
      "word_of_nat n - word_of_nat h * 10000000000000000 = (word_of_nat (n mod 10 ^ 16) :: 64 word)"
      using split_word [of n "10 ^ 16"] assms(2) by (simp_all add: h_def)
    have b: "10 ^ (d - 1) \<le> n" "n < 10 ^ d" using decimal_bounds [of n] assms(1) by (simp_all add: d_def)
    have "(10 :: nat) ^ 16 < 10 ^ d" using 3(2) b(2) by (rule le_less_trans)
    then have "16 < d" by (simp only: power_strict_increasing_iff)
    then obtain k where k: "d = k + 16" "0 < k" by (metis less_imp_add_positive add.commute)
    have "decimal h = fixed k h"
    proof -
      have "h < 10 ^ k" using b(2) by (simp add: h_def k(1) power_add div_less_iff_less_mult)
      moreover have "10 ^ (k - 1) * 10 ^ 16 \<le> n" proof -
        have "d - 1 = (k - 1) + 16" using k by simp
        then show ?thesis using b(1) by (simp only: power_add)
      qed
      then have "10 ^ (k - 1) \<le> h" by (simp add: h_def less_eq_div_iff_mult_less_eq)
      ultimately have "length (decimal h) = k" using k(2) by (rule decimal_width)
      then show ?thesis using decimal_is_fixed [of h] by simp
    qed
    then have n: "decimal n = decimal h @ fixed 16 (n mod 10 ^ 16)" "length (decimal h) = k"
      using decimal_split [of n k 16] k(1) by (simp_all add: d_def h_def)
    define e where "e = append_slice fresh dst (decimal h)"
    have "appendCompactUintLarge fresh dst (word_of_nat n) =
      Option.bind (extend_slice e 16) (\<lambda>d. Some (store_slice d (length (contents e)) (Store16Digits (word_of_nat (n mod 10 ^ 16)))))"
      using 3 dc appendCompactUint_small [of h fresh dst] h
      by (simp add: appendCompactUintLarge.simps [of fresh dst] less Let_def w e_def)
    also have "\<dots> = Some (append_slice fresh e (fixed 16 (n mod 10 ^ 16)))"
      using fill_extension [of "fixed 16 (n mod 10 ^ 16)" e fresh] Store16Digits_fixed [of "n mod 10 ^ 16"] 3(1) k n(2)
      by (auto simp: e_def append_slice_def)
    finally show ?thesis unfolding e_def n(1) using append_slice_twice [of "decimal h" "fixed 16 (n mod 10 ^ 16)" dst fresh] 3(1) k n(2) by simp
  qed
qed

lemma appendCompactUint_eq:
  "appendCompactUint fresh dst v = Some (append_slice fresh dst (decimal (unat v)))"
proof -
  define n where "n = unat v"
  have v: "v = word_of_nat n" "n < 2 ^ 64" using unsigned_less [of v] by (simp_all add: n_def)
  show ?thesis
  proof (cases "n < 10 ^ 10")
    case True
    then show ?thesis using appendCompactUint_small [OF True] v by simp
  next
    case False
    then have "appendCompactUint fresh dst (word_of_nat n) = appendCompactUintLarge fresh dst (word_of_nat n)"
      by (simp add: appendCompactUint.simps [of fresh dst] less_nat64 [OF v(2)])
    then show ?thesis using appendCompactUintLarge_eq [of n] False v by simp
  qed
qed

subsection \<open>The entry points\<close>

lemma contents_append [simp]: "contents (append_slice fresh dst xs) = contents dst @ xs"
  by (simp add: append_slice_def)

lemma appendCommaCompactUint_eq:
  "map_option contents (appendCommaCompactUint fresh dst v) = Some (contents dst @ ch_comma # decimal (unat v))"
proof -
  define n where "n = unat v"
  have v: "v = word_of_nat n" "n < 2 ^ 64" using unsigned_less [of v] by (simp_all add: n_def)
  note less = less_nat64 [OF v(2)]
  define d where "d = length (decimal n)"
  consider "n < 100" | "100 \<le> n" "10 ^ 16 \<le> n \<or> length (spare dst) < d + 1" | "100 \<le> n" "n < 10 ^ 16" "d + 1 \<le> length (spare dst)" by linarith
  then show ?thesis
  proof cases
    case 1
    then show ?thesis using appendCompactUint_below_100 [OF 1] v by (simp add: appendCommaCompactUint_def less)
  next
    case 2
    then have "digitCount (word_of_nat n) = d" using digitCount_length [of n] v(2) by (simp add: d_def)
    with 2 show ?thesis using v(2) unfolding v(1) by (auto simp: appendCommaCompactUint_def less appendCompactUint_eq Let_def)
  next
    case 3
    then have dc: "digitCount (word_of_nat n) = d" using digitCount_length [of n] v(2) by (simp add: d_def)
    have "10 ^ (d - 1) \<le> n" using decimal_bounds(2) [of n] 3(1) by (simp add: d_def)
    then have "(10 :: nat) ^ (d - 1) < 10 ^ 16" using 3(2) by (rule le_less_trans)
    then have "d - 1 < 16" by (simp only: power_strict_increasing_iff)
    then have f: "drop (16 - d) (Store16Digits (word_of_nat n)) = decimal n"
      using drop_fixed [of d 16 n] Store16Digits_fixed [OF 3(2)] decimal_is_fixed [of n] by (simp add: d_def)
    have "appendCommaCompactUint fresh dst v = Some (append_slice fresh dst ([ch_comma] @ decimal n))"
      using 3 dc f fill_extension2 [of "[ch_comma]" "decimal n" dst fresh] unfolding v(1)
      by (simp add: appendCommaCompactUint_def less d_def Let_def)
    then show ?thesis using v by simp
  qed
qed

text \<open>The text of a signed value.\<close>

definition int_decimal :: "int \<Rightarrow> bytes" where
  "int_decimal n = (if n < 0 then ch_minus # decimal (nat (- n)) else decimal (nat n))"

lemma unat_signed: "sint v < 0 \<Longrightarrow> unat (- v :: 64 word) = nat (- sint v)" "\<not> sint v < 0 \<Longrightarrow> unat (v :: 64 word) = nat (sint v)"
proof -
  have u1: "uint v = sint v mod 2 ^ 64" by (simp add: uint_sint take_bit_eq_mod)
  have "uint (- v) = (- uint v) mod 2 ^ 64" by (simp only: uint_word_ariths) simp
  then have u2: "uint (- v) = (- sint v) mod 2 ^ 64" unfolding u1 mod_minus_eq .
  have b: "- (2 ^ 63) \<le> sint v" "sint v < 2 ^ 63" using sint_ge [of v] sint_lt [of v] by simp_all
  show "\<not> sint v < 0 \<Longrightarrow> unat v = nat (sint v)" using u1 b by (simp add: unat_eq_nat_uint)
  show "sint v < 0 \<Longrightarrow> unat (- v) = nat (- sint v)" using u2 b by (simp add: unat_eq_nat_uint)
qed

text \<open>C34: \<^verbatim>\<open>appendCompactUint\<close> and \<^verbatim>\<open>appendCompactUintLarge\<close> append the decimal notation of every 64-bit value, whatever
  the spare capacity and its stale bytes are: no reslice panics, and when the capacity suffices the output
  stays in place with the rest of the capacity untouched.\<close>

theorem appendCompactUint_decimal:
  "appendCompactUint fresh dst v = Some (append_slice fresh dst (decimal (unat v)))"
  by (rule appendCompactUint_eq)

text \<open>The functions \<^verbatim>\<open>appendCompactInt\<close>, \<^verbatim>\<open>appendCommaCompactUint\<close> and \<^verbatim>\<open>appendCommaCompactInt\<close> append the shortest decimal
  notation of the value, the smallest negative one included, after the comma where they write one.\<close>

theorem appendCompact_texts:
  "map_option contents (appendCompactInt fresh dst v) = Some (contents dst @ int_decimal (sint v))
   \<and> map_option contents (appendCommaCompactInt fresh dst v) = Some (contents dst @ ch_comma # int_decimal (sint v))
   \<and> map_option contents (appendCommaCompactUint fresh dst v) = Some (contents dst @ ch_comma # decimal (unat v))"
  using unat_signed [of v] appendCommaCompactUint_eq [of fresh dst v]
  by (auto simp: appendCompactInt_def appendCommaCompactInt_def appendCompactUint_eq int_decimal_def)

subsection \<open>Writing and reading back\<close>

lemma digit_of_nat: "n < 10 \<Longrightarrow> unat (ch_0 + of_nat n) = 48 + n"
  by (simp add: unat_word_ariths unat_of_nat)

lemma decimal_reads: "digits_value (decimal n) = n \<and> list_all IsDigit (decimal n)"
proof (induction n rule: decimal.induct)
  case (1 n)
  have d: "IsDigit (ch_0 + of_nat m) \<and> digits_value [ch_0 + of_nat m] = m" if "m < 10" for m
    using digit_of_nat [OF that] that by (simp add: IsDigit_def digits_value_def word_le_nat_alt)
  show ?case
  proof (cases "n < 10")
    case True
    then show ?thesis using d [OF True] by (simp add: decimal.simps [of n])
  next
    case False
    then show ?thesis using "1.IH" d [of "n mod 10"] by (simp add: decimal.simps [of n] digits_value_append)
  qed
qed

lemma decimal_leading: "0 < n \<Longrightarrow> isOneNine (hd (decimal n))"
proof (induction n rule: decimal.induct)
  case (1 n)
  show ?case
  proof (cases "n < 10")
    case True
    then show ?thesis using digit_of_nat [OF True] 1(2) by (simp add: decimal.simps [of n] isOneNine_def word_le_nat_alt)
  next
    case False
    then have "isOneNine (hd (decimal (n div 10)))" using 1(1) by simp
    then show ?thesis using False decimal_bounds(3) by (simp add: decimal.simps [of n] hd_append)
  qed
qed

lemma num_int_decimal: "num_int (decimal n)"
proof (cases "n = 0")
  case True
  then show ?thesis by (simp add: decimal.simps num_int_def)
next
  case False
  then show ?thesis using decimal_leading [of n] decimal_reads [of n] decimal_bounds(3) [of n]
    by (cases "decimal n") (auto simp: num_int_def)
qed

lemma int_decimal_reads: "json_integer (int_decimal n)" "int_text (int_decimal n) = n"
  using num_int_decimal [of "nat n"] num_int_decimal [of "nat (- n)"] num_int_digits [OF num_int_decimal [of "nat n"]]
    decimal_reads [of "nat n"] decimal_reads [of "nat (- n)"]
  by (auto simp: int_decimal_def json_integer_def int_text_def)

text \<open>C35: What \<^verbatim>\<open>appendCompactInt\<close> and \<^verbatim>\<open>appendCompactUint\<close> write, \<^verbatim>\<open>RawValue.Int64\<close> and \<^verbatim>\<open>RawValue.Uint64\<close> read back to the same 64-bit value.\<close>

theorem integer_round_trip:
  "map_option (RawValue_Int64 \<circ> contents) (appendCompactInt fresh \<lparr>contents = [], spare = sp\<rparr> v) = Some (Some v)
   \<and> map_option (RawValue_Uint64 \<circ> contents) (appendCompactUint fresh \<lparr>contents = [], spare = sp\<rparr> v) = Some (Some v)"
proof -
  have "RawValue_Int64 (int_decimal (sint v)) = Some v"
    using sint_ge [of v] sint_lt [of v] by (simp add: RawValue_Int64_eq int_decimal_reads)
  moreover have "RawValue_Uint64 (decimal (unat v)) = Some v"
    using unsigned_less [of v] by (simp add: RawValue_Uint64_eq num_int_decimal decimal_reads)
  moreover have "map_option contents (appendCompactInt fresh \<lparr>contents = [], spare = sp\<rparr> v) = Some (int_decimal (sint v))"
    using unat_signed [of v] by (simp add: appendCompactInt_def appendCompactUint_eq int_decimal_def)
  ultimately show ?thesis by (auto simp: appendCompactUint_eq simp flip: option.map_comp)
qed

end
