(* ===== verification/EncodeCorrect.thy ===== *)
theory EncodeCorrect
  imports ShortStrings
begin

text \<open>
  The string encoder writes the reference encoding whatever short cut it takes, its output is a legal JSON string,
  and decoding that string gives the input back.
\<close>

subsection \<open>The stop sets\<close>

lemma stop_ascii: "b < 0x80 \<Longrightarrow> specialStop True html b = specialStop False html b"
  by (auto simp: specialStop_def hit_defs)

lemma stop_high: "\<not> b < 0x80 \<Longrightarrow> specialStop False html b \<and> \<not> specialStop True html b"
  by (auto simp: specialStop_def hit_defs word_less_nat_alt word_le_nat_alt word_unat_eq_iff)

lemma not_stop: "\<not> specialStop False html b \<Longrightarrow> b < 0x80"
  using stop_high by blast

subsection \<open>Steps of the reference\<close>

lemma encoded_nil [simp]: "encoded html [] = []"
  by (simp add: encoded.simps)

lemma encoded_ascii:
  "c < 0x80 \<Longrightarrow> encoded html (c # s) = (if specialStop False html c then asciiEscape c else [c]) @ encoded html s"
  by (subst encoded.simps) simp

lemma encoded_bad:
  "\<not> hd s < 0x80 \<Longrightarrow> DecodeRune s = (RuneError, 1) \<Longrightarrow> s \<noteq> [] \<Longrightarrow> encoded html s = encodeRune RuneError @ encoded html (tl s)"
  by (subst encoded.simps) simp

lemma encoded_good:
  "\<not> hd s < 0x80 \<Longrightarrow> DecodeRune s = (r, n) \<Longrightarrow> \<not> (r = RuneError \<and> n = 1) \<Longrightarrow> s \<noteq> []
    \<Longrightarrow> encoded html s = (if lineSeparator r then separatorEscape r else take n s) @ encoded html (drop n s)"
  by (subst encoded.simps) auto

lemma encoded_run: "\<forall>b \<in> set xs. \<not> specialStop False html b \<Longrightarrow> encoded html (xs @ ys) = xs @ encoded html ys"
proof (induction xs)
  case (Cons x xs)
  then show ?case using encoded_ascii [OF not_stop [of html x]] by simp
qed simp

lemma encoded_clean: "\<forall>b \<in> set s. \<not> specialStop False html b \<Longrightarrow> encoded html s = s"
  using encoded_run [of s html "[]"] by simp

lemma nextSpecial_run:
  assumes "i \<le> length s"
  shows "encoded html (drop i s) = subslice s i (nextSpecial False html s i) @ encoded html (drop (nextSpecial False html s i) s)"
proof -
  note p = nextSpecial_props [OF assms, where cl = False and html = html]
  have "\<forall>b \<in> set (subslice s i (nextSpecial False html s i)). \<not> specialStop False html b"
    using p by (auto simp: in_set_conv_nth slices)
  from encoded_run [OF this] show ?thesis using drop_slice [OF p(1), of s] by metis
qed

subsection \<open>The loop without the short cut\<close>

lemma slice_take: "start \<le> j \<Longrightarrow> subslice s start (j + n) = subslice s start j @ take n (drop j s)"
proof -
  assume "start \<le> j"
  then have "j + n - start = (j - start) + n" "drop j s = drop (j - start) (drop start s)" by simp_all
  then show ?thesis unfolding subslice_def by (simp only: take_add)
qed

lemma encodeLoop_reference:
  "start \<le> i \<Longrightarrow> i \<le> length s
    \<Longrightarrow> encodeLoop False html s dst start i = dst @ subslice s start i @ encoded html (drop i s) @ [ch_quote]"
proof (induction "length s - i" arbitrary: i start dst rule: less_induct)
  case less
  note IH = less.hyps and b = less.prems
  define j where "j = nextSpecial False html s i"
  note p = nextSpecial_props [OF b(2), where cl = False and html = html, folded j_def] and run = nextSpecial_run [OF b(2), of html, folded j_def]
  have join: "subslice s start i @ subslice s i j @ xs = subslice s start j @ xs" for xs
    using slice_append_slice [OF b(1) p(1), of s] by (metis append_assoc)
  have full: "drop start s = subslice s start i @ subslice s i j" if "\<not> j < length s"
    using that p(2) b join [of "[]"] by (simp add: subslice_def)
  show ?case
  proof (cases "i < length s")
    case False
    then show ?thesis using b by (subst encodeLoop.simps) (simp add: subslice_def)
  next
    case True
    note unfold = encodeLoop.simps [of False html s dst start i, unfolded if_P [OF True] Let_def, folded j_def]
    consider (out) "\<not> j < length s" | (ascii) "j < length s" "s ! j < 0x80" | (high) "j < length s" "\<not> s ! j < 0x80" by blast
    then show ?thesis
    proof cases
      case out
      then show ?thesis using full run p(2) unfolding unfold by simp
    next
      case ascii
      have d: "drop j s = s ! j # drop (j + 1) s" using ascii(1) by (simp add: Cons_nth_drop_Suc)
      have "encodeLoop False html s (dst @ subslice s start j @ asciiEscape (s ! j)) (j + 1) (j + 1)
          = (dst @ subslice s start j @ asciiEscape (s ! j)) @ encoded html (drop (j + 1) s) @ [ch_quote]"
        using IH [of "j + 1" "j + 1"] ascii True p(1) by simp
      then show ?thesis using ascii p(3) unfolding unfold run d by (simp add: encoded_ascii join)
    next
      case high
      obtain r n where r: "DecodeRune (drop j s) = (r, n)" by force
      have ne: "drop j s \<noteq> []" "\<not> hd (drop j s) < 0x80" using high by (simp_all add: hd_drop_conv_nth)
      show ?thesis
      proof (cases "r = RuneError \<and> n = 1")
        case bad: True
        have "encodeLoop False html s (AppendRune (dst @ subslice s start j) RuneError) (j + 1) (j + 1)
            = AppendRune (dst @ subslice s start j) RuneError @ encoded html (drop (j + 1) s) @ [ch_quote]"
          using IH [of "j + 1" "j + 1"] high True p(1) by simp
        then show ?thesis using high r bad encoded_bad [OF ne(2) _ ne(1), of html] unfolding unfold run
          by (simp add: AppendRune_def join tl_drop drop_Suc)
      next
        case good: False
        note t = DecodeRune_taken [OF r good ne(1)] and e = encoded_good [OF ne(2) r good ne(1), of html]
        have m: "length s - (j + n) < length s - i" "j + n \<le> length s" using t(3,4) high(1) p(1) True by auto
        have dd: "drop n (drop j s) = drop (j + n) s" by (simp add: add.commute)
        show ?thesis
        proof (cases "lineSeparator r")
          case True
          then show ?thesis using IH [OF m(1) order_refl m(2)] high(1) good high(2) e r unfolding unfold run dd
            by (auto simp: join)
        next
          case False
          then show ?thesis using IH [OF m(1) _ m(2), of start] b p(1) high(1) good high(2) e r slice_take [of start j s n]
            unfolding unfold run dd by (auto simp: join)
        qed
      qed
    qed
  qed
qed

subsection \<open>The loop over clean UTF-8\<close>

lemma separator_append: "separator_at r k \<Longrightarrow> separator_at (s @ r) (length s + k)"
  by (auto simp: separator_at_def lineSepAt_def nth_append add.assoc)

lemma utf8_seq_tail_high:
  assumes "utf8_seq s" "0 < k" "k < length s"
  shows "\<not> s ! k < 0x80"
proof -
  have "contByte (s ! k)" using assms(1)
  proof (cases rule: utf8_seq_cases)
    case (two a b)
    then show ?thesis using assms(2,3) by (auto simp: acceptSecond_def contByte_def word_le_nat_alt split: if_splits)
  next
    case (three a b c)
    then have "k = 1 \<or> k = 2" using assms(2,3) by auto
    then show ?thesis using three by (auto simp: acceptSecond_def contByte_def word_le_nat_alt split: if_splits)
  next
    case (four a b c d)
    then have "k = 1 \<or> k = 2 \<or> k = 3" using assms(2,3) by auto
    then show ?thesis using four by (auto simp: acceptSecond_def contByte_def word_le_nat_alt split: if_splits)
  qed (use assms in auto)
  then show ?thesis by (auto simp: contByte_def word_le_nat_alt word_less_nat_alt)
qed

lemma encoded_seq:
  assumes "utf8_seq s" "1 < length s" "\<not> separator_at (s @ r) 0"
  shows "encoded html (s @ r) = s @ encoded html r"
proof -
  obtain q n where q: "DecodeRune (s @ r) = (q, n)" by force
  have n: "n = length s" "\<not> (q = RuneError \<and> n = 1)" using DecodeRune_seq [OF assms(1), of r] q by (auto simp: badRune_def)
  have ne: "s @ r \<noteq> []" using assms(2) by auto
  have "\<not> lineSeparator q"
  proof
    assume "lineSeparator q"
    from DecodeRune_separator [OF q this ne] n have "s = [0xE2, 0x80, if q = 0x2028 then 0xA8 else 0xA9]" by simp
    with assms(3) show False by (auto simp: separator_at_def lineSepAt_def split: if_splits)
  qed
  moreover have "\<not> hd (s @ r) < 0x80"
  proof
    assume "hd (s @ r) < 0x80"
    then have "leadSize (s ! 0) = 1" using assms(2) by (auto simp: leadSize_def hd_append hd_conv_nth split: if_splits)
    with assms(1,2) show False by (auto simp: utf8_seq_def)
  qed
  ultimately show ?thesis using encoded_good [OF _ q n(2) ne, of html] n(1) by simp
qed

lemma encoded_clean_run:
  assumes "utf8 t" "\<And>k. \<not> separator_at t k" "m \<le> length t" "\<And>k. k < m \<Longrightarrow> \<not> specialStop True html (t ! k)"
    "m < length t \<Longrightarrow> t ! m < 0x80"
  shows "encoded html t = take m t @ encoded html (drop m t) \<and> utf8 (drop m t)"
  using assms
proof (induction arbitrary: m rule: utf8.induct)
  case utf8_nil
  then show ?case by (simp add: utf8.utf8_nil)
next
  case (utf8_cons s r)
  have sep: "\<not> separator_at r k" for k using utf8_cons.prems(1) separator_append by blast
  show ?case
  proof (cases "m = 0")
    case True
    then show ?thesis using utf8.utf8_cons [OF utf8_cons.hyps] by simp
  next
    case False
    have ls: "1 \<le> length s" using utf8_cons.hyps(1) by (cases s) (auto simp: utf8_seq_def)
    have le: "length s \<le> m"
    proof (rule ccontr)
      assume "\<not> length s \<le> m"
      with utf8_seq_tail_high [OF utf8_cons.hyps(1), of m] False utf8_cons.prems(4) show False by (simp add: nth_append)
    qed
    have first: "encoded html (s @ r) = s @ encoded html r"
    proof (cases "length s = 1")
      case True
      then obtain a where a: "s = [a]" by (auto simp: length_Suc_conv)
      have "leadSize a = 1" using utf8_cons.hyps(1) a by (simp add: utf8_seq_def)
      then have lt: "a < 0x80" by (auto simp: leadSize_def split: if_splits)
      have "\<not> specialStop False html a" using utf8_cons.prems(3) [of 0] False a stop_ascii [OF lt] by simp
      with a lt show ?thesis by (simp add: encoded_ascii)
    next
      case False
      then show ?thesis using encoded_seq [OF utf8_cons.hyps(1) _ utf8_cons.prems(1)] ls by simp
    qed
    have "encoded html r = take (m - length s) r @ encoded html (drop (m - length s) r) \<and> utf8 (drop (m - length s) r)"
    proof (rule utf8_cons.IH)
      show "\<not> specialStop True html (r ! k)" if "k < m - length s" for k
        using utf8_cons.prems(3) [of "length s + k"] that by (simp add: nth_append)
      show "r ! (m - length s) < 0x80" if "m - length s < length r"
        using utf8_cons.prems(4) that le by (simp add: nth_append)
    qed (use sep utf8_cons.prems(2) in auto)
    then show ?thesis using first le by simp
  qed
qed

lemma encodeLoop_clean:
  "start \<le> i \<Longrightarrow> i \<le> length s \<Longrightarrow> utf8 (drop i s) \<Longrightarrow> (\<And>k. i \<le> k \<Longrightarrow> \<not> separator_at s k)
    \<Longrightarrow> encodeLoop True html s dst start i = dst @ subslice s start i @ encoded html (drop i s) @ [ch_quote]"
proof (induction "length s - i" arbitrary: i start dst rule: less_induct)
  case less
  note IH = less.hyps and b = less.prems
  define j where "j = nextSpecial True html s i"
  note p = nextSpecial_props [OF b(2), where cl = True and html = html, folded j_def]
  have sep: "\<not> separator_at (drop i s) k" for k using b(4) [of "i + k"] by (auto simp: separator_at_def lineSepAt_def add.assoc)
  have low: "s ! j < 0x80" if "j < length s" using p(3) [OF that] stop_high by blast
  have "encoded html (drop i s) = take (j - i) (drop i s) @ encoded html (drop (j - i) (drop i s)) \<and> utf8 (drop (j - i) (drop i s))"
    by (rule encoded_clean_run [OF b(3) sep]) (use p low b(2) in auto)
  then have run: "encoded html (drop i s) = subslice s i j @ encoded html (drop j s)" "utf8 (drop j s)"
    using p(1) by (auto simp: subslice_def)
  have join: "subslice s start i @ subslice s i j @ xs = subslice s start j @ xs" for xs
    using slice_append_slice [OF b(1) p(1), of s] by (metis append_assoc)
  have full: "drop start s = subslice s start i @ subslice s i j" if "\<not> j < length s"
    using that p(2) b join [of "[]"] by (simp add: subslice_def)
  show ?case
  proof (cases "i < length s")
    case False
    then show ?thesis using b by (subst encodeLoop.simps) (simp add: subslice_def)
  next
    case True
    note unfold = encodeLoop.simps [of True html s dst start i, unfolded if_P [OF True] Let_def, folded j_def]
    show ?thesis
    proof (cases "j < length s")
      case False
      then show ?thesis using full run p(2) unfolding unfold by simp
    next
      case j: True
      have d: "drop j s = s ! j # drop (j + 1) s" using j by (simp add: Cons_nth_drop_Suc)
      have "utf8_seq [s ! j]" using low [OF j] by (simp add: utf8_seq_def leadSize_def)
      with run(2) utf8Valid_seq [of "[s ! j]" "drop (j + 1) s"] d have "utf8 (drop (j + 1) s)"
        by (simp add: utf8Valid_iff)
      then have "encodeLoop True html s (dst @ subslice s start j @ asciiEscape (s ! j)) (j + 1) (j + 1)
          = (dst @ subslice s start j @ asciiEscape (s ! j)) @ encoded html (drop (j + 1) s) @ [ch_quote]"
        using IH [of "j + 1" "j + 1"] j True p(1) b(4) by simp
      then show ?thesis using j low [OF j] p(3) stop_ascii [of "s ! j" html] unfolding unfold run(1) d by (simp add: encoded_ascii join)
    qed
  qed
qed

lemma encodeLoop_either:
  assumes "start \<le> i" "i \<le> length s" "cl \<Longrightarrow> validUTF8NoLineSeparatorFast (drop i s)"
  shows "encodeLoop cl html s dst start i = dst @ subslice s start i @ encoded html (drop i s) @ [ch_quote]"
proof (cases cl)
  case False
  then show ?thesis using encodeLoop_reference [OF assms(1,2)] by simp
next
  case True
  with assms(3) have v: "utf8 (drop i s)" "\<not> hasJSONLineSeparatorScalar (drop i s) 0"
    by (auto simp: validUTF8NoLineSeparatorFast_def utf8Valid_iff)
  have "\<not> separator_at s k" if "i \<le> k" for k
  proof
    assume "separator_at s k"
    then have "separator_at (drop i s) (k - i)" using that by (auto simp: separator_at_def lineSepAt_def)
    with v(2) hasJSONLineSeparator_finds show False by blast
  qed
  with True show ?thesis using encodeLoop_clean [OF assms(1,2) v(1)] by simp
qed

subsection \<open>The encoder\<close>

lemma prefix_copy:
  assumes "length D = length s"
  shows "(if html then CopyHTMLStringPrefix overlap D s else CopyStringPrefix overlap D s) =
    (if overlap then (D, None) else (let e = nextSpecial False html s 0 in (take e s @ drop e D, Some e)))"
  using assms
  by (simp add: CopyHTMLStringPrefix_def CopyStringPrefix_def copyHTMLStringPrefix_def copyStringPrefix_def nextSpecial_def
      scanEncodedHTMLSpecialFast_def scanStringSpecial_def Let_def)

lemma encode_tail:
  assumes "first = nextSpecial False html s 0" "cl \<Longrightarrow> validUTF8NoLineSeparatorFast (drop first s)"
  shows "encodeLoop cl html s dst 0 first = dst @ encoded html s @ [ch_quote]"
    "encodeLoop cl html s (dst @ take first s) first first = dst @ encoded html s @ [ch_quote]"
proof -
  have f: "first \<le> length s" using assms(1) nextSpecial_props(2) [of 0 s] by simp
  have r: "encoded html s = take first s @ encoded html (drop first s)"
    using nextSpecial_run [of 0 s html] assms(1) by (simp add: subslice_def)
  show "encodeLoop cl html s dst 0 first = dst @ encoded html s @ [ch_quote]"
    using encodeLoop_either [OF _ f assms(2), of 0] unfolding r by (simp add: subslice_def)
  show "encodeLoop cl html s (dst @ take first s) first first = dst @ encoded html s @ [ch_quote]"
    using encodeLoop_either [OF _ f assms(2), of first] unfolding r by simp
qed

lemma encode_reference:
  "appendEncodedJSONString room mem grown overlap dst s html = dst @ [ch_quote] @ encoded html s @ [ch_quote]"
proof (cases "s = []")
  case True
  then show ?thesis by (simp add: appendEncodedJSONString_def)
next
  case ne: False
  define short where "short = (if length s < 16 then appendShortCleanJSONString room mem dst s html else None)"
  show ?thesis
  proof (cases short)
    case (Some out)
    then have "appendShortCleanJSONString room mem dst s html = Some out" "length s < 16"
      by (auto simp: short_def split: if_splits)
    from appendShortClean_copies [OF this(1) _ this(2)] encoded_clean [of s html] ne Some show ?thesis
      by (simp add: appendEncodedJSONString_def short_def)
  next
    case None
    define first where "first = nextSpecial False html s 0"
    have f: "first \<le> length s" using nextSpecial_props(2) [of 0 s] first_def by simp
    have all: "encoded html s = s" if "first = length s"
      using nextSpecial_run [of 0 s html] that by (simp add: first_def [symmetric] subslice_def)
    have t: "encodeLoop (0x80 \<le> s ! first \<and> validUTF8NoLineSeparatorFast (drop first s)) html s (dst @ [ch_quote]) 0 first
          = (dst @ [ch_quote]) @ encoded html s @ [ch_quote]"
        "encodeLoop (0x80 \<le> s ! first \<and> validUTF8NoLineSeparatorFast (drop first s)) html s ((dst @ [ch_quote]) @ take first s) first first
          = (dst @ [ch_quote]) @ encoded html s @ [ch_quote]"
      by (rule encode_tail [OF first_def], simp)+
    show ?thesis
    proof (cases "16 \<le> length s")
      case False
      then show ?thesis
        using None ne t(1) all
        unfolding appendEncodedJSONString_def short_def [symmetric] first_def [symmetric] Let_def by auto
    next
      case True
      let ?D = "map grown [0..<length s]"
      have D: "length ?D = length s" by simp
      show ?thesis
        using None ne True t all f prefix_copy [OF D, where html = html and overlap = overlap]
        unfolding appendEncodedJSONString_def short_def [symmetric] first_def [symmetric] Let_def
        by (cases overlap) auto
    qed
  qed
qed

text \<open>C16: whichever short cut it takes, and whatever the spare capacity holds, the encoder appends the quoted reference
  encoding: plain bytes as they are, escapes for the bytes that need them, U+FFFD for every byte outside a well-formed sequence.\<close>

theorem appendEncodedJSONString_correct:
  "appendEncodedJSONString room mem grown overlap dst s escapeHTML
    = dst @ [ch_quote] @ encoded escapeHTML s @ [ch_quote]"
  by (rule encode_reference)

subsection \<open>The output is a legal string\<close>

lemma hexval_digit: "n < 16 \<Longrightarrow> hexval (encodeHexDigits n) = Some (unat n)"
proof -
  assume "n < 16"
  then have "unat n < 16" by (simp add: word_less_nat_alt)
  then have "unat (encodeHexDigits n) = (if unat n < 10 then 48 + unat n else 87 + unat n)"
    by (auto simp: encodeHexDigits_def word_less_nat_alt unat_word_ariths unat_sub_if_size word_le_nat_alt)
  with \<open>unat n < 16\<close> show ?thesis by (auto simp: hexval_def word_le_nat_alt)
qed

lemma nibbles:
  fixes c :: byte
  shows "drop_bit 4 c < 16" "c AND 0xF < 16" "16 * unat (drop_bit 4 c) + unat (c AND 0xF) = unat c"
proof -
  have h: "unat (drop_bit 4 c) = unat c div 16" by (simp only: drop_bit_eq_div unat_div) simp
  have l: "unat (c AND 0xF) = unat c mod 16" using unat_low(3) [of c] by simp
  show "drop_bit 4 c < 16" "c AND 0xF < 16"
    unfolding word_less_nat_alt h l using unsigned_less [of c, where 'a = nat] by (simp_all add: div_less_iff_less_mult)
  show "16 * unat (drop_bit 4 c) + unat (c AND 0xF) = unat c" unfolding h l by simp
qed

lemma asciiEscape_jchar:
  assumes "c < 0x80"
  shows "jchar (asciiEscape c) [c]"
proof -
  have u: "jchar [ch_backslash, ch_u, ch_0, ch_0, encodeHexDigits (drop_bit 4 c), encodeHexDigits (c AND 0xF)] [c]"
  proof -
    have "hexval ch_0 = Some 0" by (simp add: hexval_def)
    then have h: "hexnum [ch_0, ch_0, encodeHexDigits (drop_bit 4 c), encodeHexDigits (c AND 0xF)] = Some (unat c)"
      using nibbles [of c] hexval_digit [of "drop_bit 4 c"] hexval_digit [of "c AND 0xF"] by (simp add: hexnum_def)
    have lt: "unat c < 0x80" using assms by (simp add: word_less_nat_alt)
    have "encodeRune (word_of_nat (unat c)) = [ucast (word_of_nat (unat c) :: rune)]"
      using lt by (intro encodeRune_1) (simp add: word_le_nat_alt)
    moreover have "(ucast (word_of_nat (unat c) :: rune) :: byte) = c" using lt by (simp add: word_unat_eq_iff unat_down)
    ultimately show ?thesis using jc_unicode [OF h] lt by (simp add: high_surrogate_def low_surrogate_def)
  qed
  show ?thesis
    by (simp add: asciiEscape_def u jc_escape simple_escape_def)
qed

lemma separatorEscape_jchar:
  assumes "lineSeparator r"
  shows "jchar (separatorEscape r) [0xE2, 0x80, if r = 0x2028 then 0xA8 else 0xA9]"
proof -
  obtain d where d: "d = 8 \<or> d = 9" "r = word_of_nat (0x2020 + d)"
    using assms that [of 8] that [of 9] by (auto simp: lineSeparator_def)
  have "encodeHexDigits (ucast (r AND 0xF)) = 0x30 + word_of_nat d" using d by (auto simp: encodeHexDigits_def)
  then have s: "separatorEscape r = [ch_backslash, ch_u, 0x32, ch_0, 0x32, 0x30 + word_of_nat d]" by (simp add: separatorEscape_def)
  have h: "hexnum [0x32, ch_0, 0x32, 0x30 + word_of_nat d] = Some (0x2020 + d)" using d(1) by (auto simp: hexnum_def hexval_def)
  have "encodeRune (word_of_nat (0x2020 + d)) = [0xE2, 0x80, if r = 0x2028 then 0xA8 else 0xA9]"
    using d by (auto simp: encodeRune_def Let_def)
  with jc_unicode [OF h] d(1) show ?thesis unfolding s by (auto simp: high_surrogate_def low_surrogate_def)
qed

lemma encoded_jchars: "jchars (encoded html s) (repaired s)"
proof (induction "length s" arbitrary: s rule: less_induct)
  case less
  show ?case
  proof (cases "s = []")
    case True
    then show ?thesis by (simp add: repaired.simps jchars_nil)
  next
    case ne: False
    obtain r n where r: "DecodeRune s = (r, n)" by force
    show ?thesis
    proof (cases "hd s < 0x80")
      case True
      obtain c t where s: "s = c # t" using ne by (cases s) auto
      have "leadSize c = 1" using True s by (simp add: leadSize_def)
      then have "DecodeRune s = (ucast c, 1)" using s by (simp add: DecodeRune_def Let_def)
      then have rep: "repaired s = [c] @ repaired t" using s ascii_not_RuneError [of c] by (subst repaired.simps) simp
      have "jchar (if specialStop False html c then asciiEscape c else [c]) [c]"
      proof (cases "specialStop False html c")
        case False
        have "utf8_seq [c]" using \<open>leadSize c = 1\<close> by (simp add: utf8_seq_def)
        moreover have "\<not> isStringSyntax c" using False by (auto simp: specialStop_def hit_defs split: if_splits)
        ultimately show ?thesis using False jc_plain [of "[c]"] by simp
      qed (use asciiEscape_jchar True s in simp)
      from jchars_cons [OF this, of "encoded html t" "repaired t"] less [of t] s True show ?thesis
        unfolding rep by (simp add: encoded_ascii)
    next
      case high: False
      show ?thesis
      proof (cases "r = RuneError \<and> n = 1")
        case True
        have "repaired s = encodeRune RuneError @ repaired (tl s)" using r True ne by (subst repaired.simps) simp
        moreover have "encoded html s = encodeRune RuneError @ encoded html (tl s)" using encoded_bad [OF high _ ne] r True by simp
        moreover have "jchar (encodeRune RuneError) (encodeRune RuneError)"
          by (rule jc_plain) (simp_all add: encodeRune_def utf8_seq_def leadSize_def acceptSecond_def contByte_def)
        ultimately show ?thesis using jchars_cons less [of "tl s"] ne by (cases s) auto
      next
        case good: False
        note t = DecodeRune_taken [OF r good ne]
        have rep: "repaired s = take n s @ repaired (drop n s)" using r good ne by (subst repaired.simps) auto
        have "jchar (if lineSeparator r then separatorEscape r else take n s) (take n s)"
        proof (cases "lineSeparator r")
          case True
          then show ?thesis using separatorEscape_jchar [OF True] DecodeRune_separator(1) [OF r True ne] by simp
        next
          case False
          have "\<not> isStringSyntax (hd (take n s))" using high t(4) ne
            by (cases s; cases n) (auto simp: isStringSyntax_def word_less_nat_alt)
          then have "jchar (take n s) (take n s)" by (intro jc_plain [OF t(1)])
          with False show ?thesis by simp
        qed
        from jchars_cons [OF this, of "encoded html (drop n s)" "repaired (drop n s)"] less [of "drop n s"] t(4) ne
        show ?thesis unfolding rep encoded_good [OF high r good ne] by simp
      qed
    qed
  qed
qed

lemma repaired_utf8: "utf8 s \<Longrightarrow> repaired s = s"
proof (induction rule: utf8.induct)
  case (utf8_cons s r)
  have "s @ r \<noteq> []" using utf8_cons(1) by (auto simp: utf8_seq_def)
  then show ?case using DecodeRune_seq [OF utf8_cons(1), of r] utf8_cons(3)
    by (subst repaired.simps) (auto simp: badRune_def split: prod.splits)
qed (simp add: repaired.simps)

lemma encoded_string:
  assumes "e = appendEncodedJSONString room mem grown overlap [] s escapeHTML"
  shows "parseString e 0 = Ok (length e)" "AppendDecodedJSONString [] (subslice e 1 (length e - 1)) = repaired s"
proof -
  have e: "e = [ch_quote] @ encoded escapeHTML s @ [ch_quote]" by (simp add: assms encode_reference)
  have j: "jchars (encoded escapeHTML s) (repaired s)" by (rule encoded_jchars)
  show "parseString e 0 = Ok (length e)"
    using string_end_complete [OF j, of 1 e "[]"] by (simp add: e parseString_end)
  have "subslice e 1 (length e - 1) = encoded escapeHTML s" by (simp add: e subslice_def)
  then show "AppendDecodedJSONString [] (subslice e 1 (length e - 1)) = repaired s"
    using unescape_jchars [OF j] by (simp add: AppendDecodedJSONString_finish)
qed

text \<open>C17: every encoded string passes the validator as one whole token, and decoding its contents gives the input with each byte
  outside well-formed UTF-8 replaced by U+FFFD.\<close>

theorem encoded_string_valid:
  "let e = appendEncodedJSONString room mem grown overlap [] s escapeHTML in
     parseString e 0 = Ok (length e) \<and> AppendDecodedJSONString [] (subslice e 1 (length e - 1)) = repaired s"
  by (simp only: Let_def encoded_string [OF refl])

text \<open>C18: a UTF-8 string that is encoded and decoded comes back unchanged.\<close>

theorem string_roundtrip:
  assumes "utf8Valid s"
  shows "let e = appendEncodedJSONString room mem grown overlap [] s escapeHTML in
     AppendDecodedJSONString [] (subslice e 1 (length e - 1)) = s"
  using repaired_utf8 assms by (simp only: Let_def encoded_string(2) [OF refl] utf8Valid_iff)

theorem string_roundtrip_witness:
  "utf8Valid [0x61, ch_quote, ch_lf] \<and>
   (let e = appendEncodedJSONString 0 (\<lambda>_. 0) (\<lambda>_. 0) False [] [0x61, ch_quote, ch_lf] True in
     AppendDecodedJSONString [] (subslice e 1 (length e - 1)) = [0x61, ch_quote, ch_lf])"
proof
  show v: "utf8Valid [0x61, ch_quote, ch_lf]"
    by (simp add: utf8Valid.simps DecodeRune_def leadSize_def badRune_def)
  from string_roundtrip [OF v] show "let e = appendEncodedJSONString 0 (\<lambda>_. 0) (\<lambda>_. 0) False [] [0x61, ch_quote, ch_lf] True in
     AppendDecodedJSONString [] (subslice e 1 (length e - 1)) = [0x61, ch_quote, ch_lf]" .
qed

end
