(* ===== verification/StreamWriter.thy ===== *)
theory StreamWriter
  imports IntEncode EncodeCorrect
begin

text \<open>
  The streaming writer (\<^verbatim>\<open>stream_writer.go\<close>). The state is the record \<open>writer\<close>; the caller's \<^verbatim>\<open>io.Writer\<close> is the
  parameter \<open>write\<close> with its state in the field \<open>sink\<close>. Each method is one function that returns the new state
  and the error. What a formatter finds in the spare memory of the buffer is an argument \<open>memory\<close> of the call,
  so the theorems hold for every allocation history; the formatters for floats, times and compiled values are
  arguments as well.
\<close>

subsection \<open>State\<close>

record streamFrame =
  kind :: byte
  members :: nat
  afterKey :: bool

datatype 'e writer_error =
    Usage string
  | Failed 'e
  | ErrShortWrite
  | Panic

text \<open>The stack's last frame in Go, the innermost container, is the head of the list.\<close>

record ('o, 'e) writer =
  sink :: 'o
  buf :: bytes
  flushAt :: int
  werr :: "'e writer_error option"
  escapeHTML :: bool
  stack :: "streamFrame list"
  started :: bool

type_synonym ('o, 'e) io_writer = "'o \<Rightarrow> bytes \<Rightarrow> 'o \<times> int \<times> 'e option"
type_synonym ('o, 'e) wresult = "('o, 'e) writer \<times> 'e writer_error option"

text \<open>The memory a call finds: the spare bytes of the buffer and what reallocations provide.\<close>

record memory =
  room_bytes :: bytes
  grown_bytes :: "nat \<Rightarrow> byte"
  overlapping :: bool
  fresh_array :: allocator

definition encode_string :: "memory \<Rightarrow> bytes \<Rightarrow> bytes \<Rightarrow> bool \<Rightarrow> bytes" where
  "encode_string m dst s html =
     appendEncodedJSONString (length (room_bytes m)) (\<lambda>k. room_bytes m ! k) (grown_bytes m) (overlapping m) dst s html"

subsection \<open>Methods\<close>

definition defaultWriterSize :: int where "defaultWriterSize = 32768"

definition newWriterWithFlushThreshold :: "'o \<Rightarrow> int \<Rightarrow> ('o, 'e) writer" where
  "newWriterWithFlushThreshold out threshold =
     (let threshold = (if threshold < 512 then 512 else threshold)
      in \<lparr>sink = out, buf = [], flushAt = threshold, werr = None, escapeHTML = True, stack = [], started = False\<rparr>)"

definition NewWriter :: "'o \<Rightarrow> ('o, 'e) writer" where
  "NewWriter out = newWriterWithFlushThreshold out defaultWriterSize"

definition SetEscapeHTML :: "bool \<Rightarrow> ('o, 'e) writer \<Rightarrow> ('o, 'e) writer" where
  "SetEscapeHTML escape w = w\<lparr>escapeHTML := escape\<rparr>"

definition Err :: "('o, 'e) writer \<Rightarrow> 'e writer_error option" where
  "Err w = werr w"

definition failure :: "'e writer_error \<Rightarrow> ('o, 'e) writer \<Rightarrow> ('o, 'e) wresult" where
  "failure e w = (let w = (if werr w = None then w\<lparr>werr := Some e\<rparr> else w) in (w, werr w))"

definition flush :: "('o, 'e) io_writer \<Rightarrow> ('o, 'e) writer \<Rightarrow> ('o, 'e) wresult" where
  "flush write w =
     (if buf w = [] then (w, None)
      else case write (sink w) (buf w) of (out, n, e) \<Rightarrow>
        let w = w\<lparr>sink := out\<rparr>;
            e = (case e of Some x \<Rightarrow> Some (Failed x)
                 | None \<Rightarrow> if n \<noteq> int (length (buf w)) then Some ErrShortWrite else None)
        in case e of Some x \<Rightarrow> failure x w | None \<Rightarrow> (w\<lparr>buf := []\<rparr>, None))"

definition maybeFlush :: "('o, 'e) io_writer \<Rightarrow> ('o, 'e) writer \<Rightarrow> ('o, 'e) wresult" where
  "maybeFlush write w = (if int (length (buf w)) < flushAt w then (w, None) else flush write w)"

text \<open>\<^verbatim>\<open>beforeValue\<close> returns whether the value may follow.\<close>

definition beforeValue :: "('o, 'e) writer \<Rightarrow> ('o, 'e) writer \<times> bool" where
  "beforeValue w =
     (if werr w \<noteq> None then (w, False)
      else case stack w of
        [] \<Rightarrow>
          if started w then (fst (failure (Usage ''vibejson: second top-level token value without Newline'') w), False)
          else (w\<lparr>started := True\<rparr>, True)
      | frame # _ \<Rightarrow>
          if kind frame = ch_lbrace then
            if \<not> afterKey frame then (fst (failure (Usage ''vibejson: object value without a preceding Key'') w), False)
            else (w, True)
          else ((if members frame > 0 then w\<lparr>buf := buf w @ [ch_comma]\<rparr> else w), True))"

definition afterValue :: "('o, 'e) io_writer \<Rightarrow> ('o, 'e) writer \<Rightarrow> ('o, 'e) wresult" where
  "afterValue write w =
     (case stack w of
        frame # rest \<Rightarrow> (w\<lparr>stack := frame\<lparr>members := members frame + 1, afterKey := False\<rparr> # rest\<rparr>, None)
      | [] \<Rightarrow> maybeFlush write w)"

text \<open>The frame of the token methods: check the position, run the body, report its error or none.\<close>

definition at_value :: "(('o, 'e) writer \<Rightarrow> ('o, 'e) wresult) \<Rightarrow> ('o, 'e) writer \<Rightarrow> ('o, 'e) wresult" where
  "at_value body w = (case beforeValue w of (w, ok) \<Rightarrow> if \<not> ok then (w, werr w) else body w)"

definition EncodeTo :: "('o, 'e) io_writer \<Rightarrow> (bytes \<Rightarrow> 'e + bytes) \<Rightarrow> ('o, 'e) writer \<Rightarrow> ('o, 'e) wresult" where
  "EncodeTo write AppendJSON w =
     (if werr w \<noteq> None then (w, werr w)
      else if stack w \<noteq> [] then failure (Usage ''vibejson: EncodeTo inside an unfinished token value'') w
      else if started w then failure (Usage ''vibejson: second top-level value without Newline'') w
      else case AppendJSON (buf w) of
        Inl e \<Rightarrow> failure (Failed e) w
      | Inr dst \<Rightarrow> maybeFlush write (w\<lparr>buf := dst, started := True\<rparr>))"

definition Newline :: "('o, 'e) io_writer \<Rightarrow> ('o, 'e) writer \<Rightarrow> ('o, 'e) wresult" where
  "Newline write w =
     (if werr w \<noteq> None then (w, werr w)
      else if stack w \<noteq> [] then failure (Usage ''vibejson: Newline inside an unfinished token value'') w
      else maybeFlush write (w\<lparr>buf := buf w @ [ch_lf], started := False\<rparr>))"

definition RawUnchecked :: "('o, 'e) io_writer \<Rightarrow> bytes \<Rightarrow> ('o, 'e) writer \<Rightarrow> ('o, 'e) wresult" where
  "RawUnchecked write v = at_value (\<lambda>w. afterValue write (w\<lparr>buf := buf w @ v\<rparr>))"

definition BeginObject :: "('o, 'e) writer \<Rightarrow> ('o, 'e) wresult" where
  "BeginObject = at_value (\<lambda>w.
     (w\<lparr>buf := buf w @ [ch_lbrace], stack := \<lparr>kind = ch_lbrace, members = 0, afterKey = False\<rparr> # stack w\<rparr>, None))"

definition EndObject :: "('o, 'e) io_writer \<Rightarrow> ('o, 'e) writer \<Rightarrow> ('o, 'e) wresult" where
  "EndObject write w =
     (if werr w \<noteq> None then (w, werr w)
      else if stack w = [] \<or> kind (hd (stack w)) \<noteq> ch_lbrace \<or> afterKey (hd (stack w))
        then failure (Usage ''vibejson: EndObject without a matching open object'') w
      else afterValue write (w\<lparr>stack := tl (stack w), buf := buf w @ [ch_rbrace]\<rparr>))"

definition BeginArray :: "('o, 'e) writer \<Rightarrow> ('o, 'e) wresult" where
  "BeginArray = at_value (\<lambda>w.
     (w\<lparr>buf := buf w @ [ch_lbracket], stack := \<lparr>kind = ch_lbracket, members = 0, afterKey = False\<rparr> # stack w\<rparr>, None))"

definition EndArray :: "('o, 'e) io_writer \<Rightarrow> ('o, 'e) writer \<Rightarrow> ('o, 'e) wresult" where
  "EndArray write w =
     (if werr w \<noteq> None then (w, werr w)
      else if stack w = [] \<or> kind (hd (stack w)) \<noteq> ch_lbracket
        then failure (Usage ''vibejson: EndArray without a matching open array'') w
      else afterValue write (w\<lparr>stack := tl (stack w), buf := buf w @ [ch_rbracket]\<rparr>))"

definition Key :: "memory \<Rightarrow> bytes \<Rightarrow> ('o, 'e) writer \<Rightarrow> ('o, 'e) wresult" where
  "Key m name w =
     (if werr w \<noteq> None then (w, werr w)
      else if stack w = [] \<or> kind (hd (stack w)) \<noteq> ch_lbrace \<or> afterKey (hd (stack w))
        then failure (Usage ''vibejson: Key outside an object member position'') w
      else
        let dst = (if members (hd (stack w)) > 0 then buf w @ [ch_comma] else buf w);
            dst = encode_string m dst name (escapeHTML w)
        in (w\<lparr>buf := dst @ [ch_colon], stack := (hd (stack w))\<lparr>afterKey := True\<rparr> # tl (stack w)\<rparr>, None))"

definition Writer_String :: "('o, 'e) io_writer \<Rightarrow> memory \<Rightarrow> bytes \<Rightarrow> ('o, 'e) writer \<Rightarrow> ('o, 'e) wresult" where
  "Writer_String write m s = at_value (\<lambda>w. afterValue write (w\<lparr>buf := encode_string m (buf w) s (escapeHTML w)\<rparr>))"

text \<open>The integer methods. The branch of a panicking reslice is kept as an error of its own.\<close>

definition put_slice :: "('o, 'e) io_writer \<Rightarrow> goslice option \<Rightarrow> ('o, 'e) writer \<Rightarrow> ('o, 'e) wresult" where
  "put_slice write r w = (case r of None \<Rightarrow> failure Panic w | Some dst \<Rightarrow> afterValue write (w\<lparr>buf := contents dst\<rparr>))"

definition Writer_Int :: "('o, 'e) io_writer \<Rightarrow> memory \<Rightarrow> 64 word \<Rightarrow> ('o, 'e) writer \<Rightarrow> ('o, 'e) wresult" where
  "Writer_Int write m v = at_value (\<lambda>w.
     put_slice write (appendCompactInt (fresh_array m) \<lparr>contents = buf w, spare = room_bytes m\<rparr> v) w)"

definition Writer_Uint :: "('o, 'e) io_writer \<Rightarrow> memory \<Rightarrow> 64 word \<Rightarrow> ('o, 'e) writer \<Rightarrow> ('o, 'e) wresult" where
  "Writer_Uint write m v = at_value (\<lambda>w.
     put_slice write (appendCompactUint (fresh_array m) \<lparr>contents = buf w, spare = room_bytes m\<rparr> v) w)"

text \<open>The common body of \<^verbatim>\<open>Float64\<close> and \<^verbatim>\<open>Time\<close>: the formatter returns an error or the longer buffer.\<close>

definition put_formatted :: "('o, 'e) io_writer \<Rightarrow> (bytes \<Rightarrow> 'e + bytes) \<Rightarrow> ('o, 'e) writer \<Rightarrow> ('o, 'e) wresult" where
  "put_formatted write formatter w =
     (case formatter (buf w) of Inl e \<Rightarrow> failure (Failed e) w | Inr dst \<Rightarrow> afterValue write (w\<lparr>buf := dst\<rparr>))"

definition Writer_Float64 :: "('o, 'e) io_writer \<Rightarrow> (bytes \<Rightarrow> 'e + bytes) \<Rightarrow> ('o, 'e) writer \<Rightarrow> ('o, 'e) wresult" where
  "Writer_Float64 write appendJSONFloat = at_value (put_formatted write appendJSONFloat)"

definition Writer_Time :: "('o, 'e) io_writer \<Rightarrow> (bytes \<Rightarrow> 'e + bytes) \<Rightarrow> ('o, 'e) writer \<Rightarrow> ('o, 'e) wresult" where
  "Writer_Time write AppendTimeCached = at_value (put_formatted write AppendTimeCached)"

definition Writer_Bool :: "('o, 'e) io_writer \<Rightarrow> bool \<Rightarrow> ('o, 'e) writer \<Rightarrow> ('o, 'e) wresult" where
  "Writer_Bool write v = at_value (\<lambda>w. afterValue write (w\<lparr>buf := buf w @ (if v then lit_true else lit_false)\<rparr>))"

definition Writer_Null :: "('o, 'e) io_writer \<Rightarrow> ('o, 'e) writer \<Rightarrow> ('o, 'e) wresult" where
  "Writer_Null write = at_value (\<lambda>w. afterValue write (w\<lparr>buf := buf w @ lit_null\<rparr>))"

definition Flush :: "('o, 'e) io_writer \<Rightarrow> ('o, 'e) writer \<Rightarrow> ('o, 'e) wresult" where
  "Flush write w =
     (if werr w \<noteq> None then (w, werr w)
      else if stack w \<noteq> [] then failure (Usage ''vibejson: Flush inside an unfinished token value'') w
      else flush write w)"

definition Close :: "('o, 'e) io_writer \<Rightarrow> ('o, 'e) writer \<Rightarrow> ('o, 'e) wresult" where
  "Close write w = Flush write w"

end
