(* ===== verification/StreamText.thy ===== *)
theory StreamText
  imports StreamWriter Grammar
begin

text \<open>
  The text a streaming writer has produced when its container stack is known: the specification of
  \<open>StreamWriter\<close>. Complete top-level values stand on lines of their own; the text of the unfinished value
  is one opening per frame of the stack, each with as many complete members as the frame has counted.
\<close>

subsection \<open>Values, lists and members\<close>

definition value_text :: "bytes \<Rightarrow> bool" where
  "value_text v \<longleftrightarrow> (\<exists>t. wf t \<and> v = render t)"

definition comma_after :: "bytes list \<Rightarrow> bytes" where
  "comma_after xs = (if xs = [] then [] else [ch_comma])"

fun joined :: "bytes list \<Rightarrow> bytes" where
  "joined [] = []"
| "joined (x # xs) = x @ comma_after xs @ joined xs"

lemma joined_snoc: "joined (xs @ [x]) = joined xs @ comma_after xs @ x"
  by (induction xs) (auto simp: comma_after_def)

definition key_text :: "bytes \<Rightarrow> bytes" where
  "key_text k = ch_quote # k @ [ch_quote, ch_colon]"

definition member_ok :: "bytes \<Rightarrow> bool" where
  "member_ok x \<longleftrightarrow> (\<exists>k v. json_string k \<and> value_text v \<and> x = key_text k @ v)"

lemma value_texts:
  "value_text lit_null" "value_text lit_true" "value_text lit_false"
  "json_number s \<Longrightarrow> value_text s"
  "json_string s \<Longrightarrow> value_text (ch_quote # s @ [ch_quote])"
  unfolding value_text_def
  by (rule exI [of _ CNull], simp) (rule exI [of _ CTrue], simp, rule exI [of _ CFalse], simp,
    rule exI [of _ "CNum s"], simp, rule exI [of _ "CStr s"], simp)

lemma elems_text:
  "list_all value_text vs \<Longrightarrow> vs \<noteq> [] \<Longrightarrow> \<exists>es. wf_elems es \<and> render_elems es = joined vs @ [ch_rbracket]"
proof (induction vs)
  case (Cons v vs)
  then obtain t where t: "wf t" "v = render t" by (auto simp: value_text_def)
  show ?case
  proof (cases "vs = []")
    case True
    then show ?thesis using t by (intro exI [of _ "ELast [] t []"]) (simp add: comma_after_def)
  next
    case False
    with Cons obtain es where "wf_elems es" "render_elems es = joined vs @ [ch_rbracket]" by auto
    then show ?thesis using t False by (intro exI [of _ "EMore [] t [] es"]) (simp add: comma_after_def)
  qed
qed simp

lemma mems_text:
  "list_all member_ok ms \<Longrightarrow> ms \<noteq> [] \<Longrightarrow> \<exists>es. wf_mems es \<and> render_mems es = joined ms @ [ch_rbrace]"
proof (induction ms)
  case (Cons m ms)
  then obtain k t where t: "json_string k" "wf t" "m = key_text k @ render t" by (auto simp: member_ok_def value_text_def)
  show ?case
  proof (cases "ms = []")
    case True
    then show ?thesis using t by (intro exI [of _ "MLast [] k [] [] t []"]) (simp add: comma_after_def key_text_def)
  next
    case False
    with Cons obtain es where "wf_mems es" "render_mems es = joined ms @ [ch_rbrace]" by auto
    then show ?thesis using t False by (intro exI [of _ "MMore [] k [] [] t [] es"]) (simp add: comma_after_def key_text_def)
  qed
qed simp

lemma array_text: "list_all value_text vs \<Longrightarrow> value_text (ch_lbracket # joined vs @ [ch_rbracket])"
proof (cases "vs = []")
  case True
  then show ?thesis unfolding value_text_def by (intro exI [of _ "CArr0 []"]) simp
next
  case False
  assume "list_all value_text vs"
  then obtain es where "wf_elems es" "render_elems es = joined vs @ [ch_rbracket]" using elems_text False by blast
  then show ?thesis unfolding value_text_def by (intro exI [of _ "CArr es"]) simp
qed

lemma object_text: "list_all member_ok ms \<Longrightarrow> value_text (ch_lbrace # joined ms @ [ch_rbrace])"
proof (cases "ms = []")
  case True
  then show ?thesis unfolding value_text_def by (intro exI [of _ "CObj0 []"]) simp
next
  case False
  assume "list_all member_ok ms"
  then obtain es where "wf_mems es" "render_mems es = joined ms @ [ch_rbrace]" using mems_text False by blast
  then show ?thesis unfolding value_text_def by (intro exI [of _ "CObj es"]) simp
qed

subsection \<open>Open containers\<close>

definition frame_text :: "streamFrame \<Rightarrow> bytes \<Rightarrow> bool" where
  "frame_text f t \<longleftrightarrow>
     kind f = ch_lbracket \<and> \<not> afterKey f
       \<and> (\<exists>vs. list_all value_text vs \<and> length vs = members f \<and> t = ch_lbracket # joined vs)
   \<or> kind f = ch_lbrace \<and> \<not> afterKey f
       \<and> (\<exists>ms. list_all member_ok ms \<and> length ms = members f \<and> t = ch_lbrace # joined ms)
   \<or> kind f = ch_lbrace \<and> afterKey f
       \<and> (\<exists>ms k. list_all member_ok ms \<and> length ms = members f \<and> json_string k
            \<and> t = ch_lbrace # joined ms @ comma_after ms @ key_text k)"

text \<open>Whether a value may follow, what separates it from the text before, and the stack behind it.\<close>

definition ready :: "streamFrame list \<Rightarrow> bool \<Rightarrow> bool" where
  "ready fs st = (case fs of [] \<Rightarrow> \<not> st | f # _ \<Rightarrow> kind f = ch_lbrace \<longrightarrow> afterKey f)"

definition separator :: "streamFrame list \<Rightarrow> bytes" where
  "separator fs = (case fs of [] \<Rightarrow> [] | f # _ \<Rightarrow> if kind f \<noteq> ch_lbrace \<and> members f > 0 then [ch_comma] else [])"

definition bump :: "streamFrame list \<Rightarrow> streamFrame list" where
  "bump fs = (case fs of [] \<Rightarrow> [] | f # r \<Rightarrow> f\<lparr>members := members f + 1, afterKey := False\<rparr> # r)"

lemmas position = ready_def separator_def bump_def

inductive stack_text :: "streamFrame list \<Rightarrow> bytes \<Rightarrow> bool" where
  closed: "stack_text [] []"
| nested: "stack_text fs p \<Longrightarrow> ready fs False \<Longrightarrow> frame_text f t \<Longrightarrow> stack_text (f # fs) (p @ separator fs @ t)"

inductive_cases stack_text_ConsE: "stack_text (f # fs) p"
inductive_simps stack_text_Nil [simp]: "stack_text [] p"

text \<open>The text behind the last line feed.\<close>

definition pending :: "streamFrame list \<Rightarrow> bool \<Rightarrow> bytes \<Rightarrow> bool" where
  "pending fs st p \<longleftrightarrow> (if fs = [] then (if st then value_text p else p = []) else st \<and> stack_text fs p)"

lemma pending_value:
  assumes "pending fs st p" "ready fs st" "value_text v"
  shows "pending (bump fs) True (p @ separator fs @ v)"
proof (cases fs)
  case Nil
  then show ?thesis using assms by (simp add: pending_def position)
next
  case (Cons f r)
  then obtain q t where p: "p = q @ separator r @ t" "stack_text r q" "ready r False" "frame_text f t"
    using assms(1) by (auto simp: pending_def elim: stack_text_ConsE)
  have "frame_text (f\<lparr>members := members f + 1, afterKey := False\<rparr>) (t @ separator fs @ v)"
    using p(4) [unfolded frame_text_def]
  proof (elim disjE conjE exE)
    fix vs assume f: "kind f = ch_lbracket" "\<not> afterKey f" "list_all value_text vs" "length vs = members f" "t = ch_lbracket # joined vs"
    then have "t @ separator fs @ v = ch_lbracket # joined (vs @ [v])" using Cons unfolding joined_snoc by (auto simp: position comma_after_def)
    then show ?thesis using f assms(3) unfolding frame_text_def by (intro disjI1) (auto intro!: exI [of _ "vs @ [v]"])
  next
    fix ms assume "kind f = ch_lbrace" "\<not> afterKey f"
    then show ?thesis using assms(2) Cons by (simp add: position)
  next
    fix ms k assume f: "kind f = ch_lbrace" "afterKey f" "list_all member_ok ms" "length ms = members f" "json_string k"
      "t = ch_lbrace # joined ms @ comma_after ms @ key_text k"
    then have "t @ separator fs @ v = ch_lbrace # joined (ms @ [key_text k @ v])" using Cons unfolding joined_snoc by (simp add: position)
    moreover have "member_ok (key_text k @ v)" using f(5) assms(3) by (auto simp: member_ok_def)
    ultimately show ?thesis using f unfolding frame_text_def by (intro disjI2 disjI1) (auto intro!: exI [of _ "ms @ [key_text k @ v]"])
  qed
  from stack_text.nested [OF p(2,3) this] show ?thesis using Cons p(1) by (simp add: pending_def bump_def)
qed

lemma pending_stack: "pending fs st p \<Longrightarrow> ready fs st \<Longrightarrow> stack_text fs p"
  by (auto simp: pending_def position split: list.splits if_splits)

lemma pending_open:
  assumes "pending fs st p" "ready fs st" "k = ch_lbracket \<or> k = ch_lbrace"
  shows "pending (\<lparr>kind = k, members = 0, afterKey = False\<rparr> # fs) True (p @ separator fs @ [k])"
proof -
  have "frame_text \<lparr>kind = k, members = 0, afterKey = False\<rparr> [k]" using assms(3) by (auto simp: frame_text_def)
  moreover have "ready fs False" using assms(2) by (auto simp: position split: list.splits)
  ultimately show ?thesis using stack_text.nested [OF pending_stack [OF assms(1,2)]] by (simp add: pending_def)
qed

lemma pending_close:
  assumes "pending (f # fs) st p" "kind f = ch_lbrace \<Longrightarrow> \<not> afterKey f"
  shows "pending (bump fs) True (p @ [if kind f = ch_lbrace then ch_rbrace else ch_rbracket])"
proof -
  obtain q t where p: "p = q @ separator fs @ t" "stack_text fs q" "ready fs False" "frame_text f t" "st"
    using assms(1) by (auto simp: pending_def elim: stack_text_ConsE)
  have "value_text (t @ [if kind f = ch_lbrace then ch_rbrace else ch_rbracket])"
    using p(4) assms(2) array_text object_text by (auto simp: frame_text_def)
  moreover have "pending fs (fs \<noteq> []) q" using p(2) by (auto simp: pending_def)
  moreover have "ready fs (fs \<noteq> [])" using p(3) by (auto simp: position split: list.splits)
  ultimately show ?thesis using pending_value p(1) by fastforce
qed

lemma pending_key:
  assumes "pending (f # fs) st p" "kind f = ch_lbrace" "\<not> afterKey f" "json_string k"
  shows "pending (f\<lparr>afterKey := True\<rparr> # fs) True (p @ (if members f > 0 then [ch_comma] else []) @ key_text k)"
proof -
  obtain q t where p: "p = q @ separator fs @ t" "stack_text fs q" "ready fs False" "frame_text f t"
    using assms(1) by (auto simp: pending_def elim: stack_text_ConsE)
  then obtain ms where ms: "list_all member_ok ms" "length ms = members f" "t = ch_lbrace # joined ms"
    using assms(2,3) by (auto simp: frame_text_def)
  have "(if members f > 0 then [ch_comma] else []) = comma_after ms" using ms(2) by (auto simp: comma_after_def)
  moreover have "frame_text (f\<lparr>afterKey := True\<rparr>) (t @ comma_after ms @ key_text k)"
    using ms assms(2,4) by (auto simp: frame_text_def)
  ultimately show ?thesis using stack_text.nested [OF p(2,3)] p(1) by (fastforce simp: pending_def)
qed

subsection \<open>Lines\<close>

definition lines :: "bytes \<Rightarrow> bool" where
  "lines t \<longleftrightarrow> (\<exists>vs. list_all (\<lambda>v. v = [] \<or> value_text v) vs \<and> t = concat (map (\<lambda>v. v @ [ch_lf]) vs))"

lemma lines_Nil [simp]: "lines []"
  unfolding lines_def by (rule exI [of _ "[]"]) simp

lemma lines_snoc: "lines t \<Longrightarrow> v = [] \<or> value_text v \<Longrightarrow> lines (t @ v @ [ch_lf])"
  unfolding lines_def by (elim exE, rename_tac vs, rule_tac x = "vs @ [v]" in exI) auto

text \<open>The whole text.\<close>

definition writer_text :: "streamFrame list \<Rightarrow> bool \<Rightarrow> bytes \<Rightarrow> bool" where
  "writer_text fs st t \<longleftrightarrow> (\<exists>ls p. t = ls @ p \<and> lines ls \<and> pending fs st p)"

lemma writer_text_start [simp]: "writer_text [] False []"
  by (simp add: writer_text_def pending_def)

lemma writer_text_newline: "writer_text [] st t \<Longrightarrow> writer_text [] False (t @ [ch_lf])"
  by (force simp: writer_text_def pending_def split: if_splits dest: lines_snoc)

lemma writer_text_extend:
  assumes "writer_text fs st t" "\<And>p. pending fs st p \<Longrightarrow> pending fs' st' (p @ x)"
  shows "writer_text fs' st' (t @ x)"
  using assms unfolding writer_text_def by (metis append.assoc)

end
