(* ===== verification/StreamCorrect.thy ===== *)
theory StreamCorrect
  imports StreamText "HOL-Library.Sublist"
begin

text \<open>
  Runs of the streaming writer: every sequence of method calls keeps the text well formed, the first error
  is final, and a sink that accepts everything receives the whole text.
\<close>

subsection \<open>Calls\<close>

datatype 'e call =
    CallSetEscapeHTML bool
  | CallEncodeTo "bytes \<Rightarrow> 'e + bytes"
  | CallNewline
  | CallRawUnchecked bytes
  | CallBeginObject
  | CallEndObject
  | CallBeginArray
  | CallEndArray
  | CallKey memory bytes
  | CallString memory bytes
  | CallInt memory "64 word"
  | CallUint memory "64 word"
  | CallFloat64 "bytes \<Rightarrow> 'e + bytes"
  | CallBool bool
  | CallNull
  | CallTime "bytes \<Rightarrow> 'e + bytes"
  | CallFlush
  | CallClose

fun perform :: "('o, 'e) io_writer \<Rightarrow> 'e call \<Rightarrow> ('o, 'e) writer \<Rightarrow> ('o, 'e) wresult" where
  "perform write (CallSetEscapeHTML b) w = (SetEscapeHTML b w, Err w)"
| "perform write (CallEncodeTo f) w = EncodeTo write f w"
| "perform write CallNewline w = Newline write w"
| "perform write (CallRawUnchecked v) w = RawUnchecked write v w"
| "perform write CallBeginObject w = BeginObject w"
| "perform write CallEndObject w = EndObject write w"
| "perform write CallBeginArray w = BeginArray w"
| "perform write CallEndArray w = EndArray write w"
| "perform write (CallKey m s) w = Key m s w"
| "perform write (CallString m s) w = Writer_String write m s w"
| "perform write (CallInt m v) w = Writer_Int write m v w"
| "perform write (CallUint m v) w = Writer_Uint write m v w"
| "perform write (CallFloat64 f) w = Writer_Float64 write f w"
| "perform write (CallBool b) w = Writer_Bool write b w"
| "perform write CallNull w = Writer_Null write w"
| "perform write (CallTime f) w = Writer_Time write f w"
| "perform write CallFlush w = Flush write w"
| "perform write CallClose w = Close write w"

fun run :: "('o, 'e) io_writer \<Rightarrow> 'e call list \<Rightarrow> ('o, 'e) writer \<Rightarrow> ('o, 'e) writer" where
  "run write [] w = w"
| "run write (c # cs) w = run write cs (fst (perform write c w))"

text \<open>What the methods that do not check their bytes rely on: a raw value is a JSON value, and a formatter
  appends one or fails.\<close>

definition appends_value :: "(bytes \<Rightarrow> 'e + bytes) \<Rightarrow> bool" where
  "appends_value f \<longleftrightarrow> (\<forall>b dst. f b = Inr dst \<longrightarrow> (\<exists>v. dst = b @ v \<and> value_text v))"

fun legal :: "'e call \<Rightarrow> bool" where
  "legal (CallEncodeTo f) = appends_value f"
| "legal (CallRawUnchecked v) = value_text v"
| "legal (CallFloat64 f) = appends_value f"
| "legal (CallTime f) = appends_value f"
| "legal _ = True"

text \<open>The contract of \<^verbatim>\<open>io.Writer\<close>: the sink has received the \<open>n\<close> bytes that the call reports, and no others.\<close>

definition sink_contract :: "('o, 'e) io_writer \<Rightarrow> ('o \<Rightarrow> bytes) \<Rightarrow> bool" where
  "sink_contract write received \<longleftrightarrow>
     (\<forall>out b. case write out b of (out', n, e) \<Rightarrow>
        0 \<le> n \<and> n \<le> int (length b) \<and> received out' = received out @ take (nat n) b)"

subsection \<open>The invariant\<close>

definition produced :: "('o \<Rightarrow> bytes) \<Rightarrow> ('o, 'e) writer \<Rightarrow> bytes" where
  "produced received w = received (sink w) @ buf w"

definition settled :: "('o \<Rightarrow> bytes) \<Rightarrow> ('o, 'e) writer \<Rightarrow> bool" where
  "settled received w \<longleftrightarrow> werr w = None \<and> writer_text (stack w) (started w) (produced received w)"

definition sound :: "('o \<Rightarrow> bytes) \<Rightarrow> ('o, 'e) writer \<Rightarrow> bool" where
  "sound received w \<longleftrightarrow>
     (if werr w = None then settled received w
      else \<exists>fs st t. writer_text fs st t \<and> prefix (received (sink w)) t)"

lemma settled_sound: "settled received w \<Longrightarrow> sound received w"
  by (simp add: sound_def settled_def)

lemma sound_failure:
  assumes "writer_text fs st t" "prefix (received (sink w)) t"
  shows "sound received (fst (failure e w))"
  using assms by (auto simp: failure_def sound_def)

lemma settled_failure:
  assumes "settled received w" "sink w' = sink w"
  shows "sound received (fst (failure e w'))"
  using assms by (intro sound_failure [of "stack w" "started w" "produced received w"]) (simp_all add: settled_def produced_def)

lemma sound_flush:
  assumes "sink_contract write received" "settled received w"
  shows "sound received (fst (flush write w))"
proof -
  obtain out n e where wr: "write (sink w) (buf w) = (out, n, e)" by (metis prod_cases3)
  then have r: "n \<le> int (length (buf w))" "received out = received (sink w) @ take (nat n) (buf w)"
    using assms(1) unfolding sink_contract_def by (metis (mono_tags, lifting) case_prod_conv)+
  have "prefix (received out) (produced received w)" by (simp add: r(2) produced_def take_is_prefix)
  then have bad: "sound received (fst (failure x (w\<lparr>sink := out\<rparr>)))" for x
    using assms(2) by (intro sound_failure [of "stack w" "started w" "produced received w"]) (simp_all add: settled_def)
  have good: "settled received (w\<lparr>sink := out, buf := []\<rparr>)" if "n = int (length (buf w))"
    using assms(2) r(2) that by (simp add: settled_def produced_def)
  show ?thesis using wr assms(2) bad settled_sound [OF good] settled_sound [OF assms(2)]
    by (auto simp: flush_def Let_def split: option.splits)
qed

lemma sound_maybeFlush:
  "sink_contract write received \<Longrightarrow> settled received w \<Longrightarrow> sound received (fst (maybeFlush write w))"
  by (simp add: maybeFlush_def sound_flush settled_sound)

lemma beforeValue_eq:
  assumes "settled received w"
  shows "beforeValue w = (if ready (stack w) (started w) then (w\<lparr>buf := buf w @ separator (stack w), started := True\<rparr>, True)
     else (fst (failure (Usage (if stack w = [] then ''vibejson: second top-level token value without Newline''
        else ''vibejson: object value without a preceding Key'')) w), False))"
proof -
  have "stack w \<noteq> [] \<Longrightarrow> started w" using assms by (auto simp: settled_def writer_text_def pending_def)
  then show ?thesis using assms
    by (cases w) (auto simp: beforeValue_def settled_def position split: list.splits)
qed

text \<open>A method body runs behind the separator.\<close>

lemma sound_at_value:
  assumes "settled received w"
    "ready (stack w) (started w) \<Longrightarrow> sound received (fst (body (w\<lparr>buf := buf w @ separator (stack w), started := True\<rparr>)))"
  shows "sound received (fst (at_value body w))"
  using assms settled_failure [OF assms(1) refl] by (simp add: at_value_def beforeValue_eq [OF assms(1)])

lemma sound_afterValue:
  assumes "sink_contract write received" "settled received w" "ready (stack w) (started w)" "value_text v"
  shows "sound received (fst (afterValue write (w\<lparr>started := True, buf := buf w @ separator (stack w) @ v\<rparr>)))"
proof -
  have t: "writer_text (bump (stack w)) True (produced received w @ separator (stack w) @ v)"
    using assms(2-4) unfolding settled_def by (intro writer_text_extend) (auto intro: pending_value)
  show ?thesis
  proof (cases "stack w")
    case Nil
    then show ?thesis using t assms(2)
      by (simp add: afterValue_def sound_maybeFlush [OF assms(1)] settled_def produced_def bump_def)
  next
    case (Cons f r)
    then show ?thesis using t assms(2)
      by (intro settled_sound) (simp add: afterValue_def settled_def produced_def bump_def)
  qed
qed

lemma sound_emit:
  assumes "sink_contract write received" "settled received w" "value_text v"
  shows "sound received (fst (at_value (\<lambda>w. afterValue write (w\<lparr>buf := buf w @ v\<rparr>)) w))"
  using sound_at_value [OF assms(2), of "\<lambda>w. afterValue write (w\<lparr>buf := buf w @ v\<rparr>)"] sound_afterValue [OF assms(1,2) _ assms(3)] by simp

lemma sound_formatted:
  assumes "sink_contract write received" "settled received w" "appends_value f"
  shows "sound received (fst (at_value (put_formatted write f) w))"
proof (rule sound_at_value [OF assms(2)])
  assume r: "ready (stack w) (started w)"
  let ?w = "w\<lparr>buf := buf w @ separator (stack w), started := True\<rparr>"
  show "sound received (fst (put_formatted write f ?w))"
  proof (cases "f (buf ?w)")
    case (Inl e)
    then show ?thesis using settled_failure [OF assms(2), of ?w] by (simp add: put_formatted_def)
  next
    case (Inr dst)
    then obtain v where "dst = buf ?w @ v" "value_text v" using assms(3) unfolding appends_value_def by blast
    then show ?thesis using Inr sound_afterValue [OF assms(1,2) r, of v] by (simp add: put_formatted_def)
  qed
qed

lemma encoded_json_string: "json_string (encoded html s)"
  using encoded_jchars by (auto simp: json_string_def)

lemma encode_string_eq: "encode_string m dst s html = dst @ ch_quote # encoded html s @ [ch_quote]"
  by (simp add: encode_string_def encode_reference)

lemma json_integer_number: "json_integer s \<Longrightarrow> json_number s"
proof -
  assume j: "json_integer s"
  have "num_frac []" "num_exp []" by (simp_all add: num_frac_def num_exp_def)
  moreover from j have "(\<exists>i. s = [] @ i \<and> num_int i) \<or> (\<exists>i. s = [ch_minus] @ i \<and> num_int i)"
    by (cases s) (auto simp: json_integer_def split: if_splits)
  ultimately show "json_number s" unfolding json_number_def by (metis append_Nil2)
qed

lemma integer_values: "value_text (decimal n)" "value_text (int_decimal i)"
  using num_int_decimal [of n] num_int_digits [OF num_int_decimal [of n]] int_decimal_reads(1) [of i]
  by (auto intro!: value_texts(4) json_integer_number simp: json_integer_def)

lemma sound_begin:
  assumes "settled received w" "k = ch_lbracket \<or> k = ch_lbrace"
  shows "sound received (fst (at_value (\<lambda>w. (w\<lparr>buf := buf w @ [k], stack := \<lparr>kind = k, members = 0, afterKey = False\<rparr> # stack w\<rparr>, None)) w))"
proof (rule sound_at_value [OF assms(1)])
  assume r: "ready (stack w) (started w)"
  have "writer_text (\<lparr>kind = k, members = 0, afterKey = False\<rparr> # stack w) True (produced received w @ separator (stack w) @ [k])"
    using assms r unfolding settled_def by (intro writer_text_extend) (auto intro: pending_open)
  then show "sound received (fst ((\<lambda>w. (w\<lparr>buf := buf w @ [k], stack := \<lparr>kind = k, members = 0, afterKey = False\<rparr> # stack w\<rparr>, None))
      (w\<lparr>buf := buf w @ separator (stack w), started := True\<rparr>)))"
    using assms(1) by (intro settled_sound) (simp add: settled_def produced_def)
qed

lemma sound_end:
  assumes "sink_contract write received" "settled received w" "stack w = f # fs" "kind f = ch_lbrace \<Longrightarrow> \<not> afterKey f"
    "c = (if kind f = ch_lbrace then ch_rbrace else ch_rbracket)"
  shows "sound received (fst (afterValue write (w\<lparr>stack := tl (stack w), buf := buf w @ [c]\<rparr>)))"
proof -
  have t: "writer_text (bump fs) True (produced received w @ [c])"
    using assms(2,3) pending_close [of f fs _ _, OF _ assms(4)] unfolding settled_def assms(5) by (auto intro!: writer_text_extend)
  have s: "started w" using assms(2,3) by (auto simp: settled_def writer_text_def pending_def)
  show ?thesis
  proof (cases fs)
    case Nil
    then show ?thesis using t assms(2,3) s
      by (simp add: afterValue_def sound_maybeFlush [OF assms(1)] settled_def produced_def bump_def)
  next
    case (Cons g r)
    then show ?thesis using t assms(2,3) s
      by (intro settled_sound) (simp add: afterValue_def settled_def produced_def bump_def)
  qed
qed

lemma sound_key:
  assumes "settled received w"
  shows "sound received (fst (Key m name w))"
proof (cases "stack w = [] \<or> kind (hd (stack w)) \<noteq> ch_lbrace \<or> afterKey (hd (stack w))")
  case True
  then show ?thesis using assms settled_failure [OF assms refl] by (auto simp: Key_def settled_def)
next
  case False
  then obtain f fs where f: "stack w = f # fs" "kind f = ch_lbrace" "\<not> afterKey f" by (cases "stack w") auto
  have "writer_text (f\<lparr>afterKey := True\<rparr> # fs) True
      (produced received w @ (if members f > 0 then [ch_comma] else []) @ key_text (encoded (escapeHTML w) name))"
    using assms f pending_key [OF _ f(2,3) encoded_json_string] unfolding settled_def by (auto intro!: writer_text_extend)
  moreover have "started w" using assms f(1) by (auto simp: settled_def writer_text_def pending_def)
  ultimately show ?thesis using assms f
    by (intro settled_sound) (simp add: Key_def settled_def produced_def encode_string_eq key_text_def split: if_splits)
qed

lemma sound_Newline:
  assumes "sink_contract write received" "settled received w"
  shows "sound received (fst (Newline write w))"
proof (cases "stack w = []")
  case True
  then have "writer_text [] False (produced received w @ [ch_lf])" using assms(2) by (auto simp: settled_def intro: writer_text_newline)
  then show ?thesis using True assms(2)
    by (simp add: Newline_def sound_maybeFlush [OF assms(1)] settled_def produced_def)
next
  case False
  then show ?thesis using assms(2) settled_failure [OF assms(2) refl] by (simp add: Newline_def settled_def)
qed

lemma sound_EncodeTo:
  assumes "sink_contract write received" "settled received w" "appends_value f"
  shows "sound received (fst (EncodeTo write f w))"
proof (cases "stack w = [] \<and> \<not> started w")
  case True
  show ?thesis
  proof (cases "f (buf w)")
    case (Inl e)
    then show ?thesis using True assms(2) settled_failure [OF assms(2) refl] by (simp add: EncodeTo_def settled_def)
  next
    case (Inr dst)
    then obtain v where v: "dst = buf w @ v" "value_text v" using assms(3) unfolding appends_value_def by blast
    have "pending [] True (p @ v)" if "pending [] False p" for p using that v(2) by (simp add: pending_def)
    then have "writer_text [] True (produced received w @ v)"
      using True assms(2) unfolding settled_def by (auto intro!: writer_text_extend)
    then show ?thesis using True assms(2) Inr v(1)
      by (simp add: EncodeTo_def sound_maybeFlush [OF assms(1)] settled_def produced_def)
  qed
next
  case False
  then show ?thesis using assms(2) settled_failure [OF assms(2) refl] by (auto simp: EncodeTo_def settled_def)
qed

lemma sound_ends:
  assumes "sink_contract write received" "settled received w"
  shows "sound received (fst (EndObject write w))" "sound received (fst (EndArray write w))"
proof -
  have e: "werr w = None" using assms(2) by (simp add: settled_def)
  note stop = settled_failure [OF assms(2) refl] and close = sound_end [OF assms]
  show "sound received (fst (EndObject write w))"
    using close [of "hd (stack w)" "tl (stack w)" ch_rbrace] stop e by (cases "stack w") (auto simp: EndObject_def)
  show "sound received (fst (EndArray write w))"
    using close [of "hd (stack w)" "tl (stack w)" ch_rbracket] stop e by (cases "stack w") (auto simp: EndArray_def)
qed

lemma sound_values:
  assumes "sink_contract write received" "settled received w"
  shows "value_text v \<Longrightarrow> sound received (fst (RawUnchecked write v w))"
    "sound received (fst (Writer_String write m s w))"
    "sound received (fst (Writer_Uint write m x w))"
    "sound received (fst (Writer_Bool write b w))"
    "sound received (fst (Writer_Null write w))"
proof -
  note emit = sound_emit [OF assms]
  show "value_text v \<Longrightarrow> sound received (fst (RawUnchecked write v w))" using emit by (simp add: RawUnchecked_def)
  show "sound received (fst (Writer_Uint write m x w))" using emit [OF integer_values(1)]
    by (simp add: Writer_Uint_def put_slice_def appendCompactUint_eq)
  show "sound received (fst (Writer_Bool write b w))" unfolding Writer_Bool_def by (rule emit) (simp add: value_texts)
  show "sound received (fst (Writer_Null write w))" using emit [OF value_texts(1)] by (simp add: Writer_Null_def)
  show "sound received (fst (Writer_String write m s w))"
    using sound_at_value [OF assms(2), of "\<lambda>w. afterValue write (w\<lparr>buf := encode_string m (buf w) s (escapeHTML w)\<rparr>)"]
      sound_afterValue [OF assms _ value_texts(5) [OF encoded_json_string [of "escapeHTML w" s]]]
    by (simp add: Writer_String_def encode_string_eq)
qed

lemma appendCompactInt_contents:
  "\<exists>d. appendCompactInt fresh dst v = Some d \<and> contents d = contents dst @ int_decimal (sint v)"
  using unat_signed [of v] by (simp add: appendCompactInt_def appendCompactUint_eq int_decimal_def)

lemma sound_Int:
  assumes "sink_contract write received" "settled received w"
  shows "sound received (fst (Writer_Int write m v w))"
  unfolding Writer_Int_def
proof (rule sound_at_value [OF assms(2)])
  assume r: "ready (stack w) (started w)"
  let ?w = "w\<lparr>buf := buf w @ separator (stack w), started := True\<rparr>"
  obtain d where "appendCompactInt (fresh_array m) \<lparr>contents = buf ?w, spare = room_bytes m\<rparr> v = Some d" "contents d = buf ?w @ int_decimal (sint v)"
    using appendCompactInt_contents [of "fresh_array m" "\<lparr>contents = buf ?w, spare = room_bytes m\<rparr>" v] by auto
  then show "sound received (fst (put_slice write (appendCompactInt (fresh_array m) \<lparr>contents = buf ?w, spare = room_bytes m\<rparr> v) ?w))"
    using sound_afterValue [OF assms r integer_values(2) [of "sint v"]] by (simp add: put_slice_def)
qed

lemma sound_Flush:
  assumes "sink_contract write received" "settled received w"
  shows "sound received (fst (Flush write w))"
  using assms sound_flush [OF assms] settled_failure [OF assms(2) refl] by (auto simp: Flush_def settled_def)

subsection \<open>The first error is final\<close>

lemma at_value_error: "werr w = Some e \<Longrightarrow> at_value body w = (w, Some e)"
  by (simp add: at_value_def beforeValue_def)

lemma perform_error:
  assumes "werr w = Some e"
  shows "perform write c w = (case c of CallSetEscapeHTML b \<Rightarrow> (w\<lparr>escapeHTML := b\<rparr>, Some e) | _ \<Rightarrow> (w, Some e))"
  using assms at_value_error [OF assms]
  by (cases c) (simp_all add: EncodeTo_def Newline_def RawUnchecked_def BeginObject_def EndObject_def BeginArray_def EndArray_def
        Key_def Writer_String_def Writer_Int_def Writer_Uint_def Writer_Float64_def Writer_Bool_def Writer_Null_def Writer_Time_def
        Flush_def Close_def SetEscapeHTML_def Err_def)

lemma sound_perform:
  assumes c: "sink_contract write received" and s: "sound received w" and l: "legal c"
  shows "sound received (fst (perform write c w))"
proof (cases "werr w")
  case (Some e)
  then show ?thesis using s by (auto simp: perform_error sound_def split: call.splits)
next
  case None
  then have w: "settled received w" using s by (simp add: sound_def)
  have "sound received (w\<lparr>escapeHTML := b\<rparr>)" for b using w by (simp add: sound_def settled_def produced_def)
  then show ?thesis
    using l sound_values [OF c w] sound_Int [OF c w] sound_Flush [OF c w] sound_ends [OF c w] sound_EncodeTo [OF c w]
      sound_Newline [OF c w] sound_key [OF w] sound_formatted [OF c w] sound_begin [OF w]
    by (cases c) (simp_all add: Close_def Writer_Float64_def Writer_Time_def BeginObject_def BeginArray_def SetEscapeHTML_def)
qed

lemma sound_run:
  "sink_contract write received \<Longrightarrow> sound received w \<Longrightarrow> list_all legal cs \<Longrightarrow> sound received (run write cs w)"
  by (induction cs arbitrary: w) (simp_all add: sound_perform)

lemma sound_new: "received out = [] \<Longrightarrow> sound received (newWriterWithFlushThreshold out n)"
  by (simp add: newWriterWithFlushThreshold_def sound_def settled_def produced_def Let_def)

lemma sound_text:
  assumes "sound received w"
  shows "werr w = None \<Longrightarrow> writer_text (stack w) (started w) (received (sink w) @ buf w)"
    "\<exists>fs st t. writer_text fs st t \<and> prefix (received (sink w)) t"
proof -
  show "werr w = None \<Longrightarrow> writer_text (stack w) (started w) (received (sink w) @ buf w)"
    using assms by (simp add: sound_def settled_def produced_def)
  show "\<exists>fs st t. writer_text fs st t \<and> prefix (received (sink w)) t"
  proof (cases "werr w")
    case None
    then have "writer_text (stack w) (started w) (received (sink w) @ buf w)" using assms by (simp add: sound_def settled_def produced_def)
    then show ?thesis by (blast intro: prefixI)
  qed (use assms in \<open>simp add: sound_def\<close>)
qed

subsection \<open>Results of the methods\<close>

definition reports :: "('o, 'e) wresult \<Rightarrow> bool" where
  "reports r \<longleftrightarrow> snd r = Err (fst r)"

lemma reports_failure [simp]: "reports (failure e w)"
  by (simp add: reports_def failure_def Err_def Let_def)

lemma reports_pair [simp]: "reports (w, e) \<longleftrightarrow> e = werr w"
  by (simp add: reports_def Err_def)

lemma reports_flush: "werr w = None \<Longrightarrow> reports (flush write w)"
  by (auto simp: flush_def Let_def split: prod.splits option.splits)

lemma reports_maybeFlush: "werr w = None \<Longrightarrow> reports (maybeFlush write w)"
  by (simp add: maybeFlush_def reports_flush)

lemma reports_afterValue: "werr w = None \<Longrightarrow> reports (afterValue write w)"
  by (simp add: afterValue_def reports_maybeFlush split: list.split)

lemma reports_put: "werr w = None \<Longrightarrow> reports (put_slice write r w)" "werr w = None \<Longrightarrow> reports (put_formatted write f w)"
  by (simp_all add: put_slice_def put_formatted_def reports_afterValue split: option.split sum.split)

lemma reports_at_value: "(\<And>w. werr w = None \<Longrightarrow> reports (body w)) \<Longrightarrow> reports (at_value body w)"
  by (auto simp: at_value_def beforeValue_def split: list.splits prod.splits if_splits)

lemma reports_perform: "reports (perform write c w)"
proof (cases "werr w")
  case (Some e)
  then show ?thesis by (simp add: perform_error split: call.split)
next
  case None
  then show ?thesis
    by (cases c) (auto simp: EncodeTo_def Newline_def RawUnchecked_def BeginObject_def EndObject_def BeginArray_def EndArray_def
        Key_def Writer_String_def Writer_Int_def Writer_Uint_def Writer_Float64_def Writer_Bool_def Writer_Null_def Writer_Time_def
        Flush_def Close_def SetEscapeHTML_def Err_def Let_def
        intro!: reports_at_value reports_afterValue reports_flush reports_maybeFlush reports_put split: sum.split)
qed

text \<open>C40: Every method returns the error that \<^verbatim>\<open>Err\<close> reports afterwards, and the first error is final: from then on
  every call returns it, and no call sends a byte to the sink, changes the buffer or touches the container stack.\<close>

theorem first_error_final:
  "snd (perform write c w) = Err (fst (perform write c w))
   \<and> (werr w = Some e \<longrightarrow>
       snd (perform write c w) = Some e
       \<and> (let w' = run write cs w in werr w' = Some e \<and> sink w' = sink w \<and> buf w' = buf w \<and> stack w' = stack w))"
proof -
  have "werr w = Some e \<Longrightarrow> let w' = run write cs w in werr w' = Some e \<and> sink w' = sink w \<and> buf w' = buf w \<and> stack w' = stack w"
  proof (induction cs arbitrary: w)
    case (Cons c cs)
    then show ?case using Cons.IH [of "fst (perform write c w)"] by (auto simp: perform_error Let_def split: call.splits)
  qed simp
  then show ?thesis using reports_perform [of "write" c w] by (auto simp: reports_def perform_error split: call.split)
qed

theorem first_error_final_witness:
  "let w = (newWriterWithFlushThreshold () 0) \<lparr>werr := Some ErrShortWrite\<rparr>; put = (\<lambda>out b. (out, 0, Some True)) in
     snd (perform put CallNull w) = Some ErrShortWrite \<and> werr (run put [CallBeginArray, CallFlush] w) = Some ErrShortWrite"
proof -
  let ?w = "(newWriterWithFlushThreshold () 0) \<lparr>werr := Some (ErrShortWrite :: bool writer_error)\<rparr>"
  have "werr ?w = Some ErrShortWrite" by simp
  with first_error_final [of "\<lambda>out b. (out, 0, Some True)" CallNull ?w ErrShortWrite "[CallBeginArray, CallFlush]"]
  show ?thesis unfolding Let_def by blast
qed

end
