(* ===== verification/StreamDeliver.thy ===== *)
theory StreamDeliver
  imports StreamCorrect Validate
begin

text \<open>
  What a run of the streaming writer delivers: lines the validator accepts, and for a JSON tree that is written
  with the token methods its whole compact text.
\<close>

subsection \<open>A sink that accepts everything\<close>

definition accepting :: "('o, 'e) io_writer \<Rightarrow> ('o \<Rightarrow> bytes) \<Rightarrow> bool" where
  "accepting write received \<longleftrightarrow>
     (\<forall>out b. case write out b of (out', n, e) \<Rightarrow> n = int (length b) \<and> e = None \<and> received out' = received out @ b)"

text \<open>The writer has produced \<open>x\<close>, no more, and its containers are \<open>fs\<close>.\<close>

definition advanced :: "('o \<Rightarrow> bytes) \<Rightarrow> ('o, 'e) writer \<Rightarrow> bytes \<Rightarrow> streamFrame list \<Rightarrow> ('o, 'e) writer \<Rightarrow> bool" where
  "advanced received w x fs w' \<longleftrightarrow>
     werr w' = None \<and> escapeHTML w' = escapeHTML w \<and> stack w' = fs \<and> started w' \<and> produced received w' = produced received w @ x"

lemma flush_accepting:
  assumes "accepting write received" "werr w = None"
  obtains out where "flush write w = (w\<lparr>sink := out, buf := []\<rparr>, None)" "received out = produced received w"
proof (cases "buf w = []")
  case True
  then have "flush write w = (w\<lparr>sink := sink w, buf := []\<rparr>, None)" by (cases w) (simp add: flush_def)
  then show ?thesis using True by (intro that [of "sink w"]) (simp_all add: produced_def)
next
  case False
  obtain out n e where wr: "write (sink w) (buf w) = (out, n, e)" by (metis prod_cases3)
  then have "n = int (length (buf w))" "e = None" "received out = received (sink w) @ buf w"
    using assms(1) unfolding accepting_def by (metis (mono_tags, lifting) case_prod_conv)+
  then show ?thesis using False wr assms(2) by (intro that [of out]) (simp_all add: flush_def produced_def)
qed

lemma maybeFlush_accepting:
  assumes "accepting write received" "werr w = None" "started w"
  shows "advanced received w [] (stack w) (fst (maybeFlush write w))"
proof (cases "int (length (buf w)) < flushAt w")
  case True
  then show ?thesis using assms(2,3) by (simp add: maybeFlush_def advanced_def)
next
  case False
  obtain out where "flush write w = (w\<lparr>sink := out, buf := []\<rparr>, None)" "received out = produced received w"
    using flush_accepting [OF assms(1,2)] .
  then show ?thesis using False assms(2,3) by (simp add: maybeFlush_def advanced_def produced_def)
qed

lemma advanced_afterValue:
  assumes "accepting write received" "werr w = None" "started w"
  shows "advanced received w [] (bump (stack w)) (fst (afterValue write w))"
proof (cases "stack w")
  case Nil
  then show ?thesis using maybeFlush_accepting [OF assms] by (simp add: afterValue_def bump_def)
next
  case (Cons f r)
  then show ?thesis using assms by (simp add: afterValue_def advanced_def produced_def bump_def)
qed

text \<open>A writer at a value position.\<close>

definition positioned :: "('o, 'e) writer \<Rightarrow> bool" where
  "positioned w \<longleftrightarrow> werr w = None \<and> ready (stack w) (started w) \<and> (stack w \<noteq> [] \<longrightarrow> started w)"

lemma beforeValue_positioned:
  "positioned w \<Longrightarrow> beforeValue w = (w\<lparr>buf := buf w @ separator (stack w), started := True\<rparr>, True)"
  by (cases w) (auto simp: positioned_def beforeValue_def position split: list.splits)

lemma advanced_emit:
  assumes "accepting write received" "positioned w"
  shows "advanced received w (separator (stack w) @ v) (bump (stack w)) (fst (at_value (\<lambda>w. afterValue write (w\<lparr>buf := buf w @ v\<rparr>)) w))"
  using assms(2) advanced_afterValue [OF assms(1), of "w\<lparr>started := True, buf := buf w @ separator (stack w) @ v\<rparr>"]
  by (simp add: at_value_def beforeValue_positioned [OF assms(2)] positioned_def advanced_def produced_def)

lemma advanced_trans:
  "advanced received w x fs w1 \<Longrightarrow> advanced received w1 y gs w2 \<Longrightarrow> advanced received w (x @ y) gs w2"
  by (simp add: advanced_def)

lemma run_append: "run write (cs @ ds) w = run write ds (run write cs w)"
  by (induction cs arbitrary: w) simp_all

subsection \<open>JSON trees\<close>

datatype json =
    JNull
  | JBool bool
  | JInt "64 word"
  | JUint "64 word"
  | JString bytes
  | JArray "json list"
  | JObject "(bytes \<times> json) list"

primrec tokens :: "memory \<Rightarrow> json \<Rightarrow> 'e call list" where
  "tokens m JNull = [CallNull]"
| "tokens m (JBool b) = [CallBool b]"
| "tokens m (JInt v) = [CallInt m v]"
| "tokens m (JUint v) = [CallUint m v]"
| "tokens m (JString s) = [CallString m s]"
| "tokens m (JArray ts) = CallBeginArray # concat (map (tokens m) ts) @ [CallEndArray]"
| "tokens m (JObject ms) = CallBeginObject # concat (map (\<lambda>(k, c). CallKey m k # c) (map (map_prod id (tokens m)) ms)) @ [CallEndObject]"

primrec compact_text :: "bool \<Rightarrow> json \<Rightarrow> bytes" where
  "compact_text html JNull = lit_null"
| "compact_text html (JBool b) = (if b then lit_true else lit_false)"
| "compact_text html (JInt v) = int_decimal (sint v)"
| "compact_text html (JUint v) = decimal (unat v)"
| "compact_text html (JString s) = ch_quote # encoded html s @ [ch_quote]"
| "compact_text html (JArray ts) = ch_lbracket # joined (map (compact_text html) ts) @ [ch_rbracket]"
| "compact_text html (JObject ms) =
     ch_lbrace # joined (map (\<lambda>(k, t). key_text (encoded html k) @ t) (map (map_prod id (compact_text html)) ms)) @ [ch_rbrace]"

definition writes :: "('o, 'e) io_writer \<Rightarrow> ('o \<Rightarrow> bytes) \<Rightarrow> memory \<Rightarrow> json \<Rightarrow> bool" where
  "writes write received m t \<longleftrightarrow> (\<forall>w. positioned w \<longrightarrow>
     advanced received w (separator (stack w) @ compact_text (escapeHTML w) t) (bump (stack w)) (run write (tokens m t) w))"

lemma writesD: "writes write received m t \<Longrightarrow> positioned w \<Longrightarrow>
     advanced received w (separator (stack w) @ compact_text (escapeHTML w) t) (bump (stack w)) (run write (tokens m t) w)"
  by (simp add: writes_def)

lemma writes_scalars:
  assumes "accepting write received"
  shows "writes write received m JNull" "writes write received m (JBool b)" "writes write received m (JInt v)"
    "writes write received m (JUint v)" "writes write received m (JString s)"
proof -
  note emit = advanced_emit [OF assms]
  show "writes write received m JNull" using emit [of _ lit_null] by (simp add: writes_def Writer_Null_def)
  show "writes write received m (JBool b)" using emit [of _ "if b then lit_true else lit_false"] by (simp add: writes_def Writer_Bool_def split del: if_split)
  show "writes write received m (JUint v)" using emit [of _ "decimal (unat v)"]
    by (simp add: writes_def Writer_Uint_def put_slice_def appendCompactUint_eq)
  show "writes write received m (JString s)" unfolding writes_def
  proof (intro allI impI)
    fix w :: "('a, 'b) writer" assume w: "positioned w"
    have "at_value (\<lambda>w'. afterValue write (w'\<lparr>buf := encode_string m (buf w') s (escapeHTML w')\<rparr>)) w
        = at_value (\<lambda>w'. afterValue write (w'\<lparr>buf := buf w' @ ch_quote # encoded (escapeHTML w) s @ [ch_quote]\<rparr>)) w"
      by (simp add: at_value_def beforeValue_positioned [OF w] encode_string_eq)
    then show "advanced received w (separator (stack w) @ compact_text (escapeHTML w) (JString s)) (bump (stack w)) (run write (tokens m (JString s)) w)"
      using emit [OF w, of "ch_quote # encoded (escapeHTML w) s @ [ch_quote]"] by (simp add: Writer_String_def)
  qed
  show "writes write received m (JInt v)" unfolding writes_def
  proof (intro allI impI)
    fix w :: "('a, 'b) writer" assume w: "positioned w"
    let ?w = "w\<lparr>buf := buf w @ separator (stack w), started := True\<rparr>"
    obtain d where "appendCompactInt (fresh_array m) \<lparr>contents = buf ?w, spare = room_bytes m\<rparr> v = Some d" "contents d = buf ?w @ int_decimal (sint v)"
      using appendCompactInt_contents [of "fresh_array m" "\<lparr>contents = buf ?w, spare = room_bytes m\<rparr>" v] by auto
    then have "Writer_Int write m v w = at_value (\<lambda>w. afterValue write (w\<lparr>buf := buf w @ int_decimal (sint v)\<rparr>)) w"
      by (simp add: Writer_Int_def at_value_def beforeValue_positioned [OF w] put_slice_def)
    then show "advanced received w (separator (stack w) @ compact_text (escapeHTML w) (JInt v)) (bump (stack w)) (run write (tokens m (JInt v)) w)"
      using emit [OF w, of "int_decimal (sint v)"] by simp
  qed
qed

lemma run_elements:
  assumes "\<forall>t\<in>set ts. writes write received m t" "werr w = None" "started w"
    "stack w = \<lparr>kind = ch_lbracket, members = n, afterKey = False\<rparr> # r"
  shows "advanced received w ((if n > 0 \<and> ts \<noteq> [] then [ch_comma] else []) @ joined (map (compact_text (escapeHTML w)) ts))
     (\<lparr>kind = ch_lbracket, members = n + length ts, afterKey = False\<rparr> # r) (run write (concat (map (tokens m) ts)) w)"
  using assms
proof (induction ts arbitrary: w n)
  case Nil
  then show ?case by (simp add: advanced_def)
next
  case (Cons t ts)
  have "positioned w" using Cons.prems by (simp add: positioned_def position)
  then have a: "advanced received w ((if n > 0 then [ch_comma] else []) @ compact_text (escapeHTML w) t)
      (\<lparr>kind = ch_lbracket, members = n + 1, afterKey = False\<rparr> # r) (run write (tokens m t) w)"
    using writesD [of "write" received m t w] Cons.prems by (simp add: position split: if_splits)
  then have s: "werr (run write (tokens m t) w) = None" "started (run write (tokens m t) w)" "escapeHTML (run write (tokens m t) w) = escapeHTML w"
    "stack (run write (tokens m t) w) = \<lparr>kind = ch_lbracket, members = n + 1, afterKey = False\<rparr> # r"
    by (simp_all add: advanced_def)
  have ts: "\<forall>t\<in>set ts. writes write received m t" using Cons.prems(1) by simp
  from advanced_trans [OF a Cons.IH [OF ts s(1,2,4)]] s(3)
  show ?case by (auto simp: run_append comma_after_def)
qed

lemma advanced_Key:
  assumes "werr w = None" "started w" "stack w = \<lparr>kind = ch_lbrace, members = n, afterKey = False\<rparr> # r"
  shows "advanced received w ((if n > 0 then [ch_comma] else []) @ key_text (encoded (escapeHTML w) k))
     (\<lparr>kind = ch_lbrace, members = n, afterKey = True\<rparr> # r) (fst (Key m k w))"
  using assms by (simp add: Key_def advanced_def produced_def encode_string_eq key_text_def)

lemma run_members:
  assumes "\<forall>(k, t)\<in>set ms. writes write received m t" "werr w = None" "started w"
    "stack w = \<lparr>kind = ch_lbrace, members = n, afterKey = False\<rparr> # r"
  shows "advanced received w ((if n > 0 \<and> ms \<noteq> [] then [ch_comma] else [])
        @ joined (map (\<lambda>(k, t). key_text (encoded (escapeHTML w) k) @ t) (map (map_prod id (compact_text (escapeHTML w))) ms)))
     (\<lparr>kind = ch_lbrace, members = n + length ms, afterKey = False\<rparr> # r)
     (run write (concat (map (\<lambda>(k, c). CallKey m k # c) (map (map_prod id (tokens m)) ms))) w)"
  using assms
proof (induction ms arbitrary: w n)
  case Nil
  then show ?case by (simp add: advanced_def)
next
  case (Cons x ms)
  obtain k t where x: "x = (k, t)" by (cases x)
  let ?k = "fst (Key m k w)"
  have a: "advanced received w ((if n > 0 then [ch_comma] else []) @ key_text (encoded (escapeHTML w) k))
     (\<lparr>kind = ch_lbrace, members = n, afterKey = True\<rparr> # r) ?k"
    by (rule advanced_Key [OF Cons.prems(2-4)])
  then have "positioned ?k" "stack ?k = \<lparr>kind = ch_lbrace, members = n, afterKey = True\<rparr> # r" "escapeHTML ?k = escapeHTML w"
    by (simp_all add: positioned_def position advanced_def)
  then have b: "advanced received ?k (compact_text (escapeHTML w) t)
      (\<lparr>kind = ch_lbrace, members = n + 1, afterKey = False\<rparr> # r) (run write (tokens m t) ?k)"
    using writesD [of "write" received m t ?k] Cons.prems(1) x by (simp add: position)
  let ?w = "run write (tokens m t) ?k"
  have s: "werr ?w = None" "started ?w" "escapeHTML ?w = escapeHTML w" "stack ?w = \<lparr>kind = ch_lbrace, members = n + 1, afterKey = False\<rparr> # r"
    using a b by (simp_all add: advanced_def)
  have ms: "\<forall>(k, t)\<in>set ms. writes write received m t" using Cons.prems(1) by simp
  from advanced_trans [OF advanced_trans [OF a b] Cons.IH [OF ms s(1,2,4)]] s(3)
  show ?case by (auto simp: x run_append comma_after_def)
qed

lemma writes_container:
  assumes "accepting write received"
    and body: "\<And>w r. \<lbrakk>werr w = None; started w; stack w = \<lparr>kind = k, members = 0, afterKey = False\<rparr> # r\<rbrakk> \<Longrightarrow>
       advanced received w (x (escapeHTML w)) (\<lparr>kind = k, members = n, afterKey = False\<rparr> # r) (run write cs w)"
    and k: "k = ch_lbracket \<and> opn = CallBeginArray \<and> cls = CallEndArray \<and> c = ch_rbracket
      \<or> k = ch_lbrace \<and> opn = CallBeginObject \<and> cls = CallEndObject \<and> c = ch_rbrace"
    and w: "positioned w"
  shows "advanced received w (separator (stack w) @ k # x (escapeHTML w) @ [c]) (bump (stack w)) (run write (opn # cs @ [cls]) w)"
proof -
  let ?o = "fst (perform write opn w)"
  have o: "advanced received w (separator (stack w) @ [k]) (\<lparr>kind = k, members = 0, afterKey = False\<rparr> # stack w) ?o"
    using k w by (auto simp: BeginArray_def BeginObject_def at_value_def beforeValue_positioned positioned_def advanced_def produced_def)
  then have b: "advanced received ?o (x (escapeHTML w)) (\<lparr>kind = k, members = n, afterKey = False\<rparr> # stack w) (run write cs ?o)"
    using body [of ?o "stack w"] by (simp add: advanced_def)
  let ?b = "run write cs ?o"
  have s: "werr ?b = None" "started ?b" "stack ?b = \<lparr>kind = k, members = n, afterKey = False\<rparr> # stack w" using b by (simp_all add: advanced_def)
  have e: "perform write cls ?b = afterValue write (?b\<lparr>stack := stack w, buf := buf ?b @ [c]\<rparr>)"
    using k s by (auto simp: EndArray_def EndObject_def)
  have "advanced received ?b [c] (bump (stack w)) (fst (perform write cls ?b))"
    using advanced_afterValue [OF assms(1), of "?b\<lparr>stack := stack w, buf := buf ?b @ [c]\<rparr>"] s
    unfolding e by (simp add: advanced_def produced_def)
  from advanced_trans [OF advanced_trans [OF o b] this] show ?thesis by (simp add: run_append)
qed

lemma writes_all: "accepting write received \<Longrightarrow> writes write received m t"
proof (induction t)
  case (JArray ts)
  have e: "\<forall>t\<in>set ts. writes write received m t" using JArray by blast
  have "advanced received w (joined (map (compact_text (escapeHTML w)) ts)) (\<lparr>kind = ch_lbracket, members = length ts, afterKey = False\<rparr> # r)
      (run write (concat (map (tokens m) ts)) w)"
    if "werr w = None" "started w" "stack w = \<lparr>kind = ch_lbracket, members = 0, afterKey = False\<rparr> # r" for w r
    using run_elements [OF e that] by simp
  then show ?case unfolding writes_def tokens.simps compact_text.simps
    by (intro allI impI) (rule writes_container [where x = "\<lambda>html. joined (map (compact_text html) ts)", OF JArray.prems], simp_all only: simp_thms)
next
  case (JObject ms)
  have e: "\<forall>(k, t)\<in>set ms. writes write received m t" using JObject by (force elim: snds.cases)
  let ?x = "\<lambda>html. joined (map (\<lambda>(k, t). key_text (encoded html k) @ t) (map (map_prod id (compact_text html)) ms))"
  have "advanced received w (?x (escapeHTML w)) (\<lparr>kind = ch_lbrace, members = length ms, afterKey = False\<rparr> # r)
      (run write (concat (map (\<lambda>(k, c). CallKey m k # c) (map (map_prod id (tokens m)) ms))) w)"
    if "werr w = None" "started w" "stack w = \<lparr>kind = ch_lbrace, members = 0, afterKey = False\<rparr> # r" for w r
    using run_members [OF e that] by simp
  then show ?case unfolding writes_def tokens.simps compact_text.simps
    by (intro allI impI) (rule writes_container [where x = ?x, OF JObject.prems], simp_all only: simp_thms)
qed (simp_all add: writes_scalars)

subsection \<open>Delivery\<close>

lemma value_text_validates:
  assumes "value_text v"
  shows "\<exists>d > 0. validateOptions v d = Ok ()"
proof -
  obtain t where t: "wf t" "v = render t" using assms by (auto simp: value_text_def)
  have "json_document (nesting t + 1) v"
    unfolding json_document_def using t by (intro exI [of _ "[]"] exI [of _ t]) simp
  moreover have "maxDepthOrDefault (int (nesting t + 1)) = nesting t + 1" by (simp add: maxDepthOrDefault_def)
  ultimately have "validateOptions v (int (nesting t + 1)) = Ok ()" by (simp only: validateOptions_ok)
  then show ?thesis by (intro exI [of _ "int (nesting t + 1)"]) simp
qed

lemma compact_value: "value_text (compact_text html t)"
proof (induction t)
  case (JArray ts)
  then have "list_all value_text (map (compact_text html) ts)" by (simp add: list_all_iff)
  then show ?case using array_text by simp
next
  case (JObject ms)
  have "member_ok (key_text (encoded html k) @ compact_text html u)" if "(k, u) \<in> set ms" for k u
    using JObject [OF that, of u] encoded_json_string [of html k] by (auto simp: member_ok_def)
  then have "list_all member_ok (map (\<lambda>(k, t). key_text (encoded html k) @ t) (map (map_prod id (compact_text html)) ms))"
    by (auto simp: list_all_iff)
  then show ?case using object_text by simp
qed (simp_all add: value_texts integer_values encoded_json_string)

text \<open>C39: The writer is live: a JSON tree that is written with the token methods and flushed into a sink that accepts
  everything arrives completely, as the compact text of the tree, wherever automatic flushes fall and whatever
  memory the formatters find. No method reports an error, and the validator accepts the text.\<close>

theorem tokens_delivered:
  assumes "accepting write received" "received out = []"
  shows "let w = run write (CallSetEscapeHTML html # tokens m t @ [CallFlush]) (newWriterWithFlushThreshold out n) in
     werr w = None \<and> buf w = [] \<and> received (sink w) = compact_text html t
     \<and> (\<exists>d > 0. validateOptions (received (sink w)) d = Ok ())"
proof -
  let ?w = "SetEscapeHTML html (newWriterWithFlushThreshold out n)"
  have w: "positioned ?w" "escapeHTML ?w = html" "stack ?w = []" "produced received ?w = []"
    using assms(2) by (simp_all add: SetEscapeHTML_def newWriterWithFlushThreshold_def positioned_def position produced_def Let_def)
  have a: "advanced received ?w (compact_text html t) [] (run write (tokens m t) ?w)"
    using writesD [OF writes_all [OF assms(1), of m t] w(1), unfolded w(2,3)] by (simp add: position)
  let ?v = "run write (tokens m t) ?w"
  have v: "werr ?v = None" "stack ?v = []" "produced received ?v = compact_text html t" using a w(4) by (simp_all add: advanced_def)
  obtain out where "flush write ?v = (?v\<lparr>sink := out, buf := []\<rparr>, None)" "received out = produced received ?v"
    using flush_accepting [OF assms(1) v(1)] .
  then show ?thesis using v value_text_validates [OF compact_value [of html t]]
    by (simp add: run_append Flush_def Let_def)
qed

definition byte_sink :: "(bytes, unit) io_writer" where
  "byte_sink out b = (out @ b, int (length b), None)"

lemma byte_sink_lawful: "accepting byte_sink id" "sink_contract byte_sink id"
  by (simp_all add: accepting_def sink_contract_def byte_sink_def)

theorem tokens_delivered_witness:
  "let w = run byte_sink (CallSetEscapeHTML True # tokens \<lparr>room_bytes = [], grown_bytes = (\<lambda>_. 0), overlapping = False, fresh_array = (\<lambda>_. [])\<rparr>
       (JArray [JNull, JInt (- 5)]) @ [CallFlush]) (newWriterWithFlushThreshold [] 0) in
     sink w = [ch_lbracket] @ lit_null @ [ch_comma, ch_minus, 0x35, ch_rbracket]"
  using tokens_delivered [OF byte_sink_lawful(1), of "[]" True "\<lparr>room_bytes = [], grown_bytes = (\<lambda>_. 0), overlapping = False, fresh_array = (\<lambda>_. [])\<rparr>"
      "JArray [JNull, JInt (- 5)]" 0]
  by (simp add: Let_def int_decimal_def decimal_single comma_after_def del: tokens.simps run.simps)

text \<open>C38: Let the sink keep the contract of \<^verbatim>\<open>io.Writer\<close> and let the calls be \<open>legal\<close>: the bytes given to
  \<^verbatim>\<open>RawUnchecked\<close> are a JSON value, and the formatters behind \<^verbatim>\<open>EncodeTo\<close>, \<^verbatim>\<open>Float64\<close> and \<^verbatim>\<open>Time\<close> append one or fail, since
  the writer does not look at these bytes. Then what the sink has received is the beginning of a well-formed text, even after an
  error; and while there is no error, sink and buffer together hold complete lines followed by one opening per frame of the
  container stack with as many complete members as the frame has counted.\<close>

theorem writer_output:
  assumes "sink_contract write received" "received out = []" "list_all legal cs"
    "w = run write cs (newWriterWithFlushThreshold out n)"
  shows "(werr w = None \<longrightarrow> writer_text (stack w) (started w) (received (sink w) @ buf w))
    \<and> (\<exists>fs st t. writer_text fs st t \<and> prefix (received (sink w)) t)"
proof -
  have "sound received w" unfolding assms(4) using assms(2) by (intro sound_run [OF assms(1) _ assms(3)] sound_new)
  from sound_text [OF this] show ?thesis by blast
qed

theorem writer_output_witness:
  "let w = run byte_sink [CallBeginArray, CallNull, CallBeginObject] (newWriterWithFlushThreshold [] 0) in
     werr w = None \<and> writer_text (stack w) (started w) (sink w @ buf w)"
proof -
  let ?w = "run byte_sink [CallBeginArray, CallNull, CallBeginObject] (newWriterWithFlushThreshold [] 0)"
  have "werr ?w = None"
    by (simp add: newWriterWithFlushThreshold_def BeginArray_def BeginObject_def Writer_Null_def at_value_def beforeValue_def afterValue_def Let_def)
  with writer_output [OF byte_sink_lawful(2), of "[]" "[CallBeginArray, CallNull, CallBeginObject]" ?w 0]
  show ?thesis by (simp add: Let_def del: run.simps)
qed

text \<open>With an empty container stack and no error, all that was produced is a sequence of lines, the last one perhaps without
  its line feed, and the validator accepts every line that is not empty under some depth limit.\<close>

theorem writer_lines_validate:
  assumes "sink_contract write received" "received out = []" "list_all legal cs"
    "w = run write cs (newWriterWithFlushThreshold out n)" "werr w = None" "stack w = []"
  shows "\<exists>vs v. received (sink w) @ buf w = concat (map (\<lambda>v. v @ [ch_lf]) vs) @ v
    \<and> (\<forall>x\<in>set (v # vs). x = [] \<or> (\<exists>d > 0. validateOptions x d = Ok ()))"
proof -
  have "sound received w" unfolding assms(4) using assms(2) by (intro sound_run [OF assms(1) _ assms(3)] sound_new)
  from sound_text(1) [OF this assms(5)] obtain ls p where t: "received (sink w) @ buf w = ls @ p" "lines ls" "pending [] (started w) p"
    unfolding assms(6) writer_text_def by blast
  then obtain vs where vs: "list_all (\<lambda>v. v = [] \<or> value_text v) vs" "ls = concat (map (\<lambda>v. v @ [ch_lf]) vs)" by (auto simp: lines_def)
  have "p = [] \<or> value_text p" using t(3) by (simp add: pending_def split: if_splits)
  then show ?thesis using t(1) vs value_text_validates
    by (intro exI [of _ vs] exI [of _ p]) (auto simp: list_all_iff)
qed

end
