(* ===== verification/DecWeight.thy ===== *)
theory DecWeight
  imports IntEncode
begin

text \<open>
  Decimal weights of numbers with exponents of any length (\<^verbatim>\<open>number_equal.go\<close>): the weight of a number is its
  written exponent plus an offset of the digits. Exponents of up to eighteen digits are added as \<^verbatim>\<open>int64\<close>, which
  cannot overflow and is \<^typ>\<open>int\<close> here; longer ones are added in \<^verbatim>\<open>uint64\<close>, where overflow matters, or digit by
  digit. The comparison is shown to decide equality of the weights as integers.
\<close>

subsection \<open>The code\<close>

record decNumber =
  isZero :: bool
  neg :: bool
  sigFirst :: nat
  sigLast :: nat
  dot :: "nat option"
  weight :: int
  expFits :: bool
  expNeg :: bool
  expDigits :: bytes
  adj :: int

definition absInt64 :: "int \<Rightarrow> 64 word" where
  "absInt64 v = (if v < 0 then word_of_int (- v) else word_of_int v)"

definition decSignedAdd :: "bool \<Rightarrow> 64 word \<Rightarrow> int \<Rightarrow> bool \<times> 64 word" where
  "decSignedAdd negative m adjust =
     (let a = absInt64 adjust in
      if negative = (adjust < 0) then (negative \<and> m + a \<noteq> 0, m + a)
      else if m \<ge> a then (negative \<and> m \<noteq> a, m - a)
      else (\<not> negative, a - m))"

text \<open>The loop of \<^verbatim>\<open>appendDecimalUint64\<close>; the digits are put in front of those in the buffer.\<close>

function decimalDigits :: "64 word \<Rightarrow> bytes \<Rightarrow> bytes" where
  "decimalDigits v buf =
     (let buf = (ch_0 + ucast (v mod 10)) # buf; v = v div 10 in if v = 0 then buf else decimalDigits v buf)"
  by pat_completeness auto
termination
proof (relation "measure (\<lambda>(v, buf). unat v)")
  fix v x :: "64 word"
  assume "x = v div 10" "x \<noteq> 0"
  then have "unat v div 10 < unat v" by (auto simp: unat_div word_unat_eq_iff intro: div_less_dividend)
  then show "\<And>y buf. ((x, y), v, buf) \<in> measure (\<lambda>(v, buf). unat v)" using \<open>x = _\<close> by (simp add: unat_div)
qed simp

declare decimalDigits.simps [simp del]

definition appendDecimalUint64 :: "bytes \<Rightarrow> 64 word \<Rightarrow> bytes" where
  "appendDecimalUint64 dst v = dst @ decimalDigits v []"

text \<open>The loops over the digits run from the last one; \<open>i\<close> is one more than Go's index.\<close>

fun addLoop :: "bytes \<Rightarrow> nat \<Rightarrow> 64 word \<Rightarrow> bytes" where
  "addLoop out 0 u = out"
| "addLoop out (Suc i) u =
     (if u = 0 then out
      else
        let s = ucast (out ! i - ch_0) + u mod 10; u = u div 10;
            (s, u) = (if s \<ge> 10 then (s - 10, u + 1) else (s, u))
        in addLoop (out[i := ch_0 + ucast s]) i u)"

definition decDigitsAddUint64 :: "bytes \<Rightarrow> 64 word \<Rightarrow> bytes" where
  "decDigitsAddUint64 digits u =
     (let out = addLoop (ch_0 # digits) (length digits + 1) u in if out ! 0 = ch_0 then drop 1 out else out)"

fun subLoop :: "bytes \<Rightarrow> nat \<Rightarrow> 64 word \<Rightarrow> 64 word \<Rightarrow> bytes" where
  "subLoop out 0 u borrow = out"
| "subLoop out (Suc i) u borrow =
     (if u = 0 \<and> borrow = 0 then out
      else
        let sub = u mod 10 + borrow; u = u div 10; cur = ucast (out ! i - ch_0) in
        if cur \<ge> sub then subLoop (out[i := ch_0 + ucast (cur - sub)]) i u 0
        else subLoop (out[i := ch_0 + ucast (cur + 10 - sub)]) i u 1)"

function leadingZeros :: "bytes \<Rightarrow> nat \<Rightarrow> nat" where
  "leadingZeros out start =
     (if start < length out - 1 \<and> out ! start = ch_0 then leadingZeros out (start + 1) else start)"
  by pat_completeness auto
termination by (relation "measure (\<lambda>(out, start). length out - start)") auto

declare leadingZeros.simps [simp del]

definition decDigitsSubUint64 :: "bytes \<Rightarrow> 64 word \<Rightarrow> bytes" where
  "decDigitsSubUint64 digits u =
     (let out = subLoop digits (length digits) u 0 in drop (leadingZeros out 0) out)"

definition foldDigits :: "bytes \<Rightarrow> 64 word" where
  "foldDigits ds = foldl (\<lambda>m c. m * 10 + ucast (c - ch_0)) 0 ds"

definition decWeightTermSmallLimit :: "64 word" where
  "decWeightTermSmallLimit = 10000000000000000000"

definition decWeightTerm :: "decNumber \<Rightarrow> bool \<times> bool \<times> 64 word \<times> bytes" where
  "decWeightTerm d =
     (if length (expDigits d) \<le> 19 then
        case decSignedAdd (expNeg d) (foldDigits (expDigits d)) (adj d) of (negative, mag) \<Rightarrow>
          if mag < decWeightTermSmallLimit then (negative, True, mag, [])
          else (negative, False, 0, appendDecimalUint64 [] mag)
      else
        let digits = (if expNeg d = (adj d < 0) then decDigitsAddUint64 (expDigits d) (absInt64 (adj d))
                      else decDigitsSubUint64 (expDigits d) (absInt64 (adj d)))
        in if length digits \<le> 19 \<and> foldDigits digits < decWeightTermSmallLimit then (expNeg d, True, foldDigits digits, [])
           else (expNeg d, False, 0, digits))"

definition decWeightEqual :: "decNumber \<Rightarrow> decNumber \<Rightarrow> bool" where
  "decWeightEqual a b =
     (if expFits a \<and> expFits b then weight a = weight b
      else case (decWeightTerm a, decWeightTerm b) of ((an, aSmall, aMag, aDigits), (bn, bSmall, bMag, bDigits)) \<Rightarrow>
        if aSmall \<noteq> bSmall then False
        else if aSmall then an = bn \<and> aMag = bMag
        else an = bn \<and> aDigits = bDigits)"

subsection \<open>Digit strings as numbers\<close>

lemma foldDigits_value:
  assumes "list_all IsDigit ds"
  shows "foldDigits ds = word_of_nat (digits_value ds)"
  using assms
proof (induction ds rule: rev_induct)
  case (snoc c ds)
  then show ?case using digit_widened [of c] by (simp add: foldDigits_def digits_value_append digits_value_def mult.commute)
qed (simp add: foldDigits_def digits_value_def)

lemma digits_fixed: "list_all IsDigit ds \<Longrightarrow> ds = fixed (length ds) (digits_value ds)"
proof (induction ds rule: rev_induct)
  case (snoc c ds)
  then have c: "c = ch_0 + word_of_nat (unat c - 48)" "unat c - 48 < 10" using digit_byte [of c] by auto
  have "digits_value (ds @ [c]) = digits_value ds * 10 + (unat c - 48)" by (simp add: digits_value_append digits_value_def)
  then show ?case using snoc c by simp
qed simp

lemma digits_value_Cons: "digits_value (c # r) = (unat c - 48) * 10 ^ length r + digits_value r"
  using digits_value_append [of "[c]" r] by (simp add: digits_value_def)

text \<open>Digits without a leading zero are the decimal notation of their value.\<close>

lemma digits_decimal:
  assumes "list_all IsDigit ds" "ds \<noteq> []" "hd ds \<noteq> ch_0"
  shows "decimal (digits_value ds) = ds" "10 ^ (length ds - 1) \<le> digits_value ds"
proof -
  obtain c r where d: "ds = c # r" using assms(2) by (cases ds) auto
  have "unat c \<noteq> 48" using assms(3) d by (simp add: word_unat_eq_iff)
  moreover have "48 \<le> unat c" using assms(1) d by (simp add: IsDigit_def word_le_nat_alt)
  ultimately have "1 \<le> unat c - 48" by linarith
  then have "1 * 10 ^ length r \<le> (unat c - 48) * 10 ^ length r" by (rule mult_right_mono) simp
  then have "10 ^ length r \<le> digits_value ds" unfolding d digits_value_Cons by linarith
  then show lo: "10 ^ (length ds - 1) \<le> digits_value ds" by (simp add: d)
  have "length (decimal (digits_value ds)) = length ds"
    using decimal_width [OF digits_value_bound [OF assms(1)] lo] assms(2) by simp
  then show "decimal (digits_value ds) = ds" using decimal_is_fixed [of "digits_value ds"] digits_fixed [OF assms(1)] by simp
qed

lemma decimalDigits_eq: "decimalDigits v buf = decimal (unat v) @ buf"
proof (induction v buf rule: decimalDigits.induct)
  case (1 v buf)
  have m: "ch_0 + ucast (v mod 10) = ch_0 + word_of_nat (unat v mod 10)"
  proof -
    have "ch_0 + ucast (v mod 10) = ch_0 + word_of_nat (unat (v mod 10))" using digit_byte_word [of "unat (v mod 10)"] by simp
    then show ?thesis by (simp add: unat_mod)
  qed
  have z: "v div 10 = 0 \<longleftrightarrow> unat v < 10" by (simp add: word_unat_eq_iff unat_div div_eq_0_iff)
  show ?case
  proof (cases "unat v < 10")
    case True
    then show ?thesis using z m by (simp add: decimalDigits.simps [of v] decimal.simps [of "unat v"])
  next
    case False
    then show ?thesis using z m 1 by (simp add: decimalDigits.simps [of v] decimal.simps [of "unat v"] unat_div)
  qed
qed

subsection \<open>Adding and subtracting digit by digit\<close>

lemma digits_value_update:
  assumes "i < length out"
  shows "digits_value (out[i := c]) = digits_value (take i out) * 10 ^ (length out - i)
     + (unat c - 48) * 10 ^ (length out - (i + 1)) + digits_value (drop (i + 1) out)"
proof -
  have "out[i := c] = take i out @ [c] @ drop (i + 1) out" using assms by (simp add: upd_conv_take_nth_drop)
  moreover have "length out - i = Suc (length out - (i + 1))" using assms by simp
  ultimately show ?thesis by (simp add: digits_value_append digits_value_Cons algebra_simps)
qed

lemma digits_value_split:
  assumes "i < length out"
  shows "digits_value out = digits_value (take i out) * 10 ^ (length out - i)
     + (unat (out ! i) - 48) * 10 ^ (length out - (i + 1)) + digits_value (drop (i + 1) out)"
  using digits_value_update [OF assms, of "out ! i"] by simp

lemma digit_char: "n < 10 \<Longrightarrow> IsDigit (ch_0 + word_of_nat n) \<and> unat (ch_0 + word_of_nat n :: byte) - 48 = n"
  using digit_of_nat [of n] by (simp add: IsDigit_def word_le_nat_alt)

lemma digits_update: "list_all IsDigit out \<Longrightarrow> IsDigit c \<Longrightarrow> list_all IsDigit (out[i := c])"
  using set_update_subset_insert [of out i c] by (auto simp: list_all_iff)

lemma digit_at: "list_all IsDigit out \<Longrightarrow> i < length out \<Longrightarrow>
    (ucast (out ! i - ch_0) :: 64 word) = word_of_nat (unat (out ! i) - 48) \<and> unat (out ! i) - 48 < 10"
  using digit_widened [of "out ! i"] digit_byte [of "out ! i"] by (simp add: list_all_length)

lemma take_value: "i < length out \<Longrightarrow> digits_value (take (Suc i) out) = 10 * digits_value (take i out) + (unat (out ! i) - 48)"
  by (simp add: take_Suc_conv_app_nth digits_value_append digits_value_Cons mult.commute) (simp add: digits_value_def)

lemma store_digit: "ucast (word_of_nat n :: 64 word) = (word_of_nat n :: byte)"
  using digit_byte_word [of n] by simp

lemma addLoop_value:
  assumes "list_all IsDigit out" "i \<le> length out" "u < 2 ^ 64" "digits_value (take i out) + u < 10 ^ i"
  shows "length (addLoop out i (word_of_nat u)) = length out \<and> list_all IsDigit (addLoop out i (word_of_nat u))
     \<and> digits_value (addLoop out i (word_of_nat u)) = digits_value out + u * 10 ^ (length out - i)"
  using assms
proof (induction i arbitrary: out u)
  case 0
  then show ?case by simp
next
  case (Suc i)
  show ?case
  proof (cases "u = 0")
    case True
    then show ?thesis using Suc.prems by simp
  next
    case False
    have i: "i < length out" using Suc.prems(2) by simp
    define x s v where "x = unat (out ! i) - 48" and "s = x + u mod 10" and "v = u div 10 + s div 10"
    have x: "(ucast (out ! i - ch_0) :: 64 word) = word_of_nat x" "x < 10" using digit_at [OF Suc.prems(1) i] by (simp_all add: x_def)
    have sum: "s mod 10 + 10 * v = x + u" by (simp add: s_def v_def)
    define out' where "out' = out[i := ch_0 + word_of_nat (s mod 10)]"
    have w: "word_of_nat x + word_of_nat u mod 10 = (word_of_nat s :: 64 word)" "word_of_nat u div 10 = (word_of_nat (u div 10) :: 64 word)"
      using nat64_mod [OF Suc.prems(3), of 10] nat64_div [OF Suc.prems(3), of 10] by (simp_all add: s_def)
    have s: "s < 20" using x(2) unfolding s_def by linarith
    then have carry: "(word_of_nat s :: 64 word) \<ge> 10 \<longleftrightarrow> 10 \<le> s" by (simp add: word_le_nat_alt)
    have "addLoop out (Suc i) (word_of_nat u) = addLoop out' i (word_of_nat v)"
    proof (cases "10 \<le> s")
      case True
      then have "s mod 10 = s - 10" "v = u div 10 + 1" using s by (simp_all add: v_def mod_if)
      then show ?thesis using True False carry w x(1) Suc.prems(3) store_digit [of "s - 10"]
        by (simp add: out'_def Let_def word_unat_eq_iff [of _ 0] of_nat_diff [symmetric] add.commute)
    next
      case low: False
      then have "s mod 10 = s" "v = u div 10" by (simp_all add: v_def)
      then show ?thesis using low False carry w x(1) Suc.prems(3) store_digit [of s]
        by (simp add: out'_def Let_def word_unat_eq_iff [of _ 0])
    qed
    moreover have o: "list_all IsDigit out'" "length out' = length out" "take i out' = take i out"
      using digits_update [OF Suc.prems(1)] digit_char [of "s mod 10"] by (simp_all add: out'_def)
    moreover have "digits_value (take i out) + v < 10 ^ i" using Suc.prems(4) sum take_value [OF i] by (simp add: x_def)
    moreover have "v < 2 ^ 64" using Suc.prems(3) x(2) sum by simp
    moreover have "digits_value out' + v * 10 ^ (length out - i) = digits_value out + u * 10 ^ (length out - Suc i)"
    proof -
      define P where "P = (10 :: nat) ^ (length out - (i + 1))"
      have p: "(10 :: nat) ^ (length out - i) = 10 * P" using i by (simp add: P_def Suc_diff_Suc flip: power_Suc)
      have "digits_value out' = digits_value (take i out) * (10 * P) + (s mod 10) * P + digits_value (drop (i + 1) out)"
        using digits_value_update [OF i] digit_char [of "s mod 10"] by (simp add: out'_def p P_def)
      moreover have "digits_value out = digits_value (take i out) * (10 * P) + x * P + digits_value (drop (i + 1) out)"
        using digits_value_split [OF i] by (simp add: p P_def x_def)
      moreover have "(s mod 10) * P + v * (10 * P) = x * P + u * P" using sum by (metis add_mult_distrib mult.assoc mult.commute)
      ultimately show ?thesis unfolding p by (simp add: P_def)
    qed
    ultimately show ?thesis using Suc.IH [of out' v] Suc.prems(2) by simp
  qed
qed

lemma subLoop_value:
  assumes "list_all IsDigit out" "i \<le> length out" "u < 2 ^ 64" "b \<le> 1" "u + b \<le> digits_value (take i out)"
  shows "length (subLoop out i (word_of_nat u) (word_of_nat b)) = length out \<and> list_all IsDigit (subLoop out i (word_of_nat u) (word_of_nat b))
     \<and> digits_value (subLoop out i (word_of_nat u) (word_of_nat b)) + (u + b) * 10 ^ (length out - i) = digits_value out"
  using assms
proof (induction i arbitrary: out u b)
  case 0
  then show ?case by (simp add: digits_value_def)
next
  case (Suc i)
  show ?case
  proof (cases "u = 0 \<and> b = 0")
    case True
    then show ?thesis using Suc.prems by simp
  next
    case False
    have i: "i < length out" using Suc.prems(2) by simp
    define x t c where "x = unat (out ! i) - 48" and "t = u mod 10 + b" and "c = (if t \<le> x then 0 else 1 :: nat)"
    define y where "y = x + 10 * c - t"
    have x: "(ucast (out ! i - ch_0) :: 64 word) = word_of_nat x" "x < 10" using digit_at [OF Suc.prems(1) i] by (simp_all add: x_def)
    have t: "t \<le> 10" using Suc.prems(4) by (simp add: t_def)
    have y: "y + t = x + 10 * c" "y < 10" using x(2) t unfolding y_def c_def by auto
    define out' where "out' = out[i := ch_0 + word_of_nat y]"
    have w: "word_of_nat u mod 10 + word_of_nat b = (word_of_nat t :: 64 word)" "word_of_nat u div 10 = (word_of_nat (u div 10) :: 64 word)"
      using nat64_mod [OF Suc.prems(3), of 10] nat64_div [OF Suc.prems(3), of 10] by (simp_all add: t_def)
    have le: "(word_of_nat t :: 64 word) \<le> word_of_nat x \<longleftrightarrow> t \<le> x" using x(2) t by (simp add: word_le_nat_alt)
    have nz: "\<not> ((word_of_nat u :: 64 word) = 0 \<and> (word_of_nat b :: 64 word) = 0)"
      using False Suc.prems(3,4) by (auto simp: word_unat_eq_iff [of _ 0])
    have "subLoop out (Suc i) (word_of_nat u) (word_of_nat b) = subLoop out' i (word_of_nat (u div 10)) (word_of_nat c)"
    proof (cases "t \<le> x")
      case True
      then have "word_of_nat x - word_of_nat t = (word_of_nat y :: 64 word)" "c = 0"
        using nat64_diff [of t x] by (simp_all add: y_def c_def)
      then show ?thesis using True nz le w x(1) store_digit [of y] by (simp only: subLoop.simps if_False Let_def if_True out'_def) simp
    next
      case high: False
      have "word_of_nat x + 10 - word_of_nat t = (word_of_nat y :: 64 word)" "c = 1"
        using high t nat64_diff [of t "x + 10"] by (simp_all add: y_def c_def)
      then show ?thesis using high nz le w x(1) store_digit [of y] by (simp only: subLoop.simps if_False Let_def out'_def) simp
    qed
    moreover have o: "list_all IsDigit out'" "length out' = length out" "take i out' = take i out"
      using digits_update [OF Suc.prems(1)] digit_char [OF y(2)] by (simp_all add: out'_def)
    moreover have ut: "u + b = 10 * (u div 10) + t" by (simp add: t_def)
    moreover have "u div 10 + c \<le> digits_value (take i out)"
      using Suc.prems(5) take_value [OF i] y ut unfolding x_def [symmetric] by linarith
    moreover have "u div 10 < 2 ^ 64" using Suc.prems(3) by simp
    moreover have "digits_value r + (u + b) * 10 ^ (length out - Suc i) = digits_value out"
      if "digits_value r + (u div 10 + c) * 10 ^ (length out - i) = digits_value out'" for r
    proof -
      define P where "P = (10 :: nat) ^ (length out - (i + 1))"
      have p: "(10 :: nat) ^ (length out - i) = 10 * P" using i by (simp add: P_def Suc_diff_Suc flip: power_Suc)
      have "digits_value out' = digits_value (take i out) * (10 * P) + y * P + digits_value (drop (i + 1) out)"
        using digits_value_update [OF i] digit_char [OF y(2)] by (simp add: out'_def p P_def)
      moreover have "digits_value out = digits_value (take i out) * (10 * P) + x * P + digits_value (drop (i + 1) out)"
        using digits_value_split [OF i] by (simp add: p P_def x_def)
      moreover have "y * P + t * P = x * P + 10 * c * P" using y(1) by (metis add_mult_distrib)
      moreover have "(u + b) * P = 10 * (u div 10) * P + t * P" by (simp only: ut add_mult_distrib)
      ultimately show ?thesis using that unfolding p by (simp add: P_def algebra_simps)
    qed
    ultimately show ?thesis using Suc.IH [of out' "u div 10" c] Suc.prems(2) by (simp add: c_def)
  qed
qed

lemma leadingZeros_drop:
  assumes "list_all IsDigit out" "start < length out"
  defines "r \<equiv> drop (leadingZeros out start) out"
  shows "digits_value r = digits_value (drop start out) \<and> list_all IsDigit r \<and> r \<noteq> [] \<and> (hd r = ch_0 \<longrightarrow> length r = 1)"
  using assms(1,2) unfolding r_def
proof (induction out start rule: leadingZeros.induct)
  case (1 out start)
  have d: "drop start out = out ! start # drop (start + 1) out" using "1.prems" by (simp add: Cons_nth_drop_Suc)
  show ?case
  proof (cases "start < length out - 1 \<and> out ! start = ch_0")
    case True
    moreover have "digits_value (drop start out) = digits_value (drop (start + 1) out)" using True unfolding d digits_value_Cons by simp
    moreover have "start + 1 < length out" using True by linarith
    ultimately show ?thesis using 1 by (simp add: leadingZeros.simps [of out start])
  next
    case False
    have "leadingZeros out start = start" using leadingZeros.simps [of out start] unfolding if_not_P [OF False] .
    then show ?thesis using False "1.prems" d by (auto simp: list_all_iff dest: in_set_dropD)
  qed
qed

text \<open>Digits of full length are the decimal notation of their value.\<close>

lemma full_decimal: "list_all IsDigit r \<Longrightarrow> 0 < length r \<Longrightarrow> 10 ^ (length r - 1) \<le> digits_value r \<Longrightarrow> decimal (digits_value r) = r"
  using decimal_width [OF digits_value_bound] decimal_is_fixed [of "digits_value r"] digits_fixed [of r] by simp

lemma decDigitsSubUint64_eq:
  assumes "list_all IsDigit ds" "u < 2 ^ 64" "u < digits_value ds"
  shows "decDigitsSubUint64 ds (word_of_nat u) = decimal (digits_value ds - u)"
proof -
  define out where "out = subLoop ds (length ds) (word_of_nat u) 0"
  have "length out = length ds" "list_all IsDigit out" "digits_value out + u = digits_value ds"
    using subLoop_value [of ds "length ds" u 0] assms by (simp_all add: out_def)
  note o = this
  have "ds \<noteq> []" using assms(3) by (auto simp: digits_value_def)
  then have l: "0 < length out" using o(1) by simp
  define r where "r = drop (leadingZeros out 0) out"
  have r: "digits_value r = digits_value ds - u" "list_all IsDigit r" "r \<noteq> []" "hd r = ch_0 \<Longrightarrow> length r = 1"
    using leadingZeros_drop [OF o(2) l] o(3) by (simp_all add: r_def)
  have "hd r \<noteq> ch_0"
  proof
    assume "hd r = ch_0"
    then have "r = [ch_0]" using r(4) by (cases r) auto
    then show False using r(1) assms(3) by (simp add: digits_value_def)
  qed
  then have "decimal (digits_value r) = r" using r by (intro digits_decimal)
  then show ?thesis using r(1) by (simp add: decDigitsSubUint64_def out_def r_def Let_def)
qed

lemma decDigitsAddUint64_eq:
  assumes "list_all IsDigit ds" "ds \<noteq> []" "hd ds \<noteq> ch_0" "u < 2 ^ 64" "u < 10 ^ length ds"
  shows "decDigitsAddUint64 ds (word_of_nat u) = decimal (digits_value ds + u)"
proof -
  define out where "out = addLoop (ch_0 # ds) (length ds + 1) (word_of_nat u)"
  have z: "digits_value (ch_0 # ds) = digits_value ds" "list_all IsDigit (ch_0 # ds)" using assms(1) by (simp_all add: digits_value_Cons IsDigit_def)
  have "digits_value ds + u < 10 ^ Suc (length ds)" using digits_value_bound [OF assms(1)] assms(5) by simp
  then have o: "length out = Suc (length ds)" "list_all IsDigit out" "digits_value out = digits_value ds + u"
    using addLoop_value [OF z(2), of "length ds + 1" u] assms(4) z(1) by (simp_all add: out_def)
  then obtain c r where c: "out = c # r" "length r = length ds" by (cases out) auto
  have lo: "10 ^ (length ds - 1) \<le> digits_value ds" using digits_decimal(2) [OF assms(1-3)] .
  have e: "decDigitsAddUint64 ds (word_of_nat u) = (if out ! 0 = ch_0 then drop 1 out else out)"
    unfolding decDigitsAddUint64_def out_def Let_def by (rule refl)
  show ?thesis
  proof (cases "c = ch_0")
    case True
    then have "digits_value r = digits_value ds + u" using o(3) c(1) by (simp add: digits_value_Cons)
    moreover from this have "10 ^ (length r - 1) \<le> digits_value r" using lo c(2) by simp
    ultimately show ?thesis using full_decimal [of r] True o(2) c assms(2) unfolding e by simp
  next
    case False
    then show ?thesis using digits_decimal(1) [OF o(2)] c(1) o(3) unfolding e by simp
  qed
qed

subsection \<open>Comparing weights\<close>

definition written_exponent :: "decNumber \<Rightarrow> int" where
  "written_exponent d = (if expNeg d then - int (digits_value (expDigits d)) else int (digits_value (expDigits d)))"

definition full_weight :: "decNumber \<Rightarrow> int" where
  "full_weight d = written_exponent d + adj d"

text \<open>What the parser provides: exponent digits without leading zeros, an offset that is an offset into memory.\<close>

definition weighted :: "decNumber \<Rightarrow> bool" where
  "weighted d \<longleftrightarrow> list_all IsDigit (expDigits d) \<and> (expDigits d \<noteq> [] \<longrightarrow> hd (expDigits d) \<noteq> ch_0)
     \<and> \<bar>adj d\<bar> < 2 ^ 62 \<and> (expFits d \<longrightarrow> weight d = full_weight d)"

lemma absInt64_nat: "absInt64 v = word_of_nat (nat \<bar>v\<bar>)"
  by (cases "v < 0") (simp_all add: absInt64_def)

lemma decSignedAdd_eq:
  fixes s :: bool
  assumes "k < 10 ^ 19" "\<bar>x\<bar> < 2 ^ 62"
  defines "w \<equiv> (if s then - int k else int k) + x"
  shows "decSignedAdd s (word_of_nat k) x = (w < 0, word_of_nat (nat \<bar>w\<bar>)) \<and> nat \<bar>w\<bar> < 2 ^ 64"
proof -
  define a where "a = nat \<bar>x\<bar>"
  have a: "a < 2 ^ 62" "absInt64 x = word_of_nat a" "int a = \<bar>x\<bar>" using assms(2) by (simp_all add: a_def absInt64_nat)
  have le: "(word_of_nat a :: 64 word) \<le> word_of_nat k \<longleftrightarrow> a \<le> k" using a(1) assms(1) by (simp add: word_le_nat_alt)
  have eq: "(word_of_nat k :: 64 word) = word_of_nat a \<longleftrightarrow> k = a" using a(1) assms(1) by (simp add: word_unat_eq_iff)
  have z: "(word_of_nat k + word_of_nat a :: 64 word) = 0 \<longleftrightarrow> k + a = 0"
    using a(1) assms(1) unat64 [of "k + a"] by (simp add: word_unat_eq_iff [of _ 0] flip: of_nat_add)
  show ?thesis
  proof (cases "s = (x < 0)")
    case True
    then have "nat \<bar>w\<bar> = k + a" "w < 0 \<longleftrightarrow> s \<and> k + a \<noteq> 0" using a(3) by (auto simp: w_def)
    then show ?thesis using True a(1,2) z assms(1) by (simp add: decSignedAdd_def Let_def)
  next
    case False
    then have "nat \<bar>w\<bar> = (if a \<le> k then k - a else a - k)" "w < 0 \<longleftrightarrow> (if a \<le> k then s \<and> k \<noteq> a else \<not> s)"
      using a(3) by (auto simp: w_def)
    moreover have "k - a < 2 ^ 64" "a - k < 2 ^ 64" using a(1) assms(1) by simp_all
    ultimately show ?thesis using False a(1,2) le eq nat64_diff [of a k] nat64_diff [of k a] by (simp add: decSignedAdd_def Let_def)
  qed
qed

definition weight_term :: "int \<Rightarrow> bool \<times> bool \<times> 64 word \<times> bytes" where
  "weight_term w = (if nat \<bar>w\<bar> < 10 ^ 19 then (w < 0, True, word_of_nat (nat \<bar>w\<bar>), []) else (w < 0, False, 0, decimal (nat \<bar>w\<bar>)))"

lemma small_limit: "n < 2 ^ 64 \<Longrightarrow> word_of_nat n < decWeightTermSmallLimit \<longleftrightarrow> n < 10 ^ 19"
  by (simp add: decWeightTermSmallLimit_def word_less_nat_alt)

lemma length_digits: "length ds \<le> 19 \<Longrightarrow> list_all IsDigit ds \<Longrightarrow> digits_value ds < 10 ^ 19"
proof -
  assume "length ds \<le> 19" and d: "list_all IsDigit ds"
  then have "(10 :: nat) ^ length ds \<le> 10 ^ 19" by (intro power_increasing) simp_all
  with digits_value_bound [OF d] show ?thesis by (rule less_le_trans)
qed

lemma decimal_short: "length (decimal n) \<le> 19 \<longleftrightarrow> n < 10 ^ 19"
proof
  assume "length (decimal n) \<le> 19"
  then have "(10 :: nat) ^ length (decimal n) \<le> 10 ^ 19" by (intro power_increasing) simp_all
  with decimal_bounds(1) show "n < 10 ^ 19" by (rule less_le_trans)
next
  assume n: "n < 10 ^ 19"
  show "length (decimal n) \<le> 19"
  proof (cases "n = 0")
    case True
    then show ?thesis by (simp add: decimal_single)
  next
    case False
    then have "10 ^ (length (decimal n) - 1) \<le> n" by (intro decimal_bounds(2)) simp
    then have "(10 :: nat) ^ (length (decimal n) - 1) < 10 ^ 19" using n by (rule le_less_trans)
    then have "length (decimal n) - 1 < 19" by (simp only: power_strict_increasing_iff)
    then show ?thesis by simp
  qed
qed

lemma decWeightTerm_eq:
  assumes "weighted d"
  shows "decWeightTerm d = weight_term (full_weight d)"
proof -
  define k w where "k = digits_value (expDigits d)" and "w = full_weight d"
  have d: "list_all IsDigit (expDigits d)" "expDigits d \<noteq> [] \<Longrightarrow> hd (expDigits d) \<noteq> ch_0" "\<bar>adj d\<bar> < 2 ^ 62"
    using assms by (simp_all add: weighted_def)
  have w: "w = (if expNeg d then - int k else int k) + adj d" by (simp add: w_def full_weight_def written_exponent_def k_def)
  show ?thesis
  proof (cases "length (expDigits d) \<le> 19")
    case True
    then have "k < 10 ^ 19" using length_digits d(1) by (simp add: k_def)
    from decSignedAdd_eq [OF this d(3), of "expNeg d"] have s: "decSignedAdd (expNeg d) (word_of_nat k) (adj d) = (w < 0, word_of_nat (nat \<bar>w\<bar>))" "nat \<bar>w\<bar> < 2 ^ 64"
      by (simp_all add: w)
    define n where "n = nat \<bar>w\<bar>"
    show ?thesis using True foldDigits_value [OF d(1)] s small_limit [OF s(2)] unfolding n_def [symmetric]
      by (simp add: decWeightTerm_def weight_term_def w_def [symmetric] n_def [symmetric] k_def [symmetric] appendDecimalUint64_def decimalDigits_eq)
  next
    case False
    then have ne: "expDigits d \<noteq> []" by auto
    define a where "a = nat \<bar>adj d\<bar>"
    have a: "a < 2 ^ 62" "absInt64 (adj d) = word_of_nat a" "int a = \<bar>adj d\<bar>" using d(3) by (simp_all add: a_def absInt64_nat)
    have "(10 :: nat) ^ 19 \<le> 10 ^ (length (expDigits d) - 1)" using False by (intro power_increasing) simp_all
    also have "\<dots> \<le> k" using digits_decimal(2) [OF d(1) ne d(2) [OF ne]] by (simp add: k_def)
    finally have k: "10 ^ 19 \<le> k" .
    have sign: "w < 0 \<longleftrightarrow> expNeg d" using k a(1,3) w by auto
    have "(10 :: nat) ^ 19 \<le> 10 ^ length (expDigits d)" using False by (intro power_increasing) simp_all
    then have al: "a < 10 ^ length (expDigits d)" using a(1) by simp
    have ak: "a < k" using a(1) k by simp
    have "nat \<bar>w\<bar> = (if expNeg d = (adj d < 0) then k + a else k - a)"
      by (cases "expNeg d"; cases "adj d < 0") (use w a(3) ak in \<open>auto simp: nat_eq_iff of_nat_diff\<close>)
    then have "(if expNeg d = (adj d < 0) then decDigitsAddUint64 (expDigits d) (absInt64 (adj d))
         else decDigitsSubUint64 (expDigits d) (absInt64 (adj d))) = decimal (nat \<bar>w\<bar>)"
      using decDigitsAddUint64_eq [OF d(1) ne d(2) [OF ne], of a] decDigitsSubUint64_eq [OF d(1), of a] al ak a(1,2)
      by (simp add: k_def [symmetric])
    moreover have "foldDigits (decimal (nat \<bar>w\<bar>)) = word_of_nat (nat \<bar>w\<bar>)"
      using foldDigits_value decimal_reads by metis
    moreover define n where "n = nat \<bar>w\<bar>"
    moreover have "n < 10 ^ 19 \<Longrightarrow> word_of_nat n < decWeightTermSmallLimit" using small_limit [of n] by simp
    ultimately show ?thesis using False sign decimal_short [of n]
      by (simp add: decWeightTerm_def weight_term_def w_def [symmetric] Let_def)
  qed
qed

lemma decimal_inject: "decimal m = decimal n \<longleftrightarrow> m = n"
  using decimal_reads by metis

lemma decWeightEqual_iff:
  assumes "weighted a" "weighted b"
  shows "decWeightEqual a b \<longleftrightarrow> full_weight a = full_weight b"
proof (cases "expFits a \<and> expFits b")
  case True
  then show ?thesis using assms by (simp add: decWeightEqual_def weighted_def)
next
  case False
  define v w m n where "v = full_weight a" and "w = full_weight b" and "m = nat \<bar>v\<bar>" and "n = nat \<bar>w\<bar>"
  have e: "v = w \<longleftrightarrow> (v < 0) = (w < 0) \<and> m = n" unfolding m_def n_def by linarith
  have i: "m < 10 ^ 19 \<Longrightarrow> n < 10 ^ 19 \<Longrightarrow> (word_of_nat m = (word_of_nat n :: 64 word)) = (m = n)" by (simp add: word_unat_eq_iff)
  have "decWeightTerm a = weight_term v" "decWeightTerm b = weight_term w" using decWeightTerm_eq assms by (simp_all add: v_def w_def)
  then have "decWeightEqual a b \<longleftrightarrow> (v < 0) = (w < 0) \<and> m = n"
    using False i unfolding decWeightEqual_def weight_term_def m_def [symmetric] n_def [symmetric]
    by (cases "m < 10 ^ 19"; cases "n < 10 ^ 19") (auto simp: decimal_inject)
  then show ?thesis using e by (simp add: v_def w_def)
qed

end
