(* ===== verification/NumberEqual.thy ===== *)
theory NumberEqual
  imports DecWeight Complex_Main
begin

text \<open>
  Equality of JSON numbers by value (\<^verbatim>\<open>JSONNumberEqual\<close> in \<^verbatim>\<open>number_equal.go\<close>). A number is decomposed into its sign, the
  range of its significant digits in the source and its decimal weight; two numbers are compared part by part. The
  result is shown to be equality of the rational numbers the two spellings denote. An index beyond the input would
  panic; such a run is \<open>None\<close>.
\<close>

subsection \<open>The code\<close>

function skipZeros :: "bytes \<Rightarrow> nat \<Rightarrow> nat" where
  "skipZeros src i = (if i < length src \<and> src ! i = ch_0 then skipZeros src (i + 1) else i)"
  by pat_completeness auto
termination by (relation "measure (\<lambda>(src, i). length src - i)") auto

function firstNonZero :: "bytes \<Rightarrow> nat \<Rightarrow> nat \<Rightarrow> nat option" where
  "firstNonZero src j e = (if j < e then if src ! j \<noteq> ch_0 then Some j else firstNonZero src (j + 1) e else None)"
  by pat_completeness auto
termination by (relation "measure (\<lambda>(src, j, e). e - j)") auto

text \<open>The loops that run down to \<open>lo\<close>; \<open>hi\<close> is one more than Go's index.\<close>

function lastNonZero :: "bytes \<Rightarrow> nat \<Rightarrow> nat \<Rightarrow> nat option" where
  "lastNonZero src lo hi =
     (if lo < hi then if src ! (hi - 1) \<noteq> ch_0 then Some (hi - 1) else lastNonZero src lo (hi - 1) else None)"
  by pat_completeness auto
termination by (relation "measure (\<lambda>(src, lo, hi). hi)") auto

declare skipZeros.simps [simp del] firstNonZero.simps [simp del] lastNonZero.simps [simp del]

text \<open>The exponent part at \<open>i\<close>: sign, digits without leading zeros, and the value when it fits.\<close>

definition parseExponent :: "bytes \<Rightarrow> nat \<Rightarrow> (bool \<times> bytes \<times> bool \<times> int) option" where
  "parseExponent src i =
     (if i < length src then
        let i = i + 1 in
        if i \<ge> length src then None
        else
          let negative = (src ! i = ch_minus);
              i = (if src ! i = ch_plus \<or> negative then i + 1 else i);
              i = skipZeros src i;
              digits = drop i src
          in if length digits \<le> 18 then
               let e = foldl (\<lambda>e c. e * 10 + int (unat (c - ch_0))) 0 digits
               in Some (negative, digits, True, if negative then - e else e)
             else Some (negative, digits, False, 0)
      else Some (False, [], True, 0))"

text \<open>For a zero Go leaves \<^verbatim>\<open>sigFirst\<close> at -1 and nothing reads it; the model has 0 there.\<close>

definition parseDecNumber :: "bytes \<Rightarrow> decNumber option" where
  "parseDecNumber src =
     (if src = [] then None
      else
        let negative = (src ! 0 = ch_minus);
            intStart = (if negative then 1 else 0);
            intEnd = skipDigits src (length src) intStart;
            hasDot = (intEnd < length src \<and> src ! intEnd = ch_dot);
            fracStart = (if hasDot then intEnd + 1 else 0);
            fracEnd = (if hasDot then skipDigits src (length src) fracStart else 0);
            i = (if hasDot then fracEnd else intEnd)
        in case parseExponent src i of
             None \<Rightarrow> None
           | Some (eNeg, eDigits, fits, e) \<Rightarrow>
               if intStart \<ge> length src then None
               else case (if src ! intStart \<noteq> ch_0 then Some (intStart, int (intEnd - intStart) - 1)
                          else map_option (\<lambda>j. (j, - int (j - fracStart) - 1)) (firstNonZero src fracStart fracEnd)) of
                 None \<Rightarrow> Some \<lparr>isZero = True, neg = negative, sigFirst = 0, sigLast = 0,
                    dot = (if hasDot then Some intEnd else None), weight = 0,
                    expFits = fits, expNeg = eNeg, expDigits = eDigits, adj = 0\<rparr>
               | Some (first, adjust) \<Rightarrow>
                   map_option (\<lambda>j. \<lparr>isZero = False, neg = negative, sigFirst = first, sigLast = j,
                      dot = (if hasDot then Some intEnd else None), weight = (if fits then e + adjust else 0),
                      expFits = fits, expNeg = eNeg, expDigits = eDigits, adj = adjust\<rparr>)
                     (case lastNonZero src fracStart fracEnd of Some j \<Rightarrow> Some j | None \<Rightarrow> lastNonZero src 0 intEnd))"

text \<open>The loop over the significant digits.\<close>

function sigEqual :: "bytes \<Rightarrow> bytes \<Rightarrow> decNumber \<Rightarrow> decNumber \<Rightarrow> nat \<Rightarrow> nat \<Rightarrow> bool" where
  "sigEqual a b da db i j =
     (let i = (if dot da = Some i then i + 1 else i);
          j = (if dot db = Some j then j + 1 else j);
          aMore = i \<le> sigLast da; bMore = j \<le> sigLast db
      in if \<not> aMore \<or> \<not> bMore then aMore = bMore
         else if a ! i \<noteq> b ! j then False
         else sigEqual a b da db (i + 1) (j + 1))"
  by pat_completeness auto
termination by (relation "measure (\<lambda>(a, b, da, db, i, j). Suc (sigLast da) - i)") (auto split: if_splits)

declare sigEqual.simps [simp del]

definition JSONNumberEqual :: "bytes \<Rightarrow> bytes \<Rightarrow> bool option" where
  "JSONNumberEqual a b =
     (if a = b then Some True
      else case (parseDecNumber a, parseDecNumber b) of
        (Some da, Some db) \<Rightarrow> Some
          (if isZero da \<or> isZero db then isZero da = isZero db
           else if neg da \<noteq> neg db \<or> \<not> decWeightEqual da db then False
           else sigEqual a b da db (sigFirst da) (sigFirst db))
      | _ \<Rightarrow> None)"

subsection \<open>The value of a spelling\<close>

definition exponent_value :: "bytes \<Rightarrow> int" where
  "exponent_value e =
     (case e of
        _ # c # t \<Rightarrow> if c = ch_plus then int (digits_value t) else if c = ch_minus then - int (digits_value t)
                     else int (digits_value (c # t))
      | _ \<Rightarrow> 0)"

definition number_value :: "bytes \<Rightarrow> rat" where
  "number_value s =
     (let negative = (s \<noteq> [] \<and> hd s = ch_minus);
          m = (if negative then tl s else s);
          i = takeWhile IsDigit m; r = dropWhile IsDigit m;
          hasDot = (r \<noteq> [] \<and> hd r = ch_dot);
          f = (if hasDot then takeWhile IsDigit (tl r) else []);
          e = (if hasDot then dropWhile IsDigit (tl r) else r)
      in (if negative then - 1 else 1) * of_nat (digits_value (i @ f)) * 10 powi (exponent_value e - int (length f)))"

subsection \<open>Runs of zeros\<close>

lemma skipZeros_eq: "skipZeros src i = i + length (takeWhile (\<lambda>c. c = ch_0) (drop i src))"
proof (induction src i rule: skipZeros.induct)
  case (1 src i)
  then show ?case
    by (cases "i < length src") (auto simp: skipZeros.simps [of src i] Cons_nth_drop_Suc [symmetric])
qed

lemma drop_skipZeros: "drop (skipZeros src i) src = dropWhile (\<lambda>c. c = ch_0) (drop i src)"
  by (simp add: skipZeros_eq dropWhile_eq_drop add.commute)

lemma slice_nonempty: "subslice src lo hi \<noteq> [] \<Longrightarrow> lo < hi"
  by (rule ccontr) (simp add: subslice_def)

lemma firstNonZero_run:
  assumes "subslice src lo hi = replicate p ch_0 @ c # r" "c \<noteq> ch_0" "hi \<le> length src"
  shows "firstNonZero src lo hi = Some (lo + p)"
  using assms
proof (induction p arbitrary: lo)
  case (Suc p)
  then have lt: "lo < hi" by (intro slice_nonempty [of src]) simp
  then have s: "subslice src lo hi = src ! lo # subslice src (lo + 1) hi" using Suc.prems(3) by (simp add: slice_Cons)
  then show ?case using Suc lt by (simp add: firstNonZero.simps [of src lo])
next
  case 0
  then have lt: "lo < hi" by (intro slice_nonempty [of src]) simp
  then have "subslice src lo hi = src ! lo # subslice src (lo + 1) hi" using 0 by (simp add: slice_Cons)
  then show ?case using 0 lt by (simp add: firstNonZero.simps [of src lo])
qed

lemma firstNonZero_none:
  assumes "list_all (\<lambda>c. c = ch_0) (subslice src lo hi)" "hi \<le> length src"
  shows "firstNonZero src lo hi = None"
  using assms
proof (induction "hi - lo" arbitrary: lo)
  case 0
  then show ?case by (simp add: firstNonZero.simps [of src lo])
next
  case (Suc n)
  then have "subslice src lo hi = src ! lo # subslice src (lo + 1) hi" by (simp add: slice_Cons)
  then show ?case using Suc by (simp add: firstNonZero.simps [of src lo])
qed

lemma subslice_last: "lo < hi \<Longrightarrow> hi \<le> length src \<Longrightarrow> subslice src lo hi = subslice src lo (hi - 1) @ [src ! (hi - 1)]"
  using slice_append_slice [of lo "hi - 1" hi src] by (simp add: slice_Cons)

lemma lastNonZero_run:
  assumes "subslice src lo hi = r @ c # replicate q ch_0" "c \<noteq> ch_0" "hi \<le> length src"
  shows "lastNonZero src lo hi = Some (lo + length r)"
  using assms
proof (induction q arbitrary: hi)
  case 0
  then have lt: "lo < hi" by (intro slice_nonempty [of src]) simp
  then have "subslice src lo (hi - 1) = r" "src ! (hi - 1) = c" using subslice_last [OF lt "0.prems"(3)] "0.prems"(1) by simp_all
  then show ?case using 0 lt length_slice [of "hi - 1" src lo] by (auto simp: lastNonZero.simps [of src lo hi])
next
  case (Suc q)
  then have lt: "lo < hi" by (intro slice_nonempty [of src]) simp
  have "subslice src lo (hi - 1) @ [src ! (hi - 1)] = (r @ c # replicate q ch_0) @ [ch_0]"
    using subslice_last [OF lt Suc.prems(3)] Suc.prems(1) by (simp add: replicate_append_same)
  then have "subslice src lo (hi - 1) = r @ c # replicate q ch_0" "src ! (hi - 1) = ch_0" by simp_all
  then show ?case using Suc lt by (simp add: lastNonZero.simps [of src lo hi])
qed

lemma lastNonZero_none:
  assumes "list_all (\<lambda>c. c = ch_0) (subslice src lo hi)" "hi \<le> length src"
  shows "lastNonZero src lo hi = None"
  using assms
proof (induction "hi - lo" arbitrary: hi)
  case 0
  then show ?case by (simp add: lastNonZero.simps [of src lo])
next
  case (Suc n)
  then have "lo < hi" by simp
  then show ?case using Suc subslice_last [of lo hi src] by (simp add: lastNonZero.simps [of src lo hi])
qed

text \<open>A digit list with a digit other than zero, stripped of its zeros on both sides.\<close>

definition core :: "bytes \<Rightarrow> bool" where
  "core g \<longleftrightarrow> list_all IsDigit g \<and> g \<noteq> [] \<and> hd g \<noteq> ch_0 \<and> last g \<noteq> ch_0"

lemma strip_front: "\<not> list_all (\<lambda>c. c = ch_0) xs \<Longrightarrow> \<exists>p c r. xs = replicate p ch_0 @ c # r \<and> c \<noteq> ch_0"
proof (induction xs)
  case (Cons x xs)
  show ?case
  proof (cases "x = ch_0")
    case True
    then obtain p c r where "xs = replicate p ch_0 @ c # r" "c \<noteq> ch_0" using Cons by auto
    then show ?thesis using True by (intro exI [of _ "Suc p"]) auto
  next
    case False
    then have "x # xs = replicate 0 ch_0 @ x # xs \<and> x \<noteq> ch_0" by simp
    then show ?thesis by blast
  qed
qed simp

lemma strip_back: "\<not> list_all (\<lambda>c. c = ch_0) xs \<Longrightarrow> \<exists>r c q. xs = r @ c # replicate q ch_0 \<and> c \<noteq> ch_0"
proof -
  assume "\<not> list_all (\<lambda>c. c = ch_0) xs"
  then have "\<not> list_all (\<lambda>c. c = ch_0) (rev xs)" by (simp add: list_all_iff)
  then obtain p c r where "rev xs = replicate p ch_0 @ c # r" "c \<noteq> ch_0" using strip_front by blast
  then have "xs = rev r @ c # replicate p ch_0" by (metis append_Cons append_assoc append_Nil rev.simps(2) rev_append rev_replicate rev_rev_ident)
  with \<open>c \<noteq> ch_0\<close> show ?thesis by blast
qed

lemma strip_core:
  assumes "list_all IsDigit ds" "\<not> list_all (\<lambda>c. c = ch_0) ds"
  obtains p g q where "ds = replicate p ch_0 @ g @ replicate q ch_0" "core g"
proof -
  obtain p c r where f: "ds = replicate p ch_0 @ c # r" "c \<noteq> ch_0" using strip_front [OF assms(2)] by blast
  then have "\<not> list_all (\<lambda>c. c = ch_0) (c # r)" by simp
  then obtain r' c' q where b: "c # r = r' @ c' # replicate q ch_0" "c' \<noteq> ch_0" using strip_back by blast
  let ?g = "r' @ [c']"
  have "ds = replicate p ch_0 @ ?g @ replicate q ch_0" using f(1) b(1) by simp
  moreover have "hd ?g = c" using b(1) by (cases r') auto
  moreover have "list_all IsDigit ?g" using assms(1) unfolding f(1) b(1) by simp
  ultimately show ?thesis using that [of p ?g q] f(2) b(2) by (simp add: core_def)
qed

subsection \<open>The exponent\<close>

lemma zeros_value: "digits_value (dropWhile (\<lambda>c. c = ch_0) ds) = digits_value ds"
  by (induction ds) (simp_all add: digits_value_Cons)

lemma exponent_fold: "list_all IsDigit ds \<Longrightarrow> foldl (\<lambda>e c. e * 10 + int (unat (c - ch_0))) 0 ds = int (digits_value ds)"
proof (induction ds rule: rev_induct)
  case (snoc c ds)
  then have "unat (c - ch_0) = unat c - 48" by (simp add: IsDigit_def unat_sub word_le_nat_alt)
  then have "int (unat (c - ch_0)) = int (unat c - 48)" by simp
  then show ?case using snoc by (simp add: digits_value_append digits_value_Cons) (simp add: digits_value_def)
qed (simp add: digits_value_def)

lemma parseExponent_correct:
  assumes "drop i src = e" "num_exp e" "i \<le> length src"
  obtains n ds fits x where "parseExponent src i = Some (n, ds, fits, x)" "list_all IsDigit ds" "ds \<noteq> [] \<Longrightarrow> hd ds \<noteq> ch_0"
    "exponent_value e = (if n then - int (digits_value ds) else int (digits_value ds))" "fits \<Longrightarrow> x = exponent_value e"
proof (cases "e = []")
  case True
  then show ?thesis using assms by (intro that [of False "[]" True 0]) (simp_all add: parseExponent_def exponent_value_def digits_value_def)
next
  case False
  then obtain c s ds where e: "e = c # s @ ds" "s = [] \<or> s = [ch_plus] \<or> s = [ch_minus]" "list_all IsDigit ds" "ds \<noteq> []"
    using assms(2) by (auto simp: num_exp_def digits1_def)
  define j where "j = i + 1 + length s"
  have d1: "drop (i + 1) src = s @ ds" using assms(1) e(1) by (metis drop_Suc_Cons drop0 drop_drop add.commute One_nat_def)
  then have dj: "drop j src = ds" unfolding j_def by (metis add.commute append_eq_conv_conj drop_drop)
  have "drop i src \<noteq> []" "drop (i + 1) src \<noteq> []" unfolding d1 using e(4) assms(1) e(1) by simp_all
  then have lt: "i < length src" "i + 1 < length src" by simp_all
  have h: "src ! (i + 1) = hd (s @ ds)" using d1 lt(2) by (metis hd_drop_conv_nth)
  have hd: "IsDigit (hd ds)" using e(3,4) by (cases ds) auto
  have sg: "(src ! (i + 1) = ch_minus) = (s = [ch_minus])" "(if src ! (i + 1) = ch_plus \<or> s = [ch_minus] then i + 1 + 1 else i + 1) = j"
    using h e(2) hd by (auto simp: j_def IsDigit_def)
  define zs where "zs = dropWhile (\<lambda>c. c = ch_0) ds"
  have z: "drop (skipZeros src j) src = zs" by (simp add: drop_skipZeros dj zs_def)
  have zd: "list_all IsDigit zs" "zs \<noteq> [] \<Longrightarrow> hd zs \<noteq> ch_0"
    using e(3) hd_dropWhile [of "\<lambda>c. c = ch_0" ds] by (auto simp: zs_def list_all_iff dest: set_dropWhileD)
  have v: "exponent_value e = (if s = [ch_minus] then - int (digits_value zs) else int (digits_value zs))"
    using e hd by (cases ds) (auto simp: exponent_value_def zs_def zeros_value IsDigit_def digits_value_Cons)
  have "parseExponent src i = Some (s = [ch_minus], zs, length zs \<le> 18,
     if length zs \<le> 18 then exponent_value e else 0)"
    using lt unfolding parseExponent_def Let_def sg z by (simp add: v exponent_fold [OF zd(1), simplified])
  then show ?thesis using zd v by (intro that [of "s = [ch_minus]" zs "length zs \<le> 18" "if length zs \<le> 18 then exponent_value e else 0"]) simp_all
qed

subsection \<open>The decomposition\<close>

text \<open>What the parser returns for a number with sign \<open>s\<close>, integer digits \<open>i\<close>, fraction digits \<open>f\<close> and exponent \<open>e\<close>: zero
  exactly when all digits are zero, otherwise the range of the significant digits \<open>g\<close>.\<close>

definition sig_digits :: "bytes \<Rightarrow> decNumber \<Rightarrow> bytes" where
  "sig_digits src d = filter (\<lambda>c. c \<noteq> ch_dot) (subslice src (sigFirst d) (Suc (sigLast d)))"

definition dot_in_place :: "bytes \<Rightarrow> decNumber \<Rightarrow> bool" where
  "dot_in_place src d \<longleftrightarrow> sigLast d < length src \<and> (\<forall>k. sigFirst d \<le> k \<and> k \<le> sigLast d \<longrightarrow> (src ! k = ch_dot \<longleftrightarrow> dot d = Some k))"

definition decomposed :: "bytes \<Rightarrow> bool \<Rightarrow> bytes \<Rightarrow> bytes \<Rightarrow> bytes \<Rightarrow> decNumber \<Rightarrow> bool" where
  "decomposed src negative i f e d \<longleftrightarrow>
     neg d = negative \<and> isZero d = list_all (\<lambda>c. c = ch_0) (i @ f)
     \<and> (\<not> isZero d \<longrightarrow> weighted d \<and> written_exponent d = exponent_value e \<and> dot_in_place src d \<and> core (sig_digits src d)
          \<and> (\<exists>p q. i @ f = replicate p ch_0 @ sig_digits src d @ replicate q ch_0 \<and> adj d = int (length i) - 1 - int p))"

lemma filter_digits: "list_all IsDigit ds \<Longrightarrow> filter (\<lambda>c. c \<noteq> ch_dot) ds = ds"
  by (induction ds) (auto simp: IsDigit_def)

lemma num_int_head: "num_int i \<Longrightarrow> list_all IsDigit i \<and> i \<noteq> [] \<and> (hd i = ch_0 \<longrightarrow> i = [ch_0])"
  using num_int_digits [of i] by (auto simp: num_int_def isOneNine_def)

lemma subslice_parts: "src = a @ b @ c \<Longrightarrow> subslice src (length a) (length a + length b) = b"
  by (simp add: subslice_def)

text \<open>The places of sign, digits and dot.\<close>

lemma number_places:
  assumes "src = s @ i @ f @ e" "s = [] \<or> s = [ch_minus]" "num_int i" "num_frac f" "num_exp e"
  shows "src \<noteq> []" "(src ! 0 = ch_minus) = (s = [ch_minus])" "skipDigits src (length src) (length s) = length s + length i"
    "(length s + length i < length src \<and> src ! (length s + length i) = ch_dot) = (f \<noteq> [])"
    "f \<noteq> [] \<Longrightarrow> skipDigits src (length src) (length s + length i + 1) = length s + length i + length f"
    "src ! length s = hd i" "drop (length s + length i + length f) src = e"
proof -
  note i = num_int_head [OF assms(3)]
  have h: "IsDigit (hd i)" using i by (cases i) auto
  have fe: "e = [] \<or> hd e = ch_e \<or> hd e = ch_E" using assms(5) by (auto simp: num_exp_def)
  have f: "f = [] \<or> (\<exists>ds. f = ch_dot # ds \<and> list_all IsDigit ds)" using assms(4) by (auto simp: num_frac_def digits1_def)
  show "src \<noteq> []" using assms(1) i by simp
  show "(src ! 0 = ch_minus) = (s = [ch_minus])" using assms(1,2) i h by (cases i) (auto simp: IsDigit_def)
  show "src ! length s = hd i" using assms(1) i by (cases i) (auto simp: nth_append)
  have d: "drop (length s) src = i @ f @ e" "drop (length s + length i) src = f @ e" using assms(1) by simp_all
  have "f @ e = [] \<or> \<not> IsDigit (hd (f @ e))" using fe f by (auto simp: IsDigit_def)
  with digits_end_run [OF d(1)] i show "skipDigits src (length src) (length s) = length s + length i" by (simp add: skipDigits_eq)
  have "(length s + length i < length src \<and> src ! (length s + length i) = ch_dot) \<longleftrightarrow> f @ e \<noteq> [] \<and> hd (f @ e) = ch_dot"
    using d(2) hd_drop_conv_nth [of "length s + length i" src] by (cases "length s + length i < length src") auto
  also have "\<dots> \<longleftrightarrow> f \<noteq> []" using f fe by auto
  finally show "(length s + length i < length src \<and> src ! (length s + length i) = ch_dot) = (f \<noteq> [])" .
  show "drop (length s + length i + length f) src = e" using assms(1) by simp
  show "skipDigits src (length src) (length s + length i + 1) = length s + length i + length f" if "f \<noteq> []"
  proof -
    obtain ds where ds: "f = ch_dot # ds" "list_all IsDigit ds" using f \<open>f \<noteq> []\<close> by blast
    have "drop (length s + length i + 1) src = ds @ e" using assms(1) ds(1) by simp
    moreover have "e = [] \<or> \<not> IsDigit (hd e)" using fe by (auto simp: IsDigit_def)
    ultimately show ?thesis using digits_end_run [of "length s + length i + 1" src ds e] ds by (simp add: skipDigits_eq)
  qed
qed

text \<open>A number taken apart; \<open>ds\<close> are the fraction's digits, \<open>g\<close> the significant ones.\<close>

definition taken_apart :: "bytes \<Rightarrow> bytes \<Rightarrow> bytes \<Rightarrow> bytes \<Rightarrow> bytes \<Rightarrow> bytes \<Rightarrow> bool" where
  "taken_apart src s i f ds e \<longleftrightarrow> src = s @ i @ f @ e \<and> (s = [] \<or> s = [ch_minus]) \<and> num_int i
     \<and> num_frac f \<and> (f = [] \<and> ds = [] \<or> f = ch_dot # ds) \<and> num_exp e"

lemma taken_apartD:
  assumes "taken_apart src s i f ds e"
  shows "src = s @ i @ f @ e" "s = [] \<or> s = [ch_minus]" "num_int i" "num_frac f" "f = [] \<and> ds = [] \<or> f = ch_dot # ds" "num_exp e"
    "list_all IsDigit i" "list_all IsDigit ds" "i \<noteq> []"
  using assms num_int_head [of i] by (auto simp: taken_apart_def num_frac_def digits1_def)

lemma json_number_apart: "json_number src \<Longrightarrow> \<exists>s i f ds e. taken_apart src s i f ds e"
  unfolding json_number_def taken_apart_def num_frac_def by blast

lemma fraction_slice:
  assumes "taken_apart src s i f ds e"
  shows "subslice src (if f \<noteq> [] then length s + length i + 1 else 0) (if f \<noteq> [] then length s + length i + length f else 0) = ds"
    "(if f \<noteq> [] then length s + length i + length f else 0) \<le> length src"
proof -
  note t = taken_apartD [OF assms]
  show "(if f \<noteq> [] then length s + length i + length f else 0) \<le> length src" using t(1) by simp
  show "subslice src (if f \<noteq> [] then length s + length i + 1 else 0) (if f \<noteq> [] then length s + length i + length f else 0) = ds"
  proof (cases "f = []")
    case True
    then show ?thesis using t(5) by (simp add: subslice_def)
  next
    case False
    then have "f = ch_dot # ds" using t(5) by simp
    then show ?thesis using subslice_parts [of src "s @ i @ [ch_dot]" ds e] t(1) by simp
  qed
qed

lemma first_significant:
  assumes "taken_apart src s i f ds e" "i @ ds = replicate p ch_0 @ g @ replicate q ch_0" "core g"
  defines "fs \<equiv> (if f \<noteq> [] then length s + length i + 1 else 0)" and "fe \<equiv> (if f \<noteq> [] then length s + length i + length f else 0)"
  shows "(if src ! length s \<noteq> ch_0 then Some (length s, int (length s + length i - length s) - 1)
     else map_option (\<lambda>j. (j, - int (j - fs) - 1)) (firstNonZero src fs fe))
     = Some (length s + p + (if length i \<le> p then 1 else 0), int (length i) - 1 - int p)"
proof -
  note t = taken_apartD [OF assms(1)] and sl = fraction_slice [OF assms(1), folded fs_def fe_def]
  have g: "g = hd g # tl g" "hd g \<noteq> ch_0" using assms(3) by (simp_all add: core_def)
  have h: "src ! length s = hd i" using t(1,9) by (cases i) (auto simp: nth_append)
  show ?thesis
  proof (cases "hd i = ch_0")
    case False
    have "p = 0" using assms(2) False t(9) by (cases i; cases p) auto
    then show ?thesis using False h t(9) by simp
  next
    case True
    then have i: "i = [ch_0]" using num_int_head [OF t(3)] by blast
    have "p \<noteq> 0" using assms(2) g i by (metis append_Cons append_Nil list.inject replicate_0)
    then obtain p' where p: "p = Suc p'" by (cases p) auto
    then have ds: "ds = replicate p' ch_0 @ hd g # (tl g @ replicate q ch_0)" using assms(2) i g(1) by (metis append_Cons append_Nil list.inject replicate_Suc)
    then have "f \<noteq> []" using t(5) by auto
    moreover have "firstNonZero src fs fe = Some (fs + p')" using firstNonZero_run [OF _ g(2) sl(2)] sl(1) ds by simp
    ultimately show ?thesis using True h i p by (simp add: fs_def)
  qed
qed

lemma last_significant:
  assumes "taken_apart src s i f ds e" "i @ ds = replicate p ch_0 @ g @ replicate q ch_0" "core g"
  defines "fs \<equiv> (if f \<noteq> [] then length s + length i + 1 else 0)" and "fe \<equiv> (if f \<noteq> [] then length s + length i + length f else 0)"
  shows "(case lastNonZero src fs fe of Some j \<Rightarrow> Some j | None \<Rightarrow> lastNonZero src 0 (length s + length i))
     = Some (length s + p + length g - 1 + (if length i < p + length g then 1 else 0))"
proof -
  note t = taken_apartD [OF assms(1)] and sl = fraction_slice [OF assms(1), folded fs_def fe_def]
  define r where "r = replicate p ch_0 @ butlast g"
  have g: "g = butlast g @ [last g]" "last g \<noteq> ch_0" "0 < length g" using assms(3) by (simp_all add: core_def)
  have d: "i @ ds = r @ last g # replicate q ch_0" using assms(2) g(1) unfolding r_def by (metis append.assoc append_Cons append_Nil)
  have lr: "length r = p + length g - 1" using g(3) unfolding r_def by (simp del: length_greater_0_conv)
  show ?thesis
  proof (cases "length i < p + length g")
    case True
    then have "length i \<le> length r" using lr by simp
    then have ds: "ds = drop (length i) r @ last g # replicate q ch_0" using d by (metis append_eq_conv_conj drop_append drop_eq_Nil2 diff_is_0_eq' drop0)
    then have "f \<noteq> []" using t(5) by auto
    moreover have "lastNonZero src fs fe = Some (fs + length (drop (length i) r))" using lastNonZero_run [OF _ g(2) sl(2)] sl(1) ds by simp
    ultimately show ?thesis using True lr by (simp add: fs_def)
  next
    case False
    then have l: "length r < length i" using lr g(3) by linarith
    define m where "m = length i - Suc (length r)"
    have i: "i = r @ last g # replicate m ch_0"
    proof -
      have "i = take (length i) (r @ last g # replicate q ch_0)" using d by (metis append_eq_conv_conj)
      then have "i = r @ take (length i - length r) (last g # replicate q ch_0)" using l by simp
      moreover have "length i - length r = Suc m" using l by (simp add: m_def)
      moreover have "length i + length ds = length r + Suc q" using arg_cong [OF d, of length] by simp
      then have "m \<le> q" using l unfolding m_def by linarith
      ultimately show ?thesis using \<open>m \<le> q\<close> by (simp add: min_def)
    qed
    then have "ds = drop (Suc m) (last g # replicate q ch_0)" using d by (metis append_assoc append_eq_conv_conj drop_append length_append length_Cons length_replicate drop_eq_Nil2 diff_add_inverse le_add1 append_Nil)
    then have "list_all (\<lambda>c. c = ch_0) ds" by (simp add: list_all_iff)
    then have n: "lastNonZero src fs fe = None" using lastNonZero_none [OF _ sl(2)] sl(1) by simp
    have "subslice src 0 (length s + length i) = (s @ r) @ last g # replicate m ch_0" using t(1) i by (simp add: subslice_def)
    from lastNonZero_run [OF this g(2)] have "lastNonZero src 0 (length s + length i) = Some (length s + length r)" using t(1) by simp
    then show ?thesis using False n lr g(3) by simp
  qed
qed

text \<open>Digits up to a place, with and without the dot.\<close>

lemma filter_prefix:
  assumes "list_all IsDigit i" "list_all IsDigit ds" "f = [] \<and> ds = [] \<or> f = ch_dot # ds" "n \<le> length (i @ ds)"
    "n \<le> length i \<and> c = n \<or> length i \<le> n \<and> c = n + 1"
  shows "filter (\<lambda>c. c \<noteq> ch_dot) (take c (i @ f)) = take n (i @ ds)"
proof -
  have d: "list_all IsDigit xs \<Longrightarrow> filter (\<lambda>c. c \<noteq> ch_dot) (take k xs) = take k xs" for k xs
    by (rule filter_digits) (auto simp: list_all_iff dest: in_set_takeD)
  from assms(5) show ?thesis
  proof
    assume "n \<le> length i \<and> c = n"
    then show ?thesis using d [OF assms(1)] by simp
  next
    assume n: "length i \<le> n \<and> c = n + 1"
    then have c: "c - length i = Suc (n - length i)" by (simp add: Suc_diff_le)
    have "take c (i @ f) = i @ take (c - length i) f" "take n (i @ ds) = i @ take (n - length i) ds" using n by simp_all
    then show ?thesis using assms(3) filter_digits [OF assms(1)] d [OF assms(2)] unfolding c by auto
  qed
qed

lemma significant_slice:
  assumes "taken_apart src s i f ds e" "i @ ds = replicate p ch_0 @ g @ replicate q ch_0" "core g"
  shows "filter (\<lambda>c. c \<noteq> ch_dot) (subslice src (length s + p + (if length i \<le> p then 1 else 0))
      (Suc (length s + p + length g - 1 + (if length i < p + length g then 1 else 0)))) = g"
proof -
  note t = taken_apartD [OF assms(1)]
  have g: "0 < length g" using assms(3) by (simp add: core_def)
  define a b where "a = p + (if length i \<le> p then 1 else 0)" and "b = p + length g + (if length i < p + length g then 1 else 0)"
  have n: "p + length g \<le> length (i @ ds)" unfolding assms(2) by simp
  have ab: "a \<le> b" using g unfolding a_def b_def by (simp del: length_greater_0_conv)
  have bf: "b \<le> length (i @ f)" using n t(5) by (cases "f = []") (auto simp: b_def)
  have "filter (\<lambda>c. c \<noteq> ch_dot) (take a (i @ f)) = take p (i @ ds)"
    using n by (intro filter_prefix t(5,7,8)) (auto simp: a_def)
  moreover have "filter (\<lambda>c. c \<noteq> ch_dot) (take b (i @ f)) = take (p + length g) (i @ ds)"
    using n by (intro filter_prefix t(5,7,8)) (auto simp: b_def)
  moreover have "take b (i @ f) = take a (i @ f) @ drop a (take b (i @ f))"
    using ab(1) append_take_drop_id [of a "take b (i @ f)"] by (simp only: take_take min_absorb1)
  ultimately have "take p (i @ ds) @ filter (\<lambda>c. c \<noteq> ch_dot) (drop a (take b (i @ f))) = take (p + length g) (i @ ds)"
    by (metis filter_append)
  then have fg: "filter (\<lambda>c. c \<noteq> ch_dot) (drop a (take b (i @ f))) = g" unfolding assms(2) by simp
  have "subslice src (length s + a) (length s + b) = drop a (take b (i @ f))"
  proof -
    define m where "m = i @ f"
    have "drop (length s + a) src = drop a (m @ e)" using t(1) by (simp add: m_def)
    then show ?thesis using ab bf unfolding m_def [symmetric] by (simp add: subslice_def take_drop)
  qed
  moreover have "Suc (length s + p + length g - 1 + (if length i < p + length g then 1 else 0)) = length s + b"
    using g by (simp add: b_def)
  ultimately show ?thesis using fg by (simp add: a_def add.assoc)
qed

lemma dot_places:
  assumes "taken_apart src s i f ds e" "length s \<le> k" "k < length s + length (i @ f)"
  shows "src ! k = ch_dot \<longleftrightarrow> (if f \<noteq> [] then Some (length s + length i) else None) = Some k"
proof -
  note t = taken_apartD [OF assms(1)]
  define m where "m = k - length s"
  have m: "src ! k = (i @ f) ! m" "k = length s + m" "m < length (i @ f)" using t(1) assms(2,3) by (auto simp: m_def nth_append)
  have nd: "IsDigit ((i @ f) ! m)" if "m \<noteq> length i"
  proof (cases "m < length i")
    case True
    then show ?thesis using t(7) by (simp add: nth_append list_all_length)
  next
    case False
    define j where "j = m - Suc (length i)"
    have j: "m = length i + Suc j" using False that by (simp add: j_def)
    then have "f = ch_dot # ds" "j < length ds" using m(3) t(5) by auto
    then show ?thesis using j t(8) by (simp add: nth_append list_all_length)
  qed
  show ?thesis
  proof (cases "m = length i")
    case True
    then show ?thesis using m t(5) by (auto simp: nth_append)
  next
    case False
    then show ?thesis using nd m by (auto simp: IsDigit_def)
  qed
qed

lemma parseDecNumber_correct:
  assumes "taken_apart src s i f ds e" "length src < 2 ^ 62"
  shows "\<exists>d. parseDecNumber src = Some d \<and> decomposed src (s = [ch_minus]) i ds e d"
proof -
  note t = taken_apartD [OF assms(1)]
  note pl = number_places [OF t(1-4,6)]
  define fs fe where "fs = (if f \<noteq> [] then length s + length i + 1 else 0)" and "fe = (if f \<noteq> [] then length s + length i + length f else 0)"
  note sl = fraction_slice [OF assms(1), folded fs_def fe_def]
  have el: "length s + length i + length f \<le> length src" using t(1) by simp
  obtain n eds fits x where ex: "parseExponent src (length s + length i + length f) = Some (n, eds, fits, x)" "list_all IsDigit eds"
    "eds \<noteq> [] \<Longrightarrow> hd eds \<noteq> ch_0" "exponent_value e = (if n then - int (digits_value eds) else int (digits_value eds))" "fits \<Longrightarrow> x = exponent_value e"
    by (rule parseExponent_correct [OF pl(7) t(6) el]) (rule that)
  have st: "(if s = [ch_minus] then 1 else 0) = length s" using t(2) by auto
  have fe: "(if f \<noteq> [] then skipDigits src (length src) fs else 0) = fe" using pl(5) by (simp add: fs_def fe_def)
  have ie: "(if f \<noteq> [] then fe else length s + length i) = length s + length i + length f" by (simp add: fe_def)
  have lt: "\<not> length src \<le> length s" using t(1,9) by simp
  define base where "base = \<lparr>isZero = False, neg = (s = [ch_minus]), sigFirst = 0, sigLast = 0,
     dot = (if f \<noteq> [] then Some (length s + length i) else None), weight = 0, expFits = fits, expNeg = n, expDigits = eds, adj = 0\<rparr>"
  have parse: "parseDecNumber src =
     (case (if src ! length s \<noteq> ch_0 then Some (length s, int (length s + length i - length s) - 1)
            else map_option (\<lambda>j. (j, - int (j - fs) - 1)) (firstNonZero src fs fe)) of
        None \<Rightarrow> Some (base\<lparr>isZero := True\<rparr>)
      | Some (first, adjust) \<Rightarrow> map_option (\<lambda>j. base\<lparr>sigFirst := first, sigLast := j, weight := (if fits then x + adjust else 0), adj := adjust\<rparr>)
          (case lastNonZero src fs fe of Some j \<Rightarrow> Some j | None \<Rightarrow> lastNonZero src 0 (length s + length i)))"
    using pl(1) lt unfolding parseDecNumber_def Let_def pl(2) st pl(3,4) fs_def [symmetric] fe ie ex(1)
    by (simp add: base_def split: option.split)
  show ?thesis
  proof (cases "list_all (\<lambda>c. c = ch_0) (i @ ds)")
    case True
    then have "src ! length s = ch_0" using pl(6) t(9) by (cases i) auto
    moreover have "firstNonZero src fs fe = None" using True firstNonZero_none [OF _ sl(2)] sl(1) by simp
    ultimately have "parseDecNumber src = Some (base\<lparr>isZero := True\<rparr>)" unfolding parse by simp
    then show ?thesis using True by (simp add: decomposed_def base_def)
  next
    case False
    have "list_all IsDigit (i @ ds)" using t(7,8) by simp
    then obtain p g q where g: "i @ ds = replicate p ch_0 @ g @ replicate q ch_0" "core g" using strip_core False by blast
    define first lst adjust where "first = length s + p + (if length i \<le> p then 1 else 0)"
      and "lst = length s + p + length g - 1 + (if length i < p + length g then 1 else 0)" and "adjust = int (length i) - 1 - int p"
    define d where "d = base\<lparr>sigFirst := first, sigLast := lst, weight := (if fits then x + adjust else 0), adj := adjust\<rparr>"
    have "parseDecNumber src = Some d"
      unfolding parse first_significant [OF assms(1) g, folded fs_def fe_def] last_significant [OF assms(1) g, folded fs_def fe_def]
      by (simp add: d_def first_def lst_def adjust_def)
    moreover have "decomposed src (s = [ch_minus]) i ds e d"
    proof -
      have sd: "sig_digits src d = g" using significant_slice [OF assms(1) g] by (simp add: sig_digits_def d_def base_def first_def lst_def)
      have gl: "0 < length g" "p + length g \<le> length (i @ ds)" using g(2) by (simp add: core_def, unfold g(1)) simp
      have "length ds \<le> length f" "length (i @ ds) \<le> length src" using t(1,5) by auto
      then have "Suc p \<le> length src" using gl by linarith
      moreover have "length i \<le> length src" using t(1) by simp
      ultimately have "int p + 1 \<le> int (length src)" "int (length i) \<le> int (length src)" "int (length src) < 2 ^ 62"
        using assms(2) by simp_all
      then have "\<bar>adjust\<bar> < 2 ^ 62" unfolding adjust_def by linarith
      then have w: "weighted d" "written_exponent d = exponent_value e"
        using ex by (simp_all add: weighted_def full_weight_def written_exponent_def d_def base_def)
      have "lst < length s + length (i @ f)" using gl t(5) unfolding lst_def by (cases "f = []") (auto simp del: length_greater_0_conv)
      then have "dot_in_place src d" using dot_places [OF assms(1)] t(1)
        by (auto simp: dot_in_place_def d_def base_def first_def)
      then show ?thesis using False sd g w by (auto simp: decomposed_def d_def base_def adjust_def)
    qed
    ultimately show ?thesis by blast
  qed
qed

subsection \<open>Comparing the digits\<close>

text \<open>The digits from a place on, and how the loop walks over them.\<close>

definition digits_from :: "bytes \<Rightarrow> decNumber \<Rightarrow> nat \<Rightarrow> bytes" where
  "digits_from src d k = filter (\<lambda>c. c \<noteq> ch_dot) (subslice src k (Suc (sigLast d)))"

lemma digits_from_step:
  assumes "dot_in_place src d" "sigFirst d \<le> k"
  defines "k' \<equiv> (if dot d = Some k then k + 1 else k)"
  shows "digits_from src d k = (if k' \<le> sigLast d then src ! k' # digits_from src d (k' + 1) else [])"
proof -
  have l: "sigLast d < length src" and dt: "\<And>j. sigFirst d \<le> j \<Longrightarrow> j \<le> sigLast d \<Longrightarrow> (src ! j = ch_dot) = (dot d = Some j)"
    using assms(1) by (auto simp: dot_in_place_def)
  have cons: "digits_from src d j = (if src ! j = ch_dot then [] else [src ! j]) @ digits_from src d (j + 1)" if "j \<le> sigLast d" for j
    using that l by (simp add: digits_from_def slice_Cons)
  have nil: "digits_from src d j = []" if "\<not> j \<le> sigLast d" for j using that by (simp add: digits_from_def subslice_def)
  show ?thesis
  proof (cases "dot d = Some k")
    case True
    then have k: "k' = k + 1" "dot d \<noteq> Some (k + 1)" by (simp_all add: k'_def)
    have "digits_from src d k = digits_from src d (k + 1)"
      using True cons [of k] dt [OF assms(2)] nil [of k] nil [of "k + 1"] by (cases "k \<le> sigLast d") auto
    then show ?thesis using k cons [of "k + 1"] nil [of "k + 1"] dt [of "k + 1"] assms(2) by simp
  next
    case False
    then show ?thesis using cons [of k] nil [of k] dt [OF assms(2)] by (simp add: k'_def)
  qed
qed

lemma sigEqual_digits:
  assumes "dot_in_place a da" "dot_in_place b db" "sigFirst da \<le> i" "sigFirst db \<le> j"
  shows "sigEqual a b da db i j \<longleftrightarrow> digits_from a da i = digits_from b db j"
  using assms(3,4)
proof (induction "Suc (sigLast da) - i" arbitrary: i j rule: less_induct)
  case less
  define i' j' where "i' = (if dot da = Some i then i + 1 else i)" and "j' = (if dot db = Some j then j + 1 else j)"
  have ge: "i \<le> i'" "sigFirst da \<le> i' + 1" "sigFirst db \<le> j' + 1" using less.prems by (auto simp: i'_def j'_def)
  have u: "sigEqual a b da db i j = (if \<not> i' \<le> sigLast da \<or> \<not> j' \<le> sigLast db then (i' \<le> sigLast da) = (j' \<le> sigLast db)
     else if a ! i' \<noteq> b ! j' then False else sigEqual a b da db (i' + 1) (j' + 1))"
    by (simp only: sigEqual.simps [of a b da db i j] Let_def i'_def j'_def)
  have f: "digits_from a da i = (if i' \<le> sigLast da then a ! i' # digits_from a da (i' + 1) else [])"
    "digits_from b db j = (if j' \<le> sigLast db then b ! j' # digits_from b db (j' + 1) else [])"
    using digits_from_step [OF assms(1) less.prems(1)] digits_from_step [OF assms(2) less.prems(2)] by (simp_all only: i'_def j'_def)
  show ?case
  proof (cases "i' \<le> sigLast da \<and> j' \<le> sigLast db")
    case True
    then have "sigEqual a b da db (i' + 1) (j' + 1) = (digits_from a da (i' + 1) = digits_from b db (j' + 1))"
      using ge by (intro less.hyps) auto
    then show ?thesis using True by (simp add: u f)
  next
    case False
    then show ?thesis by (auto simp: u f)
  qed
qed

subsection \<open>Values\<close>

lemma takeWhile_digits: "list_all IsDigit ds \<Longrightarrow> r = [] \<or> \<not> IsDigit (hd r) \<Longrightarrow> takeWhile IsDigit (ds @ r) = ds \<and> dropWhile IsDigit (ds @ r) = r"
  by (cases r) (auto simp: list_all_iff takeWhile_append2 dropWhile_append2)

lemma number_value_apart:
  assumes "taken_apart src s i f ds e"
  shows "number_value src = (if s = [ch_minus] then - 1 else 1) * of_nat (digits_value (i @ ds)) * 10 powi (exponent_value e - int (length ds))"
proof -
  note t = taken_apartD [OF assms]
  have h: "IsDigit (hd i)" using t(7,9) by (cases i) auto
  have e: "e = [] \<or> hd e = ch_e \<or> hd e = ch_E" using t(6) by (auto simp: num_exp_def)
  have n: "(src \<noteq> [] \<and> hd src = ch_minus) = (s = [ch_minus])" "(if s = [ch_minus] then tl src else src) = i @ f @ e"
    using t(1,2,9) h by (cases i; auto simp: IsDigit_def)+
  have fe: "f @ e = [] \<or> \<not> IsDigit (hd (f @ e))" "e = [] \<or> \<not> IsDigit (hd e)" using e t(5) by (auto simp: IsDigit_def)
  have d: "(f @ e \<noteq> [] \<and> hd (f @ e) = ch_dot) = (f \<noteq> [])" using e t(5) by auto
  note i = takeWhile_digits [OF t(7) fe(1)] and f = takeWhile_digits [OF t(8) fe(2)]
  have "(if f \<noteq> [] then takeWhile IsDigit (tl (f @ e)) else []) = ds" "(if f \<noteq> [] then dropWhile IsDigit (tl (f @ e)) else f @ e) = e"
    using t(5) f by auto
  then show ?thesis unfolding number_value_def Let_def n i [THEN conjunct1] i [THEN conjunct2] d by simp
qed

text \<open>The significant digits and the weight are a normal form.\<close>

lemma core_bounds: "core g \<Longrightarrow> 10 ^ (length g - 1) \<le> digits_value g \<and> digits_value g < 10 ^ length g \<and> digits_value g mod 10 \<noteq> 0"
proof -
  assume g: "core g"
  then have "digits_value (butlast g @ [last g]) mod 10 = (unat (last g) - 48) mod 10"
    by (simp only: digits_value_append digits_value_Cons) (simp add: digits_value_def mod_add_eq [symmetric])
  moreover have "IsDigit (last g)" "unat (last g) \<noteq> 48" using g by (auto simp: core_def list_all_iff word_unat_eq_iff)
  then have "(unat (last g) - 48) mod 10 \<noteq> 0" using digit_byte [of "last g"] by (auto simp: IsDigit_def word_le_nat_alt)
  ultimately show ?thesis using g digits_decimal(2) [of g] digits_value_bound [of g] by (simp add: core_def)
qed

lemma powi_shift: "(10 :: rat) powi (int k + z) = 10 ^ k * 10 powi z"
  by (simp add: power_int_add)

lemma core_magnitude:
  assumes "core g"
  shows "10 powi w \<le> (of_nat (digits_value g) * 10 powi (w + 1 - int (length g)) :: rat)"
    "(of_nat (digits_value g) * 10 powi (w + 1 - int (length g)) :: rat) < 10 powi (w + 1)"
proof -
  define z where "z = w + 1 - int (length g)"
  have g: "0 < length g" using assms by (simp add: core_def)
  have c: "10 ^ (length g - 1) \<le> digits_value g" "digits_value g < 10 ^ length g" using core_bounds [OF assms] by simp_all
  have lo: "(10 :: rat) ^ (length g - 1) \<le> of_nat (digits_value g)" using c(1) by (metis of_nat_le_iff of_nat_numeral of_nat_power)
  have hi: "of_nat (digits_value g) < (10 :: rat) ^ length g" using c(2) by (metis of_nat_less_iff of_nat_numeral of_nat_power)
  have pos: "(0 :: rat) < 10 powi z" by simp
  have "int (length g - 1) + z = w" "int (length g) + z = w + 1" using g unfolding z_def by linarith+
  then have p: "(10 :: rat) ^ (length g - 1) * 10 powi z = 10 powi w" "(10 :: rat) ^ length g * 10 powi z = 10 powi (w + 1)"
    by (simp_all only: powi_shift [symmetric])
  show "10 powi w \<le> (of_nat (digits_value g) * 10 powi (w + 1 - int (length g)) :: rat)"
    unfolding p(1) [symmetric] z_def [symmetric] by (rule mult_right_mono [OF lo]) (use pos in simp)
  show "(of_nat (digits_value g) * 10 powi (w + 1 - int (length g)) :: rat) < 10 powi (w + 1)"
    unfolding p(2) [symmetric] z_def [symmetric] by (rule mult_strict_right_mono [OF hi pos])
qed

lemma core_same_weight:
  assumes "core g" "core h" "length g \<le> length h"
    "(of_nat (digits_value g) * 10 powi (w + 1 - int (length g)) :: rat) = of_nat (digits_value h) * 10 powi (w + 1 - int (length h))"
  shows "g = h"
proof -
  define k where "k = length h - length g"
  have "w + 1 - int (length g) = int k + (w + 1 - int (length h))" using assms(3) by (simp add: k_def of_nat_diff)
  then have "(10 :: rat) powi (w + 1 - int (length g)) = 10 ^ k * 10 powi (w + 1 - int (length h))"
    by (simp only: powi_shift)
  then have "(of_nat (digits_value g) * 10 ^ k :: rat) = of_nat (digits_value h)" using assms(4) by simp
  then have "of_nat (digits_value g * 10 ^ k) = (of_nat (digits_value h) :: rat)" by simp
  then have v: "digits_value g * 10 ^ k = digits_value h" by (simp only: of_nat_eq_iff)
  have "k = 0"
  proof (rule ccontr)
    assume "k \<noteq> 0"
    then have "digits_value h mod 10 = 0" unfolding v [symmetric] by (cases k) simp_all
    with core_bounds [OF assms(2)] show False by simp
  qed
  then have "length g = length h" "digits_value g = digits_value h" using v assms(3) by (simp_all add: k_def)
  then show "g = h" using digits_fixed [of g] digits_fixed [of h] assms(1,2) by (simp add: core_def)
qed

lemma core_unique:
  assumes "core g" "core h"
  shows "(of_nat (digits_value g) * 10 powi (w + 1 - int (length g)) :: rat) = of_nat (digits_value h) * 10 powi (v + 1 - int (length h))
     \<longleftrightarrow> w = v \<and> g = h"
proof
  assume eq: "(of_nat (digits_value g) * 10 powi (w + 1 - int (length g)) :: rat) = of_nat (digits_value h) * 10 powi (v + 1 - int (length h))"
  have mono: "\<not> x < y" if "(10 :: rat) powi y < 10 powi (x + 1)" for x y :: int
    using power_int_increasing [of "x + 1" y "10 :: rat"] that by auto
  have "\<not> w < v" by (rule mono) (rule le_less_trans [OF core_magnitude(1) [OF assms(2)] core_magnitude(2) [OF assms(1), of w, unfolded eq]])
  moreover have "\<not> v < w" by (rule mono) (rule le_less_trans [OF core_magnitude(1) [OF assms(1)] core_magnitude(2) [OF assms(2), of v, folded eq]])
  ultimately have w: "w = v" by simp
  then show "w = v \<and> g = h"
    using core_same_weight [OF assms] core_same_weight [OF assms(2,1)] eq by (metis nat_le_linear)
qed simp

lemma decomposed_value:
  assumes "taken_apart src s i f ds e" "decomposed src (s = [ch_minus]) i ds e d"
  shows "number_value src = (if isZero d then 0 else (if neg d then - 1 else 1)
     * (of_nat (digits_value (sig_digits src d)) * 10 powi (full_weight d + 1 - int (length (sig_digits src d)))))"
proof (cases "isZero d")
  case True
  then have "\<forall>c\<in>set (i @ ds). c = ch_0" using assms(2) by (simp add: decomposed_def list_all_iff)
  then have "replicate (length (i @ ds)) ch_0 = i @ ds" by (rule replicate_length_same)
  then have "digits_value (i @ ds) = digits_value []" using digits_value_zeros [of "length (i @ ds)" "[]"] by (simp only: append_Nil2)
  then have "digits_value (i @ ds) = 0" by (simp add: digits_value_def)
  then show ?thesis using True by (simp add: number_value_apart [OF assms(1)])
next
  case False
  define g where "g = sig_digits src d"
  obtain p q where g: "i @ ds = replicate p ch_0 @ g @ replicate q ch_0" "adj d = int (length i) - 1 - int p"
    "written_exponent d = exponent_value e" "neg d = (s = [ch_minus])"
    using assms(2) False by (auto simp: decomposed_def g_def)
  have "digits_value (replicate q ch_0) = 0" using digits_value_zeros [of q "[]"] by (simp add: digits_value_def)
  then have v: "digits_value (i @ ds) = digits_value g * 10 ^ q" unfolding g(1) digits_value_zeros digits_value_append [of g] by simp
  have "length i + length ds = p + length g + q" using arg_cong [OF g(1), of length] by simp
  then have "exponent_value e - int (length ds) + int q = full_weight d + 1 - int (length g)"
    using g(2,3) by (simp add: full_weight_def)
  then have "(10 :: rat) powi (full_weight d + 1 - int (length g)) = 10 powi (exponent_value e - int (length ds)) * 10 ^ q"
    using powi_shift [of q "exponent_value e - int (length ds)"] by (simp add: add.commute mult.commute)
  then show ?thesis using False g(4) v by (simp add: number_value_apart [OF assms(1)] g_def [symmetric])
qed

subsection \<open>Equality\<close>

lemma decomposed_nonzero:
  assumes "decomposed src negative i ds e d" "\<not> isZero d"
  shows "weighted d" "dot_in_place src d" "core (sig_digits src d)" "neg d = negative"
  using assms by (auto simp: decomposed_def)

text \<open>C7: \<^verbatim>\<open>JSONNumberEqual\<close> on two JSON numbers never panics and decides whether they denote the same rational number,
  whatever their spelling: leading and trailing zeros, position of the dot, signs of zero, and exponents of any
  length, also those that no machine integer holds. The sizes are those of any input in memory.\<close>

theorem JSONNumberEqual_correct:
  assumes "json_number a" "json_number b" "length a < 2 ^ 62" "length b < 2 ^ 62"
  shows "JSONNumberEqual a b = Some (number_value a = number_value b)"
proof (cases "a = b")
  case True
  then show ?thesis by (simp add: JSONNumberEqual_def)
next
  case ne: False
  obtain sa ia fa dsa ea where ta: "taken_apart a sa ia fa dsa ea" using json_number_apart [OF assms(1)] by blast
  obtain sb ib fb dsb eb where tb: "taken_apart b sb ib fb dsb eb" using json_number_apart [OF assms(2)] by blast
  obtain da where a: "parseDecNumber a = Some da" "decomposed a (sa = [ch_minus]) ia dsa ea da" using parseDecNumber_correct [OF ta assms(3)] by blast
  obtain db where b: "parseDecNumber b = Some db" "decomposed b (sb = [ch_minus]) ib dsb eb db" using parseDecNumber_correct [OF tb assms(4)] by blast
  note va = decomposed_value [OF ta a(2)] and vb = decomposed_value [OF tb b(2)]
  have dv: "0 < digits_value g" if "core g" for g using core_bounds [OF that] by (auto intro: Nat.gr0I)
  then have pos: "(0 :: rat) < of_nat (digits_value g) * 10 powi w" if "core g" for g w using that by simp
  have "JSONNumberEqual a b = Some (if isZero da \<or> isZero db then isZero da = isZero db
      else if neg da \<noteq> neg db \<or> \<not> decWeightEqual da db then False else sigEqual a b da db (sigFirst da) (sigFirst db))"
    using ne by (simp add: JSONNumberEqual_def a(1) b(1))
  moreover have "(if isZero da \<or> isZero db then isZero da = isZero db
      else if neg da \<noteq> neg db \<or> \<not> decWeightEqual da db then False else sigEqual a b da db (sigFirst da) (sigFirst db))
      = (number_value a = number_value b)"
  proof (cases "isZero da \<or> isZero db")
    case True
    have "isZero da \<or> number_value a \<noteq> 0"
      using va dv [OF decomposed_nonzero(3) [OF a(2)]] by (cases "isZero da") simp_all
    moreover have "isZero db \<or> number_value b \<noteq> 0"
      using vb dv [OF decomposed_nonzero(3) [OF b(2)]] by (cases "isZero db") simp_all
    ultimately show ?thesis using True va vb by auto
  next
    case False
    then have nz: "\<not> isZero da" "\<not> isZero db" by auto
    note na = decomposed_nonzero [OF a(2) nz(1)] and nb = decomposed_nonzero [OF b(2) nz(2)]
    have d: "decWeightEqual da db \<longleftrightarrow> full_weight da = full_weight db" by (rule decWeightEqual_iff [OF na(1) nb(1)])
    have "sigEqual a b da db (sigFirst da) (sigFirst db) \<longleftrightarrow> sig_digits a da = sig_digits b db"
      using sigEqual_digits [OF na(2) nb(2) order_refl order_refl] by (simp add: digits_from_def sig_digits_def)
    moreover define x y where "x = (of_nat (digits_value (sig_digits a da)) * 10 powi (full_weight da + 1 - int (length (sig_digits a da))) :: rat)"
      and "y = (of_nat (digits_value (sig_digits b db)) * 10 powi (full_weight db + 1 - int (length (sig_digits b db))) :: rat)"
    moreover have "x = y \<longleftrightarrow> full_weight da = full_weight db \<and> sig_digits a da = sig_digits b db"
      unfolding x_def y_def by (rule core_unique [OF na(3) nb(3)])
    moreover have "0 < x" "0 < y" unfolding x_def y_def by (rule pos [OF na(3)], rule pos [OF nb(3)])
    then have "(number_value a = number_value b) \<longleftrightarrow> neg da = neg db \<and> x = y"
      using va vb nz unfolding x_def [symmetric] y_def [symmetric] by (cases "neg da"; cases "neg db") auto
    ultimately show ?thesis using nz d by auto
  qed
  ultimately show ?thesis by simp
qed

theorem JSONNumberEqual_correct_witness:
  "JSONNumberEqual [ch_1, ch_dot, ch_0] [ch_1, ch_0, ch_e, ch_minus, ch_1] = Some True"
proof -
  let ?a = "[ch_1, ch_dot, ch_0]" and ?b = "[ch_1, ch_0, ch_e, ch_minus, ch_1] :: bytes"
  have "json_number ?a" unfolding json_number_def
    by (rule exI [of _ "[]"], rule exI [of _ "[ch_1]"], rule exI [of _ "[ch_dot, ch_0]"], rule exI [of _ "[]"])
      (simp add: num_int_def num_frac_def num_exp_def digits1_def isOneNine_def IsDigit_def)
  moreover have ee: "num_exp [ch_e, ch_minus, ch_1]" unfolding num_exp_def
    by (rule disjI2, rule exI [of _ ch_e], rule exI [of _ "[ch_minus]"], rule exI [of _ "[ch_1]"]) (simp add: digits1_def IsDigit_def)
  have "json_number ?b" unfolding json_number_def
    by (rule exI [of _ "[]"], rule exI [of _ "[ch_1, ch_0]"], rule exI [of _ "[]"], rule exI [of _ "[ch_e, ch_minus, ch_1]"])
      (simp add: num_int_def num_frac_def isOneNine_def IsDigit_def ee)
  moreover have "number_value ?a = number_value ?b"
    by (simp add: number_value_def exponent_value_def digits_value_def IsDigit_def power_int_minus)
  ultimately show ?thesis using \<open>json_number ?b\<close> JSONNumberEqual_correct [of ?a ?b] by simp
qed

end
