(* ===== verification/Spec2Isabelle.thy ===== *)
theory Spec2Isabelle
  imports Indent KeyHash TrustedSeek BitmapCorrect StreamDeliver NumberEqual
begin

text \<open>
  A verification development for vibejson, a JSON library for Go (\<^verbatim>\<open>src/\<close>, package \<^verbatim>\<open>vibejson\<close>, with the helper
  packages \<^verbatim>\<open>x/scanner\<close>, \<^verbatim>\<open>simd\<close> and \<^verbatim>\<open>document\<close>).

  \<^bold>\<open>The program.\<close> Everything the library does with JSON text rests on a few leaf routines: byte scanners that
  test eight bytes per step, white-space skipping, and the scanners of number and string tokens. On them stand the
  recursive-descent walkers: the validator with positions in its errors, the validator that only answers yes or no,
  the compactor, the indenter and the lookups by JSON pointer in raw text. The string decoders and the string encoder
  translate between JSON spelling and UTF-8, the digit kernels between decimal notation and machine integers. The
  streaming writer puts the encoders together behind a buffer and a container stack.

  \<^bold>\<open>Theories and sources.\<close>
  \<^item> \<open>Prelude\<close>: bytes, slices of byte lists, the result type \<open>outcome\<close> (\<open>Ok\<close>, \<open>Fail\<close>, \<open>NoFuel\<close>), shared lemmas.
  \<^item> \<open>Swar\<close>, \<open>Scanner\<close> (\<^verbatim>\<open>x/scanner/\<close>, \<^verbatim>\<open>scan.go\<close>): the masks that find a byte class in a 64-bit
    word and the scanners over them. The locale \<open>swar_mask\<close> is the contract of a mask; every mask of the code
    interprets it. \<open>Space\<close> (\<^verbatim>\<open>space.go\<close>), \<open>Utf8\<close>, \<open>Runes\<close>: white space, literals, UTF-8 checks and decoding.
  \<^item> \<open>Errors\<close> (\<^verbatim>\<open>error.go\<close>): line and column of an offset, paths of encode errors.
  \<^item> \<open>Numbers\<close> (\<^verbatim>\<open>validate.go\<close>, \<^verbatim>\<open>valid_fast.go\<close>, \<^verbatim>\<open>number_digits.go\<close>): number tokens against the grammar of RFC 8259.
  \<^item> \<open>Strings\<close>, \<open>StringGrammar\<close>, \<open>StringFast\<close> (\<^verbatim>\<open>validate.go\<close>, \<^verbatim>\<open>valid_fast.go\<close>): string tokens; the inductive relations \<open>jchar\<close> and \<open>jchars\<close> say
    which contents are legal and what they denote.
  \<^item> \<open>Grammar\<close>, \<open>Reading\<close>: concrete syntax trees \<open>cst\<close> that keep every byte, their text \<open>render\<close>, the predicate
    \<open>json_document\<close>; unambiguous reading.
  \<^item> \<open>Validate\<close> (\<^verbatim>\<open>validate.go\<close>, \<^verbatim>\<open>parser.go\<close>): the validator with its layout counters. \<open>Walker\<close>: the locale
    \<open>document_walker\<close>, the contract every walker is an instance of. \<open>ValidFast\<close> (\<^verbatim>\<open>valid_fast.go\<close>), \<open>Emit\<close>,
    \<open>Compact\<close> (\<^verbatim>\<open>compact.go\<close>), \<open>Indent\<close> (\<^verbatim>\<open>indent.go\<close>).
  \<^item> \<open>StringDecode\<close>, \<open>StringTrusted\<close> (\<^verbatim>\<open>strings_decode*.go\<close>), \<open>ParserString\<close>, \<open>ParserLoop\<close> (\<^verbatim>\<open>parser.go\<close>): the decoders.
  \<^item> \<open>StringEncode\<close>, \<open>ShortStrings\<close>, \<open>EncodeCorrect\<close> (\<^verbatim>\<open>encoder_string.go\<close>): the encoder, a character-wise reference,
    and the round trip through the decoder.
  \<^item> \<open>KeyHash\<close> (\<^verbatim>\<open>index_keyhash.go\<close>), \<open>Pointer\<close> (\<^verbatim>\<open>pointer.go\<close>), \<open>RawString\<close>, \<open>RawSeek\<close>, \<open>RawResolve\<close> (\<^verbatim>\<open>raw.go\<close>): key
    hashes, compiled JSON pointers, raw values and lookups. The locale \<open>token_cursor\<close> is what a lookup needs of
    its pointer; spelled and compiled pointers interpret it. The locale \<open>tree_seeker\<close> is what a seeker over text must do
    at each value of a document's tree; it yields where every lookup ends.
  \<^item> \<open>Stage1\<close> (\<^verbatim>\<open>x/kernels/stage1_portable.go\<close>): the bitmaps of a block of 64 bytes; \<open>Stage1Stream\<close>,
    \<open>Stage1Scan\<close> (\<^verbatim>\<open>stage1_stream*.go\<close>): runs of blocks packed into positions, against a byte-at-a-time scan. \<open>TrustedSkip\<close>, \<open>TrustedSeek\<close>
    (\<^verbatim>\<open>raw_trusted.go\<close>): lookups in documents known to be valid, which skip containers block by block on those
    bitmaps. They interpret \<open>tree_seeker\<close> too, which makes them equal to the validating lookups.
  \<^item> \<open>Stage2\<close> (\<^verbatim>\<open>x/kernels/stage2.go\<close>, \<^verbatim>\<open>stage2_grammar_go.go\<close>): the grammar machine over token positions, a refinement of a
    stack machine; \<open>Tokens\<close>: that stack machine accepts exactly the lexemes of a syntax tree; \<open>Lexing\<close>: the scan of
    \<open>Stage1Stream\<close> finds those lexemes.
  \<^item> \<open>ValidPositions\<close> (\<^verbatim>\<open>valid_bitmap.go\<close>, \<^verbatim>\<open>valid_positions.go\<close>): the bitmap validator, which accelerated builds use for large texts:
    stage 1 in chunks of 32 blocks, stage 2 in batches of 128, escapes, scalars and UTF-8 beside them. Its record
    \<open>engine\<close> holds the variables of the loop, its results are \<open>Panic\<close>, \<open>Reject\<close> and \<open>Go\<close>. \<open>BitmapChecks\<close>, \<open>BitmapCorrect\<close>: each
    check against what \<open>Lexing\<close> asks, and the verdict of the whole.
  \<^item> \<open>DigitWords\<close>, \<open>DigitParse\<close>, \<open>IntAccess\<close>, \<open>IntEncode\<close> (\<^verbatim>\<open>simd/digits.go\<close>, \<^verbatim>\<open>number_digits.go\<close>, \<^verbatim>\<open>node.go\<close>, \<^verbatim>\<open>raw.go\<close>,
    \<^verbatim>\<open>encoder_int.go\<close>): integers to and from decimal text, on words of 64 bits with wrap-around.
  \<^item> \<open>DecWeight\<close>, \<open>NumberEqual\<close> (\<^verbatim>\<open>number_equal.go\<close>): equality of numbers by value, as rational numbers, with exponents
    of any length.
  \<^item> \<open>StreamWriter\<close> (\<^verbatim>\<open>stream_writer.go\<close>): the record \<open>writer\<close> and one function per method; \<open>StreamText\<close>: the text that
    belongs to a container stack; \<open>StreamCorrect\<close>, \<open>StreamDeliver\<close>: runs of calls.

  \<^bold>\<open>How the state corresponds.\<close> A Go slice or string is a list of 8-bit words; offsets are natural numbers; digits,
  masks and hashes keep their width. A routine that returns an error returns \<open>Fail\<close>, \<open>None\<close> or an error value. Memory
  that Go code can see but does not own, the spare bytes behind a buffer, what a reallocation provides, whether source
  and destination overlap, is a parameter (\<open>room\<close>, \<open>mem\<close>, \<open>grown\<close>, \<open>overlap\<close>, \<open>fresh\<close>, the record \<open>memory\<close>), so the
  theorems hold for all of it. In \<open>IntEncode\<close> a slice is its bytes and its spare bytes, and a reslice beyond the
  capacity is \<open>None\<close>. The caller's \<^verbatim>\<open>io.Writer\<close> is the parameter \<open>write\<close>; the theorems assume of it what its
  documentation promises (\<open>sink_contract\<close>), or that it accepts all bytes (\<open>accepting\<close>).

  \<^bold>\<open>What the lemmas show.\<close> The scanners return the first byte of their class. Tokens are accepted exactly when the
  grammar has them. Each walker accepts exactly the documents within the nesting limit, and so does the bitmap validator on every
  text shorter than 2^32 bytes, the range of its positions; the compactor and the indenter
  return the specified rendering of the document's tree; lookups return the member or element the pointer names, the
  same for spelled and compiled pointers. Decoding gives what the contents denote, encoding is valid and decodes to the
  input. Integers are formatted in decimal for every value and capacity, and read back; two spellings
  are equal numbers exactly when they denote the same rational. Every run of the writer whose
  unchecked parts are JSON values (the bytes given to \<^verbatim>\<open>RawUnchecked\<close>, and what the formatters behind \<^verbatim>\<open>EncodeTo\<close>, \<^verbatim>\<open>Float64\<close> and
  \<^verbatim>\<open>Time\<close> append) leaves a sink that keeps its contract with the beginning of a well-formed text; the first error is final; a tree written by tokens arrives whole.

  \<^bold>\<open>Termination and fuel.\<close> Loops are structural or have a measure. The walkers, which are mutually recursive in Go,
  are steps tied by one unit of fuel per call: \<open>2 * (length src - i) + 2\<close> for a value at offset \<open>i\<close> and one more for a
  loop, since of two nested calls at least one consumes a byte. \<open>NoFuel\<close> is proved unreachable from every entry point
  (\<open>parse_fuel\<close>, \<open>document_walker\<close>), so every theorem about results includes that the code returns.

  \<^bold>\<open>Not modelled.\<close> Vector intrinsics and assembly, which have no definition here (their portable bodies are modelled);
  so the bitmap validator is proved with the portable stage 1, and whether a build is accelerated is a parameter; the tape index
  and the typed encoder and decoder, whose plans store through unsafe pointers into Go memory; conversion of floats, which needs binary64 rounding, so the
  writer's float method takes its formatter as an argument, as do \<^verbatim>\<open>Time\<close> and \<^verbatim>\<open>EncodeTo\<close>; the streaming reader; and
  code that only generates, measures or tests.
\<close>

end
